(* ===== verification/Cpl_Prelude.thy ===== *)
theory Cpl_Prelude
  imports Complex_Main "HOL-Library.Word" "HOL-Library.Signed_Division"
begin

text \<open>
  What every theory of the development shares: the model of C strings and of the functions
  of the C library that \<^verbatim>\<open>port/\<close> calls on them, C's 32-bit conversion, and the generic
  lemmas about lists that the component proofs use.

  A C string is the list of its bytes before the terminating NUL, as a \<^typ>\<open>string\<close>;
  \<open>cstr s\<close> says that no NUL occurs inside, and \<open>char_at s i\<close> is the read \<open>s[i]\<close>, which yields
  the NUL at \<open>i = strlen s\<close>. A pointer that may be NULL is an \<open>option\<close>. C's \<open>int\<close> values are
  \<^typ>\<open>int\<close>; a conversion that can lose bits is written out with \<open>int32\<close>. C's \<open>/\<close> and \<open>%\<close> round
  towards zero: \<open>sdiv\<close> and \<open>smod\<close>. The locale is the "C" locale (ASCII case mapping).
\<close>

unbundle bit_operations_syntax

named_theorems cstr_simps \<open>facts that normalise the C string functions\<close>

section \<open>Characters and C strings\<close>

abbreviation NUL :: char where "NUL \<equiv> CHR 0x00"

abbreviation code :: "char \<Rightarrow> nat" where "code c \<equiv> of_char c"

definition cstr :: "string \<Rightarrow> bool" where
  "cstr s \<longleftrightarrow> NUL \<notin> set s"

definition char_at :: "string \<Rightarrow> nat \<Rightarrow> char" where
  "char_at s i = (if i < length s then s ! i else NUL)"

definition c_isupper :: "char \<Rightarrow> bool" where
  "c_isupper c \<longleftrightarrow> 65 \<le> code c \<and> code c \<le> 90"

definition c_islower :: "char \<Rightarrow> bool" where
  "c_islower c \<longleftrightarrow> 97 \<le> code c \<and> code c \<le> 122"

definition c_isdigit :: "char \<Rightarrow> bool" where
  "c_isdigit c \<longleftrightarrow> 48 \<le> code c \<and> code c \<le> 57"

definition c_isspace :: "char \<Rightarrow> bool" where
  "c_isspace c \<longleftrightarrow> code c = 32 \<or> (9 \<le> code c \<and> code c \<le> 13)"

definition c_tolower :: "char \<Rightarrow> char" where
  "c_tolower c = (if c_isupper c then char_of (code c + 32) else c)"

definition c_toupper :: "char \<Rightarrow> char" where
  "c_toupper c = (if c_islower c then char_of (code c - 32) else c)"

text \<open>\<open>strchr(s, c) != NULL\<close>: the search includes the terminating NUL.\<close>

definition strchr_found :: "string \<Rightarrow> char \<Rightarrow> bool" where
  "strchr_found s c \<longleftrightarrow> c = NUL \<or> c \<in> set s"

text \<open>\<open>strcasecmp\<close> and \<open>strncasecmp\<close>: the difference of the first two lower-cased bytes that
  differ; the NUL that ends the shorter string counts as code 0.\<close>

fun strcasecmp :: "string \<Rightarrow> string \<Rightarrow> int" where
  "strcasecmp [] [] = 0"
| "strcasecmp [] (y # ys) = - int (code (c_tolower y))"
| "strcasecmp (x # xs) [] = int (code (c_tolower x))"
| "strcasecmp (x # xs) (y # ys) =
     (if c_tolower x = c_tolower y then strcasecmp xs ys
      else int (code (c_tolower x)) - int (code (c_tolower y)))"

fun strncasecmp :: "string \<Rightarrow> string \<Rightarrow> nat \<Rightarrow> int" where
  "strncasecmp _ _ 0 = 0"
| "strncasecmp [] [] (Suc n) = 0"
| "strncasecmp [] (y # ys) (Suc n) = - int (code (c_tolower y))"
| "strncasecmp (x # xs) [] (Suc n) = int (code (c_tolower x))"
| "strncasecmp (x # xs) (y # ys) (Suc n) =
     (if c_tolower x = c_tolower y then strncasecmp xs ys n
      else int (code (c_tolower x)) - int (code (c_tolower y)))"

text \<open>The macros \<^verbatim>\<open>EQUAL\<close> and \<^verbatim>\<open>EQUALN\<close> of \<^verbatim>\<open>port/cpl_port.h\<close>.\<close>

definition EQUAL :: "string \<Rightarrow> string \<Rightarrow> bool" where
  "EQUAL a b \<longleftrightarrow> strcasecmp a b = 0"

definition EQUALN :: "string \<Rightarrow> string \<Rightarrow> nat \<Rightarrow> bool" where
  "EQUALN a b n \<longleftrightarrow> strncasecmp a b n = 0"

text \<open>Conversion of a wider integer to a 32-bit \<open>int\<close> (two's complement).\<close>

definition int32 :: "int \<Rightarrow> int" where
  "int32 x = signed_take_bit 31 x"

lemma int32_id: "- (2 ^ 31) \<le> x \<Longrightarrow> x < 2 ^ 31 \<Longrightarrow> int32 x = x"
  unfolding int32_def by (rule signed_take_bit_int_eq_self) auto

lemma int32_wrap:
  assumes "2 ^ 31 \<le> x" "x < 2 ^ 32"
  shows "int32 x = x - 2 ^ 32"
proof -
  have "x + 2 ^ 31 = (x + 2 ^ 31 - 2 ^ 32) + 2 ^ 32" by simp
  then have "(x + 2 ^ 31) mod 2 ^ 32 = (x + 2 ^ 31 - 2 ^ 32) mod 2 ^ 32" by (metis mod_add_self2)
  also have "\<dots> = x + 2 ^ 31 - 2 ^ 32" by (rule mod_pos_pos_trivial) (use assms in simp_all)
  finally have "(x + 2 ^ 31) mod 2 ^ Suc 31 = x + 2 ^ 31 - 2 ^ 32" by simp
  then show ?thesis by (simp only: int32_def signed_take_bit_eq_take_bit_shift take_bit_eq_mod)
qed

text \<open>The class of an error (\<^verbatim>\<open>port/cpl_error.h\<close>), and bytes.\<close>

datatype CPLErr = CE_None | CE_Debug | CE_Warning | CE_Failure | CE_Fatal

type_synonym byte = "8 word"

section \<open>Lemmas about characters and strings\<close>

lemma cstr_Nil [simp, intro]: "cstr []"
  by (simp add: cstr_def)

lemma cstr_Cons [simp]: "cstr (c # s) \<longleftrightarrow> c \<noteq> NUL \<and> cstr s"
  by (auto simp: cstr_def)

lemma cstr_append [simp]: "cstr (s @ t) \<longleftrightarrow> cstr s \<and> cstr t"
  by (auto simp: cstr_def)

lemma cstr_take [intro]: "cstr s \<Longrightarrow> cstr (take n s)"
  by (auto simp: cstr_def dest: in_set_takeD)

lemma cstr_drop [intro]: "cstr s \<Longrightarrow> cstr (drop n s)"
  by (auto simp: cstr_def dest: in_set_dropD)

lemma char_at_lt [simp]: "i < length s \<Longrightarrow> char_at s i = s ! i"
  by (simp add: char_at_def)

lemma char_at_end [simp]: "char_at s (length s) = NUL"
  by (simp add: char_at_def)

lemma char_at_append_length [simp]: "char_at (s @ c # t) (length s) = c"
  by (simp add: char_at_def nth_append)

lemma code_eq_0 [simp]: "code c = 0 \<longleftrightarrow> c = NUL"
proof -
  have "code NUL = 0" by simp
  then show ?thesis using of_char_eq_iff [of c NUL, where ?'a = nat] by (simp only:)
qed

lemma code_less: "code c < 256"
  by simp

lemma c_tolower_NUL_iff [simp]: "c_tolower c = NUL \<longleftrightarrow> c = NUL"
proof -
  have "code (c_tolower c) = 0 \<longleftrightarrow> code c = 0"
    by (simp add: c_tolower_def c_isupper_def del: code_eq_0)
  then show ?thesis by simp
qed

lemma c_tolower_idem [simp]: "c_tolower (c_tolower c) = c_tolower c"
  by (simp add: c_tolower_def c_isupper_def)

lemma strcasecmp_eq_0:
  "cstr a \<Longrightarrow> cstr b \<Longrightarrow> strcasecmp a b = 0 \<longleftrightarrow> map c_tolower a = map c_tolower b"
  by (induction a b rule: strcasecmp.induct) auto

lemma strncasecmp_eq_0:
  "cstr a \<Longrightarrow> cstr b \<Longrightarrow>
     strncasecmp a b n = 0 \<longleftrightarrow> map c_tolower (take n a) = map c_tolower (take n b)"
  by (induction a b n rule: strncasecmp.induct) auto

lemma EQUAL_iff [cstr_simps]:
  "cstr a \<Longrightarrow> cstr b \<Longrightarrow> EQUAL a b \<longleftrightarrow> map c_tolower a = map c_tolower b"
  by (simp add: EQUAL_def strcasecmp_eq_0)

lemma EQUALN_iff [cstr_simps]:
  "cstr a \<Longrightarrow> cstr b \<Longrightarrow> EQUALN a b n \<longleftrightarrow> map c_tolower (take n a) = map c_tolower (take n b)"
  by (simp add: EQUALN_def strncasecmp_eq_0)

lemma strcasecmp_refl [simp]: "strcasecmp a a = 0"
  by (induction a) auto

lemma EQUAL_refl [simp]: "EQUAL a a"
  by (simp add: EQUAL_def)

section \<open>Bytes\<close>

text \<open>Bytes are equal when their eight bits are.\<close>

lemma byte_eqI:
  "bit x 0 = bit y 0 \<Longrightarrow> bit x 1 = bit y 1 \<Longrightarrow> bit x 2 = bit y 2 \<Longrightarrow> bit x 3 = bit y 3 \<Longrightarrow>
   bit x 4 = bit y 4 \<Longrightarrow> bit x 5 = bit y 5 \<Longrightarrow> bit x 6 = bit y 6 \<Longrightarrow> bit x 7 = bit y 7 \<Longrightarrow> (x :: 8 word) = y"
proof (rule bit_word_eqI)
  fix n
  assume b: "bit x 0 = bit y 0" "bit x 1 = bit y 1" "bit x 2 = bit y 2" "bit x 3 = bit y 3"
    "bit x 4 = bit y 4" "bit x 5 = bit y 5" "bit x 6 = bit y 6" "bit x 7 = bit y 7"
    and n: "n < LENGTH(8)"
  from n have "n \<in> {0, 1, 2, 3, 4, 5, 6, 7}" by auto
  then show "bit x n = bit y n" using b by (elim insertE emptyE) (simp_all only:)
qed

lemma byte_bits:
  "\<not> bit (a :: 8 word) 8" "\<not> bit a 9" "\<not> bit a 10" "\<not> bit a 11" "\<not> bit a 12" "\<not> bit a 13"
  using bit_imp_le_length [of a] by fastforce+

lemmas byte_simps = bit_simps byte_bits

end
