(* ===== verification/Cpl_Time.thy ===== *)
theory Cpl_Time
  imports Cpl_Prelude
begin

text \<open>
  \<^verbatim>\<open>port/cpl_time.cpp\<close>: conversion between seconds since the Epoch and broken-down UTC time.
  The loop of \<^verbatim>\<open>CPLUnixTimeToYMDHMS\<close> that looks for the year is a
  \<^theory_text>\<open>partial_function (option)\<close>, so not returning is the value \<open>None\<close>; it is shown to return
  for every time after 1 January of the year 1 and not to return for some earlier ones.
  The values of type \<^verbatim>\<open>GIntBig\<close> are \<^typ>\<open>int\<close>: from a 64-bit \<open>unixTime\<close> no intermediate
  result leaves the 64-bit range. The conversions to \<^verbatim>\<open>int\<close> are written out.
\<close>

section \<open>The code\<close>

record tm =
  tm_sec :: int
  tm_min :: int
  tm_hour :: int
  tm_mday :: int
  tm_mon :: int
  tm_year :: int
  tm_wday :: int
  tm_yday :: int
  tm_isdst :: int

definition isleap :: "int \<Rightarrow> bool" where
  "isleap y \<longleftrightarrow> (y smod 4 = 0 \<and> y smod 100 \<noteq> 0) \<or> y smod 400 = 0"

definition LEAPS_THRU_END_OF :: "int \<Rightarrow> int" where
  "LEAPS_THRU_END_OF y = y sdiv 4 - y sdiv 100 + y sdiv 400"

definition mon_lengths :: "bool \<Rightarrow> int list" where
  "mon_lengths leap =
     (if leap then [31, 29, 31, 30, 31, 30, 31, 31, 30, 31, 30, 31]
      else [31, 28, 31, 30, 31, 30, 31, 31, 30, 31, 30, 31])"

definition year_lengths :: "bool \<Rightarrow> int" where
  "year_lengths leap = (if leap then 366 else 365)"

text \<open>\<open>while (rem < 0) { rem += SECSPERDAY; --days; }\<close>\<close>

function rem_loop :: "int \<Rightarrow> int \<Rightarrow> int \<times> int" where
  "rem_loop days r = (if r < 0 then rem_loop (days - 1) (r + 86400) else (days, r))"
  by pat_completeness auto
termination
  by (relation "measure (\<lambda>(days, r). nat (- r))") auto

declare rem_loop.simps [simp del]

text \<open>The loop over the years (lines 88 to 99): from year \<open>y\<close> and a day offset \<open>days\<close> to the year
  in which the offset falls.\<close>

partial_function (option) year_loop :: "int \<Rightarrow> int \<Rightarrow> (int \<times> int) option" where
  "year_loop y days =
     (if days < 0 \<or> days \<ge> year_lengths (isleap y) then
        (let newy = (if days < 0 then y + days sdiv 365 - 1 else y + days sdiv 365) in
         year_loop newy
           (days - ((newy - y) * 365 + LEAPS_THRU_END_OF (newy - 1) - LEAPS_THRU_END_OF (y - 1))))
      else Some (y, days))"

text \<open>\<open>for (tm_mon = 0; days >= ip[tm_mon]; ++tm_mon) days = days - ip[tm_mon];\<close> over the rest of
  the month table \<open>ip\<close>.\<close>

fun month_loop :: "int list \<Rightarrow> int \<Rightarrow> int \<Rightarrow> int \<times> int" where
  "month_loop [] mon days = (mon, days)"
| "month_loop (l # ls) mon days =
     (if days \<ge> l then month_loop ls (mon + 1) (days - l) else (mon, days))"

definition CPLUnixTimeToYMDHMS :: "int \<Rightarrow> tm option" where
  "CPLUnixTimeToYMDHMS unixTime =
     (let (days, r) = rem_loop (unixTime sdiv 86400) (unixTime smod 86400);
          hour = int32 (r sdiv 3600);
          r' = r smod 3600;
          mins = int32 (r' sdiv 60);
          sec = int32 (r' smod 60);
          wday = int32 ((4 + days) smod 7);
          wday' = (if wday < 0 then wday + 7 else wday)
      in case year_loop 1970 days of
           None \<Rightarrow> None
         | Some (y, yday) \<Rightarrow>
             (let (mon, mday) = month_loop (mon_lengths (isleap y)) 0 yday in
              Some \<lparr>tm_sec = sec, tm_min = mins, tm_hour = hour, tm_mday = int32 (mday + 1),
                    tm_mon = mon, tm_year = int32 (y - 1900), tm_wday = wday',
                    tm_yday = int32 yday, tm_isdst = 0\<rparr>))"

definition CPLYMDHMSToUnixTime :: "tm \<Rightarrow> int" where
  "CPLYMDHMSToUnixTime b =
     (if tm_mon b < 0 \<or> tm_mon b \<ge> 12 then -1
      else
        let days0 = tm_mday b - 1;
            ip = mon_lengths (isleap (1900 + tm_year b));
            days1 = fold (\<lambda>mon days. days + ip ! mon) [0..<nat (tm_mon b)] days0;
            days = days1 + ((1900 + tm_year b - 1970) * 365
                     + LEAPS_THRU_END_OF (1900 + tm_year b - 1) - LEAPS_THRU_END_OF (1970 - 1))
        in tm_sec b + tm_min b * 60 + tm_hour b * 3600 + days * 86400)"

section \<open>Leap years and day numbers\<close>

lemma smod_eq_0 [simp]: "(y::int) smod k = 0 \<longleftrightarrow> y mod k = 0"
proof
  assume "y smod k = 0"
  then have "y = k * (y sdiv k)" using mult_sdiv_smod_eq [of k y] by simp
  then show "y mod k = 0" by (metis mod_mult_self1_is_0)
next
  assume "y mod k = 0"
  then show "y smod k = 0" by (simp add: signed_modulo_int_eq_modulo_int dvd_eq_mod_eq_0)
qed

lemma isleap_mod: "isleap y \<longleftrightarrow> (y mod 4 = 0 \<and> y mod 100 \<noteq> 0) \<or> y mod 400 = 0"
  by (simp add: isleap_def)

lemma sdiv_nonneg: "0 \<le> y \<Longrightarrow> 0 < k \<Longrightarrow> (y::int) sdiv k = y div k"
  by (cases "y = 0") (simp_all add: signed_divide_int_def)

lemma sdiv_neg: "y < 0 \<Longrightarrow> 0 < k \<Longrightarrow> (y::int) sdiv k = - ((- y) div k)"
  by (simp add: signed_divide_int_def)

lemma smod_nonneg: "0 \<le> y \<Longrightarrow> 0 < k \<Longrightarrow> (y::int) smod k = y mod k"
  by (cases "y = 0") (simp_all add: signed_modulo_int_def)

lemma LEAPS_nonneg: "0 \<le> y \<Longrightarrow> LEAPS_THRU_END_OF y = y div 4 - y div 100 + y div 400"
  by (simp add: LEAPS_THRU_END_OF_def sdiv_nonneg)

lemma LEAPS_neg: "LEAPS_THRU_END_OF (- y) = - LEAPS_THRU_END_OF y"
  by (simp add: LEAPS_THRU_END_OF_def signed_divide_int_def)

lemma div_step: "0 < k \<Longrightarrow> (y::int) div k - (y - 1) div k = of_bool (y mod k = 0)"
proof -
  assume k: "0 < k"
  show ?thesis
  proof (cases "y mod k = 0")
    case True
    then have "y - 1 = k * (y div k - 1) + (k - 1)"
      using mult_div_mod_eq [of k y] by (simp add: algebra_simps)
    then have "(y - 1) div k = y div k - 1"
      using k by (intro int_div_pos_eq [where r = "k - 1"]) auto
    then show ?thesis using True by simp
  next
    case False
    then have "0 < y mod k" using k by (simp add: le_neq_trans pos_mod_sign)
    moreover have "y mod k < k" using k by simp
    moreover have "y - 1 = k * (y div k) + (y mod k - 1)" by simp
    ultimately have "(y - 1) div k = y div k"
      by (intro int_div_pos_eq [where r = "y mod k - 1"]) auto
    then show ?thesis using False by simp
  qed
qed

lemma leap_bits:
  "(p400 \<longrightarrow> p100) \<Longrightarrow> (p100 \<longrightarrow> p4) \<Longrightarrow>
     of_bool p4 - of_bool p100 + of_bool p400 = (of_bool ((p4 \<and> \<not> p100) \<or> p400) :: int)"
  by (cases p4; cases p100; cases p400) simp_all

lemma LEAPS_step: "1 \<le> y \<Longrightarrow> LEAPS_THRU_END_OF y - LEAPS_THRU_END_OF (y - 1) = of_bool (isleap y)"
proof -
  assume y: "1 \<le> y"
  have m: "y mod 400 = 0 \<longrightarrow> y mod 100 = 0" "y mod 100 = 0 \<longrightarrow> y mod 4 = 0"
    using dvd_trans [of 100 400 y] dvd_trans [of 4 100 y] by (simp_all add: mod_eq_0_iff_dvd)
  have "LEAPS_THRU_END_OF y - LEAPS_THRU_END_OF (y - 1) =
      (y div 4 - (y - 1) div 4) - (y div 100 - (y - 1) div 100) + (y div 400 - (y - 1) div 400)"
    using y by (simp only: LEAPS_nonneg)
  also have "\<dots> = of_bool (y mod 4 = 0) - of_bool (y mod 100 = 0) + of_bool (y mod 400 = 0)"
    by (simp only: div_step)
  also have "\<dots> = of_bool (isleap y)"
    unfolding isleap_mod using m by (rule leap_bits)
  finally show ?thesis .
qed

lemma LEAPS_step_any: "LEAPS_THRU_END_OF y - LEAPS_THRU_END_OF (y - 1) \<in> {0, 1}"
proof (cases "1 \<le> y")
  case True
  then show ?thesis using LEAPS_step [of y] by simp
next
  case False
  have "LEAPS_THRU_END_OF (1 - y) - LEAPS_THRU_END_OF (1 - y - 1) = of_bool (isleap (1 - y))"
    using False by (intro LEAPS_step) simp
  then show ?thesis using LEAPS_neg [of "1 - y"] LEAPS_neg [of "- y"] by (simp split: if_splits)
qed

lemma LEAPS_between: "LEAPS_THRU_END_OF (y + int n) - LEAPS_THRU_END_OF y \<in> {0..int n}"
proof (induction n)
  case (Suc n)
  then show ?case using LEAPS_step_any [of "y + int (Suc n)"] by (auto simp: algebra_simps)
qed simp

lemma LEAPS_mono: "y \<le> z \<Longrightarrow>
  0 \<le> LEAPS_THRU_END_OF z - LEAPS_THRU_END_OF y \<and> LEAPS_THRU_END_OF z - LEAPS_THRU_END_OF y \<le> z - y"
  using LEAPS_between [of y "nat (z - y)"] by simp

text \<open>The day number of 1 January of year \<open>y\<close>, day 0 being 1 January of the year 1; it is the
  quantity each turn of the loop keeps.\<close>

definition jan1 :: "int \<Rightarrow> int" where
  "jan1 y = 365 * (y - 1) + LEAPS_THRU_END_OF (y - 1)"

definition epoch_days :: int where
  "epoch_days = 719162"

lemma jan1_1 [simp]: "jan1 1 = 0"
  by (simp add: jan1_def LEAPS_THRU_END_OF_def)

lemma jan1_1970: "jan1 1970 = epoch_days"
  by (simp add: jan1_def epoch_days_def LEAPS_THRU_END_OF_def signed_divide_int_def)

lemma jan1_step: "1 \<le> y \<Longrightarrow> jan1 (y + 1) = jan1 y + year_lengths (isleap y)"
  using LEAPS_step [of y] by (cases "isleap y") (simp_all add: jan1_def year_lengths_def)

lemma jan1_diff: "y \<le> z \<Longrightarrow> 365 * (z - y) \<le> jan1 z - jan1 y \<and> jan1 z - jan1 y \<le> 366 * (z - y)"
  using LEAPS_mono [of "y - 1" "z - 1"] by (simp add: jan1_def)

lemma jan1_less: "y < z \<Longrightarrow> jan1 y < jan1 z"
  using jan1_diff [of y z] by simp

section \<open>The loop over the years returns\<close>

definition year_measure :: "int \<Rightarrow> nat" where
  "year_measure days = (if days < 0 then nat (5 - 2 * days) else nat (2 * days))"

definition next_year :: "int \<Rightarrow> int \<Rightarrow> int" where
  "next_year y days = (if days < 0 then y + days sdiv 365 - 1 else y + days sdiv 365)"

lemma year_loop_unfold:
  "year_loop y days =
     (if days < 0 \<or> days \<ge> year_lengths (isleap y)
      then year_loop (next_year y days) (days - (jan1 (next_year y days) - jan1 y))
      else Some (y, days))"
  by (subst year_loop.simps) (simp add: next_year_def jan1_def Let_def algebra_simps)

lemma next_year_neg: "days < 0 \<Longrightarrow> next_year y days = y - ((- days) div 365 + 1)"
  by (simp add: next_year_def sdiv_neg)

lemma next_year_nonneg: "0 \<le> days \<Longrightarrow> next_year y days = y + days div 365"
  by (simp add: next_year_def sdiv_nonneg)

lemma year_step_decreases:
  assumes exit: "days < 0 \<or> days \<ge> year_lengths (isleap y)"
    and new: "days' = days - (jan1 (next_year y days) - jan1 y)"
    and out: "days' < 0 \<or> days' \<ge> year_lengths (isleap (next_year y days))"
    and pos: "days < 0 \<Longrightarrow> 2 \<le> y"
  shows "year_measure days' < year_measure days"
proof (cases "days < 0")
  case True
  define q where "q = (- days) div 365"
  have q: "365 * q \<le> - days" "- days < 365 * q + 365" "0 \<le> q"
    using True unfolding q_def by (auto simp: div_int_pos_iff)
  have ny: "next_year y days = y - (q + 1)" using True by (simp add: next_year_neg q_def)
  have d: "365 * (q + 1) \<le> jan1 y - jan1 (y - (q + 1)) \<and> jan1 y - jan1 (y - (q + 1)) \<le> 366 * (q + 1)"
    using jan1_diff [of "y - (q + 1)" y] q by simp
  show ?thesis
  proof (cases "q = 0")
    case True
    have "jan1 y = jan1 (y - 1) + year_lengths (isleap (y - 1))"
      using jan1_step [of "y - 1"] pos \<open>days < 0\<close> by simp
    then have False using out new ny True \<open>days < 0\<close> q by (simp add: year_lengths_def split: if_splits)
    then show ?thesis ..
  next
    case False
    then show ?thesis using d new ny q \<open>days < 0\<close> by (auto simp: year_measure_def)
  qed
next
  case False
  define q where "q = days div 365"
  have q: "365 * q \<le> days" "days < 365 * q + 365"
    unfolding q_def by presburger+
  have ge: "365 \<le> days" using exit False by (auto simp: year_lengths_def split: if_splits)
  have ny: "next_year y days = y + q" using False by (simp add: next_year_nonneg q_def)
  have "365 * q \<le> jan1 (y + q) - jan1 y \<and> jan1 (y + q) - jan1 y \<le> 366 * q"
    using jan1_diff [of y "y + q"] q ge by simp
  then show ?thesis using new ny q ge out False
    by (auto simp: year_measure_def year_lengths_def split: if_splits)
qed

lemma jan1_pos: "0 < jan1 y \<Longrightarrow> 2 \<le> y"
  using jan1_diff [of y 1] by (cases "y \<le> 1") auto

lemma year_loop_exit:
  assumes "0 < jan1 y + days" and "\<not> (days < 0 \<or> days \<ge> year_lengths (isleap y))"
  shows "1 \<le> y"
  using assms jan1_diff [of y 1]
  by (cases "y \<le> 0") (auto simp: year_lengths_def split: if_splits)

lemma year_loop_returns:
  assumes "0 < jan1 y + days"
  shows "\<exists>y' d. year_loop y days = Some (y', d) \<and> 1 \<le> y'"
  using assms
proof (induction "year_measure days" arbitrary: y days rule: less_induct)
  case less
  define ny where "ny = next_year y days"
  define nd where "nd = days - (jan1 ny - jan1 y)"
  have inv: "0 < jan1 ny + nd" using less.prems by (simp add: nd_def)
  show ?case
  proof (cases "days < 0 \<or> days \<ge> year_lengths (isleap y)")
    case False
    then show ?thesis using less.prems year_loop_exit by (subst year_loop_unfold) auto
  next
    case True
    then have step: "year_loop y days = year_loop ny nd"
      by (subst year_loop_unfold) (simp add: ny_def nd_def)
    show ?thesis
    proof (cases "nd < 0 \<or> nd \<ge> year_lengths (isleap ny)")
      case False
      then have "year_loop ny nd = Some (ny, nd)" by (subst year_loop_unfold) simp
      then show ?thesis using step year_loop_exit [OF inv False] by simp
    next
      case out: True
      have "year_measure nd < year_measure days"
        using True nd_def out less.prems jan1_pos [of y] unfolding ny_def
        by (intro year_step_decreases) auto
      then show ?thesis using less.hyps inv step by simp
    qed
  qed
qed

text \<open>Whatever the loop returns is the year of the day number it was given.\<close>

lemma year_loop_Some:
  assumes "year_loop y days = Some res"
  shows "0 \<le> snd res \<and> snd res < year_lengths (isleap (fst res))
    \<and> jan1 (fst res) + snd res = jan1 y + days"
proof (rule year_loop.raw_induct [where P = "\<lambda>y days res. 0 \<le> snd res
      \<and> snd res < year_lengths (isleap (fst res)) \<and> jan1 (fst res) + snd res = jan1 y + days",
      OF _ assms])
  fix f y days res
  assume IH: "\<And>y days res. f y days = Some res \<Longrightarrow> 0 \<le> snd res
      \<and> snd res < year_lengths (isleap (fst res)) \<and> jan1 (fst res) + snd res = jan1 y + days"
    and eq: "(if days < 0 \<or> days \<ge> year_lengths (isleap y) then
        (let newy = (if days < 0 then y + days sdiv 365 - 1 else y + days sdiv 365) in
         f newy (days - ((newy - y) * 365 + LEAPS_THRU_END_OF (newy - 1)
           - LEAPS_THRU_END_OF (y - 1))))
      else Some (y, days)) = Some res"
  show "0 \<le> snd res \<and> snd res < year_lengths (isleap (fst res))
      \<and> jan1 (fst res) + snd res = jan1 y + days"
  proof (cases "days < 0 \<or> days \<ge> year_lengths (isleap y)")
    case True
    define ny where "ny = next_year y days"
    have "f ny (days - ((ny - y) * 365 + LEAPS_THRU_END_OF (ny - 1) - LEAPS_THRU_END_OF (y - 1)))
        = Some res"
      using eq True by (simp add: ny_def next_year_def Let_def)
    from IH [OF this] show ?thesis by (simp add: jan1_def)
  next
    case False
    then show ?thesis using eq by auto
  qed
qed

section \<open>The loop over the months\<close>

lemma month_loop_bounds:
  assumes "0 \<le> d" "d < sum_list ls"
  shows "\<exists>k r. month_loop ls mon d = (mon + int k, r) \<and> k < length ls \<and> 0 \<le> r \<and> r < ls ! k
    \<and> d = sum_list (take k ls) + r"
  using assms
proof (induction ls arbitrary: mon d)
  case (Cons l ls)
  show ?case
  proof (cases "l \<le> d")
    case True
    then obtain k r where "month_loop ls (mon + 1) (d - l) = (mon + 1 + int k, r)"
      "k < length ls" "0 \<le> r" "r < ls ! k" "d - l = sum_list (take k ls) + r"
      using Cons.IH [of "d - l" "mon + 1"] Cons.prems by auto
    with True show ?thesis by (intro exI [of _ "Suc k"] exI [of _ r]) auto
  next
    case False
    with Cons.prems show ?thesis by (intro exI [of _ 0] exI [of _ d]) auto
  qed
qed simp

lemma month_loop_at:
  assumes "\<forall>l \<in> set ls. 0 \<le> l" "k < length ls" "0 \<le> r" "r < ls ! k"
  shows "month_loop ls mon (sum_list (take k ls) + r) = (mon + int k, r)"
  using assms
proof (induction ls arbitrary: mon k)
  case (Cons l ls)
  show ?case
  proof (cases k)
    case 0
    with Cons.prems show ?thesis by simp
  next
    case (Suc k')
    have "0 \<le> sum_list (take k' ls)"
      using Cons.prems by (intro sum_list_nonneg) (auto dest: in_set_takeD)
    with Suc Cons show ?thesis by simp
  qed
qed simp

lemma days_before_month:
  "n \<le> length ip \<Longrightarrow> fold (\<lambda>mon days. days + ip ! mon) [0..<n] d = d + sum_list (take n ip)"
  for ip :: "int list"
  by (induction n) (simp_all add: take_Suc_conv_app_nth)

lemma length_mon_lengths [simp]: "length (mon_lengths b) = 12"
  by (simp add: mon_lengths_def)

lemma sum_mon_lengths [simp]: "sum_list (mon_lengths b) = year_lengths b"
  by (simp add: mon_lengths_def year_lengths_def)

lemma mon_lengths_bounds: "\<forall>l \<in> set (mon_lengths b). 28 \<le> l \<and> l \<le> 31"
  by (simp add: mon_lengths_def)

section \<open>The two conversions\<close>

text \<open>A broken-down time whose time of day and date exist.\<close>

definition valid_tm :: "tm \<Rightarrow> bool" where
  "valid_tm b \<longleftrightarrow> 0 \<le> tm_sec b \<and> tm_sec b < 60 \<and> 0 \<le> tm_min b \<and> tm_min b < 60
     \<and> 0 \<le> tm_hour b \<and> tm_hour b < 24 \<and> 0 \<le> tm_mon b \<and> tm_mon b < 12
     \<and> 1 \<le> tm_mday b \<and> tm_mday b \<le> mon_lengths (isleap (1900 + tm_year b)) ! nat (tm_mon b)"

lemma rem_loop_eq:
  "- 86400 < r \<Longrightarrow> rem_loop d r = (if r < 0 then (d - 1, r + 86400) else (d, r))"
  by (subst rem_loop.simps, subst rem_loop.simps) simp

lemma rem_loop_divmod:
  "rem_loop (t sdiv 86400) (t smod 86400) = (t div 86400, t mod 86400)"
proof (cases "0 \<le> t")
  case True
  then show ?thesis by (simp add: rem_loop_eq sdiv_nonneg smod_nonneg pos_mod_sign)
next
  case False
  have m: "t smod 86400 = t mod 86400 - 86400 * of_bool (\<not> 86400 dvd t)"
    and d: "t sdiv 86400 = t div 86400 + of_bool (\<not> 86400 dvd t)"
    using False by (simp_all add: signed_modulo_int_eq_modulo_int signed_divide_int_eq_divide_int sgn_if)
  have "0 \<le> t mod 86400" "t mod 86400 < 86400" by simp_all
  then show ?thesis
    by (cases "86400 dvd t") (auto simp: m d rem_loop_eq dvd_eq_mod_eq_0)
qed

lemma wday_mod: "(if w smod 7 < 0 then w smod 7 + 7 else w smod 7) = w mod (7::int)"
proof (cases "0 \<le> w")
  case True
  then show ?thesis by (simp add: smod_nonneg)
next
  case False
  then have "w smod 7 = w mod 7 - 7 * of_bool (\<not> 7 dvd w)"
    by (simp add: signed_modulo_int_eq_modulo_int sgn_if)
  then have "w smod 7 = w mod 7 \<or> w smod 7 = w mod 7 - 7" by (cases "7 dvd w") simp_all
  moreover have "0 \<le> w mod 7" "w mod 7 < 7" by simp_all
  ultimately show ?thesis by (cases "w smod 7 < 0") auto
qed

lemma int32_small: "- 1000 \<le> x \<Longrightarrow> x \<le> 1000 \<Longrightarrow> int32 x = x"
  by (rule int32_id) auto

text \<open>The result in terms of the day number, once the year loop has returned.\<close>

lemma CPLUnixTimeToYMDHMS_eq:
  assumes "year_loop 1970 (t div 86400) = Some (y, d)"
  shows "\<exists>k r. CPLUnixTimeToYMDHMS t = Some
      \<lparr>tm_sec = t mod 86400 mod 3600 mod 60, tm_min = t mod 86400 mod 3600 div 60,
       tm_hour = t mod 86400 div 3600, tm_mday = r + 1, tm_mon = int k, tm_year = int32 (y - 1900),
       tm_wday = (4 + t div 86400) mod 7, tm_yday = d, tm_isdst = 0\<rparr>
    \<and> k < 12 \<and> 0 \<le> r \<and> r < mon_lengths (isleap y) ! k
    \<and> d = sum_list (take k (mon_lengths (isleap y))) + r"
proof -
  have d: "0 \<le> d" "d < year_lengths (isleap y)" using year_loop_Some [OF assms] by auto
  then obtain k r where kr: "month_loop (mon_lengths (isleap y)) 0 d = (int k, r)" "k < 12" "0 \<le> r"
    "r < mon_lengths (isleap y) ! k" "d = sum_list (take k (mon_lengths (isleap y))) + r"
    using month_loop_bounds [of d "mon_lengths (isleap y)" 0] by auto
  have "mon_lengths (isleap y) ! k \<le> 31"
    using mon_lengths_bounds [of "isleap y"] kr(2) by (metis length_mon_lengths nth_mem)
  then have r: "int32 (r + 1) = r + 1" using kr by (intro int32_small) auto
  have dd: "int32 d = d" using d by (intro int32_small) (auto simp: year_lengths_def split: if_splits)
  define h where "h = t mod 86400"
  have h: "0 \<le> h" "h < 86400" by (simp_all add: h_def)
  have "0 \<le> h div 3600" "h div 3600 \<le> 24" "0 \<le> h mod 3600" "h mod 3600 < 3600"
    "0 \<le> h mod 3600 div 60" "h mod 3600 div 60 \<le> 60" "0 \<le> h mod 3600 mod 60" "h mod 3600 mod 60 < 60"
    using h by (auto simp: pos_imp_zdiv_nonneg_iff)
  then have hms: "int32 (h sdiv 3600) = h div 3600" "h smod 3600 = h mod 3600"
    "int32 (h mod 3600 sdiv 60) = h mod 3600 div 60" "int32 (h mod 3600 smod 60) = h mod 3600 mod 60"
    using h by (simp_all add: sdiv_nonneg smod_nonneg int32_small)
  have "\<bar>(4 + t div 86400) smod 7\<bar> < 7" by (simp add: signed_modulo_int_def abs_mult)
  then have "int32 ((4 + t div 86400) smod 7) = (4 + t div 86400) smod 7"
    by (intro int32_small) auto
  then have w: "(if int32 ((4 + t div 86400) smod 7) < 0 then int32 ((4 + t div 86400) smod 7) + 7
      else int32 ((4 + t div 86400) smod 7)) = (4 + t div 86400) mod 7"
    by (simp only: wday_mod)
  have "CPLUnixTimeToYMDHMS t = Some
      \<lparr>tm_sec = h mod 3600 mod 60, tm_min = h mod 3600 div 60, tm_hour = h div 3600, tm_mday = r + 1,
       tm_mon = int k, tm_year = int32 (y - 1900), tm_wday = (4 + t div 86400) mod 7, tm_yday = d,
       tm_isdst = 0\<rparr>"
    by (simp only: CPLUnixTimeToYMDHMS_def rem_loop_divmod Let_def prod.case assms option.case kr(1)
        h_def [symmetric] hms w r dd)
  then show ?thesis
    unfolding h_def using kr(2-5) by (intro exI conjI)
qed

lemma CPLYMDHMSToUnixTime_eq:
  assumes "0 \<le> tm_mon b" "tm_mon b < 12"
  shows "CPLYMDHMSToUnixTime b = tm_sec b + tm_min b * 60 + tm_hour b * 3600
    + (tm_mday b - 1 + sum_list (take (nat (tm_mon b)) (mon_lengths (isleap (1900 + tm_year b))))
       + jan1 (1900 + tm_year b) - epoch_days) * 86400"
proof -
  have "LEAPS_THRU_END_OF 1969 = 477"
    by (simp add: LEAPS_THRU_END_OF_def signed_divide_int_def)
  then show ?thesis
    using assms by (simp add: CPLYMDHMSToUnixTime_def Let_def days_before_month jan1_def epoch_days_def)
qed

lemma year_loop_day_0: "year_loop 1970 (- 719162) = Some (1, 0)"
  by (subst year_loop.simps, subst year_loop.simps, subst year_loop.simps)
    (simp add: isleap_mod year_lengths_def LEAPS_THRU_END_OF_def signed_divide_int_def)

lemma time_of_day: "h mod 3600 mod 60 + h mod 3600 div 60 * 60 + h div 3600 * 3600 = (h::int)"
  by (simp add: mult.commute [of _ 60] mult.commute [of _ 3600])

lemma year_loop_from_epoch:
  assumes "- 62135596800 \<le> t"
  shows "\<exists>y d. year_loop 1970 (t div 86400) = Some (y, d) \<and> 1 \<le> y"
proof (cases "t div 86400 = - 719162")
  case True
  then show ?thesis using year_loop_day_0 by simp
next
  case False
  have "- 719162 \<le> t div 86400" using zdiv_mono1 [OF assms, of 86400] by simp
  then have "0 < jan1 1970 + t div 86400" using False by (simp add: jan1_1970 epoch_days_def)
  then show ?thesis by (rule year_loop_returns)
qed

lemma year_bound:
  assumes "jan1 y + d = epoch_days + t div 86400" "0 \<le> d" "t \<le> 2 ^ 55" "1 \<le> y"
  shows "y < 2 ^ 31"
proof -
  have "t div 86400 \<le> 2 ^ 55 div 86400" using assms(3) by (rule zdiv_mono1) simp
  moreover have "365 * (y - 1) \<le> jan1 y" using jan1_diff [of 1 y] assms(4) by simp
  ultimately show ?thesis using assms(1,2) by (simp add: epoch_days_def)
qed

text \<open>The year of a day number is unique.\<close>

lemma jan1_unique:
  assumes "jan1 y + d = jan1 y' + d'" "1 \<le> y" "1 \<le> y'" "0 \<le> d" "d < year_lengths (isleap y)"
    "0 \<le> d'" "d' < year_lengths (isleap y')"
  shows "y = y' \<and> d = d'"
proof -
  have *: "False" if "jan1 y + d = jan1 y' + d'" "y < y'" "1 \<le> y" "d < year_lengths (isleap y)" "0 \<le> d'"
    for y y' d d' :: int
  proof -
    have "jan1 (y + 1) \<le> jan1 y'" using jan1_less [of "y + 1" y'] that(2) by (cases "y + 1 = y'") auto
    then show False using jan1_step [OF that(3)] that by simp
  qed
  have "y = y'" using * [of y d y' d'] * [of y' d' y d] assms by (cases y y' rule: linorder_cases) auto
  then show ?thesis using assms(1) by simp
qed

text \<open>C25: every time from 1 January of the year 1 up to \<open>2 ^ 55\<close> seconds is converted, to a time that exists, with
  the day of the week and of the year that belong to it, and converting back gives the time.\<close>

theorem unix_time_to_ymdhms_correct:
  assumes "- 62135596800 \<le> t" and "t \<le> 2 ^ 55"
  shows "\<exists>b. CPLUnixTimeToYMDHMS t = Some b \<and> valid_tm b \<and> 1 \<le> 1900 + tm_year b
    \<and> tm_wday b = (4 + t div 86400) mod 7 \<and> tm_isdst b = 0
    \<and> tm_yday b = sum_list (take (nat (tm_mon b)) (mon_lengths (isleap (1900 + tm_year b)))) + tm_mday b - 1
    \<and> CPLYMDHMSToUnixTime b = t"
proof -
  obtain y d where yd: "year_loop 1970 (t div 86400) = Some (y, d)" "1 \<le> y"
    using year_loop_from_epoch [OF assms(1)] by blast
  have inv: "0 \<le> d" "jan1 y + d = epoch_days + t div 86400"
    using year_loop_Some [OF yd(1)] by (simp_all add: jan1_1970)
  have y: "int32 (y - 1900) = y - 1900"
    using year_bound [OF inv(2,1) assms(2) yd(2)] yd(2) by (intro int32_id) auto
  define h where "h = t mod 86400"
  obtain k r where kr: "k < 12" "0 \<le> r" "r < mon_lengths (isleap y) ! k"
    "d = sum_list (take k (mon_lengths (isleap y))) + r"
    and b: "CPLUnixTimeToYMDHMS t = Some
      \<lparr>tm_sec = h mod 3600 mod 60, tm_min = h mod 3600 div 60,
       tm_hour = h div 3600, tm_mday = r + 1, tm_mon = int k, tm_year = int32 (y - 1900),
       tm_wday = (4 + t div 86400) mod 7, tm_yday = d, tm_isdst = 0\<rparr>"
    using CPLUnixTimeToYMDHMS_eq [OF yd(1)] unfolding h_def by blast
  let ?b = "\<lparr>tm_sec = h mod 3600 mod 60, tm_min = h mod 3600 div 60,
       tm_hour = h div 3600, tm_mday = r + 1, tm_mon = int k, tm_year = y - 1900,
       tm_wday = (4 + t div 86400) mod 7, tm_yday = d, tm_isdst = 0\<rparr>"
  have "0 \<le> h" "h < 86400" by (simp_all add: h_def)
  then have "0 \<le> h div 3600" "h div 3600 < 24" "0 \<le> h mod 3600 div 60" "h mod 3600 div 60 < 60"
    by (simp_all add: div_less_iff_less_mult pos_imp_zdiv_nonneg_iff)
  then have v: "valid_tm ?b" using kr(1-3) by (simp add: valid_tm_def)
  have "CPLYMDHMSToUnixTime ?b
      = (h mod 3600 mod 60 + h mod 3600 div 60 * 60 + h div 3600 * 3600) + (d + jan1 y - epoch_days) * 86400"
    using kr(1) kr(4) [symmetric] by (simp add: CPLYMDHMSToUnixTime_eq)
  also have "\<dots> = h + t div 86400 * 86400"
  proof -
    have "d + jan1 y - epoch_days = t div 86400" using inv(2) by simp
    then show ?thesis by (simp only: time_of_day)
  qed
  also have "\<dots> = t" unfolding h_def by simp
  finally have conv: "CPLYMDHMSToUnixTime ?b = t" .
  have "1 \<le> 1900 + (y - 1900)" using yd(2) by simp
  then show ?thesis
    by (intro exI [of _ ?b] conjI conv v) (simp_all add: b y kr(4) [symmetric] split del: if_split)
qed

theorem unix_time_to_ymdhms_correct_witness:
  "- 62135596800 \<le> (951782400 :: int) \<and> (951782400 :: int) \<le> 2 ^ 55
     \<and> (\<exists>b. CPLUnixTimeToYMDHMS 951782400 = Some b \<and> CPLYMDHMSToUnixTime b = 951782400)"
  using unix_time_to_ymdhms_correct [of 951782400] by auto

lemma time_of_fields:
  assumes "0 \<le> s" "s < 60" "0 \<le> m" "m < 60" "0 \<le> h" "h < (24::int)"
  shows "(s + m * 60 + h * 3600 + d * 86400) mod 86400 = s + m * 60 + h * 3600"
    and "(s + m * 60 + h * 3600 + d * 86400) div 86400 = d"
    and "(s + m * 60 + h * 3600) div 3600 = h"
    and "(s + m * 60 + h * 3600) mod 3600 = s + m * 60"
    and "(s + m * 60) div 60 = m" and "(s + m * 60) mod 60 = s"
  using assms by (simp_all add: int_div_pos_eq int_mod_pos_eq)

lemma day_of_year_bounds:
  assumes "k < 12" and "0 \<le> r" and "r < mon_lengths l ! k"
  shows "0 \<le> sum_list (take k (mon_lengths l)) + r \<and> sum_list (take k (mon_lengths l)) + r < year_lengths l"
proof -
  have "k \<in> {0, 1, 2, 3, 4, 5, 6, 7, 8, 9, 10, 11}"
    using assms(1) by (simp add: numeral_eq_Suc less_Suc_eq)
  then show ?thesis using assms(2,3)
    by (elim insertE emptyE) (simp_all add: mon_lengths_def year_lengths_def split: if_splits)
qed

text \<open>Converting a date and time that exist (from the year 1 on) to seconds and back gives the same
  date and time.\<close>

theorem ymdhms_unix_time_roundtrip:
  assumes "valid_tm b" and "1 \<le> 1900 + tm_year b" and "tm_year b < 2 ^ 31"
  shows "\<exists>wday yday. CPLUnixTimeToYMDHMS (CPLYMDHMSToUnixTime b)
    = Some (b\<lparr>tm_wday := wday, tm_yday := yday, tm_isdst := 0\<rparr>)"
proof -
  define y where "y = 1900 + tm_year b"
  define k where "k = nat (tm_mon b)"
  define d where "d = sum_list (take k (mon_lengths (isleap y))) + (tm_mday b - 1)"
  define t where "t = CPLYMDHMSToUnixTime b"
  note v = assms(1) [unfolded valid_tm_def, folded y_def k_def]
  have y: "1 \<le> y" and y32: "int32 (y - 1900) = y - 1900"
    using assms by (auto simp: y_def intro!: int32_id)
  have teq: "t = tm_sec b + tm_min b * 60 + tm_hour b * 3600 + (d + jan1 y - epoch_days) * 86400"
    using v by (simp add: t_def CPLYMDHMSToUnixTime_eq d_def y_def k_def)
  note tf = time_of_fields [of "tm_sec b" "tm_min b" "tm_hour b"]
  have day: "t div 86400 = d + jan1 y - epoch_days" and rem: "t mod 86400 = tm_sec b + tm_min b * 60 + tm_hour b * 3600"
    using v unfolding teq by (intro tf(1) tf(2); simp)+
  have m: "month_loop (mon_lengths (isleap y)) 0 d = (int k, tm_mday b - 1)"
    unfolding d_def using v mon_lengths_bounds [of "isleap y"]
    by (subst month_loop_at) (auto simp: k_def)
  have "k < 12" "0 \<le> tm_mday b - 1" "tm_mday b - 1 < mon_lengths (isleap y) ! k"
    using v by (auto simp: k_def)
  have kpos: "int k = tm_mon b" using v by (simp add: k_def)
  from \<open>k < 12\<close> \<open>0 \<le> tm_mday b - 1\<close> \<open>tm_mday b - 1 < _\<close> have d0: "0 \<le> d" "d < year_lengths (isleap y)"
    using day_of_year_bounds unfolding d_def by blast+
  have "jan1 1 \<le> jan1 y" using jan1_less [of 1 y] y by (cases "y = 1") auto
  then have "- 719162 \<le> t div 86400" using day d0 by (simp add: epoch_days_def)
  then have "- 62135596800 \<le> t" using mult_div_mod_eq [of 86400 t] pos_mod_sign [of 86400 t] by linarith
  then obtain y' d' where yd: "year_loop 1970 (t div 86400) = Some (y', d')" "1 \<le> y'"
    using year_loop_from_epoch by blast
  have "jan1 y' + d' = jan1 y + d" "0 \<le> d'" "d' < year_lengths (isleap y')"
    using year_loop_Some [OF yd(1)] day by (simp_all add: jan1_1970)
  then have "y' = y" "d' = d" using jan1_unique yd(2) y d0 by blast+
  with CPLUnixTimeToYMDHMS_eq [OF yd(1)] obtain k' r where
    "CPLUnixTimeToYMDHMS t = Some
      \<lparr>tm_sec = tm_sec b, tm_min = tm_min b, tm_hour = tm_hour b, tm_mday = r + 1, tm_mon = int k',
       tm_year = y - 1900, tm_wday = (4 + t div 86400) mod 7, tm_yday = d, tm_isdst = 0\<rparr>"
    and kr: "k' < 12" "0 \<le> r" "r < mon_lengths (isleap y) ! k'"
      "d = sum_list (take k' (mon_lengths (isleap y))) + r"
    using v tf by (auto simp: rem y32)
  moreover have "month_loop (mon_lengths (isleap y)) 0 d = (int k', r)"
    using kr mon_lengths_bounds [of "isleap y"] unfolding kr(4)
    by (subst month_loop_at) fastforce+
  ultimately show ?thesis
    using m kpos unfolding t_def [symmetric]
    by (intro exI [of _ "(4 + t div 86400) mod 7"] exI [of _ d]) (cases b, simp add: y_def)
qed

theorem ymdhms_unix_time_roundtrip_witness:
  "valid_tm \<lparr>tm_sec = 59, tm_min = 59, tm_hour = 23, tm_mday = 29, tm_mon = 1, tm_year = 100,
      tm_wday = 0, tm_yday = 0, tm_isdst = 0\<rparr>
   \<and> CPLYMDHMSToUnixTime \<lparr>tm_sec = 59, tm_min = 59, tm_hour = 23, tm_mday = 29, tm_mon = 1, tm_year = 100,
      tm_wday = 0, tm_yday = 0, tm_isdst = 0\<rparr> = 951868799
   \<and> (\<exists>wday yday. CPLUnixTimeToYMDHMS 951868799 = Some \<lparr>tm_sec = 59, tm_min = 59, tm_hour = 23,
      tm_mday = 29, tm_mon = 1, tm_year = 100, tm_wday = wday, tm_yday = yday, tm_isdst = 0\<rparr>)"
proof -
  let ?b = "\<lparr>tm_sec = 59, tm_min = 59, tm_hour = 23, tm_mday = 29, tm_mon = 1, tm_year = 100,
      tm_wday = 0, tm_yday = 0, tm_isdst = 0\<rparr>"
  have v: "valid_tm ?b" by (simp add: valid_tm_def mon_lengths_def isleap_mod)
  have c: "CPLYMDHMSToUnixTime ?b = 951868799"
    by (simp add: CPLYMDHMSToUnixTime_eq jan1_def LEAPS_nonneg epoch_days_def mon_lengths_def isleap_mod)
  show ?thesis using v c ymdhms_unix_time_roundtrip [OF v] by simp
qed

text \<open>C26: for a time on the day -720258, the 1 January of the year -2 in the proleptic Gregorian calendar, the loop over
  the years never ends: the leap days of years before the year 1 are counted (with division that rounds towards zero) in
  another year than \<^verbatim>\<open>isleap\<close> puts them, so that the year -3 ends on the day before, the year -2 begins on the day after,
  and the day belongs to no year.\<close>

theorem unix_time_to_ymdhms_diverges:
  assumes "0 \<le> s" and "s < 86400"
  shows "CPLUnixTimeToYMDHMS (s - 62230291200) = None"
proof -
  have L: "jan1 (- 2) = - 1095" "jan1 (- 3) = - 1461" "isleap (- 3) = False"
    by (simp_all add: jan1_def LEAPS_THRU_END_OF_def signed_divide_int_def isleap_mod)
  have day: "(s - 62230291200) div 86400 = - 720258"
    using assms by (intro int_div_pos_eq [where r = s]) auto
  have "year_loop 1970 (- 720258) = None"
  proof (rule ccontr)
    assume "year_loop 1970 (- 720258) \<noteq> None"
    then obtain y d where "year_loop 1970 (- 720258) = Some (y, d)" by fastforce
    from year_loop_Some [OF this]
    have yd: "0 \<le> d" "d < year_lengths (isleap y)" "jan1 y + d = - 1096"
      by (simp_all add: jan1_1970 epoch_days_def)
    consider "- 2 \<le> y" | "y = - 3" | "y \<le> - 4" by linarith
    then show False
    proof cases
      case 1
      then show False using jan1_diff [of "- 2" y] yd L by auto
    next
      case 2
      then show False using yd L by (simp add: year_lengths_def)
    next
      case 3
      then show False using jan1_diff [of y "- 3"] yd L by (auto simp: year_lengths_def split: if_splits)
    qed
  qed
  then show ?thesis by (simp add: CPLUnixTimeToYMDHMS_def rem_loop_divmod day Let_def)
qed

theorem unix_time_to_ymdhms_diverges_witness: "CPLUnixTimeToYMDHMS (- 62230291200) = None"
  using unix_time_to_ymdhms_diverges [of 0] by simp

end
