(* ===== verification/Cpl_List.thy ===== *)
theory Cpl_List
  imports Cpl_Prelude "HOL-Library.Monad_Syntax"
begin

text \<open>
  \<^verbatim>\<open>port/cpl_list.cpp\<close>: the singly linked list \<^verbatim>\<open>CPLList\<close>, at the level of the heap. A heap maps
  addresses to nodes; \<open>fresh\<close> is the address \<^verbatim>\<open>CPLMalloc\<close> returns next (\<^verbatim>\<open>CPLMalloc\<close> never returns
  NULL, it ends the process instead). A pointer is a \<^typ>\<open>nat option\<close>, NULL being \<open>None\<close>. Every
  operation returns an option: \<open>None\<close> stands for the read of a node that is not allocated and for
  a loop that does not end (on a cyclic chain). \<open>repr h p as xs\<close> says that the chain from \<open>p\<close> has
  the distinct nodes \<open>as\<close> with the data \<open>xs\<close>; the lemmas show that every operation returns on such
  a chain, what it does to \<open>xs\<close>, and that it leaves every other node of the heap alone.
\<close>

section \<open>The heap\<close>

type_synonym ptr = "nat option"

record 'd CPLList =
  pData :: "'d option"
  psNext :: ptr

record 'd heap =
  cells :: "nat \<Rightarrow> 'd CPLList option"
  fresh :: nat

definition deref :: "'d heap \<Rightarrow> ptr \<Rightarrow> 'd CPLList option" where
  "deref h p = (case p of None \<Rightarrow> None | Some a \<Rightarrow> cells h a)"

definition CPLMalloc :: "'d heap \<Rightarrow> 'd heap \<times> nat" where
  "CPLMalloc h = (h\<lparr>cells := (cells h)(fresh h \<mapsto> \<lparr>pData = None, psNext = None\<rparr>),
                    fresh := fresh h + 1\<rparr>, fresh h)"

definition CPLFree :: "'d heap \<Rightarrow> ptr \<Rightarrow> 'd heap" where
  "CPLFree h p = (case p of None \<Rightarrow> h | Some a \<Rightarrow> h\<lparr>cells := (cells h)(a := None)\<rparr>)"

text \<open>The assignments \<open>p->psNext = q\<close> and \<open>p->pData = d\<close>.\<close>

definition set_next :: "'d heap \<Rightarrow> ptr \<Rightarrow> ptr \<Rightarrow> 'd heap option" where
  "set_next h p q = (case p of None \<Rightarrow> None
     | Some a \<Rightarrow> (case cells h a of None \<Rightarrow> None
         | Some n \<Rightarrow> Some (h\<lparr>cells := (cells h)(a \<mapsto> n\<lparr>psNext := q\<rparr>)\<rparr>)))"

definition set_data :: "'d heap \<Rightarrow> ptr \<Rightarrow> 'd option \<Rightarrow> 'd heap option" where
  "set_data h p d = (case p of None \<Rightarrow> None
     | Some a \<Rightarrow> (case cells h a of None \<Rightarrow> None
         | Some n \<Rightarrow> Some (h\<lparr>cells := (cells h)(a \<mapsto> n\<lparr>pData := d\<rparr>)\<rparr>)))"

section \<open>The operations\<close>

partial_function (option) get_last_loop :: "'d heap \<Rightarrow> ptr \<Rightarrow> ptr option" where
  "get_last_loop h psCurrent =
     (case deref h psCurrent of None \<Rightarrow> None
      | Some n \<Rightarrow> (case psNext n of None \<Rightarrow> Some psCurrent | Some q \<Rightarrow> get_last_loop h (Some q)))"

definition CPLListGetLast :: "'d heap \<Rightarrow> ptr \<Rightarrow> ptr option" where
  "CPLListGetLast h psList = (case psList of None \<Rightarrow> Some None | Some _ \<Rightarrow> get_last_loop h psList)"

definition CPLListAppend :: "'d heap \<Rightarrow> ptr \<Rightarrow> 'd option \<Rightarrow> ('d heap \<times> ptr) option" where
  "CPLListAppend h psList d = do {
     (h, psList, psLast) \<leftarrow>
       (case psList of
          None \<Rightarrow> (let (h, a) = CPLMalloc h in Some (h, Some a, Some a))
        | Some _ \<Rightarrow> do {
            psLast \<leftarrow> CPLListGetLast h psList;
            let (h, a) = CPLMalloc h;
            h \<leftarrow> set_next h psLast (Some a);
            Some (h, psList, Some a)
          });
     h \<leftarrow> set_data h psLast d;
     h \<leftarrow> set_next h psLast None;
     Some (h, psList)
   }"

partial_function (option) count_loop :: "'d heap \<Rightarrow> ptr \<Rightarrow> int \<Rightarrow> int option" where
  "count_loop h psCurrent nItems =
     (case psCurrent of None \<Rightarrow> Some nItems
      | Some a \<Rightarrow> (case cells h a of None \<Rightarrow> None
          | Some n \<Rightarrow> count_loop h (psNext n) (nItems + 1)))"

definition CPLListCount :: "'d heap \<Rightarrow> ptr \<Rightarrow> int option" where
  "CPLListCount h psList = count_loop h psList 0"

text \<open>The loop that appends \<open>k\<close> NULL items; it keeps \<open>psList\<close> and \<open>psLast\<close>.\<close>

fun pad_loop :: "nat \<Rightarrow> 'd heap \<Rightarrow> ptr \<Rightarrow> ptr \<Rightarrow> ('d heap \<times> ptr \<times> ptr) option" where
  "pad_loop 0 h psList psLast = Some (h, psList, psLast)"
| "pad_loop (Suc k) h psList psLast = do {
     (h, psLast) \<leftarrow> CPLListAppend h psLast None;
     (case psList of
        None \<Rightarrow> pad_loop k h psLast psLast
      | Some _ \<Rightarrow> do { n \<leftarrow> deref h psLast; pad_loop k h psList (psNext n) })
   }"

text \<open>\<open>for (i = 0; i < k; i++) psCurrent = psCurrent->psNext;\<close>\<close>

fun skip_loop :: "nat \<Rightarrow> 'd heap \<Rightarrow> ptr \<Rightarrow> ptr option" where
  "skip_loop 0 h psCurrent = Some psCurrent"
| "skip_loop (Suc k) h psCurrent = do { n \<leftarrow> deref h psCurrent; skip_loop k h (psNext n) }"

definition CPLListInsert :: "'d heap \<Rightarrow> ptr \<Rightarrow> 'd option \<Rightarrow> int \<Rightarrow> ('d heap \<times> ptr) option" where
  "CPLListInsert h psList d nPosition =
     (if nPosition < 0 then Some (h, psList)
      else do {
        nCount \<leftarrow> CPLListCount h psList;
        if nPosition = 0 then do {
          let (h, a) = CPLMalloc h;
          h \<leftarrow> set_data h (Some a) d;
          h \<leftarrow> set_next h (Some a) psList;
          Some (h, Some a)
        } else if nCount < nPosition then do {
          psLast \<leftarrow> CPLListGetLast h psList;
          (h, psList, psLast) \<leftarrow> pad_loop (nat (nPosition - nCount)) h psList psLast;
          (h, psLast) \<leftarrow> CPLListAppend h psLast d;
          Some (h, (case psList of None \<Rightarrow> psLast | Some _ \<Rightarrow> psList))
        } else do {
          let (h, a) = CPLMalloc h;
          h \<leftarrow> set_data h (Some a) d;
          psCurrent \<leftarrow> skip_loop (nat (nPosition - 1)) h psList;
          n \<leftarrow> deref h psCurrent;
          h \<leftarrow> set_next h (Some a) (psNext n);
          h \<leftarrow> set_next h psCurrent (Some a);
          Some (h, psList)
        }
      })"

fun get_loop :: "nat \<Rightarrow> 'd heap \<Rightarrow> ptr \<Rightarrow> ptr option" where
  "get_loop 0 h psCurrent = Some psCurrent"
| "get_loop (Suc k) h psCurrent =
     (case psCurrent of None \<Rightarrow> Some None
      | Some a \<Rightarrow> (case cells h a of None \<Rightarrow> None | Some n \<Rightarrow> get_loop k h (psNext n)))"

definition CPLListGet :: "'d heap \<Rightarrow> ptr \<Rightarrow> int \<Rightarrow> ptr option" where
  "CPLListGet h psList nPosition =
     (if nPosition < 0 then Some None else get_loop (nat nPosition) h psList)"

text \<open>The loop of \<^verbatim>\<open>CPLListRemove\<close>; it stops with \<open>Some None\<close> where the code returns early.\<close>

fun remove_loop :: "nat \<Rightarrow> 'd heap \<Rightarrow> ptr \<Rightarrow> ptr option" where
  "remove_loop 0 h psCurrent = Some psCurrent"
| "remove_loop (Suc k) h psCurrent = do {
     n \<leftarrow> deref h psCurrent;
     (case psNext n of None \<Rightarrow> Some None | Some a \<Rightarrow> remove_loop k h (Some a))
   }"

definition CPLListRemove :: "'d heap \<Rightarrow> ptr \<Rightarrow> int \<Rightarrow> ('d heap \<times> ptr) option" where
  "CPLListRemove h psList nPosition =
     (case psList of None \<Rightarrow> Some (h, None)
      | Some _ \<Rightarrow>
        if nPosition < 0 then Some (h, psList)
        else if nPosition = 0 then do {
          n \<leftarrow> deref h psList;
          Some (CPLFree h psList, psNext n)
        } else do {
          psCurrent \<leftarrow> remove_loop (nat (nPosition - 1)) h psList;
          (case psCurrent of None \<Rightarrow> Some (h, psList)
           | Some _ \<Rightarrow> do {
               n \<leftarrow> deref h psCurrent;
               (case psNext n of None \<Rightarrow> Some (h, psList)
                | Some psRemoved \<Rightarrow> do {
                    m \<leftarrow> deref h (Some psRemoved);
                    h \<leftarrow> set_next h psCurrent (psNext m);
                    Some (CPLFree h (Some psRemoved), psList)
                  })
             })
        })"

partial_function (option) CPLListDestroy :: "'d heap \<Rightarrow> ptr \<Rightarrow> 'd heap option" where
  "CPLListDestroy h psCurrent =
     (case psCurrent of None \<Rightarrow> Some h
      | Some a \<Rightarrow> (case cells h a of None \<Rightarrow> None
          | Some n \<Rightarrow> CPLListDestroy (CPLFree h psCurrent) (psNext n)))"

definition CPLListGetNext :: "'d heap \<Rightarrow> ptr \<Rightarrow> ptr option" where
  "CPLListGetNext h psElement =
     (case psElement of None \<Rightarrow> Some None | Some a \<Rightarrow> map_option psNext (cells h a))"

definition CPLListGetData :: "'d heap \<Rightarrow> ptr \<Rightarrow> 'd option option" where
  "CPLListGetData h psElement =
     (case psElement of None \<Rightarrow> Some None | Some a \<Rightarrow> map_option pData (cells h a))"

section \<open>Chains\<close>

text \<open>\<open>lseg h p as xs q\<close>: following \<open>psNext\<close> from \<open>p\<close> one meets the nodes \<open>as\<close>, with the data
  \<open>xs\<close>, and then the pointer \<open>q\<close>.\<close>

fun lseg :: "'d heap \<Rightarrow> ptr \<Rightarrow> nat list \<Rightarrow> 'd option list \<Rightarrow> ptr \<Rightarrow> bool" where
  "lseg h p [] [] q \<longleftrightarrow> p = q"
| "lseg h p (a # as) (x # xs) q \<longleftrightarrow>
     p = Some a \<and> (case cells h a of None \<Rightarrow> False
       | Some n \<Rightarrow> pData n = x \<and> lseg h (psNext n) as xs q)"
| "lseg h p _ _ q \<longleftrightarrow> False"

definition heap_ok :: "'d heap \<Rightarrow> bool" where
  "heap_ok h \<longleftrightarrow> (\<forall>a \<ge> fresh h. cells h a = None)"

definition repr :: "'d heap \<Rightarrow> ptr \<Rightarrow> nat list \<Rightarrow> 'd option list \<Rightarrow> bool" where
  "repr h p as xs \<longleftrightarrow> heap_ok h \<and> distinct as \<and> lseg h p as xs None"

text \<open>\<open>h'\<close> differs from \<open>h\<close> at most on the nodes \<open>as\<close> and on nodes not allocated in \<open>h\<close>.\<close>

definition frame :: "'d heap \<Rightarrow> nat list \<Rightarrow> 'd heap \<Rightarrow> bool" where
  "frame h as h' \<longleftrightarrow> (\<forall>a. a \<notin> set as \<and> cells h a \<noteq> None \<longrightarrow> cells h' a = cells h a)"

lemma lseg_length: "lseg h p as xs q \<Longrightarrow> length as = length xs"
  by (induction h p as xs q rule: lseg.induct) (auto split: option.splits)

lemma lseg_allocated: "lseg h p as xs q \<Longrightarrow> a \<in> set as \<Longrightarrow> cells h a \<noteq> None"
  by (induction h p as xs q rule: lseg.induct) (auto split: option.splits)

lemma lseg_cong:
  "(\<And>a. a \<in> set as \<Longrightarrow> cells h' a = cells h a) \<Longrightarrow> lseg h' p as xs q = lseg h p as xs q"
  by (induction h p as xs q rule: lseg.induct) (auto split: option.splits)

lemma lseg_Nil_iff [simp]: "lseg h p [] xs q \<longleftrightarrow> xs = [] \<and> p = q"
  by (cases xs) auto

lemma lseg_Cons_iff [simp]:
  "lseg h p (a # as) xs q \<longleftrightarrow> (\<exists>x ys nx. xs = x # ys \<and> p = Some a
     \<and> cells h a = Some \<lparr>pData = x, psNext = nx\<rparr> \<and> lseg h nx as ys q)"
proof (cases xs)
  case (Cons x ys)
  show ?thesis
  proof (cases "cells h a")
    case (Some n)
    then show ?thesis using Cons by (cases n) auto
  qed (simp add: Cons)
qed simp

lemma lseg_append_iff:
  "lseg h p (as @ bs) zs q \<longleftrightarrow>
     (\<exists>xs ys r. zs = xs @ ys \<and> lseg h p as xs r \<and> lseg h r bs ys q)"
proof (induction as arbitrary: p zs)
  case (Cons a as)
  show ?case by (simp add: Cons.IH) (metis append_Cons)
qed simp

lemma frame_refl [simp]: "frame h as h"
  by (simp add: frame_def)

lemma frame_trans:
  "frame h as h1 \<Longrightarrow> frame h1 bs h2 \<Longrightarrow> (\<forall>b \<in> set bs. b \<in> set as \<or> cells h b = None) \<Longrightarrow> frame h as h2"
  unfolding frame_def by metis

lemma frame_mono: "frame h as h' \<Longrightarrow> set as \<subseteq> set bs \<Longrightarrow> frame h bs h'"
  unfolding frame_def by blast

lemma lseg_frame:
  "lseg h p as xs q \<Longrightarrow> frame h bs h' \<Longrightarrow> set as \<inter> set bs = {} \<Longrightarrow> lseg h' p as xs q"
  by (subst lseg_cong [of as h' h]) (auto simp: frame_def dest: lseg_allocated)

lemma heap_ok_fresh: "heap_ok h \<Longrightarrow> cells h (fresh h) = None"
  by (simp add: heap_ok_def)

lemma lseg_below_fresh: "lseg h p as xs q \<Longrightarrow> heap_ok h \<Longrightarrow> a \<in> set as \<Longrightarrow> a < fresh h"
  using lseg_allocated [of h p as xs q a] by (auto simp: heap_ok_def not_le [symmetric])

lemma lseg_last:
  "lseg h p as xs None \<Longrightarrow> as \<noteq> [] \<Longrightarrow> cells h (last as) = Some \<lparr>pData = last xs, psNext = None\<rparr>"
  by (cases as rule: rev_cases) (auto simp: lseg_append_iff)

lemma get_last_loop_eq: "lseg h p (as @ [a]) xs None \<Longrightarrow> get_last_loop h p = Some (Some a)"
proof (induction as arbitrary: p xs)
  case Nil
  then show ?case by (subst get_last_loop.simps) (auto simp: deref_def)
next
  case (Cons b as)
  then obtain x ys nx where b: "p = Some b" "cells h b = Some \<lparr>pData = x, psNext = nx\<rparr>"
    "lseg h nx (as @ [a]) ys None" by auto
  then obtain c where "nx = Some c" by (cases as) auto
  then show ?case using b Cons.IH [OF b(3)] by (subst get_last_loop.simps) (simp add: deref_def)
qed

lemma CPLListGetLast_eq:
  "lseg h p as xs None \<Longrightarrow> CPLListGetLast h p = Some (if as = [] then None else Some (last as))"
proof (cases as rule: rev_cases)
  case (snoc bs l)
  assume seg: "lseg h p as xs None"
  then obtain a where "p = Some a" using snoc by (cases bs) auto
  then show ?thesis using get_last_loop_eq [of h p bs l xs] seg snoc by (simp add: CPLListGetLast_def)
qed (auto simp: CPLListGetLast_def)

lemma count_loop_eq: "lseg h p as xs None \<Longrightarrow> count_loop h p n = Some (n + int (length xs))"
proof (induction as arbitrary: p xs n)
  case Nil
  then show ?case by (subst count_loop.simps) simp
next
  case (Cons a as)
  then show ?case by (subst count_loop.simps) auto
qed

lemma CPLListCount_eq: "lseg h p as xs None \<Longrightarrow> CPLListCount h p = Some (int (length xs))"
  by (simp add: CPLListCount_def count_loop_eq)

lemma CPLListAppend_repr:
  assumes "repr h p as xs"
  shows "\<exists>h' p'. CPLListAppend h p d = Some (h', p') \<and> repr h' p' (as @ [fresh h]) (xs @ [d])
    \<and> frame h as h' \<and> fresh h' = fresh h + 1 \<and> (p \<noteq> None \<longrightarrow> p' = p)"
proof (cases as rule: rev_cases)
  case Nil
  then show ?thesis using assms
    by (auto simp: CPLListAppend_def repr_def CPLMalloc_def set_next_def set_data_def heap_ok_def frame_def)
next
  case (snoc bs l)
  let ?f = "fresh h"
  have ok: "heap_ok h" and seg: "lseg h p (bs @ [l]) xs None" and dist: "distinct (bs @ [l])"
    using assms snoc by (auto simp: repr_def)
  from seg obtain ys x where xs: "xs = ys @ [x]" and pre: "lseg h p bs ys (Some l)"
    and l: "cells h l = Some \<lparr>pData = x, psNext = None\<rparr>"
    by (auto simp: lseg_append_iff)
  have lt: "\<forall>a \<in> set (bs @ [l]). a < ?f" using lseg_below_fresh [OF seg ok] by blast
  obtain a where p: "p = Some a" using seg by (cases bs) auto
  define h' where "h' = h\<lparr>cells := (cells h)(l \<mapsto> \<lparr>pData = x, psNext = Some ?f\<rparr>,
    ?f \<mapsto> \<lparr>pData = d, psNext = None\<rparr>), fresh := ?f + 1\<rparr>"
  have run: "CPLListAppend h p d = Some (h', p)"
    using lt l by (simp add: CPLListAppend_def p CPLListGetLast_def get_last_loop_eq [OF seg [unfolded p]]
        CPLMalloc_def set_next_def set_data_def h'_def fun_upd_twist)
  have "lseg h' p bs ys (Some l)"
    using pre lt dist by (subst lseg_cong [of _ _ h]) (auto simp: h'_def)
  moreover have "lseg h' (Some l) [l, ?f] [x, d] None" using lt by (simp add: h'_def)
  ultimately have "lseg h' p (bs @ [l, ?f]) (ys @ [x, d]) None" by (auto simp: lseg_append_iff)
  moreover have "heap_ok h'" using ok lt by (auto simp: heap_ok_def h'_def)
  ultimately have "repr h' p (as @ [?f]) (xs @ [d])"
    using dist lt snoc xs by (auto simp: repr_def)
  moreover have "frame h as h'" using snoc heap_ok_fresh [OF ok] by (auto simp: frame_def h'_def)
  ultimately show ?thesis using run by (auto simp: h'_def)
qed

text \<open>Appending through a pointer to the last node of a chain.\<close>

lemma CPLListAppend_last:
  assumes "repr h p (as @ [l]) xs"
  shows "\<exists>h'. CPLListAppend h (Some l) d = Some (h', Some l) \<and> repr h' p (as @ [l, fresh h]) (xs @ [d])
    \<and> frame h [l] h' \<and> fresh h' = fresh h + 1 \<and> (\<exists>x. cells h' l = Some \<lparr>pData = x, psNext = Some (fresh h)\<rparr>)"
proof -
  have ok: "heap_ok h" and dist: "distinct (as @ [l])" and seg: "lseg h p (as @ [l]) xs None"
    using assms by (auto simp: repr_def)
  from seg obtain ys x where xs: "xs = ys @ [x]" and pre: "lseg h p as ys (Some l)"
    and l: "lseg h (Some l) [l] [x] None"
    unfolding lseg_append_iff by auto
  have "repr h (Some l) [l] [x]" using ok l by (simp add: repr_def)
  from CPLListAppend_repr [OF this, of d] obtain h'
    where h': "CPLListAppend h (Some l) d = Some (h', Some l)" "repr h' (Some l) [l, fresh h] [x, d]"
      "frame h [l] h'" "fresh h' = fresh h + 1" by auto
  have "lseg h' p as ys (Some l)" using lseg_frame [OF pre h'(3)] dist by simp
  then have "lseg h' p (as @ [l, fresh h]) (xs @ [d]) None"
    using h'(2) unfolding lseg_append_iff xs repr_def by force
  moreover have "fresh h \<notin> set (as @ [l])" using lseg_below_fresh [OF seg ok] by blast
  ultimately have "repr h' p (as @ [l, fresh h]) (xs @ [d])" using h'(2) dist by (auto simp: repr_def)
  then show ?thesis using h' by (auto simp: repr_def)
qed

lemma pad_loop_repr:
  assumes "repr h p (as @ [l]) xs" and "p = Some a"
  shows "\<exists>h' bs l'. pad_loop k h p (Some l) = Some (h', p, Some l')
    \<and> repr h' p (bs @ [l']) (xs @ replicate k None) \<and> frame h (as @ [l]) h'
    \<and> bs @ [l'] = as @ [l] @ [fresh h ..< fresh h + k] \<and> fresh h' = fresh h + k"
  using assms(1)
proof (induction k arbitrary: h as l xs)
  case 0
  then show ?case using assms(2) by auto
next
  case (Suc k)
  from CPLListAppend_last [OF Suc.prems, of None] obtain h1 x where
    h1: "CPLListAppend h (Some l) None = Some (h1, Some l)" "repr h1 p ((as @ [l]) @ [fresh h]) (xs @ [None])"
      "frame h [l] h1" "fresh h1 = fresh h + 1" "cells h1 l = Some \<lparr>pData = x, psNext = Some (fresh h)\<rparr>"
    by auto
  from Suc.IH [OF h1(2)] obtain h' bs l' where
    h': "pad_loop k h1 p (Some (fresh h)) = Some (h', p, Some l')"
      "repr h' p (bs @ [l']) ((xs @ [None]) @ replicate k None)" "frame h1 ((as @ [l]) @ [fresh h]) h'"
      "bs @ [l'] = (as @ [l]) @ [fresh h] @ [fresh h1 ..< fresh h1 + k]" "fresh h' = fresh h1 + k"
    by blast
  have "cells h (fresh h) = None" using Suc.prems by (simp add: repr_def heap_ok_fresh)
  moreover have "frame h (as @ [l]) h1" using h1(3) by (simp add: frame_def)
  ultimately have "frame h (as @ [l]) h'" by (rule_tac frame_trans [OF _ h'(3)]) auto
  moreover have "[fresh h] @ [fresh h1 ..< fresh h1 + k] = [fresh h ..< fresh h + Suc k]"
    using h1(4) by (simp add: upt_conv_Cons)
  ultimately show ?case
    using h1(1,4,5) h' by (intro exI [of _ h'] exI [of _ bs] exI [of _ l'])
      (simp add: assms(2) deref_def)
qed

lemma skip_loop_eq:
  "lseg h p (as @ a # bs) xs q \<Longrightarrow> skip_loop (length as) h p = Some (Some a)"
  by (induction as arbitrary: p xs) (auto simp: deref_def)

lemma get_loop_eq:
  "lseg h p as xs None \<Longrightarrow> get_loop k h p = Some (if k < length as then Some (as ! k) else None)"
proof (induction as arbitrary: p xs k)
  case Nil
  then show ?case by (cases k) auto
next
  case (Cons a as)
  then show ?case by (cases k) auto
qed

lemma remove_loop_eq:
  "lseg h p as xs None \<Longrightarrow> as \<noteq> [] \<Longrightarrow>
     remove_loop k h p = Some (if k < length as then Some (as ! k) else None)"
proof (induction as arbitrary: p xs k)
  case (Cons a as)
  show ?case
  proof (cases k)
    case (Suc j)
    from Cons.prems(1) obtain x ys nx where a: "p = Some a" "cells h a = Some \<lparr>pData = x, psNext = nx\<rparr>"
      "lseg h nx as ys None" by auto
    show ?thesis
    proof (cases as)
      case Nil
      then show ?thesis using a Suc by (simp add: deref_def)
    next
      case (Cons b bs)
      then have "nx = Some b" using a(3) by auto
      then show ?thesis using Cons.IH [OF a(3), of j] Cons a Suc by (simp add: deref_def)
    qed
  qed (use Cons.prems in auto)
qed simp

section \<open>What the operations do to the list\<close>

definition list_insert :: "'d option list \<Rightarrow> 'd option \<Rightarrow> int \<Rightarrow> 'd option list" where
  "list_insert xs d n =
     (if n < 0 then xs
      else if n \<le> int (length xs) then take (nat n) xs @ [d] @ drop (nat n) xs
      else xs @ replicate (nat n - length xs) None @ [d])"

definition list_remove :: "'a list \<Rightarrow> int \<Rightarrow> 'a list" where
  "list_remove xs n = (if n < 0 then xs else take (nat n) xs @ drop (nat n + 1) xs)"

lemma insert_front_repr:
  assumes "repr h p as xs"
  shows "\<exists>h' p'. CPLListInsert h p d 0 = Some (h', p') \<and> repr h' p' (fresh h # as) (d # xs) \<and> frame h as h'"
proof -
  have ok: "heap_ok h" and seg: "lseg h p as xs None" and dist: "distinct as"
    using assms by (auto simp: repr_def)
  have lt: "\<forall>a \<in> set as. a < fresh h" using lseg_below_fresh [OF seg ok] by blast
  define h' where "h' = h\<lparr>cells := (cells h)(fresh h \<mapsto> \<lparr>pData = d, psNext = p\<rparr>), fresh := fresh h + 1\<rparr>"
  have "CPLListInsert h p d 0 = Some (h', Some (fresh h))"
    by (simp add: CPLListInsert_def CPLListCount_eq [OF seg] CPLMalloc_def set_data_def set_next_def h'_def)
  moreover have "lseg h' p as xs None"
    using seg lt by (subst lseg_cong [of _ _ h]) (auto simp: h'_def)
  ultimately show ?thesis
    using ok lt dist heap_ok_fresh [OF ok] by (auto simp: repr_def heap_ok_def frame_def h'_def)
qed

lemma insert_middle_repr:
  assumes "repr h p (as @ l # bs) xs" and n: "n = int (length as) + 1"
  shows "\<exists>h'. CPLListInsert h p d n = Some (h', p)
    \<and> repr h' p (as @ l # fresh h # bs) (take (nat n) xs @ [d] @ drop (nat n) xs) \<and> frame h [l] h'"
proof -
  let ?f = "fresh h"
  have ok: "heap_ok h" and seg: "lseg h p (as @ l # bs) xs None" and dist: "distinct (as @ l # bs)"
    using assms by (auto simp: repr_def)
  from seg obtain ys x zs nx where xs: "xs = ys @ x # zs" and pre: "lseg h p as ys (Some l)"
    and l: "cells h l = Some \<lparr>pData = x, psNext = nx\<rparr>" and post: "lseg h nx bs zs None"
    unfolding lseg_append_iff by auto
  have len: "length as = length ys" "length bs = length zs"
    using lseg_length [OF pre] lseg_length [OF post] by auto
  have lt: "\<forall>a \<in> set (as @ l # bs). a < ?f" using lseg_below_fresh [OF seg ok] by blast
  define h1 where "h1 = h\<lparr>cells := (cells h)(?f \<mapsto> \<lparr>pData = d, psNext = None\<rparr>), fresh := ?f + 1\<rparr>"
  define h' where "h' = h\<lparr>cells := (cells h)(l \<mapsto> \<lparr>pData = x, psNext = Some ?f\<rparr>,
    ?f \<mapsto> \<lparr>pData = d, psNext = nx\<rparr>), fresh := ?f + 1\<rparr>"
  have "lseg h1 p (as @ l # bs) xs None"
    using seg lt by (subst lseg_cong [of _ _ h]) (auto simp: h1_def)
  then have skip: "skip_loop (length as) h1 p = Some (Some l)" by (rule skip_loop_eq)
  define hm where "hm = fst (CPLMalloc h)"
  define h2 where "h2 = h1\<lparr>cells := (cells h1)(?f \<mapsto> \<lparr>pData = d, psNext = nx\<rparr>)\<rparr>"
  have "CPLMalloc h = (hm, ?f)" "set_data hm (Some ?f) d = Some h1" "set_next h1 (Some ?f) nx = Some h2"
    "deref h1 (Some l) = Some \<lparr>pData = x, psNext = nx\<rparr>" "set_next h2 (Some l) (Some ?f) = Some h'"
    using lt l by (auto simp: hm_def CPLMalloc_def set_data_def set_next_def deref_def h1_def h2_def h'_def
        fun_upd_twist [of l ?f])
  then have run: "CPLListInsert h p d n = Some (h', p)"
    using skip n by (simp add: CPLListInsert_def CPLListCount_eq [OF seg] xs len(1))
  have "lseg h' p as ys (Some l)"
    using pre lt dist by (subst lseg_cong [of _ _ h]) (auto simp: h'_def)
  moreover have "lseg h' nx bs zs None"
    using post lt dist by (subst lseg_cong [of _ _ h]) (auto simp: h'_def)
  then have "lseg h' (Some l) (l # ?f # bs) (x # d # zs) None" using lt by (auto simp: h'_def)
  ultimately have "lseg h' p (as @ l # ?f # bs) (ys @ x # d # zs) None" unfolding lseg_append_iff by blast
  moreover have "heap_ok h'" using ok lt by (auto simp: heap_ok_def h'_def)
  ultimately have "repr h' p (as @ l # ?f # bs) (take (nat n) xs @ [d] @ drop (nat n) xs)"
    using dist lt n len by (auto simp: repr_def xs nat_add_distrib)
  moreover have "frame h [l] h'" using heap_ok_fresh [OF ok] by (auto simp: frame_def h'_def)
  ultimately show ?thesis using run by blast
qed

lemma insert_beyond_repr:
  assumes "repr h p as xs" and n: "int (length xs) < n"
  shows "\<exists>h' p' as'. CPLListInsert h p d n = Some (h', p')
    \<and> repr h' p' as' (xs @ replicate (nat n - length xs) None @ [d]) \<and> frame h as h' \<and> (p \<noteq> None \<longrightarrow> p' = p)"
proof -
  have seg: "lseg h p as xs None" and ok: "heap_ok h" using assms by (auto simp: repr_def)
  have n0: "\<not> n < 0" "n \<noteq> 0" using n by auto
  show ?thesis
  proof (cases as rule: rev_cases)
    case Nil
    then have e: "xs = []" "p = None" using seg by auto
    obtain k where k: "nat (n - 0) = Suc k" using n e by (cases "nat n") auto
    from CPLListAppend_repr [OF assms(1), of None] obtain h1 p1 where
      h1: "CPLListAppend h p None = Some (h1, p1)" "repr h1 p1 ([] @ [fresh h]) [None]" "frame h [] h1"
      using e Nil by auto
    then have p1: "p1 = Some (fresh h)" by (simp add: repr_def)
    from pad_loop_repr [OF h1(2) p1, of k] obtain h2 bs l' where
      h2: "pad_loop k h1 p1 (Some (fresh h)) = Some (h2, p1, Some l')"
        "repr h2 p1 (bs @ [l']) ([None] @ replicate k None)" "frame h1 [fresh h] h2"
      and nodes: "bs @ [l'] = [] @ [fresh h] @ [fresh h1 ..< fresh h1 + k]" by auto
    from CPLListAppend_last [OF h2(2), of d] obtain h3 where
      h3: "CPLListAppend h2 (Some l') d = Some (h3, Some l')"
        "repr h3 p1 (bs @ [l', fresh h2]) (([None] @ replicate k None) @ [d])" "frame h2 [l'] h3" by auto
    have fr2: "frame h [] h2"
      using frame_trans [OF h1(3) h2(3)] heap_ok_fresh [OF ok] by simp
    have "l' \<in> set (bs @ [l'])" by simp
    have "cells h l' = None"
    proof (rule ccontr)
      assume "cells h l' \<noteq> None"
      then have "cells h1 l' \<noteq> None" "l' \<noteq> fresh h"
        using h1(3) heap_ok_fresh [OF ok] by (auto simp: frame_def)
      moreover have "l' \<in> set ([] @ [fresh h] @ [fresh h1 ..< fresh h1 + k])"
        using \<open>l' \<in> set (bs @ [l'])\<close> by (simp only: nodes)
      then have "l' = fresh h \<or> l' \<ge> fresh h1" by auto
      ultimately show False using h1(2) by (auto simp: repr_def heap_ok_def)
    qed
    then have fr3: "frame h [] h3" using frame_trans [OF fr2 h3(3)] by simp
    have "nat n = Suc k" using k by simp
    moreover have "CPLListCount h None = Some 0" "CPLListGetLast h None = Some None" "0 < n"
      using CPLListCount_eq [OF seg] e n by (simp_all add: CPLListGetLast_def)
    ultimately show ?thesis
      using h1(1) h2(1) h3 fr3 n0 p1 e Nil
      by (intro exI [of _ h3] exI [of _ p1] exI [of _ "bs @ [l', fresh h2]"])
        (simp add: CPLListInsert_def)
  next
    case (snoc cs l)
    obtain a where p: "p = Some a" using seg snoc by (cases cs) auto
    from pad_loop_repr [OF assms(1) [unfolded snoc] p] obtain h2 bs l' where
      h2: "pad_loop (nat (n - int (length xs))) h p (Some l) = Some (h2, p, Some l')"
        "repr h2 p (bs @ [l']) (xs @ replicate (nat (n - int (length xs))) None)" "frame h (cs @ [l]) h2"
      and nodes: "bs @ [l'] = cs @ [l] @ [fresh h ..< fresh h + nat (n - int (length xs))]" by blast
    from CPLListAppend_last [OF h2(2), of d] obtain h3 where
      h3: "CPLListAppend h2 (Some l') d = Some (h3, Some l')"
        "repr h3 p (bs @ [l', fresh h2]) ((xs @ replicate (nat (n - int (length xs))) None) @ [d])"
        "frame h2 [l'] h3" by auto
    have "l' \<in> set (bs @ [l'])" by simp
    then have "l' \<in> set as \<or> fresh h \<le> l'" unfolding nodes snoc by auto
    then have "l' \<in> set as \<or> cells h l' = None" using ok by (auto simp: heap_ok_def)
    then have fr: "frame h as h3" using frame_trans [OF h2(3) h3(3)] snoc by simp
    have "nat (n - int (length xs)) = nat n - length xs" using n by (simp add: nat_diff_distrib)
    then show ?thesis
      using h2(1) h3 fr n0 p n snoc
      by (intro exI [of _ h3] exI [of _ p] exI [of _ "bs @ [l', fresh h2]"])
        (simp add: CPLListInsert_def CPLListCount_eq [OF seg [unfolded p]]
          CPLListGetLast_eq [OF seg [unfolded p]])
  qed
qed

text \<open>C22: \<^verbatim>\<open>CPLListInsert\<close> returns on every list; it puts the item at the position asked for, pads with NULL
  items beyond the end, does nothing for a negative position, and leaves the nodes of other lists alone.\<close>

theorem list_insert_refines:
  assumes "repr h p as xs"
  shows "\<exists>h' p' as'. CPLListInsert h p d n = Some (h', p') \<and> repr h' p' as' (list_insert xs d n)
    \<and> frame h as h' \<and> (n \<noteq> 0 \<and> p \<noteq> None \<longrightarrow> p' = p)"
proof -
  have len: "length as = length xs" using assms lseg_length unfolding repr_def by blast
  consider "n < 0" | "n = 0" | "0 < n" "n \<le> int (length xs)" | "int (length xs) < n" by linarith
  then show ?thesis
  proof cases
    case 1
    then show ?thesis using assms by (auto simp: CPLListInsert_def list_insert_def)
  next
    case 2
    then show ?thesis using insert_front_repr [OF assms, of d] by (auto simp: list_insert_def)
  next
    case 3
    define i where "i = nat n - 1"
    have i: "n = int i + 1" "i < length as" using 3 len by (auto simp: i_def)
    then have split: "as = take i as @ as ! i # drop (Suc i) as" by (simp add: id_take_nth_drop)
    have n: "n = int (length (take i as)) + 1" using i by simp
    have "repr h p (take i as @ as ! i # drop (Suc i) as) xs" using assms split by simp
    from insert_middle_repr [OF this n, of d] obtain h' where
      h': "CPLListInsert h p d n = Some (h', p)" "frame h [as ! i] h'"
        "repr h' p (take i as @ as ! i # fresh h # drop (Suc i) as) (take (nat n) xs @ [d] @ drop (nat n) xs)"
      by blast
    have "as ! i \<in> set as" using i(2) by simp
    then have "frame h as h'" using frame_mono [OF h'(2)] by simp
    then show ?thesis using h'(1,3) 3
      by (intro exI [of _ h'] exI [of _ p] exI conjI) (auto simp: list_insert_def)
  next
    case 4
    then show ?thesis using insert_beyond_repr [OF assms 4, of d] by (auto simp: list_insert_def)
  qed
qed

theorem list_insert_refines_witness:
  "\<exists>h1 p1 h2 p2 as. CPLListInsert \<lparr>cells = Map.empty, fresh = 0\<rparr> None (Some ''b'') 0 = Some (h1, p1)
     \<and> CPLListInsert h1 p1 (Some ''a'') 2 = Some (h2, p2)
     \<and> repr h2 p2 as [Some ''b'', None, Some ''a'']"
proof -
  have "repr \<lparr>cells = Map.empty, fresh = 0\<rparr> None [] []" by (simp add: repr_def heap_ok_def)
  from list_insert_refines [OF this, of "Some ''b''" 0] obtain h1 p1 as1 where
    1: "CPLListInsert \<lparr>cells = Map.empty, fresh = 0\<rparr> None (Some ''b'') 0 = Some (h1, p1)"
      "repr h1 p1 as1 [Some ''b'']" by (auto simp: list_insert_def)
  from list_insert_refines [OF 1(2), of "Some ''a''" 2] show ?thesis
    using 1(1) by (auto simp: list_insert_def)
qed

lemma remove_middle_repr:
  assumes "repr h p (as @ l # r # bs) xs" and n: "n = int (length as) + 1"
  shows "\<exists>h'. CPLListRemove h p n = Some (h', p)
    \<and> repr h' p (as @ l # bs) (take (nat n) xs @ drop (nat n + 1) xs) \<and> frame h [l, r] h' \<and> cells h' r = None"
proof -
  have ok: "heap_ok h" and seg: "lseg h p (as @ l # r # bs) xs None" and dist: "distinct (as @ l # r # bs)"
    using assms by (auto simp: repr_def)
  from seg obtain ys x y zs nx where xs: "xs = ys @ x # y # zs" and pre: "lseg h p as ys (Some l)"
    and l: "cells h l = Some \<lparr>pData = x, psNext = Some r\<rparr>" and r: "cells h r = Some \<lparr>pData = y, psNext = nx\<rparr>"
    and post: "lseg h nx bs zs None"
    unfolding lseg_append_iff by auto
  have len: "length as = length ys" using lseg_length [OF pre] .
  obtain a where p: "p = Some a" using seg by (cases as) auto
  define h1 where "h1 = h\<lparr>cells := (cells h)(l \<mapsto> \<lparr>pData = x, psNext = nx\<rparr>)\<rparr>"
  define h' where "h' = h\<lparr>cells := (cells h)(l \<mapsto> \<lparr>pData = x, psNext = nx\<rparr>, r := None)\<rparr>"
  have "deref h (Some l) = Some \<lparr>pData = x, psNext = Some r\<rparr>" "deref h (Some r) = Some \<lparr>pData = y, psNext = nx\<rparr>"
    "set_next h (Some l) nx = Some h1" "CPLFree h1 (Some r) = h'"
    using l r by (simp_all add: deref_def set_next_def CPLFree_def h1_def h'_def)
  moreover have "remove_loop (length as) h (Some a) = Some (Some l)"
    using remove_loop_eq [OF seg] by (simp add: p nth_append)
  ultimately have run: "CPLListRemove h p n = Some (h', p)"
    using n by (simp add: CPLListRemove_def p)
  have "lseg h' p as ys (Some l)" "lseg h' nx bs zs None"
    using pre post dist by (subst lseg_cong [of _ _ h]; auto simp: h'_def)+
  moreover have "cells h' l = Some \<lparr>pData = x, psNext = nx\<rparr>" using dist by (simp add: h'_def)
  ultimately have "lseg h' p (as @ l # bs) (ys @ x # zs) None"
    unfolding lseg_append_iff by auto
  moreover have "heap_ok h'" using ok l r by (auto simp: heap_ok_def h'_def)
  moreover have "nat n = Suc (length ys)" using n len by simp
  ultimately have "repr h' p (as @ l # bs) (take (nat n) xs @ drop (nat n + 1) xs)"
    using dist by (simp add: repr_def xs)
  moreover have "frame h [l, r] h'" by (auto simp: frame_def h'_def)
  ultimately show ?thesis using run by (auto simp: h'_def)
qed

text \<open>C23: \<^verbatim>\<open>CPLListRemove\<close> takes out the item at a position of the list, frees exactly its node, and does
  nothing for a position outside the list.\<close>

theorem list_remove_refines:
  assumes "repr h p as xs"
  shows "\<exists>h' p'. CPLListRemove h p n = Some (h', p') \<and> repr h' p' (list_remove as n) (list_remove xs n)
    \<and> frame h as h' \<and> (0 \<le> n \<and> n < int (length xs) \<longrightarrow> cells h' (as ! nat n) = None)"
proof -
  have seg: "lseg h p as xs None" and ok: "heap_ok h" and dist: "distinct as"
    using assms by (auto simp: repr_def)
  have len: "length as = length xs" using lseg_length [OF seg] .
  have noop: ?thesis if "CPLListRemove h p n = Some (h, p)" "n < 0 \<or> int (length xs) \<le> n"
    using that assms len by (auto simp: list_remove_def)
  show ?thesis
  proof (cases as)
    case Nil
    then show ?thesis using seg ok by (auto simp: CPLListRemove_def list_remove_def repr_def)
  next
    case (Cons a bs)
    then obtain x ys nx where a: "p = Some a" "cells h a = Some \<lparr>pData = x, psNext = nx\<rparr>" "xs = x # ys"
      and post: "lseg h nx bs ys None" using seg by auto
    consider "n < 0" | "n = 0" | "0 < n" "length as \<le> nat n" | "0 < n" "nat n < length as" by linarith
    then show ?thesis
    proof cases
      case 1
      then show ?thesis using noop a by (simp add: CPLListRemove_def)
    next
      case 2
      have "lseg (CPLFree h p) nx bs ys None"
        using post dist Cons by (subst lseg_cong [of _ _ h]) (auto simp: CPLFree_def a)
      then show ?thesis
        using 2 a ok dist Cons by (auto simp: CPLListRemove_def deref_def repr_def heap_ok_def CPLFree_def
            list_remove_def frame_def)
    next
      case 3
      have loop: "remove_loop (nat (n - 1)) h (Some a)
          = Some (if nat (n - 1) < length as then Some (as ! nat (n - 1)) else None)"
        using remove_loop_eq [OF seg, of "nat (n - 1)"] Cons a(1) by simp
      show ?thesis
      proof (cases "nat (n - 1) < length as")
        case True
        then have "nat (n - 1) = length as - 1" using 3 by linarith
        moreover have "cells h (last as) = Some \<lparr>pData = last xs, psNext = None\<rparr>"
          using seg Cons by (intro lseg_last) auto
        ultimately have "deref h (Some (as ! nat (n - 1))) = Some \<lparr>pData = last xs, psNext = None\<rparr>"
          using Cons last_conv_nth [of as] by (simp only: deref_def option.case) simp
        then have "CPLListRemove h p n = Some (h, p)"
          using 3 a(1) loop True by (simp add: CPLListRemove_def)
        then show ?thesis by (rule noop) (use 3 len in linarith)
      next
        case False
        then have "CPLListRemove h p n = Some (h, p)"
          using 3 a(1) loop by (simp add: CPLListRemove_def)
        then show ?thesis by (rule noop) (use 3 len in linarith)
      qed
    next
      case 4
      define i where "i = nat n - 1"
      have i: "n = int i + 1" "Suc i < length as" using 4 by (auto simp: i_def)
      then have split: "as = take i as @ as ! i # as ! Suc i # drop (Suc (Suc i)) as"
        by (metis Suc_lessD id_take_nth_drop Cons_nth_drop_Suc)
      have "n = int (length (take i as)) + 1" using i by simp
      moreover have "repr h p (take i as @ as ! i # as ! Suc i # drop (Suc (Suc i)) as) xs"
        using assms split by simp
      ultimately obtain h' where h': "CPLListRemove h p n = Some (h', p)"
        "repr h' p (take i as @ as ! i # drop (Suc (Suc i)) as) (take (nat n) xs @ drop (nat n + 1) xs)"
        "frame h [as ! i, as ! Suc i] h'" "cells h' (as ! Suc i) = None"
        using remove_middle_repr by blast
      have "as ! i \<in> set as" "as ! Suc i \<in> set as" using i(2) by auto
      then have "frame h as h'" using frame_mono [OF h'(3)] by simp
      moreover have "list_remove as n = take i as @ as ! i # drop (Suc (Suc i)) as"
        using i by (simp add: list_remove_def nat_add_distrib take_Suc_conv_app_nth)
      moreover have "nat n = Suc i" using i by simp
      ultimately show ?thesis using h' 4 by (auto simp: list_remove_def)
    qed
  qed
qed

theorem list_remove_refines_witness:
  "repr \<lparr>cells = [0 \<mapsto> \<lparr>pData = Some ''a'', psNext = Some 1\<rparr>, 1 \<mapsto> \<lparr>pData = Some ''b'', psNext = None\<rparr>],
      fresh = 2\<rparr> (Some 0) [0, 1] [Some ''a'', Some ''b'']
   \<and> (\<exists>h'. CPLListRemove \<lparr>cells = [0 \<mapsto> \<lparr>pData = Some ''a'', psNext = Some 1\<rparr>,
        1 \<mapsto> \<lparr>pData = Some ''b'', psNext = None\<rparr>], fresh = 2\<rparr> (Some 0) 0 = Some (h', Some 1)
      \<and> repr h' (Some 1) [1] [Some ''b''] \<and> cells h' 0 = None)"
proof -
  let ?h = "\<lparr>cells = [0 \<mapsto> \<lparr>pData = Some ''a'', psNext = Some 1\<rparr>, 1 \<mapsto> \<lparr>pData = Some ''b'', psNext = None\<rparr>],
      fresh = 2\<rparr>"
  have r: "repr ?h (Some 0) [0, 1] [Some ''a'', Some ''b'']" by (simp add: repr_def heap_ok_def)
  from list_remove_refines [OF r, of 0] obtain h' p' where
    "CPLListRemove ?h (Some 0) 0 = Some (h', p')" "repr h' p' [1] [Some ''b'']" "cells h' 0 = None"
    by (auto simp: list_remove_def)
  moreover from this(2) have "p' = Some 1" by (simp add: repr_def)
  ultimately show ?thesis using r by blast
qed

text \<open>\<^verbatim>\<open>CPLListGet\<close> returns the node at a position, NULL outside the list; the data of that node is the item
  at the position, and \<^verbatim>\<open>CPLListCount\<close> and \<^verbatim>\<open>CPLListGetLast\<close> agree with it.\<close>

theorem list_get_refines:
  assumes "repr h p as xs"
  shows "CPLListGet h p n = Some (if 0 \<le> n \<and> n < int (length xs) then Some (as ! nat n) else None)
    \<and> (0 \<le> n \<and> n < int (length xs) \<longrightarrow> CPLListGetData h (Some (as ! nat n)) = Some (xs ! nat n))
    \<and> CPLListCount h p = Some (int (length xs))
    \<and> (\<forall>q. CPLListGetLast h p = Some (Some q) \<longrightarrow>
         CPLListGet h p (int (length xs) - 1) = Some (Some q) \<and> CPLListGetNext h (Some q) = Some None)"
proof -
  have seg: "lseg h p as xs None" using assms by (simp add: repr_def)
  have len: "length as = length xs" using lseg_length [OF seg] .
  have get: "CPLListGet h p m = Some (if 0 \<le> m \<and> m < int (length xs) then Some (as ! nat m) else None)" for m
    using get_loop_eq [OF seg] len by (simp add: CPLListGet_def nat_less_iff)
  have data: "CPLListGetData h (Some (as ! i)) = Some (xs ! i)" if "i < length xs" for i
    using seg that
  proof (induction as arbitrary: p xs i)
    case (Cons a as)
    then show ?case by (cases i) (auto simp: CPLListGetData_def)
  qed simp
  have last: "CPLListGet h p (int (length xs) - 1) = Some (Some q) \<and> CPLListGetNext h (Some q) = Some None"
    if "CPLListGetLast h p = Some (Some q)" for q
  proof -
    have "as \<noteq> []" "q = last as" using that CPLListGetLast_eq [OF seg] by (auto split: if_splits)
    moreover from this have "nat (int (length xs) - 1) = length as - 1" "0 < length xs"
      using len by (auto simp: nat_diff_distrib)
    ultimately show ?thesis
      using lseg_last [OF seg] get [of "int (length xs) - 1"]
      by (simp add: CPLListGetNext_def last_conv_nth)
  qed
  show ?thesis using get data last CPLListCount_eq [OF seg] by (simp add: nat_less_iff)
qed

theorem list_get_refines_witness:
  "CPLListGet \<lparr>cells = [0 \<mapsto> \<lparr>pData = Some ''a'', psNext = Some 1\<rparr>, 1 \<mapsto> \<lparr>pData = Some ''b'', psNext = None\<rparr>],
      fresh = 2\<rparr> (Some 0) 1 = Some (Some 1)"
proof -
  have "repr \<lparr>cells = [0 \<mapsto> \<lparr>pData = Some ''a'', psNext = Some 1\<rparr>, 1 \<mapsto> \<lparr>pData = Some ''b'', psNext = None\<rparr>],
      fresh = 2\<rparr> (Some 0) [0, 1] [Some ''a'', Some ''b'']" by (simp add: repr_def heap_ok_def)
  from list_get_refines [OF this, of 1] show ?thesis by simp
qed

text \<open>\<^verbatim>\<open>CPLListDestroy\<close> returns on every list, frees all its nodes and only them.\<close>

theorem list_destroy_frees:
  assumes "repr h p as xs"
  shows "\<exists>h'. CPLListDestroy h p = Some h' \<and> (\<forall>a. cells h' a = (if a \<in> set as then None else cells h a))"
proof -
  have "lseg h p as xs None" "distinct as" using assms by (auto simp: repr_def)
  then show ?thesis
  proof (induction as arbitrary: h p xs)
    case Nil
    then show ?case by (subst CPLListDestroy.simps) simp
  next
    case (Cons a as)
    then obtain x ys nx where a: "p = Some a" "cells h a = Some \<lparr>pData = x, psNext = nx\<rparr>"
      "lseg h nx as ys None" by auto
    have "lseg (CPLFree h p) nx as ys None"
      using a Cons.prems(2) by (subst lseg_cong [of _ _ h]) (auto simp: CPLFree_def)
    from Cons.IH [OF this] Cons.prems(2) obtain h' where
      h': "CPLListDestroy (CPLFree h p) nx = Some h'"
        "\<And>b. cells h' b = (if b \<in> set as then None else cells (CPLFree h p) b)" by auto
    moreover have "CPLListDestroy h p = CPLListDestroy (CPLFree h p) nx"
      by (subst CPLListDestroy.simps) (simp add: a)
    ultimately show ?case by (auto simp: a CPLFree_def)
  qed
qed

theorem list_destroy_frees_witness:
  "\<exists>h'. CPLListDestroy \<lparr>cells = [0 \<mapsto> \<lparr>pData = Some ''a'', psNext = Some 1\<rparr>,
      1 \<mapsto> \<lparr>pData = Some ''b'', psNext = None\<rparr>], fresh = 2\<rparr> (Some 0) = Some h' \<and> cells h' = Map.empty"
proof -
  have "repr \<lparr>cells = [0 \<mapsto> \<lparr>pData = Some ''a'', psNext = Some 1\<rparr>, 1 \<mapsto> \<lparr>pData = Some ''b'', psNext = None\<rparr>],
      fresh = 2\<rparr> (Some 0) [0, 1] [Some ''a'', Some ''b'']" by (simp add: repr_def heap_ok_def)
  from list_destroy_frees [OF this] show ?thesis by (force simp: fun_eq_iff)
qed

end
