(* ===== verification/Cpl_Hash_Set.thy ===== *)
theory Cpl_Hash_Set
  imports Cpl_List "HOL-Library.Multiset"
begin

text \<open>
  \<^verbatim>\<open>port/cpl_hash_set.cpp\<close>: the hash set with chained buckets. An element is a pointer, a 64-bit
  word with NULL = 0 (\<^verbatim>\<open>unsigned long\<close> has 64 bits); the caller's hash and equality functions are
  fields of the set, as in the code. A bucket is the sequence of the \<^verbatim>\<open>pData\<close> of its \<^verbatim>\<open>CPLList\<close>:
  the code only inserts at the front (\<open>insert_front_repr\<close> of \<open>Cpl_List\<close> is that step on the
  heap), overwrites a \<^verbatim>\<open>pData\<close> and unlinks a node. The calls of \<^verbatim>\<open>fnFreeEltFunc\<close> are returned as
  the list of the freed elements. Reading \<^verbatim>\<open>anPrimes\<close> beyond its end is the value \<open>None\<close>.

  The locale \<open>hash_contract\<close> is what the set asks of the two functions; it is interpreted for the
  two pairs of functions of the file. Under it the set refines a finite collection of pairwise
  unequal elements, through every growth and shrinking of the table.
\<close>

section \<open>The code\<close>

type_synonym elt = "64 word"

record CPLHashSet =
  fnHashFunc :: "elt \<Rightarrow> 64 word"
  fnEqualFunc :: "elt \<Rightarrow> elt \<Rightarrow> bool"
  fnFreeEltFunc :: bool \<comment> \<open>whether the pointer is not NULL\<close>
  tabList :: "elt list list"
  nSize :: nat
  nIndiceAllocatedSize :: nat
  nAllocatedSize :: nat

definition anPrimes :: "nat list" where
  "anPrimes = [53, 97, 193, 389, 769, 1543, 3079, 6151, 12289, 24593, 49157, 98317, 196613, 393241,
     786433, 1572869, 3145739, 6291469, 12582917, 25165843, 50331653, 100663319, 201326611,
     402653189, 805306457, 1610612741]"

definition CPLHashSetHashPointer :: "elt \<Rightarrow> 64 word" where
  "CPLHashSetHashPointer e = e"

definition CPLHashSetEqualPointer :: "elt \<Rightarrow> elt \<Rightarrow> bool" where
  "CPLHashSetEqualPointer e1 e2 \<longleftrightarrow> e1 = e2"

text \<open>\<open>mem p\<close> is the C string at address \<open>p\<close>.\<close>

definition CPLHashSetHashStr :: "(elt \<Rightarrow> string) \<Rightarrow> elt \<Rightarrow> 64 word" where
  "CPLHashSetHashStr mem e =
     (if e = 0 then 0
      else fold (\<lambda>c hash. word_of_nat (code c) + push_bit 6 hash + push_bit 16 hash - hash) (mem e) 0)"

definition CPLHashSetEqualStr :: "(elt \<Rightarrow> string) \<Rightarrow> elt \<Rightarrow> elt \<Rightarrow> bool" where
  "CPLHashSetEqualStr mem e1 e2 =
     (if e1 = 0 \<and> e2 \<noteq> 0 then False
      else if e1 \<noteq> 0 \<and> e2 = 0 then False
      else if e1 = 0 \<and> e2 = 0 then True
      else mem e1 = mem e2)"

definition CPLHashSetNew ::
    "(elt \<Rightarrow> 64 word) option \<Rightarrow> (elt \<Rightarrow> elt \<Rightarrow> bool) option \<Rightarrow> bool \<Rightarrow> CPLHashSet" where
  "CPLHashSetNew fnHash fnEqual fnFree =
     \<lparr>fnHashFunc = (case fnHash of None \<Rightarrow> CPLHashSetHashPointer | Some f \<Rightarrow> f),
      fnEqualFunc = (case fnEqual of None \<Rightarrow> CPLHashSetEqualPointer | Some f \<Rightarrow> f),
      fnFreeEltFunc = fnFree, tabList = replicate 53 [], nSize = 0, nIndiceAllocatedSize = 0,
      nAllocatedSize = 53\<rparr>"

definition CPLHashSetSize :: "CPLHashSet \<Rightarrow> nat" where
  "CPLHashSetSize s = nSize s"

text \<open>The elements \<^verbatim>\<open>CPLHashSetDestroy\<close> frees, in order.\<close>

definition CPLHashSetDestroy :: "CPLHashSet \<Rightarrow> elt list" where
  "CPLHashSetDestroy s =
     concat (map (\<lambda>i. if fnFreeEltFunc s then tabList s ! i else []) [0..<nAllocatedSize s])"

text \<open>\<^verbatim>\<open>CPLHashSetForeach\<close>: the callback takes an element and the user data and returns whether to
  go on, with the new user data.\<close>

fun foreach_bucket :: "(elt \<Rightarrow> 'u \<Rightarrow> bool \<times> 'u) \<Rightarrow> elt list \<Rightarrow> 'u \<Rightarrow> bool \<times> 'u" where
  "foreach_bucket f [] u = (True, u)"
| "foreach_bucket f (e # es) u =
     (let (go, u') = f e u in if \<not> go then (False, u') else foreach_bucket f es u')"

fun foreach_table :: "(elt \<Rightarrow> 'u \<Rightarrow> bool \<times> 'u) \<Rightarrow> elt list list \<Rightarrow> 'u \<Rightarrow> 'u" where
  "foreach_table f [] u = u"
| "foreach_table f (b # bs) u =
     (let (go, u') = foreach_bucket f b u in if \<not> go then u' else foreach_table f bs u')"

definition CPLHashSetForeach :: "CPLHashSet \<Rightarrow> (elt \<Rightarrow> 'u \<Rightarrow> bool \<times> 'u) option \<Rightarrow> 'u \<Rightarrow> 'u" where
  "CPLHashSetForeach s fnIterFunc u =
     (case fnIterFunc of None \<Rightarrow> u | Some f \<Rightarrow> foreach_table f (tabList s) u)"

definition rehash_put :: "(elt \<Rightarrow> 64 word) \<Rightarrow> nat \<Rightarrow> elt \<Rightarrow> elt list list \<Rightarrow> elt list list" where
  "rehash_put hash n e tab = (let b = unat (hash e) mod n in tab[b := e # tab ! b])"

definition CPLHashSetRehash :: "CPLHashSet \<Rightarrow> CPLHashSet option" where
  "CPLHashSetRehash s =
     (if nIndiceAllocatedSize s < length anPrimes then
        (let n = anPrimes ! nIndiceAllocatedSize s;
             newTab = fold (fold (rehash_put (fnHashFunc s) n)) (tabList s) (replicate n [])
         in Some (s\<lparr>tabList := newTab, nAllocatedSize := n\<rparr>))
      else None)"

text \<open>The index in a bucket of the first item that equals \<open>e\<close>.\<close>

fun bucket_find :: "(elt \<Rightarrow> elt \<Rightarrow> bool) \<Rightarrow> elt \<Rightarrow> elt list \<Rightarrow> nat option" where
  "bucket_find eq e [] = None"
| "bucket_find eq e (x # xs) = (if eq x e then Some 0 else map_option Suc (bucket_find eq e xs))"

definition CPLHashSetFindPtr :: "CPLHashSet \<Rightarrow> elt \<Rightarrow> (nat \<times> nat) option" where
  "CPLHashSetFindPtr s e =
     (let nHashVal = unat (fnHashFunc s e) mod nAllocatedSize s
      in map_option (Pair nHashVal) (bucket_find (fnEqualFunc s) e (tabList s ! nHashVal)))"

definition grow_test :: "CPLHashSet \<Rightarrow> bool" where
  "grow_test s \<longleftrightarrow> int (nSize s) \<ge> int32 (2 * int (nAllocatedSize s)) sdiv 3"

definition CPLHashSetInsert :: "CPLHashSet \<Rightarrow> elt \<Rightarrow> (CPLHashSet \<times> bool \<times> elt list) option" where
  "CPLHashSetInsert s e =
     (case CPLHashSetFindPtr s e of
        Some (b, i) \<Rightarrow>
          Some (s\<lparr>tabList := (tabList s)[b := (tabList s ! b)[i := e]]\<rparr>, False,
                if fnFreeEltFunc s then [tabList s ! b ! i] else [])
      | None \<Rightarrow> do {
          s \<leftarrow> (if grow_test s
                then CPLHashSetRehash (s\<lparr>nIndiceAllocatedSize := nIndiceAllocatedSize s + 1\<rparr>)
                else Some s);
          let nHashVal = unat (fnHashFunc s e) mod nAllocatedSize s;
          Some (s\<lparr>tabList := (tabList s)[nHashVal := e # tabList s ! nHashVal], nSize := nSize s + 1\<rparr>,
                True, [])
        })"

definition CPLHashSetLookup :: "CPLHashSet \<Rightarrow> elt \<Rightarrow> elt" where
  "CPLHashSetLookup s e =
     (case CPLHashSetFindPtr s e of Some (b, i) \<Rightarrow> tabList s ! b ! i | None \<Rightarrow> 0)"

definition CPLHashSetRemove :: "CPLHashSet \<Rightarrow> elt \<Rightarrow> (CPLHashSet \<times> bool \<times> elt list) option" where
  "CPLHashSetRemove s e = do {
     s \<leftarrow> (if nIndiceAllocatedSize s > 0 \<and> nSize s \<le> nAllocatedSize s div 2
           then CPLHashSetRehash (s\<lparr>nIndiceAllocatedSize := nIndiceAllocatedSize s - 1\<rparr>)
           else Some s);
     let nHashVal = unat (fnHashFunc s e) mod nAllocatedSize s;
     let bucket = tabList s ! nHashVal;
     (case bucket_find (fnEqualFunc s) e bucket of
        Some i \<Rightarrow>
          Some (s\<lparr>tabList := (tabList s)[nHashVal := take i bucket @ drop (Suc i) bucket],
                  nSize := nSize s - 1\<rparr>, True,
                if fnFreeEltFunc s then [bucket ! i] else [])
      | None \<Rightarrow> Some (s, False, []))
   }"

section \<open>Well-formed sets\<close>

definition elements :: "CPLHashSet \<Rightarrow> elt multiset" where
  "elements s = mset (concat (tabList s))"

definition placed :: "(elt \<Rightarrow> 64 word) \<Rightarrow> nat \<Rightarrow> elt list list \<Rightarrow> bool" where
  "placed hash n tab \<longleftrightarrow> length tab = n \<and> 0 < n \<and> (\<forall>i < n. \<forall>e \<in> set (tab ! i). unat (hash e) mod n = i)"

definition unequal :: "(elt \<Rightarrow> elt \<Rightarrow> bool) \<Rightarrow> elt multiset \<Rightarrow> bool" where
  "unequal eq M \<longleftrightarrow> (\<forall>e. size {#x \<in># M. eq x e#} \<le> 1)"

definition hs_ok :: "CPLHashSet \<Rightarrow> bool" where
  "hs_ok s \<longleftrightarrow> nIndiceAllocatedSize s < length anPrimes
     \<and> nAllocatedSize s = anPrimes ! nIndiceAllocatedSize s
     \<and> placed (fnHashFunc s) (nAllocatedSize s) (tabList s)
     \<and> unequal (fnEqualFunc s) (elements s)
     \<and> nSize s = size (elements s)"

lemma mset_concat_update:
  "b < length tab \<Longrightarrow>
     mset (concat (tab[b := ys])) + mset (tab ! b) = mset (concat tab) + mset ys"
proof (induction tab arbitrary: b)
  case (Cons t tab)
  then show ?case by (cases b) (auto simp: algebra_simps)
qed simp

lemma mset_exchange:
  assumes "B' + {#x#} = B + {#e#}" "A + B = C + B'" "C = add_mset x W"
  shows "A = add_mset e W"
proof -
  have "A + B + {#x#} = C + (B' + {#x#})" using assms(2) by simp
  also have "\<dots> = add_mset x W + B + {#e#}" using assms(1,3) by simp
  finally show ?thesis by (simp add: ac_simps)
qed

lemma length_anPrimes [simp]: "length anPrimes = 26"
  by (simp add: anPrimes_def)

lemma anPrimes_pos: "i < length anPrimes \<Longrightarrow> 53 \<le> anPrimes ! i"
proof -
  have "\<forall>p \<in> set anPrimes. 53 \<le> p" by (simp add: anPrimes_def)
  then show "i < length anPrimes \<Longrightarrow> 53 \<le> anPrimes ! i" by simp
qed

lemma placed_put:
  "placed hash n tab \<Longrightarrow> placed hash n (rehash_put hash n e tab)"
  by (auto simp: placed_def rehash_put_def Let_def nth_list_update)

lemma mset_put:
  "placed hash n tab \<Longrightarrow> mset (concat (rehash_put hash n e tab)) = add_mset e (mset (concat tab))"
proof -
  assume p: "placed hash n tab"
  let ?b = "unat (hash e) mod n"
  have "?b < length tab" using p by (simp add: placed_def)
  from mset_concat_update [OF this, of "e # tab ! ?b"]
  show ?thesis by (simp add: rehash_put_def Let_def)
qed

lemma placed_bucket:
  "placed hash n tab \<Longrightarrow>
     placed hash n (fold (rehash_put hash n) es tab)
     \<and> mset (concat (fold (rehash_put hash n) es tab)) = mset es + mset (concat tab)"
  by (induction es arbitrary: tab) (simp_all add: placed_put mset_put)

lemma placed_table:
  "placed hash n tab \<Longrightarrow>
     placed hash n (fold (fold (rehash_put hash n)) bs tab)
     \<and> mset (concat (fold (fold (rehash_put hash n)) bs tab)) = mset (concat bs) + mset (concat tab)"
  by (induction bs arbitrary: tab) (simp_all add: placed_bucket)

lemma concat_replicate_Nil: "concat (replicate n []) = []"
  by (induction n) auto

lemma Rehash_ok:
  assumes "nIndiceAllocatedSize s < length anPrimes"
  shows "\<exists>tab n. CPLHashSetRehash s = Some (s\<lparr>tabList := tab, nAllocatedSize := n\<rparr>)
    \<and> n = anPrimes ! nIndiceAllocatedSize s \<and> placed (fnHashFunc s) n tab
    \<and> mset (concat tab) = elements s"
proof -
  let ?n = "anPrimes ! nIndiceAllocatedSize s"
  have "0 < ?n" using anPrimes_pos [OF assms] by simp
  then have "placed (fnHashFunc s) ?n (replicate ?n [])" by (simp add: placed_def)
  from placed_table [OF this, of "tabList s"] show ?thesis
    using assms by (auto simp: CPLHashSetRehash_def Let_def elements_def concat_replicate_Nil)
qed

lemma bucket_find_Some:
  "bucket_find eq e xs = Some i \<Longrightarrow> i < length xs \<and> eq (xs ! i) e"
  by (induction xs arbitrary: i) (auto split: if_splits)

lemma bucket_find_None: "bucket_find eq e xs = None \<longleftrightarrow> (\<forall>x \<in> set xs. \<not> eq x e)"
  by (induction xs) auto

definition without :: "(elt \<Rightarrow> elt \<Rightarrow> bool) \<Rightarrow> elt \<Rightarrow> elt multiset \<Rightarrow> elt multiset" where
  "without eq e M = {#x \<in># M. \<not> eq x e#}"

definition hs_for :: "(elt \<Rightarrow> 64 word) \<Rightarrow> (elt \<Rightarrow> elt \<Rightarrow> bool) \<Rightarrow> CPLHashSet \<Rightarrow> bool" where
  "hs_for hash eq s \<longleftrightarrow> hs_ok s \<and> fnHashFunc s = hash \<and> fnEqualFunc s = eq"

text \<open>Sequences of calls, with their results and the elements they free, and what they do to the list of
  the elements that a client has in mind.\<close>

datatype hs_op = Insert elt | Remove elt | Lookup elt

datatype hs_result = Flag bool | Ptr elt

fun hs_run :: "CPLHashSet \<Rightarrow> hs_op list \<Rightarrow> (CPLHashSet \<times> hs_result list \<times> elt list) option" where
  "hs_run s [] = Some (s, [], [])"
| "hs_run s (Insert e # ops) = do {
     (s, r, fr) \<leftarrow> CPLHashSetInsert s e;
     (s, rs, frs) \<leftarrow> hs_run s ops;
     Some (s, Flag r # rs, fr @ frs) }"
| "hs_run s (Remove e # ops) = do {
     (s, r, fr) \<leftarrow> CPLHashSetRemove s e;
     (s, rs, frs) \<leftarrow> hs_run s ops;
     Some (s, Flag r # rs, fr @ frs) }"
| "hs_run s (Lookup e # ops) = do {
     (s', rs, frs) \<leftarrow> hs_run s ops;
     Some (s', Ptr (CPLHashSetLookup s e) # rs, frs) }"

fun spec_step :: "(elt \<Rightarrow> elt \<Rightarrow> bool) \<Rightarrow> elt list \<Rightarrow> hs_op \<Rightarrow> elt list \<times> hs_result" where
  "spec_step eq xs (Insert e) = (e # filter (\<lambda>x. \<not> eq x e) xs, Flag (\<forall>x \<in> set xs. \<not> eq x e))"
| "spec_step eq xs (Remove e) = (filter (\<lambda>x. \<not> eq x e) xs, Flag (\<exists>x \<in> set xs. eq x e))"
| "spec_step eq xs (Lookup e) =
     (xs, Ptr (case List.find (\<lambda>x. eq x e) xs of None \<Rightarrow> 0 | Some x \<Rightarrow> x))"

fun spec_run :: "(elt \<Rightarrow> elt \<Rightarrow> bool) \<Rightarrow> elt list \<Rightarrow> hs_op list \<Rightarrow> elt list \<times> hs_result list" where
  "spec_run eq xs [] = (xs, [])"
| "spec_run eq xs (p # ops) =
     (let (ys, r) = spec_step eq xs p; (zs, rs) = spec_run eq ys ops in (zs, r # rs))"

fun inserted :: "hs_op list \<Rightarrow> elt list" where
  "inserted [] = []"
| "inserted (Insert e # ops) = e # inserted ops"
| "inserted (_ # ops) = inserted ops"

section \<open>What the set asks of the caller's functions\<close>

locale hash_contract =
  fixes hash :: "elt \<Rightarrow> 64 word" and eq :: "elt \<Rightarrow> elt \<Rightarrow> bool"
  assumes eq_refl: "eq e e"
    and eq_sym: "eq x y \<Longrightarrow> eq y x"
    and eq_trans: "eq x y \<Longrightarrow> eq y z \<Longrightarrow> eq x z"
    and hash_eq: "eq x y \<Longrightarrow> hash x = hash y"
begin

lemma unequal_class:
  assumes "unequal eq M" "x \<in># M" "eq x e"
  shows "{#y \<in># M. eq y e#} = {#x#}"
proof -
  have "x \<in># {#y \<in># M. eq y e#}" using assms by simp
  then obtain N where N: "{#y \<in># M. eq y e#} = add_mset x N" by (meson mset_add)
  then have "size (add_mset x N) \<le> 1" using assms(1) by (metis unequal_def)
  then show ?thesis using N by simp
qed

lemma without_split:
  assumes "unequal eq M" "x \<in># M" "eq x e"
  shows "M = add_mset x (without eq e M)"
  using unequal_class [OF assms] multiset_partition [of M "\<lambda>y. eq y e"] by (simp add: without_def)

lemma without_id: "\<forall>x \<in># M. \<not> eq x e \<Longrightarrow> without eq e M = M"
  unfolding without_def by (induction M) auto

lemma unequal_subset: "unequal eq M \<Longrightarrow> N \<subseteq># M \<Longrightarrow> unequal eq N"
  unfolding unequal_def by (meson multiset_filter_mono size_mset_mono order_trans)

lemma unequal_without: "unequal eq M \<Longrightarrow> unequal eq (without eq e M)"
  unfolding without_def by (rule unequal_subset [OF _ multiset_filter_subset])

lemma unequal_add: "unequal eq M \<Longrightarrow> unequal eq (add_mset e (without eq e M))"
  unfolding unequal_def
proof
  fix y
  assume u: "\<forall>e. size {#x \<in># M. eq x e#} \<le> 1"
  show "size {#x \<in># add_mset e (without eq e M). eq x y#} \<le> 1"
  proof (cases "eq e y")
    case True
    have "\<not> eq x y" if "x \<in># without eq e M" for x
    proof
      assume "eq x y"
      then have "eq x e" using eq_trans eq_sym True by blast
      then show False using that by (simp add: without_def)
    qed
    then have "{#x \<in># without eq e M. eq x y#} = {#}" by simp
    then show ?thesis using True by simp
  next
    case False
    have "size {#x \<in># without eq e M. eq x y#} \<le> size {#x \<in># M. eq x y#}"
      by (intro size_mset_mono multiset_filter_mono) (simp add: without_def)
    then show ?thesis using False u order_trans by fastforce
  qed
qed

text \<open>Every element equal to \<open>e\<close> is in the bucket of \<open>e\<close>.\<close>

lemma placed_eq:
  assumes "placed hash n tab" "x \<in> set (concat tab)" "eq x e"
  shows "x \<in> set (tab ! (unat (hash e) mod n))"
proof -
  obtain i where i: "i < length tab" "x \<in> set (tab ! i)"
    using assms(2) by (auto simp: in_set_conv_nth [of _ tab])
  then have "unat (hash x) mod n = i" using assms(1) by (auto simp: placed_def)
  then show ?thesis using i hash_eq [OF assms(3)] by simp
qed

lemma FindPtr_Some:
  assumes "hs_for hash eq s" "CPLHashSetFindPtr s e = Some (b, i)"
  shows "b < length (tabList s)" "i < length (tabList s ! b)" "eq (tabList s ! b ! i) e"
    "tabList s ! b ! i \<in># elements s"
    "b = unat (hash e) mod nAllocatedSize s"
proof -
  show b: "b = unat (hash e) mod nAllocatedSize s"
    and i: "i < length (tabList s ! b)" "eq (tabList s ! b ! i) e"
    using assms bucket_find_Some unfolding CPLHashSetFindPtr_def hs_for_def by (auto simp: Let_def)
  show len: "b < length (tabList s)" using assms(1) b by (auto simp: hs_for_def hs_ok_def placed_def)
  have "tabList s ! b ! i \<in> set (tabList s ! b)" "tabList s ! b \<in> set (tabList s)" using len i(1) by auto
  then show "tabList s ! b ! i \<in># elements s" unfolding elements_def by auto
qed

lemma FindPtr_None:
  assumes "hs_for hash eq s"
  shows "CPLHashSetFindPtr s e = None \<longleftrightarrow> (\<forall>x \<in># elements s. \<not> eq x e)"
proof -
  let ?b = "unat (hash e) mod nAllocatedSize s"
  have p: "placed hash (nAllocatedSize s) (tabList s)" and "?b < length (tabList s)"
    using assms by (auto simp: hs_for_def hs_ok_def placed_def)
  then have "set (tabList s ! ?b) \<subseteq> set (concat (tabList s))" by fastforce
  moreover have "CPLHashSetFindPtr s e = None \<longleftrightarrow> (\<forall>x \<in> set (tabList s ! ?b). \<not> eq x e)"
    using assms by (simp add: CPLHashSetFindPtr_def hs_for_def Let_def bucket_find_None)
  ultimately show ?thesis using placed_eq [OF p] by (auto simp: elements_def)
qed

lemma lookup_ok:
  assumes "hs_for hash eq s"
  shows "(x \<in># elements s \<and> eq x e \<longrightarrow> CPLHashSetLookup s e = x)
    \<and> ((\<forall>x \<in># elements s. \<not> eq x e) \<longrightarrow> CPLHashSetLookup s e = 0)"
proof (cases "CPLHashSetFindPtr s e")
  case None
  then show ?thesis using FindPtr_None [OF assms, of e] by (auto simp: CPLHashSetLookup_def)
next
  case (Some bi)
  obtain b i where bi: "CPLHashSetFindPtr s e = Some (b, i)" using Some by (cases bi) auto
  note f = FindPtr_Some [OF assms bi]
  have "unequal eq (elements s)" using assms by (auto simp: hs_for_def hs_ok_def)
  then have "x = tabList s ! b ! i" if "x \<in># elements s" "eq x e"
    using unequal_class [OF _ that] unequal_class [OF _ f(4,3)] by simp
  then show ?thesis using f bi by (auto simp: CPLHashSetLookup_def)
qed

lemma ok_intro:
  assumes "hs_for hash eq s" "nIndiceAllocatedSize s' < length anPrimes"
    "nAllocatedSize s' = anPrimes ! nIndiceAllocatedSize s'"
    "placed hash (nAllocatedSize s') (tabList s')" "unequal eq (elements s')"
    "nSize s' = size (elements s')" "fnHashFunc s' = fnHashFunc s" "fnEqualFunc s' = fnEqualFunc s"
  shows "hs_for hash eq s'"
  using assms by (simp add: hs_for_def hs_ok_def)

lemma rehash_step:
  assumes "hs_for hash eq s" "j < length anPrimes"
  shows "\<exists>s'. CPLHashSetRehash (s\<lparr>nIndiceAllocatedSize := j\<rparr>) = Some s' \<and> hs_for hash eq s'
    \<and> elements s' = elements s \<and> nIndiceAllocatedSize s' = j \<and> fnFreeEltFunc s' = fnFreeEltFunc s"
proof -
  obtain tab n where t: "CPLHashSetRehash (s\<lparr>nIndiceAllocatedSize := j\<rparr>)
      = Some (s\<lparr>nIndiceAllocatedSize := j, tabList := tab, nAllocatedSize := n\<rparr>)"
    "n = anPrimes ! j" "placed (fnHashFunc s) n tab" "mset (concat tab) = elements s"
    using Rehash_ok [of "s\<lparr>nIndiceAllocatedSize := j\<rparr>"] assms(2) by (auto simp: elements_def)
  let ?s = "s\<lparr>nIndiceAllocatedSize := j, tabList := tab, nAllocatedSize := n\<rparr>"
  have "elements ?s = elements s" using t(4) by (simp add: elements_def)
  then have "hs_for hash eq ?s" using assms t by (auto simp: hs_for_def hs_ok_def)
  then show ?thesis using t by (auto simp: elements_def)
qed

lemma no_growth_at_24:
  "hs_for hash eq s \<Longrightarrow> nIndiceAllocatedSize s = 24 \<Longrightarrow> nSize s < 536870971 \<Longrightarrow> \<not> grow_test s"
  by (simp add: hs_for_def hs_ok_def grow_test_def anPrimes_def int32_def signed_divide_int_def
      signed_take_bit_int_eq_self)

lemma insert_ok:
  assumes "hs_for hash eq s" "nIndiceAllocatedSize s \<le> 24" "nSize s < 536870971"
  shows "\<exists>s' r fr. CPLHashSetInsert s e = Some (s', r, fr) \<and> hs_for hash eq s'
    \<and> elements s' = add_mset e (without eq e (elements s)) \<and> nIndiceAllocatedSize s' \<le> 24
    \<and> fnFreeEltFunc s' = fnFreeEltFunc s
    \<and> (r \<longleftrightarrow> (\<forall>x \<in># elements s. \<not> eq x e))
    \<and> mset fr = (if fnFreeEltFunc s then {#x \<in># elements s. eq x e#} else {#})"
proof (cases "CPLHashSetFindPtr s e")
  case (Some bi)
  obtain b i where bi: "CPLHashSetFindPtr s e = Some (b, i)" using Some by (cases bi) auto
  note f = FindPtr_Some [OF assms(1) bi]
  let ?old = "tabList s ! b ! i"
  let ?s = "s\<lparr>tabList := (tabList s)[b := (tabList s ! b)[i := e]]\<rparr>"
  have u: "unequal eq (elements s)" and p: "placed hash (nAllocatedSize s) (tabList s)"
    using assms(1) by (auto simp: hs_for_def hs_ok_def)
  have split: "elements s = add_mset ?old (without eq e (elements s))"
    using without_split [OF u f(4,3)] .
  have "mset ((tabList s ! b)[i := e]) + {#?old#} = mset (tabList s ! b) + {#e#}"
    using f(2) by (simp add: mset_update)
  moreover have "elements ?s + mset (tabList s ! b) = elements s + mset ((tabList s ! b)[i := e])"
    using mset_concat_update [OF f(1), of "(tabList s ! b)[i := e]"] by (simp add: elements_def)
  ultimately have el: "elements ?s = add_mset e (without eq e (elements s))"
    using split by (rule mset_exchange)
  have "placed hash (nAllocatedSize s) (tabList ?s)"
    using p f set_update_subset_insert [of "tabList s ! b" i e]
    unfolding placed_def by (auto simp: nth_list_update)
  moreover have "size (elements ?s) = size (elements s)"
    using el split by (metis size_add_mset)
  ultimately have "hs_for hash eq ?s"
    using assms(1) unequal_add [OF u, of e] el by (auto simp: hs_for_def hs_ok_def)
  moreover have "{#x \<in># elements s. eq x e#} = {#?old#}" by (rule unequal_class [OF u f(4,3)])
  ultimately show ?thesis
    using bi el f(3,4) assms(2) by (auto simp: CPLHashSetInsert_def)
next
  case None
  then have new: "\<forall>x \<in># elements s. \<not> eq x e" using FindPtr_None [OF assms(1)] by blast
  have "\<exists>s1. (if grow_test s then CPLHashSetRehash (s\<lparr>nIndiceAllocatedSize := nIndiceAllocatedSize s + 1\<rparr>)
      else Some s) = Some s1 \<and> hs_for hash eq s1 \<and> elements s1 = elements s \<and> nIndiceAllocatedSize s1 \<le> 24
      \<and> fnFreeEltFunc s1 = fnFreeEltFunc s"
  proof (cases "grow_test s")
    case True
    then have "nIndiceAllocatedSize s \<noteq> 24" using no_growth_at_24 assms by blast
    then have "nIndiceAllocatedSize s + 1 \<le> 24" using assms(2) by simp
    then show ?thesis
      using True rehash_step [OF assms(1), of "nIndiceAllocatedSize s + 1"] by auto
  qed (use assms in auto)
  then obtain s1 where s1: "(if grow_test s
        then CPLHashSetRehash (s\<lparr>nIndiceAllocatedSize := nIndiceAllocatedSize s + 1\<rparr>) else Some s) = Some s1"
      "hs_for hash eq s1" "elements s1 = elements s" "nIndiceAllocatedSize s1 \<le> 24"
      "fnFreeEltFunc s1 = fnFreeEltFunc s" by blast
  let ?b = "unat (hash e) mod nAllocatedSize s1"
  let ?s = "s1\<lparr>tabList := (tabList s1)[?b := e # tabList s1 ! ?b], nSize := nSize s1 + 1\<rparr>"
  have p: "placed hash (nAllocatedSize s1) (tabList s1)" and u: "unequal eq (elements s)"
    using s1(2,3) by (auto simp: hs_for_def hs_ok_def)
  then have "?b < length (tabList s1)" by (auto simp: placed_def)
  from mset_concat_update [OF this, of "e # tabList s1 ! ?b"]
  have el: "elements ?s = add_mset e (elements s)" using s1(3) by (simp add: elements_def)
  have "placed hash (nAllocatedSize s1) (tabList ?s)"
    using placed_put [OF p, of e] by (simp add: rehash_put_def Let_def)
  moreover have "unequal eq (elements ?s)"
    using unequal_add [OF u, of e] without_id [OF new] el by simp
  ultimately have "hs_for hash eq ?s"
    using s1(2,3) el by (auto simp: hs_for_def hs_ok_def)
  moreover have "{#x \<in># elements s. eq x e#} = {#}" using new by simp
  moreover have "fnHashFunc s1 = hash" using s1(2) by (simp add: hs_for_def)
  ultimately show ?thesis
    using None s1 el new without_id [OF new]
    by (auto simp: CPLHashSetInsert_def Let_def)
qed

lemma remove_ok:
  assumes "hs_for hash eq s" "nIndiceAllocatedSize s \<le> 24"
  shows "\<exists>s' r fr. CPLHashSetRemove s e = Some (s', r, fr) \<and> hs_for hash eq s'
    \<and> elements s' = without eq e (elements s) \<and> nIndiceAllocatedSize s' \<le> 24
    \<and> fnFreeEltFunc s' = fnFreeEltFunc s
    \<and> (r \<longleftrightarrow> (\<exists>x \<in># elements s. eq x e))
    \<and> mset fr = (if fnFreeEltFunc s then {#x \<in># elements s. eq x e#} else {#})"
proof -
  have "\<exists>s1. (if nIndiceAllocatedSize s > 0 \<and> nSize s \<le> nAllocatedSize s div 2
        then CPLHashSetRehash (s\<lparr>nIndiceAllocatedSize := nIndiceAllocatedSize s - 1\<rparr>)
        else Some s) = Some s1 \<and> hs_for hash eq s1 \<and> elements s1 = elements s \<and> nIndiceAllocatedSize s1 \<le> 24
      \<and> fnFreeEltFunc s1 = fnFreeEltFunc s"
    using rehash_step [OF assms(1), of "nIndiceAllocatedSize s - 1"] assms by fastforce
  then obtain s1 where s1: "(if nIndiceAllocatedSize s > 0 \<and> nSize s \<le> nAllocatedSize s div 2
        then CPLHashSetRehash (s\<lparr>nIndiceAllocatedSize := nIndiceAllocatedSize s - 1\<rparr>)
        else Some s) = Some s1" "hs_for hash eq s1" "elements s1 = elements s"
      "nIndiceAllocatedSize s1 \<le> 24" "fnFreeEltFunc s1 = fnFreeEltFunc s" by blast
  let ?b = "unat (hash e) mod nAllocatedSize s1"
  let ?bk = "tabList s1 ! ?b"
  have h: "fnHashFunc s1 = hash" "fnEqualFunc s1 = eq" using s1(2) by (auto simp: hs_for_def)
  have p: "placed hash (nAllocatedSize s1) (tabList s1)" and u: "unequal eq (elements s)"
    using s1(2,3) by (auto simp: hs_for_def hs_ok_def)
  then have len: "?b < length (tabList s1)" by (auto simp: placed_def)
  have find: "CPLHashSetFindPtr s1 e = map_option (Pair ?b) (bucket_find eq e ?bk)"
    by (simp add: CPLHashSetFindPtr_def h Let_def)
  show ?thesis
  proof (cases "bucket_find eq e ?bk")
    case None
    then have none: "\<forall>x \<in># elements s. \<not> eq x e"
      using find FindPtr_None [OF s1(2), of e] s1(3) by simp
    then have "{#x \<in># elements s. eq x e#} = {#}" by simp
    then show ?thesis
      using None s1 h none without_id [OF none]
      by (auto simp: CPLHashSetRemove_def Let_def)
  next
    case (Some i)
    then have "CPLHashSetFindPtr s1 e = Some (?b, i)" using find by simp
    note f = FindPtr_Some [OF s1(2) this]
    let ?s = "s1\<lparr>tabList := (tabList s1)[?b := take i ?bk @ drop (Suc i) ?bk], nSize := nSize s1 - 1\<rparr>"
    have split: "elements s = add_mset (?bk ! i) (without eq e (elements s))"
      using without_split [OF u] f(3,4) s1(3) by simp
    have "mset ?bk = add_mset (?bk ! i) (mset (take i ?bk @ drop (Suc i) ?bk))"
      using id_take_nth_drop [OF f(2)] by (metis mset_append mset.simps(2) union_mset_add_mset_right)
    then have "elements ?s + {#?bk ! i#} = elements s"
      using mset_concat_update [OF len, of "take i ?bk @ drop (Suc i) ?bk"] s1(3)
      by (simp add: elements_def)
    then have el: "elements ?s = without eq e (elements s)" using split by (metis add_mset_add_single add_mset_add_mset_same_iff)
    have "placed hash (nAllocatedSize s1) (tabList ?s)"
      using p unfolding placed_def
      by (auto simp: nth_list_update dest!: in_set_takeD in_set_dropD)
    moreover have "nSize s1 - 1 = size (elements ?s)"
      using s1(2,3) el split by (metis hs_for_def hs_ok_def size_add_mset diff_Suc_1)
    ultimately have "hs_for hash eq ?s"
      using s1(2,3) el unequal_without [OF u, of e] by (auto simp: hs_for_def hs_ok_def)
    moreover have "{#x \<in># elements s. eq x e#} = {#?bk ! i#}"
      using unequal_class [OF u] f(3,4) s1(3) by simp
    moreover have "?bk ! i \<in># elements s" using f(4) s1(3) by simp
    ultimately show ?thesis
      using Some s1 h el f(3) by (auto simp: CPLHashSetRemove_def Let_def)
  qed
qed

text \<open>A set and the client's list of its elements.\<close>

lemma without_mset: "without eq e (mset xs) = mset (filter (\<lambda>x. \<not> eq x e) xs)"
  by (simp add: without_def)

lemma find_lookup:
  assumes "hs_for hash eq s" "mset xs = elements s"
  shows "CPLHashSetLookup s e = (case List.find (\<lambda>x. eq x e) xs of None \<Rightarrow> 0 | Some x \<Rightarrow> x)"
proof -
  have sets: "set_mset (elements s) = set xs" using assms(2) by (metis set_mset_mset)
  show ?thesis
  proof (cases "List.find (\<lambda>x. eq x e) xs")
    case None
    then have "\<forall>x \<in># elements s. \<not> eq x e" using sets by (auto simp: find_None_iff)
    then show ?thesis using lookup_ok [OF assms(1)] None by simp
  next
    case (Some x)
    then have "x \<in># elements s" "eq x e"
      using sets by (auto simp: find_Some_iff)
    then show ?thesis using lookup_ok [OF assms(1)] Some by simp
  qed
qed

lemma accounting:
  assumes "mset fr = {#x \<in># M. eq x e#}" shows "without eq e M + mset fr = M"
  using assms multiset_partition [of M "\<lambda>x. eq x e"] by (simp add: without_def)

lemma run_ok:
  assumes "hs_for hash eq s" "mset xs = elements s" "nIndiceAllocatedSize s \<le> 24"
    "size (elements s) + length ops < 536870971"
  shows "\<exists>s' fr. hs_run s ops = Some (s', snd (spec_run eq xs ops), fr) \<and> hs_for hash eq s'
    \<and> elements s' = mset (fst (spec_run eq xs ops)) \<and> fnFreeEltFunc s' = fnFreeEltFunc s
    \<and> (fnFreeEltFunc s \<longrightarrow> elements s' + mset fr = elements s + mset (inserted ops))"
  using assms
proof (induction ops arbitrary: s xs)
  case Nil
  then show ?case by auto
next
  case (Cons p ops)
  have small: "nSize s < 536870971" using Cons.prems by (auto simp: hs_for_def hs_ok_def)
  have sets: "set xs = set_mset (elements s)" using Cons.prems(2) by (metis set_mset_mset)
  have size_le: "size (without eq e (elements s)) \<le> size (elements s)" for e
    by (simp add: without_def size_mset_mono)
  show ?case
  proof (cases p)
    case (Insert e)
    let ?ys = "e # filter (\<lambda>x. \<not> eq x e) xs"
    obtain s1 r fr1 where s1: "CPLHashSetInsert s e = Some (s1, r, fr1)" "hs_for hash eq s1"
      "elements s1 = add_mset e (without eq e (elements s))" "nIndiceAllocatedSize s1 \<le> 24"
      "fnFreeEltFunc s1 = fnFreeEltFunc s" "r \<longleftrightarrow> (\<forall>x \<in># elements s. \<not> eq x e)"
      "mset fr1 = (if fnFreeEltFunc s then {#x \<in># elements s. eq x e#} else {#})"
      using insert_ok [OF Cons.prems(1,3) small, of e] by blast
    have "mset ?ys = elements s1" using s1(3) Cons.prems(2) [symmetric] by (simp only: without_mset mset.simps)
    moreover have "size (elements s1) + length ops < 536870971"
      using s1(3) size_le [of e] Cons.prems(4) by simp
    ultimately obtain s' fr where IH: "hs_run s1 ops = Some (s', snd (spec_run eq ?ys ops), fr)"
      "hs_for hash eq s'" "elements s' = mset (fst (spec_run eq ?ys ops))" "fnFreeEltFunc s' = fnFreeEltFunc s1"
      "fnFreeEltFunc s1 \<longrightarrow> elements s' + mset fr = elements s1 + mset (inserted ops)"
      using Cons.IH [OF s1(2) _ s1(4)] by blast
    moreover have "elements s1 + mset fr1 = add_mset e (elements s)" if "fnFreeEltFunc s"
      using accounting [of fr1 e "elements s"] s1(3,7) that by simp
    then have "elements s' + mset (fr1 @ fr) = elements s + mset (inserted (p # ops))" if "fnFreeEltFunc s"
      using IH(5) s1(5) that Insert by (simp add: ac_simps) (metis (no_types, lifting) add.assoc add.commute add_mset_add_single)
    ultimately show ?thesis
      using s1(1,5,6) sets Insert by (simp add: Let_def split_beta)
  next
    case (Remove e)
    let ?ys = "filter (\<lambda>x. \<not> eq x e) xs"
    obtain s1 r fr1 where s1: "CPLHashSetRemove s e = Some (s1, r, fr1)" "hs_for hash eq s1"
      "elements s1 = without eq e (elements s)" "nIndiceAllocatedSize s1 \<le> 24"
      "fnFreeEltFunc s1 = fnFreeEltFunc s" "r \<longleftrightarrow> (\<exists>x \<in># elements s. eq x e)"
      "mset fr1 = (if fnFreeEltFunc s then {#x \<in># elements s. eq x e#} else {#})"
      using remove_ok [OF Cons.prems(1,3), of e] by blast
    have "mset ?ys = elements s1" using s1(3) Cons.prems(2) [symmetric] by (simp only: without_mset mset.simps)
    moreover have "size (elements s1) + length ops < 536870971"
      using s1(3) size_le [of e] Cons.prems(4) by simp
    ultimately obtain s' fr where IH: "hs_run s1 ops = Some (s', snd (spec_run eq ?ys ops), fr)"
      "hs_for hash eq s'" "elements s' = mset (fst (spec_run eq ?ys ops))" "fnFreeEltFunc s' = fnFreeEltFunc s1"
      "fnFreeEltFunc s1 \<longrightarrow> elements s' + mset fr = elements s1 + mset (inserted ops)"
      using Cons.IH [OF s1(2) _ s1(4)] by blast
    moreover have "elements s1 + mset fr1 = elements s" if "fnFreeEltFunc s"
      using accounting [of fr1 e "elements s"] s1(3,7) that by simp
    then have "elements s' + mset (fr1 @ fr) = elements s + mset (inserted (p # ops))" if "fnFreeEltFunc s"
      using IH(5) s1(5) that Remove by (simp add: ac_simps) (metis (no_types, lifting) add.assoc add.commute)
    ultimately show ?thesis
      using s1(1,5,6) sets Remove by (simp add: Let_def split_beta)
  next
    case (Lookup e)
    have "size (elements s) + length ops < 536870971" using Cons.prems(4) by simp
    from Cons.IH [OF Cons.prems(1,2,3) this] show ?thesis
      using find_lookup [OF Cons.prems(1,2), of e] Lookup by (auto simp: Let_def split_beta)
  qed
qed

end

section \<open>The functions of the file\<close>

interpretation ptr_set: hash_contract CPLHashSetHashPointer CPLHashSetEqualPointer
  by unfold_locales (auto simp: CPLHashSetHashPointer_def CPLHashSetEqualPointer_def)

interpretation str_set: hash_contract "CPLHashSetHashStr mem" "CPLHashSetEqualStr mem" for mem
  by unfold_locales
    (auto simp: CPLHashSetHashStr_def CPLHashSetEqualStr_def split: if_splits)

lemma elements_New [simp]: "elements (CPLHashSetNew h q f) = {#}"
  by (simp add: elements_def CPLHashSetNew_def concat_replicate_Nil)

lemma New_ok:
  "hs_for (case h of None \<Rightarrow> CPLHashSetHashPointer | Some f \<Rightarrow> f)
          (case q of None \<Rightarrow> CPLHashSetEqualPointer | Some f \<Rightarrow> f) (CPLHashSetNew h q f)"
  unfolding hs_for_def hs_ok_def elements_New
  by (auto simp: CPLHashSetNew_def anPrimes_def placed_def unequal_def)

text \<open>C21: Any sequence of fewer than 536870971 calls on a new set, whose hash and equality functions
  keep the contract, gives the results that the list of the elements gives, through every growth and
  shrinking of the table; and every pointer given to the set is either still in it or has been freed,
  as often as it was given.\<close>

theorem hash_set_refines_list:
  assumes "hash_contract hash eq" and "length ops < 536870971"
  shows "\<exists>s fr. hs_run (CPLHashSetNew (Some hash) (Some eq) free) ops = Some (s, snd (spec_run eq [] ops), fr)
    \<and> elements s = mset (fst (spec_run eq [] ops)) \<and> CPLHashSetSize s = length (fst (spec_run eq [] ops))
    \<and> (free \<longrightarrow> mset fr + mset (CPLHashSetDestroy s) = mset (inserted ops))"
proof -
  have ok: "hs_for hash eq (CPLHashSetNew (Some hash) (Some eq) free)"
    using New_ok [of "Some hash" "Some eq" free] by simp
  have fr: "fnFreeEltFunc (CPLHashSetNew (Some hash) (Some eq) free) = free"
    and ix: "nIndiceAllocatedSize (CPLHashSetNew (Some hash) (Some eq) free) \<le> 24"
    by (simp_all add: CPLHashSetNew_def)
  have "mset [] = elements (CPLHashSetNew (Some hash) (Some eq) free)" by simp
  from hash_contract.run_ok [OF assms(1) ok this ix, of ops] assms(2)
  have "\<exists>s fr. hs_run (CPLHashSetNew (Some hash) (Some eq) free) ops = Some (s, snd (spec_run eq [] ops), fr)
      \<and> hs_for hash eq s \<and> elements s = mset (fst (spec_run eq [] ops)) \<and> fnFreeEltFunc s = free
      \<and> (free \<longrightarrow> elements s + mset fr = mset (inserted ops))"
    by (simp add: fr)
  then obtain s fr where
    s: "hs_run (CPLHashSetNew (Some hash) (Some eq) free) ops = Some (s, snd (spec_run eq [] ops), fr)"
      "hs_for hash eq s" "elements s = mset (fst (spec_run eq [] ops))" "fnFreeEltFunc s = free"
      "free \<longrightarrow> elements s + mset fr = mset (inserted ops)"
    by blast
  have "map ((!) (tabList s)) [0..<nAllocatedSize s] = tabList s"
    using s(2) map_nth [of "tabList s"] by (auto simp: hs_for_def hs_ok_def placed_def)
  then have "free \<longrightarrow> mset (CPLHashSetDestroy s) = elements s"
    using s(4) by (simp add: CPLHashSetDestroy_def elements_def)
  moreover have "CPLHashSetSize s = length (fst (spec_run eq [] ops))"
    using s(2,3) by (simp add: CPLHashSetSize_def hs_for_def hs_ok_def)
  ultimately show ?thesis using s by (auto simp: add.commute)
qed

theorem hash_set_refines_list_witness:
  "\<exists>s fr. hs_run (CPLHashSetNew (Some (CPLHashSetHashStr (\<lambda>p. if p = 3 then ''b'' else ''a'')))
        (Some (CPLHashSetEqualStr (\<lambda>p. if p = 3 then ''b'' else ''a''))) True)
      [Insert 1, Insert 3, Insert 2, Lookup 1, Remove 3, Remove 3]
    = Some (s, [Flag True, Flag True, Flag False, Ptr 2, Flag True, Flag False], fr)
    \<and> elements s = {#2#}"
proof -
  have "spec_run (CPLHashSetEqualStr (\<lambda>p. if p = 3 then ''b'' else ''a'')) []
      [Insert 1, Insert 3, Insert 2, Lookup 1, Remove 3, Remove 3]
    = ([2], [Flag True, Flag True, Flag False, Ptr 2, Flag True, Flag False])" by code_simp
  with hash_set_refines_list [OF str_set.hash_contract_axioms
      [of "\<lambda>p. if p = 3 then ''b'' else ''a''"], of "[Insert 1, Insert 3, Insert 2, Lookup 1, Remove 3, Remove 3]" True]
  show ?thesis by (simp del: hs_run.simps spec_run.simps) blast
qed

text \<open>The callback called on the items of a list until it asks to stop.\<close>

fun visit_until :: "(elt \<Rightarrow> 'u \<Rightarrow> bool \<times> 'u) \<Rightarrow> elt list \<Rightarrow> 'u \<Rightarrow> bool \<times> 'u" where
  "visit_until f [] u = (True, u)"
| "visit_until f (e # es) u = (if fst (f e u) then visit_until f es (snd (f e u)) else (False, snd (f e u)))"

lemma foreach_bucket_eq: "foreach_bucket f es u = visit_until f es u"
  by (induction es arbitrary: u) (simp_all add: Let_def split_beta)

lemma visit_until_append:
  "visit_until f (es @ es') u =
     (if fst (visit_until f es u) then visit_until f es' (snd (visit_until f es u)) else visit_until f es u)"
  by (induction es arbitrary: u) simp_all

lemma foreach_table_eq: "foreach_table f bs u = snd (visit_until f (concat bs) u)"
  by (induction bs arbitrary: u) (simp_all add: foreach_bucket_eq visit_until_append Let_def split_beta)

text \<open>\<^verbatim>\<open>CPLHashSetForeach\<close> calls the callback on the elements of the set, in an order that does not
  depend on the callback, each once, until the callback asks to stop.\<close>

theorem hash_set_foreach_visits:
  "\<exists>es. mset es = elements s \<and> (\<forall>(f :: elt \<Rightarrow> 'u \<Rightarrow> bool \<times> 'u) u.
     CPLHashSetForeach s (Some f) u = snd (visit_until f es u))"
  by (rule exI [of _ "concat (tabList s)"]) (simp add: CPLHashSetForeach_def foreach_table_eq elements_def)

text \<open>C24: With the largest table, \<^verbatim>\<open>2 * set->nAllocatedSize\<close> overflows an \<^verbatim>\<open>int\<close> and the test of the load is
  always true: inserting a new element then reads \<^verbatim>\<open>anPrimes\<close> beyond its end, however few elements
  the set has.\<close>

theorem hash_set_largest_table_overflows:
  assumes "hs_ok s" and "nIndiceAllocatedSize s = 25" and "CPLHashSetFindPtr s e = None"
  shows "CPLHashSetInsert s e = None"
proof -
  have "nAllocatedSize s = 1610612741" using assms(1,2) by (simp add: hs_ok_def anPrimes_def)
  then have "int32 (2 * int (nAllocatedSize s)) = - 1073741814"
    by (simp add: int32_def signed_take_bit_eq_take_bit_shift take_bit_eq_mod)
  then have "grow_test s" by (simp add: grow_test_def signed_divide_int_def)
  then show ?thesis using assms(2,3) by (simp add: CPLHashSetInsert_def CPLHashSetRehash_def)
qed

theorem hash_set_largest_table_overflows_witness:
  "CPLHashSetInsert \<lparr>fnHashFunc = CPLHashSetHashPointer, fnEqualFunc = CPLHashSetEqualPointer,
     fnFreeEltFunc = False, tabList = replicate 1610612741 [], nSize = 0, nIndiceAllocatedSize = 25,
     nAllocatedSize = 1610612741\<rparr> 7 = None"
proof (rule hash_set_largest_table_overflows)
  let ?s = "\<lparr>fnHashFunc = CPLHashSetHashPointer, fnEqualFunc = CPLHashSetEqualPointer,
     fnFreeEltFunc = False, tabList = replicate 1610612741 [], nSize = 0, nIndiceAllocatedSize = 25,
     nAllocatedSize = 1610612741\<rparr>"
  show "hs_ok ?s"
    by (simp add: hs_ok_def anPrimes_def placed_def unequal_def elements_def concat_replicate_Nil)
  show "nIndiceAllocatedSize ?s = 25" by simp
  have "unat (CPLHashSetHashPointer 7) mod 1610612741 < (1610612741 :: nat)" by simp
  then have "replicate 1610612741 [] ! (unat (CPLHashSetHashPointer 7) mod 1610612741) = ([] :: elt list)"
    by (rule nth_replicate)
  then show "CPLHashSetFindPtr ?s 7 = None"
    by (simp add: CPLHashSetFindPtr_def Let_def)
qed

end
