(* ===== verification/Cpl_Base64.thy ===== *)
theory Cpl_Base64
  imports Cpl_Prelude "HOL-Library.Monad_Syntax"
begin

text \<open>
  \<^verbatim>\<open>port/cpl_base64.cpp\<close>: the base64 encoder and the decoder that works in place. The buffer of the
  decoder is the list of all the bytes allocated for it, the NUL included; a read or a write
  outside it is the value \<open>None\<close>. Indices are natural numbers: buffers are shorter than the \<open>2\<^sup>3\<^sup>1 - 4\<close> bytes at which the
  \<^verbatim>\<open>int\<close> indices of the code overflow. The decoder is shown to compute, in place and inside the buffer,
  what the functional \<open>decode_spec\<close> computes from the legal characters, and to invert the encoder.
\<close>

section \<open>The code\<close>

definition CPLBase64DecodeChar :: "8 word list" where
  "CPLBase64DecodeChar =
     replicate 43 64 @ [62] @ replicate 3 64 @ [63] @ map word_of_nat [52..<62] @ replicate 7 64
     @ map word_of_nat [0..<26] @ replicate 6 64 @ map word_of_nat [26..<52] @ replicate 5 64
     @ replicate 128 64"

definition base64Chars :: string where
  "base64Chars = ''ABCDEFGHIJKLMNOPQRSTUVWXYZabcdefghijklmnopqrstuvwxyz0123456789+/''"

definition dec :: "8 word \<Rightarrow> 8 word" where
  "dec c = CPLBase64DecodeChar ! unat c"

definition store :: "8 word list \<Rightarrow> nat \<Rightarrow> 8 word \<Rightarrow> 8 word list option" where
  "store buf i v = (if i < length buf then Some (buf[i := v]) else None)"

lemma length_store: "store buf i v = Some buf' \<Longrightarrow> length buf' = length buf"
  by (auto simp: store_def split: if_splits)

text \<open>The first loop: the legal characters and \<open>=\<close> are moved to the front. It returns the buffer and
  \<open>j\<close>.\<close>

definition legal :: "8 word \<Rightarrow> bool" where
  "legal c \<longleftrightarrow> dec c \<noteq> 64 \<or> c = 61"

function drop_illegal :: "8 word list \<Rightarrow> nat \<Rightarrow> nat \<Rightarrow> (8 word list \<times> nat) option" where
  "drop_illegal buf i j =
     (if i < length buf then
        if buf ! i = 0 then Some (buf, j)
        else if legal (buf ! i) then
          (case store buf j (buf ! i) of None \<Rightarrow> None | Some buf' \<Rightarrow> drop_illegal buf' (i + 1) (j + 1))
        else drop_illegal buf (i + 1) j
      else None)"
  by pat_completeness auto
termination
  by (relation "measure (\<lambda>(buf, i, j). length buf - i)") (auto dest: length_store)

declare drop_illegal.simps [simp del]

text \<open>The three writes for a group (lines 128 to 137), at \<open>p\<close>.\<close>

definition write_group ::
    "8 word list \<Rightarrow> nat \<Rightarrow> 8 word \<Rightarrow> 8 word \<Rightarrow> 8 word \<Rightarrow> 8 word \<Rightarrow> (8 word list \<times> nat) option" where
  "write_group buf p b1 b2 c3 c4 = do {
     let b3 = dec c3;
     let b4 = dec c4;
     buf \<leftarrow> store buf p (push_bit 2 b1 OR drop_bit 4 b2);
     (buf, p) \<leftarrow> (if c3 \<noteq> 61 then
         do { buf \<leftarrow> store buf (p + 1) (push_bit 4 (b2 AND 15) OR drop_bit 2 b3); Some (buf, p + 2) }
       else Some (buf, p + 1));
     (if c4 \<noteq> 61 then
         do { buf \<leftarrow> store buf p (push_bit 6 (b3 AND 3) OR b4); Some (buf, p + 1) }
       else Some (buf, p))
   }"

text \<open>The second loop, from group \<open>k\<close>, writing at \<open>p\<close>. It returns the buffer and the final \<open>p\<close>.\<close>

function decode_loop :: "8 word list \<Rightarrow> nat \<Rightarrow> nat \<Rightarrow> nat \<Rightarrow> (8 word list \<times> nat) option" where
  "decode_loop buf k j p =
     (if k < j then
        (let b1 = dec (buf ! k);
             (b2, c3, c4) =
               (if k + 3 < j then (dec (buf ! (k + 1)), buf ! (k + 2), buf ! (k + 3))
                else if k + 2 < j then (dec (buf ! (k + 1)), buf ! (k + 2), 65)
                else if k + 1 < j then (dec (buf ! (k + 1)), 65, 65)
                else (0, 65, 65))
         in case write_group buf p b1 b2 c3 c4 of
              None \<Rightarrow> None
            | Some (buf', p') \<Rightarrow> decode_loop buf' (k + 4) j p')
      else Some (buf, p))"
  by pat_completeness auto
termination
  by (relation "measure (\<lambda>(buf, k, j, p). j - k)") auto

declare decode_loop.simps [simp del]

text \<open>The pointer may be NULL; the result is the buffer and the returned length.\<close>

definition CPLBase64DecodeInPlace :: "8 word list option \<Rightarrow> (8 word list option \<times> nat) option" where
  "CPLBase64DecodeInPlace pszBase64 =
     (case pszBase64 of None \<Rightarrow> Some (None, 0)
      | Some buf \<Rightarrow>
          if length buf = 0 then None
          else if buf ! 0 = 0 then Some (Some buf, 0)
          else do {
            (buf, j) \<leftarrow> drop_illegal buf 0 0;
            (buf, p) \<leftarrow> decode_loop buf 0 j 0;
            Some (Some buf, p)
          })"

text \<open>The four 6-bit values of three bytes.\<close>

definition char_array4 :: "8 word list \<Rightarrow> 8 word list" where
  "char_array4 a3 =
     [drop_bit 2 (a3 ! 0 AND 0xfc),
      push_bit 4 (a3 ! 0 AND 0x03) + drop_bit 4 (a3 ! 1 AND 0xf0),
      push_bit 2 (a3 ! 1 AND 0x0f) + drop_bit 6 (a3 ! 2 AND 0xc0),
      a3 ! 2 AND 0x3f]"

definition base64_char :: "8 word \<Rightarrow> char" where
  "base64_char v = base64Chars ! unat v"

text \<open>The loop of the encoder, with \<open>i\<close>, \<open>charArray3\<close> and \<open>result\<close>.\<close>

fun encode_loop :: "8 word list \<Rightarrow> nat \<Rightarrow> 8 word list \<Rightarrow> string \<Rightarrow> nat \<times> 8 word list \<times> string" where
  "encode_loop [] i a3 result = (i, a3, result)"
| "encode_loop (b # bs) i a3 result =
     (let a3 = a3[i := b]; i = i + 1 in
      if i = 3 then encode_loop bs 0 a3 (result @ map base64_char (char_array4 a3))
      else encode_loop bs i a3 result)"

definition CPLBase64Encode :: "8 word list \<Rightarrow> string" where
  "CPLBase64Encode bytes =
     (let (i, a3, result) = encode_loop bytes 0 [0, 0, 0] '''' in
      if i \<noteq> 0 then
        (let a3 = fold (\<lambda>j a. a[j := 0]) [i..<3] a3 in
         result @ map (\<lambda>j. base64_char (char_array4 a3 ! j)) [0..<i + 1] @ replicate (3 - i) CHR ''='')
      else result)"

section \<open>The decoder in place computes the functional decoder\<close>

definition group3 :: "8 word \<Rightarrow> 8 word \<Rightarrow> 8 word \<Rightarrow> 8 word \<Rightarrow> 8 word list" where
  "group3 c1 c2 c3 c4 =
     [push_bit 2 (dec c1) OR drop_bit 4 (dec c2)]
     @ (if c3 \<noteq> 61 then [push_bit 4 (dec c2 AND 15) OR drop_bit 2 (dec c3)] else [])
     @ (if c4 \<noteq> 61 then [push_bit 6 (dec c3 AND 3) OR dec c4] else [])"

fun decode_spec :: "8 word list \<Rightarrow> 8 word list" where
  "decode_spec (c1 # c2 # c3 # c4 # cs) = group3 c1 c2 c3 c4 @ decode_spec cs"
| "decode_spec [c1, c2, c3] = group3 c1 c2 c3 65"
| "decode_spec [c1, c2] = group3 c1 c2 65 65"
| "decode_spec [c1] = group3 c1 65 65 65"
| "decode_spec [] = []"

lemma dec_A [simp]: "dec 65 = 0"
  by (simp add: dec_def CPLBase64DecodeChar_def nth_append)

lemma drop_illegal_eq:
  assumes "buf = pre @ s @ 0 # post" "i = length pre" "0 \<notin> set s" "j \<le> i"
  shows "\<exists>mid. drop_illegal buf i j = Some (take j buf @ filter legal s @ mid, j + length (filter legal s))
    \<and> length (take j buf @ filter legal s @ mid) = length buf"
  using assms
proof (induction s arbitrary: buf pre i j)
  case Nil
  then have "drop_illegal buf i j = Some (buf, j)"
    by (subst drop_illegal.simps) simp
  then show ?case using Nil.prems by (auto intro!: exI [of _ "drop j buf"])
next
  case (Cons c s)
  have c: "i < length buf" "buf ! i = c" "c \<noteq> 0" using Cons.prems by (auto simp: nth_append)
  show ?case
  proof (cases "legal c")
    case False
    then have "drop_illegal buf i j = drop_illegal buf (i + 1) j"
      using c by (subst drop_illegal.simps) simp
    then show ?thesis
      using Cons.IH [of buf "pre @ [c]" "i + 1" j] Cons.prems False by simp
  next
    case True
    have j: "j < length buf" using c Cons.prems by simp
    have step: "drop_illegal buf i j = drop_illegal (buf[j := c]) (i + 1) (j + 1)"
      using c j True by (subst drop_illegal.simps) (simp add: store_def)
    have "buf[j := c] = (if j = i then pre else pre[j := c]) @ c # s @ 0 # post"
      using Cons.prems by (auto simp: list_update_append)
    then have "\<exists>mid. drop_illegal (buf[j := c]) (i + 1) (j + 1)
        = Some (take (j + 1) (buf[j := c]) @ filter legal s @ mid, (j + 1) + length (filter legal s))
      \<and> length (take (j + 1) (buf[j := c]) @ filter legal s @ mid) = length (buf[j := c])"
      using Cons.prems by (intro Cons.IH [of _ "(if j = i then pre else pre[j := c]) @ [c]"]) auto
    moreover have "take (j + 1) (buf[j := c]) = take j buf @ [c]"
      using j by (simp add: take_Suc_conv_app_nth)
    ultimately show ?thesis using True j by (auto simp: step min_def split: if_splits)
  qed
qed

lemma decode_loop_step:
  assumes "drop k (take j buf) = cs" "cs \<noteq> []" "j \<le> length buf"
  shows "decode_loop buf k j p =
      (case write_group buf p (dec (cs ! 0)) (dec (if 1 < length cs then cs ! 1 else 65))
        (if 2 < length cs then cs ! 2 else 65) (if 3 < length cs then cs ! 3 else 65) of
         None \<Rightarrow> None | Some (buf', p') \<Rightarrow> decode_loop buf' (k + 4) j p')"
proof -
  have len: "length cs = j - k" using assms(3) arg_cong [OF assms(1), of length] by simp
  have "k < j" using assms(2) len by (cases cs) auto
  have nth: "k + i < j \<Longrightarrow> buf ! (k + i) = cs ! i" for i using assms(1,3) by auto
  have tuple: "(if k + 3 < j then (dec (buf ! (k + 1)), buf ! (k + 2), buf ! (k + 3))
        else if k + 2 < j then (dec (buf ! (k + 1)), buf ! (k + 2), 65)
        else if k + 1 < j then (dec (buf ! (k + 1)), 65, 65) else (0, 65, 65))
      = (dec (if 1 < length cs then cs ! 1 else 65), if 2 < length cs then cs ! 2 else 65,
         if 3 < length cs then cs ! 3 else 65)"
    using nth [of 1] nth [of 2] nth [of 3] len \<open>k < j\<close> by (auto simp: less_diff_conv add.commute)
  show ?thesis
    using nth [of 0] \<open>k < j\<close>
    by (subst decode_loop.simps, subst tuple) (simp only: Let_def prod.case if_True add_0_right)
qed

lemma write_group_eq:
  assumes "p + 3 \<le> length buf"
  shows "\<exists>buf'. write_group buf p (dec c1) (dec c2) c3 c4 = Some (buf', p + length (group3 c1 c2 c3 c4))
    \<and> length buf' = length buf \<and> drop (p + 3) buf' = drop (p + 3) buf
    \<and> take (p + length (group3 c1 c2 c3 c4)) buf' = take p buf @ group3 c1 c2 c3 c4"
  using assms
  by (cases "c3 = 61"; cases "c4 = 61")
    (simp_all add: write_group_def Let_def store_def group3_def take_Suc_conv_app_nth numeral_3_eq_3 numeral_2_eq_2
      nth_list_update)

lemma length_group3_le: "length (group3 c1 c2 c3 c4) \<le> 3"
  by (simp add: group3_def)

lemma decode_loop_tail:
  assumes "drop k (take j buf) = cs" "j < length buf" "cs \<noteq> []" "length cs \<le> 3" "4 * p \<le> 3 * k"
    "k \<noteq> 0 \<longrightarrow> 4 \<le> k" "k = 0 \<longrightarrow> j \<noteq> 1 \<or> 3 \<le> length buf"
  shows "\<exists>buf'. decode_loop buf k j p = Some (buf', p + length (decode_spec cs))
    \<and> length buf' = length buf \<and> take (p + length (decode_spec cs)) buf' = take p buf @ decode_spec cs"
proof -
  let ?c = "\<lambda>i. if i < length cs then cs ! i else 65"
  have len: "length cs = j - k" using assms(2) arg_cong [OF assms(1), of length] by simp
  have "0 < length cs" using assms(3) by simp
  then have room: "p + 3 \<le> length buf" and j: "k < j" "j \<le> k + 4" using assms len by linarith+
  obtain buf1 where b: "write_group buf p (dec (cs ! 0)) (dec (?c 1)) (?c 2) (?c 3)
      = Some (buf1, p + length (group3 (cs ! 0) (?c 1) (?c 2) (?c 3)))"
    "length buf1 = length buf"
    "take (p + length (group3 (cs ! 0) (?c 1) (?c 2) (?c 3))) buf1
      = take p buf @ group3 (cs ! 0) (?c 1) (?c 2) (?c 3)"
    using write_group_eq [OF room] by blast
  have "decode_loop b (k + 4) j q = Some (b, q)" for b q
    using j by (subst decode_loop.simps) simp
  then have "decode_loop buf k j p = Some (buf1, p + length (group3 (cs ! 0) (?c 1) (?c 2) (?c 3)))"
    using decode_loop_step [OF assms(1,3)] assms(2) b(1) by simp
  moreover have "decode_spec cs = group3 (cs ! 0) (?c 1) (?c 2) (?c 3)"
    using assms(3,4) by (cases cs rule: decode_spec.cases) auto
  ultimately show ?thesis using b by simp
qed

lemma decode_loop_eq:
  assumes "drop k (take j buf) = cs" "j < length buf" "4 * p \<le> 3 * k" "k \<noteq> 0 \<longrightarrow> 4 \<le> k"
    "k = 0 \<longrightarrow> j \<noteq> 1 \<or> 3 \<le> length buf"
  shows "\<exists>buf'. decode_loop buf k j p = Some (buf', p + length (decode_spec cs))
    \<and> length buf' = length buf \<and> take (p + length (decode_spec cs)) buf' = take p buf @ decode_spec cs"
  using assms
proof (induction cs arbitrary: buf k p rule: decode_spec.induct)
  case (1 c1 c2 c3 c4 cs)
  have len: "length (c1 # c2 # c3 # c4 # cs) = j - k"
    using 1(3) arg_cong [OF 1(2), of length] by simp
  have room: "p + 3 \<le> length buf" using 1(3,4) len by auto
  obtain buf1 where b: "write_group buf p (dec c1) (dec c2) c3 c4 = Some (buf1, p + length (group3 c1 c2 c3 c4))"
    "length buf1 = length buf" "drop (p + 3) buf1 = drop (p + 3) buf"
    "take (p + length (group3 c1 c2 c3 c4)) buf1 = take p buf @ group3 c1 c2 c3 c4"
    using write_group_eq [OF room] by blast
  have "drop (k + 4) buf1 = drop (k + 1 - p) (drop (p + 3) buf1)"
    "drop (k + 4) buf = drop (k + 1 - p) (drop (p + 3) buf)" using 1(4) by (auto simp: add.commute)
  then have "drop (k + 4) (take j buf1) = drop (k + 4) (take j buf)" using b(3) by (simp add: drop_take)
  also have "\<dots> = drop 4 (drop k (take j buf))" by (simp add: add.commute)
  finally have cs: "drop (k + 4) (take j buf1) = cs" using 1(2) by (simp add: numeral_eq_Suc)
  have "decode_loop buf k j p = decode_loop buf1 (k + 4) j (p + length (group3 c1 c2 c3 c4))"
    using decode_loop_step [OF 1(2)] b(1) 1(3) by simp
  moreover have "\<exists>buf'. decode_loop buf1 (k + 4) j (p + length (group3 c1 c2 c3 c4))
      = Some (buf', (p + length (group3 c1 c2 c3 c4)) + length (decode_spec cs)) \<and> length buf' = length buf1
      \<and> take (p + length (group3 c1 c2 c3 c4) + length (decode_spec cs)) buf'
        = take (p + length (group3 c1 c2 c3 c4)) buf1 @ decode_spec cs"
    using 1(3,4) b(2) length_group3_le [of c1 c2 c3 c4] by (intro 1(1) cs) auto
  ultimately show ?case using b by (auto simp: add.assoc)
next
  case (5)
  then have "\<not> k < j" by auto
  then show ?case by (subst decode_loop.simps) simp
next
  case (2 c1 c2 c3)
  then show ?case using decode_loop_tail [OF 2(1,2)] by simp
next
  case (3 c1 c2)
  then show ?case using decode_loop_tail [OF 3(1,2)] by simp
next
  case (4 c1)
  then show ?case using decode_loop_tail [OF 4(1,2)] by simp
qed

section \<open>The encoder\<close>

fun encode_spec :: "8 word list \<Rightarrow> string" where
  "encode_spec (a # b # c # bs) = map base64_char (char_array4 [a, b, c]) @ encode_spec bs"
| "encode_spec [a, b] = map base64_char (take 3 (char_array4 [a, b, 0])) @ ''=''"
| "encode_spec [a] = map base64_char (take 2 (char_array4 [a, 0, 0])) @ ''==''"
| "encode_spec [] = ''''"

lemma length_3: "length xs = 3 \<Longrightarrow> \<exists>x y z. xs = [x, y, z]"
  by (metis (no_types) length_0_conv length_Suc_conv numeral_3_eq_3)

lemma encode_eq_gen:
  "length a3 = 3 \<Longrightarrow>
   (let (i, a3, result) = encode_loop bytes 0 a3 result in
      if i \<noteq> 0 then
        (let a3 = fold (\<lambda>j a. a[j := 0]) [i..<3] a3 in
         result @ map (\<lambda>j. base64_char (char_array4 a3 ! j)) [0..<i + 1] @ replicate (3 - i) CHR ''='')
      else result) = result @ encode_spec bytes"
proof (induction bytes arbitrary: a3 result rule: encode_spec.induct)
  case (1 a b c bs)
  obtain x y z where "a3 = [x, y, z]" using length_3 [OF 1(2)] by blast
  then have "encode_loop (a # b # c # bs) 0 a3 result
      = encode_loop bs 0 [a, b, c] (result @ map base64_char (char_array4 [a, b, c]))"
    by (simp add: Let_def)
  then show ?case using 1(1) [of "[a, b, c]" "result @ map base64_char (char_array4 [a, b, c])"]
    by simp
next
  case (2 a b)
  then obtain x y z where "a3 = [x, y, z]" using length_3 by blast
  then show ?case by (simp add: Let_def upt_rec char_array4_def)
next
  case (3 a)
  then obtain x y z where "a3 = [x, y, z]" using length_3 by blast
  then show ?case by (simp add: Let_def upt_rec char_array4_def numeral_2_eq_2)
qed simp

lemma CPLBase64Encode_eq: "CPLBase64Encode bytes = encode_spec bytes"
  using encode_eq_gen [of "[0, 0, 0]" bytes "''''"] by (simp add: CPLBase64Encode_def)

definition to_byte :: "char \<Rightarrow> 8 word" where
  "to_byte c = word_of_nat (code c)"

lemma map_code_base64Chars: "map code base64Chars = [65..<91] @ [97..<123] @ [48..<58] @ [43, 47]"
  by (simp add: base64Chars_def)

lemma code_base64Chars:
  assumes "v < 64"
  shows "code (base64Chars ! v) =
     (if v < 26 then 65 + v else if v < 52 then 71 + v else if v < 62 then v - 4 else if v = 62 then 43 else 47)"
proof -
  have "length base64Chars = 64" by (simp add: base64Chars_def)
  then have "code (base64Chars ! v) = ([65..<91] @ [97..<123] @ [48..<58] @ [43, 47]) ! v"
    using assms by (simp only: map_code_base64Chars [symmetric] nth_map)
  then show ?thesis using assms by (auto simp: nth_append nth_Cons' simp del: upt_rec_numeral)
qed

lemma decode_ranges:
  "i < 26 \<Longrightarrow> CPLBase64DecodeChar ! (65 + i) = word_of_nat i"
  "i < 26 \<Longrightarrow> CPLBase64DecodeChar ! (97 + i) = word_of_nat (26 + i)"
  "i < 10 \<Longrightarrow> CPLBase64DecodeChar ! (48 + i) = word_of_nat (52 + i)"
  "CPLBase64DecodeChar ! 43 = 62" "CPLBase64DecodeChar ! 47 = 63"
  by (simp_all add: CPLBase64DecodeChar_def nth_append del: upt_rec_numeral)

lemma dec_base64_char:
  assumes "v < 64"
  shows "dec (to_byte (base64_char v)) = v" "to_byte (base64_char v) \<noteq> 61" "to_byte (base64_char v) \<noteq> 0"
proof -
  define n where "n = unat v"
  have n: "n < 64" "v = word_of_nat n" using assms by (simp_all add: n_def word_less_nat_alt)
  define m where "m = code (base64Chars ! n)"
  have m: "m = (if n < 26 then 65 + n else if n < 52 then 71 + n else if n < 62 then n - 4
      else if n = 62 then 43 else 47)"
    using code_base64Chars [OF n(1)] by (simp add: m_def)
  have "m < 128" "m \<noteq> 61" "m \<noteq> 0" using n by (auto simp: m)
  then have u: "unat (to_byte (base64_char v)) = m"
    by (simp add: to_byte_def base64_char_def m_def [symmetric] n_def [symmetric] unat_of_nat)
  then show "to_byte (base64_char v) \<noteq> 61" "to_byte (base64_char v) \<noteq> 0"
    using \<open>m \<noteq> 61\<close> \<open>m \<noteq> 0\<close> by auto
  have "CPLBase64DecodeChar ! m = word_of_nat n"
  proof -
    consider "n < 26" | "26 \<le> n" "n < 52" | "52 \<le> n" "n < 62" | "n = 62" | "n = 63" using n(1) by linarith
    then show ?thesis
    proof cases
      case 2
      then show ?thesis using decode_ranges(2) [of "n - 26"] by (simp add: m)
    next
      case 3
      then show ?thesis using decode_ranges(3) [of "n - 52"] by (simp add: m)
    qed (use decode_ranges in \<open>simp_all add: m\<close>)
  qed
  then show "dec (to_byte (base64_char v)) = v" using u n by (simp add: dec_def)
qed

lemma add_disjoint_8: "push_bit 4 (a AND 3) + drop_bit 4 (b AND 0xf0) = (push_bit 4 (a AND 3) OR drop_bit 4 b :: 8 word)"
  "push_bit 2 (b AND 0xf) + drop_bit 6 (c AND 0xc0) = (push_bit 2 (b AND 0xf) OR drop_bit 6 c :: 8 word)"
  by (subst disjunctive_add_eq_or; rule byte_eqI; simp add: byte_simps)+

lemma char_array4_eq:
  "char_array4 [a, b, c] = [drop_bit 2 a, push_bit 4 (a AND 3) OR drop_bit 4 b,
     push_bit 2 (b AND 0xf) OR drop_bit 6 c, c AND 0x3f]"
proof -
  have "drop_bit 2 (a AND 0xfc) = drop_bit 2 a" by (rule byte_eqI) (simp_all add: byte_simps)
  then show ?thesis by (simp add: char_array4_def add_disjoint_8 del: push_bit_and drop_bit_and)
qed

lemma less_64: "v AND 63 = v \<Longrightarrow> (v :: 8 word) < 64"
  using word_and_le1 [of v 63] by (simp add: and.commute word_less_nat_alt word_le_nat_alt)

lemma array4_less_64:
  "drop_bit 2 (a :: 8 word) < 64" "push_bit 4 (a AND 3) OR drop_bit 4 (b :: 8 word) < 64"
  "push_bit 2 (b AND 0xf) OR drop_bit 6 (c :: 8 word) < 64" "c AND 0x3f < (64 :: 8 word)"
  by (rule less_64; rule byte_eqI; simp add: byte_simps)+

lemma recombine:
  "push_bit 2 (drop_bit 2 a) OR drop_bit 4 (push_bit 4 (a AND 3) OR drop_bit 4 b) = (a :: 8 word)"
  "push_bit 4 ((push_bit 4 (a AND 3) OR drop_bit 4 b) AND 15)
     OR drop_bit 2 (push_bit 2 (b AND 0xf) OR drop_bit 6 c) = (b :: 8 word)"
  "push_bit 6 ((push_bit 2 (b AND 0xf) OR drop_bit 6 c) AND 3) OR (c AND 0x3f) = (c :: 8 word)"
  by (rule byte_eqI; simp add: byte_simps)+

lemma decode_encode: "decode_spec (map to_byte (encode_spec bytes)) = bytes"
proof (induction bytes rule: encode_spec.induct)
  case (1 a b c bs)
  then show ?case
    by (simp add: char_array4_eq group3_def dec_base64_char array4_less_64 recombine
        del: push_bit_and drop_bit_and push_bit_or drop_bit_or)
next
  case (2 a b)
  have e: "to_byte CHR ''='' = 61" by (simp add: to_byte_def)
  show ?case using array4_less_64(2) [of a b] array4_less_64(3) [of b 0] recombine(2) [of a b 0] recombine(1) [of a b]
    by (simp add: char_array4_eq group3_def dec_base64_char array4_less_64 e
        del: push_bit_and drop_bit_and push_bit_or drop_bit_or drop_bit_of_0 or.right_neutral)
next
  case (3 a)
  have e: "to_byte CHR ''='' = 61" by (simp add: to_byte_def)
  show ?case using array4_less_64(2) [of a 0] recombine(1) [of a 0]
    by (simp add: char_array4_eq group3_def dec_base64_char array4_less_64 e
        del: push_bit_and drop_bit_and push_bit_or drop_bit_or drop_bit_of_0 or.right_neutral)
qed simp

text \<open>C36: The decoder works inside the buffer, unless the whole buffer is one legal character and its NUL:
  it ignores the characters that are not legal and leaves at the front of the buffer the bytes that
  \<open>decode_spec\<close> computes from the others.\<close>

theorem base64_decode_in_place:
  assumes "0 \<notin> set s" and "buf = s @ 0 # post" and "length (filter legal s) \<noteq> 1 \<or> 3 \<le> length buf"
  shows "\<exists>buf'. CPLBase64DecodeInPlace (Some buf) = Some (Some buf', length (decode_spec (filter legal s)))
    \<and> length buf' = length buf
    \<and> take (length (decode_spec (filter legal s))) buf' = decode_spec (filter legal s)"
proof (cases s)
  case Nil
  then show ?thesis using assms(2) by (simp add: CPLBase64DecodeInPlace_def)
next
  case (Cons c cs)
  have b0: "buf ! 0 \<noteq> 0" "length buf \<noteq> 0" using assms Cons by auto
  let ?j = "length (filter legal s)"
  obtain mid where d: "drop_illegal buf 0 0 = Some (filter legal s @ mid, ?j)"
    "length (filter legal s @ mid) = length buf"
    using drop_illegal_eq [of buf "[]" s post 0 0] assms by auto
  have "?j < length buf" using assms(2) le_imp_less_Suc [OF length_filter_le [of legal s]] by simp
  moreover from this have "mid \<noteq> []" using d(2) by auto
  ultimately obtain buf' where "decode_loop (filter legal s @ mid) 0 ?j 0
      = Some (buf', length (decode_spec (filter legal s)))" "length buf' = length buf"
    "take (length (decode_spec (filter legal s))) buf' = decode_spec (filter legal s)"
    using decode_loop_eq [of 0 ?j "filter legal s @ mid" "filter legal s" 0] d(2) assms(3) by auto
  then show ?thesis using b0 d by (simp add: CPLBase64DecodeInPlace_def)
qed

theorem base64_decode_in_place_witness:
  "\<exists>buf'. CPLBase64DecodeInPlace (Some [81, 10, 81, 0]) = Some (Some buf', 3) \<and> take 3 buf' = [65, 0, 0]"
proof -
  have "filter legal [81, 10, 81] = [81, 81]" "decode_spec [81, 81] = [65, 0, 0]" by code_simp+
  then show ?thesis using base64_decode_in_place [of "[81, 10, 81]" "[81, 10, 81, 0]" "[]"] by (auto simp: numeral_3_eq_3)
qed

text \<open>C37: Decoding in place a buffer whose legal characters are an encoded sequence of bytes, with line breaks
  or other characters between them, gives the bytes back.\<close>

theorem base64_roundtrip:
  assumes "0 \<notin> set s" and "filter legal s = map to_byte (CPLBase64Encode bytes)"
  shows "\<exists>buf'. CPLBase64DecodeInPlace (Some (s @ 0 # post)) = Some (Some buf', length bytes)
    \<and> take (length bytes) buf' = bytes"
proof -
  have "length (CPLBase64Encode bytes) \<noteq> 1"
    by (cases bytes rule: encode_spec.cases) (auto simp: CPLBase64Encode_eq char_array4_def)
  then show ?thesis
    using base64_decode_in_place [OF assms(1) refl, of post] assms(2)
    by (auto simp: CPLBase64Encode_eq decode_encode)
qed

theorem base64_roundtrip_witness:
  "CPLBase64Encode [77, 97] = ''TWE=''
   \<and> (\<exists>buf'. CPLBase64DecodeInPlace (Some [84, 87, 10, 69, 61, 0]) = Some (Some buf', 2) \<and> take 2 buf' = [77, 97])"
proof -
  have e: "CPLBase64Encode [77, 97] = ''TWE=''" by code_simp
  have "filter legal [84, 87, 10, 69, 61] = map to_byte ''TWE=''" by code_simp
  moreover have "length [77 :: 8 word, 97] = 2" by simp
  ultimately show ?thesis using e base64_roundtrip [of "[84, 87, 10, 69, 61]" "[77, 97]" "[]"]
    by (simp only:) simp
qed

text \<open>When the buffer is a single legal character and its NUL, the decoder writes a third byte, beyond the
  end of the buffer.\<close>

theorem base64_decode_overflow:
  assumes "legal c" and "c \<noteq> 0"
  shows "CPLBase64DecodeInPlace (Some [c, 0]) = None"
proof -
  have "drop_illegal [c, 0] 0 0 = Some ([c, 0], 1)"
    using assms by (subst drop_illegal.simps, subst drop_illegal.simps) (simp add: store_def)
  moreover have "decode_loop [c, 0] 0 1 0 = None"
    by (subst decode_loop.simps) (simp add: write_group_def store_def Let_def)
  ultimately show ?thesis using assms by (simp add: CPLBase64DecodeInPlace_def)
qed

theorem base64_decode_overflow_witness: "CPLBase64DecodeInPlace (Some [81, 0]) = None"
proof -
  have "legal 81" by code_simp
  then show ?thesis using base64_decode_overflow [of 81] by simp
qed

end
