(* ===== verification/Cpl_Escape.thy ===== *)
theory Cpl_Escape
  imports Cpl_Prelude "HOL-Library.Monad_Syntax"
begin

text \<open>
  \<^verbatim>\<open>port/cpl_string.cpp\<close>, escaping and conversions of strings. The input of \<^verbatim>\<open>CPLEscapeString\<close> is the
  list of all readable bytes, the terminating NUL included, so that an explicit length can reach
  beyond a NUL; a read outside it, or an output longer than the allocated \<open>nLength * 6 + 1\<close> bytes, is
  the value \<open>None\<close>. That size is computed in an \<^verbatim>\<open>int\<close>: it overflows from 357913942 characters on, and a negative
  size gives no memory at all. The input of \<^verbatim>\<open>CPLUnescapeString\<close> is a C string and its result the \<open>iOut\<close> bytes it
  writes (a NUL can be among them); \<open>None\<close> is a read beyond the terminating NUL. The conversion of
  one character code to UTF-8 depends on the iconv library of the platform: it is the parameter
  \<open>recode\<close>. The messages given to \<^verbatim>\<open>CPLDebug\<close> and \<^verbatim>\<open>CPLError\<close> are left out.

  The locale \<open>codec\<close> is the contract of an encoder with its decoder, interpreted for each scheme and
  for the hexadecimal form of binary data.
\<close>

section \<open>Escaping\<close>

definition CPLES_BackslashQuotable :: int where "CPLES_BackslashQuotable = 0"

definition CPLES_XML :: int where "CPLES_XML = 1"

definition CPLES_URL :: int where "CPLES_URL = 2"

definition CPLES_SQL :: int where "CPLES_SQL = 3"

definition CPLES_CSV :: int where "CPLES_CSV = 4"

definition CPLES_XML_BUT_QUOTES :: int where "CPLES_XML_BUT_QUOTES = 5"

lemmas scheme_defs = CPLES_BackslashQuotable_def CPLES_XML_def CPLES_URL_def CPLES_SQL_def CPLES_CSV_def
  CPLES_XML_BUT_QUOTES_def

abbreviation dquote :: char where "dquote \<equiv> CHR 0x22"

abbreviation squote :: char where "squote \<equiv> CHR 0x27"

abbreviation bslash :: char where "bslash \<equiv> CHR 0x5C"

abbreviation newline :: char where "newline \<equiv> CHR 0x0A"

definition achHex :: string where
  "achHex = ''0123456789ABCDEF''"

text \<open>What each scheme writes for one character.\<close>

definition escape_backslash :: "char \<Rightarrow> string" where
  "escape_backslash c =
     (if c = NUL then [bslash, CHR ''0'']
      else if c = newline then [bslash, CHR ''n'']
      else if c = dquote then [bslash, dquote]
      else if c = bslash then [bslash, bslash]
      else [c])"

text \<open>\<^verbatim>\<open>sprintf\<close> with \<^verbatim>\<open>%%%02X\<close>.\<close>

definition escape_url :: "char \<Rightarrow> string" where
  "escape_url c =
     (if (97 \<le> code c \<and> code c \<le> 122) \<or> (65 \<le> code c \<and> code c \<le> 90) \<or> (48 \<le> code c \<and> code c \<le> 57)
         \<or> c = CHR ''_'' \<or> c = CHR ''.''
      then [c]
      else [CHR ''%'', achHex ! (code c div 16), achHex ! (code c mod 16)])"

definition escape_xml :: "bool \<Rightarrow> char \<Rightarrow> string" where
  "escape_xml but_quotes c =
     (if c = CHR ''<'' then ''&lt;''
      else if c = CHR ''>'' then ''&gt;''
      else if c = CHR ''&'' then ''&amp;''
      else if c = dquote \<and> \<not> but_quotes then ''&quot;''
      else if code c < 0x20 \<and> code c \<noteq> 0x9 \<and> code c \<noteq> 0xA \<and> code c \<noteq> 0xD then []
      else [c])"

definition escape_sql :: "char \<Rightarrow> string" where
  "escape_sql c = (if c = squote then [squote, squote] else [c])"

definition escape_csv :: "char \<Rightarrow> string" where
  "escape_csv c = (if c = dquote then [dquote, dquote] else [c])"

text \<open>The C string at the beginning of a memory region.\<close>

definition c_string :: "string \<Rightarrow> string" where
  "c_string mem = takeWhile (\<lambda>c. c \<noteq> NUL) mem"

definition csv_special :: "string \<Rightarrow> bool" where
  "csv_special s \<longleftrightarrow> \<not> (\<not> strchr_found s dquote \<and> \<not> strchr_found s (CHR '','') \<and> \<not> strchr_found s (CHR '';'')
     \<and> \<not> strchr_found s (CHR 0x09) \<and> \<not> strchr_found s (CHR 0x0A) \<and> \<not> strchr_found s (CHR 0x0D))"

text \<open>The bytes written to \<^verbatim>\<open>pszOutput\<close> before its terminating NUL, from the \<open>n\<close> characters \<open>s\<close>.\<close>

definition escape_output :: "string \<Rightarrow> string \<Rightarrow> int \<Rightarrow> string" where
  "escape_output mem s nScheme =
     (if nScheme = CPLES_BackslashQuotable then concat (map escape_backslash s)
      else if nScheme = CPLES_URL then concat (map escape_url s)
      else if nScheme = CPLES_XML \<or> nScheme = CPLES_XML_BUT_QUOTES
        then concat (map (escape_xml (nScheme = CPLES_XML_BUT_QUOTES)) s)
      else if nScheme = CPLES_SQL then concat (map escape_sql s)
      else if nScheme = CPLES_CSV then
        (if \<not> csv_special (c_string mem) then c_string mem
         else [dquote] @ concat (map escape_csv s) @ [dquote])
      else [])"

definition CPLEscapeString :: "string \<Rightarrow> int \<Rightarrow> int \<Rightarrow> string option" where
  "CPLEscapeString mem nLen nScheme =
     (let nLength = (if nLen = -1 then int32 (int (length (c_string mem))) else nLen) in
      if NUL \<notin> set mem \<or> nLength > int (length mem) then None
      else
        (let out = escape_output mem (take (nat nLength) mem) nScheme in
         if int (length out + 1) \<le> int32 (nLength * 6 + 1) then Some (c_string out) else None))"

section \<open>Unescaping\<close>

text \<open>The digits of a character reference, from the value \<open>val\<close> of the 32-bit \<^verbatim>\<open>wchar_t\<close>; it returns the value,
  the character that ends the digits and the string after it. The upper case test is the code's.\<close>

fun scan_hex :: "string \<Rightarrow> int \<Rightarrow> int \<times> char \<times> string" where
  "scan_hex [] val = (val, NUL, [])"
| "scan_hex (ch # cs) val =
     (if 97 \<le> code ch \<and> code ch \<le> 102 then scan_hex cs (int32 (val * 16 + int (code ch) - 97 + 10))
      else if 65 \<le> code ch \<and> code ch \<le> 65 then scan_hex cs (int32 (val * 16 + int (code ch) - 65 + 10))
      else if 48 \<le> code ch \<and> code ch \<le> 57 then scan_hex cs (int32 (val * 16 + int (code ch) - 48))
      else (val, ch, cs))"

fun scan_dec :: "string \<Rightarrow> int \<Rightarrow> int \<times> char \<times> string" where
  "scan_dec [] val = (val, NUL, [])"
| "scan_dec (ch # cs) val =
     (if 48 \<le> code ch \<and> code ch \<le> 57 then scan_dec cs (int32 (val * 10 + int (code ch) - 48))
      else (val, ch, cs))"

lemma scan_le: "length (snd (snd (scan_hex s v))) \<le> length s" "length (snd (snd (scan_dec s v))) \<le> length s"
  by (induction s arbitrary: v) (auto simp: le_SucI)

function unescape_xml :: "(int \<Rightarrow> string) \<Rightarrow> string \<Rightarrow> string" where
  "unescape_xml recode [] = []"
| "unescape_xml recode (ch # cs) =
     (if ch \<noteq> CHR ''&'' then ch # unescape_xml recode cs
      else if EQUALN (ch # cs) ''&lt;'' 4 then CHR ''<'' # unescape_xml recode (drop 3 cs)
      else if EQUALN (ch # cs) ''&gt;'' 4 then CHR ''>'' # unescape_xml recode (drop 3 cs)
      else if EQUALN (ch # cs) ''&amp;'' 5 then CHR ''&'' # unescape_xml recode (drop 4 cs)
      else if EQUALN (ch # cs) ''&apos;'' 6 then squote # unescape_xml recode (drop 5 cs)
      else if EQUALN (ch # cs) ''&quot;'' 6 then dquote # unescape_xml recode (drop 5 cs)
      else if EQUALN (ch # cs) ''&#x'' 3 then
        (if fst (snd (scan_hex (drop 2 cs) 0)) \<noteq> CHR '';'' then []
         else recode (fst (scan_hex (drop 2 cs) 0)) @ unescape_xml recode (snd (snd (scan_hex (drop 2 cs) 0))))
      else if EQUALN (ch # cs) ''&#'' 2 then
        (if fst (snd (scan_dec (drop 1 cs) 0)) \<noteq> CHR '';'' then []
         else recode (fst (scan_dec (drop 1 cs) 0)) @ unescape_xml recode (snd (snd (scan_dec (drop 1 cs) 0))))
      else [])"
  by pat_completeness auto
termination
proof (relation "measure (\<lambda>(recode, s). length s)")
  show "((recode, snd (snd (scan_hex (drop 2 cs) 0))), recode, ch # cs) \<in> measure (\<lambda>(recode, s). length s)"
    for recode :: "int \<Rightarrow> string" and ch cs
    using scan_le(1) [of "drop 2 cs" 0] by simp
  show "((recode, snd (snd (scan_dec (drop 1 cs) 0))), recode, ch # cs) \<in> measure (\<lambda>(recode, s). length s)"
    for recode :: "int \<Rightarrow> string" and ch cs
    using scan_le(2) [of "drop 1 cs" 0] by simp
qed auto

text \<open>The value of a hexadecimal digit, 0 for another character.\<close>

definition url_digit :: "char \<Rightarrow> nat" where
  "url_digit c =
     (if 65 \<le> code c \<and> code c \<le> 70 then code c - 65 + 10
      else if 97 \<le> code c \<and> code c \<le> 102 then code c - 97 + 10
      else if 48 \<le> code c \<and> code c \<le> 57 then code c - 48
      else 0)"

fun unescape_url :: "string \<Rightarrow> string" where
  "unescape_url [] = []"
| "unescape_url [c] = (if c = CHR ''+'' then [CHR '' ''] else [c])"
| "unescape_url [c, d] = (if c = CHR ''+'' then CHR '' '' else c) # unescape_url [d]"
| "unescape_url (c # d # e # cs) =
     (if c = CHR ''%'' then char_of (16 * url_digit d + url_digit e) # unescape_url cs
      else if c = CHR ''+'' then CHR '' '' # unescape_url (d # e # cs)
      else c # unescape_url (d # e # cs))"

fun unescape_sql :: "string \<Rightarrow> string" where
  "unescape_sql [] = []"
| "unescape_sql [c] = [c]"
| "unescape_sql (c # d # cs) =
     (if c = squote \<and> d = squote then d # unescape_sql cs else c # unescape_sql (d # cs))"

text \<open>After a backslash at the end of the string the loop goes on behind the NUL.\<close>

fun unescape_backslash :: "string \<Rightarrow> string option" where
  "unescape_backslash [] = Some []"
| "unescape_backslash [c] = (if c = bslash then None else Some [c])"
| "unescape_backslash (c # d # cs) =
     (if c = bslash then
        map_option ((#) (if d = CHR ''n'' then newline else if d = CHR ''0'' then NUL else d)) (unescape_backslash cs)
      else map_option ((#) c) (unescape_backslash (d # cs)))"

definition CPLUnescapeString :: "(int \<Rightarrow> string) \<Rightarrow> string \<Rightarrow> int \<Rightarrow> string option" where
  "CPLUnescapeString recode s nScheme =
     (if nScheme = CPLES_XML \<or> nScheme = CPLES_XML_BUT_QUOTES then Some (unescape_xml recode s)
      else if nScheme = CPLES_URL then Some (unescape_url s)
      else if nScheme = CPLES_SQL then Some (unescape_sql s)
      else unescape_backslash s)"

section \<open>Hexadecimal form of bytes\<close>

fun binary_to_hex :: "8 word list \<Rightarrow> string" where
  "binary_to_hex [] = []"
| "binary_to_hex (b # bs) =
     achHex ! unat (drop_bit 4 (b AND 0xf0)) # achHex ! unat (b AND 0x0f) # binary_to_hex bs"

definition CPLBinaryToHex :: "8 word list \<Rightarrow> string" where
  "CPLBinaryToHex bs = binary_to_hex bs"

definition hex_digit :: "char \<Rightarrow> 8 word option" where
  "hex_digit c =
     (if 48 \<le> code c \<and> code c \<le> 57 then Some (word_of_nat (code c - 48))
      else if 65 \<le> code c \<and> code c \<le> 70 then Some (word_of_nat (code c - 65 + 10))
      else if 97 \<le> code c \<and> code c \<le> 102 then Some (word_of_nat (code c - 97 + 10))
      else None)"

text \<open>The first \<open>*pnBytes\<close> bytes of the result.\<close>

fun CPLHexToBinary :: "string \<Rightarrow> 8 word list" where
  "CPLHexToBinary [] = []"
| "CPLHexToBinary [c] = []"
| "CPLHexToBinary (c # d # cs) =
     (case hex_digit c of None \<Rightarrow> []
      | Some h \<Rightarrow> (case hex_digit d of None \<Rightarrow> [] | Some l \<Rightarrow> (h * 16 + l) # CPLHexToBinary cs))"

section \<open>The type of a value\<close>

datatype CPLValueType = CPL_VALUE_STRING | CPL_VALUE_REAL | CPL_VALUE_INTEGER

primrec value_type_loop :: "string \<Rightarrow> bool \<Rightarrow> bool \<Rightarrow> bool \<Rightarrow> bool \<Rightarrow> CPLValueType" where
  "value_type_loop [] bFoundDot bFoundExponent bIsLastCharExponent bIsReal =
     (if bIsReal then CPL_VALUE_REAL else CPL_VALUE_INTEGER)"
| "value_type_loop (c # cs) bFoundDot bFoundExponent bIsLastCharExponent bIsReal =
     (if c_isdigit c then value_type_loop cs bFoundDot bFoundExponent False bIsReal
      else if c_isspace c then
        (if dropWhile c_isspace (c # cs) = [] then (if bIsReal then CPL_VALUE_REAL else CPL_VALUE_INTEGER)
         else CPL_VALUE_STRING)
      else if c = CHR ''-'' \<or> c = CHR ''+'' then
        (if bIsLastCharExponent then value_type_loop cs bFoundDot bFoundExponent False bIsReal
         else CPL_VALUE_STRING)
      else if c = CHR ''.'' then
        (if \<not> bFoundDot \<and> \<not> bIsLastCharExponent then value_type_loop cs True bFoundExponent False True
         else CPL_VALUE_STRING)
      else if c = CHR ''D'' \<or> c = CHR ''d'' \<or> c = CHR ''E'' \<or> c = CHR ''e'' then
        (if \<not> (char_at cs 0 = CHR ''+'' \<or> char_at cs 0 = CHR ''-'' \<or> c_isdigit (char_at cs 0)) then CPL_VALUE_STRING
         else if \<not> bFoundExponent then value_type_loop cs bFoundDot True True True
         else CPL_VALUE_STRING)
      else CPL_VALUE_STRING)"

definition CPLGetValueType :: "string option \<Rightarrow> CPLValueType" where
  "CPLGetValueType pszValue =
     (case pszValue of None \<Rightarrow> CPL_VALUE_STRING
      | Some s \<Rightarrow>
          (let s1 = dropWhile c_isspace s in
           if s1 = [] then CPL_VALUE_STRING
           else
             (let s2 = (if hd s1 = CHR ''+'' \<or> hd s1 = CHR ''-'' then tl s1 else s1)
              in value_type_loop s2 False False False False)))"

section \<open>Copying with a bound\<close>

text \<open>The copy loop at offset \<open>i\<close> of the destination, with \<open>n\<close> bytes left; it returns the destination, the
  offset and the rest of the source.\<close>

fun strlcpy_loop :: "string \<Rightarrow> nat \<Rightarrow> string \<Rightarrow> nat \<Rightarrow> (string \<times> nat \<times> string) option" where
  "strlcpy_loop dest i src 0 = Some (dest, i, src)"
| "strlcpy_loop dest i [] (Suc n) = Some (dest, i, [])"
| "strlcpy_loop dest i (c # cs) (Suc n) =
     (if i < length dest then strlcpy_loop (dest[i := c]) (i + 1) cs n else None)"

text \<open>\<^verbatim>\<open>CPLStrlcpy\<close> to the offset \<open>off\<close> of a buffer.\<close>

definition CPLStrlcpy :: "string \<Rightarrow> nat \<Rightarrow> string \<Rightarrow> nat \<Rightarrow> (string \<times> nat) option" where
  "CPLStrlcpy dest off src nDestSize =
     (if nDestSize = 0 then Some (dest, length src)
      else
        (case strlcpy_loop dest off src (nDestSize - 1) of
           None \<Rightarrow> None
         | Some (dest', i, rest) \<Rightarrow>
             if i < length dest' then Some (dest'[i := NUL], (i - off) + length rest) else None))"

fun strlcat_loop :: "string \<Rightarrow> nat \<Rightarrow> nat \<Rightarrow> (nat \<times> nat) option" where
  "strlcat_loop dest i 0 = Some (i, 0)"
| "strlcat_loop dest i (Suc n) =
     (if i < length dest then (if dest ! i = NUL then Some (i, Suc n) else strlcat_loop dest (i + 1) n) else None)"

definition CPLStrlcat :: "string \<Rightarrow> string \<Rightarrow> nat \<Rightarrow> (string \<times> nat) option" where
  "CPLStrlcat dest src nDestSize =
     (case strlcat_loop dest 0 nDestSize of
        None \<Rightarrow> None
      | Some (i, n) \<Rightarrow> map_option (\<lambda>(dest', r). (dest', i + r)) (CPLStrlcpy dest i src n))"

fun CPLStrnlen :: "string \<Rightarrow> nat \<Rightarrow> nat" where
  "CPLStrnlen [] n = 0"
| "CPLStrnlen (c # cs) 0 = 0"
| "CPLStrnlen (c # cs) (Suc n) = (if c = NUL then 0 else Suc (CPLStrnlen cs n))"

section \<open>The contract of an encoder and its decoder\<close>

locale codec =
  fixes ok :: "'a \<Rightarrow> bool" and enc :: "'a \<Rightarrow> string option" and dec :: "string \<Rightarrow> 'a option"
  assumes enc_dec: "ok x \<Longrightarrow> \<exists>e. enc x = Some e \<and> cstr e \<and> dec e = Some x"
begin

lemma enc_inj: "ok x \<Longrightarrow> ok y \<Longrightarrow> enc x = enc y \<Longrightarrow> x = y"
  using enc_dec [of x] enc_dec [of y] by auto

lemma dec_enc: "ok x \<Longrightarrow> enc x = Some e \<Longrightarrow> dec e = Some x"
  using enc_dec [of x] by auto

lemma enc_map_dec: "list_all ok xs \<Longrightarrow> \<exists>es. map enc xs = map Some es \<and> list_all cstr es \<and> map dec es = map Some xs"
proof (induction xs)
  case (Cons x xs)
  then obtain es e where "map enc xs = map Some es" "list_all cstr es" "map dec es = map Some xs"
    "enc x = Some e" "cstr e" "dec e = Some x" using enc_dec [of x] by auto
  then show ?case by (intro exI [of _ "e # es"]) simp
qed simp

end

lemma concat_map_length:
  "(\<And>c. length (f c) \<le> k) \<Longrightarrow> length (concat (map f s)) \<le> k * length s"
proof (induction s)
  case (Cons c s)
  then have "length (f c) \<le> k" "length (concat (map f s)) \<le> k * length s" by auto
  then show ?case by simp
qed simp

lemma cstr_concat_map: "(\<And>c. c \<in> set s \<Longrightarrow> cstr (f c)) \<Longrightarrow> cstr (concat (map f s))"
  by (induction s) auto

lemma c_string_cstr: "cstr s \<Longrightarrow> c_string s = s"
  by (induction s) (auto simp: c_string_def)

text \<open>Escaping character by character, with room for every result: \<open>nLength * 6 + 1\<close> does not overflow.\<close>

abbreviation escape_fits :: "string \<Rightarrow> bool" where
  "escape_fits s \<equiv> length s \<le> 357913941"

lemma escape_size: "escape_fits s \<Longrightarrow> int32 (int (length s) * 6 + 1) = int (length s) * 6 + 1"
  by (rule int32_id) simp_all

lemma escape_charwise:
  assumes "\<And>mem. escape_output mem s nScheme = concat (map f s)" "\<And>c. length (f c) \<le> 6"
    "\<And>c. c \<in> set s \<Longrightarrow> cstr (f c)" "escape_fits s"
  shows "CPLEscapeString (s @ [NUL]) (int (length s)) nScheme = Some (concat (map f s)) \<and> cstr (concat (map f s))"
  using assms concat_map_length [of f 6 s] cstr_concat_map [of s f] c_string_cstr escape_size [OF assms(4)]
  by (simp add: CPLEscapeString_def Let_def)

lemma achHex_digit: "n < 16 \<Longrightarrow> url_digit (achHex ! n) = n \<and> achHex ! n \<noteq> NUL
    \<and> hex_digit (achHex ! n) = Some (word_of_nat n)"
proof -
  assume "n < 16"
  then have "n \<in> {0, 1, 2, 3, 4, 5, 6, 7, 8, 9, 10, 11, 12, 13, 14, 15}"
    by (simp add: numeral_eq_Suc less_Suc_eq)
  then show ?thesis
    by (elim insertE emptyE) (simp_all add: achHex_def url_digit_def hex_digit_def)
qed

lemma unescape_backslash_step:
  "unescape_backslash (escape_backslash c @ rest) = map_option ((#) c) (unescape_backslash rest)"
  by (cases rest) (auto simp: escape_backslash_def)

lemma unescape_backslash_escaped: "unescape_backslash (concat (map escape_backslash s)) = Some s"
  by (induction s) (simp_all add: unescape_backslash_step)

lemma unescape_url_plain:
  "c \<noteq> CHR ''%'' \<Longrightarrow> c \<noteq> CHR ''+'' \<Longrightarrow> unescape_url (c # rest) = c # unescape_url rest"
  by (cases rest; cases "tl rest") auto

lemma unescape_url_step: "unescape_url (escape_url c @ rest) = c # unescape_url rest"
proof (cases "escape_url c = [c]")
  case True
  then have "c \<noteq> CHR ''%''" "c \<noteq> CHR ''+''" by (auto simp: escape_url_def split: if_splits)
  then show ?thesis using unescape_url_plain True by simp
next
  case False
  then have "escape_url c = [CHR ''%'', achHex ! (code c div 16), achHex ! (code c mod 16)]"
    by (auto simp: escape_url_def split: if_splits)
  moreover have "code c div 16 < 16" by (rule less_mult_imp_div_less) simp
  moreover have "16 * (code c div 16) + code c mod 16 = code c" by simp
  ultimately show ?thesis
    using achHex_digit [of "code c div 16"] achHex_digit [of "code c mod 16"] by simp
qed

lemma unescape_url_escaped: "unescape_url (concat (map escape_url s)) = s"
  by (induction s) (simp_all add: unescape_url_step)

lemma unescape_sql_step: "unescape_sql (escape_sql c @ rest) = c # unescape_sql rest"
  by (cases rest) (auto simp: escape_sql_def)

lemma unescape_sql_escaped: "unescape_sql (concat (map escape_sql s)) = s"
  by (induction s) (simp_all add: unescape_sql_step)

text \<open>The characters that XML can represent.\<close>

definition xml_char :: "char \<Rightarrow> bool" where
  "xml_char c \<longleftrightarrow> 0x20 \<le> code c \<or> code c = 0x9 \<or> code c = 0xA \<or> code c = 0xD"

lemma unescape_xml_step:
  "xml_char c \<Longrightarrow> unescape_xml recode (escape_xml q c @ rest) = c # unescape_xml recode rest"
  by (auto simp: escape_xml_def xml_char_def EQUALN_def numeral_eq_Suc c_tolower_def c_isupper_def)

lemma unescape_xml_escaped:
  "\<forall>c \<in> set s. xml_char c \<Longrightarrow> unescape_xml recode (concat (map (escape_xml q) s)) = s"
  by (induction s) (simp_all add: unescape_xml_step del: unescape_xml.simps(2))

interpretation backslash_codec: codec escape_fits
  "\<lambda>s. CPLEscapeString (s @ [NUL]) (int (length s)) CPLES_BackslashQuotable"
  "\<lambda>e. CPLUnescapeString recode e CPLES_BackslashQuotable" for recode
proof
  fix s :: string
  assume fits: "escape_fits s"
  have "CPLEscapeString (s @ [NUL]) (int (length s)) CPLES_BackslashQuotable = Some (concat (map escape_backslash s))
      \<and> cstr (concat (map escape_backslash s))"
    by (rule escape_charwise [OF _ _ _ fits]) (auto simp: escape_output_def escape_backslash_def)
  then show "\<exists>e. CPLEscapeString (s @ [NUL]) (int (length s)) CPLES_BackslashQuotable = Some e \<and> cstr e
      \<and> CPLUnescapeString recode e CPLES_BackslashQuotable = Some s"
    by (auto simp: CPLUnescapeString_def scheme_defs unescape_backslash_escaped)
qed

interpretation url_codec: codec escape_fits
  "\<lambda>s. CPLEscapeString (s @ [NUL]) (int (length s)) CPLES_URL"
  "\<lambda>e. CPLUnescapeString recode e CPLES_URL" for recode
proof
  fix s :: string
  assume fits: "escape_fits s"
  have "cstr (escape_url c)" for c
  proof -
    have "code c div 16 < 16" by (rule less_mult_imp_div_less) simp
    then have "achHex ! (code c div 16) \<noteq> NUL" "achHex ! (code c mod 16) \<noteq> NUL"
      using achHex_digit by simp_all
    then show ?thesis by (cases "c = NUL") (simp_all add: escape_url_def)
  qed
  then have "CPLEscapeString (s @ [NUL]) (int (length s)) CPLES_URL = Some (concat (map escape_url s))
      \<and> cstr (concat (map escape_url s))"
    by (intro escape_charwise [OF _ _ _ fits]) (auto simp: escape_output_def escape_url_def scheme_defs)
  then show "\<exists>e. CPLEscapeString (s @ [NUL]) (int (length s)) CPLES_URL = Some e \<and> cstr e
      \<and> CPLUnescapeString recode e CPLES_URL = Some s"
    by (auto simp: CPLUnescapeString_def scheme_defs unescape_url_escaped)
qed

interpretation xml_codec: codec "\<lambda>s. escape_fits s \<and> (\<forall>c \<in> set s. xml_char c)"
  "\<lambda>s. CPLEscapeString (s @ [NUL]) (int (length s)) (if q then CPLES_XML_BUT_QUOTES else CPLES_XML)"
  "\<lambda>e. CPLUnescapeString recode e (if q then CPLES_XML_BUT_QUOTES else CPLES_XML)" for recode q
proof
  fix s :: string
  assume "escape_fits s \<and> (\<forall>c \<in> set s. xml_char c)"
  then have fits: "escape_fits s" and ok: "\<forall>c \<in> set s. xml_char c" by simp_all
  let ?k = "if q then CPLES_XML_BUT_QUOTES else CPLES_XML"
  have "cstr (escape_xml q c)" if "c \<in> set s" for c
    using bspec [OF ok that] by (cases "c = NUL") (simp_all add: escape_xml_def xml_char_def)
  moreover have "length (escape_xml q c) \<le> 6" for c by (simp add: escape_xml_def)
  moreover have "escape_output mem s ?k = concat (map (escape_xml q) s)" for mem
    by (cases q) (simp_all add: escape_output_def scheme_defs)
  ultimately have "CPLEscapeString (s @ [NUL]) (int (length s)) ?k = Some (concat (map (escape_xml q) s))
      \<and> cstr (concat (map (escape_xml q) s))"
    by (intro escape_charwise [OF _ _ _ fits])
  then show "\<exists>e. CPLEscapeString (s @ [NUL]) (int (length s)) ?k = Some e \<and> cstr e
      \<and> CPLUnescapeString recode e ?k = Some s"
    using unescape_xml_escaped [OF ok] by (auto simp: CPLUnescapeString_def scheme_defs)
qed

interpretation sql_codec: codec "\<lambda>s. escape_fits s \<and> cstr s"
  "\<lambda>s. CPLEscapeString (s @ [NUL]) (int (length s)) CPLES_SQL"
  "\<lambda>e. CPLUnescapeString recode e CPLES_SQL" for recode
proof
  fix s :: string
  assume "escape_fits s \<and> cstr s"
  then have "cstr s" and fits: "escape_fits s" by simp_all
  then have "CPLEscapeString (s @ [NUL]) (int (length s)) CPLES_SQL = Some (concat (map escape_sql s))
      \<and> cstr (concat (map escape_sql s))"
    by (intro escape_charwise [OF _ _ _ fits]) (auto simp: escape_output_def escape_sql_def scheme_defs cstr_def)
  then show "\<exists>e. CPLEscapeString (s @ [NUL]) (int (length s)) CPLES_SQL = Some e \<and> cstr e
      \<and> CPLUnescapeString recode e CPLES_SQL = Some s"
    by (auto simp: CPLUnescapeString_def scheme_defs unescape_sql_escaped)
qed

text \<open>From 357913942 up to 715827882 bytes the size of the buffer is negative, so there is none: the code writes
  through a null pointer.\<close>

lemma escape_size_overflows:
  assumes "357913941 < n" "n < 715827883"
  shows "CPLEscapeString mem n nScheme = None"
proof -
  have "int32 (n * 6 + 1) = n * 6 + 1 - 2 ^ 32" by (rule int32_wrap) (use assms in simp_all)
  then have "\<not> int (k + 1) \<le> int32 (n * 6 + 1)" for k using assms(2) by simp
  then show ?thesis using assms(1) by (simp add: CPLEscapeString_def Let_def del: of_nat_add)
qed

text \<open>What a scheme can carry.\<close>

definition escapable :: "int \<Rightarrow> string \<Rightarrow> bool" where
  "escapable k s \<longleftrightarrow> k = CPLES_BackslashQuotable \<or> k = CPLES_URL
     \<or> (k = CPLES_XML \<or> k = CPLES_XML_BUT_QUOTES) \<and> (\<forall>c \<in> set s. xml_char c)
     \<or> k = CPLES_SQL \<and> cstr s"

text \<open>C35: Escaping any bytes with backslashes or for a URL, any text without control characters for XML, and
  any C string for SQL, of at most 357913941 bytes (one more and the \<^verbatim>\<open>int\<close> size of the buffer overflows), fits the
  buffer, gives a C string, and unescaping it gives the bytes back.\<close>

theorem escape_unescape_roundtrip:
  assumes "escapable k s" and "length s \<le> 357913941"
  shows "\<exists>e. CPLEscapeString (s @ [NUL]) (int (length s)) k = Some e \<and> cstr e
    \<and> CPLUnescapeString recode e k = Some s"
  using assms backslash_codec.enc_dec [of s recode] url_codec.enc_dec [of s recode]
    xml_codec.enc_dec [of s True recode] xml_codec.enc_dec [of s False recode] sql_codec.enc_dec [of s recode]
  unfolding escapable_def by auto

theorem escape_unescape_roundtrip_witness:
  "escapable CPLES_BackslashQuotable [bslash, NUL, dquote]
   \<and> (\<exists>e. CPLEscapeString ([bslash, NUL, dquote] @ [NUL]) 3 CPLES_BackslashQuotable = Some e
        \<and> CPLUnescapeString (\<lambda>_. []) e CPLES_BackslashQuotable = Some [bslash, NUL, dquote])"
proof -
  have e: "escapable CPLES_BackslashQuotable [bslash, NUL, dquote]" by (simp add: escapable_def)
  show ?thesis using e escape_unescape_roundtrip [OF e, of "\<lambda>_. []"] by auto
qed

lemma nibbles:
  "unat (drop_bit 4 (b AND 0xf0)) = unat (b :: 8 word) div 16" "unat (b AND 0x0f) = unat (b :: 8 word) mod 16"
  "unat (drop_bit 4 (b AND 0xf0)) < 16" "unat (b AND 0x0f) < 16"
proof -
  have "drop_bit 4 (b AND 0xf0) = drop_bit 4 b" by (rule byte_eqI) (simp_all add: byte_simps)
  then show h: "unat (drop_bit 4 (b AND 0xf0)) = unat b div 16"
    by (simp only: drop_bit_eq_div) (simp add: unat_div_distrib)
  have "b AND 0x0f = take_bit 4 b" by (simp add: take_bit_eq_mask mask_eq_exp_minus_1)
  then show l: "unat (b AND 0x0f) = unat b mod 16" by (simp add: take_bit_eq_mod unat_mod_distrib)
  have "unat b < 16 * 16" using unsigned_less [of b] by simp
  then show "unat (drop_bit 4 (b AND 0xf0)) < 16" "unat (b AND 0x0f) < 16"
    unfolding h l by (simp_all add: less_mult_imp_div_less)
qed

lemma hex_step: "CPLHexToBinary (binary_to_hex (b # bs)) = b # CPLHexToBinary (binary_to_hex bs)"
proof -
  have "word_of_nat (unat b div 16) * 16 + word_of_nat (unat b mod 16)
      = (word_of_nat (unat b div 16 * 16 + unat b mod 16) :: 8 word)" by (simp only: of_nat_add of_nat_mult) simp
  also have "\<dots> = b" by (simp only: div_mult_mod_eq) simp
  finally show ?thesis
    using achHex_digit [OF nibbles(3), of b] achHex_digit [OF nibbles(4), of b] unfolding nibbles(1,2)
    by (simp add: nibbles(1,2) del: drop_bit_and)
qed

lemma cstr_binary_to_hex: "cstr (binary_to_hex bs)"
  by (induction bs) (simp_all add: achHex_digit nibbles(3,4) del: drop_bit_and)

interpretation hex_codec: codec "\<lambda>_. True" "\<lambda>bs. Some (CPLBinaryToHex bs)" "\<lambda>s. Some (CPLHexToBinary s)"
proof
  fix bs :: "8 word list"
  have "CPLHexToBinary (binary_to_hex bs) = bs"
    by (induction bs) (simp_all only: hex_step, simp)
  then show "\<exists>e. Some (CPLBinaryToHex bs) = Some e \<and> cstr e \<and> Some (CPLHexToBinary e) = Some bs"
    using cstr_binary_to_hex by (simp add: CPLBinaryToHex_def)
qed

text \<open>The hexadecimal form of any bytes has two characters per byte and is read back to the same bytes;
  no two sequences of bytes have the same form.\<close>

theorem hex_binary_roundtrip:
  "CPLHexToBinary (CPLBinaryToHex bs) = bs \<and> length (CPLBinaryToHex bs) = 2 * length bs
    \<and> (CPLBinaryToHex bs = CPLBinaryToHex bs' \<longrightarrow> bs = bs')"
proof -
  have "length (binary_to_hex bs) = 2 * length bs" by (induction bs) simp_all
  then show ?thesis using hex_codec.dec_enc [of bs] hex_codec.enc_inj [of bs bs'] by (simp add: CPLBinaryToHex_def)
qed

theorem hex_binary_roundtrip_witness: "CPLHexToBinary (CPLBinaryToHex [0x1f, 0xa0]) = [0x1f, 0xa0]"
  using hex_binary_roundtrip [of "[0x1f, 0xa0]"] by blast

lemma unescape_backslash_append:
  "unescape_backslash s = Some t \<Longrightarrow> unescape_backslash (s @ rest) = map_option ((@) t) (unescape_backslash rest)"
proof (induction s arbitrary: t rule: unescape_backslash.induct)
  case 1
  then show ?case by (cases "unescape_backslash rest") simp_all
next
  case (2 c)
  then have "c \<noteq> bslash" "t = [c]" by (simp_all split: if_splits)
  then show ?case by (cases rest; cases "unescape_backslash rest") simp_all
next
  case (3 c d cs)
  show ?case
  proof (cases "c = bslash")
    case True
    then show ?thesis using 3 by (cases "unescape_backslash cs"; cases "unescape_backslash rest") auto
  next
    case False
    then show ?thesis using 3 by (cases "unescape_backslash (d # cs)"; cases "unescape_backslash rest") auto
  qed
qed

text \<open>Unescaping a string that ends with a backslash that is not itself escaped reads behind the
  terminating NUL.\<close>

theorem unescape_backslash_overread:
  assumes "CPLUnescapeString recode s CPLES_BackslashQuotable = Some t"
  shows "CPLUnescapeString recode (s @ [bslash]) CPLES_BackslashQuotable = None"
  using assms unescape_backslash_append [of s t "[bslash]"] by (simp add: CPLUnescapeString_def scheme_defs)

theorem unescape_backslash_overread_witness:
  "CPLUnescapeString (\<lambda>_. []) [CHR ''a'', bslash] CPLES_BackslashQuotable = None"
proof -
  have "CPLUnescapeString (\<lambda>_. []) ''a'' CPLES_BackslashQuotable = Some ''a''" by code_simp
  from unescape_backslash_overread [OF this] show ?thesis by simp
qed

lemma unescape_xml_hex_reference:
  "unescape_xml recode (''&#x'' @ cs)
   = (if fst (snd (scan_hex cs 0)) \<noteq> CHR '';'' then []
      else recode (fst (scan_hex cs 0)) @ unescape_xml recode (snd (snd (scan_hex cs 0))))"
  by (simp add: EQUALN_def numeral_eq_Suc c_tolower_def c_isupper_def)

lemma scan_hex_upper: "66 \<le> code c \<Longrightarrow> code c \<le> 70 \<Longrightarrow> scan_hex (c # cs) v = (v, c, cs)"
  by simp

lemma scan_hex_lower:
  assumes "66 \<le> code c" "code c \<le> 70"
  shows "scan_hex (char_of (code c + 32) # CHR '';'' # cs) 0 = (int (code c) - 55, CHR '';'', cs)"
proof -
  have "code (char_of (code c + 32)) = (code c + 32) mod 256" by simp
  also have "\<dots> = code c + 32" using assms by simp
  finally have l: "code (char_of (code c + 32)) = code c + 32" .
  have "int32 (int (code c) - 55) = int (code c) - 55"
    using assms by (intro int32_id) auto
  moreover have "0 * 16 + int (code c + 32) - 97 + 10 = int (code c) - 55" by simp
  ultimately show ?thesis using assms by (simp add: l)
qed

text \<open>Unescaping a hexadecimal character reference with one of the upper case digits B to F drops the rest
  of the text, although the lower case digit is decoded.\<close>

theorem unescape_xml_upper_hex:
  assumes "66 \<le> code c" and "code c \<le> 70"
  shows "CPLUnescapeString recode (''&#x'' @ [c] @ '';'' @ s) CPLES_XML = Some []
    \<and> CPLUnescapeString recode (''&#x'' @ [char_of (code c + 32)] @ '';'' @ s) CPLES_XML
      = Some (recode (int (code c) - 55) @ unescape_xml recode s)"
proof -
  have "c \<noteq> CHR '';''" using assms by auto
  then show ?thesis
    unfolding CPLUnescapeString_def unescape_xml_hex_reference
    using scan_hex_upper [OF assms, of "CHR '';'' # s" 0] scan_hex_lower [OF assms, of s]
    by (simp only: append_Cons append_Nil if_True if_False fst_conv snd_conv refl simp_thms)
qed

theorem unescape_xml_upper_hex_witness:
  "CPLUnescapeString (\<lambda>n. [char_of (nat n)]) ''&#xB;text'' CPLES_XML = Some []"
  using unescape_xml_upper_hex [of "CHR ''B''" "\<lambda>n. [char_of (nat n)]" "''text''"] by simp

section \<open>Properties of the remaining operations\<close>

lemma strlcpy_loop_result:
  "i + n \<le> length dest \<Longrightarrow> strlcpy_loop dest i s n
     = Some (take i dest @ take n s @ drop (i + min n (length s)) dest, i + min n (length s), drop n s)"
proof (induction dest i s n rule: strlcpy_loop.induct)
  case (3 dest i c cs n)
  have "take (i + 1) (dest[i := c]) = take i dest @ [c]"
    using 3(2) by (simp add: take_Suc_conv_app_nth)
  moreover have "drop (i + 1 + min n (length cs)) (dest[i := c]) = drop (i + 1 + min n (length cs)) dest"
    by simp
  ultimately show ?case using 3 by simp
qed simp_all

lemma list_update_cons: "length p = k \<Longrightarrow> (p @ x # q)[k := y] = p @ y # q"
  using list_update_length [of p x q y] by simp

lemma strlcpy_result:
  assumes "0 < n" "off + n \<le> length dest"
  shows "CPLStrlcpy dest off s n
    = Some (take off dest @ take (n - 1) s @ NUL # drop (off + min (n - 1) (length s) + 1) dest, length s)"
proof -
  let ?k = "min (n - 1) (length s)"
  have "off + ?k < length dest" using assms by auto
  then have d: "drop (off + ?k) dest = dest ! (off + ?k) # drop (off + ?k + 1) dest"
    by (simp add: Cons_nth_drop_Suc)
  have "length (take off dest @ take (n - 1) s) = off + ?k" using assms by auto
  from list_update_cons [OF this] have "(take off dest @ take (n - 1) s @ drop (off + ?k) dest)[off + ?k := NUL]
      = take off dest @ take (n - 1) s @ NUL # drop (off + ?k + 1) dest"
    unfolding d by (simp only: append_assoc)
  moreover have "?k + (length s - (n - 1)) = length s" by auto
  moreover have "off + ?k < length (take off dest @ take (n - 1) s @ drop (off + ?k) dest)"
    using assms by auto
  moreover have "strlcpy_loop dest off s (n - 1)
      = Some (take off dest @ take (n - 1) s @ drop (off + ?k) dest, off + ?k, drop (n - 1) s)"
    using assms by (intro strlcpy_loop_result) simp
  ultimately show ?thesis using assms(1) by (simp add: CPLStrlcpy_def)
qed

lemma strlcat_loop_result:
  "cstr s \<Longrightarrow> length s < n \<Longrightarrow> strlcat_loop (p @ s @ NUL # rest) (length p) n
     = Some (length p + length s, n - length s)"
proof (induction s arbitrary: p n)
  case Nil
  then show ?case by (cases n) simp_all
next
  case (Cons c s)
  then obtain m where "n = Suc m" "length s < m" by (cases n) auto
  then show ?case using Cons.IH [of m "p @ [c]"] Cons.prems(1) by (simp add: nth_append)
qed

lemma drop_past: "length p = k \<Longrightarrow> drop (k + j + 1) (p @ x # q) = drop j q"
  by (simp add: Suc_diff_le)

lemma overwrite_tail:
  assumes "length p = k" "k + 1 \<le> n" "n \<le> length dest"
  shows "drop n (p @ x # drop (k + 1) dest) = drop n dest \<and> length (p @ x # drop (k + 1) dest) = length dest"
proof -
  have "n = k + (n - k - 1) + 1" using assms(2) by simp
  then have "drop n (p @ x # drop (k + 1) dest) = drop (n - k - 1) (drop (k + 1) dest)"
    using drop_past [OF assms(1), of "n - k - 1" x] by metis
  also have "\<dots> = drop n dest" using assms(2) by simp
  finally show ?thesis using assms by simp
qed

lemma c_string_prefix: "cstr s \<Longrightarrow> c_string (s @ NUL # rest) = s"
  by (induction s) (auto simp: c_string_def)

text \<open>Copying a string into a buffer of \<open>n\<close> bytes and appending another stays within the \<open>n\<close> bytes, keeps
  the buffer terminated, holds the longest prefix that fits of the two strings, and the returned lengths are
  those the strings would need, so that they reach \<open>n\<close> exactly when something was cut off.\<close>

theorem strlcpy_strlcat_truncate:
  assumes "cstr s" and "cstr t" and "0 < n" and "n \<le> length dest"
  shows "\<exists>b b'. CPLStrlcpy dest 0 s n = Some (b, length s) \<and> c_string b = take (n - 1) s
    \<and> CPLStrlcat b t n = Some (b', min (n - 1) (length s) + length t) \<and> c_string b' = take (n - 1) (s @ t)
    \<and> drop n b' = drop n dest \<and> length b' = length dest"
proof -
  let ?s = "take (n - 1) s"
  let ?k = "min (n - 1) (length s)"
  let ?rest = "drop (?k + 1) dest"
  let ?b = "?s @ NUL # ?rest"
  let ?m = "n - ?k"
  let ?l = "min (?m - 1) (length t)"
  have lk: "length ?s = ?k" by auto
  have cs: "cstr ?s" "cstr (take (?m - 1) t)" using assms by blast+
  have k: "?k < n" "?k < length dest" using assms by auto
  have lb: "length ?b = length dest" using k by (simp add: lk)
  have 1: "CPLStrlcpy dest 0 s n = Some (?b, length s)"
    using strlcpy_result [of n 0 dest s] assms by simp
  have "strlcat_loop ?b 0 n = Some (?k, ?m)"
    using strlcat_loop_result [OF cs(1), of n "[]" ?rest] k by (simp add: min.commute)
  moreover have "CPLStrlcpy ?b ?k t ?m
      = Some (take ?k ?b @ take (?m - 1) t @ NUL # drop (?k + ?l + 1) ?b, length t)"
    using k assms lb by (intro strlcpy_result) auto
  moreover have "take ?k ?b = ?s"
    using append_eq_conv_conj [of ?s "NUL # ?rest" ?b] unfolding lk by simp
  ultimately have 2: "CPLStrlcat ?b t n = Some (?s @ take (?m - 1) t @ NUL # drop (?k + ?l + 1) ?b, ?k + length t)"
    by (simp add: CPLStrlcat_def)
  let ?b' = "?s @ take (?m - 1) t @ NUL # drop (?k + ?l + 1) ?b"
  have "take (n - 1) (s @ t) = ?s @ take (?m - 1) t"
  proof (cases "length s \<le> n - 1")
    case True
    then have "n - 1 - length s = n - length s - 1" by simp
    then show ?thesis using True by simp
  next
    case False
    then show ?thesis by (simp add: min_absorb1)
  qed
  then have 3: "c_string ?b' = take (n - 1) (s @ t)"
    using c_string_prefix [of "?s @ take (?m - 1) t"] cs by simp
  have "drop (?k + ?l + 1) ?b = drop ?l ?rest" by (rule drop_past [OF lk])
  also have "\<dots> = drop (?k + ?l + 1) dest" by (simp only: drop_drop add.assoc add.commute [of ?l])
  finally have d: "drop (?k + ?l + 1) ?b = drop (?k + ?l + 1) dest" .
  have ll: "length (?s @ take (?m - 1) t) = ?k + ?l" by (simp only: length_append length_take min.commute)
  have "?l \<le> ?m - 1" by simp
  with k have "?k + ?l + 1 \<le> n" by linarith
  from overwrite_tail [OF ll this assms(4), of NUL] have 4: "drop n ?b' = drop n dest"
    and 5: "length ?b' = length dest" unfolding d by (simp_all only: append_assoc)
  show ?thesis using 1 2 3 4 5 c_string_prefix [OF cs(1)] by blast
qed

theorem strlcpy_strlcat_truncate_witness:
  "\<exists>b b'. CPLStrlcpy ''xxxxxyy'' 0 ''ab'' 5 = Some (b, 2) \<and> CPLStrlcat b ''cde'' 5 = Some (b', 5)
    \<and> c_string b' = ''abcd'' \<and> drop 5 b' = ''yy''"
  using strlcpy_strlcat_truncate [of "''ab''" "''cde''" 5 "''xxxxxyy''"] by auto

text \<open>The three kinds of characters of a number are apart.\<close>

lemma number_chars:
  "c_isdigit c \<Longrightarrow> \<not> c_isspace c" "c_isdigit c \<Longrightarrow> c \<noteq> CHR ''+'' \<and> c \<noteq> CHR ''-''"
  "\<not> c_isspace (CHR ''+'')" "\<not> c_isspace (CHR ''-'')" "\<not> c_isspace (CHR ''.'')" "\<not> c_isdigit (CHR ''.'')"
  by (auto simp: c_isdigit_def c_isspace_def)

lemma dropWhile_Nil_iff: "dropWhile P s = [] \<longleftrightarrow> list_all P s"
  by (induction s) auto

lemma value_type_loop_real: "value_type_loop s d e l True \<noteq> CPL_VALUE_INTEGER"
  by (induction s arbitrary: d e l) simp_all

lemma value_type_loop_integer:
  "value_type_loop s d e False False = CPL_VALUE_INTEGER \<longleftrightarrow> list_all c_isspace (dropWhile c_isdigit s)"
proof (induction s)
  case (Cons c cs)
  consider "c_isdigit c" | "\<not> c_isdigit c" "c_isspace c" | "\<not> c_isdigit c" "\<not> c_isspace c" by blast
  then show ?case
  proof cases
    case 1
    then show ?thesis using Cons.IH by simp
  next
    case 2
    then show ?thesis by (simp add: dropWhile_Nil_iff list_all_iff)
  next
    case 3
    then show ?thesis by (simp add: value_type_loop_real)
  qed
qed simp

lemma value_type_loop_digits:
  "list_all c_isdigit ds \<Longrightarrow> value_type_loop (ds @ r) d e False b = value_type_loop r d e False b"
  by (induction ds) simp_all

lemma value_type_loop_spaces:
  "list_all c_isspace p \<Longrightarrow> value_type_loop p d e l b = (if b then CPL_VALUE_REAL else CPL_VALUE_INTEGER)"
  using number_chars(1) [of "hd p"] by (cases p) (auto simp: list_all_iff)

definition sign_part :: "string \<Rightarrow> bool" where
  "sign_part sg \<longleftrightarrow> sg = [] \<or> sg = ''+'' \<or> sg = ''-''"

lemma value_type_skip:
  assumes "list_all c_isspace pre" "sign_part sg" "r \<noteq> []" "sg = [] \<Longrightarrow> \<not> c_isspace (hd r) \<and> hd r \<noteq> CHR ''+'' \<and> hd r \<noteq> CHR ''-''"
  shows "CPLGetValueType (Some (pre @ sg @ r)) = value_type_loop r False False False False"
proof -
  have "dropWhile c_isspace (pre @ sg @ r) = dropWhile c_isspace (sg @ r)"
    using assms(1) by (induction pre) auto
  moreover have "dropWhile c_isspace (sg @ r) = sg @ r"
    using assms(2-4) number_chars(3,4) by (cases r) (auto simp: sign_part_def)
  ultimately show ?thesis
    using assms(2-4) by (auto simp: CPLGetValueType_def Let_def sign_part_def)
qed

definition exponent_part :: "string \<Rightarrow> bool" where
  "exponent_part ex \<longleftrightarrow> ex = []
     \<or> (\<exists>e sg es. ex = e # sg @ es \<and> e \<in> {CHR ''D'', CHR ''d'', CHR ''E'', CHR ''e''} \<and> sign_part sg
          \<and> es \<noteq> [] \<and> list_all c_isdigit es)"

lemma value_type_loop_exponent:
  assumes "exponent_part ex" "list_all c_isspace post"
  shows "value_type_loop (ex @ post) True False False True = CPL_VALUE_REAL"
proof (cases "ex = []")
  case True
  then show ?thesis using value_type_loop_spaces [OF assms(2)] by simp
next
  case False
  then obtain e sg es where ex: "ex = e # sg @ es" "e \<in> {CHR ''D'', CHR ''d'', CHR ''E'', CHR ''e''}"
    "sign_part sg" "es \<noteq> []" "list_all c_isdigit es" using assms(1) unfolding exponent_part_def by blast
  from ex(2) have e: "\<not> c_isdigit e" "\<not> c_isspace e" "e \<noteq> CHR ''-''" "e \<noteq> CHR ''+''" "e \<noteq> CHR ''.''"
    by (auto simp: c_isdigit_def c_isspace_def)
  obtain d ds where es: "es = d # ds" "c_isdigit d" "list_all c_isdigit ds" using ex(4,5) by (cases es) auto
  have "value_type_loop (sg @ d # ds @ post) True True True True = value_type_loop (ds @ post) True True False True"
    using ex(3) es(2) by (auto simp: sign_part_def c_isdigit_def c_isspace_def)
  also have "\<dots> = CPL_VALUE_REAL"
    using value_type_loop_digits [OF es(3)] value_type_loop_spaces [OF assms(2)] by simp
  finally have "value_type_loop (sg @ d # ds @ post) True True True True = CPL_VALUE_REAL" .
  moreover have "char_at (sg @ d # ds @ post) 0 \<in> {CHR ''+'', CHR ''-'', d}"
    using ex(3) by (auto simp: sign_part_def char_at_def)
  ultimately show ?thesis using ex(2) e es(2) by (auto simp: ex(1) es(1))
qed

lemma value_type_integer_form:
  assumes "CPLGetValueType (Some s) = CPL_VALUE_INTEGER"
  obtains pre sg ds post where "s = pre @ sg @ ds @ post" "list_all c_isspace pre" "sign_part sg"
    "list_all c_isdigit ds" "list_all c_isspace post" "sg @ ds \<noteq> []"
proof -
  define s1 where "s1 = dropWhile c_isspace s"
  define s2 where "s2 = (if hd s1 = CHR ''+'' \<or> hd s1 = CHR ''-'' then tl s1 else s1)"
  have "CPLGetValueType (Some s)
      = (if s1 = [] then CPL_VALUE_STRING else value_type_loop s2 False False False False)"
    unfolding CPLGetValueType_def Let_def option.case s1_def s2_def ..
  then have "s1 \<noteq> [] \<and> value_type_loop s2 False False False False = CPL_VALUE_INTEGER"
    using assms by (cases "s1 = []") simp_all
  then have s1: "s1 \<noteq> []" and s2: "list_all c_isspace (dropWhile c_isdigit s2)"
    by (simp_all add: value_type_loop_integer)
  define sg where "sg = (if hd s1 = CHR ''+'' \<or> hd s1 = CHR ''-'' then [hd s1] else [])"
  have "sg @ s2 = s1" using s1 by (simp add: sg_def s2_def)
  then have "s = takeWhile c_isspace s @ sg @ takeWhile c_isdigit s2 @ dropWhile c_isdigit s2"
    by (simp add: s1_def)
  moreover have "list_all P (takeWhile P xs)" for P :: "char \<Rightarrow> bool" and xs
    by (auto simp: list_all_iff dest: set_takeWhileD)
  moreover have "sign_part sg" by (simp add: sign_part_def sg_def)
  moreover have "sg @ takeWhile c_isdigit s2 \<noteq> []"
  proof
    assume "sg @ takeWhile c_isdigit s2 = []"
    then have "sg = []" "takeWhile c_isdigit s2 = []" by simp_all
    then have "s1 = takeWhile c_isdigit s2 @ dropWhile c_isdigit s2"
      using \<open>sg @ s2 = s1\<close> takeWhile_dropWhile_id [of c_isdigit s2] by (simp only: append_Nil)
    then have "s1 = dropWhile c_isdigit s2"
      using \<open>takeWhile c_isdigit s2 = []\<close> by (simp only: append_Nil)
    then have "list_all c_isspace s1" using s2 by (simp only:)
    then have "c_isspace (hd s1)" using s1 by (cases s1) simp_all
    then show False using s1 hd_dropWhile [of c_isspace s] by (simp add: s1_def)
  qed
  ultimately show ?thesis using that s2 by blast
qed

lemma value_type_skip_digits:
  assumes "list_all c_isspace pre" "sign_part sg" "list_all c_isdigit ds" "ds \<noteq> []"
  shows "CPLGetValueType (Some (pre @ sg @ ds @ r)) = value_type_loop (ds @ r) False False False False"
proof -
  obtain d ds' where "ds = d # ds'" "c_isdigit d" using assms(3,4) by (cases ds) auto
  then show ?thesis using assms(1,2) number_chars(1,2) [of d] by (intro value_type_skip) simp_all
qed

lemma value_type_integer_of_form:
  assumes "list_all c_isspace pre" "sign_part sg" "list_all c_isdigit ds" "list_all c_isspace post" "sg @ ds \<noteq> []"
  shows "CPLGetValueType (Some (pre @ sg @ ds @ post)) = CPL_VALUE_INTEGER"
proof (cases "ds = []")
  case True
  then obtain c where c: "sg = [c]" "c = CHR ''+'' \<or> c = CHR ''-''" using assms(2,5) by (auto simp: sign_part_def)
  have "dropWhile c_isspace (pre @ c # post) = dropWhile c_isspace (c # post)"
    using assms(1) by (induction pre) auto
  also have "\<dots> = c # post" using c(2) number_chars(3,4) by auto
  finally have "CPLGetValueType (Some (pre @ c # post)) = value_type_loop post False False False False"
    using c(2) by (auto simp: CPLGetValueType_def Let_def)
  then show ?thesis using True c(1) value_type_loop_spaces [OF assms(4)] by simp
next
  case False
  show ?thesis
    unfolding value_type_skip_digits [OF assms(1-3) False] value_type_loop_digits [OF assms(3)]
    using value_type_loop_spaces [OF assms(4)] by simp
qed

text \<open>A value is reported as an integer exactly when it is an optional sign and digits, not both missing,
  between white space (so a lone sign is an integer), and as a real when it is a decimal fraction with digits,
  with or without an exponent.\<close>

theorem value_type_correct:
  "(CPLGetValueType (Some s) = CPL_VALUE_INTEGER \<longleftrightarrow>
      (\<exists>pre sg ds post. s = pre @ sg @ ds @ post \<and> list_all c_isspace pre \<and> sign_part sg
        \<and> list_all c_isdigit ds \<and> list_all c_isspace post \<and> sg @ ds \<noteq> []))
   \<and> (list_all c_isspace pre' \<and> sign_part sg' \<and> ds' \<noteq> [] \<and> list_all c_isdigit ds' \<and> list_all c_isdigit fs
        \<and> exponent_part ex \<and> list_all c_isspace post' \<longrightarrow>
      CPLGetValueType (Some (pre' @ sg' @ ds' @ ''.'' @ fs @ ex @ post')) = CPL_VALUE_REAL)"
proof (intro conjI iffI impI)
  assume "CPLGetValueType (Some s) = CPL_VALUE_INTEGER"
  then obtain pre sg ds post where "s = pre @ sg @ ds @ post" "list_all c_isspace pre" "sign_part sg"
    "list_all c_isdigit ds" "list_all c_isspace post" "sg @ ds \<noteq> []" by (rule value_type_integer_form)
  then show "\<exists>pre sg ds post. s = pre @ sg @ ds @ post \<and> list_all c_isspace pre \<and> sign_part sg
      \<and> list_all c_isdigit ds \<and> list_all c_isspace post \<and> sg @ ds \<noteq> []" by (intro exI conjI)
next
  assume "\<exists>pre sg ds post. s = pre @ sg @ ds @ post \<and> list_all c_isspace pre \<and> sign_part sg
      \<and> list_all c_isdigit ds \<and> list_all c_isspace post \<and> sg @ ds \<noteq> []"
  then obtain pre sg ds post where s: "s = pre @ sg @ ds @ post" "list_all c_isspace pre" "sign_part sg"
    "list_all c_isdigit ds" "list_all c_isspace post" "sg @ ds \<noteq> []" by (elim exE conjE)
  show "CPLGetValueType (Some s) = CPL_VALUE_INTEGER"
    unfolding s(1) by (rule value_type_integer_of_form [OF s(2-)])
next
  assume a: "list_all c_isspace pre' \<and> sign_part sg' \<and> ds' \<noteq> [] \<and> list_all c_isdigit ds' \<and> list_all c_isdigit fs
    \<and> exponent_part ex \<and> list_all c_isspace post'"
  then have "CPLGetValueType (Some (pre' @ sg' @ ds' @ ''.'' @ fs @ ex @ post'))
      = value_type_loop (ds' @ ''.'' @ fs @ ex @ post') False False False False"
    by (intro value_type_skip_digits) simp_all
  also have "\<dots> = value_type_loop (''.'' @ fs @ ex @ post') False False False False"
    using a by (intro value_type_loop_digits) simp
  also have "\<dots> = value_type_loop (fs @ ex @ post') True False False True"
    using number_chars(5,6) by simp
  also have "\<dots> = CPL_VALUE_REAL"
    using a value_type_loop_digits [of fs] value_type_loop_exponent [of ex post'] by simp
  finally show "CPLGetValueType (Some (pre' @ sg' @ ds' @ ''.'' @ fs @ ex @ post')) = CPL_VALUE_REAL" .
qed

theorem value_type_correct_witness:
  "CPLGetValueType (Some '' +'') = CPL_VALUE_INTEGER \<and> CPLGetValueType (Some ''1.5'') = CPL_VALUE_REAL"
proof
  have "'' +'' = '' '' @ ''+'' @ [] @ []" "list_all c_isspace '' ''" "sign_part ''+''"
    by (simp_all add: c_isspace_def sign_part_def)
  then show "CPLGetValueType (Some '' +'') = CPL_VALUE_INTEGER"
    by (intro iffD2 [OF conjunct1 [OF value_type_correct]] exI [of _ "'' ''"] exI [of _ "''+''"] exI [of _ "[]"])
      simp_all
  show "CPLGetValueType (Some ''1.5'') = CPL_VALUE_REAL"
    using mp [OF conjunct2 [OF value_type_correct [of "[]" "[]" "[]" "''1''" "''5''" "[]" "[]"]]]
    by (simp add: c_isdigit_def sign_part_def exponent_part_def)
qed

end
