(* ===== verification/Csl_Strings.thy ===== *)
theory Csl_Strings
  imports Cpl_Prelude "HOL-Library.Monad_Syntax"
begin

text \<open>
  \<^verbatim>\<open>port/cpl_string.cpp\<close>, the string lists: NULL-terminated arrays of C strings. A list is a
  \<^typ>\<open>string list option\<close>, \<open>None\<close> being the NULL pointer; a possibly NULL C string is a
  \<^typ>\<open>string option\<close>. The functions that move pointers inside an array (insertion and removal of
  strings) work on the array itself, a \<^typ>\<open>string option list\<close> with its terminating NULL, and an
  access outside it is the value \<open>None\<close>. The tokenizer keeps the capacity of its token buffer.

  The locale \<open>name_value_store\<close> is the contract between fetching and setting a value by name; it is
  interpreted for these lists here and for the class \<^verbatim>\<open>CPLStringList\<close> in \<open>Cpl_String_List\<close>.
\<close>

type_synonym csl = "string list option"

abbreviation strings :: "csl \<Rightarrow> string list" where
  "strings l \<equiv> (case l of None \<Rightarrow> [] | Some xs \<Rightarrow> xs)"

section \<open>Adding, counting, inserting and removing strings\<close>

definition CSLCount :: "csl \<Rightarrow> int" where
  "CSLCount l = (case l of None \<Rightarrow> 0 | Some xs \<Rightarrow> int (length xs))"

definition CSLAddString :: "csl \<Rightarrow> string option \<Rightarrow> csl" where
  "CSLAddString l pszNewString =
     (case pszNewString of None \<Rightarrow> l
      | Some s \<Rightarrow> (case l of None \<Rightarrow> Some [s] | Some xs \<Rightarrow> Some (xs @ [s])))"

definition CSLGetField :: "csl \<Rightarrow> int \<Rightarrow> string" where
  "CSLGetField l iField =
     (case l of None \<Rightarrow> ''''
      | Some xs \<Rightarrow> if iField < 0 then '''' else if nat iField < length xs then xs ! nat iField else '''')"

text \<open>The strings that \<^verbatim>\<open>CSLDestroy\<close> frees.\<close>

definition CSLDestroy :: "csl \<Rightarrow> string list" where
  "CSLDestroy l = (case l of None \<Rightarrow> [] | Some xs \<Rightarrow> xs)"

definition CSLDuplicate :: "csl \<Rightarrow> csl" where
  "CSLDuplicate l = (if CSLCount l = 0 then None else Some (strings l))"

text \<open>The array of a list, and the list that an array holds: its strings before the first NULL.\<close>

definition array_of :: "string list \<Rightarrow> string option list" where
  "array_of xs = map Some xs @ [None]"

fun list_of :: "string option list \<Rightarrow> string list" where
  "list_of (Some s # a) = s # list_of a"
| "list_of _ = []"

definition rd :: "'a list \<Rightarrow> int \<Rightarrow> 'a option" where
  "rd a i = (if 0 \<le> i \<and> i < int (length a) then Some (a ! nat i) else None)"

definition wr :: "'a list \<Rightarrow> int \<Rightarrow> 'a \<Rightarrow> 'a list option" where
  "wr a i v = (if 0 \<le> i \<and> i < int (length a) then Some (a[nat i := v]) else None)"

text \<open>\<open>for (i = nSrcLines; i >= nInsertAtLineNo; i--)\<close>, \<open>k\<close> turns from index \<open>i\<close>.\<close>

fun insert_shift :: "nat \<Rightarrow> int \<Rightarrow> int \<Rightarrow> 'a list \<Rightarrow> 'a list option" where
  "insert_shift 0 i n a = Some a"
| "insert_shift (Suc k) i n a = do {
     v \<leftarrow> rd a i;
     a \<leftarrow> wr a (i + n) v;
     insert_shift k (i - 1) n a
   }"

fun insert_copy :: "string list \<Rightarrow> int \<Rightarrow> string option list \<Rightarrow> string option list option" where
  "insert_copy [] i a = Some a"
| "insert_copy (s # ss) i a = do { a \<leftarrow> wr a i (Some s); insert_copy ss (i + 1) a }"

definition CSLInsertStrings :: "csl \<Rightarrow> int \<Rightarrow> csl \<Rightarrow> csl option" where
  "CSLInsertStrings l nInsertAtLineNo newl =
     (if CSLCount newl = 0 then Some l
      else do {
        let nToInsert = CSLCount newl;
        let nSrcLines = CSLCount l;
        let a = map Some (strings l) @ [None] @ replicate (nat nToInsert) None;
        let at_line = (if nInsertAtLineNo = -1 \<or> nInsertAtLineNo > nSrcLines then nSrcLines
                       else nInsertAtLineNo);
        a \<leftarrow> insert_shift (nat (nSrcLines - at_line + 1)) nSrcLines nToInsert a;
        a \<leftarrow> insert_copy (strings newl) at_line a;
        Some (Some (list_of a))
      })"

text \<open>A NULL \<^verbatim>\<open>pszNewLine\<close> makes the temporary list empty.\<close>

definition CSLInsertString :: "csl \<Rightarrow> int \<Rightarrow> string option \<Rightarrow> csl option" where
  "CSLInsertString l nInsertAtLineNo pszNewLine =
     CSLInsertStrings l nInsertAtLineNo (Some (case pszNewLine of None \<Rightarrow> [] | Some s \<Rightarrow> [s]))"

text \<open>The loops of \<^verbatim>\<open>CSLRemoveStrings\<close>: freeing, or handing out, the removed strings; both return the
  strings. Freeing does not advance the pointer.\<close>

fun remove_free :: "nat \<Rightarrow> int \<Rightarrow> string option list \<Rightarrow> (string option list \<times> string list) option" where
  "remove_free 0 d a = Some (a, [])"
| "remove_free (Suc k) d a = do {
     v \<leftarrow> rd a d;
     a \<leftarrow> wr a d None;
     (a, fr) \<leftarrow> remove_free k d a;
     Some (a, (case v of None \<Rightarrow> fr | Some s \<Rightarrow> s # fr))
   }"

fun remove_hand :: "nat \<Rightarrow> int \<Rightarrow> string option list \<Rightarrow> (string option list \<times> string option list) option" where
  "remove_hand 0 d a = Some (a, [])"
| "remove_hand (Suc k) d a = do {
     v \<leftarrow> rd a d;
     a \<leftarrow> wr a d None;
     (a, rs) \<leftarrow> remove_hand k (d + 1) a;
     Some (a, v # rs)
   }"

text \<open>\<open>for (; *ppszSrc != NULL; ppszSrc++, ppszDst++) *ppszDst = *ppszSrc;\<close> and the final copy of the
  NULL. The fuel is the length of the array: a read beyond it ends the loop.\<close>

fun remove_shift :: "nat \<Rightarrow> int \<Rightarrow> int \<Rightarrow> string option list \<Rightarrow> string option list option" where
  "remove_shift 0 s d a = None"
| "remove_shift (Suc k) s d a = do {
     v \<leftarrow> rd a s;
     a \<leftarrow> wr a d v;
     (case v of None \<Rightarrow> Some a | Some _ \<Rightarrow> remove_shift k (s + 1) (d + 1) a)
   }"

text \<open>The result is the list, the strings handed out and the strings freed.\<close>

definition CSLRemoveStrings ::
    "csl \<Rightarrow> int \<Rightarrow> int \<Rightarrow> bool \<Rightarrow> (csl \<times> string list \<times> string list) option" where
  "CSLRemoveStrings l nFirstLineToDelete nNumToRemove wants =
     (let nSrcLines = CSLCount l; nDstLines = nSrcLines - nNumToRemove in
      if nNumToRemove < 1 \<or> nSrcLines = 0 then Some (l, [], [])
      else if nDstLines < 1 then Some (None, [], CSLDestroy l)
      else do {
        let a = array_of (strings l);
        (a, rets, freed) \<leftarrow>
          (if \<not> wants then
             do { (a, fr) \<leftarrow> remove_free (nat nNumToRemove) nFirstLineToDelete a; Some (a, [], fr) }
           else
             do { (a, rs) \<leftarrow> remove_hand (nat nNumToRemove) nFirstLineToDelete a; Some (a, list_of rs, []) });
        let first = (if nFirstLineToDelete = -1 \<or> nFirstLineToDelete > nSrcLines then nDstLines
                     else nFirstLineToDelete);
        a \<leftarrow> remove_shift (length a) (first + nNumToRemove) first a;
        Some (Some (list_of a), rets, freed)
      })"

section \<open>Finding strings\<close>

fun find_string_loop :: "string list \<Rightarrow> string \<Rightarrow> int \<Rightarrow> int" where
  "find_string_loop [] t i = -1"
| "find_string_loop (s # ss) t i = (if EQUAL s t then i else find_string_loop ss t (i + 1))"

definition CSLFindString :: "csl \<Rightarrow> string \<Rightarrow> int" where
  "CSLFindString l pszTarget =
     (case l of None \<Rightarrow> -1 | Some xs \<Rightarrow> find_string_loop xs pszTarget 0)"

text \<open>\<open>strstr\<close>: whether one string occurs in another.\<close>

definition strstr_found :: "string \<Rightarrow> string \<Rightarrow> bool" where
  "strstr_found hay needle \<longleftrightarrow> (\<exists>i \<in> set [0..<length hay + 1]. take (length needle) (drop i hay) = needle)"

fun partial_find_loop :: "string list \<Rightarrow> string \<Rightarrow> int \<Rightarrow> int" where
  "partial_find_loop [] t i = -1"
| "partial_find_loop (s # ss) t i = (if strstr_found s t then i else partial_find_loop ss t (i + 1))"

definition CSLPartialFindString :: "csl \<Rightarrow> string option \<Rightarrow> int" where
  "CSLPartialFindString l pszNeedle =
     (case (l, pszNeedle) of (Some xs, Some t) \<Rightarrow> partial_find_loop xs t 0 | _ \<Rightarrow> -1)"

section \<open>Names and values\<close>

definition CSLTestBoolean :: "string \<Rightarrow> bool" where
  "CSLTestBoolean s =
     (if EQUAL s ''NO'' \<or> EQUAL s ''FALSE'' \<or> EQUAL s ''OFF'' \<or> EQUAL s ''0'' then False else True)"

text \<open>The test on an entry for a name of length \<open>nLen\<close>.\<close>

definition entry_match :: "string \<Rightarrow> string \<Rightarrow> bool" where
  "entry_match e name \<longleftrightarrow> EQUALN e name (length name)
     \<and> (char_at e (length name) = CHR ''='' \<or> char_at e (length name) = CHR '':'')"

fun fetch_loop :: "string list \<Rightarrow> string \<Rightarrow> string option" where
  "fetch_loop [] name = None"
| "fetch_loop (e # es) name =
     (if entry_match e name then Some (drop (length name + 1) e) else fetch_loop es name)"

definition CSLFetchNameValue :: "csl \<Rightarrow> string option \<Rightarrow> string option" where
  "CSLFetchNameValue l pszName =
     (case (l, pszName) of (Some xs, Some n) \<Rightarrow> fetch_loop xs n | _ \<Rightarrow> None)"

definition CSLFetchNameValueDef :: "csl \<Rightarrow> string option \<Rightarrow> string option \<Rightarrow> string option" where
  "CSLFetchNameValueDef l pszName pszDefault =
     (case CSLFetchNameValue l pszName of Some v \<Rightarrow> Some v | None \<Rightarrow> pszDefault)"

definition CSLFetchBoolean :: "csl \<Rightarrow> string \<Rightarrow> bool \<Rightarrow> bool" where
  "CSLFetchBoolean l pszKey bDefault =
     (if CSLFindString l pszKey \<noteq> -1 then True
      else case CSLFetchNameValue l (Some pszKey) of None \<Rightarrow> bDefault | Some v \<Rightarrow> CSLTestBoolean v)"

fun find_name_loop :: "string list \<Rightarrow> string \<Rightarrow> int \<Rightarrow> int" where
  "find_name_loop [] name i = -1"
| "find_name_loop (e # es) name i = (if entry_match e name then i else find_name_loop es name (i + 1))"

definition CSLFindName :: "csl \<Rightarrow> string option \<Rightarrow> int" where
  "CSLFindName l pszName = (case (l, pszName) of (Some xs, Some n) \<Rightarrow> find_name_loop xs n 0 | _ \<Rightarrow> -1)"

text \<open>The loop at line 1214 over the copied key, whose byte \<open>i\<close> is the NUL.\<close>

fun trim_key :: "string \<Rightarrow> nat \<Rightarrow> string" where
  "trim_key key 0 = key"
| "trim_key key (Suc i) =
     (if key ! Suc i = CHR '' '' \<or> key ! Suc i = CHR 0x09 then trim_key (key[Suc i := NUL]) i else key)"

text \<open>\<open>i\<close> is the first separator; the result is the key (a C string) and the value.\<close>

definition is_sep :: "char \<Rightarrow> bool" where
  "is_sep c \<longleftrightarrow> c = CHR ''='' \<or> c = CHR '':''"

fun first_sep :: "string \<Rightarrow> nat \<Rightarrow> nat option" where
  "first_sep [] i = None"
| "first_sep (c # cs) i = (if is_sep c then Some i else first_sep cs (i + 1))"

definition CPLParseNameValue :: "string \<Rightarrow> (string \<times> string) option" where
  "CPLParseNameValue s =
     (case first_sep s 0 of None \<Rightarrow> None
      | Some i \<Rightarrow>
          (let value = dropWhile (\<lambda>c. c = CHR '' '' \<or> c = CHR 0x09) (drop (i + 1) s);
               key = takeWhile (\<lambda>c. c \<noteq> NUL) (trim_key (take i s @ [NUL]) i)
           in Some (key, value)))"

fun fetch_multiple_loop :: "string list \<Rightarrow> string \<Rightarrow> csl \<Rightarrow> csl" where
  "fetch_multiple_loop [] name vals = vals"
| "fetch_multiple_loop (e # es) name vals =
     (if entry_match e name then fetch_multiple_loop es name (CSLAddString vals (Some (drop (length name + 1) e)))
      else fetch_multiple_loop es name vals)"

definition CSLFetchNameValueMultiple :: "csl \<Rightarrow> string option \<Rightarrow> csl" where
  "CSLFetchNameValueMultiple l pszName =
     (case (l, pszName) of (Some xs, Some n) \<Rightarrow> fetch_multiple_loop xs n None | _ \<Rightarrow> None)"

definition CSLAddNameValue :: "csl \<Rightarrow> string option \<Rightarrow> string option \<Rightarrow> csl" where
  "CSLAddNameValue l pszName pszValue =
     (case (pszName, pszValue) of
        (Some n, Some v) \<Rightarrow> CSLAddString l (Some (n @ ''='' @ v))
      | _ \<Rightarrow> l)"

text \<open>The loop of \<^verbatim>\<open>CSLSetNameValue\<close>: \<open>None\<close> when no entry matches.\<close>

fun set_loop :: "string list \<Rightarrow> string \<Rightarrow> string option \<Rightarrow> string list option" where
  "set_loop [] name val = None"
| "set_loop (e # es) name val =
     (if entry_match e name then
        Some (case val of None \<Rightarrow> es | Some v \<Rightarrow> (name @ [char_at e (length name)] @ v) # es)
      else map_option ((#) e) (set_loop es name val))"

definition CSLSetNameValue :: "csl \<Rightarrow> string option \<Rightarrow> string option \<Rightarrow> csl" where
  "CSLSetNameValue l pszName pszValue =
     (case pszName of None \<Rightarrow> l
      | Some n \<Rightarrow>
          (case set_loop (strings l) n pszValue of
             Some xs \<Rightarrow> Some xs
           | None \<Rightarrow> if pszValue = None then l else CSLAddNameValue l (Some n) pszValue))"

definition CSLSetNameValueSeparator :: "csl \<Rightarrow> string \<Rightarrow> csl" where
  "CSLSetNameValueSeparator l pszSeparator =
     map_option (map (\<lambda>s. case CPLParseNameValue s of
        None \<Rightarrow> s | Some (key, value) \<Rightarrow> key @ pszSeparator @ value)) l"

text \<open>An entry of \<open>papszOverride\<close> without a separator leaves the key NULL.\<close>

definition CSLMerge :: "csl \<Rightarrow> csl \<Rightarrow> csl" where
  "CSLMerge orig override =
     (case (orig, override) of
        (None, Some _) \<Rightarrow> CSLDuplicate override
      | (_, None) \<Rightarrow> orig
      | (Some _, Some ov) \<Rightarrow>
          fold (\<lambda>s l. case CPLParseNameValue s of
                  None \<Rightarrow> CSLSetNameValue l None None
                | Some (key, value) \<Rightarrow> CSLSetNameValue l (Some key) (Some value)) ov orig)"

section \<open>The tokenizer\<close>

abbreviation quote :: char where "quote \<equiv> CHR 0x22"

abbreviation backslash :: char where "backslash \<equiv> CHR 0x5C"

definition CSLT_HONOURSTRINGS :: int where "CSLT_HONOURSTRINGS = 1"

definition CSLT_ALLOWEMPTYTOKENS :: int where "CSLT_ALLOWEMPTYTOKENS = 2"

definition CSLT_PRESERVEQUOTES :: int where "CSLT_PRESERVEQUOTES = 4"

definition CSLT_PRESERVEESCAPES :: int where "CSLT_PRESERVEESCAPES = 8"

definition CSLT_STRIPLEADSPACES :: int where "CSLT_STRIPLEADSPACES = 16"

definition CSLT_STRIPENDSPACES :: int where "CSLT_STRIPENDSPACES = 32"

definition has_flag :: "int \<Rightarrow> int \<Rightarrow> bool" where
  "has_flag fl b \<longleftrightarrow> fl AND b \<noteq> 0"

text \<open>\<open>pszToken[nTokenLen] = c; nTokenLen++;\<close> in a buffer of \<open>cap\<close> bytes.\<close>

definition put_tok :: "string \<Rightarrow> nat \<Rightarrow> char \<Rightarrow> string option" where
  "put_tok tok cap c = (if length tok < cap then Some (tok @ [c]) else None)"

text \<open>Lines 868 to 884: the character is dropped or appended. The result is \<open>bStartString\<close>, the token
  and the size of its buffer. The size \<^verbatim>\<open>nTokenMax\<close> is an \<^verbatim>\<open>int\<close>: when doubling it overflows to a negative number,
  \<^verbatim>\<open>CPLRealloc\<close> returns \<^verbatim>\<open>NULL\<close> and the next write fails.\<close>

definition store_char :: "int \<Rightarrow> bool \<Rightarrow> bool \<Rightarrow> string \<Rightarrow> nat \<Rightarrow> char \<Rightarrow> (bool \<times> string \<times> nat) option" where
  "store_char fl bInString bStartString tok cap c =
     (if \<not> bInString \<and> has_flag fl CSLT_STRIPLEADSPACES \<and> bStartString \<and> c_isspace c
      then Some (bStartString, tok, cap)
      else
        (let nTokenMax = (if int (length tok) \<ge> int cap - 3 then int32 (int cap * 2 + 10) else int cap)
         in if nTokenMax \<le> 0 then None
            else map_option (\<lambda>tok'. (False, tok', nat nTokenMax)) (put_tok tok (nat nTokenMax) c)))"

text \<open>The loop over the characters of a token; it returns the rest of the string, \<open>bInString\<close>, the token and
  the size of its buffer.\<close>

function token_scan ::
    "int \<Rightarrow> string \<Rightarrow> string \<Rightarrow> bool \<Rightarrow> bool \<Rightarrow> string \<Rightarrow> nat \<Rightarrow> (string \<times> bool \<times> string \<times> nat) option" where
  "token_scan fl delims [] bInString bStartString tok cap = Some ([], bInString, tok, cap)"
| "token_scan fl delims (c # cs) bInString bStartString tok cap =
     (if \<not> bInString \<and> strchr_found delims c then Some (cs, bInString, tok, cap)
      else if has_flag fl CSLT_HONOURSTRINGS \<and> c = quote then
        (case (if has_flag fl CSLT_PRESERVEQUOTES then put_tok tok cap c else Some tok) of
           None \<Rightarrow> None
         | Some tok' \<Rightarrow> token_scan fl delims cs (\<not> bInString) bStartString tok' cap)
      else if bInString \<and> c = backslash \<and> (char_at cs 0 = quote \<or> char_at cs 0 = backslash) then
        (case (if has_flag fl CSLT_PRESERVEESCAPES then put_tok tok cap c else Some tok) of
           None \<Rightarrow> None
         | Some tok' \<Rightarrow>
             (case store_char fl bInString bStartString tok' cap (char_at cs 0) of
                None \<Rightarrow> None
              | Some (bStart', tok'', cap') \<Rightarrow> token_scan fl delims (tl cs) bInString bStart' tok'' cap'))
      else
        (case store_char fl bInString bStartString tok cap c of
           None \<Rightarrow> None
         | Some (bStart', tok', cap') \<Rightarrow> token_scan fl delims cs bInString bStart' tok' cap'))"
  by pat_completeness auto
termination
  by (relation "measure (\<lambda>(fl, delims, s, rest). length s)") auto

lemma token_scan_le:
  "token_scan fl delims s q st tok cap = Some (rest, q', tok', cap') \<Longrightarrow> length s \<le> n \<Longrightarrow> length rest \<le> n"
proof (induction n arbitrary: s q st tok cap)
  case (Suc n)
  note IH = Suc.IH [THEN le_SucI]
  show ?case
  proof (cases s)
    case (Cons c cs)
    have "length cs \<le> n" "length (tl cs) \<le> n" using Cons Suc.prems(2) by auto
    then show ?thesis
      using Suc.prems(1) unfolding Cons
      by (auto split: if_split_asm option.split_asm prod.split_asm dest: IH)
  qed (use Suc.prems in simp)
qed simp

lemma token_scan_rest:
  "token_scan fl delims (c # cs) q st tok cap = Some (rest, q', tok', cap') \<Longrightarrow> length rest \<le> length cs"
  using token_scan_le [of fl delims cs _ _ _ _ rest q' tok' cap' "length cs"]
    token_scan_le [of fl delims "tl cs" _ _ _ _ rest q' tok' cap' "length cs"]
  by (auto split: if_split_asm option.split_asm prod.split_asm)

text \<open>The loop over the tokens.\<close>

function token_loop :: "int \<Rightarrow> string \<Rightarrow> string \<Rightarrow> string list \<Rightarrow> nat \<Rightarrow> string list option" where
  "token_loop fl delims s toks cap =
     (if s = [] then Some toks
      else
        (case token_scan fl delims s False True [] cap of
           None \<Rightarrow> None
         | Some (rest, bInString, tok, cap') \<Rightarrow>
             (let tok' = (if \<not> bInString \<and> has_flag fl CSLT_STRIPENDSPACES
                          then rev (dropWhile c_isspace (rev tok)) else tok) in
              if length tok' < cap' then
                token_loop fl delims rest
                  (if tok' \<noteq> [] \<or> has_flag fl CSLT_ALLOWEMPTYTOKENS then toks @ [tok'] else toks) cap'
              else None)))"
  by pat_completeness auto
termination
proof (relation "measure (\<lambda>(fl, delims, s, toks, cap). length s)")
  fix fl delims s toks cap v rest v' bInString v'' tok cap' tok'
  assume "s \<noteq> []" "token_scan fl delims s False True [] cap = Some v" "(rest, v') = v"
  then have *: "token_scan fl delims s False True [] cap = Some (rest, fst v', fst (snd v'), snd (snd v'))"
    by auto
  obtain c cs where "s = c # cs" using \<open>s \<noteq> []\<close> by (cases s) auto
  then have "length rest < length s" using token_scan_rest * by (metis length_Cons less_Suc_eq_le)
  then show "((fl, delims, rest, if tok' \<noteq> [] \<or> has_flag fl CSLT_ALLOWEMPTYTOKENS then toks @ [tok'] else toks, cap'),
      fl, delims, s, toks, cap) \<in> measure (\<lambda>(fl, delims, s, toks, cap). length s)"
    by simp
qed simp

declare token_loop.simps [simp del]

definition CSLTokenizeString2 :: "string option \<Rightarrow> string \<Rightarrow> int \<Rightarrow> csl option" where
  "CSLTokenizeString2 pszString delims fl =
     (case pszString of None \<Rightarrow> Some (Some [])
      | Some s \<Rightarrow>
          (case token_loop fl delims s [] 10 of None \<Rightarrow> None
           | Some toks \<Rightarrow>
               Some (Some (if has_flag fl CSLT_ALLOWEMPTYTOKENS \<and> toks \<noteq> [] \<and> strchr_found delims (last s)
                           then toks @ [''''] else toks))))"

definition CSLTokenizeString :: "string option \<Rightarrow> csl option" where
  "CSLTokenizeString pszString = CSLTokenizeString2 pszString '' '' CSLT_HONOURSTRINGS"

definition CSLTokenizeStringComplex :: "string option \<Rightarrow> string \<Rightarrow> bool \<Rightarrow> bool \<Rightarrow> csl option" where
  "CSLTokenizeStringComplex pszString delims bHonourStrings bAllowEmptyTokens =
     (let nFlags = 0;
          nFlags = (if bHonourStrings then nFlags OR CSLT_HONOURSTRINGS else nFlags);
          nFlags = (if bAllowEmptyTokens then nFlags OR CSLT_ALLOWEMPTYTOKENS else nFlags)
      in CSLTokenizeString2 pszString delims nFlags)"

section \<open>Insertion and removal on the array\<close>

lemma list_of_append [simp]: "list_of (map Some xs @ None # junk) = xs"
  by (induction xs) auto

lemma insert_shift_eq:
  assumes "i + n < int (length a)" "int k \<le> i + 1" "0 < n"
  shows "\<exists>b. insert_shift k i n a = Some b \<and> length b = length a
    \<and> (\<forall>j < length a. b ! j = (if i - int k + 1 + n \<le> int j \<and> int j \<le> i + n then a ! nat (int j - n) else a ! j))"
  using assms
proof (induction k arbitrary: i a)
  case (Suc k)
  define a' where "a' = a[nat (i + n) := a ! nat i]"
  have step: "insert_shift (Suc k) i n a = insert_shift k (i - 1) n a'"
    using Suc.prems by (simp add: rd_def wr_def a'_def)
  obtain b where b: "insert_shift k (i - 1) n a' = Some b" "length b = length a'"
    "\<And>j. j < length a' \<Longrightarrow> b ! j = (if (i - 1) - int k + 1 + n \<le> int j \<and> int j \<le> (i - 1) + n
       then a' ! nat (int j - n) else a' ! j)"
    using Suc.IH [of "i - 1" a'] Suc.prems by (auto simp: a'_def)
  have "b ! j = (if i - int (Suc k) + 1 + n \<le> int j \<and> int j \<le> i + n then a ! nat (int j - n) else a ! j)"
    if "j < length a" for j
  proof (cases "int j = i + n")
    case True
    then have "nat (i + n) = j" "nat (int j - n) = nat i" by auto
    then show ?thesis using b(3) [of j] that True Suc.prems by (simp add: a'_def)
  next
    case False
    then have "a' ! j = a ! j" "a' ! nat (int j - n) = a ! nat (int j - n)" if "int j \<le> i + n"
      using that Suc.prems by (auto simp: a'_def nth_list_update)
    moreover have "a' ! j = a ! j" if "i + n < int j"
    proof -
      have "nat (i + n) \<noteq> j" using that Suc.prems by auto
      then show ?thesis by (simp add: a'_def)
    qed
    ultimately show ?thesis using b(3) [of j] that False by (auto simp: a'_def)
  qed
  then show ?case using step b(1,2) by (simp add: a'_def)
qed auto

lemma insert_copy_eq:
  "0 \<le> i \<Longrightarrow> i + int (length ss) \<le> int (length a) \<Longrightarrow>
     insert_copy ss i a = Some (take (nat i) a @ map Some ss @ drop (nat i + length ss) a)"
proof (induction ss arbitrary: i a)
  case (Cons s ss)
  have n: "nat (i + 1) = Suc (nat i)" using Cons.prems by simp
  have lt: "nat i < length a" using Cons.prems by auto
  have "insert_copy (s # ss) i a = insert_copy ss (i + 1) (a[nat i := Some s])"
    using Cons.prems by (simp add: wr_def)
  also have "\<dots> = Some (take (Suc (nat i)) (a[nat i := Some s]) @ map Some ss
      @ drop (Suc (nat i) + length ss) (a[nat i := Some s]))"
    using Cons.IH [of "i + 1" "a[nat i := Some s]"] Cons.prems by (simp add: n)
  finally show ?case using lt by (simp add: take_Suc_conv_app_nth)
qed simp

text \<open>The line at which strings are inserted.\<close>

definition insert_line :: "string list \<Rightarrow> int \<Rightarrow> nat" where
  "insert_line xs n = (if n = -1 \<or> n > int (length xs) then length xs else nat n)"

lemma CSLInsertStrings_eq:
  assumes "new \<noteq> []" "- 1 \<le> n"
  shows "CSLInsertStrings l n (Some new) =
    Some (Some (take (insert_line (strings l) n) (strings l) @ new @ drop (insert_line (strings l) n) (strings l)))"
proof -
  let ?xs = "strings l"
  define p where "p = insert_line ?xs n"
  have p: "p \<le> length ?xs" using assms(2) by (auto simp: p_def insert_line_def)
  have cnt: "CSLCount l = int (length ?xs)" by (cases l) (auto simp: CSLCount_def)
  have at_line: "(if n = -1 \<or> n > int (length ?xs) then int (length ?xs) else n) = int p"
    using assms(2) by (auto simp: p_def insert_line_def)
  define a where "a = map Some ?xs @ [None] @ replicate (length new) None"
  have k: "nat (int (length ?xs) - int p + 1) = Suc (length ?xs - p)" using p by linarith
  have bnd: "int (length ?xs) + int (length new) < int (length a)"
    "int (Suc (length ?xs - p)) \<le> int (length ?xs) + 1" "0 < int (length new)"
    "int (length ?xs) - int (Suc (length ?xs - p)) + 1 + int (length new) = int (p + length new)"
    using p assms(1) by (simp_all add: a_def)
  obtain b where b: "insert_shift (Suc (length ?xs - p)) (int (length ?xs)) (int (length new)) a = Some b"
    "length b = length a"
    "\<And>j. j < length a \<Longrightarrow> b ! j = (if int (p + length new) \<le> int j
       \<and> int j \<le> int (length ?xs) + int (length new) then a ! nat (int j - int (length new)) else a ! j)"
    using insert_shift_eq [OF bnd(1-3)] unfolding bnd(4) by blast
  have "take p b @ map Some new @ drop (p + length new) b
      = map Some (take p ?xs @ new @ drop p ?xs) @ [None]"
  proof (rule nth_equalityI)
    show "length (take p b @ map Some new @ drop (p + length new) b)
        = length (map Some (take p ?xs @ new @ drop p ?xs) @ [None])"
      using p b(2) by (simp add: a_def)
    fix j
    assume j: "j < length (take p b @ map Some new @ drop (p + length new) b)"
    have lb: "length b = length ?xs + 1 + length new" using b(2) by (simp add: a_def)
    consider "j < p" | "p \<le> j" "j < p + length new" | "p + length new \<le> j" by linarith
    then show "(take p b @ map Some new @ drop (p + length new) b) ! j
        = (map Some (take p ?xs @ new @ drop p ?xs) @ [None]) ! j"
    proof cases
      case 1
      then show ?thesis using p lb b(3) [of j] b(2) by (simp add: nth_append a_def)
    next
      case 2
      then show ?thesis using p lb by (auto simp: nth_append)
    next
      case 3
      have "j < length b" using j p lb by simp
      then have "b ! j = a ! (j - length new)"
        using b(3) [of j] b(2) 3 p lb by (simp add: nat_diff_distrib)
      then show ?thesis using 3 p lb j by (auto simp: nth_append a_def)
    qed
  qed
  then have copy: "insert_copy new (int p) b = Some (map Some (take p ?xs @ new @ drop p ?xs) @ [None])"
    using insert_copy_eq [of "int p" new b] p b(2) by (simp add: a_def)
  have "CSLCount (Some new) = int (length new)" "int (length new) \<noteq> 0" "nat (int (length new)) = length new"
    using assms(1) by (simp_all add: CSLCount_def)
  then show ?thesis
    unfolding CSLInsertStrings_def p_def [symmetric]
    by (simp only: cnt at_line k Let_def a_def [symmetric] b(1) copy bind.bind_lunit option.case if_False
        list_of_append)
qed

lemma rd_at: "i = int (length pre) \<Longrightarrow> rd (pre @ x # post) i = Some x"
  by (simp add: rd_def nth_append)

lemma wr_at: "i = int (length pre) \<Longrightarrow> wr (pre @ x # post) i v = Some (pre @ v # post)"
  by (simp add: wr_def)

lemma remove_shift_junk:
  "mid \<noteq> [] \<Longrightarrow> length ys < k \<Longrightarrow> \<exists>junk.
     remove_shift k (int (length pre + length mid)) (int (length pre)) (pre @ mid @ map Some ys @ None # post)
       = Some (pre @ map Some ys @ None # junk) \<and> length junk = length mid + length post"
proof (induction ys arbitrary: k pre mid)
  case Nil
  then obtain j x mid' where "k = Suc j" "mid = x # mid'" by (cases k; cases mid) auto
  then show ?case by (auto simp: rd_def wr_def nth_append)
next
  case (Cons y ys)
  from Cons.prems obtain j where k: "k = Suc j" by (cases k) auto
  from Cons.prems obtain x mid' where m: "mid = x # mid'" by (cases mid) auto
  have "remove_shift k (int (length pre + length mid)) (int (length pre)) (pre @ mid @ map Some (y # ys) @ None # post)
      = remove_shift j (int (length pre + length mid) + 1) (int (length pre) + 1)
          (pre @ Some y # mid' @ Some y # map Some ys @ None # post)"
    using rd_at [of "int (length pre + length mid)" "pre @ mid" "Some y" "map Some ys @ None # post"]
      wr_at [of "int (length pre)" pre x "mid' @ Some y # map Some ys @ None # post" "Some y"]
    by (simp add: k m add.commute)
  also have "\<dots> = remove_shift j (int (length (pre @ [Some y]) + length (mid' @ [Some y])))
      (int (length (pre @ [Some y]))) ((pre @ [Some y]) @ (mid' @ [Some y]) @ map Some ys @ None # post)"
    using m by (simp add: add.commute)
  finally have "remove_shift k (int (length pre + length mid)) (int (length pre)) (pre @ mid @ map Some (y # ys) @ None # post)
    = remove_shift j (int (length (pre @ [Some y]) + length (mid' @ [Some y])))
      (int (length (pre @ [Some y]))) ((pre @ [Some y]) @ (mid' @ [Some y]) @ map Some ys @ None # post)" .
  moreover have "length mid = length (mid' @ [Some y])" by (simp add: m)
  ultimately show ?case using Cons.IH [of "mid' @ [Some y]" j "pre @ [Some y]"] Cons.prems k by auto
qed

lemma remove_shift_eq:
  "mid \<noteq> [] \<Longrightarrow> length ys < k \<Longrightarrow> \<exists>junk.
     remove_shift k (int (length pre + length mid)) (int (length pre)) (pre @ mid @ map Some ys @ [None])
       = Some (pre @ map Some ys @ None # junk)"
  using remove_shift_junk [of mid ys k pre "[]"] by auto

lemma remove_hand_eq:
  "remove_hand (length mid) (int (length pre)) (pre @ map Some mid @ post)
     = Some (pre @ replicate (length mid) None @ post, map Some mid)"
proof (induction mid arbitrary: pre)
  case (Cons x mid)
  have "remove_hand (length mid) (int (length pre) + 1) (pre @ None # map Some mid @ post)
      = Some (pre @ None # replicate (length mid) None @ post, map Some mid)"
    using Cons.IH [of "pre @ [None]"] by (simp add: add.commute)
  then show ?case by (simp add: rd_def wr_def nth_append)
qed simp

lemma remove_free_null:
  "remove_free k (int (length pre)) (pre @ None # post) = Some (pre @ None # post, [])"
  by (induction k) (auto simp: rd_def wr_def nth_append)

lemma remove_free_eq:
  "remove_free (Suc k) (int (length pre)) (pre @ Some x # post) = Some (pre @ None # post, [x])"
  by (simp add: rd_def wr_def nth_append remove_free_null)

lemma list_of_map_Some [simp]: "list_of (map Some xs) = xs"
  by (induction xs) auto

lemma CSLRemoveStrings_eq:
  assumes "xs = pre @ mid @ post" "mid \<noteq> []" "pre \<noteq> [] \<or> post \<noteq> []"
  shows "CSLRemoveStrings (Some xs) (int (length pre)) (int (length mid)) wants =
    Some (Some (pre @ post), if wants then mid else [], if wants then [] else [hd mid])"
proof -
  obtain x mid' where m: "mid = x # mid'" using assms(2) by (cases mid) auto
  let ?a = "map Some pre @ map Some mid @ map Some post @ [None]"
  have a: "array_of xs = ?a" using assms(1) by (simp add: array_of_def)
  have *: "\<exists>junk. remove_shift (length (map Some pre @ g @ map Some post @ [None]))
      (int (length pre) + int (length mid)) (int (length pre)) (map Some pre @ g @ map Some post @ [None])
      = Some (map Some pre @ map Some post @ None # junk)" if "length g = length mid" for g
  proof -
    have "g \<noteq> []" using that assms(2) by auto
    from remove_shift_eq [OF this, of post "length (map Some pre @ g @ map Some post @ [None])" "map Some pre"]
    show ?thesis using that by (simp del: remove_shift.simps)
  qed
  have "remove_hand (length mid) (int (length pre)) ?a
      = Some (map Some pre @ replicate (length mid) None @ map Some post @ [None], map Some mid)"
    using remove_hand_eq [of mid "map Some pre" "map Some post @ [None]"] by simp
  moreover have "remove_free (length mid) (int (length pre)) ?a
      = Some (map Some pre @ (None # map Some mid') @ map Some post @ [None], [x])"
    using remove_free_eq [of "length mid'" "map Some pre" x "map Some mid' @ map Some post @ [None]"] m by simp
  moreover have lo: "list_of (map Some pre @ map Some post @ None # junk) = pre @ post" for junk
    using list_of_append [of "pre @ post" junk] by simp
  moreover have "CSLCount (Some xs) = int (length pre) + int (length mid) + int (length post)"
    using assms(1) by (simp add: CSLCount_def)
  moreover have "1 \<le> length mid" "1 \<le> length pre + length post"
    using assms(2,3) by (auto simp: Suc_le_eq)
  moreover obtain j1 where "remove_shift
      (length (map Some pre @ replicate (length mid) None @ map Some post @ [None]))
      (int (length pre) + int (length mid)) (int (length pre))
      (map Some pre @ replicate (length mid) None @ map Some post @ [None])
      = Some (map Some pre @ map Some post @ None # j1)"
    using * [of "replicate (length mid) None"] by auto
  moreover obtain j2 where "remove_shift
      (length (map Some pre @ (None # map Some mid') @ map Some post @ [None]))
      (int (length pre) + int (length mid)) (int (length pre))
      (map Some pre @ (None # map Some mid') @ map Some post @ [None])
      = Some (map Some pre @ map Some post @ None # j2)"
    using * [of "None # map Some mid'"] m by auto
  moreover have "hd mid = x" using m by simp
  ultimately show ?thesis
    using assms(2) by (cases wants)
      (simp_all add: CSLRemoveStrings_def a Let_def del: remove_shift.simps remove_free.simps remove_hand.simps
        length_append append_Cons)
qed

text \<open>Inserting strings into a list puts them before the line asked for (at the end for -1 or a line
  beyond the end), and removing as many strings from that line restores the list. The removed strings are handed
  out when the caller asks for them; otherwise only the first of them is freed and the others leak.\<close>

theorem csl_insert_remove:
  assumes "new \<noteq> []" and "xs \<noteq> []" and "- 1 \<le> n"
  shows "CSLInsertStrings (Some xs) n (Some new)
      = Some (Some (take (insert_line xs n) xs @ new @ drop (insert_line xs n) xs))
    \<and> CSLRemoveStrings (Some (take (insert_line xs n) xs @ new @ drop (insert_line xs n) xs))
        (int (insert_line xs n)) (int (length new)) wants
      = Some (Some xs, if wants then new else [], if wants then [] else [hd new])"
proof -
  let ?p = "insert_line xs n"
  have p: "?p \<le> length xs" using assms(3) by (auto simp: insert_line_def)
  have "take ?p xs \<noteq> [] \<or> drop ?p xs \<noteq> []" using assms(2) by (metis append_take_drop_id append_Nil)
  then show ?thesis
    using CSLInsertStrings_eq [OF assms(1,3), of "Some xs"] p assms(1)
      CSLRemoveStrings_eq [OF refl, of new "take ?p xs" "drop ?p xs" wants] by simp
qed

theorem csl_insert_remove_witness:
  "CSLInsertStrings (Some [''a'', ''b'']) 1 (Some [''x'', ''y'']) = Some (Some [''a'', ''x'', ''y'', ''b''])
   \<and> CSLRemoveStrings (Some [''a'', ''x'', ''y'', ''b'']) 1 2 False = Some (Some [''a'', ''b''], [], [''x''])"
  using csl_insert_remove [of "[''x'', ''y'']" "[''a'', ''b'']" 1 False] by (simp add: insert_line_def)

text \<open>Although the code foresees -1 for the last strings, removing strings at -1 accesses the array before its
  beginning (whenever some string remains).\<close>

theorem csl_remove_at_minus_one:
  assumes "1 \<le> k" and "k < int (length xs)"
  shows "CSLRemoveStrings (Some xs) (- 1) k wants = None"
proof -
  obtain j where "nat k = Suc j" using assms(1) by (cases "nat k") auto
  then show ?thesis using assms by (auto simp: CSLRemoveStrings_def CSLCount_def Let_def rd_def)
qed

theorem csl_remove_at_minus_one_witness:
  "CSLRemoveStrings (Some [''a'', ''b'']) (- 1) 1 True = None"
  using csl_remove_at_minus_one [of 1 "[''a'', ''b'']"] by simp

section \<open>Names\<close>

definition valid_name :: "string \<Rightarrow> bool" where
  "valid_name n \<longleftrightarrow> cstr n \<and> (\<forall>c \<in> set n. \<not> is_sep c)"

definition same_name :: "string \<Rightarrow> string \<Rightarrow> bool" where
  "same_name a b \<longleftrightarrow> map c_tolower a = map c_tolower b"

definition csl_ok :: "csl \<Rightarrow> bool" where
  "csl_ok l \<longleftrightarrow> (\<forall>s \<in> set (strings l). cstr s)"

lemma same_name_refl [simp]: "same_name n n"
  by (simp add: same_name_def)

lemma same_name_sym: "same_name a b \<Longrightarrow> same_name b a"
  by (simp add: same_name_def)

lemma same_name_trans: "same_name a b \<Longrightarrow> same_name b c \<Longrightarrow> same_name a c"
  by (simp add: same_name_def)

lemma same_name_length: "same_name a b \<Longrightarrow> length a = length b"
  unfolding same_name_def by (metis length_map)

lemma tolower_sep [simp]: "is_sep (c_tolower c) \<longleftrightarrow> is_sep c"
proof -
  have "c_tolower c \<noteq> c \<Longrightarrow> code (c_tolower c) \<ge> 97"
    by (auto simp: c_tolower_def c_isupper_def split: if_splits)
  moreover have "c_tolower c \<noteq> c \<Longrightarrow> 65 \<le> code c \<and> code c \<le> 90"
    by (auto simp: c_tolower_def c_isupper_def split: if_splits)
  moreover have "is_sep d \<Longrightarrow> code d = 61 \<or> code d = 58" for d by (auto simp: is_sep_def)
  ultimately show ?thesis by (cases "c_tolower c = c") fastforce+
qed

lemma same_name_sep: "same_name a b \<Longrightarrow> (\<forall>c \<in> set a. \<not> is_sep c) \<longleftrightarrow> (\<forall>c \<in> set b. \<not> is_sep c)"
proof -
  have "(\<forall>c \<in> set a. \<not> is_sep c) \<longleftrightarrow> (\<forall>c \<in> set (map c_tolower a). \<not> is_sep c)" for a by simp
  then show "same_name a b \<Longrightarrow> ?thesis" unfolding same_name_def by metis
qed

lemma same_name_valid: "same_name a b \<Longrightarrow> valid_name b \<Longrightarrow> cstr a \<Longrightarrow> valid_name a"
  using same_name_sep unfolding valid_name_def by blast

text \<open>An entry matches a name when its text before its first separator is the name.\<close>

lemma entry_match_split:
  assumes "cstr e" "cstr n"
  shows "entry_match e n \<longleftrightarrow> (\<exists>k c r. e = k @ c # r \<and> is_sep c \<and> same_name k n)"
proof
  assume m: "entry_match e n"
  then have c: "is_sep (char_at e (length n))" and "map c_tolower (take (length n) e) = map c_tolower n"
    using assms by (auto simp: entry_match_def EQUALN_iff is_sep_def)
  moreover from c have "length n < length e" by (auto simp: char_at_def is_sep_def split: if_splits)
  ultimately have "e = take (length n) e @ e ! length n # drop (Suc (length n)) e"
    "is_sep (e ! length n)" "same_name (take (length n) e) n"
    by (simp_all add: id_take_nth_drop [symmetric] same_name_def)
  then show "\<exists>k c r. e = k @ c # r \<and> is_sep c \<and> same_name k n" by blast
next
  assume "\<exists>k c r. e = k @ c # r \<and> is_sep c \<and> same_name k n"
  then obtain k c r where e: "e = k @ c # r" "is_sep c" "same_name k n" by blast
  then show "entry_match e n"
    using assms same_name_length [OF e(3)] char_at_append_length [of k c r]
    by (simp add: entry_match_def EQUALN_iff same_name_def is_sep_def)
qed

lemma takeWhile_key:
  "is_sep c \<Longrightarrow> \<forall>x \<in> set k. \<not> is_sep x \<Longrightarrow> takeWhile (\<lambda>x. \<not> is_sep x) (k @ c # r) = k"
  by (subst takeWhile_append2) auto

lemma split_sep_unique:
  assumes "k @ c # r = k' @ c' # r'" "is_sep c" "is_sep c'" "\<forall>x \<in> set k. \<not> is_sep x" "\<forall>x \<in> set k'. \<not> is_sep x"
  shows "k = k' \<and> c = c' \<and> r = r'"
proof -
  have "k = k'" using assms(1) takeWhile_key [OF assms(2,4), of r] takeWhile_key [OF assms(3,5), of r'] by simp
  then show ?thesis using assms(1) by simp
qed

lemma entry_match_key:
  assumes "cstr (k @ c # r)" "is_sep c" "\<forall>x \<in> set k. \<not> is_sep x" "valid_name m"
  shows "entry_match (k @ c # r) m \<longleftrightarrow> same_name k m"
proof
  assume "entry_match (k @ c # r) m"
  then obtain k' c' r' where e: "k @ c # r = k' @ c' # r'" "is_sep c'" "same_name k' m"
    using entry_match_split [OF assms(1)] assms(4) unfolding valid_name_def by blast
  then have "\<forall>x \<in> set k'. \<not> is_sep x" using same_name_sep assms(4) unfolding valid_name_def by blast
  then show "same_name k m" using split_sep_unique [OF e(1) assms(2) e(2) assms(3)] e(3) by simp
next
  assume "same_name k m"
  then show "entry_match (k @ c # r) m"
    using assms entry_match_split [of "k @ c # r" m] unfolding valid_name_def by blast
qed

lemma entry_match_unique:
  assumes "cstr e" "valid_name n" "valid_name m" "entry_match e n"
  shows "entry_match e m \<longleftrightarrow> same_name m n"
proof -
  obtain k c r where e: "e = k @ c # r" "is_sep c" "same_name k n"
    using assms entry_match_split [of e n] unfolding valid_name_def by blast
  then have "\<forall>x \<in> set k. \<not> is_sep x" using same_name_sep assms(2) unfolding valid_name_def by blast
  then have "entry_match e m \<longleftrightarrow> same_name k m" using entry_match_key assms e by simp
  then show ?thesis using e(3) same_name_sym same_name_trans by blast
qed

lemma char_at_match: "entry_match e n \<Longrightarrow> is_sep (char_at e (length n)) \<and> char_at e (length n) \<noteq> NUL"
  by (auto simp: entry_match_def is_sep_def)

lemma fetch_new_entry:
  assumes "valid_name n" "valid_name m" "cstr v" "is_sep c" "c \<noteq> NUL"
  shows "fetch_loop ((n @ c # v) # es) m = (if same_name m n then Some v else fetch_loop es m)"
proof -
  have "entry_match (n @ c # v) m \<longleftrightarrow> same_name n m"
    using assms by (intro entry_match_key) (auto simp: valid_name_def)
  moreover have "drop (Suc (length m)) (n @ c # v) = v" if "same_name n m"
    using same_name_length [OF that] by simp
  ultimately show ?thesis using same_name_sym by auto
qed

lemma set_loop_fetch:
  assumes "\<forall>s \<in> set es. cstr s" "valid_name n" "valid_name m" "cstr v"
  shows "(case set_loop es n (Some v) of
      Some ys \<Rightarrow> (\<forall>s \<in> set ys. cstr s) \<and> fetch_loop ys m = (if same_name m n then Some v else fetch_loop es m)
    | None \<Rightarrow> same_name m n \<longrightarrow> fetch_loop es m = None)"
  using assms(1)
proof (induction es)
  case (Cons e es)
  show ?case
  proof (cases "entry_match e n")
    case True
    note c = char_at_match [OF True]
    have "entry_match e m \<longleftrightarrow> same_name m n"
      using entry_match_unique [OF _ assms(2,3) True] Cons.prems by simp
    moreover have "cstr (n @ char_at e (length n) # v)"
      using assms(2,4) c by (simp add: valid_name_def)
    ultimately show ?thesis
      using True Cons.prems fetch_new_entry [OF assms(2,3,4)] c by (auto simp del: fetch_loop.simps simp: fetch_loop.simps(2) [of e])
  next
    case False
    have "\<not> entry_match e m" if "same_name m n"
    proof
      assume "entry_match e m"
      then have "entry_match e n \<longleftrightarrow> same_name n m"
        using entry_match_unique [of e m n] Cons.prems assms by simp
      then show False using that False same_name_sym by blast
    qed
    then show ?thesis using Cons False by (auto split: option.splits)
  qed
qed simp

section \<open>The contract of a store of named values\<close>

locale name_value_store =
  fixes ok :: "'l \<Rightarrow> bool"
    and fetch :: "'l \<Rightarrow> string \<Rightarrow> string option"
    and set_value :: "'l \<Rightarrow> string \<Rightarrow> string \<Rightarrow> 'l"
  assumes set_ok: "ok l \<Longrightarrow> valid_name n \<Longrightarrow> cstr v \<Longrightarrow> ok (set_value l n v)"
    and fetch_set: "ok l \<Longrightarrow> valid_name n \<Longrightarrow> valid_name m \<Longrightarrow> cstr v \<Longrightarrow>
      fetch (set_value l n v) m = (if same_name m n then Some v else fetch l m)"
begin

text \<open>Setting a sequence of values: the last one given for a name counts.\<close>

lemma fetch_set_all:
  assumes "ok l" "\<forall>(n, v) \<in> set nvs. valid_name n \<and> cstr v" "valid_name m"
  shows "ok (fold (\<lambda>(n, v) l. set_value l n v) nvs l)
    \<and> fetch (fold (\<lambda>(n, v) l. set_value l n v) nvs l) m
      = (case List.find (\<lambda>(n, v). same_name m n) (rev nvs) of Some (n, v) \<Rightarrow> Some v | None \<Rightarrow> fetch l m)"
  using assms(2)
proof (induction nvs rule: rev_induct)
  case Nil
  then show ?case using assms(1) by simp
next
  case (snoc nv nvs)
  obtain n v where nv: "nv = (n, v)" by (cases nv)
  have "ok (fold (\<lambda>(n, v) l. set_value l n v) nvs l)" using snoc by simp
  then show ?case using snoc nv assms(3) fetch_set [of _ n m v] set_ok [of _ n v] by simp
qed

lemma set_again:
  assumes "ok l" "valid_name n" "valid_name m" "cstr v" "cstr w"
  shows "fetch (set_value (set_value l n v) n w) m = fetch (set_value l n w) m"
  using assms fetch_set set_ok by simp

lemma set_swap:
  assumes "ok l" "valid_name n" "valid_name n'" "valid_name m" "cstr v" "cstr w" "\<not> same_name n n'"
  shows "fetch (set_value (set_value l n v) n' w) m = fetch (set_value (set_value l n' w) n v) m"
proof -
  have "\<not> (same_name m n \<and> same_name m n')" using assms(7) same_name_sym same_name_trans by blast
  then show ?thesis using assms(1-6) by (simp add: fetch_set set_ok)
qed

end

lemma csl_set_value:
  assumes "csl_ok l" "valid_name n" "cstr v"
  shows "csl_ok (CSLSetNameValue l (Some n) (Some v))"
    and "valid_name m \<Longrightarrow> CSLFetchNameValue (CSLSetNameValue l (Some n) (Some v)) (Some m)
      = (if same_name m n then Some v else CSLFetchNameValue l (Some m))"
proof -
  have es: "\<forall>s \<in> set (strings l). cstr s" using assms(1) by (simp add: csl_ok_def)
  have n: "valid_name n" "cstr n" using assms(2) by (simp_all add: valid_name_def)
  have fetch: "CSLFetchNameValue l (Some m) = fetch_loop (strings l) m" for l m
    by (cases l) (simp_all add: CSLFetchNameValue_def)
  have app: "fetch_loop (es @ [e]) m = (case fetch_loop es m of Some v \<Rightarrow> Some v | None \<Rightarrow> fetch_loop [e] m)"
    for es e m by (induction es) auto
  have add: "strings (CSLAddNameValue l (Some n) (Some v)) = strings l @ [n @ ''='' @ v]"
    by (cases l) (simp_all add: CSLAddNameValue_def CSLAddString_def)
  have sep: "is_sep CHR ''=''" "CHR ''='' \<noteq> NUL" by (simp_all add: is_sep_def)
  show "csl_ok (CSLSetNameValue l (Some n) (Some v))"
    using set_loop_fetch [OF es n(1) n(1) assms(3)] es n(2) assms(3) add
    by (auto simp: CSLSetNameValue_def csl_ok_def split: option.splits)
  show "CSLFetchNameValue (CSLSetNameValue l (Some n) (Some v)) (Some m)
      = (if same_name m n then Some v else CSLFetchNameValue l (Some m))" if m: "valid_name m"
  proof (cases "set_loop (strings l) n (Some v)")
    case (Some ys)
    then show ?thesis using set_loop_fetch [OF es n(1) m assms(3)]
      by (simp add: CSLSetNameValue_def fetch)
  next
    case None
    then have "same_name m n \<longrightarrow> fetch_loop (strings l) m = None"
      using set_loop_fetch [OF es n(1) m assms(3)] by simp
    then show ?thesis
      using None fetch_new_entry [OF n(1) m assms(3) sep, of "[]"]
      by (auto simp: CSLSetNameValue_def fetch add app split: option.splits)
  qed
qed

interpretation csl: name_value_store csl_ok "\<lambda>l n. CSLFetchNameValue l (Some n)"
  "\<lambda>l n v. CSLSetNameValue l (Some n) (Some v)"
  by unfold_locales (simp_all add: csl_set_value)

text \<open>C30: Fetching a name after setting names gives the value last set for it, in any case of letters,
  and names that were not set keep their value.\<close>

theorem csl_fetch_after_sets:
  assumes "csl_ok l" and "\<forall>(n, v) \<in> set nvs. valid_name n \<and> cstr v" and "valid_name m"
  shows "CSLFetchNameValue (fold (\<lambda>(n, v) l. CSLSetNameValue l (Some n) (Some v)) nvs l) (Some m)
    = (case List.find (\<lambda>(n, v). same_name m n) (rev nvs) of
         Some (n, v) \<Rightarrow> Some v | None \<Rightarrow> CSLFetchNameValue l (Some m))"
  using csl.fetch_set_all [OF assms] by blast

theorem csl_fetch_after_sets_witness:
  "CSLFetchNameValue (CSLSetNameValue (CSLSetNameValue (Some [''A:x'', ''B=y'']) (Some ''a'') (Some ''1''))
     (Some ''C'') (Some ''2'')) (Some ''A'') = Some ''1''"
proof -
  have "csl_ok (Some [''A:x'', ''B=y''])" "valid_name ''a''" "valid_name ''C''" "valid_name ''A''"
    "cstr ''1''" "cstr ''2''" "\<not> same_name ''A'' ''C''" "same_name ''A'' ''a''" by code_simp+
  then show ?thesis
    using csl_fetch_after_sets [of "Some [''A:x'', ''B=y'']" "[(''a'', ''1''), (''C'', ''2'')]" "''A''"] by simp
qed

text \<open>The list of all values of a name.\<close>

fun values_of :: "string list \<Rightarrow> string \<Rightarrow> string list" where
  "values_of [] n = []"
| "values_of (e # es) n = (if entry_match e n then drop (length n + 1) e # values_of es n else values_of es n)"

lemma fetch_multiple_loop_eq:
  "strings (fetch_multiple_loop es n vals) = strings vals @ values_of es n"
  by (induction es arbitrary: vals) (auto simp: CSLAddString_def split: option.splits)

lemma fetch_loop_values: "fetch_loop es n = (case values_of es n of [] \<Rightarrow> None | v # _ \<Rightarrow> Some v)"
  by (induction es) auto

lemma find_name_loop_bound: "find_name_loop es n i \<noteq> - 1 \<Longrightarrow> 0 \<le> i \<Longrightarrow> i \<le> find_name_loop es n i"
  by (induction es arbitrary: i) (force split: if_splits)+

lemma find_name_loop_values:
  "0 \<le> i \<Longrightarrow> find_name_loop es n i = - 1 \<longleftrightarrow> values_of es n = []"
  by (induction es arbitrary: i) auto

lemma set_loop_remove:
  assumes "\<forall>s \<in> set es. cstr s" "valid_name n" "valid_name m"
  shows "(case set_loop es n None of
      Some ys \<Rightarrow> values_of ys m = (if same_name m n then tl (values_of es m) else values_of es m)
    | None \<Rightarrow> same_name m n \<longrightarrow> values_of es m = [])"
  using assms(1)
proof (induction es)
  case (Cons e es)
  show ?case
  proof (cases "entry_match e n")
    case True
    then show ?thesis using entry_match_unique [OF _ assms(2,3) True] Cons.prems by simp
  next
    case False
    have "\<not> entry_match e m" if "same_name m n"
    proof
      assume "entry_match e m"
      then have "entry_match e n \<longleftrightarrow> same_name n m"
        using entry_match_unique [of e m n] Cons.prems assms by simp
      then show False using that False same_name_sym by blast
    qed
    then show ?thesis using Cons False by (auto split: option.splits)
  qed
qed simp

text \<open>Setting a name to NULL removes the first of its values and no other entry's; the first value is what
  \<^verbatim>\<open>CSLFetchNameValue\<close> returns, and \<^verbatim>\<open>CSLFindName\<close> finds a name when it has a value.\<close>

theorem csl_remove_name:
  assumes "csl_ok l" and "valid_name n" and "valid_name m"
  shows "strings (CSLFetchNameValueMultiple (CSLSetNameValue l (Some n) None) (Some m))
      = (if same_name m n then tl (strings (CSLFetchNameValueMultiple l (Some m)))
         else strings (CSLFetchNameValueMultiple l (Some m)))
    \<and> CSLFetchNameValue l (Some m)
      = (case strings (CSLFetchNameValueMultiple l (Some m)) of [] \<Rightarrow> None | v # _ \<Rightarrow> Some v)
    \<and> (CSLFindName l (Some m) = - 1 \<longleftrightarrow> CSLFetchNameValue l (Some m) = None)"
proof -
  have es: "\<forall>s \<in> set (strings l). cstr s" using assms(1) by (simp add: csl_ok_def)
  have mult: "strings (CSLFetchNameValueMultiple l (Some m)) = values_of (strings l) m" for l
    using fetch_multiple_loop_eq [of _ m None] by (cases l) (simp_all add: CSLFetchNameValueMultiple_def)
  have fetch: "CSLFetchNameValue l (Some m) = fetch_loop (strings l) m"
    by (cases l) (simp_all add: CSLFetchNameValue_def)
  have find: "CSLFindName l (Some m) = find_name_loop (strings l) m 0"
    by (cases l) (simp_all add: CSLFindName_def)
  show ?thesis
    using set_loop_remove [OF es assms(2,3)] fetch_loop_values [of "strings l" m]
      find_name_loop_values [of 0 "strings l" m] unfolding mult fetch find
    by (auto simp: CSLSetNameValue_def split: option.splits list.splits)
qed

theorem csl_remove_name_witness:
  "strings (CSLFetchNameValueMultiple (CSLSetNameValue (Some [''A=1'', ''B=2'', ''a:3'']) (Some ''a'') None) (Some ''A''))
     = [''3'']"
proof -
  have "csl_ok (Some [''A=1'', ''B=2'', ''a:3''])" "valid_name ''a''" "valid_name ''A''" "same_name ''A'' ''a''"
    "strings (CSLFetchNameValueMultiple (Some [''A=1'', ''B=2'', ''a:3'']) (Some ''A'')) = [''1'', ''3'']"
    by code_simp+
  then show ?thesis using csl_remove_name [of "Some [''A=1'', ''B=2'', ''a:3'']" "''a''" "''A''"] by simp
qed

section \<open>Parsing and merging\<close>

definition blank :: "char \<Rightarrow> bool" where
  "blank c \<longleftrightarrow> c = CHR '' '' \<or> c = CHR 0x09"

lemma blank_eta: "(\<lambda>c. c = CHR '' '' \<or> c = CHR 0x09) = blank"
  by (auto simp: blank_def)

lemma first_sep_eq:
  "first_sep s i = (if \<exists>c \<in> set s. is_sep c then Some (i + length (takeWhile (\<lambda>c. \<not> is_sep c) s)) else None)"
  by (induction s arbitrary: i) auto

lemma takeWhile_cstr: "cstr k \<Longrightarrow> takeWhile (\<lambda>c. c \<noteq> NUL) (k @ [NUL]) = k"
  by (induction k) auto

lemma trim_key_nothing: "trim_key (k @ [NUL]) (length k) = k @ [NUL]"
  by (cases "length k") (simp_all add: nth_append)

lemma CPLParseNameValue_eq:
  assumes "cstr s"
  shows "CPLParseNameValue s =
    (if \<exists>c \<in> set s. is_sep c
     then Some (takeWhile (\<lambda>c. \<not> is_sep c) s, dropWhile blank (tl (dropWhile (\<lambda>c. \<not> is_sep c) s)))
     else None)"
proof (cases "\<exists>c \<in> set s. is_sep c")
  case True
  let ?k = "takeWhile (\<lambda>c. \<not> is_sep c) s"
  have tk: "take (length ?k) s = ?k" "drop (length ?k) s = dropWhile (\<lambda>c. \<not> is_sep c) s"
    by (metis append_eq_conv_conj takeWhile_dropWhile_id)+
  have "cstr ?k" using assms set_takeWhileD unfolding cstr_def by metis
  then have "takeWhile (\<lambda>c. c \<noteq> NUL) (trim_key (?k @ [NUL]) (length ?k)) = ?k"
    by (simp add: trim_key_nothing takeWhile_cstr)
  moreover have "drop (length ?k + 1) s = tl (dropWhile (\<lambda>c. \<not> is_sep c) s)"
    using tk(2) by (metis Suc_eq_plus1 drop_Suc tl_drop)
  ultimately show ?thesis
    using True tk(1) by (simp add: CPLParseNameValue_def first_sep_eq Let_def blank_eta)
qed (simp add: CPLParseNameValue_def first_sep_eq)

text \<open>A line is parsed at its first separator: the value loses the blanks after the separator, but the key
  is all of the text before it. The loop that should trim the blanks at the end of the key tests the
  terminating NUL and never trims.\<close>

theorem csl_parse_name_value:
  assumes "cstr (k @ c # v)" and "is_sep c" and "\<forall>x \<in> set k. \<not> is_sep x"
  shows "CPLParseNameValue (k @ c # v) = Some (k, dropWhile blank v)"
  using CPLParseNameValue_eq [OF assms(1)] takeWhile_key [OF assms(2,3), of v] assms
  by (simp add: dropWhile_append2)

theorem csl_parse_name_value_witness:
  "CPLParseNameValue ''NAME  =  a b'' = Some (''NAME  '', ''a b'')"
proof -
  have "cstr (''NAME  '' @ CHR ''='' # ''  a b'')" "is_sep CHR ''=''" "\<forall>x \<in> set ''NAME  ''. \<not> is_sep x"
    "dropWhile blank ''  a b'' = ''a b''" by code_simp+
  then show ?thesis using csl_parse_name_value [of "''NAME  ''" "CHR ''=''" "''  a b''"] by simp
qed

lemma parse_match:
  assumes "cstr e" "valid_name m" "CPLParseNameValue e = Some (k, v)"
  shows "valid_name k" "cstr v" "entry_match e m \<longleftrightarrow> same_name m k"
    "same_name m k \<Longrightarrow> v = dropWhile blank (drop (length m + 1) e)"
proof -
  obtain c r where e: "e = k @ c # r" "is_sep c" "\<forall>x \<in> set k. \<not> is_sep x" "v = dropWhile blank r"
  proof -
    have s: "\<exists>c \<in> set e. is_sep c" using assms CPLParseNameValue_eq by (metis option.distinct(1))
    then obtain c r where "dropWhile (\<lambda>c. \<not> is_sep c) e = c # r"
      by (metis dropWhile_eq_Nil_conv neq_Nil_conv)
    moreover from this have "is_sep c" using hd_dropWhile [of "\<lambda>c. \<not> is_sep c" e] by auto
    moreover have "e = takeWhile (\<lambda>c. \<not> is_sep c) e @ dropWhile (\<lambda>c. \<not> is_sep c) e" by simp
    ultimately show thesis
      using that assms CPLParseNameValue_eq [OF assms(1)] s set_takeWhileD
      by (smt (verit, best) Pair_inject list.sel(3) option.sel)
  qed
  have c: "cstr k" "cstr r" using assms(1) e(1) by auto
  then show "valid_name k" using e by (simp add: valid_name_def)
  show "cstr v" using c(2) e(4) set_dropWhileD unfolding cstr_def by metis
  show "entry_match e m \<longleftrightarrow> same_name m k"
    using entry_match_key [of k c r m] assms e same_name_sym by blast
  show "v = dropWhile blank (drop (length m + 1) e)" if "same_name m k"
    using same_name_length [OF that] e by simp
qed

lemma parse_no_match:
  assumes "cstr e" "valid_name m" "CPLParseNameValue e = None"
  shows "\<not> entry_match e m"
proof
  assume "entry_match e m"
  then obtain k c r where "e = k @ c # r" "is_sep c"
    using assms entry_match_split [of e m] unfolding valid_name_def by blast
  then show False using assms(3) CPLParseNameValue_eq [OF assms(1)] by (auto split: if_splits)
qed

lemma merge_fold:
  "fold (\<lambda>s l. case CPLParseNameValue s of None \<Rightarrow> CSLSetNameValue l None None
      | Some (k, v) \<Rightarrow> CSLSetNameValue l (Some k) (Some v)) ov l
   = fold (\<lambda>(n, v) l. CSLSetNameValue l (Some n) (Some v)) (List.map_filter CPLParseNameValue ov) l"
proof (induction ov arbitrary: l)
  case (Cons e ov)
  have "CSLSetNameValue l None None = l" by (simp add: CSLSetNameValue_def)
  then show ?case using Cons by (simp add: map_filter_simps split: option.splits)
qed (simp add: map_filter_simps)

lemma merge_find:
  assumes "\<forall>e \<in> set ov. cstr e" "valid_name m"
  shows "(case List.find (\<lambda>(n, v). same_name m n) (rev (List.map_filter CPLParseNameValue ov)) of
      Some (n, v) \<Rightarrow> Some v | None \<Rightarrow> d)
    = (case List.find (\<lambda>e. entry_match e m) (rev ov) of
      Some e \<Rightarrow> Some (dropWhile blank (drop (length m + 1) e)) | None \<Rightarrow> d)"
  using assms(1)
proof (induction ov rule: rev_induct)
  case Nil
  then show ?case by (simp add: map_filter_simps)
next
  case (snoc e ov)
  have app: "List.map_filter f (xs @ ys) = List.map_filter f xs @ List.map_filter f ys" for f :: "string \<Rightarrow> (string \<times> string) option" and xs ys
    by (simp add: List.map_filter_def)
  show ?case
  proof (cases "CPLParseNameValue e")
    case None
    then show ?thesis using snoc parse_no_match [OF _ assms(2) None] by (simp add: app map_filter_simps)
  next
    case (Some kv)
    obtain k v where kv: "kv = (k, v)" by (cases kv)
    note pm = parse_match [OF _ assms(2) Some [unfolded kv]]
    show ?thesis
    proof (cases "same_name m k")
      case True
      then show ?thesis using snoc pm Some kv by (simp add: app map_filter_simps)
    next
      case False
      then show ?thesis using snoc pm Some kv by (simp add: app map_filter_simps)
    qed
  qed
qed

text \<open>In the merge of two lists a name has the value that the last entry for it in the overriding list
  gives it, without the blanks at its beginning, and otherwise the value it had.\<close>

theorem csl_merge_overrides:
  assumes "csl_ok (Some xs)" and "csl_ok (Some ov)" and "valid_name m"
  shows "CSLFetchNameValue (CSLMerge (Some xs) (Some ov)) (Some m)
    = (case List.find (\<lambda>e. entry_match e m) (rev ov) of
         Some e \<Rightarrow> Some (dropWhile blank (drop (length m + 1) e))
       | None \<Rightarrow> CSLFetchNameValue (Some xs) (Some m))"
proof -
  have c: "\<forall>e \<in> set ov. cstr e" using assms(2) by (simp add: csl_ok_def)
  have "\<forall>(n, v) \<in> set (List.map_filter CPLParseNameValue ov). valid_name n \<and> cstr v"
    using c parse_match(1,2) [OF _ assms(3)] by (fastforce simp: List.map_filter_def)
  from csl.fetch_set_all [OF assms(1) this assms(3)] show ?thesis
    using merge_find [OF c assms(3)] by (simp add: CSLMerge_def merge_fold)
qed

theorem csl_merge_overrides_witness:
  "CSLFetchNameValue (CSLMerge (Some [''A=1'', ''B=2'']) (Some [''b: x'', ''b:  3'', ''plain''])) (Some ''B'') = Some ''3''"
proof -
  have c: "csl_ok (Some [''A=1'', ''B=2''])" "csl_ok (Some [''b: x'', ''b:  3'', ''plain''])" "valid_name ''B''"
    by code_simp+
  have f: "List.find (\<lambda>e. entry_match e ''B'') (rev [''b: x'', ''b:  3'', ''plain'']) = Some ''b:  3''"
    "dropWhile blank (drop (length ''B'' + 1) ''b:  3'') = ''3''" by code_simp+
  show ?thesis unfolding csl_merge_overrides [OF c] f by (simp only: option.case f)
qed

section \<open>What the tokenizer computes\<close>

text \<open>The buffer of a token of less than \<open>2\<^sup>3\<^sup>0 - 8\<close> characters grows without overflow.\<close>

lemma grow_token: "length tok < 2 ^ 30 - 8 \<Longrightarrow> int cap - 3 \<le> int (length tok) \<Longrightarrow> int32 (int cap * 2 + 10) = int (cap * 2 + 10)"
  by (subst int32_id) simp_all

lemma store_char_grow:
  assumes "length tok < 2 ^ 30 - 8" "cap \<ge> 10"
  shows "store_char fl q st tok cap c =
     (if \<not> q \<and> has_flag fl CSLT_STRIPLEADSPACES \<and> st \<and> c_isspace c then Some (st, tok, cap)
      else (let cap' = (if length tok + 3 \<ge> cap then cap * 2 + 10 else cap)
            in map_option (\<lambda>tok'. (False, tok', cap')) (put_tok tok cap' c)))"
proof -
  have n: "(if int (length tok) \<ge> int cap - 3 then int32 (int cap * 2 + 10) else int cap)
      = int (if length tok + 3 \<ge> cap then cap * 2 + 10 else cap)"
    using grow_token [OF assms(1), of cap] by auto
  show ?thesis unfolding store_char_def n Let_def using assms(2) by simp
qed

lemma store_char_room:
  "cap \<ge> 10 \<Longrightarrow> length tok + 2 \<le> cap \<Longrightarrow> length tok < 2 ^ 30 - 8 \<Longrightarrow>
     \<exists>st' tok' cap'. store_char fl q st tok cap c = Some (st', tok', cap')
     \<and> 10 \<le> cap' \<and> (length tok + 3 \<le> cap \<or> q \<longrightarrow> length tok' + 3 \<le> cap') \<and> length tok' \<le> length tok + 1"
  by (auto simp: store_char_grow put_tok_def Let_def)

lemma token_scan_room:
  assumes "\<not> has_flag fl CSLT_PRESERVEQUOTES"
  shows "10 \<le> cap \<Longrightarrow> length tok + 3 \<le> cap \<Longrightarrow> length s \<le> n \<Longrightarrow> length tok + length s < 2 ^ 30 - 8 \<Longrightarrow>
    \<exists>rest q' tok' cap'. token_scan fl delims s q st tok cap = Some (rest, q', tok', cap')
      \<and> 10 \<le> cap' \<and> length tok' + 3 \<le> cap'"
proof (induction n arbitrary: s q st tok cap)
  case 0
  then show ?case by auto
next
  case (Suc n)
  show ?case
  proof (cases s)
    case (Cons c cs)
    have len: "length cs \<le> n" "length (tl cs) \<le> n" using Cons Suc.prems(3) by auto
    consider "\<not> q" "strchr_found delims c"
      | "q \<or> \<not> strchr_found delims c" "has_flag fl CSLT_HONOURSTRINGS" "c = quote"
      | "\<not> (has_flag fl CSLT_HONOURSTRINGS \<and> c = quote)" "q" "c = backslash"
          "char_at cs 0 = quote \<or> char_at cs 0 = backslash"
      | "q \<or> \<not> strchr_found delims c" "\<not> (has_flag fl CSLT_HONOURSTRINGS \<and> c = quote)"
          "\<not> (q \<and> c = backslash \<and> (char_at cs 0 = quote \<or> char_at cs 0 = backslash))"
      by blast
    then show ?thesis
    proof cases
      case 1
      then show ?thesis using Cons Suc.prems by auto
    next
      case 2
      moreover have "length tok + length cs < 2 ^ 30 - 8" using Suc.prems(4) Cons by simp
      ultimately show ?thesis using Cons Suc.IH [OF Suc.prems(1,2) len(1)] assms by auto
    next
      case 3
      define tok1 where "tok1 = (if has_flag fl CSLT_PRESERVEESCAPES then tok @ [c] else tok)"
      have ne: "cs \<noteq> []" using 3(4) by (auto simp: char_at_def)
      then have len2: "length tok1 + length (tl cs) + 1 < 2 ^ 30 - 8" using Suc.prems(4) Cons
        by (cases cs) (simp_all add: tok1_def)
      have "length tok1 + 2 \<le> cap" "length tok1 < 2 ^ 30 - 8" using Suc.prems(2) len2 by (simp_all add: tok1_def)
      then obtain st' tok' cap' where s1: "store_char fl q st tok1 cap (char_at cs 0) = Some (st', tok', cap')"
        "10 \<le> cap'" "length tok' + 3 \<le> cap'" "length tok' \<le> length tok1 + 1"
        using store_char_room [OF Suc.prems(1)] 3(2) by blast
      have "(if has_flag fl CSLT_PRESERVEESCAPES then put_tok tok cap c else Some tok) = Some tok1"
        using Suc.prems by (simp add: tok1_def put_tok_def)
      then have "token_scan fl delims s q st tok cap = token_scan fl delims (tl cs) q st' tok' cap'"
        using 3 s1(1) Cons by auto
      moreover have "length tok' + length (tl cs) < 2 ^ 30 - 8" using s1(4) len2 by linarith
      ultimately show ?thesis using Suc.IH [OF s1(2,3) len(2)] by simp
    next
      case 4
      obtain st' tok' cap' where s1: "store_char fl q st tok cap c = Some (st', tok', cap')"
        "10 \<le> cap'" "length tok' + 3 \<le> cap'" "length tok' \<le> length tok + 1"
        using store_char_room [OF Suc.prems(1), of tok fl q st c] Suc.prems(2,4) by auto
      have "length tok' + length cs < 2 ^ 30 - 8" using s1(4) Suc.prems(4) Cons by simp
      moreover
      have "token_scan fl delims s q st tok cap = token_scan fl delims cs q st' tok' cap'"
        using 4 Cons s1(1) by auto
      ultimately show ?thesis using Suc.IH [OF s1(2,3) len(1)] by simp
    qed
  qed (use Suc.prems in simp)
qed

lemma length_strip: "length (rev (dropWhile P (rev xs))) \<le> length xs"
  using length_dropWhile_le [of P "rev xs"] by simp

lemma token_loop_room:
  assumes "\<not> has_flag fl CSLT_PRESERVEQUOTES"
  shows "10 \<le> cap \<Longrightarrow> length s \<le> n \<Longrightarrow> length s < 2 ^ 30 - 8 \<Longrightarrow> \<exists>toks'. token_loop fl delims s toks cap = Some toks'"
proof (induction n arbitrary: s toks cap)
  case 0
  then show ?case by (subst token_loop.simps) simp
next
  case (Suc n)
  show ?case
  proof (cases s)
    case (Cons c cs)
    obtain rest q' tok' cap' where r: "token_scan fl delims s False True [] cap = Some (rest, q', tok', cap')"
      "10 \<le> cap'" "length tok' + 3 \<le> cap'"
      using token_scan_room [OF assms Suc.prems(1) _ order_refl, of "[]" s delims False True] Suc.prems(1,3) by auto
    have "length rest \<le> n" "length rest < 2 ^ 30 - 8"
      using token_scan_rest [OF r(1) [unfolded Cons]] Suc.prems(2,3) Cons by simp_all
    moreover have "length (rev (dropWhile c_isspace (rev tok'))) < cap'"
      using length_strip [of c_isspace tok'] r(3) by linarith
    ultimately show ?thesis using Suc.IH [OF r(2)] r Cons by (subst token_loop.simps) (simp add: Let_def)
  qed (subst token_loop.simps, simp)
qed

text \<open>C31: Without \<^verbatim>\<open>CSLT_PRESERVEQUOTES\<close> the tokenizer never writes outside its token buffer and returns, whatever the
  delimiters and the other flags are, for every string of less than \<open>2\<^sup>3\<^sup>0 - 8\<close> characters.\<close>

theorem csl_tokenize_in_bounds:
  assumes "\<not> has_flag fl CSLT_PRESERVEQUOTES" and "\<forall>t \<in> set_option s. length t < 2 ^ 30 - 8"
  shows "\<exists>toks. CSLTokenizeString2 s delims fl = Some (Some toks)"
proof (cases s)
  case (Some t)
  then show ?thesis
    using token_loop_room [OF assms(1), of 10 t "length t" delims "[]"] assms(2) by (auto simp: CSLTokenizeString2_def)
qed (simp add: CSLTokenizeString2_def)

theorem csl_tokenize_in_bounds_witness:
  "\<not> has_flag 59 CSLT_PRESERVEQUOTES \<and> (\<exists>toks. CSLTokenizeString2 (Some ''a , b'') '' '' 59 = Some (Some toks))"
proof -
  have "\<not> has_flag 59 CSLT_PRESERVEQUOTES" by code_simp
  then show ?thesis using csl_tokenize_in_bounds [of 59 "Some ''a , b''" "'' ''"] by simp
qed

lemma token_scan_quotes:
  assumes "has_flag fl CSLT_HONOURSTRINGS" "has_flag fl CSLT_PRESERVEQUOTES" "\<not> strchr_found delims quote"
  shows "length tok \<le> cap \<Longrightarrow> token_scan fl delims (replicate n quote) q st tok cap =
    (if length tok + n \<le> cap then Some ([], if even n then q else \<not> q, tok @ replicate n quote, cap) else None)"
proof (induction n arbitrary: q tok)
  case (Suc n)
  show ?case
  proof (cases "length tok < cap")
    case True
    then show ?thesis
      using Suc.IH [of "tok @ [quote]" "\<not> q"] assms by (simp add: put_tok_def)
  next
    case False
    then show ?thesis using assms by (simp add: put_tok_def)
  qed
qed simp

text \<open>C32: With \<^verbatim>\<open>CSLT_PRESERVEQUOTES\<close> the quotes are stored without extending the token buffer: ten quotes
  in a row already write beyond its end.\<close>

theorem csl_tokenize_quotes_overflow:
  assumes "has_flag fl CSLT_HONOURSTRINGS" and "has_flag fl CSLT_PRESERVEQUOTES"
    and "\<not> strchr_found delims quote" and "\<not> has_flag fl CSLT_STRIPENDSPACES" and "10 \<le> n"
  shows "CSLTokenizeString2 (Some (replicate n quote)) delims fl = None"
proof -
  have "replicate n quote \<noteq> []" using assms(5) by simp
  then have "token_loop fl delims (replicate n quote) [] 10 = None"
    using token_scan_quotes [OF assms(1,2,3), of "[]" 10 n False True] assms(4,5)
    by (subst token_loop.simps) (auto simp: Let_def)
  then show ?thesis by (simp add: CSLTokenizeString2_def)
qed

theorem csl_tokenize_quotes_overflow_witness:
  "CSLTokenizeString2 (Some (replicate 10 quote)) '' '' 5 = None"
proof -
  have "has_flag 5 CSLT_HONOURSTRINGS" "has_flag 5 CSLT_PRESERVEQUOTES" "\<not> strchr_found '' '' quote"
    "\<not> has_flag 5 CSLT_STRIPENDSPACES" by code_simp+
  then show ?thesis using csl_tokenize_quotes_overflow [of 5 "'' ''" 10] by simp
qed

text \<open>The fields of a string between delimiters.\<close>

fun split_on :: "string \<Rightarrow> string \<Rightarrow> string list" where
  "split_on ds [] = [[]]"
| "split_on ds (c # cs) =
     (if c \<in> set ds then [] # split_on ds cs
      else (case split_on ds cs of [] \<Rightarrow> [[c]] | f # fs \<Rightarrow> (c # f) # fs))"

lemma split_on_ne: "split_on ds s \<noteq> []"
  by (induction s) (auto split: list.splits)

lemma no_flags:
  "\<not> has_flag 0 b" "\<not> has_flag 2 CSLT_HONOURSTRINGS" "\<not> has_flag 2 CSLT_STRIPLEADSPACES"
  "\<not> has_flag 2 CSLT_STRIPENDSPACES" "has_flag 2 CSLT_ALLOWEMPTYTOKENS" "\<not> has_flag 2 CSLT_PRESERVEQUOTES"
  by (simp_all add: has_flag_def CSLT_HONOURSTRINGS_def CSLT_STRIPLEADSPACES_def CSLT_STRIPENDSPACES_def
      CSLT_ALLOWEMPTYTOKENS_def CSLT_PRESERVEQUOTES_def)

text \<open>Scanning a field: the field and the rest after its delimiter.\<close>

lemma token_scan_plain:
  assumes "\<not> has_flag fl CSLT_HONOURSTRINGS" "\<not> has_flag fl CSLT_STRIPLEADSPACES"
  shows "cstr s \<Longrightarrow> 10 \<le> cap \<Longrightarrow> length tok + 3 \<le> cap \<Longrightarrow> length tok + length s < 2 ^ 30 - 8 \<Longrightarrow>
    \<exists>cap'. token_scan fl ds s False st tok cap =
      Some (tl (dropWhile (\<lambda>c. c \<notin> set ds) s), False, tok @ takeWhile (\<lambda>c. c \<notin> set ds) s, cap')
      \<and> 10 \<le> cap' \<and> length (tok @ takeWhile (\<lambda>c. c \<notin> set ds) s) + 3 \<le> cap'"
proof (induction s arbitrary: st tok cap)
  case (Cons c cs)
  show ?case
  proof (cases "c \<in> set ds")
    case True
    then show ?thesis using Cons.prems by (auto simp: strchr_found_def)
  next
    case False
    then have nf: "\<not> strchr_found ds c" using Cons.prems by (auto simp: strchr_found_def)
    define cap1 where "cap1 = (if length tok + 3 \<ge> cap then cap * 2 + 10 else cap)"
    have c1: "10 \<le> cap1" "length (tok @ [c]) + 3 \<le> cap1" using Cons.prems by (auto simp: cap1_def)
    have "store_char fl False st tok cap c = Some (False, tok @ [c], cap1)"
      using assms c1 Cons.prems by (simp add: store_char_grow put_tok_def Let_def cap1_def)
    then have "token_scan fl ds (c # cs) False st tok cap = token_scan fl ds cs False False (tok @ [c]) cap1"
      using assms nf by simp
    then show ?thesis using Cons.IH [OF _ c1, of False] Cons.prems False by simp
  qed
qed auto

lemma split_on_scan:
  "split_on ds s = (if \<exists>c \<in> set s. c \<in> set ds
     then takeWhile (\<lambda>c. c \<notin> set ds) s # split_on ds (tl (dropWhile (\<lambda>c. c \<notin> set ds) s))
     else [s])"
  by (induction s) (auto split: list.splits)

lemma split_on_single: "split_on ds s = [f] \<Longrightarrow> f = s"
  using split_on_scan [of ds s] split_on_ne by (auto split: if_splits)

lemma split_on_last: "s \<noteq> [] \<Longrightarrow> last s \<in> set ds \<Longrightarrow> last (split_on ds s) = []"
proof (induction s)
  case (Cons c cs)
  show ?case
  proof (cases "cs = []")
    case False
    then have IH: "last (split_on ds cs) = []" using Cons by simp
    obtain f fs where f: "split_on ds cs = f # fs" using split_on_ne by (cases "split_on ds cs") auto
    have "fs \<noteq> []" using split_on_single [of ds cs f] f IH False by auto
    then show ?thesis using f IH by simp
  qed (use Cons in simp)
qed simp

lemma cstr_tl_dropWhile: "cstr s \<Longrightarrow> cstr (tl (dropWhile P s))"
  unfolding cstr_def by (metis list.set_sel(2) set_dropWhileD tl_Nil)

text \<open>The tokens the loop adds: the fields, except a last empty one.\<close>

lemma token_loop_plain:
  assumes "\<not> has_flag fl CSLT_HONOURSTRINGS" "\<not> has_flag fl CSLT_STRIPLEADSPACES" "\<not> has_flag fl CSLT_STRIPENDSPACES"
    and keep: "keep = (\<lambda>t. t \<noteq> [] \<or> has_flag fl CSLT_ALLOWEMPTYTOKENS)"
  shows "cstr s \<Longrightarrow> 10 \<le> cap \<Longrightarrow> length s \<le> n \<Longrightarrow> length s < 2 ^ 30 - 8 \<Longrightarrow> token_loop fl ds s toks cap =
    Some (toks @ filter keep (if s = [] \<or> last s \<in> set ds then butlast (split_on ds s) else split_on ds s))"
proof (induction n arbitrary: s toks cap)
  case 0
  then show ?case by (subst token_loop.simps) simp
next
  case (Suc n)
  show ?case
  proof (cases "s = []")
    case True
    then show ?thesis by (subst token_loop.simps) simp
  next
    case False
    let ?t = "takeWhile (\<lambda>c. c \<notin> set ds) s" and ?r = "tl (dropWhile (\<lambda>c. c \<notin> set ds) s)"
    obtain cap' where scan: "token_scan fl ds s False True [] cap = Some (?r, False, ?t, cap')" "10 \<le> cap'"
      "length ?t + 3 \<le> cap'"
      using token_scan_plain [OF assms(1,2) Suc.prems(1,2), of "[]" ds True] Suc.prems(2,4) by auto
    obtain c cs where s: "s = c # cs" using False by (cases s) auto
    have "length ?r \<le> length cs" using scan(1) token_scan_rest unfolding s by blast
    then have r: "cstr ?r" "length ?r \<le> n" "length ?r < 2 ^ 30 - 8"
      using Suc.prems cstr_tl_dropWhile s by simp_all
    have step: "token_loop fl ds s toks cap = token_loop fl ds ?r (if keep ?t then toks @ [?t] else toks) cap'"
      using scan False assms(3) keep by (subst token_loop.simps) (simp add: Let_def)
    show ?thesis
    proof (cases "\<exists>c \<in> set s. c \<in> set ds")
      case True
      then obtain d u where d: "dropWhile (\<lambda>c. c \<notin> set ds) s = d # u" by (cases "dropWhile (\<lambda>c. c \<notin> set ds) s") auto
      then have "d \<in> set ds" using hd_dropWhile [of "\<lambda>c. c \<notin> set ds" s] by auto
      moreover have "s = ?t @ d # u" using d takeWhile_dropWhile_id [of "\<lambda>c. c \<notin> set ds" s] by simp
      then have "last s = (if u = [] then d else last u)" by (metis last_ConsL last_ConsR last_appendR list.distinct(1))
      moreover have "split_on ds s = ?t # split_on ds u" using True d by (subst split_on_scan) simp
      ultimately show ?thesis
        using Suc.IH [OF r(1) scan(2) r(2,3)] False d split_on_ne by (auto simp: step)
    next
      case None: False
      then have tw: "?t = s" "dropWhile (\<lambda>c. c \<notin> set ds) s = []" and last: "last s \<notin> set ds"
        using False by (auto simp: takeWhile_eq_all_conv dropWhile_eq_Nil_conv)
      moreover have "split_on ds s = [s]" using None by (subst split_on_scan) simp
      moreover have "token_loop fl ds [] t cap' = Some t" for t by (subst token_loop.simps) simp
      then have "token_loop fl ds s toks cap = Some (if keep s then toks @ [s] else toks)"
        by (simp only: step tw list.sel)
      ultimately show ?thesis using False by simp
    qed
  qed
qed

text \<open>C33: With only \<^verbatim>\<open>CSLT_ALLOWEMPTYTOKENS\<close> the tokens of a string are its fields between delimiters, the empty
  ones and a last empty one included; with no flag they are the fields that are not empty. The string has less
  than \<open>2\<^sup>3\<^sup>0 - 8\<close> characters.\<close>

theorem csl_tokenize_splits:
  assumes "cstr s" and "s \<noteq> []" and "length s < 2 ^ 30 - 8"
  shows "CSLTokenizeString2 (Some s) ds CSLT_ALLOWEMPTYTOKENS = Some (Some (split_on ds s))
    \<and> CSLTokenizeString2 (Some s) ds 0 = Some (Some (filter (\<lambda>t. t \<noteq> []) (split_on ds s)))"
proof -
  have fl: "CSLT_ALLOWEMPTYTOKENS = 2" by (simp add: CSLT_ALLOWEMPTYTOKENS_def)
  have lst: "split_on ds s = butlast (split_on ds s) @ [[]]" if "last s \<in> set ds"
    using split_on_last [OF assms(2) that] split_on_ne [of ds s] by (metis append_butlast_last_id)
  have nul: "last s \<noteq> NUL" using assms by (metis cstr_def last_in_set)
  have fl2: "has_flag CSLT_ALLOWEMPTYTOKENS CSLT_ALLOWEMPTYTOKENS"
    by (simp add: has_flag_def CSLT_ALLOWEMPTYTOKENS_def)
  have two: "token_loop CSLT_ALLOWEMPTYTOKENS ds s [] 10 = Some (if last s \<in> set ds then butlast (split_on ds s) else split_on ds s)"
    using token_loop_plain [OF no_flags(2,3,4) refl assms(1) order_refl order_refl assms(3), of ds "[]"] no_flags(5) assms(2)
    unfolding fl by simp
  have zero: "token_loop 0 ds s [] 10 = Some (filter (\<lambda>t. t \<noteq> []) (split_on ds s))"
  proof -
    have "token_loop 0 ds s [] 10
        = Some (filter (\<lambda>t. t \<noteq> []) (if last s \<in> set ds then butlast (split_on ds s) else split_on ds s))"
      using token_loop_plain [OF no_flags(1,1,1) refl assms(1) order_refl order_refl assms(3), of ds "[]"] no_flags(1) assms(2)
      by simp
    moreover have "filter (\<lambda>t. t \<noteq> []) (butlast (split_on ds s) @ [[]]) = filter (\<lambda>t. t \<noteq> []) (butlast (split_on ds s))"
      by simp
    ultimately show ?thesis using lst by (cases "last s \<in> set ds") simp_all
  qed
  have "butlast (split_on ds s) \<noteq> []" if "last s \<in> set ds"
    using that lst assms(2) split_on_scan [of ds s] split_on_ne by (auto split: if_splits)
  then show ?thesis
    using two zero lst nul by (auto simp: CSLTokenizeString2_def fl2 no_flags(1) strchr_found_def split: if_splits)
qed

theorem csl_tokenize_splits_witness:
  "CSLTokenizeString2 (Some ''a,,b,'') '','' CSLT_ALLOWEMPTYTOKENS = Some (Some [''a'', '''', ''b'', ''''])
   \<and> CSLTokenizeString2 (Some ''a,,b,'') '','' 0 = Some (Some [''a'', ''b''])"
proof -
  have "split_on '','' ''a,,b,'' = [''a'', '''', ''b'', '''']" "cstr ''a,,b,''" by code_simp+
  then show ?thesis using csl_tokenize_splits [of "''a,,b,''" "'',''"] by simp
qed

text \<open>A token between quotes, its quotes and backslashes escaped, and tokens joined by a delimiter.\<close>

definition quote_token :: "string \<Rightarrow> string" where
  "quote_token t = [quote] @ concat (map (\<lambda>c. if c = quote \<or> c = backslash then [backslash, c] else [c]) t) @ [quote]"

fun join_tokens :: "char \<Rightarrow> string list \<Rightarrow> string" where
  "join_tokens d [] = []"
| "join_tokens d [t] = quote_token t"
| "join_tokens d (t # ts) = quote_token t @ [d] @ join_tokens d ts"

lemma honour_flags:
  "has_flag 3 CSLT_HONOURSTRINGS" "\<not> has_flag 3 CSLT_STRIPLEADSPACES" "\<not> has_flag 3 CSLT_STRIPENDSPACES"
  "has_flag 3 CSLT_ALLOWEMPTYTOKENS" "\<not> has_flag 3 CSLT_PRESERVEQUOTES" "\<not> has_flag 3 CSLT_PRESERVEESCAPES"
  by (simp_all add: has_flag_def CSLT_HONOURSTRINGS_def CSLT_STRIPLEADSPACES_def CSLT_STRIPENDSPACES_def
      CSLT_ALLOWEMPTYTOKENS_def CSLT_PRESERVEQUOTES_def CSLT_PRESERVEESCAPES_def)

lemma store_in_string:
  "10 \<le> cap \<Longrightarrow> length tok + 3 \<le> cap \<Longrightarrow> length tok < 2 ^ 30 - 8 \<Longrightarrow>
     \<exists>cap'. store_char 3 True st tok cap c = Some (False, tok @ [c], cap') \<and> 10 \<le> cap' \<and> length (tok @ [c]) + 3 \<le> cap'"
  by (auto simp: store_char_grow put_tok_def Let_def)

lemma token_scan_in_string:
  "10 \<le> cap \<Longrightarrow> length tok + 3 \<le> cap \<Longrightarrow> length tok + length t < 2 ^ 30 - 8 \<Longrightarrow> \<exists>st' cap'.
     token_scan 3 ds (concat (map (\<lambda>c. if c = quote \<or> c = backslash then [backslash, c] else [c]) t) @ quote # s) True st tok cap
       = token_scan 3 ds s False st' (tok @ t) cap' \<and> 10 \<le> cap' \<and> length (tok @ t) + 3 \<le> cap'"
proof (induction t arbitrary: st tok cap)
  case Nil
  then show ?case by (auto simp: honour_flags)
next
  case (Cons c t)
  obtain cap1 where c1: "store_char 3 True st tok cap c = Some (False, tok @ [c], cap1)" "10 \<le> cap1"
    "length (tok @ [c]) + 3 \<le> cap1"
    using store_in_string [OF Cons.prems(1,2), of st c] Cons.prems(3) by auto
  have "length (tok @ [c]) + length t < 2 ^ 30 - 8" using Cons.prems(3) by simp
  then show ?case using Cons.IH [OF c1(2,3), of False] c1(1) by (auto simp: honour_flags)
qed

lemma token_scan_quoted:
  assumes "10 \<le> cap" "\<not> strchr_found ds quote" "length t < 2 ^ 30 - 8"
  shows "\<exists>cap'. token_scan 3 ds (quote_token t) False True [] cap = Some ([], False, t, cap') \<and> 10 \<le> cap' \<and> length t + 3 \<le> cap'"
    and "strchr_found ds d \<Longrightarrow> \<exists>cap'. token_scan 3 ds (quote_token t @ d # s) False True [] cap = Some (s, False, t, cap')
      \<and> 10 \<le> cap' \<and> length t + 3 \<le> cap'"
  using token_scan_in_string [of cap "[]" t ds "[]" True] token_scan_in_string [of cap "[]" t ds "d # s" True] assms
  by (auto simp: quote_token_def honour_flags)

lemma join_tokens_last: "ts \<noteq> [] \<Longrightarrow> join_tokens d ts \<noteq> [] \<and> last (join_tokens d ts) = quote"
  by (induction d ts rule: join_tokens.induct) (auto simp: quote_token_def)

lemma token_loop_quoted:
  assumes "\<not> strchr_found ds quote"
  shows "strchr_found ds d \<Longrightarrow> ts \<noteq> [] \<Longrightarrow> 10 \<le> cap \<Longrightarrow> \<forall>t \<in> set ts. length t < 2 ^ 30 - 8 \<Longrightarrow>
    token_loop 3 ds (join_tokens d ts) toks cap = Some (toks @ ts)"
proof (induction d ts arbitrary: toks cap rule: join_tokens.induct)
  case (2 d t)
  obtain cap' where c: "token_scan 3 ds (quote_token t) False True [] cap = Some ([], False, t, cap')" "length t + 3 \<le> cap'"
    using token_scan_quoted(1) [OF 2(3) assms, of t] 2(4) by auto
  moreover have "quote_token t \<noteq> []" by (simp add: quote_token_def)
  moreover have "token_loop 3 ds [] u cap' = Some u" for u by (subst token_loop.simps) simp
  ultimately show ?case by (subst token_loop.simps) (simp add: honour_flags Let_def)
next
  case (3 d t t' ts)
  obtain cap' where c: "token_scan 3 ds (quote_token t @ d # join_tokens d (t' # ts)) False True [] cap
      = Some (join_tokens d (t' # ts), False, t, cap')" "10 \<le> cap'" "length t + 3 \<le> cap'"
    using token_scan_quoted(2) [OF 3(4) assms _ 3(2), of t] 3(5) by auto
  moreover have "quote_token t \<noteq> []" by (simp add: quote_token_def)
  ultimately have "token_loop 3 ds (join_tokens d (t # t' # ts)) toks cap
      = token_loop 3 ds (join_tokens d (t' # ts)) (toks @ [t]) cap'"
    by (subst token_loop.simps) (simp add: honour_flags Let_def del: join_tokens.simps(3) add: join_tokens.simps(3) [of d t])
  then show ?case using 3(1) [OF 3(2) _ c(2)] 3(5) by simp
qed simp

text \<open>C34: Tokens written between quotes, with quotes and backslashes escaped and any delimiter between them, are
  read back unchanged when constant strings are honoured and empty tokens allowed: empty tokens, and
  tokens with delimiters, quotes and backslashes, included. Every token has less than \<open>2\<^sup>3\<^sup>0 - 8\<close> characters.\<close>

theorem csl_tokenize_quoted_roundtrip:
  assumes "d \<in> set ds" and "quote \<notin> set ds" and "ts \<noteq> []" and "\<forall>t \<in> set ts. length t < 2 ^ 30 - 8"
  shows "CSLTokenizeStringComplex (Some (join_tokens d ts)) ds True True = Some (Some ts)"
proof -
  have d: "strchr_found ds d" "\<not> strchr_found ds quote" using assms by (auto simp: strchr_found_def)
  have "CSLTokenizeStringComplex (Some (join_tokens d ts)) ds True True
      = CSLTokenizeString2 (Some (join_tokens d ts)) ds 3"
    by (simp add: CSLTokenizeStringComplex_def CSLT_HONOURSTRINGS_def CSLT_ALLOWEMPTYTOKENS_def)
  then show ?thesis
    using token_loop_quoted [OF d(2,1) assms(3) order_refl assms(4), of "[]"] join_tokens_last [OF assms(3), of d] d
    by (simp add: CSLTokenizeString2_def)
qed

theorem csl_tokenize_quoted_roundtrip_witness:
  "CSLTokenizeStringComplex (Some (join_tokens CHR '','' [''a,b'', [], [quote, backslash]])) '','' True True
     = Some (Some [''a,b'', [], [quote, backslash]])"
  using csl_tokenize_quoted_roundtrip [of "CHR '',''" "'',''" "[''a,b'', [], [quote, backslash]]"] by simp

end
