(* ===== verification/Cpl_String_List.thy ===== *)
theory Cpl_String_List
  imports Csl_Strings "HOL-Library.List_Lexorder" "HOL-Library.Multiset"
begin

text \<open>
  \<^verbatim>\<open>port/cplstringlist.cpp\<close>: the class \<^verbatim>\<open>CPLStringList\<close> around a \<^verbatim>\<open>char**\<close> list, which it may own or
  only refer to. The arrays live in a heap, so that a list another owner still uses can be told from the
  class's own copy; an array is its cells with the terminating NULL among them. A read or write outside
  an array, through NULL or to a freed array, and a NULL given to \<^verbatim>\<open>strlen\<close>, is the value \<open>None\<close>. The
  strings themselves are values, their allocation is left out; the \<^verbatim>\<open>CPLAssert\<close>s that a list is sorted follow a test
  that it is. The order
  that \<^verbatim>\<open>qsort\<close> gives to equal lines is not known: it is the parameter \<open>qsort\<close>. The size of a growing array is computed
  in an \<^verbatim>\<open>int\<close> that may overflow; the numbers of strings themselves are taken to be below \<open>2\<^sup>3\<^sup>1 - 2\<close>.
\<close>

section \<open>Arrays in memory\<close>

record array_heap =
  arrays :: "nat \<Rightarrow> string option list option"
  next_array :: nat

definition new_array :: "array_heap \<Rightarrow> string option list \<Rightarrow> array_heap \<times> nat" where
  "new_array h a = (h\<lparr>arrays := (arrays h)(next_array h \<mapsto> a), next_array := next_array h + 1\<rparr>, next_array h)"

definition free_array :: "array_heap \<Rightarrow> nat \<Rightarrow> array_heap option" where
  "free_array h p =
     (if arrays h p = None then None else Some (h\<lparr>arrays := (arrays h)(p := None)\<rparr>))"

definition load :: "array_heap \<Rightarrow> nat option \<Rightarrow> int \<Rightarrow> string option option" where
  "load h p i = do { q \<leftarrow> p; a \<leftarrow> arrays h q; rd a i }"

definition store :: "array_heap \<Rightarrow> nat option \<Rightarrow> int \<Rightarrow> string option \<Rightarrow> array_heap option" where
  "store h p i v = do { q \<leftarrow> p; a \<leftarrow> arrays h q; a \<leftarrow> wr a i v; Some (h\<lparr>arrays := (arrays h)(q \<mapsto> a)\<rparr>) }"

text \<open>The list an array holds, as the CSL functions read it: \<open>None\<close> when the terminating NULL is missing.\<close>

definition read_list :: "array_heap \<Rightarrow> nat option \<Rightarrow> csl option" where
  "read_list h p =
     (case p of None \<Rightarrow> Some None
      | Some q \<Rightarrow>
          (case arrays h q of None \<Rightarrow> None
           | Some a \<Rightarrow> if None \<in> set a then Some (Some (list_of a)) else None))"

text \<open>\<^verbatim>\<open>CPLRealloc\<close>: the added cells hold anything but a terminator.\<close>

definition uninitialised :: "string option" where
  "uninitialised = Some ''?''"

definition realloc_array :: "array_heap \<Rightarrow> nat \<Rightarrow> nat \<Rightarrow> (array_heap \<times> nat) option" where
  "realloc_array h p n =
     do {
       a \<leftarrow> arrays h p;
       h \<leftarrow> free_array h p;
       Some (new_array h (take n a @ replicate (n - length a) uninitialised))
     }"

section \<open>The class\<close>

record CPLStringList =
  papszList :: "nat option"
  nCount :: int
  nAllocation :: int
  bOwnList :: bool
  bIsSorted :: bool

definition Initialize :: CPLStringList where
  "Initialize = \<lparr>papszList = None, nCount = 0, nAllocation = 0, bOwnList = False, bIsSorted = False\<rparr>"

definition Clear :: "CPLStringList \<Rightarrow> array_heap \<Rightarrow> (CPLStringList \<times> array_heap) option" where
  "Clear sl h =
     (if bOwnList sl then
        do {
          h \<leftarrow> (case papszList sl of None \<Rightarrow> Some h | Some p \<Rightarrow> free_array h p);
          Some (sl\<lparr>papszList := None, bOwnList := False, nAllocation := 0, nCount := 0\<rparr>, h)
        }
      else Some (sl, h))"

definition Assign :: "CPLStringList \<Rightarrow> array_heap \<Rightarrow> nat option \<Rightarrow> bool \<Rightarrow> (CPLStringList \<times> array_heap) option" where
  "Assign sl h papszListIn bTakeOwnership =
     do {
       (sl, h) \<leftarrow> Clear sl h;
       let sl = sl\<lparr>papszList := papszListIn, bOwnList := bTakeOwnership\<rparr>;
       n \<leftarrow> (case papszList sl of None \<Rightarrow> Some 0
             | Some p \<Rightarrow> map_option (\<lambda>v. if v = None then 0 else -1) (load h (papszList sl) 0));
       Some (sl\<lparr>nCount := n, nAllocation := 0, bIsSorted := False\<rparr>, h)
     }"

text \<open>The object's mutable fields after \<^verbatim>\<open>Count\<close>; its result is \<open>nCount\<close>.\<close>

definition Count :: "CPLStringList \<Rightarrow> array_heap \<Rightarrow> CPLStringList option" where
  "Count sl h =
     (if nCount sl = -1 then
        (if papszList sl = None then Some (sl\<lparr>nCount := 0, nAllocation := 0\<rparr>)
         else do {
           l \<leftarrow> read_list h (papszList sl);
           Some (sl\<lparr>nCount := CSLCount l, nAllocation := max (CSLCount l + 1) (nAllocation sl)\<rparr>)
         })
      else Some sl)"

definition MakeOurOwnCopy :: "CPLStringList \<Rightarrow> array_heap \<Rightarrow> (CPLStringList \<times> array_heap) option" where
  "MakeOurOwnCopy sl h =
     (if bOwnList sl then Some (sl, h)
      else if papszList sl = None then Some (sl, h)
      else do {
        sl \<leftarrow> Count sl h;
        l \<leftarrow> read_list h (papszList sl);
        let (h, p) = (case CSLDuplicate l of None \<Rightarrow> (h, None)
                      | Some xs \<Rightarrow> map_prod id Some (new_array h (array_of xs)));
        Some (sl\<lparr>bOwnList := True, papszList := p, nAllocation := nCount sl + 1\<rparr>, h)
      })"

definition EnsureAllocation :: "CPLStringList \<Rightarrow> array_heap \<Rightarrow> int \<Rightarrow> (CPLStringList \<times> array_heap) option" where
  "EnsureAllocation sl h nMaxList =
     do {
       (sl, h) \<leftarrow> (if \<not> bOwnList sl then MakeOurOwnCopy sl h else Some (sl, h));
       if nAllocation sl \<le> nMaxList then
         (let n = max (int32 (nAllocation sl * 2 + 20)) (nMaxList + 1) in
          case papszList sl of
            None \<Rightarrow>
              (let (h, p) = new_array h (replicate (nat n) None)
               in Some (sl\<lparr>nAllocation := n, papszList := Some p, bOwnList := True, nCount := 0\<rparr>, h))
          | Some p \<Rightarrow>
              do {
                (h, q) \<leftarrow> realloc_array h p (nat n);
                Some (sl\<lparr>nAllocation := n, papszList := Some q\<rparr>, h)
              })
       else Some (sl, h)
     }"

definition AddStringDirectly :: "CPLStringList \<Rightarrow> array_heap \<Rightarrow> string \<Rightarrow> (CPLStringList \<times> array_heap) option" where
  "AddStringDirectly sl h s =
     do {
       sl \<leftarrow> (if nCount sl = -1 then Count sl h else Some sl);
       (sl, h) \<leftarrow> EnsureAllocation sl h (nCount sl + 1);
       h \<leftarrow> store h (papszList sl) (nCount sl) (Some s);
       let sl = sl\<lparr>nCount := nCount sl + 1\<rparr>;
       h \<leftarrow> store h (papszList sl) (nCount sl) None;
       Some (sl\<lparr>bIsSorted := False\<rparr>, h)
     }"

text \<open>\<^verbatim>\<open>CPLStrdup\<close> of NULL is an empty string.\<close>

definition CPLStrdup :: "string option \<Rightarrow> string" where
  "CPLStrdup s = (case s of None \<Rightarrow> '''' | Some t \<Rightarrow> t)"

definition AddString :: "CPLStringList \<Rightarrow> array_heap \<Rightarrow> string option \<Rightarrow> (CPLStringList \<times> array_heap) option" where
  "AddString sl h s = AddStringDirectly sl h (CPLStrdup s)"

text \<open>\<open>for (int i = nCount; i > nInsertAtLineNo; i--) papszList[i] = papszList[i-1];\<close>\<close>

fun shift_up :: "nat \<Rightarrow> array_heap \<Rightarrow> nat option \<Rightarrow> int \<Rightarrow> array_heap option" where
  "shift_up 0 h p i = Some h"
| "shift_up (Suc k) h p i = do {
     v \<leftarrow> load h p (i - 1);
     h \<leftarrow> store h p i v;
     shift_up k h p (i - 1)
   }"

definition InsertStringDirectly ::
    "CPLStringList \<Rightarrow> array_heap \<Rightarrow> int \<Rightarrow> string \<Rightarrow> (CPLStringList \<times> array_heap) option" where
  "InsertStringDirectly sl h nInsertAtLineNo pszNewLine =
     do {
       sl \<leftarrow> (if nCount sl = -1 then Count sl h else Some sl);
       (sl, h) \<leftarrow> EnsureAllocation sl h (nCount sl + 1);
       if nInsertAtLineNo < 0 \<or> nInsertAtLineNo > nCount sl then Some (sl, h)
       else do {
         let sl = sl\<lparr>bIsSorted := False\<rparr>;
         h \<leftarrow> shift_up (nat (nCount sl - nInsertAtLineNo)) h (papszList sl) (nCount sl);
         h \<leftarrow> store h (papszList sl) nInsertAtLineNo (Some pszNewLine);
         let sl = sl\<lparr>nCount := nCount sl + 1\<rparr>;
         h \<leftarrow> store h (papszList sl) (nCount sl) None;
         Some (sl, h)
       }
     }"

definition InsertString ::
    "CPLStringList \<Rightarrow> array_heap \<Rightarrow> int \<Rightarrow> string option \<Rightarrow> (CPLStringList \<times> array_heap) option" where
  "InsertString sl h nInsertAtLineNo pszNewLine =
     InsertStringDirectly sl h nInsertAtLineNo (CPLStrdup pszNewLine)"

text \<open>The loops of the two binary searches, from the bounds \<open>iStart\<close> and \<open>iEnd\<close>. A NULL line cannot be compared.\<close>

function insertion_search :: "string option list \<Rightarrow> string \<Rightarrow> int \<Rightarrow> int \<Rightarrow> int option" where
  "insertion_search a pszLine iStart iEnd =
     (if iStart \<le> iEnd then
        (case rd a ((iEnd + iStart) div 2) of
           Some (Some pszMiddle) \<Rightarrow>
             if strcasecmp pszLine pszMiddle < 0
             then insertion_search a pszLine iStart ((iEnd + iStart) div 2 - 1)
             else insertion_search a pszLine ((iEnd + iStart) div 2 + 1) iEnd
         | _ \<Rightarrow> None)
      else Some (iEnd + 1))"
  by pat_completeness auto
termination by (relation "measure (\<lambda>(a, l, i, j). nat (j - i + 1))") auto

function name_search :: "string option list \<Rightarrow> string \<Rightarrow> int \<Rightarrow> int \<Rightarrow> int option" where
  "name_search a pszKey iStart iEnd =
     (if iStart \<le> iEnd then
        (case rd a ((iEnd + iStart) div 2) of
           Some (Some pszMiddle) \<Rightarrow>
             if entry_match pszMiddle pszKey then Some ((iEnd + iStart) div 2)
             else if strcasecmp pszKey pszMiddle < 0
             then name_search a pszKey iStart ((iEnd + iStart) div 2 - 1)
             else name_search a pszKey ((iEnd + iStart) div 2 + 1) iEnd
         | _ \<Rightarrow> None)
      else Some (-1))"
  by pat_completeness auto
termination by (relation "measure (\<lambda>(a, l, i, j). nat (j - i + 1))") auto

declare insertion_search.simps [simp del]

declare name_search.simps [simp del]

definition cells_of :: "array_heap \<Rightarrow> nat option \<Rightarrow> string option list" where
  "cells_of h p = (case p of None \<Rightarrow> [] | Some q \<Rightarrow> (case arrays h q of None \<Rightarrow> [] | Some a \<Rightarrow> a))"

definition FindSortedInsertionPoint :: "CPLStringList \<Rightarrow> array_heap \<Rightarrow> string \<Rightarrow> int option" where
  "FindSortedInsertionPoint sl h pszLine = insertion_search (cells_of h (papszList sl)) pszLine 0 (nCount sl - 1)"

definition FindName :: "CPLStringList \<Rightarrow> array_heap \<Rightarrow> string option \<Rightarrow> int option" where
  "FindName sl h pszKey =
     (if \<not> bIsSorted sl then map_option (\<lambda>l. CSLFindName l pszKey) (read_list h (papszList sl))
      else
        (case pszKey of None \<Rightarrow> None
         | Some key \<Rightarrow> name_search (cells_of h (papszList sl)) key 0 (nCount sl - 1)))"

definition AddNameValue ::
    "CPLStringList \<Rightarrow> array_heap \<Rightarrow> string option \<Rightarrow> string option \<Rightarrow> (CPLStringList \<times> array_heap) option" where
  "AddNameValue sl h pszKey pszValue =
     (case (pszKey, pszValue) of
        (Some key, Some val) \<Rightarrow>
          do {
            (sl, h) \<leftarrow> MakeOurOwnCopy sl h;
            let pszLine = key @ ''='' @ val;
            if \<not> bIsSorted sl then AddStringDirectly sl h pszLine
            else do {
              iKey \<leftarrow> FindSortedInsertionPoint sl h pszLine;
              (sl, h) \<leftarrow> InsertStringDirectly sl h iKey pszLine;
              Some (sl\<lparr>bIsSorted := True\<rparr>, h)
            }
          }
      | _ \<Rightarrow> Some (sl, h))"

text \<open>The \<^verbatim>\<open>do\<close> loop that shifts the lines down is \<open>remove_shift\<close>, its destination one cell behind.\<close>

definition shift_down :: "array_heap \<Rightarrow> nat option \<Rightarrow> int \<Rightarrow> array_heap option" where
  "shift_down h p iKey =
     do {
       q \<leftarrow> p;
       a \<leftarrow> arrays h q;
       a' \<leftarrow> remove_shift (length a) (iKey + 1) iKey a;
       Some (h\<lparr>arrays := (arrays h)(q \<mapsto> a')\<rparr>)
     }"

definition SetNameValue ::
    "CPLStringList \<Rightarrow> array_heap \<Rightarrow> string option \<Rightarrow> string option \<Rightarrow> (CPLStringList \<times> array_heap) option" where
  "SetNameValue sl h pszKey pszValue =
     do {
       iKey \<leftarrow> FindName sl h pszKey;
       if iKey = -1 then AddNameValue sl h pszKey pszValue
       else do {
         sl \<leftarrow> Count sl h;
         (sl, h) \<leftarrow> MakeOurOwnCopy sl h;
         _ \<leftarrow> load h (papszList sl) iKey;
         (case pszValue of
            None \<Rightarrow> do {
              h \<leftarrow> shift_down h (papszList sl) iKey;
              Some (sl\<lparr>nCount := nCount sl - 1\<rparr>, h)
            }
          | Some val \<Rightarrow> do {
              key \<leftarrow> pszKey;
              h \<leftarrow> store h (papszList sl) iKey (Some (key @ ''='' @ val));
              Some (sl, h)
            })
       }
     }"

text \<open>\<open>operator[]\<close>: the entry, NULL outside the list.\<close>

definition entry_at :: "CPLStringList \<Rightarrow> array_heap \<Rightarrow> int \<Rightarrow> string option option" where
  "entry_at sl h i =
     do {
       sl \<leftarrow> (if nCount sl = -1 then Count sl h else Some sl);
       if i < 0 \<or> i \<ge> nCount sl then Some None else load h (papszList sl) i
     }"

definition StealList :: "CPLStringList \<Rightarrow> CPLStringList \<times> nat option" where
  "StealList sl = (sl\<lparr>bOwnList := False, papszList := None, nCount := 0, nAllocation := 0\<rparr>, papszList sl)"

definition Sort ::
    "(string list \<Rightarrow> string list) \<Rightarrow> CPLStringList \<Rightarrow> array_heap \<Rightarrow> (CPLStringList \<times> array_heap) option" where
  "Sort qsort sl h =
     do {
       sl \<leftarrow> Count sl h;
       (sl, h) \<leftarrow> MakeOurOwnCopy sl h;
       (case papszList sl of
          None \<Rightarrow> Some (sl\<lparr>bIsSorted := True\<rparr>, h)
        | Some p \<Rightarrow>
            do {
              a \<leftarrow> arrays h p;
              let n = nat (nCount sl);
              if n \<le> length a \<and> None \<notin> set (take n a) then
                Some (sl\<lparr>bIsSorted := True\<rparr>,
                      h\<lparr>arrays := (arrays h)(p \<mapsto> map Some (qsort (list_of (take n a))) @ drop n a)\<rparr>)
              else None
            })
     }"

definition FetchNameValue :: "CPLStringList \<Rightarrow> array_heap \<Rightarrow> string \<Rightarrow> string option option" where
  "FetchNameValue sl h pszName =
     do {
       iKey \<leftarrow> FindName sl h (Some pszName);
       if iKey = -1 then Some None
       else do {
         v \<leftarrow> load h (papszList sl) iKey;
         s \<leftarrow> v;
         Some (Some (drop (length pszName + 1) s))
       }
     }"

definition FetchNameValueDef ::
    "CPLStringList \<Rightarrow> array_heap \<Rightarrow> string \<Rightarrow> string option \<Rightarrow> string option option" where
  "FetchNameValueDef sl h pszName pszDefault =
     map_option (\<lambda>v. case v of None \<Rightarrow> pszDefault | Some s \<Rightarrow> Some s) (FetchNameValue sl h pszName)"

definition FetchBoolean :: "CPLStringList \<Rightarrow> array_heap \<Rightarrow> string \<Rightarrow> bool \<Rightarrow> bool option" where
  "FetchBoolean sl h pszKey bDefault =
     map_option (\<lambda>v. case v of None \<Rightarrow> bDefault | Some s \<Rightarrow> CSLTestBoolean s) (FetchNameValue sl h pszKey)"

text \<open>The copy constructor, and assignment from another object.\<close>

definition copy_list :: "CPLStringList \<Rightarrow> array_heap \<Rightarrow> CPLStringList \<Rightarrow> (CPLStringList \<times> array_heap) option" where
  "copy_list sl h other =
     do {
       (sl, h) \<leftarrow> Assign sl h (papszList other) False;
       (sl, h) \<leftarrow> MakeOurOwnCopy sl h;
       Some (sl\<lparr>bIsSorted := bIsSorted other\<rparr>, h)
     }"

section \<open>The list an object holds\<close>

text \<open>The array the object may change and free. It is not below the addresses still to be given.\<close>

definition owned :: "CPLStringList \<Rightarrow> nat option" where
  "owned sl = (if bOwnList sl then papszList sl else None)"

definition heap_ok :: "array_heap \<Rightarrow> bool" where
  "heap_ok h \<longleftrightarrow> (\<forall>p. arrays h p \<noteq> None \<longrightarrow> p < next_array h)"

definition sl_repr :: "CPLStringList \<Rightarrow> array_heap \<Rightarrow> string list \<Rightarrow> bool" where
  "sl_repr sl h xs \<longleftrightarrow> heap_ok h \<and>
     (case papszList sl of
        None \<Rightarrow> xs = [] \<and> nCount sl = 0 \<and> nAllocation sl \<le> 1
      | Some p \<Rightarrow>
          (\<exists>junk. arrays h p = Some (map Some xs @ None # junk) \<and> (nCount sl = int (length xs) \<or> nCount sl = -1)
             \<and> (bOwnList sl \<longrightarrow> nAllocation sl \<le> int (length xs) + 1 + int (length junk))))"

text \<open>The arrays of others keep their contents, and the object comes to own only what it owned or allocated.\<close>

definition keeps :: "CPLStringList \<Rightarrow> array_heap \<Rightarrow> CPLStringList \<Rightarrow> array_heap \<Rightarrow> bool" where
  "keeps sl h sl' h' \<longleftrightarrow> (\<forall>p. arrays h p \<noteq> None \<and> owned sl \<noteq> Some p \<longrightarrow> arrays h' p = arrays h p)
     \<and> (\<forall>p. owned sl' = Some p \<longrightarrow> owned sl = Some p \<or> arrays h p = None)"

lemma keeps_refl: "owned sl' = owned sl \<Longrightarrow> keeps sl h sl' h"
  by (simp add: keeps_def)

lemma keeps_trans: "keeps sl h sl1 h1 \<Longrightarrow> keeps sl1 h1 sl2 h2 \<Longrightarrow> keeps sl h sl2 h2"
  unfolding keeps_def by metis

text \<open>An object that owns its array \<open>p\<close>, has counted it, and has room for \<open>room\<close> more lines.\<close>

definition own_list :: "CPLStringList \<Rightarrow> array_heap \<Rightarrow> nat \<Rightarrow> string list \<Rightarrow> nat \<Rightarrow> bool" where
  "own_list sl h p xs room \<longleftrightarrow> heap_ok h \<and> papszList sl = Some p \<and> bOwnList sl \<and> nCount sl = int (length xs)
     \<and> (\<exists>junk. arrays h p = Some (map Some xs @ None # junk) \<and> room \<le> length junk
          \<and> nAllocation sl \<le> int (length xs) + 1 + int (length junk))"

lemma own_list_repr: "own_list sl h p xs room \<Longrightarrow> sl_repr sl h xs"
  by (auto simp: own_list_def sl_repr_def)

lemma own_list_sorted [simp]: "own_list (sl\<lparr>bIsSorted := b\<rparr>) h p xs room = own_list sl h p xs room"
  by (simp add: own_list_def)

lemma sl_repr_sorted [simp]: "sl_repr (sl\<lparr>bIsSorted := b\<rparr>) h xs = sl_repr sl h xs"
  by (cases "papszList sl") (simp_all add: sl_repr_def)

lemma keeps_sorted [simp]: "keeps sl h (sl'\<lparr>bIsSorted := b\<rparr>) h' = keeps sl h sl' h'"
  by (simp add: keeps_def owned_def)

lemma heap_ok_update: "heap_ok h \<Longrightarrow> arrays h p \<noteq> None \<Longrightarrow> heap_ok (h\<lparr>arrays := (arrays h)(p \<mapsto> a)\<rparr>)"
  by (auto simp: heap_ok_def)

lemma heap_ok_new: "heap_ok h \<Longrightarrow> heap_ok (fst (new_array h a)) \<and> arrays h (next_array h) = None"
  by (fastforce simp: heap_ok_def new_array_def less_Suc_eq)

lemma read_list_repr: "sl_repr sl h xs \<Longrightarrow> read_list h (papszList sl) = Some (if papszList sl = None then None else Some xs)"
  by (auto simp: sl_repr_def read_list_def split: option.splits)

lemma sl_repr_count:
  "sl_repr sl h xs \<Longrightarrow> \<exists>sl'. Count sl h = Some sl' \<and> sl_repr sl' h xs \<and> nCount sl' = int (length xs)
     \<and> papszList sl' = papszList sl \<and> bOwnList sl' = bOwnList sl \<and> bIsSorted sl' = bIsSorted sl"
  using read_list_repr [of sl h xs]
  by (auto simp: sl_repr_def Count_def CSLCount_def split: option.splits)

lemma sl_repr_counted:
  "sl_repr sl h xs \<Longrightarrow> \<exists>sl'. (if nCount sl = -1 then Count sl h else Some sl) = Some sl' \<and> sl_repr sl' h xs
     \<and> nCount sl' = int (length xs) \<and> papszList sl' = papszList sl \<and> bOwnList sl' = bOwnList sl
     \<and> bIsSorted sl' = bIsSorted sl"
  using sl_repr_count [of sl h xs] by (cases "nCount sl = -1") (auto simp: sl_repr_def split: option.splits)

lemma owned_cong: "papszList sl' = papszList sl \<Longrightarrow> bOwnList sl' = bOwnList sl \<Longrightarrow> owned sl' = owned sl"
  by (simp add: owned_def)

lemma repr_MakeOurOwnCopy:
  assumes "sl_repr sl h xs"
  shows "\<exists>sl' h'. MakeOurOwnCopy sl h = Some (sl', h') \<and> sl_repr sl' h' xs \<and> keeps sl h sl' h'
    \<and> (bOwnList sl' \<or> papszList sl' = None) \<and> bIsSorted sl' = bIsSorted sl
    \<and> (nCount sl = int (length xs) \<longrightarrow> nCount sl' = int (length xs))"
proof (cases "bOwnList sl \<or> papszList sl = None")
  case True
  then show ?thesis using assms keeps_refl [of sl sl h] by (auto simp: MakeOurOwnCopy_def)
next
  case own: False
  then obtain p where False: "papszList sl = Some p" "\<not> bOwnList sl" by auto
  obtain sl1 where s1: "Count sl h = Some sl1" "sl_repr sl1 h xs" "nCount sl1 = int (length xs)"
    "papszList sl1 = papszList sl" "bOwnList sl1 = bOwnList sl" "bIsSorted sl1 = bIsSorted sl"
    using sl_repr_count [OF assms] by blast
  have r: "read_list h (papszList sl) = Some (Some xs)" using read_list_repr [OF assms] False by simp
  have ok: "heap_ok h" using assms by (simp add: sl_repr_def)
  show ?thesis
  proof (cases "xs = []")
    case True
    then have "MakeOurOwnCopy sl h = Some (sl1\<lparr>bOwnList := True, papszList := None, nAllocation := nCount sl1 + 1\<rparr>, h)"
      using False s1 r by (simp add: MakeOurOwnCopy_def CSLDuplicate_def CSLCount_def)
    then show ?thesis using True s1 ok by (auto simp: sl_repr_def keeps_def owned_def)
  next
    case ne: False
    let ?sl = "sl1\<lparr>bOwnList := True, papszList := Some (next_array h), nAllocation := nCount sl1 + 1\<rparr>"
    have "MakeOurOwnCopy sl h = Some (?sl, fst (new_array h (array_of xs)))"
      using False ne s1 r by (simp add: MakeOurOwnCopy_def CSLDuplicate_def CSLCount_def new_array_def)
    moreover have "sl_repr ?sl (fst (new_array h (array_of xs))) xs"
      using s1 heap_ok_new [OF ok] by (simp add: sl_repr_def new_array_def array_of_def)
    moreover have "keeps sl h ?sl (fst (new_array h (array_of xs)))"
      using heap_ok_new [OF ok] by (auto simp: keeps_def owned_def new_array_def)
    ultimately show ?thesis using s1 by auto
  qed
qed

lemma realloc_result:
  assumes "heap_ok h" "arrays h p = Some (map Some xs @ None # junk)" "length xs + 1 \<le> n"
  obtains h' q junk' where "realloc_array h p n = Some (h', q)" "heap_ok h'"
    "arrays h' q = Some (map Some xs @ None # junk')" "length xs + 1 + length junk' = n" "arrays h q = None"
    "\<And>r. arrays h r \<noteq> None \<Longrightarrow> r \<noteq> p \<Longrightarrow> arrays h' r = arrays h r"
proof -
  let ?a = "map Some xs @ None # junk"
  let ?b = "take n ?a @ replicate (n - length ?a) uninitialised"
  let ?h = "h\<lparr>arrays := (arrays h)(p := None)\<rparr>"
  define m where "m = n - length xs - 1"
  have n: "n = length xs + Suc m" using assms(3) by (simp add: m_def)
  have b: "?b = map Some xs @ None # (take m junk @ replicate (n - length ?a) uninitialised)"
    by (simp add: n)
  have "length ?b = n" by (cases "n \<le> length ?a") auto
  then have l: "length xs + 1 + length (take m junk @ replicate (n - length ?a) uninitialised) = n"
    unfolding b by simp
  have fr: "arrays h (next_array h) = None" using heap_ok_new [OF assms(1)] by simp
  have "heap_ok ?h" using assms(1) by (auto simp: heap_ok_def)
  then have "heap_ok (fst (new_array ?h ?b))" using heap_ok_new by blast
  moreover have "realloc_array h p n = Some (new_array ?h ?b)"
    using assms(2) by (simp add: realloc_array_def free_array_def)
  moreover have "new_array ?h ?b = (fst (new_array ?h ?b), next_array h)"
    "arrays (fst (new_array ?h ?b)) (next_array h) = Some ?b" by (simp_all add: new_array_def)
  moreover have "arrays (fst (new_array ?h ?b)) r = arrays h r" if "arrays h r \<noteq> None" "r \<noteq> p" for r
    using fr that by (auto simp: new_array_def)
  ultimately show ?thesis using that [of "fst (new_array ?h ?b)" "next_array h"] l fr b by metis
qed

lemma ensure_room:
  assumes "sl_repr sl h xs" "nCount sl = int (length xs)"
  shows "\<exists>sl' h' p. EnsureAllocation sl h (int (length xs) + 1) = Some (sl', h') \<and> own_list sl' h' p xs 1
    \<and> keeps sl h sl' h' \<and> bIsSorted sl' = bIsSorted sl"
proof -
  have "\<exists>sl1 h1. (if \<not> bOwnList sl then MakeOurOwnCopy sl h else Some (sl, h)) = Some (sl1, h1) \<and> sl_repr sl1 h1 xs
      \<and> keeps sl h sl1 h1 \<and> (bOwnList sl1 \<or> papszList sl1 = None) \<and> bIsSorted sl1 = bIsSorted sl
      \<and> nCount sl1 = int (length xs)"
    using repr_MakeOurOwnCopy [OF assms(1)] assms keeps_refl [of sl sl h] by (cases "bOwnList sl") auto
  then obtain sl1 h1 where s1: "(if \<not> bOwnList sl then MakeOurOwnCopy sl h else Some (sl, h)) = Some (sl1, h1)"
    "sl_repr sl1 h1 xs" "keeps sl h sl1 h1" "bOwnList sl1 \<or> papszList sl1 = None" "bIsSorted sl1 = bIsSorted sl"
    "nCount sl1 = int (length xs)" by blast
  note ens = EnsureAllocation_def [of sl h "int (length xs) + 1", unfolded s1(1)]
  let ?n = "max (int32 (nAllocation sl1 * 2 + 20)) (int (length xs) + 1 + 1)"
  have ok: "heap_ok h1" using s1(2) by (simp add: sl_repr_def)
  show ?thesis
  proof (cases "papszList sl1")
    case None
    then have xs: "xs = []" "nAllocation sl1 \<le> 1" using s1(2) by (simp_all add: sl_repr_def)
    let ?a = "replicate (nat ?n) None :: string option list"
    let ?sl = "sl1\<lparr>nAllocation := ?n, papszList := Some (next_array h1), bOwnList := True, nCount := 0\<rparr>"
    have n2: "nat ?n = Suc (Suc (nat ?n - 2))" by simp
    have "EnsureAllocation sl h (int (length xs) + 1) = Some (?sl, fst (new_array h1 ?a))"
      unfolding ens using None xs by (simp add: new_array_def Let_def)
    moreover have "own_list ?sl (fst (new_array h1 ?a)) (next_array h1) xs 1"
      using heap_ok_new [OF ok, of ?a] xs(1) unfolding own_list_def
      by (auto simp: new_array_def intro!: exI [of _ "replicate (nat ?n - 1) None"] simp flip: replicate_Suc)
    moreover have "keeps sl1 h1 ?sl (fst (new_array h1 ?a))"
      using heap_ok_new [OF ok, of ?a] by (auto simp: keeps_def owned_def new_array_def)
    ultimately show ?thesis using keeps_trans [OF s1(3)] s1(5) by auto
  next
    case (Some p)
    with s1 obtain junk where j: "arrays h1 p = Some (map Some xs @ None # junk)" "bOwnList sl1"
      "nAllocation sl1 \<le> int (length xs) + 1 + int (length junk)" by (auto simp: sl_repr_def)
    show ?thesis
    proof (cases "nAllocation sl1 \<le> int (length xs) + 1")
      case False
      then have "EnsureAllocation sl h (int (length xs) + 1) = Some (sl1, h1)" unfolding ens by simp
      moreover have "own_list sl1 h1 p xs 1" using Some False j s1(6) ok by (auto simp: own_list_def)
      ultimately show ?thesis using s1(3,5) by blast
    next
      case True
      have "length xs + 1 \<le> nat ?n" by simp
      from realloc_result [OF ok j(1) this] obtain h2 q junk' where
        r: "realloc_array h1 p (nat ?n) = Some (h2, q)" "heap_ok h2"
          "arrays h2 q = Some (map Some xs @ None # junk')" "length xs + 1 + length junk' = nat ?n"
          "arrays h1 q = None" "\<And>r. arrays h1 r \<noteq> None \<Longrightarrow> r \<noteq> p \<Longrightarrow> arrays h2 r = arrays h1 r" by blast
      let ?sl = "sl1\<lparr>nAllocation := ?n, papszList := Some q\<rparr>"
      have "EnsureAllocation sl h (int (length xs) + 1) = Some (?sl, h2)"
        unfolding ens using True Some r(1) by (simp add: Let_def)
      moreover have "own_list ?sl h2 q xs 1"
        using r(2-4) j(2) s1(6) unfolding own_list_def by auto
      moreover have "keeps sl1 h1 ?sl h2"
        using r(5,6) Some j(2) by (auto simp: keeps_def owned_def)
      ultimately show ?thesis using keeps_trans [OF s1(3)] s1(5) by auto
    qed
  qed
qed

text \<open>Writing into an owned array.\<close>

lemma own_list_write:
  assumes "own_list sl h p xs room" "owned sl' = owned sl"
  shows "keeps sl h sl' (h\<lparr>arrays := (arrays h)(p \<mapsto> a)\<rparr>)" "heap_ok (h\<lparr>arrays := (arrays h)(p \<mapsto> a)\<rparr>)"
  using assms heap_ok_update [of h p a] by (auto simp: own_list_def keeps_def owned_def)

lemma store_at:
  "arrays h p = Some (pre @ x # post) \<Longrightarrow> i = int (length pre) \<Longrightarrow>
     store h (Some p) i v = Some (h\<lparr>arrays := (arrays h)(p \<mapsto> pre @ v # post)\<rparr>)"
  by (simp add: store_def wr_at)

lemma load_at: "arrays h p = Some (pre @ x # post) \<Longrightarrow> i = int (length pre) \<Longrightarrow> load h (Some p) i = Some x"
  by (simp add: load_def rd_at)

lemma repr_AddStringDirectly:
  assumes "sl_repr sl h xs"
  shows "\<exists>sl' h'. AddStringDirectly sl h s = Some (sl', h') \<and> sl_repr sl' h' (xs @ [s]) \<and> keeps sl h sl' h'
    \<and> \<not> bIsSorted sl'"
proof -
  obtain sl0 where s0: "(if nCount sl = -1 then Count sl h else Some sl) = Some sl0" "sl_repr sl0 h xs"
    "nCount sl0 = int (length xs)" "papszList sl0 = papszList sl" "bOwnList sl0 = bOwnList sl"
    using sl_repr_counted [OF assms] by blast
  obtain sl1 h1 p where s1: "EnsureAllocation sl0 h (int (length xs) + 1) = Some (sl1, h1)"
    "own_list sl1 h1 p xs 1" "keeps sl0 h sl1 h1" using ensure_room [OF s0(2,3)] by blast
  obtain x junk where a: "arrays h1 p = Some (map Some xs @ None # x # junk)" "papszList sl1 = Some p" "bOwnList sl1"
    "nCount sl1 = int (length xs)" "nAllocation sl1 \<le> int (length xs) + 2 + int (length junk)"
    using s1(2) unfolding own_list_def by (auto simp: Suc_le_length_iff)
  let ?h = "h1\<lparr>arrays := (arrays h1)(p \<mapsto> map Some (xs @ [s]) @ None # junk)\<rparr>"
  let ?sl = "sl1\<lparr>nCount := int (length xs) + 1, bIsSorted := False\<rparr>"
  have st: "store h1 (Some p) (int (length xs)) (Some s)
      = Some (h1\<lparr>arrays := (arrays h1)(p \<mapsto> map Some xs @ Some s # x # junk)\<rparr>)"
    using a(1) by (intro store_at) simp_all
  have "store (h1\<lparr>arrays := (arrays h1)(p \<mapsto> map Some xs @ Some s # x # junk)\<rparr>) (Some p) (int (length xs) + 1) None
      = Some ?h" using store_at [of _ p "map Some xs @ [Some s]" x junk "int (length xs) + 1" None] by simp
  with st have "AddStringDirectly sl h s = Some (?sl, ?h)"
    unfolding AddStringDirectly_def s0(1) using s0(3) s1(1) a(2,4) by (simp add: Let_def)
  moreover have "keeps sl1 h1 ?sl ?h" "heap_ok ?h" by (rule own_list_write [OF s1(2)], simp add: owned_def)+
  moreover have "sl_repr ?sl ?h (xs @ [s])" using \<open>heap_ok ?h\<close> a by (simp add: sl_repr_def)
  moreover have "keeps sl h sl1 h1" using s1(3) owned_cong [OF s0(4,5)] by (simp add: keeps_def)
  ultimately show ?thesis using keeps_trans [of sl h sl1 h1] by auto
qed

lemma shift_up_result:
  assumes "arrays h p = Some (pre @ mid @ x # post)" "i = int (length pre + length mid)"
  shows "shift_up (length mid) h (Some p) i
    = Some (h\<lparr>arrays := (arrays h)(p \<mapsto> (if mid = [] then pre @ x # post else pre @ hd mid # mid @ post))\<rparr>)"
  using assms
proof (induction mid arbitrary: h x post i rule: rev_induct)
  case Nil
  then show ?case by (simp add: fun_upd_idem)
next
  case (snoc m mid)
  let ?h = "h\<lparr>arrays := (arrays h)(p \<mapsto> pre @ mid @ m # m # post)\<rparr>"
  have i: "i - 1 = int (length (pre @ mid))" using snoc.prems(2) by simp
  have "load h (Some p) (i - 1) = Some m"
    using snoc.prems(1) rd_at [OF i, of m "x # post"] by (simp add: load_def)
  moreover have "store h (Some p) i m = Some ?h"
    using snoc.prems wr_at [of i "pre @ mid @ [m]" x post m] by (simp add: store_def)
  ultimately have "shift_up (length (mid @ [m])) h (Some p) i = shift_up (length mid) ?h (Some p) (i - 1)" by simp
  also have "\<dots> = Some (?h\<lparr>arrays := (arrays ?h)(p \<mapsto>
      (if mid = [] then pre @ m # m # post else pre @ hd mid # mid @ m # post))\<rparr>)"
    using i by (intro snoc.IH) simp_all
  also have "(if mid = [] then pre @ m # m # post else pre @ hd mid # mid @ m # post)
      = (if mid @ [m] = [] then pre @ x # post else pre @ hd (mid @ [m]) # (mid @ [m]) @ post)"
    by (simp add: hd_append)
  also have "?h\<lparr>arrays := (arrays ?h)(p \<mapsto> z)\<rparr> = h\<lparr>arrays := (arrays h)(p \<mapsto> z)\<rparr>" for z
    by simp
  finally show ?case .
qed

lemma repr_InsertStringDirectly:
  assumes "sl_repr sl h xs"
  shows "\<exists>sl' h'. InsertStringDirectly sl h i s = Some (sl', h') \<and> keeps sl h sl' h'
    \<and> (if i < 0 \<or> i > int (length xs)
       then sl_repr sl' h' xs \<and> bIsSorted sl' = bIsSorted sl \<and> nCount sl' = int (length xs)
       else sl_repr sl' h' (take (nat i) xs @ [s] @ drop (nat i) xs) \<and> \<not> bIsSorted sl'
         \<and> nCount sl' = int (length xs) + 1)"
proof -
  obtain sl0 where s0: "(if nCount sl = -1 then Count sl h else Some sl) = Some sl0" "sl_repr sl0 h xs"
    "nCount sl0 = int (length xs)" "papszList sl0 = papszList sl" "bOwnList sl0 = bOwnList sl"
    "bIsSorted sl0 = bIsSorted sl" using sl_repr_counted [OF assms] by blast
  obtain sl1 h1 p where s1: "EnsureAllocation sl0 h (int (length xs) + 1) = Some (sl1, h1)"
    "own_list sl1 h1 p xs 1" "keeps sl0 h sl1 h1" "bIsSorted sl1 = bIsSorted sl0"
    using ensure_room [OF s0(2,3)] by blast
  obtain x junk where a: "arrays h1 p = Some (map Some xs @ None # x # junk)" "papszList sl1 = Some p" "bOwnList sl1"
    "nCount sl1 = int (length xs)" "nAllocation sl1 \<le> int (length xs) + 2 + int (length junk)"
    using s1(2) unfolding own_list_def by (auto simp: Suc_le_length_iff)
  have k: "keeps sl h sl1 h1" using s1(3) owned_cong [OF s0(4,5)] by (simp add: keeps_def)
  show ?thesis
  proof (cases "i < 0 \<or> i > int (length xs)")
    case True
    then have "InsertStringDirectly sl h i s = Some (sl1, h1)"
      unfolding InsertStringDirectly_def s0(1) using s0(3) s1(1) a(4) by simp
    then show ?thesis using True k own_list_repr [OF s1(2)] s0(6) s1(4) a(4) by simp
  next
    case False
    define pre mid where "pre = take (nat i) xs" and "mid = drop (nat i) xs"
    have "nat i \<le> length xs" using False by linarith
    then have xs: "xs = pre @ mid" "i = int (length pre)" using False by (simp_all add: pre_def mid_def)
    have n: "nat (nCount sl1 - i) = length mid" using a(4) xs by simp
    let ?h = "h1\<lparr>arrays := (arrays h1)(p \<mapsto> map Some (pre @ [s] @ mid) @ None # junk)\<rparr>"
    let ?sl = "sl1\<lparr>bIsSorted := False, nCount := int (length xs) + 1\<rparr>"
    have sh: "shift_up (length mid) h1 (Some p) (int (length xs)) = Some (h1\<lparr>arrays := (arrays h1)(p \<mapsto>
        (if mid = [] then map Some pre @ None # x # junk
         else map Some pre @ Some (hd mid) # map Some mid @ x # junk))\<rparr>)"
      using shift_up_result [of h1 p "map Some pre" "map Some mid" None "x # junk" "int (length xs)"] a(1) xs(1)
      by (simp add: hd_map)
    let ?h2 = "\<lambda>b. h1\<lparr>arrays := (arrays h1)(p \<mapsto> b)\<rparr>"
    have st: "store (?h2 (if mid = [] then map Some pre @ None # x # junk
         else map Some pre @ Some (hd mid) # map Some mid @ x # junk)) (Some p) i (Some s)
      = Some (?h2 (map Some pre @ Some s # map Some mid @ x # junk))"
      by (cases "mid = []") (simp_all add: store_at [where pre = "map Some pre"] xs(2))
    have "store (?h2 (map Some pre @ Some s # map Some mid @ x # junk)) (Some p) (int (length xs) + 1) None = Some ?h"
      using store_at [of _ p "map Some pre @ Some s # map Some mid" x junk "int (length xs) + 1" None] xs(1) by simp
    with st have "InsertStringDirectly sl h i s = Some (?sl, ?h)"
      unfolding InsertStringDirectly_def s0(1) using False s0(3) s1(1) a(2,4) n sh by (simp add: Let_def)
    moreover have "keeps sl1 h1 ?sl ?h" "heap_ok ?h" by (rule own_list_write [OF s1(2)], simp add: owned_def)+
    moreover have "sl_repr ?sl ?h (pre @ [s] @ mid)" using \<open>heap_ok ?h\<close> a xs(1) by (simp add: sl_repr_def)
    ultimately show ?thesis using False keeps_trans [OF k] by (auto simp: pre_def mid_def)
  qed
qed

section \<open>What the operations do to the list\<close>

lemma find_name_loop_at:
  "find_name_loop es n i = -1 \<and> (\<forall>e \<in> set es. \<not> entry_match e n)
   \<or> (\<exists>k < length es. find_name_loop es n i = i + int k \<and> entry_match (es ! k) n)"
proof (induction es arbitrary: i)
  case (Cons e es)
  show ?case
  proof (cases "entry_match e n")
    case True
    then show ?thesis by (intro disjI2 exI [of _ 0]) simp
  next
    case False
    from Cons [of "i + 1"] show ?thesis
    proof
      assume "\<exists>k < length es. find_name_loop es n (i + 1) = i + 1 + int k \<and> entry_match (es ! k) n"
      then obtain k where "k < length es" "find_name_loop es n (i + 1) = i + 1 + int k" "entry_match (es ! k) n"
        by blast
      then show ?thesis using False by (intro disjI2 exI [of _ "Suc k"]) simp
    qed (use False in simp)
  qed
qed simp

lemma middle_bounds: "iStart \<le> iEnd \<Longrightarrow> iStart \<le> (iEnd + iStart) div 2 \<and> (iEnd + iStart) div 2 \<le> iEnd" for iStart :: int
  by auto

lemma rd_strings: "0 \<le> m \<Longrightarrow> m < int (length xs) \<Longrightarrow> rd (map Some xs @ rest) m = Some (Some (xs ! nat m))"
  by (simp add: rd_def nth_append nat_less_iff)

text \<open>The searches stay inside the lines, so that what follows them in the array does not matter.\<close>

lemma name_search_result:
  assumes "0 \<le> i" "j < int (length xs)"
  shows "\<exists>r. name_search (map Some xs @ rest) n i j = Some r \<and> name_search (map Some xs) n i j = Some r
    \<and> (r = -1 \<or> i \<le> r \<and> r \<le> j \<and> entry_match (xs ! nat r) n)"
  using assms
proof (induction "nat (j - i + 1)" arbitrary: i j rule: less_induct)
  case less
  show ?case
  proof (cases "i \<le> j")
    case True
    let ?m = "(j + i) div 2"
    have m: "i \<le> ?m" "?m \<le> j" using middle_bounds [OF True] by auto
    then have rd: "rd (map Some xs @ rest) ?m = Some (Some (xs ! nat ?m))" "rd (map Some xs) ?m = Some (Some (xs ! nat ?m))"
      using rd_strings [of ?m xs rest] rd_strings [of ?m xs "[]"] less.prems by simp_all
    note lo = less.hyps [of "?m - 1" i] and hi = less.hyps [of j "?m + 1"]
    consider "entry_match (xs ! nat ?m) n" | "\<not> entry_match (xs ! nat ?m) n" "strcasecmp n (xs ! nat ?m) < 0"
      | "\<not> entry_match (xs ! nat ?m) n" "\<not> strcasecmp n (xs ! nat ?m) < 0" by blast
    then show ?thesis
    proof cases
      case 1
      then show ?thesis using True rd m by (simp add: name_search.simps [of _ n i j])
    next
      case 2
      then show ?thesis using True rd m less.prems lo by (fastforce simp add: name_search.simps [of _ n i j])
    next
      case 3
      then show ?thesis using True rd m less.prems hi by (fastforce simp add: name_search.simps [of _ n i j])
    qed
  qed (simp add: name_search.simps [of _ n i j])
qed

lemma insertion_search_result:
  assumes "0 \<le> i" "i \<le> j + 1" "j < int (length xs)"
  shows "\<exists>r. insertion_search (map Some xs @ rest) n i j = Some r \<and> insertion_search (map Some xs) n i j = Some r
    \<and> i \<le> r \<and> r \<le> j + 1"
  using assms
proof (induction "nat (j - i + 1)" arbitrary: i j rule: less_induct)
  case less
  show ?case
  proof (cases "i \<le> j")
    case True
    let ?m = "(j + i) div 2"
    have m: "i \<le> ?m" "?m \<le> j" using middle_bounds [OF True] by auto
    then have rd: "rd (map Some xs @ rest) ?m = Some (Some (xs ! nat ?m))" "rd (map Some xs) ?m = Some (Some (xs ! nat ?m))"
      using rd_strings [of ?m xs rest] rd_strings [of ?m xs "[]"] less.prems by simp_all
    note lo = less.hyps [of "?m - 1" i] and hi = less.hyps [of j "?m + 1"]
    show ?thesis
    proof (cases "strcasecmp n (xs ! nat ?m) < 0")
      case c: True
      then show ?thesis using True rd m less.prems lo by (fastforce simp add: insertion_search.simps [of _ n i j])
    next
      case c: False
      then show ?thesis using True rd m less.prems hi by (fastforce simp add: insertion_search.simps [of _ n i j])
    qed
  qed (use less.prems in \<open>simp add: insertion_search.simps [of _ n i j]\<close>)
qed

text \<open>The line found for a name, -1 for none, and the line at which to insert, in a list of lines.\<close>

definition find_line :: "bool \<Rightarrow> string list \<Rightarrow> string \<Rightarrow> int" where
  "find_line srt xs n =
     (if srt then (case name_search (map Some xs) n 0 (int (length xs) - 1) of Some r \<Rightarrow> r | None \<Rightarrow> -1)
      else find_name_loop xs n 0)"

definition insertion_point :: "string list \<Rightarrow> string \<Rightarrow> nat" where
  "insertion_point xs s =
     (case insertion_search (map Some xs) s 0 (int (length xs) - 1) of Some r \<Rightarrow> nat r | None \<Rightarrow> 0)"

definition insert_line_at :: "nat \<Rightarrow> string \<Rightarrow> string list \<Rightarrow> string list" where
  "insert_line_at i s xs = take i xs @ [s] @ drop i xs"

lemma find_line_range: "find_line srt xs n = -1 \<or>
    (0 \<le> find_line srt xs n \<and> find_line srt xs n < int (length xs) \<and> entry_match (xs ! nat (find_line srt xs n)) n)"
proof (cases srt)
  case True
  then show ?thesis
    using name_search_result [of 0 "int (length xs) - 1" xs "[]" n] by (auto simp: find_line_def)
next
  case False
  then show ?thesis using find_name_loop_at [of xs n 0] by (auto simp: find_line_def)
qed

definition sl_inv :: "CPLStringList \<Rightarrow> array_heap \<Rightarrow> string list \<Rightarrow> bool" where
  "sl_inv sl h xs \<longleftrightarrow> sl_repr sl h xs \<and> (bIsSorted sl \<longrightarrow> nCount sl = int (length xs))"

lemma repr_cells: "sl_repr sl h xs \<Longrightarrow> papszList sl = None \<and> xs = [] \<or> (\<exists>junk. cells_of h (papszList sl) = map Some xs @ None # junk)"
  by (auto simp: sl_repr_def cells_of_def split: option.splits)

lemma repr_FindName:
  assumes "sl_inv sl h xs"
  shows "FindName sl h (Some n) = Some (find_line (bIsSorted sl) xs n)"
proof (cases "bIsSorted sl")
  case True
  then have c: "nCount sl = int (length xs)" and r: "sl_repr sl h xs" using assms by (simp_all add: sl_inv_def)
  show ?thesis
  proof (cases "xs = []")
    case True
    then show ?thesis using c \<open>bIsSorted sl\<close> by (simp add: FindName_def find_line_def name_search.simps [of _ n 0])
  next
    case False
    then obtain junk where "cells_of h (papszList sl) = map Some xs @ None # junk" using repr_cells [OF r] by auto
    then show ?thesis using \<open>bIsSorted sl\<close> c name_search_result [of 0 "int (length xs) - 1" xs "None # junk" n]
      by (auto simp: FindName_def find_line_def)
  qed
next
  case False
  then show ?thesis using assms read_list_repr [of sl h xs]
    by (cases "papszList sl") (simp_all add: sl_inv_def sl_repr_def FindName_def find_line_def CSLFindName_def)
qed

lemma repr_FindSortedInsertionPoint:
  assumes "sl_repr sl h xs" "nCount sl = int (length xs)"
  shows "FindSortedInsertionPoint sl h s = Some (int (insertion_point xs s)) \<and> insertion_point xs s \<le> length xs"
proof (cases "xs = []")
  case True
  then show ?thesis
    using assms(2) by (simp add: FindSortedInsertionPoint_def insertion_point_def insertion_search.simps [of _ s 0])
next
  case False
  then obtain junk where "cells_of h (papszList sl) = map Some xs @ None # junk" using repr_cells [OF assms(1)] by auto
  then show ?thesis using assms(2) insertion_search_result [of 0 "int (length xs) - 1" xs "None # junk" s]
    by (auto simp: FindSortedInsertionPoint_def insertion_point_def)
qed

datatype list_op =
    AddOp "string option"
  | InsertOp int "string option"
  | AddNameValueOp "string option" "string option"
  | SetNameValueOp string "string option"
  | SortOp

fun apply_op :: "(string list \<Rightarrow> string list) \<Rightarrow> list_op \<Rightarrow> CPLStringList \<times> array_heap
    \<Rightarrow> (CPLStringList \<times> array_heap) option" where
  "apply_op qsort (AddOp s) (sl, h) = AddString sl h s"
| "apply_op qsort (InsertOp i s) (sl, h) = InsertString sl h i s"
| "apply_op qsort (AddNameValueOp k v) (sl, h) = AddNameValue sl h k v"
| "apply_op qsort (SetNameValueOp k v) (sl, h) = SetNameValue sl h (Some k) v"
| "apply_op qsort SortOp (sl, h) = Sort qsort sl h"

text \<open>The same operations on the lines and the flag \<open>bIsSorted\<close>.\<close>

definition add_name_value :: "string \<Rightarrow> string list \<times> bool \<Rightarrow> string list \<times> bool" where
  "add_name_value s l =
     (if snd l then (insert_line_at (insertion_point (fst l) s) s (fst l), True) else (fst l @ [s], False))"

fun spec_op :: "(string list \<Rightarrow> string list) \<Rightarrow> list_op \<Rightarrow> string list \<times> bool \<Rightarrow> string list \<times> bool" where
  "spec_op qsort (AddOp s) (xs, srt) = (xs @ [CPLStrdup s], False)"
| "spec_op qsort (InsertOp i s) (xs, srt) =
     (if i < 0 \<or> i > int (length xs) then (xs, srt) else (insert_line_at (nat i) (CPLStrdup s) xs, False))"
| "spec_op qsort (AddNameValueOp (Some k) (Some v)) (xs, srt) = add_name_value (k @ ''='' @ v) (xs, srt)"
| "spec_op qsort (AddNameValueOp _ _) (xs, srt) = (xs, srt)"
| "spec_op qsort (SetNameValueOp k v) (xs, srt) =
     (if find_line srt xs k = -1 then (case v of None \<Rightarrow> (xs, srt) | Some w \<Rightarrow> add_name_value (k @ ''='' @ w) (xs, srt))
      else
        (case v of
           None \<Rightarrow> (take (nat (find_line srt xs k)) xs @ drop (nat (find_line srt xs k) + 1) xs, srt)
         | Some w \<Rightarrow> (xs[nat (find_line srt xs k) := k @ ''='' @ w], srt)))"
| "spec_op qsort SortOp (xs, srt) = (qsort xs, True)"

text \<open>An operation from a state to a state: it stays inside the arrays, gives the lines and the flag, and keeps the
  arrays of others.\<close>

definition does :: "CPLStringList \<Rightarrow> array_heap \<Rightarrow> (CPLStringList \<times> array_heap) option \<Rightarrow> string list \<times> bool \<Rightarrow> bool" where
  "does sl h r l \<longleftrightarrow> (\<exists>sl' h'. r = Some (sl', h') \<and> sl_inv sl' h' (fst l) \<and> bIsSorted sl' = snd l \<and> keeps sl h sl' h')"

lemma does_AddStringDirectly: "sl_repr sl h xs \<Longrightarrow> does sl h (AddStringDirectly sl h s) (xs @ [s], False)"
  using repr_AddStringDirectly [of sl h xs s] by (auto simp: does_def sl_inv_def)

lemma does_InsertStringDirectly:
  "sl_inv sl h xs \<Longrightarrow> does sl h (InsertStringDirectly sl h i s)
     (if i < 0 \<or> i > int (length xs) then (xs, bIsSorted sl) else (insert_line_at (nat i) s xs, False))"
  using repr_InsertStringDirectly [of sl h xs i s]
  by (auto simp: does_def sl_inv_def insert_line_at_def split: if_splits)

lemma does_AddNameValue:
  assumes "sl_inv sl h xs"
  shows "does sl h (AddNameValue sl h (Some k) (Some v)) (add_name_value (k @ ''='' @ v) (xs, bIsSorted sl))"
proof -
  have r: "sl_repr sl h xs" using assms by (simp add: sl_inv_def)
  obtain sl1 h1 where s1: "MakeOurOwnCopy sl h = Some (sl1, h1)" "sl_repr sl1 h1 xs" "keeps sl h sl1 h1"
    "bIsSorted sl1 = bIsSorted sl" "nCount sl = int (length xs) \<longrightarrow> nCount sl1 = int (length xs)"
    using repr_MakeOurOwnCopy [OF r] by blast
  let ?s = "k @ ''='' @ v"
  show ?thesis
  proof (cases "bIsSorted sl")
    case False
    then show ?thesis using s1 does_AddStringDirectly [OF s1(2), of ?s] keeps_trans [OF s1(3)]
      by (auto simp: AddNameValue_def add_name_value_def does_def)
  next
    case True
    then have c: "nCount sl1 = int (length xs)" using s1(5) assms by (simp add: sl_inv_def)
    let ?i = "insertion_point xs ?s"
    have i: "FindSortedInsertionPoint sl1 h1 ?s = Some (int ?i)" "?i \<le> length xs"
      using repr_FindSortedInsertionPoint [OF s1(2) c] by blast+
    obtain sl2 h2 where s2: "InsertStringDirectly sl1 h1 (int ?i) ?s = Some (sl2, h2)" "keeps sl1 h1 sl2 h2"
      "sl_repr sl2 h2 (insert_line_at ?i ?s xs)" "nCount sl2 = int (length xs) + 1"
      using repr_InsertStringDirectly [OF s1(2), of "int ?i" ?s] i(2) by (auto simp: insert_line_at_def)
    have "AddNameValue sl h (Some k) (Some v) = Some (sl2\<lparr>bIsSorted := True\<rparr>, h2)"
      using True s1(1,4) i(1) s2(1) by (simp add: AddNameValue_def)
    moreover have "length (insert_line_at ?i ?s xs) = length xs + 1" using i(2) by (simp add: insert_line_at_def)
    ultimately show ?thesis using True s2 keeps_trans [OF s1(3) s2(2)]
      by (auto simp: does_def add_name_value_def sl_inv_def)
  qed
qed

lemma split_at: "k < length xs \<Longrightarrow> map Some xs @ rest = map Some (take k xs) @ Some (xs ! k) # map Some (drop (k + 1) xs) @ rest"
  by (metis Suc_eq_plus1 append.assoc append_Cons id_take_nth_drop list.simps(9) map_append)

lemma does_SetNameValue:
  assumes "sl_inv sl h xs"
  shows "does sl h (SetNameValue sl h (Some k) v) (spec_op qsort (SetNameValueOp k v) (xs, bIsSorted sl))"
proof (cases "find_line (bIsSorted sl) xs k = -1")
  case True
  have "AddNameValue sl h (Some k) None = Some (sl, h)" by (simp add: AddNameValue_def)
  then have "does sl h (AddNameValue sl h (Some k) None) (xs, bIsSorted sl)"
    using assms keeps_refl [of sl sl h] by (simp add: does_def)
  then show ?thesis using True repr_FindName [OF assms, of k] does_AddNameValue [OF assms, of k]
    by (auto simp: SetNameValue_def split: option.splits)
next
  case False
  define i where "i = nat (find_line (bIsSorted sl) xs k)"
  have i: "i < length xs" "find_line (bIsSorted sl) xs k = int i"
    using find_line_range [of "bIsSorted sl" xs k] False by (auto simp: i_def)
  have r: "sl_repr sl h xs" using assms by (simp add: sl_inv_def)
  obtain sl0 where s0: "Count sl h = Some sl0" "sl_repr sl0 h xs" "nCount sl0 = int (length xs)"
    "papszList sl0 = papszList sl" "bOwnList sl0 = bOwnList sl" "bIsSorted sl0 = bIsSorted sl"
    using sl_repr_count [OF r] by blast
  obtain sl1 h1 where s1: "MakeOurOwnCopy sl0 h = Some (sl1, h1)" "sl_repr sl1 h1 xs" "keeps sl0 h sl1 h1"
    "bOwnList sl1 \<or> papszList sl1 = None" "bIsSorted sl1 = bIsSorted sl0" "nCount sl1 = int (length xs)"
    using repr_MakeOurOwnCopy [OF s0(2)] s0(3) by blast
  from i(1) s1(2,4) obtain p junk where p: "papszList sl1 = Some p" "bOwnList sl1"
    "arrays h1 p = Some (map Some xs @ None # junk)" "nAllocation sl1 \<le> int (length xs) + 1 + int (length junk)"
    by (auto simp: sl_repr_def split: option.splits)
  have own: "own_list sl1 h1 p xs 0" using p s1(2,6) by (auto simp: own_list_def sl_repr_def)
  have k: "keeps sl h sl1 h1" using s1(3) owned_cong [OF s0(4,5)] by (simp add: keeps_def)
  let ?pre = "map Some (take i xs)" and ?post = "map Some (drop (i + 1) xs) @ None # junk"
  have a: "arrays h1 p = Some (?pre @ Some (xs ! i) # ?post)" using p(3) split_at [OF i(1)] by simp
  have lp: "int i = int (length ?pre)" using i(1) by simp
  have pre: "SetNameValue sl h (Some k) v = (case v of
      None \<Rightarrow> map_option (\<lambda>h'. (sl1\<lparr>nCount := nCount sl1 - 1\<rparr>, h')) (shift_down h1 (Some p) (int i))
    | Some w \<Rightarrow> map_option (\<lambda>h'. (sl1, h')) (store h1 (Some p) (int i) (Some (k @ ''='' @ w))))"
    using repr_FindName [OF assms, of k] i s0(1) s1(1) load_at [OF a lp] p(1)
    by (auto simp: SetNameValue_def map_conv_bind_option comp_def split: option.splits)
  show ?thesis
  proof (cases v)
    case None
    have "\<exists>junk'. remove_shift (length (?pre @ Some (xs ! i) # ?post)) (int i + 1) (int i) (?pre @ Some (xs ! i) # ?post)
        = Some (?pre @ map Some (drop (i + 1) xs) @ None # junk') \<and> length junk' = 1 + length junk"
      using remove_shift_junk [of "[Some (xs ! i)]" "drop (i + 1) xs"
          "length (?pre @ Some (xs ! i) # ?post)" ?pre junk] i(1)
      by (simp add: min_def add.commute [of "int i"] del: remove_shift.simps)
    then obtain junk' where j: "remove_shift (length (?pre @ Some (xs ! i) # ?post)) (int i + 1) (int i)
        (?pre @ Some (xs ! i) # ?post) = Some (?pre @ map Some (drop (i + 1) xs) @ None # junk')"
      "length junk' = 1 + length junk" by blast
    let ?xs = "take i xs @ drop (i + 1) xs" and ?sl = "sl1\<lparr>nCount := nCount sl1 - 1\<rparr>"
    let ?h = "h1\<lparr>arrays := (arrays h1)(p \<mapsto> map Some ?xs @ None # junk')\<rparr>"
    have "SetNameValue sl h (Some k) v = Some (?sl, ?h)"
      unfolding pre unfolding None using a j(1) by (simp add: shift_down_def del: remove_shift.simps)
    moreover have "keeps sl1 h1 ?sl ?h" "heap_ok ?h" by (rule own_list_write [OF own], simp add: owned_def)+
    moreover have "length ?xs = length xs - 1" using i(1) by simp
    ultimately show ?thesis
      using False None i j(2) p s0(6) s1(5,6) keeps_trans [OF k] by (auto simp: does_def sl_inv_def sl_repr_def)
  next
    case (Some w)
    let ?xs = "xs[i := k @ ''='' @ w]"
    let ?h = "h1\<lparr>arrays := (arrays h1)(p \<mapsto> map Some ?xs @ None # junk)\<rparr>"
    have "map Some ?xs = ?pre @ Some (k @ ''='' @ w) # map Some (drop (i + 1) xs)"
      using i(1) by (simp add: upd_conv_take_nth_drop)
    then have "SetNameValue sl h (Some k) v = Some (sl1, ?h)"
      unfolding pre unfolding Some using store_at [OF a lp] by simp
    moreover have "keeps sl1 h1 sl1 ?h" "heap_ok ?h" by (rule own_list_write [OF own], simp)+
    ultimately show ?thesis
      using False Some i p s0(6) s1(5,6) keeps_trans [OF k] by (auto simp: does_def sl_inv_def sl_repr_def)
  qed
qed

lemma list_of_take: "list_of (take (length xs) (map Some xs @ rest)) = xs \<and> None \<notin> set (take (length xs) (map Some xs @ rest))"
  by (simp add: take_map)

lemma does_Sort:
  assumes "sl_inv sl h xs" "\<And>ys. mset (qsort ys) = mset ys"
  shows "does sl h (Sort qsort sl h) (qsort xs, True)"
proof -
  have r: "sl_repr sl h xs" using assms by (simp add: sl_inv_def)
  have len: "length (qsort ys) = length ys" for ys using assms(2) by (metis size_mset)
  obtain sl0 where s0: "Count sl h = Some sl0" "sl_repr sl0 h xs" "nCount sl0 = int (length xs)"
    "papszList sl0 = papszList sl" "bOwnList sl0 = bOwnList sl" "bIsSorted sl0 = bIsSorted sl"
    using sl_repr_count [OF r] by blast
  obtain sl1 h1 where s1: "MakeOurOwnCopy sl0 h = Some (sl1, h1)" "sl_repr sl1 h1 xs" "keeps sl0 h sl1 h1"
    "bOwnList sl1 \<or> papszList sl1 = None" "nCount sl1 = int (length xs)"
    using repr_MakeOurOwnCopy [OF s0(2)] s0(3) by blast
  have k: "keeps sl h sl1 h1" using s1(3) owned_cong [OF s0(4,5)] by (simp add: keeps_def)
  show ?thesis
  proof (cases "papszList sl1")
    case None
    then have "xs = []" using s1(2) by (simp add: sl_repr_def)
    moreover have "qsort [] = []" using len [of "[]"] by simp
    moreover have "Sort qsort sl h = Some (sl1\<lparr>bIsSorted := True\<rparr>, h1)" using None s0(1) s1(1) by (simp add: Sort_def)
    ultimately show ?thesis using s1 k by (simp add: does_def sl_inv_def)
  next
    case (Some p)
    with s1(2,4) obtain junk where p: "bOwnList sl1" "arrays h1 p = Some (map Some xs @ None # junk)"
      "nAllocation sl1 \<le> int (length xs) + 1 + int (length junk)" by (auto simp: sl_repr_def)
    have own: "own_list sl1 h1 p xs 0" using Some p s1(2,5) by (auto simp: own_list_def sl_repr_def)
    let ?h = "h1\<lparr>arrays := (arrays h1)(p \<mapsto> map Some (qsort xs) @ None # junk)\<rparr>"
    have "Sort qsort sl h = Some (sl1\<lparr>bIsSorted := True\<rparr>, ?h)"
      using Some p(2) s0(1) s1(1,5) list_of_take [of xs "None # junk"] by (simp add: Sort_def Let_def)
    moreover have "keeps sl1 h1 sl1 ?h" "heap_ok ?h" by (rule own_list_write [OF own], simp)+
    ultimately show ?thesis using Some p s1(5) keeps_trans [OF k]
      by (auto simp: does_def sl_inv_def sl_repr_def len)
  qed
qed

lemma does_op:
  assumes "sl_inv sl h xs" "\<And>ys. mset (qsort ys) = mset ys"
  shows "does sl h (apply_op qsort op (sl, h)) (spec_op qsort op (xs, bIsSorted sl))"
proof (cases op)
  case (AddOp s)
  then show ?thesis using assms does_AddStringDirectly [of sl h xs] by (simp add: AddString_def sl_inv_def)
next
  case (InsertOp i s)
  then show ?thesis using does_InsertStringDirectly [OF assms(1), of i "CPLStrdup s"] by (simp add: InsertString_def)
next
  case (AddNameValueOp k v)
  show ?thesis
  proof (cases "k = None \<or> v = None")
    case True
    then have "AddNameValue sl h k v = Some (sl, h)" by (auto simp: AddNameValue_def split: option.splits)
    moreover have "spec_op qsort (AddNameValueOp k v) (xs, bIsSorted sl) = (xs, bIsSorted sl)"
      using True by (cases k; cases v) auto
    ultimately show ?thesis using AddNameValueOp assms(1) keeps_refl [of sl sl h] by (simp add: does_def)
  next
    case False
    then show ?thesis using AddNameValueOp does_AddNameValue [OF assms(1)] by auto
  qed
next
  case (SetNameValueOp k v)
  then show ?thesis using does_SetNameValue [OF assms(1), of k v qsort] by simp
next
  case SortOp
  then show ?thesis using does_Sort [OF assms] by simp
qed

text \<open>A sequence of operations.\<close>

fun apply_ops :: "(string list \<Rightarrow> string list) \<Rightarrow> list_op list \<Rightarrow> CPLStringList \<times> array_heap
    \<Rightarrow> (CPLStringList \<times> array_heap) option" where
  "apply_ops qsort [] st = Some st"
| "apply_ops qsort (op # ops) st = Option.bind (apply_op qsort op st) (apply_ops qsort ops)"

lemma does_ops:
  assumes "\<And>ys. mset (qsort ys) = mset ys"
  shows "sl_inv sl h xs \<Longrightarrow> does sl h (apply_ops qsort ops (sl, h)) (fold (spec_op qsort) ops (xs, bIsSorted sl))"
proof (induction ops arbitrary: sl h xs)
  case Nil
  then show ?case using keeps_refl [of sl sl h] by (simp add: does_def)
next
  case (Cons op ops)
  from does_op [OF Cons.prems assms, of op] obtain sl1 h1 where
    s1: "apply_op qsort op (sl, h) = Some (sl1, h1)" "sl_inv sl1 h1 (fst (spec_op qsort op (xs, bIsSorted sl)))"
    "bIsSorted sl1 = snd (spec_op qsort op (xs, bIsSorted sl))" "keeps sl h sl1 h1" by (auto simp: does_def)
  from Cons.IH [OF s1(2)] s1(1,3) keeps_trans [OF s1(4)] show ?case by (auto simp: does_def)
qed

text \<open>C27: Whatever the object was given, a list of its own, one of another owner or none, any sequence of additions,
  insertions, replacements, removals and sorts stays inside the allocated arrays, leaves the object with the
  lines the operations describe, and never changes or frees the array of another owner.\<close>

theorem string_list_ops_refine:
  assumes "sl_inv sl h xs" and "\<And>ys. mset (qsort ys) = mset ys"
  shows "\<exists>sl' h'. apply_ops qsort ops (sl, h) = Some (sl', h')
    \<and> (read_list h' (papszList sl') = Some (if papszList sl' = None then None
         else Some (fst (fold (spec_op qsort) ops (xs, bIsSorted sl)))))
    \<and> Count sl' h' \<noteq> None
    \<and> (\<forall>i \<ge> 0. i < int (length (fst (fold (spec_op qsort) ops (xs, bIsSorted sl)))) \<longrightarrow>
         entry_at sl' h' i = Some (Some (fst (fold (spec_op qsort) ops (xs, bIsSorted sl)) ! nat i)))
    \<and> (\<forall>p. arrays h p \<noteq> None \<and> owned sl \<noteq> Some p \<longrightarrow> arrays h' p = arrays h p)"
proof -
  let ?ys = "fst (fold (spec_op qsort) ops (xs, bIsSorted sl))"
  obtain sl' h' where s: "apply_ops qsort ops (sl, h) = Some (sl', h')" "sl_repr sl' h' ?ys" "keeps sl h sl' h'"
    using does_ops [OF assms(2,1), of ops] by (auto simp: does_def sl_inv_def)
  have "entry_at sl' h' i = Some (Some (?ys ! nat i))" if i: "0 \<le> i" "i < int (length ?ys)" for i
  proof -
    obtain sl0 where "(if nCount sl' = -1 then Count sl' h' else Some sl') = Some sl0" "nCount sl0 = int (length ?ys)"
      "papszList sl0 = papszList sl'" using sl_repr_counted [OF s(2)] by blast
    moreover obtain p junk where "papszList sl' = Some p" "arrays h' p = Some (map Some ?ys @ None # junk)"
      using s(2) i by (auto simp: sl_repr_def split: option.splits)
    ultimately show ?thesis using i rd_strings [OF i, of "None # junk"] by (simp add: entry_at_def load_def)
  qed
  then show ?thesis using s read_list_repr [OF s(2)] sl_repr_count [OF s(2)] by (auto simp: keeps_def)
qed

theorem string_list_ops_refine_witness:
  "\<exists>sl' h'. apply_ops id [SetNameValueOp ''A'' (Some ''2''), AddOp (Some ''B=3''), SetNameValueOp ''a'' None]
      (\<lparr>papszList = Some 0, nCount = -1, nAllocation = 0, bOwnList = False, bIsSorted = False\<rparr>,
       \<lparr>arrays = [0 \<mapsto> [Some ''A=1'', None]], next_array = 1\<rparr>) = Some (sl', h')
    \<and> arrays h' 0 = Some [Some ''A=1'', None] \<and> entry_at sl' h' 0 = Some (Some ''B=3'')"
proof -
  let ?sl = "\<lparr>papszList = Some 0, nCount = -1, nAllocation = 0, bOwnList = False, bIsSorted = False\<rparr>"
  let ?h = "\<lparr>arrays = [0 \<mapsto> [Some ''A=1'', None]], next_array = 1\<rparr>"
  let ?ops = "[SetNameValueOp ''A'' (Some ''2''), AddOp (Some ''B=3''), SetNameValueOp ''a'' None]"
  have i: "sl_inv ?sl ?h [''A=1'']" by (simp add: sl_inv_def sl_repr_def heap_ok_def)
  have m: "mset (id ys) = mset ys" for ys :: "string list" by simp
  let ?ys = "fst (fold (spec_op id) ?ops ([''A=1''], bIsSorted ?sl))"
  have f: "?ys = [''B=3'']" by code_simp
  obtain sl' h' where s: "apply_ops id ?ops (?sl, ?h) = Some (sl', h')"
    "\<forall>i \<ge> 0. i < int (length ?ys) \<longrightarrow> entry_at sl' h' i = Some (Some (?ys ! nat i))"
    "\<forall>p. arrays ?h p \<noteq> None \<and> owned ?sl \<noteq> Some p \<longrightarrow> arrays h' p = arrays ?h p"
    using string_list_ops_refine [OF i m, of ?ops] by blast
  have "owned ?sl \<noteq> Some 0" "arrays ?h 0 = Some [Some ''A=1'', None]" by (simp_all add: owned_def)
  then have "arrays h' 0 = Some [Some ''A=1'', None]" using s(3) by (metis option.distinct(1))
  moreover have "entry_at sl' h' 0 = Some (Some ''B=3'')" using s(2) unfolding f by simp
  ultimately show ?thesis using s(1) by (intro exI conjI)
qed

section \<open>Names and values of an unsorted object\<close>

lemma find_name_split:
  "find_name_loop es n i = -1 \<and> (\<forall>e \<in> set es. \<not> entry_match e n)
   \<or> (\<exists>pre e post. es = pre @ e # post \<and> (\<forall>d \<in> set pre. \<not> entry_match d n) \<and> entry_match e n
        \<and> find_name_loop es n i = i + int (length pre))"
proof (induction es arbitrary: i)
  case (Cons e es)
  show ?case
  proof (cases "entry_match e n")
    case True
    then show ?thesis by (intro disjI2 exI [of _ "[]"] exI [of _ e] exI [of _ es]) simp
  next
    case False
    from Cons [of "i + 1"] show ?thesis
    proof
      assume "\<exists>pre d post. es = pre @ d # post \<and> (\<forall>d \<in> set pre. \<not> entry_match d n) \<and> entry_match d n
        \<and> find_name_loop es n (i + 1) = i + 1 + int (length pre)"
      then obtain pre d post where "es = pre @ d # post" "\<forall>d \<in> set pre. \<not> entry_match d n" "entry_match d n"
        "find_name_loop es n (i + 1) = i + 1 + int (length pre)" by blast
      then show ?thesis using False by (intro disjI2 exI [of _ "e # pre"] exI [of _ d] exI [of _ post]) simp
    qed (use False in simp)
  qed
qed simp

lemma fetch_loop_append:
  "fetch_loop (xs @ ys) m = (case fetch_loop xs m of Some v \<Rightarrow> Some v | None \<Rightarrow> fetch_loop ys m)"
  by (induction xs) auto

lemma fetch_loop_none: "fetch_loop es n = None \<longleftrightarrow> (\<forall>e \<in> set es. \<not> entry_match e n)"
  by (induction es) auto

lemma repr_FetchNameValue_unsorted:
  assumes "sl_inv sl h xs" "\<not> bIsSorted sl"
  shows "FetchNameValue sl h n = Some (fetch_loop xs n)"
proof -
  have f: "FindName sl h (Some n) = Some (find_name_loop xs n 0)"
    using repr_FindName [OF assms(1), of n] assms(2) by (simp add: find_line_def)
  from find_name_split [of xs n 0] show ?thesis
  proof
    assume "find_name_loop xs n 0 = -1 \<and> (\<forall>e \<in> set xs. \<not> entry_match e n)"
    then show ?thesis using f fetch_loop_none [of xs n] by (simp add: FetchNameValue_def)
  next
    assume "\<exists>pre e post. xs = pre @ e # post \<and> (\<forall>d \<in> set pre. \<not> entry_match d n) \<and> entry_match e n
      \<and> find_name_loop xs n 0 = 0 + int (length pre)"
    then obtain pre e post where s: "xs = pre @ e # post" "\<forall>d \<in> set pre. \<not> entry_match d n" "entry_match e n"
      "find_name_loop xs n 0 = int (length pre)" by auto
    obtain p junk where p: "papszList sl = Some p" "arrays h p = Some (map Some xs @ None # junk)"
      using assms(1) s(1) by (auto simp: sl_inv_def sl_repr_def split: option.splits)
    then have "load h (Some p) (int (length pre)) = Some (Some e)"
      using s(1) load_at [of h p "map Some pre" "Some e"] by simp
    moreover have "fetch_loop xs n = Some (drop (length n + 1) e)"
      using s(1-3) fetch_loop_none [of pre n] by (simp add: fetch_loop_append)
    ultimately show ?thesis using f s(4) p(1) by (simp add: FetchNameValue_def)
  qed
qed

lemma spec_set_fetch:
  assumes "\<forall>s \<in> set xs. cstr s" "valid_name n" "cstr v"
  obtains ys where "spec_op q (SetNameValueOp n (Some v)) (xs, False) = (ys, False)" "\<forall>s \<in> set ys. cstr s"
    "\<And>m. valid_name m \<Longrightarrow> fetch_loop ys m = (if same_name m n then Some v else fetch_loop xs m)"
proof -
  let ?e = "n @ CHR ''='' # v"
  have sep: "is_sep CHR ''=''" "CHR ''='' \<noteq> NUL" by (simp_all add: is_sep_def)
  have ce: "cstr ?e" "cstr n" using assms(2,3) by (simp_all add: valid_name_def)
  have new: "fetch_loop (?e # es) m = (if same_name m n then Some v else fetch_loop es m)" if "valid_name m" for es m
    by (rule fetch_new_entry [OF assms(2) that assms(3) sep])
  have other: "fetch_loop es m = None" if "same_name m n" "valid_name m" "\<forall>d \<in> set es. cstr d \<and> \<not> entry_match d n" for es m
    unfolding fetch_loop_none using that entry_match_unique [OF _ that(2) assms(2)] same_name_sym by blast
  from find_name_split [of xs n 0] show ?thesis
  proof
    assume a: "find_name_loop xs n 0 = -1 \<and> (\<forall>e \<in> set xs. \<not> entry_match e n)"
    show ?thesis
    proof (rule that [of "xs @ [?e]"])
      show "spec_op q (SetNameValueOp n (Some v)) (xs, False) = (xs @ [?e], False)"
        using a by (simp add: find_line_def add_name_value_def)
      show "\<forall>s \<in> set (xs @ [?e]). cstr s" using assms(1) ce by simp
      show "fetch_loop (xs @ [?e]) m = (if same_name m n then Some v else fetch_loop xs m)" if "valid_name m" for m
        using new [OF that, of "[]"] other [OF _ that, of xs] a assms(1)
        by (auto simp: fetch_loop_append split: option.splits)
    qed
  next
    assume "\<exists>pre e post. xs = pre @ e # post \<and> (\<forall>d \<in> set pre. \<not> entry_match d n) \<and> entry_match e n
      \<and> find_name_loop xs n 0 = 0 + int (length pre)"
    then obtain pre e post where s: "xs = pre @ e # post" "\<forall>d \<in> set pre. \<not> entry_match d n" "entry_match e n"
      "find_name_loop xs n 0 = int (length pre)" by auto
    show ?thesis
    proof (rule that [of "pre @ ?e # post"])
      show "spec_op q (SetNameValueOp n (Some v)) (xs, False) = (pre @ ?e # post, False)"
        using s(1,4) by (simp add: find_line_def)
      show "\<forall>s \<in> set (pre @ ?e # post). cstr s" using assms(1) ce s(1) by simp
      show "fetch_loop (pre @ ?e # post) m = (if same_name m n then Some v else fetch_loop xs m)" if m: "valid_name m" for m
      proof -
        have "entry_match e m \<longleftrightarrow> same_name m n"
          using entry_match_unique [OF _ assms(2) m s(3)] assms(1) s(1) by simp
        moreover have "same_name m n \<longrightarrow> fetch_loop pre m = None"
          using other [OF _ m, of pre] s(1,2) assms(1) by simp
        ultimately show ?thesis
          using new [OF m, of post] by (auto simp: fetch_loop_append s(1) split: option.splits)
      qed
    qed
  qed
qed

text \<open>The object with its heap as a store of named values; \<open>None\<close> is an access outside an array.\<close>

definition object_ok :: "(CPLStringList \<times> array_heap) option \<Rightarrow> bool" where
  "object_ok l \<longleftrightarrow> (\<exists>sl h xs. l = Some (sl, h) \<and> sl_inv sl h xs \<and> \<not> bIsSorted sl \<and> (\<forall>s \<in> set xs. cstr s))"

definition object_fetch :: "(CPLStringList \<times> array_heap) option \<Rightarrow> string \<Rightarrow> string option" where
  "object_fetch l n = do { (sl, h) \<leftarrow> l; r \<leftarrow> FetchNameValue sl h n; r }"

definition object_set :: "(CPLStringList \<times> array_heap) option \<Rightarrow> string \<Rightarrow> string \<Rightarrow> (CPLStringList \<times> array_heap) option" where
  "object_set l n v = do { (sl, h) \<leftarrow> l; SetNameValue sl h (Some n) (Some v) }"

lemma object_set_result:
  assumes "sl_inv sl h xs" "\<not> bIsSorted sl" "\<forall>s \<in> set xs. cstr s" "valid_name n" "cstr v"
  obtains sl' h' ys where "object_set (Some (sl, h)) n v = Some (sl', h')" "sl_inv sl' h' ys" "\<not> bIsSorted sl'"
    "\<forall>s \<in> set ys. cstr s"
    "\<And>m. valid_name m \<Longrightarrow> fetch_loop ys m = (if same_name m n then Some v else fetch_loop xs m)"
proof -
  obtain ys where ys: "spec_op id (SetNameValueOp n (Some v)) (xs, False) = (ys, False)" "\<forall>s \<in> set ys. cstr s"
    "\<And>m. valid_name m \<Longrightarrow> fetch_loop ys m = (if same_name m n then Some v else fetch_loop xs m)"
    using spec_set_fetch [OF assms(3-5)] by metis
  have "does sl h (SetNameValue sl h (Some n) (Some v)) (ys, False)"
    using does_SetNameValue [OF assms(1), of n "Some v" id] ys(1) assms(2) by simp
  then show ?thesis using that ys(2,3) by (auto simp: does_def object_set_def)
qed

interpretation string_list: name_value_store object_ok object_fetch object_set
proof
  fix l n v assume "object_ok l" and n: "valid_name n" "cstr v"
  then obtain sl h xs where l: "l = Some (sl, h)" "sl_inv sl h xs" "\<not> bIsSorted sl" "\<forall>s \<in> set xs. cstr s"
    unfolding object_ok_def by blast
  obtain sl' h' ys where s: "object_set (Some (sl, h)) n v = Some (sl', h')" "sl_inv sl' h' ys" "\<not> bIsSorted sl'"
    "\<forall>s \<in> set ys. cstr s"
    and f: "\<And>m. valid_name m \<Longrightarrow> fetch_loop ys m = (if same_name m n then Some v else fetch_loop xs m)"
    using object_set_result [OF l(2-4) n] by metis
  show "object_ok (object_set l n v)" unfolding object_ok_def using s(1-4) l(1) by blast
  show "object_fetch (object_set l n v) m = (if same_name m n then Some v else object_fetch l m)"
    if "valid_name m" for m
    using s(1) f [OF that] l(1) repr_FetchNameValue_unsorted [OF s(2,3)] repr_FetchNameValue_unsorted [OF l(2,3)]
    by (simp add: object_fetch_def)
qed

text \<open>On an object that is not sorted, setting values for any names stays inside the arrays, and a name then has
  the value last set for it, in any case of letters, or else the value it had.\<close>

theorem string_list_fetch_after_sets:
  assumes "sl_inv sl h xs" and "\<not> bIsSorted sl" and "\<forall>s \<in> set xs. cstr s"
    and "\<forall>(n, v) \<in> set nvs. valid_name n \<and> cstr v" and "valid_name m"
  shows "\<exists>sl' h'. fold (\<lambda>(n, v) l. Option.bind l (\<lambda>(sl, h). SetNameValue sl h (Some n) (Some v))) nvs (Some (sl, h))
      = Some (sl', h')
    \<and> FetchNameValue sl' h' m = Some (case List.find (\<lambda>(n, v). same_name m n) (rev nvs) of
         Some (n, v) \<Rightarrow> Some v | None \<Rightarrow> fetch_loop xs m)"
proof -
  have "object_ok (Some (sl, h))" using assms(1-3) unfolding object_ok_def by blast
  note r = string_list.fetch_set_all [OF this assms(4,5), unfolded object_set_def]
  then obtain sl' h' xs' where s: "fold (\<lambda>(n, v) l. Option.bind l (\<lambda>(sl, h). SetNameValue sl h (Some n) (Some v))) nvs
      (Some (sl, h)) = Some (sl', h')" "sl_inv sl' h' xs'" "\<not> bIsSorted sl'"
    unfolding object_ok_def by blast
  have f: "object_fetch (Some (sl, h)) m = fetch_loop xs m"
    if "sl_inv sl h xs" "\<not> bIsSorted sl" for sl h xs
    using repr_FetchNameValue_unsorted [OF that, of m] by (simp add: object_fetch_def)
  from conjunct2 [OF r, unfolded s(1) f [OF assms(1,2)] f [OF s(2,3)]] show ?thesis
    using s(1) repr_FetchNameValue_unsorted [OF s(2,3), of m] by simp
qed

theorem string_list_fetch_after_sets_witness:
  "\<exists>sl' h'. SetNameValue Initialize \<lparr>arrays = Map.empty, next_array = 0\<rparr> (Some ''Name'') (Some ''1'') = Some (sl', h')
    \<and> FetchNameValue sl' h' ''NAME'' = Some (Some ''1'')"
proof -
  let ?h = "\<lparr>arrays = Map.empty, next_array = 0\<rparr> :: array_heap"
  have "sl_inv Initialize ?h []" by (simp add: sl_inv_def sl_repr_def heap_ok_def Initialize_def)
  moreover have "\<not> bIsSorted Initialize" by (simp add: Initialize_def)
  moreover have "valid_name ''Name''" "valid_name ''NAME''" "cstr ''1''" "same_name ''NAME'' ''Name''" by code_simp+
  ultimately show ?thesis
    using string_list_fetch_after_sets [of Initialize ?h "[]" "[(''Name'', ''1'')]" "''NAME''"] by simp
qed

section \<open>Sorted objects\<close>

text \<open>The order of \<^verbatim>\<open>STRCASECMP\<close> is the lexicographic order of the lower-cased codes.\<close>

definition lower :: "string \<Rightarrow> nat list" where
  "lower s = map (\<lambda>c. code (c_tolower c)) s"

lemma lower_simps [simp]: "lower [] = []" "lower (c # s) = code (c_tolower c) # lower s"
  "lower (s @ t) = lower s @ lower t"
  by (simp_all add: lower_def)

lemma code_inj: "code a = code b \<longleftrightarrow> a = b"
  using of_char_eq_iff [of a b, where ?'a = nat] .

lemma code_pos: "c \<noteq> NUL \<Longrightarrow> 0 < code (c_tolower c)"
  using code_eq_0 [of "c_tolower c"] c_tolower_NUL_iff [of c] by (metis gr0I)

lemma strcasecmp_less: "cstr a \<Longrightarrow> cstr b \<Longrightarrow> strcasecmp a b < 0 \<longleftrightarrow> lower a < lower b"
  by (induction a b rule: strcasecmp.induct) (auto simp: code_inj code_pos)

lemma lower_same_name: "lower a = lower b \<longleftrightarrow> same_name a b"
proof -
  have "lower s = map of_char (map c_tolower s)" for s by (simp add: lower_def)
  moreover have "inj (of_char :: char \<Rightarrow> nat)" by (auto intro: injI simp: code_inj)
  ultimately show ?thesis unfolding same_name_def by (metis inj_map_eq_map)
qed

definition sorted_lines :: "string list \<Rightarrow> bool" where
  "sorted_lines xs \<longleftrightarrow> sorted (map lower xs)"

lemma sorted_lines_nth: "sorted_lines xs \<Longrightarrow> i \<le> j \<Longrightarrow> j < length xs \<Longrightarrow> lower (xs ! i) \<le> lower (xs ! j)"
  using sorted_nth_mono [of "map lower xs" i j] by (simp add: sorted_lines_def)

lemma insertion_search_sorted:
  assumes "sorted_lines xs" "\<forall>s \<in> set xs. cstr s" "cstr n" "0 \<le> i" "i \<le> j + 1" "j < int (length xs)"
    "\<forall>k. int k < i \<longrightarrow> lower (xs ! k) \<le> lower n"
    "\<forall>k < length xs. j < int k \<longrightarrow> lower n < lower (xs ! k)"
  shows "\<exists>r. insertion_search (map Some xs) n i j = Some r \<and> 0 \<le> r \<and> r \<le> int (length xs)
    \<and> (\<forall>k. int k < r \<longrightarrow> lower (xs ! k) \<le> lower n) \<and> (\<forall>k < length xs. r \<le> int k \<longrightarrow> lower n < lower (xs ! k))"
  using assms(4-8)
proof (induction "nat (j - i + 1)" arbitrary: i j rule: less_induct)
  case less
  show ?case
  proof (cases "i \<le> j")
    case True
    let ?m = "(j + i) div 2"
    have m: "i \<le> ?m" "?m \<le> j" using middle_bounds [OF True] by auto
    have rd: "rd (map Some xs) ?m = Some (Some (xs ! nat ?m))"
      using m less.prems rd_strings [of ?m xs "[]"] by simp
    have ml: "nat ?m < length xs" using m less.prems by linarith
    have cmp: "strcasecmp n (xs ! nat ?m) < 0 \<longleftrightarrow> lower n < lower (xs ! nat ?m)"
      using ml assms(2,3) by (intro strcasecmp_less) auto
    show ?thesis
    proof (cases "lower n < lower (xs ! nat ?m)")
      case lt: True
      have "lower n < lower (xs ! k)" if "k < length xs" "?m - 1 < int k" for k
      proof -
        have "nat ?m \<le> k" using that(2) m(1) less.prems(1) by linarith
        then show ?thesis using lt sorted_lines_nth [OF assms(1) _ that(1)] less_le_trans by blast
      qed
      then have "\<exists>r. insertion_search (map Some xs) n i (?m - 1) = Some r \<and> 0 \<le> r \<and> r \<le> int (length xs)
        \<and> (\<forall>k. int k < r \<longrightarrow> lower (xs ! k) \<le> lower n) \<and> (\<forall>k < length xs. r \<le> int k \<longrightarrow> lower n < lower (xs ! k))"
        using less.prems m True by (intro less.hyps) auto
      then show ?thesis using True rd cmp lt by (simp add: insertion_search.simps [of _ n i j])
    next
      case ge: False
      have "lower (xs ! k) \<le> lower n" if "int k < ?m + 1" for k
      proof -
        have "k \<le> nat ?m" using that m(1) less.prems(1) by linarith
        then have "lower (xs ! k) \<le> lower (xs ! nat ?m)" by (rule sorted_lines_nth [OF assms(1) _ ml])
        also have "\<dots> \<le> lower n" using ge by simp
        finally show ?thesis .
      qed
      then have "\<exists>r. insertion_search (map Some xs) n (?m + 1) j = Some r \<and> 0 \<le> r \<and> r \<le> int (length xs)
        \<and> (\<forall>k. int k < r \<longrightarrow> lower (xs ! k) \<le> lower n) \<and> (\<forall>k < length xs. r \<le> int k \<longrightarrow> lower n < lower (xs ! k))"
        using less.prems m True by (intro less.hyps) auto
      then show ?thesis using True rd cmp ge by (simp add: insertion_search.simps [of _ n i j])
    qed
  next
    case False
    then have "i = j + 1" using less.prems(2) by simp
    then show ?thesis using False less.prems by (simp add: insertion_search.simps [of _ n i j])
  qed
qed

lemma insertion_point_sorted:
  assumes "sorted_lines xs" "\<forall>s \<in> set xs. cstr s" "cstr n"
  shows "sorted_lines (insert_line_at (insertion_point xs n) n xs)"
proof -
  obtain r where r: "insertion_search (map Some xs) n 0 (int (length xs) - 1) = Some r" "0 \<le> r" "r \<le> int (length xs)"
    "\<forall>k. int k < r \<longrightarrow> lower (xs ! k) \<le> lower n" "\<forall>k < length xs. r \<le> int k \<longrightarrow> lower n < lower (xs ! k)"
    using insertion_search_sorted [OF assms, of 0 "int (length xs) - 1"] by auto
  define i where "i = nat r"
  have i: "insertion_point xs n = i" "i \<le> length xs" using r(1-3) by (simp_all add: insertion_point_def i_def)
  have "lower s \<le> lower n" if "s \<in> set (take i xs)" for s
    using that r(2,4) i(2) by (auto simp: in_set_conv_nth i_def)
  moreover have "lower n \<le> lower s" if s: "s \<in> set (drop i xs)" for s
  proof -
    obtain k where "k < length xs - i" "s = xs ! (i + k)" using s i(2) by (auto simp: in_set_conv_nth)
    then show ?thesis using r(2,5) by (simp add: i_def less_imp_le)
  qed
  moreover have "lower s \<le> lower t" if "s \<in> set (take i xs)" "t \<in> set (drop i xs)" for s t
    using calculation that order_trans by blast
  moreover have "sorted (map lower (take i xs))" "sorted (map lower (drop i xs))"
    using assms(1) by (simp_all add: sorted_lines_def take_map [symmetric] drop_map [symmetric] sorted_wrt_take sorted_wrt_drop)
  ultimately show ?thesis by (auto simp: sorted_lines_def insert_line_at_def i(1) sorted_append)
qed

text \<open>An entry whose text goes on, after the name, with a character that sorts before a separator.\<close>

definition clashes :: "string \<Rightarrow> string \<Rightarrow> bool" where
  "clashes e n \<longleftrightarrow> length n < length e \<and> same_name (take (length n) e) n
     \<and> \<not> is_sep (e ! length n) \<and> code (e ! length n) < code CHR ''=''"

lemma lower_take: "lower (take k s) = take k (lower s)"
  by (simp add: lower_def take_map)

lemma entry_match_lower:
  assumes "entry_match e n" "cstr e" "cstr n"
  obtains x r where "lower e = lower n @ x # r" "x \<le> code CHR ''=''" "x = 58 \<or> x = 61"
proof -
  obtain k c r where e: "e = k @ c # r" "is_sep c" "same_name k n" using assms entry_match_split by blast
  then have c: "c = CHR ''='' \<or> c = CHR '':''" by (auto simp: is_sep_def)
  moreover have "c_tolower c = c" using c by (auto simp: c_tolower_def c_isupper_def)
  ultimately have "lower e = lower n @ code c # lower r" "code c \<le> code CHR ''=''" "code c = 58 \<or> code c = 61"
    using e(1,3) lower_same_name [of k n] by auto
  then show ?thesis by (rule that)
qed

lemma prefix_between:
  fixes a b c :: "nat list"
  assumes "a \<le> b" "b \<le> a @ x # r"
  shows "b = a \<or> (\<exists>y t. b = a @ y # t \<and> y \<le> x)"
  using assms
proof (induction a arbitrary: b)
  case Nil
  then show ?case by (cases b) auto
next
  case (Cons z a)
  then obtain t where "b = z # t" "a \<le> t" "t \<le> a @ x # r" by (cases b) auto
  then show ?case using Cons.IH by auto
qed

text \<open>Before an entry for the name there is, above the name, only an entry for it or one that clashes.\<close>

lemma between_clashes:
  assumes "cstr e" "cstr d" "cstr n" "entry_match e n" "lower n < lower d" "lower d \<le> lower e"
  shows "entry_match d n \<or> clashes d n"
proof -
  obtain x r where e: "lower e = lower n @ x # r" "x = 58 \<or> x = 61"
    using entry_match_lower [OF assms(4,1,3)] by metis
  then obtain y t where d: "lower d = lower n @ y # t" "y \<le> x"
    using prefix_between [OF less_imp_le [OF assms(5)], of x r] assms(5,6) by auto
  have ll: "length (lower s) = length s" for s by (simp add: lower_def)
  have len: "length n < length d" using arg_cong [OF d(1), of length] by (simp add: ll)
  have "lower (take (length n) d) = lower n" unfolding lower_take d(1) by (simp add: ll)
  then have s: "same_name (take (length n) d) n" by (simp add: lower_same_name)
  have y: "y = code (c_tolower (d ! length n))"
  proof -
    have "y = lower d ! length n" unfolding d(1) by (simp add: nth_append ll)
    then show ?thesis using len by (simp add: lower_def)
  qed
  then have "y = code (d ! length n)" using d(2) e(2) by (auto simp: c_tolower_def c_isupper_def split: if_splits)
  then have "code (d ! length n) \<le> 61" using d(2) e(2) by auto
  show ?thesis
  proof (cases "is_sep (d ! length n)")
    case True
    have "d = take (length n) d @ d ! length n # drop (Suc (length n)) d"
      using id_take_nth_drop [OF len] .
    then show ?thesis using True s entry_match_split [OF assms(2,3)] by blast
  next
    case False
    have "d ! length n \<noteq> CHR ''=''" using False by (auto simp: is_sep_def)
    then have "code (d ! length n) \<noteq> code CHR ''=''" by (simp only: code_inj not_False_eq_True)
    then have "code (d ! length n) < code CHR ''=''" using \<open>code (d ! length n) \<le> 61\<close> by simp
    then show ?thesis using False s len by (simp add: clashes_def)
  qed
qed

lemma less_append_Cons: "a < a @ x # (r :: nat list)"
  by (induction a) simp_all

lemma above_name: "entry_match e n \<Longrightarrow> cstr e \<Longrightarrow> cstr n \<Longrightarrow> lower n < lower e"
  using less_append_Cons by (metis entry_match_lower)

lemma name_search_sorted:
  assumes "sorted_lines xs" "\<forall>s \<in> set xs. cstr s \<and> \<not> clashes s n" "cstr n" "0 \<le> i" "i \<le> j + 1" "j < int (length xs)"
    "\<forall>k < length xs. entry_match (xs ! k) n \<longrightarrow> i \<le> int k \<and> int k \<le> j"
  shows "\<exists>r. name_search (map Some xs) n i j = Some r \<and> (r = -1 \<longleftrightarrow> (\<forall>s \<in> set xs. \<not> entry_match s n))"
  using assms(4-7)
proof (induction "nat (j - i + 1)" arbitrary: i j rule: less_induct)
  case less
  show ?case
  proof (cases "i \<le> j")
    case False
    then have "\<not> entry_match s n" if "s \<in> set xs" for s
      using that less.prems(4) unfolding in_set_conv_nth by force
    then show ?thesis using False by (simp add: name_search.simps [of _ n i j])
  next
    case True
    let ?m = "(j + i) div 2"
    have m: "i \<le> ?m" "?m \<le> j" using middle_bounds [OF True] by auto
    have rd: "rd (map Some xs) ?m = Some (Some (xs ! nat ?m))"
      using m less.prems rd_strings [of ?m xs "[]"] by simp
    have ml: "nat ?m < length xs" using m less.prems by linarith
    then have mem: "xs ! nat ?m \<in> set xs" "cstr (xs ! nat ?m)" "\<not> clashes (xs ! nat ?m) n" using assms(2) by auto
    have cmp: "strcasecmp n (xs ! nat ?m) < 0 \<longleftrightarrow> lower n < lower (xs ! nat ?m)"
      by (rule strcasecmp_less [OF assms(3) mem(2)])
    consider "entry_match (xs ! nat ?m) n" | "\<not> entry_match (xs ! nat ?m) n" "lower n < lower (xs ! nat ?m)"
      | "\<not> entry_match (xs ! nat ?m) n" "\<not> lower n < lower (xs ! nat ?m)" by blast
    then show ?thesis
    proof cases
      case 1
      then show ?thesis using True rd m less.prems mem(1) by (auto simp: name_search.simps [of _ n i j])
    next
      case 2
      have "i \<le> int k \<and> int k \<le> ?m - 1" if k: "k < length xs" "entry_match (xs ! k) n" for k
      proof (rule ccontr)
        assume "\<not> (i \<le> int k \<and> int k \<le> ?m - 1)"
        then have "nat ?m \<le> k" using less.prems(4) k by (meson nat_le_iff zle_diff1_eq not_le)
        then have "lower (xs ! nat ?m) \<le> lower (xs ! k)" using sorted_lines_nth [OF assms(1)] k(1) by blast
        moreover have "cstr (xs ! k)" using assms(2) k(1) by simp
        ultimately show False using between_clashes [OF _ mem(2) assms(3) k(2) 2(2)] 2(1) mem(3) by blast
      qed
      then have "\<exists>r. name_search (map Some xs) n i (?m - 1) = Some r \<and> (r = -1 \<longleftrightarrow> (\<forall>s \<in> set xs. \<not> entry_match s n))"
        using less.prems m True by (intro less.hyps) auto
      then show ?thesis using True rd cmp 2 by (simp add: name_search.simps [of _ n i j])
    next
      case 3
      have "?m + 1 \<le> int k \<and> int k \<le> j" if k: "k < length xs" "entry_match (xs ! k) n" for k
      proof (rule ccontr)
        assume "\<not> (?m + 1 \<le> int k \<and> int k \<le> j)"
        then have "k \<le> nat ?m" using less.prems(1,4) k m(1) by force
        then have "lower (xs ! k) \<le> lower (xs ! nat ?m)" by (rule sorted_lines_nth [OF assms(1) _ ml])
        also have "\<dots> \<le> lower n" using 3(2) by simp
        finally show False using above_name [OF k(2) _ assms(3)] assms(2) k(1) by fastforce
      qed
      then have "\<exists>r. name_search (map Some xs) n (?m + 1) j = Some r \<and> (r = -1 \<longleftrightarrow> (\<forall>s \<in> set xs. \<not> entry_match s n))"
        using less.prems m True by (intro less.hyps) auto
      then show ?thesis using True rd cmp 3 by (simp add: name_search.simps [of _ n i j])
    qed
  qed
qed

lemma mset_take_drop: "mset (take i xs) + mset (drop i xs) = mset xs"
  using arg_cong [OF append_take_drop_id [of i xs], of mset] by (simp only: mset_append)

lemma find_line_sorted:
  assumes "sorted_lines xs" "\<forall>s \<in> set xs. cstr s \<and> \<not> clashes s n" "cstr n"
  shows "find_line True xs n = -1 \<longleftrightarrow> (\<forall>s \<in> set xs. \<not> entry_match s n)"
  using name_search_sorted [OF assms, of 0 "int (length xs) - 1"] by (auto simp: find_line_def)

lemma repr_FetchNameValue:
  assumes "sl_inv sl h xs"
  shows "FetchNameValue sl h n = Some (if find_line (bIsSorted sl) xs n = -1 then None
    else Some (drop (length n + 1) (xs ! nat (find_line (bIsSorted sl) xs n))))"
proof (cases "find_line (bIsSorted sl) xs n = -1")
  case False
  define k where "k = nat (find_line (bIsSorted sl) xs n)"
  have k: "k < length xs" "find_line (bIsSorted sl) xs n = int k"
    using find_line_range [of "bIsSorted sl" xs n] False by (auto simp: k_def)
  then obtain p junk where "papszList sl = Some p" "arrays h p = Some (map Some xs @ None # junk)"
    using assms by (auto simp: sl_inv_def sl_repr_def split: option.splits)
  then have "load h (papszList sl) (int k) = Some (Some (xs ! k))"
    using k(1) rd_strings [of "int k" xs] by (simp add: load_def)
  then show ?thesis using False k(2) repr_FindName [OF assms, of n] by (simp add: FetchNameValue_def)
qed (simp add: FetchNameValue_def repr_FindName [OF assms])

text \<open>C28: Adding a name to a sorted object keeps it sorted and only adds the line; a name is found in a sorted
  object exactly when an entry has it, and its value is that of such an entry, as long as no entry continues
  the name with a character that sorts before the separators.\<close>

theorem string_list_sorted_lookup:
  assumes "sl_inv sl h xs" and "bIsSorted sl" and "sorted_lines xs" and "\<forall>s \<in> set xs. cstr s"
    and "cstr n" and "cstr k" and "cstr v" and "\<forall>s \<in> set xs. \<not> clashes s n"
  shows "(\<exists>r. FetchNameValue sl h n = Some r
      \<and> (r = None \<longleftrightarrow> (\<forall>s \<in> set xs. \<not> entry_match s n))
      \<and> (\<forall>w. r = Some w \<longrightarrow> (\<exists>s \<in> set xs. entry_match s n \<and> w = drop (length n + 1) s)))
    \<and> (\<exists>sl' h' ys. AddNameValue sl h (Some k) (Some v) = Some (sl', h') \<and> sl_inv sl' h' ys \<and> bIsSorted sl'
      \<and> sorted_lines ys \<and> mset ys = add_mset (k @ ''='' @ v) (mset xs))"
proof
  let ?f = "find_line True xs n"
  have f: "?f = -1 \<longleftrightarrow> (\<forall>s \<in> set xs. \<not> entry_match s n)"
    using assms(3,4,5,8) by (intro find_line_sorted) auto
  have "?f \<noteq> -1 \<longrightarrow> xs ! nat ?f \<in> set xs \<and> entry_match (xs ! nat ?f) n"
    using find_line_range [of True xs n] by (auto simp: nat_less_iff)
  then show "\<exists>r. FetchNameValue sl h n = Some r
      \<and> (r = None \<longleftrightarrow> (\<forall>s \<in> set xs. \<not> entry_match s n))
      \<and> (\<forall>w. r = Some w \<longrightarrow> (\<exists>s \<in> set xs. entry_match s n \<and> w = drop (length n + 1) s))"
    using f repr_FetchNameValue [OF assms(1), of n] assms(2) by (cases "?f = -1") auto
next
  let ?s = "k @ ''='' @ v" and ?i = "insertion_point xs (k @ ''='' @ v)"
  have "cstr ?s" using assms(6,7) by simp
  then have "sorted_lines (insert_line_at ?i ?s xs)" by (rule insertion_point_sorted [OF assms(3,4)])
  moreover have "mset (insert_line_at ?i ?s xs) = add_mset ?s (mset xs)"
    by (simp only: insert_line_at_def mset_append mset.simps union_mset_add_mset_left union_mset_add_mset_right
        add_0_left add_0_right flip: mset_take_drop [of ?i xs])
  ultimately show "\<exists>sl' h' ys. AddNameValue sl h (Some k) (Some v) = Some (sl', h') \<and> sl_inv sl' h' ys \<and> bIsSorted sl'
      \<and> sorted_lines ys \<and> mset ys = add_mset (k @ ''='' @ v) (mset xs)"
    using does_AddNameValue [OF assms(1), of k v] assms(2) by (auto simp: does_def add_name_value_def)
qed

text \<open>A sorted object that owns its lines, and its heap.\<close>

definition sorted_object :: "string list \<Rightarrow> CPLStringList \<times> array_heap" where
  "sorted_object xs =
     (\<lparr>papszList = Some 0, nCount = int (length xs), nAllocation = int (length xs) + 1, bOwnList = True, bIsSorted = True\<rparr>,
      \<lparr>arrays = [0 \<mapsto> map Some xs @ [None]], next_array = 1\<rparr>)"

lemma sorted_object_inv: "sl_inv (fst (sorted_object xs)) (snd (sorted_object xs)) xs \<and> bIsSorted (fst (sorted_object xs))"
  by (simp add: sorted_object_def sl_inv_def sl_repr_def heap_ok_def)

theorem string_list_sorted_lookup_witness:
  "\<exists>r. FetchNameValue (fst (sorted_object [''A=1'', ''B=2''])) (snd (sorted_object [''A=1'', ''B=2''])) ''b'' = Some r
    \<and> r \<noteq> None"
proof -
  have h: "\<forall>s \<in> set [''A=1'', ''B=2'']. cstr s" "cstr ''b''" "cstr ''K''" "cstr ''V''"
    "\<forall>s \<in> set [''A=1'', ''B=2'']. \<not> clashes s ''b''"
    "entry_match ''B=2'' ''b''" by code_simp+
  have so: "sorted_lines [''A=1'', ''B=2'']" by (simp add: sorted_lines_def c_tolower_def c_isupper_def)
  have "sl_inv (fst (sorted_object [''A=1'', ''B=2''])) (snd (sorted_object [''A=1'', ''B=2''])) [''A=1'', ''B=2'']"
    "bIsSorted (fst (sorted_object [''A=1'', ''B=2'']))" using sorted_object_inv by blast+
  from string_list_sorted_lookup [OF this so h(1-5)] obtain r where
    r: "FetchNameValue (fst (sorted_object [''A=1'', ''B=2''])) (snd (sorted_object [''A=1'', ''B=2''])) ''b'' = Some r"
      "r = None \<longleftrightarrow> (\<forall>s \<in> set [''A=1'', ''B=2'']. \<not> entry_match s ''b'')" by blast
  then have "r \<noteq> None" using h(6) by auto
  then show ?thesis using r(1) by blast
qed

lemma less_after_prefix: "x < y \<Longrightarrow> p @ x # r < p @ y # (t :: nat list)"
  by (induction p) simp_all

text \<open>C29: A sorted object with two lines, one that continues the name with a digit or another character below the
  separators and after it the entry for the name, does not find the name, although the search in an unsorted list does:
  the binary search goes to the wrong side.\<close>

theorem string_list_sorted_lookup_misses:
  assumes "valid_name n" and "c \<noteq> NUL" and "code c < 58" and "cstr s" and "cstr v"
  shows "sorted_lines [n @ c # s, n @ CHR ''='' # v]
    \<and> FetchNameValue (fst (sorted_object [n @ c # s, n @ CHR ''='' # v]))
        (snd (sorted_object [n @ c # s, n @ CHR ''='' # v])) n = Some None
    \<and> CSLFetchNameValue (Some [n @ c # s, n @ CHR ''='' # v]) (Some n) = Some v"
proof -
  let ?a = "n @ c # s" and ?b = "n @ CHR ''='' # v"
  have n: "cstr n" using assms(1) by (simp add: valid_name_def)
  have c: "c_tolower c = c" using assms(3) by (simp add: c_tolower_def c_isupper_def)
  have la: "lower ?a = lower n @ code c # lower s" by (simp add: c)
  have lb: "lower ?b = lower n @ 61 # lower v" by (simp add: c_tolower_def c_isupper_def)
  have "lower n @ code c # r < lower n @ 61 # t" for r t
    using less_after_prefix [of "code c" 61 "lower n" r t] assms(3) by simp
  from less_imp_le [OF this] have "lower ?a \<le> lower ?b" unfolding la lb .
  then have 1: "sorted_lines [?a, ?b]" by (simp only: sorted_lines_def list.map sorted2 sorted1 simp_thms)
  have "c \<noteq> CHR ''=''" "c \<noteq> CHR '':''" using assms(3) by auto
  then have ma: "\<not> entry_match ?a n" by (simp add: entry_match_def char_at_def nth_append)
  have mb: "entry_match ?b n"
    using n assms(5) by (intro iffD2 [OF entry_match_split]) (auto simp: is_sep_def intro: same_name_refl)
  have "cstr ?a" using n assms(2,4) by simp
  from strcasecmp_less [OF n this] have "strcasecmp n ?a < 0" unfolding la using less_append_Cons by blast
  then have "name_search (map Some [?a, ?b]) n 0 1 = name_search (map Some [?a, ?b]) n 0 (-1)"
    using ma by (simp add: name_search.simps [of _ n 0 1] rd_def)
  also have "\<dots> = Some (-1)" by (simp add: name_search.simps [of _ n 0 "-1"])
  finally have "name_search (map Some [?a, ?b]) n 0 1 = Some (-1)" .
  then have "find_line True [?a, ?b] n = -1" by (simp add: find_line_def)
  then have 2: "FetchNameValue (fst (sorted_object [?a, ?b])) (snd (sorted_object [?a, ?b])) n = Some None"
    using repr_FetchNameValue [of "fst (sorted_object [?a, ?b])" "snd (sorted_object [?a, ?b])" "[?a, ?b]" n]
      sorted_object_inv [of "[?a, ?b]"] by simp
  have "CSLFetchNameValue (Some [?a, ?b]) (Some n) = Some v"
    using ma mb by (simp add: CSLFetchNameValue_def)
  then show ?thesis using 1 2 by blast
qed

theorem string_list_sorted_lookup_misses_witness:
  "FetchNameValue (fst (sorted_object [''NAME1=a'', ''NAME=b''])) (snd (sorted_object [''NAME1=a'', ''NAME=b''])) ''NAME''
    = Some None"
proof -
  have "valid_name ''NAME''" by code_simp
  then show ?thesis using string_list_sorted_lookup_misses [of "''NAME''" "CHR ''1''" "''=a''" "''b''"] by simp
qed

end
