(* ===== verification/Cpl_Path.thy ===== *)
theory Cpl_Path
  imports Cpl_Escape Csl_Strings
begin

text \<open>
  \<^verbatim>\<open>port/cpl_path.cpp\<close> on a POSIX system: taking file names apart and putting them together. Most functions
  return a pointer into one of ten buffers of 2048 bytes that are used in turn (per thread); the ring of
  buffers is the state of this component and a result is the number of its buffer, or the argument itself.
  Writing outside a buffer is the value \<open>None\<close>. The arguments are values: the assertions of the code demand that
  they are not in the buffer that the call writes to. \<^verbatim>\<open>CPLError\<close> messages are left out; the file system (which
  files exist, and whether names are case sensitive), the configuration options and the process id are
  parameters.
\<close>

section \<open>The ring of result buffers\<close>

definition CPL_PATH_BUF_SIZE :: nat where "CPL_PATH_BUF_SIZE = 2048"

definition CPL_PATH_BUF_COUNT :: nat where "CPL_PATH_BUF_COUNT = 10"

record path_ring =
  bufs :: "string list"
  bufIndex :: nat

definition new_ring :: path_ring where
  "new_ring = \<lparr>bufs = replicate CPL_PATH_BUF_COUNT (replicate CPL_PATH_BUF_SIZE NUL), bufIndex = 0\<rparr>"

definition CPLGetStaticResult :: "path_ring \<Rightarrow> path_ring \<times> nat" where
  "CPLGetStaticResult r = (r\<lparr>bufIndex := (bufIndex r + 1) mod CPL_PATH_BUF_COUNT\<rparr>, bufIndex r)"

text \<open>A function that asks for a buffer and fills it: \<open>f\<close> maps the old contents to the new.\<close>

definition static_call :: "path_ring \<Rightarrow> (string \<Rightarrow> string option) \<Rightarrow> (path_ring \<times> nat) option" where
  "static_call r f =
     (let (r, k) = CPLGetStaticResult r
      in map_option (\<lambda>buf. (r\<lparr>bufs := (bufs r)[k := buf]\<rparr>, k)) (f (bufs r ! k)))"

definition strcpy_to :: "string \<Rightarrow> string \<Rightarrow> string option" where
  "strcpy_to buf s = (if length s < length buf then Some (s @ NUL # drop (length s + 1) buf) else None)"

definition CPLStaticBufferTooSmall :: "string \<Rightarrow> string option" where
  "CPLStaticBufferTooSmall buf = strcpy_to buf ''''"

text \<open>The string in a result buffer.\<close>

definition path_value :: "path_ring \<Rightarrow> nat \<Rightarrow> string" where
  "path_value r k = c_string (bufs r ! k)"

section \<open>Taking names apart\<close>

definition slash :: "char \<Rightarrow> bool" where
  "slash c \<longleftrightarrow> c = CHR ''/'' \<or> c = bslash"

text \<open>The loop of \<^verbatim>\<open>CPLFindFilenameStart\<close> from index \<open>iFileStart\<close>.\<close>

fun filename_start_loop :: "string \<Rightarrow> nat \<Rightarrow> nat" where
  "filename_start_loop s 0 = 0"
| "filename_start_loop s (Suc i) = (if \<not> slash (s ! i) then filename_start_loop s i else Suc i)"

definition CPLFindFilenameStart :: "string \<Rightarrow> nat" where
  "CPLFindFilenameStart s = filename_start_loop s (length s)"

definition CPLGetPath :: "path_ring \<Rightarrow> string \<Rightarrow> (path_ring \<times> nat) option" where
  "CPLGetPath r pszFilename = static_call r (\<lambda>buf.
     let iFileStart = CPLFindFilenameStart pszFilename in
     if iFileStart \<ge> CPL_PATH_BUF_SIZE then CPLStaticBufferTooSmall buf
     else if iFileStart = 0 then strcpy_to buf ''''
     else do {
       (buf, _) \<leftarrow> CPLStrlcpy buf 0 pszFilename (iFileStart + 1);
       Some (if iFileStart > 1 \<and> slash (buf ! (iFileStart - 1)) then buf[iFileStart - 1 := NUL] else buf)
     })"

definition CPLGetDirname :: "path_ring \<Rightarrow> string \<Rightarrow> (path_ring \<times> nat) option" where
  "CPLGetDirname r pszFilename = static_call r (\<lambda>buf.
     let iFileStart = CPLFindFilenameStart pszFilename in
     if iFileStart \<ge> CPL_PATH_BUF_SIZE then CPLStaticBufferTooSmall buf
     else if iFileStart = 0 then strcpy_to buf ''.''
     else do {
       (buf, _) \<leftarrow> CPLStrlcpy buf 0 pszFilename (iFileStart + 1);
       Some (if iFileStart > 1 \<and> slash (buf ! (iFileStart - 1)) then buf[iFileStart - 1 := NUL] else buf)
     })"

definition CPLGetFilename :: "string \<Rightarrow> string" where
  "CPLGetFilename s = drop (CPLFindFilenameStart s) s"

text \<open>The loop that looks for the last dot, from index \<open>iExtStart\<close> down to \<open>iFileStart\<close>.\<close>

fun ext_start_loop :: "string \<Rightarrow> nat \<Rightarrow> nat \<Rightarrow> nat" where
  "ext_start_loop s iFileStart 0 = 0"
| "ext_start_loop s iFileStart (Suc i) =
     (if Suc i > iFileStart \<and> char_at s (Suc i) \<noteq> CHR ''.'' then ext_start_loop s iFileStart i else Suc i)"

definition CPLGetBasename :: "path_ring \<Rightarrow> string \<Rightarrow> (path_ring \<times> nat) option" where
  "CPLGetBasename r s = static_call r (\<lambda>buf.
     let iFileStart = CPLFindFilenameStart s;
         iExtStart = ext_start_loop s iFileStart (length s);
         iExtStart = (if iExtStart = iFileStart then length s else iExtStart);
         nLength = iExtStart - iFileStart in
     if nLength \<ge> CPL_PATH_BUF_SIZE then CPLStaticBufferTooSmall buf
     else map_option fst (CPLStrlcpy buf 0 (drop iFileStart s) (nLength + 1)))"

text \<open>Without an extension the copy starts at the terminating NUL.\<close>

definition CPLGetExtension :: "path_ring \<Rightarrow> string \<Rightarrow> (path_ring \<times> nat) option" where
  "CPLGetExtension r s = static_call r (\<lambda>buf.
     let iFileStart = CPLFindFilenameStart s;
         iExtStart = ext_start_loop s iFileStart (length s);
         from_ext = (if iExtStart = iFileStart then length s else iExtStart + 1) in
     do {
       (buf, n) \<leftarrow> CPLStrlcpy buf 0 (drop from_ext s) CPL_PATH_BUF_SIZE;
       if n \<ge> CPL_PATH_BUF_SIZE then CPLStaticBufferTooSmall buf else Some buf
     })"

section \<open>Putting names together\<close>

text \<open>The loop that strips an extension, from index \<open>i\<close> down to 1.\<close>

fun strip_ext_loop :: "string \<Rightarrow> nat \<Rightarrow> string" where
  "strip_ext_loop buf 0 = buf"
| "strip_ext_loop buf (Suc i) =
     (if buf ! Suc i = CHR ''.'' then buf[Suc i := NUL]
      else if slash (buf ! Suc i) \<or> buf ! Suc i = CHR '':'' then buf
      else strip_ext_loop buf i)"

text \<open>\<open>CPLStrlcat( pszStaticResult, s, CPL_PATH_BUF_SIZE)\<close> for a sequence of strings, up to the first that does
  not fit (\<open>Inl\<close>).\<close>

fun append_all :: "string \<Rightarrow> string list \<Rightarrow> (string + string) option" where
  "append_all buf [] = Some (Inr buf)"
| "append_all buf (s # ss) =
     (case CPLStrlcat buf s CPL_PATH_BUF_SIZE of None \<Rightarrow> None
      | Some (buf, n) \<Rightarrow> if n \<ge> CPL_PATH_BUF_SIZE then Some (Inl buf) else append_all buf ss)"

definition finish :: "(string + string) option \<Rightarrow> string option" where
  "finish x = (case x of None \<Rightarrow> None | Some (Inl buf) \<Rightarrow> CPLStaticBufferTooSmall buf | Some (Inr buf) \<Rightarrow> Some buf)"

definition CPLResetExtension :: "path_ring \<Rightarrow> string \<Rightarrow> string \<Rightarrow> (path_ring \<times> nat) option" where
  "CPLResetExtension r pszPath pszExt = static_call r (\<lambda>buf. do {
     (buf, n) \<leftarrow> CPLStrlcpy buf 0 pszPath CPL_PATH_BUF_SIZE;
     if n \<ge> CPL_PATH_BUF_SIZE then CPLStaticBufferTooSmall buf
     else
       (let buf = (if buf ! 0 \<noteq> NUL then strip_ext_loop buf (length (c_string buf) - 1) else buf)
        in finish (append_all buf [''.'', pszExt]))
   })"

text \<open>\<^verbatim>\<open>SEP_STRING\<close> is the slash on POSIX, as is the separator after \<^verbatim>\<open>/vsicurl/\<close>.\<close>

definition added_path_sep :: "string \<Rightarrow> string" where
  "added_path_sep path =
     (if length path > 0 \<and> path ! (length path - 1) \<noteq> CHR ''/'' \<and> path ! (length path - 1) \<noteq> bslash
      then (if take 9 path = ''/vsicurl/'' then ''/'' else ''/'') else '''')"

definition CPLFormFilename ::
    "path_ring \<Rightarrow> string option \<Rightarrow> string \<Rightarrow> string option \<Rightarrow> (path_ring \<times> nat) option" where
  "CPLFormFilename r pszPath pszBasename pszExtension = static_call r (\<lambda>buf.
     let base = (if char_at pszBasename 0 = CHR ''.'' \<and> char_at pszBasename 1 = CHR ''/'' then drop 2 pszBasename
                 else pszBasename);
         path = (case pszPath of None \<Rightarrow> '''' | Some p \<Rightarrow> p);
         path_sep = (case pszPath of None \<Rightarrow> '''' | Some p \<Rightarrow> added_path_sep p);
         ext = (case pszExtension of None \<Rightarrow> '''' | Some e \<Rightarrow> e);
         ext_sep = (if pszExtension \<noteq> None \<and> char_at ext 0 \<noteq> CHR ''.'' \<and> length ext > 0 then ''.'' else '''') in
     do {
       (buf, n) \<leftarrow> CPLStrlcpy buf 0 path CPL_PATH_BUF_SIZE;
       if n \<ge> CPL_PATH_BUF_SIZE then CPLStaticBufferTooSmall buf
       else finish (append_all buf [path_sep, base, ext_sep, ext])
     })"

text \<open>\<open>case_sensitive\<close> is \<^verbatim>\<open>VSIIsCaseSensitiveFS\<close> and \<open>stat\<close> is 0 for a file that exists.\<close>

definition CPLFormCIFilename ::
    "(string option \<Rightarrow> bool) \<Rightarrow> (string \<Rightarrow> int) \<Rightarrow> path_ring \<Rightarrow> string option \<Rightarrow> string \<Rightarrow> string option
       \<Rightarrow> (path_ring \<times> nat) option" where
  "CPLFormCIFilename case_sensitive stat r pszPath pszBasename pszExtension =
     (if \<not> case_sensitive pszPath then CPLFormFilename r pszPath pszBasename pszExtension
      else do {
        let ext = (case pszExtension of None \<Rightarrow> '''' | Some e \<Rightarrow> e);
        let ext_sep = (if pszExtension \<noteq> None \<and> char_at ext 0 \<noteq> CHR ''.'' \<and> length ext > 0 then ''.'' else '''');
        let name = pszBasename @ ext_sep @ ext;
        (r, k) \<leftarrow> CPLFormFilename r pszPath name None;
        if stat (path_value r k) = 0 then Some (r, k)
        else do {
          let name = map c_toupper name;
          (r, k) \<leftarrow> CPLFormFilename r pszPath name None;
          if stat (path_value r k) = 0 then Some (r, k)
          else do {
            let name = map c_tolower name;
            (r, k) \<leftarrow> CPLFormFilename r pszPath name None;
            if stat (path_value r k) = 0 then Some (r, k)
            else CPLFormFilename r pszPath pszBasename (Some ext)
          }
        }
      })"

section \<open>Relative names\<close>

definition CPLIsFilenameRelative :: "string \<Rightarrow> bool" where
  "CPLIsFilenameRelative s =
     (if (length s > 2 \<and> (take 2 (drop 1 s) = [CHR '':'', bslash] \<or> take 2 (drop 1 s) = '':/''))
         \<or> char_at s 0 = bslash \<or> char_at s 0 = CHR ''/''
      then False else True)"

text \<open>The result is in a buffer, or the second argument itself.\<close>

datatype path_result = Static nat | Argument

definition CPLProjectRelativeFilename ::
    "path_ring \<Rightarrow> string option \<Rightarrow> string \<Rightarrow> (path_ring \<times> path_result) option" where
  "CPLProjectRelativeFilename r pszProjectDir pszSecondaryFilename =
     (if \<not> CPLIsFilenameRelative pszSecondaryFilename then Some (fst (CPLGetStaticResult r), Argument)
      else if pszProjectDir = None \<or> length (the pszProjectDir) = 0 then Some (fst (CPLGetStaticResult r), Argument)
      else map_option (\<lambda>(r, k). (r, Static k)) (static_call r (\<lambda>buf. do {
        let dir = the pszProjectDir;
        (buf, n) \<leftarrow> CPLStrlcpy buf 0 dir CPL_PATH_BUF_SIZE;
        if n \<ge> CPL_PATH_BUF_SIZE then CPLStaticBufferTooSmall buf
        else finish (append_all buf
          ((if dir ! (length dir - 1) \<noteq> CHR ''/'' \<and> dir ! (length dir - 1) \<noteq> bslash then [''/''] else [])
           @ [pszSecondaryFilename]))
      })))"

text \<open>The offset of the result in \<^verbatim>\<open>pszTarget\<close>, and \<^verbatim>\<open>*pbGotRelative\<close>.\<close>

definition CPLExtractRelativePath :: "string option \<Rightarrow> string \<Rightarrow> nat \<times> bool" where
  "CPLExtractRelativePath pszBaseDir pszTarget =
     (case pszBaseDir of None \<Rightarrow> (0, False)
      | Some base \<Rightarrow>
          if (length base = 0 \<or> EQUAL base ''.'') \<and> CPLIsFilenameRelative pszTarget then (0, True)
          else if length base = 0 then (0, False)
          else if \<not> EQUALN base pszTarget (length base)
              \<or> (char_at pszTarget (length base) \<noteq> bslash \<and> char_at pszTarget (length base) \<noteq> CHR ''/'')
            then (0, False)
          else (length base + 1, True))"

definition CPLCleanTrailingSlash :: "path_ring \<Rightarrow> string \<Rightarrow> (path_ring \<times> nat) option" where
  "CPLCleanTrailingSlash r pszPath = static_call r (\<lambda>buf.
     let iPathLength = length pszPath in
     if iPathLength \<ge> CPL_PATH_BUF_SIZE then CPLStaticBufferTooSmall buf
     else do {
       (buf, _) \<leftarrow> CPLStrlcpy buf 0 pszPath (iPathLength + 1);
       Some (if iPathLength > 0 \<and> slash (buf ! (iPathLength - 1)) then buf[iPathLength - 1 := NUL] else buf)
     })"

section \<open>Renaming a set of files\<close>

text \<open>A result copied into a \<^verbatim>\<open>CPLString\<close>.\<close>

definition copied :: "(path_ring \<times> nat) option \<Rightarrow> (path_ring \<times> string) option" where
  "copied x = map_option (\<lambda>(r, k). (r, path_value r k)) x"

text \<open>The check that all files have the old base name; the ring and whether it succeeds.\<close>

fun check_basenames :: "path_ring \<Rightarrow> string \<Rightarrow> string \<Rightarrow> string list \<Rightarrow> (path_ring \<times> bool) option" where
  "check_basenames r osOldPath osOldBasename [] = Some (r, True)"
| "check_basenames r osOldPath osOldBasename (f # fs) = do {
     (r, b) \<leftarrow> copied (CPLGetBasename r f);
     if osOldBasename = b then check_basenames r osOldPath osOldBasename fs
     else do {
       (r, osFilePath) \<leftarrow> copied (CPLGetPath r f);
       let osFileName = CPLGetFilename f;
       if \<not> EQUALN osFileName osOldBasename (length osOldBasename) \<or> \<not> EQUAL osFilePath osOldPath
          \<or> char_at osFileName (length osOldBasename) \<noteq> CHR ''.''
       then Some (r, False)
       else check_basenames r osOldPath osOldBasename fs
     }
   }"

fun new_names :: "path_ring \<Rightarrow> string \<Rightarrow> string \<Rightarrow> string \<Rightarrow> string list \<Rightarrow> csl \<Rightarrow> (path_ring \<times> csl) option" where
  "new_names r osNewPath osOldBasename osNewBasename [] acc = Some (r, acc)"
| "new_names r osNewPath osOldBasename osNewBasename (f # fs) acc = do {
     let osOldFilename = CPLGetFilename f;
     (r, osNewFilename) \<leftarrow> copied
       (if osOldBasename = osNewBasename then CPLFormFilename r (Some osNewPath) osOldFilename None
        else CPLFormFilename r (Some osNewPath) osNewBasename (Some (drop (length osOldBasename) osOldFilename)));
     new_names r osNewPath osOldBasename osNewBasename fs (CSLAddString acc (Some osNewFilename))
   }"

definition CPLCorrespondingPaths :: "path_ring \<Rightarrow> string \<Rightarrow> string \<Rightarrow> csl \<Rightarrow> (path_ring \<times> csl) option" where
  "CPLCorrespondingPaths r pszOldFilename pszNewFilename papszFileList = do {
     (r, osOldPath) \<leftarrow> copied (CPLGetPath r pszOldFilename);
     (r, osNewPath) \<leftarrow> copied (CPLGetPath r pszNewFilename);
     (r, osOldBasename) \<leftarrow> copied (CPLGetBasename r pszOldFilename);
     (r, osNewBasename) \<leftarrow> copied (CPLGetBasename r pszNewFilename);
     if CSLCount papszFileList = 0 then Some (r, None)
     else if CSLCount papszFileList = 1 \<and> pszOldFilename = strings papszFileList ! 0
       then Some (r, CSLAddString None (Some pszNewFilename))
     else do {
       (r, ok) \<leftarrow> (if osOldBasename \<noteq> osNewBasename
                  then check_basenames r osOldPath osOldBasename (strings papszFileList) else Some (r, True));
       if \<not> ok then Some (r, None)
       else if osOldBasename \<noteq> osNewBasename
           \<and> drop (length osOldBasename) (CPLGetFilename pszOldFilename)
             \<noteq> drop (length osNewBasename) (CPLGetFilename pszNewFilename)
         then Some (r, None)
       else new_names r osNewPath osOldBasename osNewBasename (strings papszFileList) None
     }
   }"

section \<open>Names of temporary files\<close>

fun decimal :: "nat \<Rightarrow> string" where
  "decimal n = (if n < 10 then [char_of (48 + n)] else decimal (n div 10) @ [char_of (48 + n mod 10)])"

declare decimal.simps [simp del]

text \<open>\<open>config\<close> are the configuration options and \<open>pid\<close> the process id; \<^verbatim>\<open>nTempFileCounter\<close> is the second result.\<close>

definition CPLGenerateTempFilename ::
    "(string \<Rightarrow> string option) \<Rightarrow> nat \<Rightarrow> path_ring \<Rightarrow> nat \<Rightarrow> string option \<Rightarrow> ((path_ring \<times> nat) \<times> nat) option" where
  "CPLGenerateTempFilename config pid r nTempFileCounter pszStem =
     (let pszDir = (case config ''CPL_TMPDIR'' of Some d \<Rightarrow> d
             | None \<Rightarrow> (case config ''TMPDIR'' of Some d \<Rightarrow> d
             | None \<Rightarrow> (case config ''TEMP'' of Some d \<Rightarrow> d | None \<Rightarrow> ''.'')));
          stem = (case pszStem of None \<Rightarrow> '''' | Some s \<Rightarrow> s);
          osFilename = stem @ decimal pid @ ''_'' @ decimal nTempFileCounter
      in map_option (\<lambda>x. (x, nTempFileCounter + 1)) (CPLFormFilename r (Some pszDir) osFilename None))"

section \<open>Results in the ring\<close>

definition path_ring_ok :: "path_ring \<Rightarrow> bool" where
  "path_ring_ok r \<longleftrightarrow> length (bufs r) = CPL_PATH_BUF_COUNT \<and> (\<forall>b \<in> set (bufs r). length b = CPL_PATH_BUF_SIZE)
     \<and> bufIndex r < CPL_PATH_BUF_COUNT"

text \<open>A call succeeds: it gives the string \<open>res\<close> in the next buffer and changes no other.\<close>

definition gives :: "path_ring \<Rightarrow> (path_ring \<times> nat) option \<Rightarrow> string \<Rightarrow> bool" where
  "gives r x res \<longleftrightarrow> (\<exists>r'. x = Some (r', bufIndex r) \<and> path_ring_ok r'
     \<and> bufIndex r' = (bufIndex r + 1) mod CPL_PATH_BUF_COUNT \<and> path_value r' (bufIndex r) = res
     \<and> (\<forall>j. j \<noteq> bufIndex r \<longrightarrow> bufs r' ! j = bufs r ! j))"

text \<open>A buffer that holds a string.\<close>

definition holds :: "string \<Rightarrow> string \<Rightarrow> bool" where
  "holds buf t \<longleftrightarrow> cstr t \<and> length buf = CPL_PATH_BUF_SIZE \<and> (\<exists>rest. buf = t @ NUL # rest)"

lemma holds_c_string: "holds buf t \<Longrightarrow> c_string buf = t"
  using c_string_prefix by (auto simp: holds_def)

lemma holds_nth: "holds buf t \<Longrightarrow> i < length t \<Longrightarrow> buf ! i = t ! i"
  by (auto simp: holds_def nth_append)

lemma static_gives:
  assumes "path_ring_ok r" "\<And>buf. length buf = CPL_PATH_BUF_SIZE \<Longrightarrow> \<exists>buf'. f buf = Some buf' \<and> holds buf' res"
  shows "gives r (static_call r f) res"
proof -
  let ?k = "bufIndex r"
  have k: "?k < length (bufs r)" using assms(1) by (simp add: path_ring_ok_def)
  then have "length (bufs r ! ?k) = CPL_PATH_BUF_SIZE" using assms(1) by (simp add: path_ring_ok_def)
  then obtain buf' where b: "f (bufs r ! ?k) = Some buf'" "holds buf' res" using assms(2) by blast
  let ?r = "r\<lparr>bufIndex := (?k + 1) mod CPL_PATH_BUF_COUNT, bufs := (bufs r)[?k := buf']\<rparr>"
  have "static_call r f = Some (?r, ?k)" using b(1) by (simp add: static_call_def CPLGetStaticResult_def)
  moreover have "path_ring_ok ?r"
    using assms(1) b(2) by (auto simp: path_ring_ok_def holds_def CPL_PATH_BUF_COUNT_def dest: set_update_subset_insert [THEN subsetD])
  ultimately show ?thesis
    using k holds_c_string [OF b(2)] by (simp add: gives_def path_value_def)
qed

lemma strcpy_holds: "length buf = CPL_PATH_BUF_SIZE \<Longrightarrow> cstr s \<Longrightarrow> length s < CPL_PATH_BUF_SIZE \<Longrightarrow>
    \<exists>buf'. strcpy_to buf s = Some buf' \<and> holds buf' s"
  by (auto simp: strcpy_to_def holds_def)

lemma too_small_holds: "length buf = CPL_PATH_BUF_SIZE \<Longrightarrow> \<exists>buf'. CPLStaticBufferTooSmall buf = Some buf' \<and> holds buf' ''''"
  using strcpy_holds [of buf "''''"] by (simp add: CPLStaticBufferTooSmall_def CPL_PATH_BUF_SIZE_def)

lemma strlcpy_holds:
  assumes "length buf = CPL_PATH_BUF_SIZE" "cstr s" "0 < n" "n \<le> CPL_PATH_BUF_SIZE"
  shows "\<exists>buf'. CPLStrlcpy buf 0 s n = Some (buf', length s) \<and> holds buf' (take (n - 1) s)"
proof -
  have "min (n - 1) (length s) + 1 \<le> CPL_PATH_BUF_SIZE" using assms(3,4) by linarith
  then show ?thesis using strlcpy_result [of n 0 buf s] assms by (auto simp: holds_def)
qed

lemma strlcat_holds:
  assumes "holds buf t" "cstr s"
  shows "\<exists>buf'. CPLStrlcat buf s CPL_PATH_BUF_SIZE = Some (buf', length t + length s)
    \<and> holds buf' (take (CPL_PATH_BUF_SIZE - 1) (t @ s))"
proof -
  let ?N = CPL_PATH_BUF_SIZE
  obtain rest where b: "buf = t @ NUL # rest" "cstr t" "length buf = ?N" using assms(1) by (auto simp: holds_def)
  then have lt: "length t < ?N" by auto
  have l: "strlcat_loop buf 0 ?N = Some (length t, ?N - length t)"
    using strlcat_loop_result [OF b(2) lt, of "[]" rest] b(1) by simp
  let ?m = "?N - length t"
  let ?buf = "take (length t) buf @ take (?m - 1) s @ NUL # drop (length t + min (?m - 1) (length s) + 1) buf"
  have c: "CPLStrlcpy buf (length t) s ?m = Some (?buf, length s)"
    using lt b(3) by (intro strlcpy_result) simp_all
  have ml: "length t + min (?m - 1) (length s) + 1 \<le> ?N" using lt by linarith
  have t: "take (?N - 1) (t @ s) = t @ take (?m - 1) s" using lt by simp
  have "length ?buf = ?N" using ml b(3) lt by simp
  moreover have "?buf = take (?N - 1) (t @ s) @ NUL # drop (length t + min (?m - 1) (length s) + 1) buf"
    unfolding t using b(1) by simp
  ultimately have "holds ?buf (take (?N - 1) (t @ s))"
    using b(2) assms(2) unfolding holds_def by (metis cstr_append cstr_take)
  then show ?thesis using l c by (simp add: CPLStrlcat_def)
qed

lemma append_all_holds:
  assumes "holds buf t" "\<forall>s \<in> set ss. cstr s"
  shows "\<exists>buf'. finish (append_all buf ss) = Some buf'
    \<and> holds buf' (if length (t @ concat ss) < CPL_PATH_BUF_SIZE then t @ concat ss else '''')"
  using assms
proof (induction ss arbitrary: buf t)
  case Nil
  then have "length t < CPL_PATH_BUF_SIZE" by (auto simp: holds_def)
  then show ?case using Nil by (simp add: finish_def)
next
  case (Cons s ss)
  obtain buf1 where b: "CPLStrlcat buf s CPL_PATH_BUF_SIZE = Some (buf1, length t + length s)"
    "holds buf1 (take (CPL_PATH_BUF_SIZE - 1) (t @ s))" using strlcat_holds [OF Cons.prems(1)] Cons.prems(2) by auto
  show ?case
  proof (cases "length t + length s < CPL_PATH_BUF_SIZE")
    case True
    then have "take (CPL_PATH_BUF_SIZE - 1) (t @ s) = t @ s" by simp
    then show ?thesis using Cons.IH [of buf1 "t @ s"] b Cons.prems(2) True by (simp split: if_splits)
  next
    case False
    have "length buf1 = CPL_PATH_BUF_SIZE" using b(2) by (simp add: holds_def)
    from too_small_holds [OF this] show ?thesis using False b(1) by (simp add: finish_def)
  qed
qed

text \<open>Copying a string and appending others: the whole, or an empty string when it does not fit.\<close>

lemma copy_append_holds:
  assumes "length buf = CPL_PATH_BUF_SIZE" "cstr s" "\<forall>t \<in> set ss. cstr t"
  shows "\<exists>buf'. (do { (buf, n) \<leftarrow> CPLStrlcpy buf 0 s CPL_PATH_BUF_SIZE;
       if n \<ge> CPL_PATH_BUF_SIZE then CPLStaticBufferTooSmall buf else finish (append_all buf ss) }) = Some buf'
    \<and> holds buf' (if length (s @ concat ss) < CPL_PATH_BUF_SIZE then s @ concat ss else '''')"
proof -
  obtain buf1 where b: "CPLStrlcpy buf 0 s CPL_PATH_BUF_SIZE = Some (buf1, length s)"
    "holds buf1 (take (CPL_PATH_BUF_SIZE - 1) s)"
    using strlcpy_holds [OF assms(1,2), of CPL_PATH_BUF_SIZE] by (auto simp: CPL_PATH_BUF_SIZE_def)
  show ?thesis
  proof (cases "length s < CPL_PATH_BUF_SIZE")
    case True
    then have "holds buf1 s" using b(2) by simp
    from append_all_holds [OF this assms(3)] show ?thesis using True b(1) by simp
  next
    case False
    have "length buf1 = CPL_PATH_BUF_SIZE" using b(2) by (simp add: holds_def)
    from too_small_holds [OF this] show ?thesis using False b(1) by simp
  qed
qed

section \<open>What the functions return\<close>

lemma start_le: "filename_start_loop s n \<le> n"
  by (induction n) auto

lemma CPLFindFilenameStart_le: "CPLFindFilenameStart s \<le> length s"
  by (simp add: CPLFindFilenameStart_def start_le)

lemma ext_start_le: "ext_start_loop s f n \<le> n"
  by (induction n) (auto simp: le_SucI)

lemma holds_cut: "holds buf t \<Longrightarrow> i < length t \<Longrightarrow> holds (buf[i := NUL]) (take i t)"
proof -
  assume h: "holds buf t" "i < length t"
  then obtain rest where b: "buf = t @ NUL # rest" "cstr t" "length buf = CPL_PATH_BUF_SIZE" by (auto simp: holds_def)
  have "t[i := NUL] = take i t @ NUL # drop (i + 1) t" using h(2) by (simp add: upd_conv_take_nth_drop)
  then have "buf[i := NUL] = take i t @ NUL # (drop (i + 1) t @ NUL # rest)"
    using h(2) b(1) by (simp add: list_update_append)
  moreover have "length (buf[i := NUL]) = CPL_PATH_BUF_SIZE" using b(3) by simp
  ultimately show ?thesis using b(2) unfolding holds_def by (metis cstr_take)
qed

text \<open>The directory part, \<open>alone\<close> when there is none.\<close>

definition dir_part :: "string \<Rightarrow> string \<Rightarrow> string" where
  "dir_part alone s =
     (let n = CPLFindFilenameStart s in
      if n \<ge> CPL_PATH_BUF_SIZE then '''' else if n = 0 then alone
      else if n > 1 \<and> slash (s ! (n - 1)) then take (n - 1) s else take n s)"

lemma dir_part_buffer:
  assumes "length buf = CPL_PATH_BUF_SIZE" "cstr s" "cstr alone" "length alone < CPL_PATH_BUF_SIZE"
  shows "\<exists>buf'. (let iFileStart = CPLFindFilenameStart s in
     if iFileStart \<ge> CPL_PATH_BUF_SIZE then CPLStaticBufferTooSmall buf
     else if iFileStart = 0 then strcpy_to buf alone
     else do {
       (buf, _) \<leftarrow> CPLStrlcpy buf 0 s (iFileStart + 1);
       Some (if iFileStart > 1 \<and> slash (buf ! (iFileStart - 1)) then buf[iFileStart - 1 := NUL] else buf)
     }) = Some buf' \<and> holds buf' (dir_part alone s)"
proof -
  let ?n = "CPLFindFilenameStart s"
  consider "?n \<ge> CPL_PATH_BUF_SIZE" | "?n < CPL_PATH_BUF_SIZE" "?n = 0" | "?n < CPL_PATH_BUF_SIZE" "?n > 0" by linarith
  then show ?thesis
  proof cases
    case 1
    then show ?thesis using too_small_holds [OF assms(1)] by (simp add: dir_part_def)
  next
    case 2
    then show ?thesis using strcpy_holds [OF assms(1,3,4)] by (simp add: dir_part_def)
  next
    case 3
    then obtain buf1 where b: "CPLStrlcpy buf 0 s (?n + 1) = Some (buf1, length s)" "holds buf1 (take ?n s)"
      using strlcpy_holds [OF assms(1,2), of "?n + 1"] by auto
    have l: "length (take ?n s) = ?n" using CPLFindFilenameStart_le by simp
    have "buf1 ! (?n - 1) = s ! (?n - 1)" using holds_nth [OF b(2), of "?n - 1"] l 3 by simp
    moreover have "holds (buf1[?n - 1 := NUL]) (take (?n - 1) s)"
      using holds_cut [OF b(2), of "?n - 1"] l 3 by (simp add: min_def)
    ultimately show ?thesis using b 3 by (simp add: dir_part_def Let_def)
  qed
qed

lemma CPLGetPath_gives: "path_ring_ok r \<Longrightarrow> cstr s \<Longrightarrow> gives r (CPLGetPath r s) (dir_part '''' s)"
  unfolding CPLGetPath_def
  by (rule static_gives, assumption, rule dir_part_buffer) (simp_all add: CPL_PATH_BUF_SIZE_def)

lemma CPLGetDirname_gives: "path_ring_ok r \<Longrightarrow> cstr s \<Longrightarrow> gives r (CPLGetDirname r s) (dir_part ''.'' s)"
  unfolding CPLGetDirname_def
  by (rule static_gives, assumption, rule dir_part_buffer) (simp_all add: CPL_PATH_BUF_SIZE_def)

definition base_part :: "string \<Rightarrow> string" where
  "base_part s =
     (let f = CPLFindFilenameStart s; e = ext_start_loop s f (length s);
          t = take ((if e = f then length s else e) - f) (drop f s)
      in if length t \<ge> CPL_PATH_BUF_SIZE then '''' else t)"

lemma CPLGetBasename_gives:
  assumes "path_ring_ok r" "cstr s"
  shows "gives r (CPLGetBasename r s) (base_part s)"
proof -
  let ?f = "CPLFindFilenameStart s"
  let ?e = "ext_start_loop s ?f (length s)"
  let ?n = "(if ?e = ?f then length s else ?e) - ?f"
  have l: "length (take ?n (drop ?f s)) = ?n" using ext_start_le [of s ?f "length s"] by auto
  show ?thesis
    unfolding CPLGetBasename_def
  proof (rule static_gives [OF assms(1)])
    fix buf :: string
    assume b: "length buf = CPL_PATH_BUF_SIZE"
    have "cstr (drop ?f s)" using assms(2) by blast
    then show "\<exists>buf'. (let iFileStart = ?f; iExtStart = ext_start_loop s iFileStart (length s);
         iExtStart = (if iExtStart = iFileStart then length s else iExtStart); nLength = iExtStart - iFileStart in
         if nLength \<ge> CPL_PATH_BUF_SIZE then CPLStaticBufferTooSmall buf
         else map_option fst (CPLStrlcpy buf 0 (drop iFileStart s) (nLength + 1))) = Some buf' \<and> holds buf' (base_part s)"
      using too_small_holds [OF b] strlcpy_holds [OF b, of "drop ?f s" "?n + 1"] l
      by (cases "?n \<ge> CPL_PATH_BUF_SIZE") (auto simp: base_part_def Let_def)
  qed
qed

definition ext_part :: "string \<Rightarrow> string" where
  "ext_part s =
     (let f = CPLFindFilenameStart s; e = ext_start_loop s f (length s);
          t = drop (if e = f then length s else e + 1) s
      in if length t \<ge> CPL_PATH_BUF_SIZE then '''' else t)"

lemma CPLGetExtension_gives:
  assumes "path_ring_ok r" "cstr s"
  shows "gives r (CPLGetExtension r s) (ext_part s)"
  unfolding CPLGetExtension_def
proof (rule static_gives [OF assms(1)])
  fix buf :: string
  assume b: "length buf = CPL_PATH_BUF_SIZE"
  let ?f = "CPLFindFilenameStart s"
  let ?t = "drop (if ext_start_loop s ?f (length s) = ?f then length s else ext_start_loop s ?f (length s) + 1) s"
  have "cstr ?t" using assms(2) by blast
  from copy_append_holds [OF b this, of "[]"] strlcpy_holds [OF b this, of CPL_PATH_BUF_SIZE]
  show "\<exists>buf'. (let iFileStart = ?f; iExtStart = ext_start_loop s iFileStart (length s);
      from_ext = (if iExtStart = iFileStart then length s else iExtStart + 1) in
      do {
        (buf, n) \<leftarrow> CPLStrlcpy buf 0 (drop from_ext s) CPL_PATH_BUF_SIZE;
        if n \<ge> CPL_PATH_BUF_SIZE then CPLStaticBufferTooSmall buf else Some buf
      }) = Some buf' \<and> holds buf' (ext_part s)"
    by (auto simp: ext_part_def Let_def finish_def CPL_PATH_BUF_SIZE_def)
qed

text \<open>How much of a name is kept when its extension is stripped.\<close>

fun strip_length :: "string \<Rightarrow> nat \<Rightarrow> nat" where
  "strip_length s 0 = length s"
| "strip_length s (Suc i) =
     (if s ! Suc i = CHR ''.'' then Suc i
      else if slash (s ! Suc i) \<or> s ! Suc i = CHR '':'' then length s
      else strip_length s i)"

definition stripped :: "string \<Rightarrow> string" where
  "stripped s = take (strip_length s (length s - 1)) s"

lemma strip_ext_holds: "holds buf t \<Longrightarrow> n < length t \<Longrightarrow> holds (strip_ext_loop buf n) (take (strip_length t n) t)"
proof (induction n)
  case (Suc n)
  then show ?case using holds_cut [of buf t "Suc n"] holds_nth [of buf t "Suc n"] by simp
qed simp

definition fits :: "string \<Rightarrow> string" where
  "fits s = (if length s < CPL_PATH_BUF_SIZE then s else '''')"

lemma CPLResetExtension_gives:
  assumes "path_ring_ok r" "cstr p" "cstr e"
  shows "gives r (CPLResetExtension r p e) (if length p < CPL_PATH_BUF_SIZE then fits (stripped p @ ''.'' @ e) else '''')"
  unfolding CPLResetExtension_def
proof (rule static_gives [OF assms(1)])
  fix buf :: string
  assume b: "length buf = CPL_PATH_BUF_SIZE"
  obtain buf1 where b1: "CPLStrlcpy buf 0 p CPL_PATH_BUF_SIZE = Some (buf1, length p)"
    "holds buf1 (take (CPL_PATH_BUF_SIZE - 1) p)"
    using strlcpy_holds [OF b assms(2), of CPL_PATH_BUF_SIZE] by (auto simp: CPL_PATH_BUF_SIZE_def)
  show "\<exists>buf'. (do {
       (buf, n) \<leftarrow> CPLStrlcpy buf 0 p CPL_PATH_BUF_SIZE;
       if n \<ge> CPL_PATH_BUF_SIZE then CPLStaticBufferTooSmall buf
       else
         (let buf = (if buf ! 0 \<noteq> NUL then strip_ext_loop buf (length (c_string buf) - 1) else buf)
          in finish (append_all buf [''.'', e])) }) = Some buf'
    \<and> holds buf' (if length p < CPL_PATH_BUF_SIZE then fits (stripped p @ ''.'' @ e) else '''')"
  proof (cases "length p < CPL_PATH_BUF_SIZE")
    case True
    then have h: "holds buf1 p" using b1(2) by simp
    let ?buf = "if buf1 ! 0 \<noteq> NUL then strip_ext_loop buf1 (length (c_string buf1) - 1) else buf1"
    have "holds ?buf (stripped p)"
    proof (cases "p = []")
      case True
      then show ?thesis using h by (auto simp: holds_def stripped_def)
    next
      case False
      then have "buf1 ! 0 \<noteq> NUL" using holds_nth [OF h, of 0] assms(2) by (cases p) auto
      then show ?thesis using strip_ext_holds [OF h, of "length p - 1"] holds_c_string [OF h] False
        by (simp add: stripped_def)
    qed
    from append_all_holds [OF this, of "[''.'', e]"] obtain buf' where
      "finish (append_all ?buf [''.'', e]) = Some buf'" "holds buf' (fits (stripped p @ ''.'' @ e))"
      using assms(3) by (auto simp: fits_def simp del: append_all.simps split: if_splits)
    then show ?thesis using True b1(1) by (simp add: Let_def del: append_all.simps)
  next
    case False
    have "length buf1 = CPL_PATH_BUF_SIZE" using b1(2) by (simp add: holds_def)
    from too_small_holds [OF this] show ?thesis using False b1(1) by simp
  qed
qed

text \<open>The joined name.\<close>

definition joined :: "string option \<Rightarrow> string \<Rightarrow> string option \<Rightarrow> string" where
  "joined p b e =
     (let base = (if char_at b 0 = CHR ''.'' \<and> char_at b 1 = CHR ''/'' then drop 2 b else b);
          path = (case p of None \<Rightarrow> '''' | Some p \<Rightarrow> p @ added_path_sep p);
          ext = (case e of None \<Rightarrow> ''''
                 | Some e \<Rightarrow> (if char_at e 0 \<noteq> CHR ''.'' \<and> length e > 0 then ''.'' else '''') @ e)
      in path @ base @ ext)"

lemma CPLFormFilename_gives:
  assumes "path_ring_ok r" "\<forall>d. p = Some d \<longrightarrow> cstr d" "cstr b" "\<forall>d. e = Some d \<longrightarrow> cstr d"
  shows "gives r (CPLFormFilename r p b e) (fits (joined p b e))"
proof -
  let ?base = "if char_at b 0 = CHR ''.'' \<and> char_at b 1 = CHR ''/'' then drop 2 b else b"
  let ?path = "case p of None \<Rightarrow> '''' | Some p \<Rightarrow> p"
  let ?path_sep = "case p of None \<Rightarrow> '''' | Some p \<Rightarrow> added_path_sep p"
  let ?ext = "case e of None \<Rightarrow> '''' | Some e \<Rightarrow> e"
  let ?ext_sep = "if e \<noteq> None \<and> char_at ?ext 0 \<noteq> CHR ''.'' \<and> length ?ext > 0 then ''.'' else ''''"
  have "joined p b e = ?path @ concat [?path_sep, ?base, ?ext_sep, ?ext]"
    by (cases p; cases e) (simp_all add: joined_def Let_def)
  moreover have "cstr ?path" "\<forall>t \<in> set [?path_sep, ?base, ?ext_sep, ?ext]. cstr t"
    using assms(2-4) by (auto simp: added_path_sep_def split: option.splits)
  ultimately show ?thesis
    unfolding CPLFormFilename_def Let_def fits_def
    by (intro static_gives [OF assms(1)]) (simp only: copy_append_holds)
qed

lemma CPLCleanTrailingSlash_gives:
  assumes "path_ring_ok r" "cstr s"
  shows "gives r (CPLCleanTrailingSlash r s)
    (if length s \<ge> CPL_PATH_BUF_SIZE then '''' else if s \<noteq> [] \<and> slash (last s) then butlast s else s)"
  unfolding CPLCleanTrailingSlash_def Let_def
proof (rule static_gives [OF assms(1)])
  fix buf :: string
  assume b: "length buf = CPL_PATH_BUF_SIZE"
  show "\<exists>buf'. (if length s \<ge> CPL_PATH_BUF_SIZE then CPLStaticBufferTooSmall buf
     else do {
       (buf, _) \<leftarrow> CPLStrlcpy buf 0 s (length s + 1);
       Some (if length s > 0 \<and> slash (buf ! (length s - 1)) then buf[length s - 1 := NUL] else buf) }) = Some buf'
    \<and> holds buf' (if length s \<ge> CPL_PATH_BUF_SIZE then '''' else if s \<noteq> [] \<and> slash (last s) then butlast s else s)"
  proof (cases "length s \<ge> CPL_PATH_BUF_SIZE")
    case True
    then show ?thesis using too_small_holds [OF b] by simp
  next
    case False
    then obtain buf1 where b1: "CPLStrlcpy buf 0 s (length s + 1) = Some (buf1, length s)" "holds buf1 s"
      using strlcpy_holds [OF b assms(2), of "length s + 1"] by auto
    then show ?thesis using False holds_nth [OF b1(2), of "length s - 1"] holds_cut [OF b1(2), of "length s - 1"]
      by (cases "s = []") (simp_all add: last_conv_nth butlast_conv_take)
  qed
qed

section \<open>Results stay valid\<close>

text \<open>The functions that take one buffer of the ring per call.\<close>

datatype path_call =
    GetPath string
  | GetDirname string
  | GetBasename string
  | GetExtension string
  | ResetExtension string string
  | FormFilename "string option" string "string option"
  | CleanTrailingSlash string

fun run_call :: "path_ring \<Rightarrow> path_call \<Rightarrow> (path_ring \<times> nat) option" where
  "run_call r (GetPath s) = CPLGetPath r s"
| "run_call r (GetDirname s) = CPLGetDirname r s"
| "run_call r (GetBasename s) = CPLGetBasename r s"
| "run_call r (GetExtension s) = CPLGetExtension r s"
| "run_call r (ResetExtension p e) = CPLResetExtension r p e"
| "run_call r (FormFilename p b e) = CPLFormFilename r p b e"
| "run_call r (CleanTrailingSlash s) = CPLCleanTrailingSlash r s"

fun call_ok :: "path_call \<Rightarrow> bool" where
  "call_ok (GetPath s) \<longleftrightarrow> cstr s"
| "call_ok (GetDirname s) \<longleftrightarrow> cstr s"
| "call_ok (GetBasename s) \<longleftrightarrow> cstr s"
| "call_ok (GetExtension s) \<longleftrightarrow> cstr s"
| "call_ok (ResetExtension p e) \<longleftrightarrow> cstr p \<and> cstr e"
| "call_ok (FormFilename p b e) \<longleftrightarrow> (\<forall>d \<in> set_option p. cstr d) \<and> cstr b \<and> (\<forall>d \<in> set_option e. cstr d)"
| "call_ok (CleanTrailingSlash s) \<longleftrightarrow> cstr s"

lemma call_gives:
  assumes "path_ring_ok r" "call_ok c"
  shows "\<exists>res. gives r (run_call r c) res"
proof (cases c)
  case (FormFilename p b e)
  then have "\<forall>d. p = Some d \<longrightarrow> cstr d" "cstr b" "\<forall>d. e = Some d \<longrightarrow> cstr d" using assms(2) by auto
  from CPLFormFilename_gives [OF assms(1) this] show ?thesis using FormFilename by auto
next
  case (GetPath s)
  then show ?thesis using CPLGetPath_gives [OF assms(1), of s] assms(2) by auto
next
  case (GetDirname s)
  then show ?thesis using CPLGetDirname_gives [OF assms(1), of s] assms(2) by auto
next
  case (GetBasename s)
  then show ?thesis using CPLGetBasename_gives [OF assms(1), of s] assms(2) by auto
next
  case (GetExtension s)
  then show ?thesis using CPLGetExtension_gives [OF assms(1), of s] assms(2) by auto
next
  case (ResetExtension p e)
  then show ?thesis using CPLResetExtension_gives [OF assms(1), of p e] assms(2) by auto
next
  case (CleanTrailingSlash s)
  then show ?thesis using CPLCleanTrailingSlash_gives [OF assms(1), of s] assms(2) by auto
qed

fun run_calls :: "path_ring \<Rightarrow> path_call list \<Rightarrow> path_ring option" where
  "run_calls r [] = Some r"
| "run_calls r (c # cs) = Option.bind (run_call r c) (\<lambda>(r, k). run_calls r cs)"

lemma run_calls_keeps:
  "path_ring_ok r \<Longrightarrow> list_all call_ok cs \<Longrightarrow> \<exists>r'. run_calls r cs = Some r' \<and> path_ring_ok r'
     \<and> bufIndex r' = (bufIndex r + length cs) mod CPL_PATH_BUF_COUNT
     \<and> (\<forall>j. (\<forall>i < length cs. j \<noteq> (bufIndex r + i) mod CPL_PATH_BUF_COUNT) \<longrightarrow> bufs r' ! j = bufs r ! j)"
proof (induction cs arbitrary: r)
  case Nil
  then show ?case by (simp add: path_ring_ok_def)
next
  case (Cons c cs)
  then obtain res where "gives r (run_call r c) res" using call_gives [of r c] by auto
  then obtain r1 where r1: "run_call r c = Some (r1, bufIndex r)" "path_ring_ok r1"
    "bufIndex r1 = (bufIndex r + 1) mod CPL_PATH_BUF_COUNT"
    "\<forall>j. j \<noteq> bufIndex r \<longrightarrow> bufs r1 ! j = bufs r ! j" by (auto simp: gives_def)
  from Cons.IH [OF r1(2)] Cons.prems(2) obtain r' where r': "run_calls r1 cs = Some r'" "path_ring_ok r'"
    "bufIndex r' = (bufIndex r1 + length cs) mod CPL_PATH_BUF_COUNT"
    "\<forall>j. (\<forall>i < length cs. j \<noteq> (bufIndex r1 + i) mod CPL_PATH_BUF_COUNT) \<longrightarrow> bufs r' ! j = bufs r1 ! j" by auto
  have sh: "(bufIndex r1 + i) mod CPL_PATH_BUF_COUNT = (bufIndex r + Suc i) mod CPL_PATH_BUF_COUNT" for i
    unfolding r1(3) by (simp add: mod_add_left_eq)
  have "bufs r' ! j = bufs r ! j" if j: "\<forall>i < length (c # cs). j \<noteq> (bufIndex r + i) mod CPL_PATH_BUF_COUNT" for j
  proof -
    have "j \<noteq> bufIndex r" using j [rule_format, of 0] Cons.prems(1) by (simp add: path_ring_ok_def)
    moreover have "\<forall>i < length cs. j \<noteq> (bufIndex r1 + i) mod CPL_PATH_BUF_COUNT"
    proof (intro allI impI)
      fix i
      assume "i < length cs"
      then show "j \<noteq> (bufIndex r1 + i) mod CPL_PATH_BUF_COUNT" unfolding sh using j [rule_format, of "Suc i"] by simp
    qed
    ultimately show ?thesis using r1(4) r'(4) by simp
  qed
  then show ?case using r1(1) r'(1-3) sh by simp
qed

lemma index_apart:
  assumes "k < CPL_PATH_BUF_COUNT" "Suc i < CPL_PATH_BUF_COUNT"
  shows "k \<noteq> (k + 1 + i) mod CPL_PATH_BUF_COUNT"
proof (cases "k + 1 + i < CPL_PATH_BUF_COUNT")
  case False
  then have "(k + 1 + i) mod CPL_PATH_BUF_COUNT = k + 1 + i - CPL_PATH_BUF_COUNT"
    using assms by (subst le_mod_geq) (simp_all)
  then show ?thesis using False assms by linarith
qed simp

text \<open>C39: \<^verbatim>\<open>CPLGetPath\<close>, \<^verbatim>\<open>CPLGetDirname\<close>, \<^verbatim>\<open>CPLGetBasename\<close>, \<^verbatim>\<open>CPLGetExtension\<close>, \<^verbatim>\<open>CPLResetExtension\<close>,
  \<^verbatim>\<open>CPLFormFilename\<close> and \<^verbatim>\<open>CPLCleanTrailingSlash\<close> take one buffer of the ring per call: the string that one of them
  returns stays in its buffer during the next nine calls of these seven functions, which go to the nine other buffers;
  the tenth call writes into the same buffer again.\<close>

theorem path_results_survive:
  assumes "path_ring_ok r" and "call_ok c" and "list_all call_ok cs" and "length cs < 10"
  shows "\<exists>r1 r2 k. run_call r c = Some (r1, k) \<and> run_calls r1 cs = Some r2 \<and> path_value r2 k = path_value r1 k
    \<and> (length cs = 9 \<longrightarrow> (\<forall>d. call_ok d \<longrightarrow> (\<exists>r3. run_call r2 d = Some (r3, k))))"
proof -
  obtain res where "gives r (run_call r c) res" using call_gives [OF assms(1,2)] by blast
  then obtain r1 where r1: "run_call r c = Some (r1, bufIndex r)" "path_ring_ok r1"
    "bufIndex r1 = (bufIndex r + 1) mod CPL_PATH_BUF_COUNT" by (auto simp: gives_def)
  obtain r2 where r2: "run_calls r1 cs = Some r2" "path_ring_ok r2"
    "bufIndex r2 = (bufIndex r1 + length cs) mod CPL_PATH_BUF_COUNT"
    "\<forall>j. (\<forall>i < length cs. j \<noteq> (bufIndex r1 + i) mod CPL_PATH_BUF_COUNT) \<longrightarrow> bufs r2 ! j = bufs r1 ! j"
    using run_calls_keeps [OF r1(2) assms(3)] by blast
  have k: "bufIndex r < CPL_PATH_BUF_COUNT" using assms(1) by (simp add: path_ring_ok_def)
  have "bufIndex r \<noteq> (bufIndex r1 + i) mod CPL_PATH_BUF_COUNT" if "i < length cs" for i
    using index_apart [OF k, of i] that assms(4) unfolding r1(3) by (simp add: mod_add_left_eq CPL_PATH_BUF_COUNT_def)
  then have v: "path_value r2 (bufIndex r) = path_value r1 (bufIndex r)" using r2(4) by (simp add: path_value_def)
  have "\<exists>r3. run_call r2 d = Some (r3, bufIndex r)" if "length cs = 9" "call_ok d" for d
  proof -
    have "bufIndex r2 = bufIndex r"
      using r2(3) that(1) k unfolding r1(3) by (simp add: mod_add_left_eq CPL_PATH_BUF_COUNT_def)
    then show ?thesis using call_gives [OF r2(2) that(2)] by (auto simp: gives_def)
  qed
  then show ?thesis using r1(1) r2(1) v by blast
qed

lemma new_ring_ok: "path_ring_ok new_ring"
  by (simp add: path_ring_ok_def new_ring_def CPL_PATH_BUF_COUNT_def)

theorem path_results_survive_witness:
  "\<exists>r1 r2 k. run_call new_ring (GetPath ''/a/b'') = Some (r1, k)
    \<and> run_calls r1 [GetBasename ''/a/b.c'', ResetExtension ''x'' ''y''] = Some r2 \<and> path_value r2 k = path_value r1 k"
proof -
  have "call_ok (GetPath ''/a/b'')" "list_all call_ok [GetBasename ''/a/b.c'', ResetExtension ''x'' ''y'']" by simp_all
  from path_results_survive [OF new_ring_ok this] show ?thesis by auto
qed

section \<open>The parts of a name\<close>

lemma filename_start_plain:
  assumes "p = [] \<or> slash (last p)" "\<forall>c \<in> set n. \<not> slash c"
  shows "k \<le> length n \<Longrightarrow> filename_start_loop (p @ n) (length p + k) = length p"
proof (induction k)
  case 0
  show ?case
  proof (cases "p = []")
    case False
    then obtain q c where "p = q @ [c]" "slash c" using assms(1) by (metis append_butlast_last_id)
    then show ?thesis by (simp add: nth_append)
  qed simp
next
  case (Suc k)
  then have "\<not> slash ((p @ n) ! (length p + k))" using assms(2) by (simp add: nth_append)
  then show ?case using Suc by simp
qed

lemma filename_start:
  "p = [] \<or> slash (last p) \<Longrightarrow> \<forall>c \<in> set n. \<not> slash c \<Longrightarrow> CPLFindFilenameStart (p @ n) = length p"
  using filename_start_plain [of p n "length n"] by (simp add: CPLFindFilenameStart_def)

lemma ext_start_dot:
  assumes "char_at s d = CHR ''.''" "f < d" "\<And>j. d < j \<Longrightarrow> char_at s j \<noteq> CHR ''.''"
  shows "ext_start_loop s f (d + k) = d"
proof (induction k)
  case 0
  then show ?case using assms(1,2) by (cases d) auto
next
  case (Suc k)
  then show ?case using assms(2) assms(3) [of "d + Suc k"] by simp
qed

text \<open>A directory, a base name and an extension without dots, and the name of the file.\<close>

definition dir_ok :: "string \<Rightarrow> bool" where
  "dir_ok d \<longleftrightarrow> cstr d \<and> d \<noteq> [] \<and> \<not> slash (last d)"

definition part_ok :: "string \<Rightarrow> bool" where
  "part_ok b \<longleftrightarrow> cstr b \<and> (\<forall>c \<in> set b. \<not> slash c)"

definition file_name :: "string \<Rightarrow> string \<Rightarrow> string \<Rightarrow> string" where
  "file_name d b e = d @ ''/'' @ b @ ''.'' @ e"

lemma file_name_cstr: "dir_ok d \<Longrightarrow> part_ok b \<Longrightarrow> part_ok e \<Longrightarrow> cstr (file_name d b e)"
  by (simp add: dir_ok_def part_ok_def file_name_def)

lemma file_name_start:
  "part_ok b \<Longrightarrow> part_ok e \<Longrightarrow> CPLFindFilenameStart (file_name d b e) = length d + 1"
  using filename_start [of "d @ ''/''" "b @ ''.'' @ e"]
  by (simp add: part_ok_def file_name_def slash_def ball_Un)

lemma file_name_dir:
  assumes "dir_ok d" "part_ok b" "part_ok e" "length (file_name d b e) < CPL_PATH_BUF_SIZE"
  shows "dir_part alone (file_name d b e) = d"
proof -
  have "length d + 1 < CPL_PATH_BUF_SIZE" using assms(4) by (simp add: file_name_def)
  moreover have "file_name d b e ! length d = CHR ''/''" by (simp add: file_name_def nth_append)
  moreover have "0 < length d" using assms(1) by (simp add: dir_ok_def)
  ultimately show ?thesis
    using file_name_start [OF assms(2,3), of d] by (simp add: dir_part_def slash_def) (simp add: file_name_def)
qed

lemma file_name_filename: "part_ok b \<Longrightarrow> part_ok e \<Longrightarrow> CPLGetFilename (file_name d b e) = b @ ''.'' @ e"
  using file_name_start [of b e d] by (simp add: CPLGetFilename_def) (simp add: file_name_def)

lemma file_name_ext_start:
  assumes "part_ok b" "part_ok e" "b \<noteq> []" "CHR ''.'' \<notin> set e"
  shows "ext_start_loop (file_name d b e) (length d + 1) (length (file_name d b e)) = length d + 1 + length b"
proof -
  let ?k = "length d + 1 + length b"
  have f: "file_name d b e = (d @ ''/'' @ b) @ CHR ''.'' # e" by (simp add: file_name_def)
  have "char_at (file_name d b e) ?k = CHR ''.''"
    unfolding f using char_at_append_length [of "d @ ''/'' @ b"] by simp
  moreover have "char_at (file_name d b e) j \<noteq> CHR ''.''" if "?k < j" for j
    unfolding f using assms(4) that by (auto simp: char_at_def nth_append nth_Cons in_set_conv_nth split: nat.splits)
  moreover have "length (file_name d b e) = ?k + (1 + length e)" by (simp add: file_name_def)
  ultimately show ?thesis using ext_start_dot [of "file_name d b e" ?k "length d + 1" "1 + length e"] assms(3) by simp
qed

lemma file_name_base:
  assumes "part_ok b" "part_ok e" "b \<noteq> []" "CHR ''.'' \<notin> set e" "length (file_name d b e) < CPL_PATH_BUF_SIZE"
  shows "base_part (file_name d b e) = b" "ext_part (file_name d b e) = e"
  using file_name_start [OF assms(1,2), of d] file_name_ext_start [OF assms(1-4), of d] assms(3,5)
  by (simp_all add: base_part_def ext_part_def Let_def) (simp_all add: file_name_def)

lemma strip_length_dot:
  assumes "s ! d = CHR ''.''" "0 < d" "\<And>j. d < j \<Longrightarrow> j \<le> d + k \<Longrightarrow>
    s ! j \<noteq> CHR ''.'' \<and> \<not> slash (s ! j) \<and> s ! j \<noteq> CHR '':''"
  shows "strip_length s (d + k) = d"
  using assms(3)
proof (induction k)
  case 0
  then show ?case using assms(1,2) by (cases d) auto
next
  case (Suc k)
  then show ?case using Suc.prems [of "d + Suc k"] by simp
qed

lemma file_name_stripped:
  assumes "part_ok e" "CHR ''.'' \<notin> set e" "CHR '':'' \<notin> set e"
  shows "stripped (file_name d b e) = d @ ''/'' @ b"
proof -
  let ?k = "length d + 1 + length b"
  have f: "file_name d b e = (d @ ''/'' @ b) @ CHR ''.'' # e" by (simp add: file_name_def)
  have "file_name d b e ! j \<noteq> CHR ''.'' \<and> \<not> slash (file_name d b e ! j) \<and> file_name d b e ! j \<noteq> CHR '':''"
    if j: "?k < j" "j \<le> ?k + length e" for j
  proof -
    define i where "i = j - ?k - 1"
    have i: "j = length (d @ ''/'' @ b) + Suc i" "i < length e" using j by (simp_all add: i_def)
    have "file_name d b e ! j = e ! i" unfolding f i(1) nth_append_length_plus by simp
    moreover have "e ! i \<in> set e" using i(2) by simp
    ultimately show ?thesis using assms unfolding part_ok_def by metis
  qed
  moreover have "file_name d b e ! ?k = CHR ''.''" unfolding f by (simp add: nth_append)
  ultimately have "strip_length (file_name d b e) (?k + length e) = ?k" by (intro strip_length_dot) auto
  moreover have "length (file_name d b e) - 1 = ?k + length e" by (simp add: file_name_def)
  ultimately have "stripped (file_name d b e) = take ?k (file_name d b e)" by (simp only: stripped_def)
  then show ?thesis by (simp add: f)
qed

lemma joined_file_name:
  assumes "dir_ok d" "part_ok b"
  shows "char_at e 0 \<noteq> CHR ''.'' \<Longrightarrow> e \<noteq> [] \<Longrightarrow> joined (Some d) b (Some e) = file_name d b e"
    and "joined (Some d) b (Some (CHR ''.'' # e)) = file_name d b e"
proof -
  have "char_at b 1 \<noteq> CHR ''/''" using assms(2) by (auto simp: part_ok_def char_at_def slash_def dest: nth_mem)
  moreover have "added_path_sep d = ''/''"
    using assms(1) by (auto simp: added_path_sep_def dir_ok_def slash_def last_conv_nth)
  ultimately show "char_at e 0 \<noteq> CHR ''.'' \<Longrightarrow> e \<noteq> [] \<Longrightarrow> joined (Some d) b (Some e) = file_name d b e"
    "joined (Some d) b (Some (CHR ''.'' # e)) = file_name d b e"
    by (simp_all add: joined_def file_name_def char_at_def Let_def)
qed

lemma ring_steps:
  assumes "i < 10"
  shows "i \<noteq> (i + 1) mod 10 \<and> (i + 1) mod 10 \<noteq> ((i + 1) mod 10 + 1) mod 10 \<and> i \<noteq> ((i + 1) mod 10 + 1) mod (10 :: nat)"
proof -
  have "i \<in> {0, 1, 2, 3, 4, 5, 6, 7, 8, 9}" using assms by (simp add: numeral_eq_Suc less_Suc_eq)
  then show ?thesis by (elim insertE emptyE) simp_all
qed

text \<open>C40: The path, base name and extension of a file name are its parts, all three still readable after the three
  calls; joining them gives the file name back, and resetting the extension replaces only the extension.\<close>

theorem path_parts_roundtrip:
  assumes "path_ring_ok r" and "dir_ok d" and "part_ok b" and "b \<noteq> []" and "part_ok e" and "e \<noteq> []"
    and "CHR ''.'' \<notin> set e" and "CHR '':'' \<notin> set e" and "length (file_name d b e) < CPL_PATH_BUF_SIZE"
    and "cstr e'" and "length (file_name d b e') < CPL_PATH_BUF_SIZE"
  shows "\<exists>r1 r2 r3 r4 r5 i j k m n. CPLGetPath r (file_name d b e) = Some (r1, i)
    \<and> CPLGetBasename r1 (file_name d b e) = Some (r2, j) \<and> CPLGetExtension r2 (file_name d b e) = Some (r3, k)
    \<and> path_value r3 i = d \<and> path_value r3 j = b \<and> path_value r3 k = e
    \<and> CPLFormFilename r3 (Some (path_value r3 i)) (path_value r3 j) (Some (path_value r3 k)) = Some (r4, m)
    \<and> path_value r4 m = file_name d b e
    \<and> CPLResetExtension r4 (file_name d b e) e' = Some (r5, n) \<and> path_value r5 n = file_name d b e'"
proof -
  let ?s = "file_name d b e" and ?N = CPL_PATH_BUF_COUNT
  have cs: "cstr ?s" "cstr d" "cstr b" "cstr e"
    using assms(2,3,5) file_name_cstr by (simp_all add: dir_ok_def part_ok_def)
  have N: "?N = 10" by (simp add: CPL_PATH_BUF_COUNT_def)
  have i: "bufIndex r < 10" using assms(1) by (simp add: path_ring_ok_def N)
  obtain r1 where r1: "CPLGetPath r ?s = Some (r1, bufIndex r)" "path_ring_ok r1" "bufIndex r1 = (bufIndex r + 1) mod 10"
    "path_value r1 (bufIndex r) = d"
    using CPLGetPath_gives [OF assms(1) cs(1)] file_name_dir [OF assms(2,3,5,9)] by (auto simp: gives_def N)
  obtain r2 where r2: "CPLGetBasename r1 ?s = Some (r2, bufIndex r1)" "path_ring_ok r2"
    "bufIndex r2 = (bufIndex r1 + 1) mod 10" "path_value r2 (bufIndex r1) = b"
    "\<forall>j. j \<noteq> bufIndex r1 \<longrightarrow> bufs r2 ! j = bufs r1 ! j"
    using CPLGetBasename_gives [OF r1(2) cs(1)] file_name_base(1) [OF assms(3,5,4,7,9)] by (auto simp: gives_def N)
  obtain r3 where r3: "CPLGetExtension r2 ?s = Some (r3, bufIndex r2)" "path_ring_ok r3" "path_value r3 (bufIndex r2) = e"
    "\<forall>j. j \<noteq> bufIndex r2 \<longrightarrow> bufs r3 ! j = bufs r2 ! j"
    using CPLGetExtension_gives [OF r2(2) cs(1)] file_name_base(2) [OF assms(3,5,4,7,9)] by (auto simp: gives_def N)
  have ne: "bufIndex r \<noteq> bufIndex r1" "bufIndex r1 \<noteq> bufIndex r2" "bufIndex r \<noteq> bufIndex r2"
    using ring_steps [OF i] unfolding r2(3) r1(3) by blast+
  have v: "path_value r3 (bufIndex r) = d" "path_value r3 (bufIndex r1) = b"
    using r1(4) r2(4,5) r3(4) ne by (simp_all add: path_value_def)
  have "char_at e 0 \<noteq> CHR ''.''" using assms(6,7) by (cases e) (auto simp: char_at_def)
  then have "joined (Some d) b (Some e) = ?s" by (rule joined_file_name(1) [OF assms(2,3) _ assms(6)])
  then obtain r4 where r4: "CPLFormFilename r3 (Some d) b (Some e) = Some (r4, bufIndex r3)" "path_ring_ok r4"
    "path_value r4 (bufIndex r3) = ?s"
    using CPLFormFilename_gives [OF r3(2), of "Some d" b "Some e"] cs assms(9) by (auto simp: gives_def fits_def)
  have "stripped ?s @ ''.'' @ e' = file_name d b e'"
    unfolding file_name_stripped [OF assms(5,7,8)] by (simp add: file_name_def)
  then obtain r5 where "CPLResetExtension r4 ?s e' = Some (r5, bufIndex r4)" "path_value r5 (bufIndex r4) = file_name d b e'"
    using CPLResetExtension_gives [OF r4(2) cs(1) assms(10)] assms(9,11) by (auto simp: gives_def fits_def)
  then show ?thesis using r1(1) r2(1) r3(1,3) r4(1,3) v by auto
qed

theorem path_parts_roundtrip_witness:
  "\<exists>r1 r2 r3 i j k. CPLGetPath new_ring ''/data/img.tar.gz'' = Some (r1, i)
    \<and> CPLGetBasename r1 ''/data/img.tar.gz'' = Some (r2, j) \<and> CPLGetExtension r2 ''/data/img.tar.gz'' = Some (r3, k)
    \<and> path_value r3 i = ''/data'' \<and> path_value r3 j = ''img.tar'' \<and> path_value r3 k = ''gz''"
proof -
  have f: "file_name ''/data'' ''img.tar'' ''gz'' = ''/data/img.tar.gz''" by (simp add: file_name_def)
  have "dir_ok ''/data''" "part_ok ''img.tar''" "part_ok ''gz''" "cstr ''zip''" by code_simp+
  from path_parts_roundtrip [OF new_ring_ok this(1,2) _ this(3) _ _ _ _ this(4)] show ?thesis
    unfolding f by (simp add: CPL_PATH_BUF_SIZE_def file_name_def) blast
qed

section \<open>Relative names and sets of files\<close>

text \<open>A target below a base directory is made relative by cutting off the directory, in any case of letters, and
  projecting the relative name on the directory gives a name for the same target.\<close>

theorem relative_path_roundtrip:
  assumes "path_ring_ok r" and "dir_ok d" and "cstr d'" and "same_name d d'" and "\<not> EQUAL d ''.''"
    and "cstr t" and "CPLIsFilenameRelative t" and "length (d @ ''/'' @ t) < CPL_PATH_BUF_SIZE"
  shows "CPLExtractRelativePath (Some d) (d' @ ''/'' @ t) = (length d' + 1, True)
    \<and> (\<exists>r' k. CPLProjectRelativeFilename r (Some d) (drop (length d' + 1) (d' @ ''/'' @ t)) = Some (r', Static k)
         \<and> path_value r' k = d @ ''/'' @ t)"
proof -
  have d: "cstr d" "d \<noteq> []" "\<not> slash (last d)" using assms(2) by (simp_all add: dir_ok_def)
  have l: "length d = length d'" using same_name_length [OF assms(4)] .
  have cs: "cstr (d' @ ''/'' @ t)" using assms(3,6) by simp
  have "EQUALN d (d' @ ''/'' @ t) (length d)"
    using EQUALN_iff [OF d(1) cs, of "length d"] assms(4) l by (simp add: same_name_def)
  moreover have "d' \<noteq> []" using d(2) l by auto
  ultimately have 1: "CPLExtractRelativePath (Some d) (d' @ ''/'' @ t) = (length d' + 1, True)"
    using d(2) assms(5) l by (simp add: CPLExtractRelativePath_def char_at_def nth_append)
  have sep: "d ! (length d - 1) \<noteq> CHR ''/''" "d ! (length d - 1) \<noteq> bslash"
    using d(2,3) by (simp_all add: slash_def last_conv_nth)
  have "gives r (static_call r (\<lambda>buf. do {
        (buf, n) \<leftarrow> CPLStrlcpy buf 0 d CPL_PATH_BUF_SIZE;
        if n \<ge> CPL_PATH_BUF_SIZE then CPLStaticBufferTooSmall buf else finish (append_all buf [''/'', t]) }))
      (if length (d @ concat [''/'', t]) < CPL_PATH_BUF_SIZE then d @ concat [''/'', t] else '''')"
    using d(1) assms(6) by (intro static_gives [OF assms(1)] copy_append_holds) simp_all
  then obtain r' where "static_call r (\<lambda>buf. do {
        (buf, n) \<leftarrow> CPLStrlcpy buf 0 d CPL_PATH_BUF_SIZE;
        if n \<ge> CPL_PATH_BUF_SIZE then CPLStaticBufferTooSmall buf else finish (append_all buf [''/'', t]) })
      = Some (r', bufIndex r)" "path_value r' (bufIndex r) = d @ ''/'' @ t"
    using assms(8) unfolding gives_def by auto
  then have "CPLProjectRelativeFilename r (Some d) t = Some (r', Static (bufIndex r))"
    using assms(7) d(2) sep by (simp add: CPLProjectRelativeFilename_def Let_def del: append_all.simps cong: if_cong)
  moreover have "drop (length d' + 1) (d' @ ''/'' @ t) = t" by simp
  ultimately show ?thesis using 1 \<open>path_value r' (bufIndex r) = d @ ''/'' @ t\<close> by auto
qed

theorem relative_path_roundtrip_witness:
  "CPLExtractRelativePath (Some ''/Data'') ''/data/x/y.tif'' = (6, True)
   \<and> (\<exists>r' k. CPLProjectRelativeFilename new_ring (Some ''/Data'') ''x/y.tif'' = Some (r', Static k)
        \<and> path_value r' k = ''/Data/x/y.tif'')"
proof -
  have h: "dir_ok ''/Data''" "cstr ''/data''" "same_name ''/Data'' ''/data''" "\<not> EQUAL ''/Data'' ''.''" "cstr ''x/y.tif''"
    "CPLIsFilenameRelative ''x/y.tif''" by code_simp+
  have "length (''/Data'' @ ''/'' @ ''x/y.tif'') < CPL_PATH_BUF_SIZE" by (simp add: CPL_PATH_BUF_SIZE_def)
  from relative_path_roundtrip [OF new_ring_ok h this] show ?thesis by simp
qed

lemma copied_gives: "gives r x res \<Longrightarrow> \<exists>r'. copied x = Some (r', res) \<and> path_ring_ok r'"
  by (auto simp: gives_def copied_def)

lemma base_part_copied:
  "path_ring_ok r \<Longrightarrow> cstr s \<Longrightarrow> \<exists>r'. copied (CPLGetBasename r s) = Some (r', base_part s) \<and> path_ring_ok r'"
  using copied_gives CPLGetBasename_gives by blast

lemma path_copied:
  "path_ring_ok r \<Longrightarrow> cstr s \<Longrightarrow> \<exists>r'. copied (CPLGetPath r s) = Some (r', dir_part '''' s) \<and> path_ring_ok r'"
  using copied_gives CPLGetPath_gives by blast

lemma check_basenames_ok:
  assumes "dir_ok d" "part_ok b" "path_ring_ok r"
    "\<forall>e \<in> set es. part_ok e \<and> length (file_name d b e) < CPL_PATH_BUF_SIZE"
  shows "\<exists>r'. check_basenames r d b (map (file_name d b) es) = Some (r', True) \<and> path_ring_ok r'"
  using assms(3,4)
proof (induction es arbitrary: r)
  case (Cons e es)
  then have e: "part_ok e" "length (file_name d b e) < CPL_PATH_BUF_SIZE" by simp_all
  note cs = file_name_cstr [OF assms(1,2) e(1)]
  obtain r1 where r1: "copied (CPLGetBasename r (file_name d b e)) = Some (r1, base_part (file_name d b e))"
    "path_ring_ok r1" using base_part_copied [OF Cons.prems(1) cs] by blast
  show ?case
  proof (cases "b = base_part (file_name d b e)")
    case True
    then show ?thesis using r1 Cons.IH [OF r1(2)] Cons.prems(2) by simp
  next
    case False
    obtain r2 where r2: "copied (CPLGetPath r1 (file_name d b e)) = Some (r2, d)" "path_ring_ok r2"
      using path_copied [OF r1(2) cs] file_name_dir [OF assms(1,2) e] by auto
    have "cstr b" "cstr (b @ ''.'' @ e)" using assms(2) e(1) by (simp_all add: part_ok_def)
    then have "EQUALN (b @ ''.'' @ e) b (length b)" by (subst EQUALN_iff) simp_all
    then show ?thesis
      using False r1(1) r2 Cons.IH [OF r2(2)] Cons.prems(2) file_name_filename [OF assms(2) e(1), of d]
      by (simp add: char_at_def nth_append)
  qed
qed simp

lemma new_names_result:
  assumes "dir_ok d'" "part_ok b" "part_ok b'" "b \<noteq> b'" "path_ring_ok r"
    "\<forall>e \<in> set es. part_ok e \<and> length (file_name d' b' e) < CPL_PATH_BUF_SIZE"
  shows "\<exists>r'. new_names r d' b b' (map (file_name d b) es) acc
    = Some (r', if es = [] then acc else Some (strings acc @ map (file_name d' b') es))"
  using assms(5,6)
proof (induction es arbitrary: r acc)
  case (Cons e es)
  then have e: "part_ok e" "length (file_name d' b' e) < CPL_PATH_BUF_SIZE" by simp_all
  have "joined (Some d') b' (Some (CHR ''.'' # e)) = file_name d' b' e" by (rule joined_file_name(2) [OF assms(1,3)])
  moreover have "cstr d'" "cstr b'" "cstr (CHR ''.'' # e)" using assms(1,3) e(1) by (simp_all add: dir_ok_def part_ok_def)
  ultimately obtain r1 where r1: "copied (CPLFormFilename r (Some d') b' (Some (CHR ''.'' # e))) = Some (r1, file_name d' b' e)"
    "path_ring_ok r1"
    using copied_gives [OF CPLFormFilename_gives [OF Cons.prems(1), of "Some d'" b' "Some (CHR ''.'' # e)"]] e(2)
    by (auto simp: fits_def)
  have "strings (CSLAddString acc (Some x)) = strings acc @ [x]" for x
    by (cases acc) (simp_all add: CSLAddString_def)
  then show ?case
    using r1(1) Cons.IH [OF r1(2), of "CSLAddString acc (Some (file_name d' b' e))"] Cons.prems(2)
      file_name_filename [OF assms(2) e(1), of d] assms(4)
    by (cases "es = []") (auto simp: CSLAddString_def split: option.splits)
qed simp

text \<open>When a file is renamed from one directory and base name to others, the files beside it with the same base
  name and any extensions, also with several dots, get the new directory and base name and keep their
  extensions.\<close>

theorem corresponding_paths_rename:
  assumes "path_ring_ok r" and "dir_ok d" and "dir_ok d'" and "part_ok b" and "part_ok b'" and "b \<noteq> []" and "b' \<noteq> []"
    and "b \<noteq> b'" and "part_ok e0" and "CHR ''.'' \<notin> set e0" and "es \<noteq> []"
    and "\<forall>e \<in> set (e0 # es). part_ok e \<and> length (file_name d b e) < CPL_PATH_BUF_SIZE
        \<and> length (file_name d' b' e) < CPL_PATH_BUF_SIZE"
  shows "\<exists>r'. CPLCorrespondingPaths r (file_name d b e0) (file_name d' b' e0) (Some (map (file_name d b) es))
    = Some (r', Some (map (file_name d' b') es))"
proof -
  let ?o = "file_name d b e0" and ?n = "file_name d' b' e0"
  have e0: "length ?o < CPL_PATH_BUF_SIZE" "length ?n < CPL_PATH_BUF_SIZE" using assms(12) by simp_all
  have cs: "cstr ?o" "cstr ?n" using assms(2-5,9) by (simp_all add: file_name_cstr)
  obtain r1 where r1: "copied (CPLGetPath r ?o) = Some (r1, d)" "path_ring_ok r1"
    using path_copied [OF assms(1) cs(1)] file_name_dir [OF assms(2,4,9) e0(1)] by auto
  obtain r2 where r2: "copied (CPLGetPath r1 ?n) = Some (r2, d')" "path_ring_ok r2"
    using path_copied [OF r1(2) cs(2)] file_name_dir [OF assms(3,5,9) e0(2)] by auto
  obtain r3 where r3: "copied (CPLGetBasename r2 ?o) = Some (r3, b)" "path_ring_ok r3"
    using base_part_copied [OF r2(2) cs(1)] file_name_base(1) [OF assms(4,9,6,10) e0(1)] by auto
  obtain r4 where r4: "copied (CPLGetBasename r3 ?n) = Some (r4, b')" "path_ring_ok r4"
    using base_part_copied [OF r3(2) cs(2)] file_name_base(1) [OF assms(5,9,7,10) e0(2)] by auto
  obtain r5 where r5: "check_basenames r4 d b (map (file_name d b) es) = Some (r5, True)" "path_ring_ok r5"
    using check_basenames_ok [OF assms(2,4) r4(2), of es] assms(12) by auto
  obtain r6 where r6: "new_names r5 d' b b' (map (file_name d b) es) None = Some (r6, Some (map (file_name d' b') es))"
    using new_names_result [OF assms(3,4,5,8) r5(2), of es d None] assms(11,12) by auto
  have x: "drop (length b) (CPLGetFilename ?o) = drop (length b') (CPLGetFilename ?n)"
    using file_name_filename [OF assms(4,9), of d] file_name_filename [OF assms(5,9), of d'] by simp
  show ?thesis
  proof (cases "length es = 1 \<and> ?o = map (file_name d b) es ! 0")
    case True
    then obtain e where e: "es = [e]" "file_name d b e0 = file_name d b e"
      using assms(11) by (cases es) auto
    then have "e = e0" by (simp add: file_name_def)
    then show ?thesis using e r1(1) r2(1) r3(1) r4(1) by (simp add: CPLCorrespondingPaths_def CSLCount_def CSLAddString_def)
  next
    case False
    then show ?thesis using r1(1) r2(1) r3(1) r4(1) r5(1) r6 x assms(8,11)
      by (auto simp: CPLCorrespondingPaths_def CSLCount_def)
  qed
qed

theorem corresponding_paths_rename_witness:
  "\<exists>r'. CPLCorrespondingPaths new_ring ''/a/img.tif'' ''/b/new.tif'' (Some [''/a/img.tif'', ''/a/img.tif.aux''])
    = Some (r', Some [''/b/new.tif'', ''/b/new.tif.aux''])"
proof -
  have h: "dir_ok ''/a''" "dir_ok ''/b''" "part_ok ''img''" "part_ok ''new''" "part_ok ''tif''" "part_ok ''tif.aux''"
    by code_simp+
  have "\<forall>e \<in> set (''tif'' # [''tif'', ''tif.aux'']). part_ok e \<and> length (file_name ''/a'' ''img'' e) < CPL_PATH_BUF_SIZE
      \<and> length (file_name ''/b'' ''new'' e) < CPL_PATH_BUF_SIZE"
    using h(5,6) by (simp add: file_name_def CPL_PATH_BUF_SIZE_def)
  from corresponding_paths_rename [OF new_ring_ok h(1-4) _ _ _ h(5) _ _ this] show ?thesis
    by (simp add: file_name_def)
qed

end
