(* ===== verification/Cpl_Quad_Tree.thy ===== *)
theory Cpl_Quad_Tree
  imports Cpl_Prelude "HOL-Library.Monad_Syntax" "HOL-Library.Multiset"
begin

text \<open>
  The quad tree of \<^verbatim>\<open>port/cpl_quad_tree.cpp\<close>: features are kept in nodes by their bounding rectangles. Coordinates
  are an ordered type \<open>'a\<close> (doubles that are not NaN) and the arithmetic on them is a parameter (\<open>'a arith\<close>): nothing is
  assumed about rounding. A node owns its subnodes, so the tree is a datatype. The callback \<^verbatim>\<open>pfnGetBounds\<close> is a function
  of the feature. The value \<open>None\<close> is a call that does not return, or a write outside the result array.
\<close>

section \<open>Rectangles\<close>

record 'a CPLRectObj =
  minx :: 'a
  miny :: 'a
  maxx :: 'a
  maxy :: 'a

record 'a arith =
  dadd :: "'a \<Rightarrow> 'a \<Rightarrow> 'a"
  dsub :: "'a \<Rightarrow> 'a \<Rightarrow> 'a"
  dmul :: "'a \<Rightarrow> 'a \<Rightarrow> 'a"

definition CPL_RectContained :: "('a::linorder) CPLRectObj \<Rightarrow> 'a CPLRectObj \<Rightarrow> bool" where
  "CPL_RectContained a b \<longleftrightarrow> minx a \<ge> minx b \<and> maxx a \<le> maxx b \<and> miny a \<ge> miny b \<and> maxy a \<le> maxy b"

definition CPL_RectOverlap :: "('a::linorder) CPLRectObj \<Rightarrow> 'a CPLRectObj \<Rightarrow> bool" where
  "CPL_RectOverlap a b \<longleftrightarrow>
     (if minx a > maxx b then False else if maxx a < minx b then False
      else if miny a > maxy b then False else if maxy a < miny b then False else True)"

section \<open>Trees\<close>

datatype ('f, 'a) QuadTreeNode =
  QuadTreeNode (rect: "'a CPLRectObj") (pahFeatures: "'f list") (apSubNode: "('f, 'a) QuadTreeNode list")

record ('f, 'a) CPLQuadTree =
  psRoot :: "('f, 'a) QuadTreeNode"
  pfnGetBounds :: "'f \<Rightarrow> 'a CPLRectObj"
  nFeatures :: int
  nMaxDepth :: int
  nBucketCapacity :: int
  dfSplitRatio :: 'a

definition CPLQuadTreeNodeCreate :: "'a CPLRectObj \<Rightarrow> ('f, 'a) QuadTreeNode" where
  "CPLQuadTreeNodeCreate pRect = QuadTreeNode pRect [] []"

text \<open>The default split ratio is the double nearest to 0.55.\<close>

definition CPLQuadTreeCreate :: "'a \<Rightarrow> 'a CPLRectObj \<Rightarrow> ('f \<Rightarrow> 'a CPLRectObj) \<Rightarrow> ('f, 'a) CPLQuadTree" where
  "CPLQuadTreeCreate DEFAULT_SPLIT_RATIO pGlobalBounds getBounds =
     \<lparr>psRoot = CPLQuadTreeNodeCreate pGlobalBounds, pfnGetBounds = getBounds, nFeatures = 0, nMaxDepth = 0,
      nBucketCapacity = 8, dfSplitRatio = DEFAULT_SPLIT_RATIO\<rparr>"

definition MAX_DEFAULT_TREE_DEPTH :: int where "MAX_DEFAULT_TREE_DEPTH = 12"

partial_function (option) advised_loop :: "int \<Rightarrow> int \<Rightarrow> int \<Rightarrow> int option" where
  "advised_loop nExpectedFeatures depth nMaxNodeCount =
     (if int32 (nMaxNodeCount * 4) < nExpectedFeatures
      then advised_loop nExpectedFeatures (depth + 1) (int32 (nMaxNodeCount * 2)) else Some depth)"

definition CPLQuadTreeGetAdvisedMaxDepth :: "int \<Rightarrow> int option" where
  "CPLQuadTreeGetAdvisedMaxDepth nExpectedFeatures =
     map_option (\<lambda>n. if n > MAX_DEFAULT_TREE_DEPTH then MAX_DEFAULT_TREE_DEPTH else n) (advised_loop nExpectedFeatures 0 1)"

definition CPLQuadTreeSetMaxDepth :: "('f, 'a) CPLQuadTree \<Rightarrow> int \<Rightarrow> ('f, 'a) CPLQuadTree" where
  "CPLQuadTreeSetMaxDepth hQuadTree n = hQuadTree\<lparr>nMaxDepth := n\<rparr>"

definition CPLQuadTreeSetBucketCapacity :: "('f, 'a) CPLQuadTree \<Rightarrow> int \<Rightarrow> ('f, 'a) CPLQuadTree" where
  "CPLQuadTreeSetBucketCapacity hQuadTree n = hQuadTree\<lparr>nBucketCapacity := n\<rparr>"

section \<open>Insertion\<close>

definition CPLQuadTreeSplitBounds ::
    "('a::linorder) arith \<Rightarrow> 'a \<Rightarrow> 'a CPLRectObj \<Rightarrow> 'a CPLRectObj \<times> 'a CPLRectObj" where
  "CPLQuadTreeSplitBounds A ratio r =
     (if dsub A (maxx r) (minx r) > dsub A (maxy r) (miny r) then
        let range = dsub A (maxx r) (minx r)
        in (r\<lparr>maxx := dadd A (minx r) (dmul A range ratio)\<rparr>, r\<lparr>minx := dsub A (maxx r) (dmul A range ratio)\<rparr>)
      else
        let range = dsub A (maxy r) (miny r)
        in (r\<lparr>maxy := dadd A (miny r) (dmul A range ratio)\<rparr>, r\<lparr>miny := dsub A (maxy r) (dmul A range ratio)\<rparr>))"

text \<open>The four quarters of a node.\<close>

definition quads :: "('a::linorder) arith \<Rightarrow> 'a \<Rightarrow> 'a CPLRectObj \<Rightarrow> 'a CPLRectObj list" where
  "quads A ratio r =
     (let (half1, half2) = CPLQuadTreeSplitBounds A ratio r;
          (quad1, quad2) = CPLQuadTreeSplitBounds A ratio half1;
          (quad3, quad4) = CPLQuadTreeSplitBounds A ratio half2
      in [quad1, quad2, quad3, quad4])"

text \<open>The first subnode that contains a rectangle.\<close>

fun first_fit :: "('f, 'a::linorder) QuadTreeNode list \<Rightarrow> 'a CPLRectObj \<Rightarrow> nat option" where
  "first_fit [] pRect = None"
| "first_fit (s # ss) pRect = (if CPL_RectContained pRect (rect s) then Some 0 else map_option Suc (first_fit ss pRect))"

definition add_here :: "('f, 'a) QuadTreeNode \<Rightarrow> 'f \<Rightarrow> ('f, 'a) QuadTreeNode" where
  "add_here n f = QuadTreeNode (rect n) (pahFeatures n @ [f]) (apSubNode n)"

text \<open>
  \<^verbatim>\<open>CPLQuadTreeNodeAddFeatureAlg1\<close> for a list of features one after the other: when a leaf is split, the old features
  and then the new one are added to the node with its new subnodes.
\<close>

partial_function (option) CPLQuadTreeNodeAddFeatureAlg1 ::
    "('a::linorder) arith \<Rightarrow> ('f, 'a) CPLQuadTree \<Rightarrow> ('f, 'a) QuadTreeNode \<Rightarrow> 'f list \<Rightarrow> ('f, 'a) QuadTreeNode option" where
  "CPLQuadTreeNodeAddFeatureAlg1 A t n todo =
     (case todo of [] \<Rightarrow> Some n
      | f # fs \<Rightarrow> do {
          n \<leftarrow> (if apSubNode n = [] then
                 (if int (length (pahFeatures n)) \<ge> nBucketCapacity t
                     \<and> list_ex (CPL_RectContained (pfnGetBounds t f)) (quads A (dfSplitRatio t) (rect n))
                  then CPLQuadTreeNodeAddFeatureAlg1 A t
                         (QuadTreeNode (rect n) [] (map CPLQuadTreeNodeCreate (quads A (dfSplitRatio t) (rect n))))
                         (pahFeatures n @ [f])
                  else Some (add_here n f))
               else
                 (case first_fit (apSubNode n) (pfnGetBounds t f) of
                    Some i \<Rightarrow> do {
                      s \<leftarrow> CPLQuadTreeNodeAddFeatureAlg1 A t (apSubNode n ! i) [f];
                      Some (QuadTreeNode (rect n) (pahFeatures n) ((apSubNode n)[i := s]))
                    }
                  | None \<Rightarrow> Some (add_here n f)));
          CPLQuadTreeNodeAddFeatureAlg1 A t n fs
        })"

function (sequential) CPLQuadTreeNodeAddFeatureAlg2 ::
    "('a::linorder) arith \<Rightarrow> ('f, 'a) CPLQuadTree \<Rightarrow> ('f, 'a) QuadTreeNode \<Rightarrow> 'f \<Rightarrow> int \<Rightarrow> ('f, 'a) QuadTreeNode" where
  "CPLQuadTreeNodeAddFeatureAlg2 A t n f nDepth =
     (if nDepth > 1 \<and> apSubNode n \<noteq> [] then
        (case first_fit (apSubNode n) (pfnGetBounds t f) of
           Some i \<Rightarrow> QuadTreeNode (rect n) (pahFeatures n)
               ((apSubNode n)[i := CPLQuadTreeNodeAddFeatureAlg2 A t (apSubNode n ! i) f (nDepth - 1)])
         | None \<Rightarrow> add_here n f)
      else if nDepth > 1 \<and> apSubNode n = []
          \<and> list_ex (CPL_RectContained (pfnGetBounds t f)) (quads A (dfSplitRatio t) (rect n))
      then CPLQuadTreeNodeAddFeatureAlg2 A t
             (QuadTreeNode (rect n) (pahFeatures n) (map CPLQuadTreeNodeCreate (quads A (dfSplitRatio t) (rect n)))) f nDepth
      else add_here n f)"
  by pat_completeness auto

termination
  by (relation "measures [\<lambda>(A, t, n, f, d). nat d, \<lambda>(A, t, n, f, d). if apSubNode n = [] then 1 else 0]")
    (auto simp: quads_def split: prod.splits)

definition CPLQuadTreeAddFeatureInternal ::
    "('a::linorder) arith \<Rightarrow> ('f, 'a) CPLQuadTree \<Rightarrow> 'f \<Rightarrow> ('f, 'a) CPLQuadTree option" where
  "CPLQuadTreeAddFeatureInternal A t f =
     (if nMaxDepth t = 0 then map_option (\<lambda>n. t\<lparr>psRoot := n\<rparr>) (CPLQuadTreeNodeAddFeatureAlg1 A t (psRoot t) [f])
      else Some (t\<lparr>psRoot := CPLQuadTreeNodeAddFeatureAlg2 A t (psRoot t) f (nMaxDepth t)\<rparr>))"

definition CPLQuadTreeInsert ::
    "('a::linorder) arith \<Rightarrow> ('f, 'a) CPLQuadTree \<Rightarrow> 'f \<Rightarrow> ('f, 'a) CPLQuadTree option" where
  "CPLQuadTreeInsert A t f = CPLQuadTreeAddFeatureInternal A (t\<lparr>nFeatures := nFeatures t + 1\<rparr>) f"

section \<open>Search and traversal\<close>

text \<open>The list of features found so far and the size of its array.\<close>

fun collect_here ::
    "('f \<Rightarrow> ('a::linorder) CPLRectObj) \<Rightarrow> 'a CPLRectObj \<Rightarrow> 'f list \<Rightarrow> 'f list \<Rightarrow> int \<Rightarrow> 'f list option" where
  "collect_here b pAoi [] found nMaxFeatures = Some found"
| "collect_here b pAoi (f # fs) found nMaxFeatures =
     (if CPL_RectOverlap (b f) pAoi then
        if int (length found) < nMaxFeatures then collect_here b pAoi fs (found @ [f]) nMaxFeatures else None
      else collect_here b pAoi fs found nMaxFeatures)"

fun CPLQuadTreeCollectFeatures ::
    "('f \<Rightarrow> ('a::linorder) CPLRectObj) \<Rightarrow> ('f, 'a) QuadTreeNode \<Rightarrow> 'a CPLRectObj \<Rightarrow> 'f list \<times> int \<Rightarrow> ('f list \<times> int) option"
  and collect_subs ::
    "('f \<Rightarrow> ('a::linorder) CPLRectObj) \<Rightarrow> ('f, 'a) QuadTreeNode list \<Rightarrow> 'a CPLRectObj \<Rightarrow> 'f list \<times> int \<Rightarrow> ('f list \<times> int) option"
  where
  "CPLQuadTreeCollectFeatures b (QuadTreeNode r fs subs) pAoi (found, nMaxFeatures) =
     (if \<not> CPL_RectOverlap r pAoi then Some (found, nMaxFeatures)
      else do {
        let nMaxFeatures = (if int (length found) + int (length fs) > nMaxFeatures
                            then (int (length found) + int (length fs)) * 2 + 20 else nMaxFeatures);
        found \<leftarrow> collect_here b pAoi fs found nMaxFeatures;
        collect_subs b subs pAoi (found, nMaxFeatures)
      })"
| "collect_subs b [] pAoi s = Some s"
| "collect_subs b (n # ns) pAoi s = do { s \<leftarrow> CPLQuadTreeCollectFeatures b n pAoi s; collect_subs b ns pAoi s }"

definition CPLQuadTreeSearch :: "('f, 'a::linorder) CPLQuadTree \<Rightarrow> 'a CPLRectObj \<Rightarrow> 'f list option" where
  "CPLQuadTreeSearch t pAoi = map_option fst (CPLQuadTreeCollectFeatures (pfnGetBounds t) (psRoot t) pAoi ([], 0))"

text \<open>The callback gets and returns the user data \<open>'u\<close>.\<close>

fun foreach_features :: "('f \<Rightarrow> 'u \<Rightarrow> bool \<times> 'u) \<Rightarrow> 'f list \<Rightarrow> 'u \<Rightarrow> bool \<times> 'u" where
  "foreach_features fn [] u = (True, u)"
| "foreach_features fn (f # fs) u = (let (go, u) = fn f u in if \<not> go then (False, u) else foreach_features fn fs u)"

fun CPLQuadTreeNodeForeach :: "('f \<Rightarrow> 'u \<Rightarrow> bool \<times> 'u) \<Rightarrow> ('f, 'a) QuadTreeNode \<Rightarrow> 'u \<Rightarrow> bool \<times> 'u"
  and foreach_subs :: "('f \<Rightarrow> 'u \<Rightarrow> bool \<times> 'u) \<Rightarrow> ('f, 'a) QuadTreeNode list \<Rightarrow> 'u \<Rightarrow> bool \<times> 'u" where
  "CPLQuadTreeNodeForeach fn (QuadTreeNode r fs subs) u =
     (let (go, u) = foreach_subs fn subs u in if \<not> go then (False, u) else foreach_features fn fs u)"
| "foreach_subs fn [] u = (True, u)"
| "foreach_subs fn (n # ns) u =
     (let (go, u) = CPLQuadTreeNodeForeach fn n u in if \<not> go then (False, u) else foreach_subs fn ns u)"

definition CPLQuadTreeForeach :: "('f, 'a) CPLQuadTree \<Rightarrow> ('f \<Rightarrow> 'u \<Rightarrow> bool \<times> 'u) \<Rightarrow> 'u \<Rightarrow> 'u" where
  "CPLQuadTreeForeach t fn u = snd (CPLQuadTreeNodeForeach fn (psRoot t) u)"

text \<open>The counts of nodes, the maximal level and the largest number of features of a node.\<close>

fun CPLQuadTreeGetStatsNode :: "('f, 'a) QuadTreeNode \<Rightarrow> int \<Rightarrow> int \<times> int \<times> int \<Rightarrow> int \<times> int \<times> int"
  and stats_subs :: "('f, 'a) QuadTreeNode list \<Rightarrow> int \<Rightarrow> int \<times> int \<times> int \<Rightarrow> int \<times> int \<times> int" where
  "CPLQuadTreeGetStatsNode (QuadTreeNode r fs subs) nDepthLevel (nNodeCount, depth, nMaxBucketCapacity) =
     stats_subs subs nDepthLevel (nNodeCount + 1, if nDepthLevel > depth then nDepthLevel else depth,
       if int (length fs) > nMaxBucketCapacity then int (length fs) else nMaxBucketCapacity)"
| "stats_subs [] nDepthLevel s = s"
| "stats_subs (n # ns) nDepthLevel s = stats_subs ns nDepthLevel (CPLQuadTreeGetStatsNode n (nDepthLevel + 1) s)"

definition CPLQuadTreeGetStats :: "('f, 'a) CPLQuadTree \<Rightarrow> int \<times> int \<times> int \<times> int" where
  "CPLQuadTreeGetStats t = (nFeatures t, CPLQuadTreeGetStatsNode (psRoot t) 0 (0, 1, 0))"

declare CPLQuadTreeNodeAddFeatureAlg2.simps [simp del]

section \<open>The features of a tree\<close>

fun feats :: "('f, 'a) QuadTreeNode \<Rightarrow> 'f list" where
  "feats (QuadTreeNode r fs subs) = fs @ concat (map feats subs)"

text \<open>The features of a subnode are inside its rectangle.\<close>

fun nested_in :: "('f \<Rightarrow> ('a::linorder) CPLRectObj) \<Rightarrow> ('f, 'a) QuadTreeNode \<Rightarrow> bool" where
  "nested_in b (QuadTreeNode r fs subs) \<longleftrightarrow>
     (\<forall>s \<in> set subs. (\<forall>f \<in> set (feats s). CPL_RectContained (b f) (rect s)) \<and> nested_in b s)"

text \<open>The subnodes of a node are its quarters.\<close>

fun shaped :: "('a::linorder) arith \<Rightarrow> 'a \<Rightarrow> ('f, 'a) QuadTreeNode \<Rightarrow> bool" where
  "shaped A q (QuadTreeNode r fs subs) \<longleftrightarrow> (subs = [] \<or> map rect subs = quads A q r) \<and> (\<forall>s \<in> set subs. shaped A q s)"

lemma feats_node: "feats n = pahFeatures n @ concat (map feats (apSubNode n))"
  by (cases n) simp

lemma inside_node: "nested_in b n \<longleftrightarrow>
     (\<forall>s \<in> set (apSubNode n). (\<forall>f \<in> set (feats s). CPL_RectContained (b f) (rect s)) \<and> nested_in b s)"
  by (cases n) simp

lemma shaped_node: "shaped A q n \<longleftrightarrow> (apSubNode n = [] \<or> map rect (apSubNode n) = quads A q (rect n)) \<and> (\<forall>s \<in> set (apSubNode n). shaped A q s)"
  by (cases n) simp

lemma node_create [simp]: "feats (CPLQuadTreeNodeCreate r) = []" "nested_in b (CPLQuadTreeNodeCreate r)"
  "shaped A q (CPLQuadTreeNodeCreate r)" "rect (CPLQuadTreeNodeCreate r) = r"
  by (simp_all add: CPLQuadTreeNodeCreate_def)

lemma add_here_facts [simp]: "rect (add_here n f) = rect n" "mset (feats (add_here n f)) = add_mset f (mset (feats n))"
  "nested_in b (add_here n f) \<longleftrightarrow> nested_in b n" "shaped A q (add_here n f) \<longleftrightarrow> shaped A q n"
  "apSubNode (add_here n f) = apSubNode n" "pahFeatures (add_here n f) = pahFeatures n @ [f]"
  by (simp_all add: add_here_def feats_node [of n] inside_node [of b n] shaped_node [of A q n])

lemma first_fit_Some: "first_fit subs p = Some i \<Longrightarrow> i < length subs \<and> CPL_RectContained p (rect (subs ! i))"
  by (induction subs arbitrary: i) (auto split: if_splits)

lemma mset_feats_update:
  "i < length subs \<Longrightarrow> mset (feats s) = mset (feats (subs ! i)) + M
    \<Longrightarrow> mset (concat (map feats (subs[i := s]))) = mset (concat (map feats subs)) + M"
  by (induction subs arbitrary: i) (auto split: nat.split)

text \<open>A subnode gets one more feature that is inside its rectangle.\<close>

lemma update_sub:
  assumes i: "i < length (apSubNode n)" and f: "CPL_RectContained (b f) (rect (apSubNode n ! i))"
    and s: "rect s = rect (apSubNode n ! i)" "mset (feats s) = add_mset f (mset (feats (apSubNode n ! i)))"
      "nested_in b (apSubNode n ! i) \<Longrightarrow> nested_in b s" "shaped A q (apSubNode n ! i) \<Longrightarrow> shaped A q s"
  shows "mset (feats (QuadTreeNode (rect n) (pahFeatures n) ((apSubNode n)[i := s]))) = add_mset f (mset (feats n))"
    and "nested_in b n \<Longrightarrow> nested_in b (QuadTreeNode (rect n) (pahFeatures n) ((apSubNode n)[i := s]))"
    and "shaped A q n \<Longrightarrow> shaped A q (QuadTreeNode (rect n) (pahFeatures n) ((apSubNode n)[i := s]))"
proof -
  let ?subs = "apSubNode n"
  show "mset (feats (QuadTreeNode (rect n) (pahFeatures n) (?subs[i := s]))) = add_mset f (mset (feats n))"
    using mset_feats_update [OF i, of s "{#f#}"] s(2) by (simp add: feats_node [of n])
  have mem: "?subs ! i \<in> set ?subs" using i by simp
  have sub: "c = s \<or> c \<in> set ?subs" if "c \<in> set (?subs[i := s])" for c using set_update_subset_insert [of ?subs i s] that by auto
  show "nested_in b (QuadTreeNode (rect n) (pahFeatures n) (?subs[i := s]))" if w: "nested_in b n"
  proof -
    have "\<forall>g \<in> set (feats (?subs ! i)). CPL_RectContained (b g) (rect (?subs ! i))" "nested_in b (?subs ! i)"
      using w mem unfolding inside_node [of b n] by blast+
    moreover have "set (feats s) = insert f (set (feats (?subs ! i)))" using s(2) by (metis set_mset_add_mset_insert set_mset_mset)
    ultimately have "(\<forall>g \<in> set (feats s). CPL_RectContained (b g) (rect s)) \<and> nested_in b s" using s(1,3) f by auto
    then show ?thesis using w sub unfolding inside_node [of b n] by auto
  qed
  show "shaped A q (QuadTreeNode (rect n) (pahFeatures n) (?subs[i := s]))" if w: "shaped A q n"
  proof -
    have "map rect (?subs[i := s]) = map rect ?subs" using i s(1) by (simp add: map_update list_update_same_conv)
    moreover have "\<forall>c \<in> set (?subs[i := s]). shaped A q c" using w sub s(4) mem unfolding shaped_node [of A q n] by blast
    moreover have "?subs \<noteq> []" using i by auto
    ultimately show ?thesis using w unfolding shaped_node [of A q n] by simp
  qed
qed

text \<open>A leaf is split: it gets four empty subnodes.\<close>

lemma split_facts:
  "nested_in b (QuadTreeNode r fs (map CPLQuadTreeNodeCreate rs))" "feats (QuadTreeNode r fs (map CPLQuadTreeNodeCreate rs)) = fs"
  "shaped A q (QuadTreeNode r fs (map CPLQuadTreeNodeCreate (quads A q r)))"
  by (auto simp: comp_def)

section \<open>Insertion adds the feature\<close>

definition adds :: "('a::linorder) arith \<Rightarrow> ('f, 'a) CPLQuadTree \<Rightarrow> ('f, 'a) QuadTreeNode \<Rightarrow> 'f list \<Rightarrow> ('f, 'a) QuadTreeNode \<Rightarrow> bool" where
  "adds A t n fs n' \<longleftrightarrow> rect n' = rect n \<and> mset (feats n') = mset (feats n) + mset fs
     \<and> (nested_in (pfnGetBounds t) n \<longrightarrow> nested_in (pfnGetBounds t) n') \<and> (shaped A (dfSplitRatio t) n \<longrightarrow> shaped A (dfSplitRatio t) n')"

lemma adds_trans: "adds A t n fs n1 \<Longrightarrow> adds A t n1 gs n' \<Longrightarrow> adds A t n (fs @ gs) n'"
  by (simp add: adds_def)

lemma adds_here: "adds A t n [f] (add_here n f)"
  by (simp add: adds_def)

lemma adds_sub:
  assumes "first_fit (apSubNode n) (pfnGetBounds t f) = Some i" "adds A t (apSubNode n ! i) [f] s"
  shows "adds A t n [f] (QuadTreeNode (rect n) (pahFeatures n) ((apSubNode n)[i := s]))"
proof -
  have i: "i < length (apSubNode n)" "CPL_RectContained (pfnGetBounds t f) (rect (apSubNode n ! i))"
    using first_fit_Some [OF assms(1)] by simp_all
  have s: "rect s = rect (apSubNode n ! i)" "mset (feats s) = add_mset f (mset (feats (apSubNode n ! i)))"
    "nested_in (pfnGetBounds t) (apSubNode n ! i) \<Longrightarrow> nested_in (pfnGetBounds t) s"
    "shaped A (dfSplitRatio t) (apSubNode n ! i) \<Longrightarrow> shaped A (dfSplitRatio t) s"
    using assms(2) by (simp_all add: adds_def)
  from update_sub [OF i s] show ?thesis by (simp add: adds_def)
qed

lemma adds_split:
  assumes "apSubNode n = []" "adds A t (QuadTreeNode (rect n) [] (map CPLQuadTreeNodeCreate (quads A (dfSplitRatio t) (rect n)))) (pahFeatures n @ [f]) n'"
  shows "adds A t n [f] n'"
proof -
  have "feats n = pahFeatures n" using assms(1) by (simp add: feats_node)
  then show ?thesis using assms(2) split_facts [where r = "rect n" and fs = "[]"] by (auto simp: adds_def)
qed

lemmas alg1_induct = CPLQuadTreeNodeAddFeatureAlg1.raw_induct [rotated, consumes 1]

lemma alg1_adds: "CPLQuadTreeNodeAddFeatureAlg1 A t n todo = Some n' \<Longrightarrow> adds A t n todo n'"
proof (induction rule: alg1_induct)
  case (1 alg A t n todo n')
  show ?case
  proof (cases todo)
    case Nil
    then show ?thesis using 1(2) by (simp add: adds_def)
  next
    case (Cons f fs)
    then obtain n1 where n1: "(if apSubNode n = [] then
                 (if int (length (pahFeatures n)) \<ge> nBucketCapacity t
                     \<and> list_ex (CPL_RectContained (pfnGetBounds t f)) (quads A (dfSplitRatio t) (rect n))
                  then alg A t (QuadTreeNode (rect n) [] (map CPLQuadTreeNodeCreate (quads A (dfSplitRatio t) (rect n)))) (pahFeatures n @ [f])
                  else Some (add_here n f))
               else
                 (case first_fit (apSubNode n) (pfnGetBounds t f) of
                    Some i \<Rightarrow> do { s \<leftarrow> alg A t (apSubNode n ! i) [f]; Some (QuadTreeNode (rect n) (pahFeatures n) ((apSubNode n)[i := s])) }
                  | None \<Rightarrow> Some (add_here n f))) = Some n1"
      and rest: "alg A t n1 fs = Some n'"
      using 1(2) by (auto split: Option.bind_splits)
    have "adds A t n [f] n1"
    proof (cases "apSubNode n = []")
      case True
      then show ?thesis using n1 adds_split [OF True 1(1)] adds_here by (auto split: if_splits)
    next
      case False
      show ?thesis
      proof (cases "first_fit (apSubNode n) (pfnGetBounds t f)")
        case None
        then show ?thesis using n1 False adds_here [of A t n f] by simp
      next
        case (Some i)
        then show ?thesis using n1 False adds_sub [OF Some 1(1)] by (auto split: Option.bind_splits)
      qed
    qed
    from adds_trans [OF this 1(1) [OF rest]] show ?thesis using Cons by simp
  qed
qed

lemma alg2_adds: "adds A t n [f] (CPLQuadTreeNodeAddFeatureAlg2 A t n f d)"
proof (induction A t n f d rule: CPLQuadTreeNodeAddFeatureAlg2.induct)
  case (1 A t n f d)
  let ?inner = "QuadTreeNode (rect n) (pahFeatures n) (map CPLQuadTreeNodeCreate (quads A (dfSplitRatio t) (rect n)))"
  show ?case
  proof (cases "d > 1 \<and> apSubNode n \<noteq> []")
    case True
    show ?thesis
    proof (cases "first_fit (apSubNode n) (pfnGetBounds t f)")
      case None
      then show ?thesis using True adds_here by (subst CPLQuadTreeNodeAddFeatureAlg2.simps) simp
    next
      case (Some i)
      from adds_sub [OF Some 1(1) [OF True Some]] show ?thesis using True Some by (subst CPLQuadTreeNodeAddFeatureAlg2.simps) simp
    qed
  next
    case False
    show ?thesis
    proof (cases "d > 1 \<and> apSubNode n = [] \<and> list_ex (CPL_RectContained (pfnGetBounds t f)) (quads A (dfSplitRatio t) (rect n))")
      case True
      then have "feats n = pahFeatures n" by (simp add: feats_node)
      then have "adds A t n [] ?inner" using split_facts [where r = "rect n"] by (auto simp: adds_def)
      from adds_trans [OF this 1(2) [OF False True]] show ?thesis
        using True by (subst CPLQuadTreeNodeAddFeatureAlg2.simps) simp
    next
      case False2: False
      then have "CPLQuadTreeNodeAddFeatureAlg2 A t n f d = add_here n f"
        using False by (subst CPLQuadTreeNodeAddFeatureAlg2.simps) (simp only: if_False)
      then show ?thesis using adds_here by simp
    qed
  qed
qed

section \<open>Trees in use\<close>

datatype 'f tree_op = Insert 'f | SetMaxDepth int | SetBucketCapacity int

fun change :: "('a::linorder) arith \<Rightarrow> ('f, 'a) CPLQuadTree \<Rightarrow> 'f tree_op \<Rightarrow> ('f, 'a) CPLQuadTree option" where
  "change A t (Insert f) = CPLQuadTreeInsert A t f"
| "change A t (SetMaxDepth n) = Some (CPLQuadTreeSetMaxDepth t n)"
| "change A t (SetBucketCapacity n) = Some (CPLQuadTreeSetBucketCapacity t n)"

fun changes :: "('a::linorder) arith \<Rightarrow> ('f, 'a) CPLQuadTree \<Rightarrow> 'f tree_op list \<Rightarrow> ('f, 'a) CPLQuadTree option" where
  "changes A t [] = Some t"
| "changes A t (c # cs) = Option.bind (change A t c) (\<lambda>t. changes A t cs)"

fun inserted :: "'f tree_op list \<Rightarrow> 'f list" where
  "inserted [] = []"
| "inserted (Insert f # cs) = f # inserted cs"
| "inserted (_ # cs) = inserted cs"

text \<open>The features \<open>M\<close> are in the tree, those of a subnode inside its rectangle.\<close>

definition holds :: "('a::linorder) arith \<Rightarrow> ('f, 'a) CPLQuadTree \<Rightarrow> ('f \<Rightarrow> 'a CPLRectObj) \<Rightarrow> 'a CPLRectObj \<Rightarrow> 'a \<Rightarrow> 'f multiset \<Rightarrow> bool" where
  "holds A t b r q M \<longleftrightarrow> pfnGetBounds t = b \<and> dfSplitRatio t = q \<and> rect (psRoot t) = r \<and> mset (feats (psRoot t)) = M
     \<and> nested_in b (psRoot t) \<and> shaped A q (psRoot t) \<and> nFeatures t = int (size M)"

lemma insert_holds:
  assumes h: "holds A t b r q M" and i: "CPLQuadTreeInsert A t f = Some t'"
  shows "holds A t' b r q (add_mset f M)"
proof -
  let ?t = "t\<lparr>nFeatures := nFeatures t + 1\<rparr>"
  obtain n where n: "adds A ?t (psRoot t) [f] n" "t' = ?t\<lparr>psRoot := n\<rparr>"
  proof (cases "nMaxDepth t = 0")
    case True
    then show ?thesis using i alg1_adds [of A ?t "psRoot t" "[f]"] that
      by (auto simp: CPLQuadTreeInsert_def CPLQuadTreeAddFeatureInternal_def)
  next
    case False
    then show ?thesis using i alg2_adds [of A ?t "psRoot t" f] that
      by (auto simp: CPLQuadTreeInsert_def CPLQuadTreeAddFeatureInternal_def)
  qed
  then show ?thesis using h by (simp add: holds_def adds_def)
qed

lemma changes_holds: "changes A t cs = Some t' \<Longrightarrow> holds A t b r q M \<Longrightarrow> holds A t' b r q (M + mset (inserted cs))"
proof (induction cs arbitrary: t M)
  case (Cons c cs)
  then obtain t1 where t1: "change A t c = Some t1" "changes A t1 cs = Some t'" by (auto split: Option.bind_splits)
  show ?case
  proof (cases c)
    case (Insert f)
    then have "holds A t1 b r q (add_mset f M)" using t1(1) insert_holds [OF Cons.prems(2)] by simp
    from Cons.IH [OF t1(2) this] show ?thesis using Insert by simp
  next
    case (SetMaxDepth n)
    then have "holds A t1 b r q M" using t1(1) Cons.prems(2) by (auto simp: CPLQuadTreeSetMaxDepth_def holds_def)
    from Cons.IH [OF t1(2) this] show ?thesis using SetMaxDepth by simp
  next
    case (SetBucketCapacity n)
    then have "holds A t1 b r q M" using t1(1) Cons.prems(2) by (auto simp: CPLQuadTreeSetBucketCapacity_def holds_def)
    from Cons.IH [OF t1(2) this] show ?thesis using SetBucketCapacity by simp
  qed
qed simp

lemma create_holds: "holds A (CPLQuadTreeCreate q r b) b r q {#}"
  by (simp add: holds_def CPLQuadTreeCreate_def)

section \<open>Search\<close>

lemma overlap_contained: "CPL_RectContained a b \<Longrightarrow> CPL_RectOverlap a c \<Longrightarrow> CPL_RectOverlap b c"
  by (auto simp: CPL_RectContained_def CPL_RectOverlap_def not_less split: if_splits dest: order_trans)

fun selected :: "('f \<Rightarrow> ('a::linorder) CPLRectObj) \<Rightarrow> 'a CPLRectObj \<Rightarrow> ('f, 'a) QuadTreeNode \<Rightarrow> 'f list" where
  "selected b aoi (QuadTreeNode r fs subs) =
     (if CPL_RectOverlap r aoi then filter (\<lambda>f. CPL_RectOverlap (b f) aoi) fs @ concat (map (selected b aoi) subs) else [])"

lemma collect_here_filter:
  "int (length found) + int (length fs) \<le> m \<Longrightarrow>
    collect_here b aoi fs found m = Some (found @ filter (\<lambda>f. CPL_RectOverlap (b f) aoi) fs)"
  by (induction fs arbitrary: found) auto

lemma collect_selected:
  "int (length found) \<le> m \<Longrightarrow> \<exists>m'. CPLQuadTreeCollectFeatures b n aoi (found, m) = Some (found @ selected b aoi n, m')
     \<and> int (length (found @ selected b aoi n)) \<le> m'"
  "int (length found) \<le> m \<Longrightarrow> \<exists>m'. collect_subs b ns aoi (found, m) = Some (found @ concat (map (selected b aoi) ns), m')
     \<and> int (length (found @ concat (map (selected b aoi) ns))) \<le> m'"
proof (induction b n aoi "(found, m)" and b ns aoi "(found, m)" arbitrary: found m and found m
    rule: CPLQuadTreeCollectFeatures_collect_subs.induct)
  case (1 b r fs subs aoi found m)
  show ?case
  proof (cases "CPL_RectOverlap r aoi")
    case True
    define m1 where "m1 = (if int (length found) + int (length fs) > m then (int (length found) + int (length fs)) * 2 + 20 else m)"
    let ?found = "found @ filter (\<lambda>f. CPL_RectOverlap (b f) aoi) fs"
    have l: "int (length found) + int (length fs) \<le> m1" by (simp add: m1_def)
    have h: "collect_here b aoi fs found m1 = Some ?found" by (rule collect_here_filter [OF l])
    have "length ?found \<le> length found + length fs" by simp
    then have l1: "int (length ?found) \<le> m1" using l by linarith
    from 1(1) [OF _ m1_def h l1] True obtain m' where
      "collect_subs b subs aoi (?found, m1) = Some (?found @ concat (map (selected b aoi) subs), m')"
      "int (length (?found @ concat (map (selected b aoi) subs))) \<le> m'" by auto
    then show ?thesis using True h by (simp add: m1_def [symmetric])
  qed (use 1 in simp)
next
  case (3 b n ns aoi found m)
  from 3(1) [OF 3(3)] obtain m1 where n: "CPLQuadTreeCollectFeatures b n aoi (found, m) = Some (found @ selected b aoi n, m1)"
    "int (length (found @ selected b aoi n)) \<le> m1" by blast
  from 3(2) [OF n(1) n(2)] n(1) show ?case by simp
qed simp

lemma selected_mset:
  "nested_in b n \<Longrightarrow> \<forall>f \<in> set (feats n). CPL_RectContained (b f) (rect n) \<Longrightarrow>
    mset (selected b aoi n) = filter_mset (\<lambda>f. CPL_RectOverlap (b f) aoi) (mset (feats n))"
proof (induction n)
  case (QuadTreeNode r fs subs)
  have subs: "mset (concat (map (selected b aoi) ss)) = filter_mset (\<lambda>f. CPL_RectOverlap (b f) aoi) (mset (concat (map feats ss)))"
    if "set ss \<subseteq> set subs" for ss
    using that QuadTreeNode by (induction ss) auto
  show ?case
  proof (cases "CPL_RectOverlap r aoi")
    case True
    then show ?thesis using subs [of subs] by simp
  next
    case False
    then have "\<not> CPL_RectOverlap (b f) aoi" if "f \<in> set (feats (QuadTreeNode r fs subs))" for f
      using overlap_contained [of "b f" r aoi] bspec [OF QuadTreeNode.prems(2) that] False by auto
    then have "filter_mset (\<lambda>f. CPL_RectOverlap (b f) aoi) (mset (feats (QuadTreeNode r fs subs))) = {#}"
      by (intro multiset_eqI) (auto simp: count_eq_zero_iff in_multiset_in_set)
    then show ?thesis using False by simp
  qed
qed

text \<open>C14: searching a quad tree. However a tree was built from features inside the global bounds, by splitting by capacity
or by depth, with changes of both in between, and whatever the rounding of the arithmetic on bounds, \<open>CPLQuadTreeSearch\<close>
returns within its array, and finds every feature whose bounds overlap the area of interest as often as it was inserted,
and no other.\<close>
theorem quad_tree_search_exact:
  assumes "changes A (CPLQuadTreeCreate q r b) cs = Some t" "\<forall>f \<in> set (inserted cs). CPL_RectContained (b f) r"
  shows "\<exists>found. CPLQuadTreeSearch t aoi = Some found
    \<and> mset found = mset (filter (\<lambda>f. CPL_RectOverlap (b f) aoi) (inserted cs))"
proof -
  have h: "holds A t b r q (mset (inserted cs))" using changes_holds [OF assms(1) create_holds] by simp
  then have "set (feats (psRoot t)) = set (inserted cs)" unfolding holds_def by (metis set_mset_mset)
  then have "mset (selected b aoi (psRoot t)) = filter_mset (\<lambda>f. CPL_RectOverlap (b f) aoi) (mset (inserted cs))"
    using h assms(2) selected_mset [of b "psRoot t" aoi] by (simp add: holds_def)
  moreover obtain m where "CPLQuadTreeCollectFeatures b (psRoot t) aoi ([], 0) = Some (selected b aoi (psRoot t), m)"
    using collect_selected(1) [of "[]" 0 b "psRoot t" aoi] by auto
  ultimately show ?thesis using h by (auto simp: CPLQuadTreeSearch_def holds_def)
qed

section \<open>Insertion returns\<close>

text \<open>\<open>(r', r)\<close>: the rectangle \<open>r'\<close> is a quarter of \<open>r\<close> and contains the bounds of a feature in \<open>F\<close>.\<close>

definition descends ::
    "('a::linorder) arith \<Rightarrow> 'a \<Rightarrow> ('f \<Rightarrow> 'a CPLRectObj) \<Rightarrow> 'f set \<Rightarrow> ('a CPLRectObj \<times> 'a CPLRectObj) set" where
  "descends A q b F = {(r', r). r' \<in> set (quads A q r) \<and> (\<exists>f \<in> F. CPL_RectContained (b f) r')}"

lemma quads_not_Nil [simp]: "quads A q r \<noteq> []"
  by (simp add: quads_def split: prod.splits)

lemma set_add_here:
  fixes n :: "('f, 'a::linorder) QuadTreeNode"
  shows "set (feats (add_here n f)) = insert f (set (feats n))"
proof -
  have "mset (feats (add_here n f)) = mset (f # feats n)" by (simp only: add_here_facts(2) mset.simps)
  then have "set (feats (add_here n f)) = set (f # feats n)" by (rule mset_eq_setD)
  then show ?thesis by simp
qed

lemma leaf_feats: "apSubNode n = [] \<Longrightarrow> feats n = pahFeatures n"
  by (cases n) simp

lemma sub_feats: "s \<in> set (apSubNode n) \<Longrightarrow> set (feats s) \<subseteq> set (feats n)"
  by (cases n) auto

lemma adds_set: "adds A t n fs n' \<Longrightarrow> set (feats n') = set (feats n) \<union> set fs"
  unfolding adds_def by (metis set_mset_mset set_mset_union)

lemma shaped_sub: "shaped A q n \<Longrightarrow> i < length (apSubNode n) \<Longrightarrow>
    shaped A q (apSubNode n ! i) \<and> rect (apSubNode n ! i) \<in> set (quads A q (rect n))"
  unfolding shaped_node [of A q n] by (metis length_0_conv length_map not_less_zero nth_map nth_mem)

lemma alg1_returns:
  assumes wf: "wf (descends A (dfSplitRatio t) (pfnGetBounds t) F)"
  shows "shaped A (dfSplitRatio t) n \<Longrightarrow> set (feats n) \<union> set todo \<subseteq> F \<Longrightarrow> \<exists>n'. CPLQuadTreeNodeAddFeatureAlg1 A t n todo = Some n'"
proof (induction "rect n" arbitrary: n todo rule: wf_induct_rule [OF wf])
  case (1 n todo)
  note simps = CPLQuadTreeNodeAddFeatureAlg1.simps [of A t]
  have inner: "\<exists>m'. CPLQuadTreeNodeAddFeatureAlg1 A t m fs = Some m'"
    if "rect m = rect n" "shaped A (dfSplitRatio t) m" "set (feats m) \<union> set fs \<subseteq> F" "apSubNode m \<noteq> []" for m fs
    using that
  proof (induction fs arbitrary: m)
    case Nil
    then show ?case by (simp add: simps)
  next
    case (Cons f fs)
    show ?case
    proof (cases "first_fit (apSubNode m) (pfnGetBounds t f)")
      case None
      have "\<exists>m'. CPLQuadTreeNodeAddFeatureAlg1 A t (add_here m f) fs = Some m'"
        by (rule Cons.IH) (use Cons.prems in \<open>simp_all add: set_add_here\<close>)
      then show ?thesis using Cons.prems(4) None by (subst simps) simp
    next
      case (Some i)
      note i = first_fit_Some [OF Some] and sub = shaped_sub [OF Cons.prems(2), of i]
      have sF: "set (feats (apSubNode m ! i)) \<union> set [f] \<subseteq> F" using Cons.prems(3) i sub_feats [of "apSubNode m ! i" m] by auto
      have d: "(rect (apSubNode m ! i), rect n) \<in> descends A (dfSplitRatio t) (pfnGetBounds t) F"
        using i sub sF Cons.prems(1) by (auto simp: descends_def)
      from 1(1) [OF d _ sF] sub i obtain s where s: "CPLQuadTreeNodeAddFeatureAlg1 A t (apSubNode m ! i) [f] = Some s" by auto
      let ?m = "QuadTreeNode (rect m) (pahFeatures m) ((apSubNode m)[i := s])"
      have a: "adds A t m [f] ?m" by (rule adds_sub [OF Some alg1_adds [OF s]])
      note sm = adds_set [OF a]
      have "\<exists>m'. CPLQuadTreeNodeAddFeatureAlg1 A t ?m fs = Some m'"
        using a Cons.prems sm by (intro Cons.IH) (simp_all add: adds_def)
      then show ?thesis using Cons.prems(4) Some s by (subst simps) simp
    qed
  qed
  have leaf: "\<exists>m'. CPLQuadTreeNodeAddFeatureAlg1 A t m fs = Some m'"
    if "rect m = rect n" "set (feats m) \<union> set fs \<subseteq> F" "apSubNode m = []" for m fs
    using that
  proof (induction fs arbitrary: m)
    case Nil
    then show ?case by (simp add: simps)
  next
    case (Cons f fs)
    show ?case
    proof (cases "int (length (pahFeatures m)) \<ge> nBucketCapacity t
        \<and> list_ex (CPL_RectContained (pfnGetBounds t f)) (quads A (dfSplitRatio t) (rect m))")
      case True
      let ?m = "QuadTreeNode (rect m) [] (map CPLQuadTreeNodeCreate (quads A (dfSplitRatio t) (rect m)))"
      have "\<exists>m1. CPLQuadTreeNodeAddFeatureAlg1 A t ?m (pahFeatures m @ [f]) = Some m1"
        by (rule inner) (use Cons.prems split_facts(3) leaf_feats [of m] split_facts(2) [of "rect m" "[]"] in simp_all)
      then obtain m1 where m1: "CPLQuadTreeNodeAddFeatureAlg1 A t ?m (pahFeatures m @ [f]) = Some m1" by blast
      have a: "adds A t ?m (pahFeatures m @ [f]) m1" by (rule alg1_adds [OF m1])
      have f1: "feats ?m = []" "shaped A (dfSplitRatio t) ?m" by (auto simp: comp_def)
      have "mset (feats m1) = mset (pahFeatures m @ [f])" using a f1(1) by (simp add: adds_def)
      then have "set (feats m1) = set (pahFeatures m @ [f])" by (rule mset_eq_setD)
      moreover have "shaped A (dfSplitRatio t) m1" "rect m1 = rect m" using a f1(2) unfolding adds_def by auto
      ultimately have "\<exists>m'. CPLQuadTreeNodeAddFeatureAlg1 A t m1 fs = Some m'"
      proof (cases "apSubNode m1 = []")
        case True
        then show ?thesis using Cons.IH [of m1] Cons.prems \<open>set (feats m1) = _\<close> \<open>rect m1 = _\<close> leaf_feats [of m] by simp
      next
        case False
        then show ?thesis using inner [of m1 fs] Cons.prems \<open>set (feats m1) = _\<close> \<open>rect m1 = _\<close> \<open>shaped A (dfSplitRatio t) m1\<close>
            leaf_feats [of m] by simp
      qed
      then show ?thesis using Cons.prems(3) True m1 by (subst simps) simp
    next
      case False
      have "\<exists>m'. CPLQuadTreeNodeAddFeatureAlg1 A t (add_here m f) fs = Some m'"
        by (rule Cons.IH) (use Cons.prems in \<open>simp_all add: set_add_here\<close>)
      then show ?thesis using Cons.prems(3) False by (subst simps) auto
    qed
  qed
  show ?case using inner [of n todo] leaf [of n todo] 1(2,3) by (cases "apSubNode n = []") auto
qed

text \<open>Every feature is inserted while there is a maximal depth, now \<open>d\<close>.\<close>

fun deep :: "int \<Rightarrow> 'f tree_op list \<Rightarrow> bool" where
  "deep d [] \<longleftrightarrow> True"
| "deep d (Insert f # cs) \<longleftrightarrow> d \<noteq> 0 \<and> deep d cs"
| "deep d (SetMaxDepth n # cs) \<longleftrightarrow> deep n cs"
| "deep d (SetBucketCapacity n # cs) \<longleftrightarrow> deep d cs"

lemma changes_return:
  "holds A t b r q M \<Longrightarrow> set_mset M \<union> set (inserted cs) \<subseteq> F \<Longrightarrow> wf (descends A q b F) \<or> deep (nMaxDepth t) cs
    \<Longrightarrow> \<exists>t'. changes A t cs = Some t'"
proof (induction cs arbitrary: t M)
  case (Cons c cs)
  show ?case
  proof (cases c)
    case (Insert f)
    let ?t = "t\<lparr>nFeatures := nFeatures t + 1\<rparr>"
    have "\<exists>t1. CPLQuadTreeInsert A t f = Some t1 \<and> nMaxDepth t1 = nMaxDepth t"
    proof (cases "nMaxDepth t = 0")
      case True
      then have w: "wf (descends A (dfSplitRatio ?t) (pfnGetBounds ?t) F)" using Cons.prems(1,3) Insert by (auto simp: holds_def)
      have "set (feats (psRoot t)) = set_mset M" using Cons.prems(1) unfolding holds_def by (metis set_mset_mset)
      then have "set (feats (psRoot ?t)) \<union> set [f] \<subseteq> F" "shaped A (dfSplitRatio ?t) (psRoot ?t)"
        using Cons.prems(1,2) Insert by (simp_all add: holds_def)
      from alg1_returns [OF w this(2,1)] show ?thesis
        using True by (auto simp: CPLQuadTreeInsert_def CPLQuadTreeAddFeatureInternal_def)
    qed (simp add: CPLQuadTreeInsert_def CPLQuadTreeAddFeatureInternal_def)
    then obtain t1 where t1: "CPLQuadTreeInsert A t f = Some t1" "nMaxDepth t1 = nMaxDepth t" by blast
    from Cons.IH [OF insert_holds [OF Cons.prems(1) t1(1)]] t1 Cons.prems(2,3) Insert show ?thesis by auto
  next
    case (SetMaxDepth n)
    have "holds A (CPLQuadTreeSetMaxDepth t n) b r q M" using Cons.prems(1) by (simp add: CPLQuadTreeSetMaxDepth_def holds_def)
    from Cons.IH [OF this] Cons.prems(2,3) SetMaxDepth show ?thesis by (auto simp: CPLQuadTreeSetMaxDepth_def)
  next
    case (SetBucketCapacity n)
    have "holds A (CPLQuadTreeSetBucketCapacity t n) b r q M" using Cons.prems(1) by (simp add: CPLQuadTreeSetBucketCapacity_def holds_def)
    from Cons.IH [OF this] Cons.prems(2,3) SetBucketCapacity show ?thesis by (auto simp: CPLQuadTreeSetBucketCapacity_def)
  qed
qed simp

text \<open>C15: insertion into a quad tree returns, if there is no infinite descent through quarters of rectangles that contain the
bounds of a feature, or if a maximal depth is set whenever a feature is inserted.\<close>
theorem quad_tree_insert_returns:
  assumes "wf (descends A q b (set (inserted cs))) \<or> deep 0 cs"
  shows "\<exists>t. changes A (CPLQuadTreeCreate q r b) cs = Some t \<and> nFeatures t = int (length (inserted cs))"
proof -
  have h: "holds A (CPLQuadTreeCreate q r b) b r q {#}" by (rule create_holds)
  have "nMaxDepth (CPLQuadTreeCreate q r b) = 0" by (simp add: CPLQuadTreeCreate_def)
  with assms changes_return [OF h, of cs "set (inserted cs)"] obtain t where t: "changes A (CPLQuadTreeCreate q r b) cs = Some t" by auto
  from changes_holds [OF t h] show ?thesis using t by (auto simp: holds_def)
qed

section \<open>Insertion that does not return\<close>

text \<open>
  A leaf with \<open>k\<close> features, or a node whose first subnode is such a leaf, while features with the same bounds as its rectangle
  are added that is its own quarter.
\<close>

definition jammed :: "('a::linorder) arith \<Rightarrow> ('f, 'a) CPLQuadTree \<Rightarrow> 'a CPLRectObj \<Rightarrow> ('f, 'a) QuadTreeNode \<Rightarrow> 'f list \<Rightarrow> nat \<Rightarrow> bool" where
  "jammed A t r n todo k \<longleftrightarrow> quads A (dfSplitRatio t) r = [r, r, r, r] \<and> CPL_RectContained r r \<and> rect n = r
     \<and> (\<forall>f \<in> set (feats n) \<union> set todo. pfnGetBounds t f = r) \<and> int k \<le> nBucketCapacity t
     \<and> (apSubNode n = [] \<and> length (pahFeatures n) = k
        \<or> (\<exists>s ss. apSubNode n = s # ss \<and> rect s = r \<and> apSubNode s = [] \<and> length (pahFeatures s) = k))"

lemma alg1_jammed:
  "CPLQuadTreeNodeAddFeatureAlg1 A t n todo = Some n' \<Longrightarrow> jammed A t r n todo k \<Longrightarrow>
    int (k + length todo) \<le> nBucketCapacity t \<and> (apSubNode n = [] \<longrightarrow> apSubNode n' = [] \<and> pahFeatures n' = pahFeatures n @ todo \<and> rect n' = r)"
proof (induction arbitrary: k rule: alg1_induct)
  case (1 alg A t n todo n')
  show ?case
  proof (cases todo)
    case Nil
    then show ?thesis using 1(2,3) by (auto simp: jammed_def)
  next
    case (Cons f fs)
    have j: "quads A (dfSplitRatio t) r = [r, r, r, r]" "CPL_RectContained r r" "rect n = r" "pfnGetBounds t f = r"
      "\<forall>f \<in> set (feats n) \<union> set fs. pfnGetBounds t f = r" "int k \<le> nBucketCapacity t"
      using 1(3) Cons by (auto simp: jammed_def)
    show ?thesis
    proof (cases "apSubNode n = []")
      case leaf: True
      then have len: "length (pahFeatures n) = k" using 1(3) by (auto simp: jammed_def)
      show ?thesis
      proof (cases "int k = nBucketCapacity t")
        case True
        let ?m = "QuadTreeNode (rect n) [] (map CPLQuadTreeNodeCreate (quads A (dfSplitRatio t) (rect n)))"
        obtain n1 where n1: "alg A t ?m (pahFeatures n @ [f]) = Some n1"
          using 1(2) Cons leaf len True j by (auto split: Option.bind_splits)
        have "jammed A t r ?m (pahFeatures n @ [f]) 0"
          using j leaf_feats [OF leaf] len True by (auto simp: jammed_def CPLQuadTreeNodeCreate_def)
        from 1(1) [OF n1 this] len True show ?thesis by simp
      next
        case False
        then have rest: "alg A t (add_here n f) fs = Some n'" using 1(2) Cons leaf len j by (auto split: Option.bind_splits)
        have "jammed A t r (add_here n f) fs (Suc k)" using j False leaf len by (auto simp: jammed_def set_add_here)
        from 1(1) [OF rest this] show ?thesis using Cons leaf by simp
      qed
    next
      case False
      then obtain s ss where s: "apSubNode n = s # ss" "rect s = r" "apSubNode s = []" "length (pahFeatures s) = k"
        using 1(3) by (auto simp: jammed_def)
      then have fit: "first_fit (apSubNode n) (pfnGetBounds t f) = Some 0" using j by simp
      obtain s1 where s1: "alg A t s [f] = Some s1" and rest: "alg A t (QuadTreeNode (rect n) (pahFeatures n) (s1 # ss)) fs = Some n'"
        using 1(2) Cons False fit s(1) by (auto split: Option.bind_splits)
      have bs: "\<forall>g \<in> set (feats s). pfnGetBounds t g = r" using j(5) s(1) sub_feats [of s n] by auto
      have "jammed A t r s [f] k" using j s bs by (auto simp: jammed_def)
      from 1(1) [OF s1 this] s have k: "int (Suc k) \<le> nBucketCapacity t" "apSubNode s1 = []" "pahFeatures s1 = pahFeatures s @ [f]" "rect s1 = r"
        by simp_all
      have b1: "\<forall>g \<in> set (feats s1). pfnGetBounds t g = r" using bs j(4) leaf_feats [OF k(2)] leaf_feats [OF s(3)] k(3) by simp
      have "set (feats (QuadTreeNode (rect n) (pahFeatures n) (s1 # ss))) \<subseteq> set (feats n) \<union> set (feats s1)"
        using s(1) unfolding feats_node [of n] by auto
      then have "jammed A t r (QuadTreeNode (rect n) (pahFeatures n) (s1 # ss)) fs (Suc k)"
        using j k s(4) b1 by (auto simp: jammed_def)
      from 1(1) [OF rest this] show ?thesis using Cons False by simp
    qed
  qed
qed

text \<open>C16: coincident features. In a tree without a maximal depth whose global bounds are one point (where doubles satisfy
\<open>x - x = 0\<close>, \<open>0 * q = 0\<close> and \<open>x + 0 = x - 0 = x\<close>), inserting more features at this point than the capacity of a node
recurses without end.\<close>
theorem quad_tree_coincident_diverges:
  assumes "dsub A x x = z" "dmul A z q = z" "dadd A x z = x" "dsub A x z = x" "dsub A y y = z" "dadd A y z = y" "dsub A y z = y"
    and "\<forall>f \<in> set fs. b f = \<lparr>minx = x, miny = y, maxx = x, maxy = y\<rparr>" "length fs > 8"
  shows "changes A (CPLQuadTreeCreate q \<lparr>minx = x, miny = y, maxx = x, maxy = y\<rparr> b) (map Insert fs) = None"
proof (rule ccontr)
  let ?r = "\<lparr>minx = x, miny = y, maxx = x, maxy = y\<rparr>"
  have q: "quads A q ?r = [?r, ?r, ?r, ?r]" using assms(1-7) by (simp add: quads_def CPLQuadTreeSplitBounds_def)
  have c: "CPL_RectContained ?r ?r" by (simp add: CPL_RectContained_def)
  have run: "changes A t (map Insert gs) = Some t' \<Longrightarrow> pfnGetBounds t = b \<Longrightarrow> dfSplitRatio t = q \<Longrightarrow> nMaxDepth t = 0
      \<Longrightarrow> nBucketCapacity t = 8 \<Longrightarrow> rect (psRoot t) = ?r \<Longrightarrow> apSubNode (psRoot t) = [] \<Longrightarrow> length (pahFeatures (psRoot t)) = k \<Longrightarrow> k \<le> 8
      \<Longrightarrow> \<forall>f \<in> set (pahFeatures (psRoot t)) \<union> set gs. b f = ?r \<Longrightarrow> k + length gs \<le> 8" for t t' k gs
  proof (induction gs arbitrary: t k)
    case (Cons g gs)
    let ?t = "t\<lparr>nFeatures := nFeatures t + 1\<rparr>"
    from Cons.prems obtain n where n: "CPLQuadTreeNodeAddFeatureAlg1 A ?t (psRoot t) [g] = Some n"
      and rest: "changes A (?t\<lparr>psRoot := n\<rparr>) (map Insert gs) = Some t'"
      by (auto simp: CPLQuadTreeInsert_def CPLQuadTreeAddFeatureInternal_def split: Option.bind_splits)
    have "jammed A ?t ?r (psRoot t) [g] k" using Cons.prems q c leaf_feats [of "psRoot t"] by (simp add: jammed_def)
    from alg1_jammed [OF n this] Cons.prems(5,7) have k: "k + 1 \<le> 8" "apSubNode n = []" "pahFeatures n = pahFeatures (psRoot t) @ [g]" "rect n = ?r"
      by simp_all
    from Cons.IH [OF rest, of "Suc k"] Cons.prems k show ?case by simp
  qed simp
  assume "changes A (CPLQuadTreeCreate q ?r b) (map Insert fs) \<noteq> None"
  then obtain t' where "changes A (CPLQuadTreeCreate q ?r b) (map Insert fs) = Some t'" by auto
  from run [OF this, of 0] assms(8,9) show False by (simp add: CPLQuadTreeCreate_def CPLQuadTreeNodeCreate_def)
qed

section \<open>Traversal\<close>

lemma foreach_append:
  "foreach_features fn (fs @ gs) u = (let (go, u) = foreach_features fn fs u in if \<not> go then (False, u) else foreach_features fn gs u)"
  by (induction fs arbitrary: u) (auto split: prod.splits)

text \<open>The order in which the features of a node are visited: first those of its subnodes.\<close>

fun visit_order :: "('f, 'a) QuadTreeNode \<Rightarrow> 'f list" where
  "visit_order (QuadTreeNode r fs subs) = concat (map visit_order subs) @ fs"

lemma foreach_visits:
  fixes n :: "('f, 'a) QuadTreeNode" and ns :: "('f, 'a) QuadTreeNode list"
  shows "CPLQuadTreeNodeForeach fn n u = foreach_features fn (visit_order n) u"
  "foreach_subs fn ns u = foreach_features fn (concat (map visit_order ns)) u"
  by (induction fn n u and fn ns u rule: CPLQuadTreeNodeForeach_foreach_subs.induct)
    (auto simp: foreach_append split: prod.splits)

lemma visit_order_feats: "mset (visit_order n) = mset (feats n)"
proof (induction n rule: feats.induct)
  case (1 r fs subs)
  then have "mset (concat (map visit_order subs)) = mset (concat (map feats subs))"
    by (induction subs) auto
  then show ?case by simp
qed

text \<open>Walking through a tree calls the function once for each inserted feature, until it asks to stop.\<close>
theorem quad_tree_foreach_visits:
  assumes "changes A (CPLQuadTreeCreate q r b) cs = Some t"
  shows "\<exists>fs. mset fs = mset (inserted cs) \<and> (\<forall>fn u. CPLQuadTreeForeach t fn u = snd (foreach_features fn fs u))"
proof -
  have "holds A t b r q (mset (inserted cs))" using changes_holds [OF assms create_holds] by simp
  then have "mset (visit_order (psRoot t)) = mset (inserted cs)" by (simp add: visit_order_feats holds_def)
  then show ?thesis by (auto simp: CPLQuadTreeForeach_def foreach_visits intro!: exI [of _ "visit_order (psRoot t)"])
qed

section \<open>The advised depth\<close>

lemma int32_nonneg: "0 \<le> x \<Longrightarrow> x < 2147483648 \<Longrightarrow> int32 x = x"
  by (rule int32_id) auto

lemmas advised_induct = advised_loop.raw_induct [rotated, consumes 1]

lemma advised_zero: "advised_loop n d 0 = Some k \<Longrightarrow> n \<le> 0"
proof -
  have "advised_loop n d m = Some k \<Longrightarrow> m = 0 \<Longrightarrow> n \<le> 0" for n d m k
  proof (induction rule: advised_induct)
    case (1 alg n d m k)
    then show ?case by (auto simp: int32_def split: if_splits)
  qed
  then show "advised_loop n d 0 = Some k \<Longrightarrow> n \<le> 0" by blast
qed

lemma advised_step: "advised_loop n d m =
    (if int32 (m * 4) < n then advised_loop n (d + 1) (int32 (m * 2)) else Some d)"
  by (rule advised_loop.simps)

lemma advised_power: "e \<le> 28 \<Longrightarrow> k \<le> e \<Longrightarrow> n \<le> 4 * 2 ^ e \<Longrightarrow> (\<forall>j < e. 4 * 2 ^ j < n) \<Longrightarrow>
    advised_loop n (int k) (2 ^ k) = Some (int e)"
proof (induction "e - k" arbitrary: k)
  case 0
  have "(2::int) ^ e \<le> 2 ^ 28" using 0(2) by (intro power_increasing) auto
  with 0 have "int32 (2 ^ e * 4) = 2 ^ e * 4" by (intro int32_nonneg) auto
  with 0 show ?case by (simp add: advised_step [of n])
next
  case (Suc x)
  then have k: "k < e" by simp
  then have "(2::int) ^ k \<le> 2 ^ 27" using Suc.prems(1) by (intro power_increasing) auto
  then have "int32 (2 ^ k * 4) = 2 ^ k * 4" "int32 (2 ^ k * 2) = 2 ^ k * 2" by (auto intro!: int32_nonneg)
  moreover have "advised_loop n (int (Suc k)) (2 ^ Suc k) = Some (int e)"
    using Suc k by (intro Suc.hyps(1)) auto
  ultimately show ?case using Suc.prems(4) k by (subst advised_step) (simp add: mult.commute add.commute)
qed

lemma advised_overflow: "n > 2 ^ 30 \<Longrightarrow> k \<le> 29 \<Longrightarrow> advised_loop n (int k) (2 ^ k) = None"
proof (induction "29 - k" arbitrary: k)
  case 0
  then have "k = 29" by simp
  moreover have "advised_loop n d 0 = None" for d using advised_zero [of n d] 0(2) by (cases "advised_loop n d 0") auto
  then have "advised_loop n 31 (- 2147483648) = None" using 0(2) by (subst advised_step) (simp add: int32_def)
  then have "advised_loop n 30 1073741824 = None" using 0(2) by (subst advised_step) (simp add: int32_def)
  then have "advised_loop n 29 536870912 = None" using 0(2) by (subst advised_step) (simp add: int32_def)
  ultimately show ?case by simp
next
  case (Suc x)
  then have "(2::int) ^ k \<le> 2 ^ 28" by (intro power_increasing) auto
  then have s: "int32 (2 ^ k * 4) = 2 ^ k * 4" "int32 (2 ^ k * 2) = 2 ^ k * 2" "(2::int) ^ k * 4 \<le> 2 ^ 30" by (auto intro!: int32_nonneg)
  moreover have "advised_loop n (int (Suc k)) (2 ^ Suc k) = None" using Suc by (intro Suc.hyps(1)) auto
  ultimately show ?case using Suc.prems(1) by (subst advised_step) (simp add: mult.commute add.commute)
qed

text \<open>the advised depth of a quad tree for \<open>n\<close> features is the smallest \<open>e\<close> with \<open>n \<le> 4 \<cdot> 2 ^ e\<close>, at most 12, if \<open>n\<close> is at
most \<open>2 ^ 30\<close>; for more features the count of nodes overflows and the loop never ends.\<close>
theorem quad_tree_advised_depth:
  "CPLQuadTreeGetAdvisedMaxDepth n =
     (if n > 2 ^ 30 then None else Some (int (min 12 (LEAST e. n \<le> 4 * 2 ^ e))))"
proof (cases "n > 2 ^ 30")
  case True
  then show ?thesis using advised_overflow [of n 0] by (simp add: CPLQuadTreeGetAdvisedMaxDepth_def)
next
  case False
  let ?e = "LEAST e. n \<le> 4 * 2 ^ e"
  have p: "n \<le> 4 * 2 ^ (28::nat)" using False by simp
  have "advised_loop n (int 0) (2 ^ 0) = Some (int ?e)"
  proof (rule advised_power)
    show "?e \<le> 28" using p by (rule Least_le)
    show "n \<le> 4 * 2 ^ ?e" using p by (rule LeastI)
    show "\<forall>j < ?e. 4 * 2 ^ j < n" using not_less_Least by fastforce
  qed simp
  then show ?thesis using False by (simp add: CPLQuadTreeGetAdvisedMaxDepth_def MAX_DEFAULT_TREE_DEPTH_def)
qed

section \<open>Witnesses\<close>

text \<open>Integer coordinates with a split ratio in percent: the quarters of a square overlap as those of the code do.\<close>

declare CPLQuadTreeNodeAddFeatureAlg1.simps [code] CPLQuadTreeNodeAddFeatureAlg2.simps [code]

definition percent :: "int arith" where
  "percent = \<lparr>dadd = (+), dsub = (-), dmul = (\<lambda>x p. x * p div 100)\<rparr>"

definition area :: "int \<Rightarrow> int \<Rightarrow> int CPLRectObj" where
  "area x w = \<lparr>minx = x, miny = x, maxx = x + w, maxy = x + w\<rparr>"

text \<open>A feature is its position; its bounds are of size 2.\<close>

definition small_area :: "int \<Rightarrow> int CPLRectObj" where
  "small_area x = area x 2"

definition grow :: "int tree_op list" where
  "grow = [SetBucketCapacity 2, Insert 1, Insert 2, Insert 3, Insert 70, Insert 71, SetMaxDepth 4, Insert 40, Insert 72]"

theorem quad_tree_search_exact_witness:
  "\<exists>t found. changes percent (CPLQuadTreeCreate 55 (area 0 100) small_area) grow = Some t
    \<and> CPLQuadTreeSearch t (area 60 11) = Some found \<and> mset found = {#70, 71#}"
proof -
  have ok: "changes percent (CPLQuadTreeCreate 55 (area 0 100) small_area) grow \<noteq> None" by code_simp
  have inside: "\<forall>f \<in> set (inserted grow). CPL_RectContained (small_area f) (area 0 100)" by code_simp
  have expected: "filter (\<lambda>f. CPL_RectOverlap (small_area f) (area 60 11)) (inserted grow) = [70, 71]" by code_simp
  obtain t where t: "changes percent (CPLQuadTreeCreate 55 (area 0 100) small_area) grow = Some t" using ok by blast
  from quad_tree_search_exact [OF t inside, of "area 60 11"] show ?thesis
    using t unfolding expected by auto
qed

definition perimeter :: "int CPLRectObj \<Rightarrow> int" where
  "perimeter r = (maxx r - minx r) + (maxy r - miny r)"

lemma percent_smaller: "(x :: int) * 55 div 100 \<le> max 0 x" "0 < x * 55 div 100 \<Longrightarrow> x * 55 div 100 < x"
  by linarith+

lemma halves_shrink:
  assumes "r' = fst (CPLQuadTreeSplitBounds percent 55 r) \<or> r' = snd (CPLQuadTreeSplitBounds percent 55 r)"
    "0 < maxx r' - minx r'" "0 < maxy r' - miny r'"
  shows "0 < maxx r - minx r \<and> 0 < maxy r - miny r \<and> perimeter r' < perimeter r"
proof -
  have halves: "0 < w \<and> w' < w" if "w' = w * 55 div 100" "0 < w'" for w w' :: int
    using that percent_smaller(2) [of w] by linarith
  show ?thesis
  proof (cases "maxx r - minx r > maxy r - miny r")
    case True
    then have "maxx r' - minx r' = (maxx r - minx r) * 55 div 100" "maxy r' = maxy r" "miny r' = miny r"
      using assms(1) by (auto simp: CPLQuadTreeSplitBounds_def percent_def)
    with halves [OF this(1)] assms(2,3) show ?thesis by (simp add: perimeter_def)
  next
    case False
    then have "maxy r' - miny r' = (maxy r - miny r) * 55 div 100" "maxx r' = maxx r" "minx r' = minx r"
      using assms(1) by (auto simp: CPLQuadTreeSplitBounds_def percent_def)
    with halves [OF this(1)] assms(2,3) show ?thesis by (simp add: perimeter_def)
  qed
qed

lemma quads_shrink:
  assumes "r' \<in> set (quads percent 55 r)" "0 < maxx r' - minx r'" "0 < maxy r' - miny r'"
  shows "0 < perimeter r' \<and> perimeter r' < perimeter r"
proof -
  obtain h where h: "h = fst (CPLQuadTreeSplitBounds percent 55 r) \<or> h = snd (CPLQuadTreeSplitBounds percent 55 r)"
    and r': "r' = fst (CPLQuadTreeSplitBounds percent 55 h) \<or> r' = snd (CPLQuadTreeSplitBounds percent 55 h)"
    using assms(1) unfolding quads_def Let_def case_prod_beta by auto
  note s = halves_shrink [OF r' assms(2,3)]
  then have "perimeter h < perimeter r" using halves_shrink [OF h] by simp
  then show ?thesis using s assms(2,3) by (simp add: perimeter_def)
qed

lemma small_areas_descend: "wf (descends percent 55 small_area F)"
proof (rule wf_subset [OF wf_measure [of "nat \<circ> perimeter"]])
  have "0 < maxx r - minx r \<and> 0 < maxy r - miny r" if "CPL_RectContained (small_area f) r" for f r
    using that by (auto simp: CPL_RectContained_def small_area_def area_def)
  then have "nat (perimeter r') < nat (perimeter r)" if "r' \<in> set (quads percent 55 r)" "CPL_RectContained (small_area f) r'" for r' r f
    using quads_shrink [OF that(1)] that(2) by fastforce
  then show "descends percent 55 small_area F \<subseteq> measure (nat \<circ> perimeter)"
    by (auto simp: descends_def)
qed

theorem quad_tree_insert_returns_witness:
  "(\<exists>t. changes percent (CPLQuadTreeCreate 55 (area 0 100) small_area) (map Insert [1, 1, 1, 1, 1, 1, 1, 1, 1, 1]) = Some t
      \<and> nFeatures t = 10)
     \<and> (\<exists>t. changes percent (CPLQuadTreeCreate 55 (area 7 0) (\<lambda>_. area 7 0)) (SetMaxDepth 3 # map Insert [1, 1, 1, 1, 1, 1, 1, 1, 1, 1 :: int]) = Some t
      \<and> nFeatures t = 10)"
  using quad_tree_insert_returns [of percent 55 small_area "map Insert [1, 1, 1, 1, 1, 1, 1, 1, 1, 1]" "area 0 100"]
    quad_tree_insert_returns [of percent 55 "\<lambda>_. area 7 0" "SetMaxDepth 3 # map Insert [1, 1, 1, 1, 1, 1, 1, 1, 1, 1 :: int]" "area 7 0"]
  by (simp add: small_areas_descend del: changes.simps)

theorem quad_tree_coincident_diverges_witness:
  "changes percent (CPLQuadTreeCreate 55 (area 7 0) (\<lambda>_. area 7 0)) (map Insert [1, 2, 3, 4, 5, 6, 7, 8, 9 :: int]) = None"
  using quad_tree_coincident_diverges [of percent 7 0 55 7 "[1, 2, 3, 4, 5, 6, 7, 8, 9]" "\<lambda>_. area 7 0"]
  by (simp add: percent_def area_def)

end
