(* ===== verification/Cpl_Vsi_Mem.thy ===== *)
theory Cpl_Vsi_Mem
  imports Cpl_Prelude "HOL-Library.AList" "HOL-Library.Char_ord" "HOL-Library.List_Lexorder" "HOL-Library.Monad_Syntax"
begin

text \<open>
  The in-memory files of \<^verbatim>\<open>port/cpl_vsi_mem.cpp\<close>: the file list of the handler, reference-counted files with their
  buffers, and open handles. Files, handles and buffers live in maps from identities handed out in order. The value
  \<open>None\<close> of an operation is an access outside a buffer or to something freed. Lengths and offsets are 64-bit words and
  wrap as in the code; reference counts are unbounded integers. \<open>heap_env\<close> says which requests \<^verbatim>\<open>realloc\<close> grants
  and what fresh memory holds.
\<close>

section \<open>State\<close>

type_synonym vsi_l_offset = "64 word"

datatype errno_code = EINVAL | EACCES | ENOENT | EISDIR | EEXIST

datatype cple_code = CPLE_NotSupported | CPLE_OutOfMemory

datatype whence = SEEK_SET | SEEK_CUR | SEEK_END | OtherWhence

record mem_file =
  osFilename :: string
  nRefCount :: int
  bIsDirectory :: bool
  bOwnData :: bool
  pabyData :: "nat option"
  nLength :: vsi_l_offset
  nAllocLength :: vsi_l_offset
  file_bEOF :: bool

record mem_handle =
  poFile :: "nat option"
  nOffset :: vsi_l_offset
  bUpdate :: bool
  bEOF :: bool

record mem_fs =
  oFileList :: "(string \<times> nat) list"
  files :: "nat \<Rightarrow> mem_file option"
  bufs :: "nat \<Rightarrow> byte list option"
  handles :: "nat \<Rightarrow> mem_handle option"
  next_id :: nat
  errno :: "errno_code option"
  cpl_errors :: "cple_code list"

record heap_env =
  grants :: "vsi_l_offset \<Rightarrow> bool"
  junk :: "nat \<Rightarrow> byte"

definition empty_fs :: mem_fs where
  "empty_fs = \<lparr>oFileList = [], files = Map.empty, bufs = Map.empty, handles = Map.empty, next_id = 0, errno = None,
     cpl_errors = []\<rparr>"

definition new_VSIMemFile :: mem_file where
  "new_VSIMemFile = \<lparr>osFilename = [], nRefCount = 0, bIsDirectory = False, bOwnData = True, pabyData = None,
     nLength = 0, nAllocLength = 0, file_bEOF = False\<rparr>"

definition set_errno :: "errno_code \<Rightarrow> mem_fs \<Rightarrow> mem_fs" where
  "set_errno e s = s\<lparr>errno := Some e\<rparr>"

definition CPLError :: "cple_code \<Rightarrow> mem_fs \<Rightarrow> mem_fs" where
  "CPLError e s = s\<lparr>cpl_errors := cpl_errors s @ [e]\<rparr>"

definition put_file :: "nat \<Rightarrow> mem_file \<Rightarrow> mem_fs \<Rightarrow> mem_fs" where
  "put_file f m s = s\<lparr>files := (files s)(f \<mapsto> m)\<rparr>"

definition put_handle :: "nat \<Rightarrow> mem_handle \<Rightarrow> mem_fs \<Rightarrow> mem_fs" where
  "put_handle h x s = s\<lparr>handles := (handles s)(h \<mapsto> x)\<rparr>"

section \<open>Memory\<close>

definition peek_bytes :: "nat option \<Rightarrow> nat \<Rightarrow> nat \<Rightarrow> mem_fs \<Rightarrow> byte list option" where
  "peek_bytes p off n s =
     (if n = 0 then Some []
      else do {
        b \<leftarrow> p;
        d \<leftarrow> bufs s b;
        if off + n \<le> length d then Some (take n (drop off d)) else None
      })"

definition poke_bytes :: "nat option \<Rightarrow> nat \<Rightarrow> byte list \<Rightarrow> mem_fs \<Rightarrow> mem_fs option" where
  "poke_bytes p off src s =
     (if src = [] then Some s
      else do {
        b \<leftarrow> p;
        d \<leftarrow> bufs s b;
        if off + length src \<le> length d
        then Some (s\<lparr>bufs := (bufs s)(b \<mapsto> take off d @ src @ drop (off + length src) d)\<rparr>) else None
      })"

definition VSIRealloc :: "heap_env \<Rightarrow> nat option \<Rightarrow> vsi_l_offset \<Rightarrow> mem_fs \<Rightarrow> (nat option \<times> mem_fs) option" where
  "VSIRealloc env p n s = do {
     d \<leftarrow> (case p of None \<Rightarrow> Some [] | Some b \<Rightarrow> bufs s b);
     if \<not> grants env n then Some (None, s)
     else let rest = (case p of None \<Rightarrow> bufs s | Some b \<Rightarrow> (bufs s)(b := None));
              d' = take (unat n) d @ map (junk env) [length d..<unat n]
          in Some (Some (next_id s), s\<lparr>bufs := rest(next_id s \<mapsto> d'), next_id := Suc (next_id s)\<rparr>)
   }"

definition free_buffer :: "nat option \<Rightarrow> mem_fs \<Rightarrow> mem_fs option" where
  "free_buffer p s =
     (case p of None \<Rightarrow> Some s
      | Some b \<Rightarrow> (case bufs s b of None \<Rightarrow> None | Some d \<Rightarrow> Some (s\<lparr>bufs := (bufs s)(b := None)\<rparr>)))"

section \<open>Files\<close>

text \<open>The destructor of \<^verbatim>\<open>VSIMemFile\<close>, and the release of one reference that \<^verbatim>\<open>Close\<close> and \<^verbatim>\<open>Unlink\<close> share.\<close>

definition delete_VSIMemFile :: "nat \<Rightarrow> mem_fs \<Rightarrow> mem_fs option" where
  "delete_VSIMemFile f s = do {
     m \<leftarrow> files s f;
     s \<leftarrow> (if bOwnData m then free_buffer (pabyData m) s else Some s);
     Some (s\<lparr>files := (files s)(f := None)\<rparr>)
   }"

definition release_file :: "nat \<Rightarrow> mem_fs \<Rightarrow> mem_fs option" where
  "release_file f s = do {
     m \<leftarrow> files s f;
     let s = put_file f (m\<lparr>nRefCount := nRefCount m - 1\<rparr>) s in
     if nRefCount m - 1 = 0 then delete_VSIMemFile f s else Some s
   }"

definition SetLength :: "heap_env \<Rightarrow> nat \<Rightarrow> vsi_l_offset \<Rightarrow> mem_fs \<Rightarrow> (bool \<times> mem_fs) option" where
  "SetLength env f nNewLength s = do {
     m \<leftarrow> files s f;
     if nNewLength > nAllocLength m then
       if \<not> bOwnData m then Some (False, CPLError CPLE_NotSupported s)
       else let nNewAlloc = (nNewLength + nNewLength div 10) + 5000 in do {
         (pabyNewData, s) \<leftarrow> VSIRealloc env (pabyData m) nNewAlloc s;
         if pabyNewData = None then Some (False, CPLError CPLE_OutOfMemory s)
         else do {
           s \<leftarrow> poke_bytes pabyNewData (unat (nAllocLength m)) (replicate (unat (nNewAlloc - nAllocLength m)) 0) s;
           Some (True, put_file f (m\<lparr>pabyData := pabyNewData, nAllocLength := nNewAlloc, nLength := nNewLength\<rparr>) s)
         }
       }
     else Some (True, put_file f (m\<lparr>nLength := nNewLength\<rparr>) s)
   }"

section \<open>Handles\<close>

definition open_file :: "nat \<Rightarrow> mem_fs \<Rightarrow> (mem_handle \<times> nat \<times> mem_file) option" where
  "open_file h s = do { x \<leftarrow> handles s h; f \<leftarrow> poFile x; m \<leftarrow> files s f; Some (x, f, m) }"

definition Close :: "nat \<Rightarrow> mem_fs \<Rightarrow> mem_fs option" where
  "Close h s = do {
     (x, f, m) \<leftarrow> open_file h s;
     s \<leftarrow> release_file f s;
     Some (put_handle h (x\<lparr>poFile := None\<rparr>) s)
   }"

definition VSIFCloseL :: "nat \<Rightarrow> mem_fs \<Rightarrow> mem_fs option" where
  "VSIFCloseL h s = do { s \<leftarrow> Close h s; Some (s\<lparr>handles := (handles s)(h := None)\<rparr>) }"

definition seek_target :: "mem_handle \<Rightarrow> mem_file \<Rightarrow> vsi_l_offset \<Rightarrow> whence \<Rightarrow> vsi_l_offset option" where
  "seek_target x m off nWhence =
     (case nWhence of SEEK_CUR \<Rightarrow> Some (nOffset x + off) | SEEK_SET \<Rightarrow> Some off | SEEK_END \<Rightarrow> Some (nLength m + off)
      | OtherWhence \<Rightarrow> None)"

definition Seek :: "heap_env \<Rightarrow> nat \<Rightarrow> vsi_l_offset \<Rightarrow> whence \<Rightarrow> mem_fs \<Rightarrow> (int \<times> mem_fs) option" where
  "Seek env h off nWhence s = do {
     (x, f, m) \<leftarrow> open_file h s;
     case seek_target x m off nWhence of
       None \<Rightarrow> Some (-1, set_errno EINVAL s)
     | Some t \<Rightarrow>
         let x = x\<lparr>nOffset := t, bEOF := False\<rparr>; s = put_handle h x s in
         if t > nLength m then
           if \<not> bUpdate x then Some (-1, set_errno EACCES (put_handle h (x\<lparr>nOffset := nLength m\<rparr>) s))
           else do {
             (ok, s) \<leftarrow> SetLength env f t s;
             Some (if ok then 0 else -1, s)
           }
         else Some (0, s)
   }"

definition Tell :: "nat \<Rightarrow> mem_fs \<Rightarrow> vsi_l_offset option" where
  "Tell h s = map_option nOffset (handles s h)"

text \<open>\<open>MemRead\<close> gives the count it returns and the bytes it copies to the caller.\<close>

definition MemRead :: "nat \<Rightarrow> vsi_l_offset \<Rightarrow> vsi_l_offset \<Rightarrow> mem_fs \<Rightarrow> ((vsi_l_offset \<times> byte list) \<times> mem_fs) option" where
  "MemRead h nSize nCount s = do {
     (x, f, m) \<leftarrow> open_file h s;
     let nBytesToRead = nSize * nCount; short = (nBytesToRead + nOffset x > nLength m) in
     if short \<and> nLength m < nOffset x then Some ((0, []), put_handle h (x\<lparr>bEOF := True\<rparr>) s)
     else
       let nBytesToRead = (if short then nLength m - nOffset x else nBytesToRead);
           nCount = (if short then nBytesToRead div nSize else nCount);
           x = (if short then x\<lparr>bEOF := True\<rparr> else x)
       in do {
         d \<leftarrow> peek_bytes (pabyData m) (unat (nOffset x)) (unat nBytesToRead) s;
         Some ((nCount, d), put_handle h (x\<lparr>nOffset := nOffset x + nBytesToRead\<rparr>) s)
       }
   }"

text \<open>\<open>MemWrite\<close> takes the bytes at the pointer it is given; copying more than there are is an overread.\<close>

definition MemWrite :: "heap_env \<Rightarrow> nat \<Rightarrow> byte list \<Rightarrow> vsi_l_offset \<Rightarrow> vsi_l_offset \<Rightarrow> mem_fs \<Rightarrow>
    (vsi_l_offset \<times> mem_fs) option" where
  "MemWrite env h src nSize nCount s = do {
     (x, f, m) \<leftarrow> open_file h s;
     if \<not> bUpdate x then Some (0, set_errno EACCES s)
     else let nBytesToWrite = nSize * nCount in do {
       (ok, s) \<leftarrow> (if nBytesToWrite + nOffset x > nLength m then SetLength env f (nBytesToWrite + nOffset x) s
                   else Some (True, s));
       if \<not> ok then Some (0, s)
       else do {
         m \<leftarrow> files s f;
         s \<leftarrow> (if unat nBytesToWrite \<le> length src
               then poke_bytes (pabyData m) (unat (nOffset x)) (take (unat nBytesToWrite) src) s else None);
         Some (nCount, put_handle h (x\<lparr>nOffset := nOffset x + nBytesToWrite\<rparr>) s)
       }
     }
   }"

definition Eof :: "nat \<Rightarrow> mem_fs \<Rightarrow> bool option" where
  "Eof h s = map_option bEOF (handles s h)"

definition Truncate :: "heap_env \<Rightarrow> nat \<Rightarrow> vsi_l_offset \<Rightarrow> mem_fs \<Rightarrow> (int \<times> mem_fs) option" where
  "Truncate env h nNewSize s = do {
     (x, f, m) \<leftarrow> open_file h s;
     if \<not> bUpdate x then Some (-1, set_errno EACCES s)
     else do {
       (ok, s) \<leftarrow> SetLength env f nNewSize s;
       Some (if ok then 0 else -1, s)
     }
   }"

section \<open>The handler\<close>

definition NormalizePath :: "string \<Rightarrow> string" where
  "NormalizePath oPath = map (\<lambda>c. if c = CHR 0x5C then CHR ''/'' else c) oPath"

definition add_file :: "string \<Rightarrow> mem_file \<Rightarrow> mem_fs \<Rightarrow> nat \<times> mem_fs" where
  "add_file name m s =
     (let f = next_id s
      in (f, s\<lparr>files := (files s)(f \<mapsto> m\<lparr>nRefCount := nRefCount m + 1\<rparr>), oFileList := AList.update name f (oFileList s),
               next_id := Suc f\<rparr>))"

definition Open :: "heap_env \<Rightarrow> string \<Rightarrow> string \<Rightarrow> mem_fs \<Rightarrow> (nat option \<times> mem_fs) option" where
  "Open env pszFilename pszAccess s =
     (let name = NormalizePath pszFilename; found = map_of (oFileList s) name; w = (CHR ''w'' \<in> set pszAccess)
      in if \<not> w \<and> found = None then Some (None, set_errno ENOENT s)
         else do {
           (f, s) \<leftarrow> (case found of
                None \<Rightarrow> Some (add_file name (new_VSIMemFile\<lparr>osFilename := name\<rparr>) s)
              | Some f \<Rightarrow> if w then do { (ok, s) \<leftarrow> SetLength env f 0 s; Some (f, s) } else Some (f, s));
           m \<leftarrow> files s f;
           if bIsDirectory m then Some (None, set_errno EISDIR s)
           else
             let h = next_id s;
                 x = \<lparr>poFile = Some f, nOffset = (if CHR ''a'' \<in> set pszAccess then nLength m else 0),
                      bUpdate = (w \<or> CHR ''+'' \<in> set pszAccess \<or> CHR ''a'' \<in> set pszAccess), bEOF = False\<rparr>;
                 s = put_file f (m\<lparr>nRefCount := nRefCount m + 1\<rparr>) s
             in Some (Some h, put_handle h x (s\<lparr>next_id := Suc h\<rparr>))
         })"

text \<open>\<open>Stat\<close> gives its result, the size and whether the path is a directory.\<close>

definition Stat :: "string \<Rightarrow> mem_fs \<Rightarrow> ((int \<times> int \<times> bool) \<times> mem_fs) option" where
  "Stat pszFilename s =
     (let name = NormalizePath pszFilename
      in if name = ''/vsimem/'' then Some ((0, 0, True), s)
         else case map_of (oFileList s) name of
           None \<Rightarrow> Some ((-1, 0, False), set_errno ENOENT s)
         | Some f \<Rightarrow> do {
             m \<leftarrow> files s f;
             if bIsDirectory m then Some ((0, 0, True), s) else Some ((0, sint (nLength m), False), s)
           })"

definition Unlink :: "string \<Rightarrow> mem_fs \<Rightarrow> (int \<times> mem_fs) option" where
  "Unlink pszFilename s =
     (let name = NormalizePath pszFilename
      in case map_of (oFileList s) name of
           None \<Rightarrow> Some (-1, set_errno ENOENT s)
         | Some f \<Rightarrow> do {
             s \<leftarrow> release_file f s;
             Some (0, s\<lparr>oFileList := AList.delete name (oFileList s)\<rparr>)
           })"

definition Mkdir :: "string \<Rightarrow> mem_fs \<Rightarrow> int \<times> mem_fs" where
  "Mkdir pszPathname s =
     (let name = NormalizePath pszPathname
      in if map_of (oFileList s) name \<noteq> None then (-1, set_errno EEXIST s)
         else (0, snd (add_file name (new_VSIMemFile\<lparr>osFilename := name, bIsDirectory := True\<rparr>) s)))"

definition Rmdir :: "string \<Rightarrow> mem_fs \<Rightarrow> (int \<times> mem_fs) option" where
  "Rmdir pszPathname s = Unlink pszPathname s"

text \<open>\<open>ReadDir\<close> walks the list in the order of its keys; the value for an empty path is a read before the string.\<close>

fun read_dir_loop :: "string \<Rightarrow> nat \<Rightarrow> nat list \<Rightarrow> mem_fs \<Rightarrow> string list option" where
  "read_dir_loop osPath nPathLen [] s = Some []"
| "read_dir_loop osPath nPathLen (f # fs) s = do {
     m \<leftarrow> files s f;
     rest \<leftarrow> read_dir_loop osPath nPathLen fs s;
     let pszFilePath = osFilename m in
     if EQUALN osPath pszFilePath nPathLen \<and> char_at pszFilePath nPathLen = CHR ''/''
         \<and> CHR ''/'' \<notin> set (drop (nPathLen + 1) pszFilePath)
     then Some (drop (nPathLen + 1) pszFilePath # rest) else Some rest
   }"

definition ReadDir :: "string \<Rightarrow> mem_fs \<Rightarrow> string list option" where
  "ReadDir pszPath s =
     (let osPath = NormalizePath pszPath
      in if osPath = [] then None
         else read_dir_loop osPath (if osPath ! (length osPath - 1) = CHR ''/'' then length osPath - 1 else length osPath)
                (map snd (sort_key fst (oFileList s))) s)"

definition Rename :: "string \<Rightarrow> string \<Rightarrow> mem_fs \<Rightarrow> (int \<times> mem_fs) option" where
  "Rename pszOldPath pszNewPath s =
     (let osOldPath = NormalizePath pszOldPath; osNewPath = NormalizePath pszNewPath
      in if osOldPath = osNewPath then Some (0, s)
         else case map_of (oFileList s) osOldPath of
           None \<Rightarrow> Some (-1, set_errno ENOENT s)
         | Some f \<Rightarrow> do {
             (r, s) \<leftarrow> Unlink osNewPath (s\<lparr>oFileList := AList.delete osOldPath (oFileList s)\<rparr>);
             m \<leftarrow> files s f;
             Some (0, put_file f (m\<lparr>osFilename := osNewPath\<rparr>) (s\<lparr>oFileList := AList.update osNewPath f (oFileList s)\<rparr>))
           })"

text \<open>The destructor of the handler, on the files in the order of their paths.\<close>

fun delete_listed :: "nat list \<Rightarrow> mem_fs \<Rightarrow> mem_fs option" where
  "delete_listed [] s = Some s"
| "delete_listed (f # fs) s = do {
     m \<leftarrow> files s f;
     s \<leftarrow> delete_VSIMemFile f (put_file f (m\<lparr>nRefCount := nRefCount m - 1\<rparr>) s);
     delete_listed fs s
   }"

definition delete_handler :: "mem_fs \<Rightarrow> mem_fs option" where
  "delete_handler s = map_option (\<lambda>s. s\<lparr>oFileList := []\<rparr>) (delete_listed (map snd (sort_key fst (oFileList s))) s)"

section \<open>Buffers given and taken\<close>

definition VSIFileFromMemBuffer ::
    "heap_env \<Rightarrow> string option \<Rightarrow> nat option \<Rightarrow> vsi_l_offset \<Rightarrow> bool \<Rightarrow> mem_fs \<Rightarrow> (nat option \<times> mem_fs) option" where
  "VSIFileFromMemBuffer env pszFilename data nDataLength bTakeOwnership s =
     (case pszFilename of
        None \<Rightarrow> Some (None, s)
      | Some name \<Rightarrow>
          let name = NormalizePath name;
              m = new_VSIMemFile\<lparr>osFilename := name, bOwnData := bTakeOwnership, pabyData := data, nLength := nDataLength,
                                 nAllocLength := nDataLength\<rparr>
          in do {
            (r, s) \<leftarrow> Unlink name s;
            Open env name ''r+'' (snd (add_file name m s))
          })"

text \<open>The result is the buffer and its length, for a file that is in the list.\<close>

definition VSIGetMemFileBuffer :: "string option \<Rightarrow> bool \<Rightarrow> mem_fs \<Rightarrow> ((nat option \<times> vsi_l_offset) option \<times> mem_fs) option" where
  "VSIGetMemFileBuffer pszFilename bUnlinkAndSeize s =
     (case pszFilename of
        None \<Rightarrow> Some (None, s)
      | Some name \<Rightarrow>
          let name = NormalizePath name
          in case map_of (oFileList s) name of
               None \<Rightarrow> Some (None, s)
             | Some f \<Rightarrow> do {
                 m \<leftarrow> files s f;
                 if bUnlinkAndSeize then do {
                   let m = m\<lparr>bOwnData := False, nRefCount := nRefCount m - 1\<rparr>;
                   s \<leftarrow> delete_VSIMemFile f (put_file f m (s\<lparr>oFileList := AList.delete name (oFileList s)\<rparr>));
                   Some (Some (pabyData m, nLength m), s)
                 }
                 else Some (Some (pabyData m, nLength m), s)
               })"

section \<open>Clients\<close>

text \<open>The operations of a client; the buffer of \<open>VFromBuffer\<close> is one the client has just allocated.\<close>

datatype vsi_op =
    VOpen string string
  | VClose nat
  | VSeek nat vsi_l_offset whence
  | VRead nat vsi_l_offset vsi_l_offset
  | VWrite nat "byte list" vsi_l_offset vsi_l_offset
  | VTruncate nat vsi_l_offset
  | VStat string
  | VUnlink string
  | VMkdir string
  | VRmdir string
  | VRename string string
  | VFromBuffer string "byte list" bool
  | VGetBuffer string bool

definition client_malloc :: "byte list \<Rightarrow> mem_fs \<Rightarrow> nat \<times> mem_fs" where
  "client_malloc d s = (next_id s, s\<lparr>bufs := (bufs s)(next_id s \<mapsto> d), next_id := Suc (next_id s)\<rparr>)"

fun vsi_exec :: "heap_env \<Rightarrow> vsi_op \<Rightarrow> mem_fs \<Rightarrow> mem_fs option" where
  "vsi_exec env (VOpen name access) s = map_option snd (Open env name access s)"
| "vsi_exec env (VClose h) s = VSIFCloseL h s"
| "vsi_exec env (VSeek h off w) s = map_option snd (Seek env h off w s)"
| "vsi_exec env (VRead h nSize nCount) s = map_option snd (MemRead h nSize nCount s)"
| "vsi_exec env (VWrite h d nSize nCount) s = map_option snd (MemWrite env h d nSize nCount s)"
| "vsi_exec env (VTruncate h n) s = map_option snd (Truncate env h n s)"
| "vsi_exec env (VStat name) s = map_option snd (Stat name s)"
| "vsi_exec env (VUnlink name) s = map_option snd (Unlink name s)"
| "vsi_exec env (VMkdir name) s = Some (snd (Mkdir name s))"
| "vsi_exec env (VRmdir name) s = map_option snd (Rmdir name s)"
| "vsi_exec env (VRename old new) s = map_option snd (Rename old new s)"
| "vsi_exec env (VFromBuffer name d own) s =
     (let (b, s) = client_malloc d s in map_option snd (VSIFileFromMemBuffer env (Some name) (Some b) (of_nat (length d)) own s))"
| "vsi_exec env (VGetBuffer name seize) s = map_option snd (VSIGetMemFileBuffer (Some name) seize s)"

text \<open>
  What a client has to respect: handles are open ones; positions and lengths stay below 2 to the 63, without
  wrapping; the source of a write is as long as the write; a buffer is seized only from a file with no open handle.
\<close>

definition fits63 :: "int \<Rightarrow> bool" where
  "fits63 n \<longleftrightarrow> 0 \<le> n \<and> n < 2 ^ 63"

fun vsi_allowed :: "vsi_op \<Rightarrow> mem_fs \<Rightarrow> bool" where
  "vsi_allowed (VClose h) s \<longleftrightarrow> handles s h \<noteq> None"
| "vsi_allowed (VSeek h off w) s \<longleftrightarrow>
     (case open_file h s of None \<Rightarrow> False
      | Some (x, f, m) \<Rightarrow> (case seek_target x m off w of None \<Rightarrow> True | Some t \<Rightarrow> fits63 (uint t)))"
| "vsi_allowed (VRead h nSize nCount) s \<longleftrightarrow>
     (case handles s h of None \<Rightarrow> False | Some x \<Rightarrow> fits63 (uint nSize * uint nCount + uint (nOffset x)))"
| "vsi_allowed (VWrite h d nSize nCount) s \<longleftrightarrow>
     (case handles s h of None \<Rightarrow> False
      | Some x \<Rightarrow> fits63 (uint nSize * uint nCount + uint (nOffset x)) \<and> uint nSize * uint nCount \<le> int (length d))"
| "vsi_allowed (VTruncate h n) s \<longleftrightarrow> handles s h \<noteq> None \<and> fits63 (uint n)"
| "vsi_allowed (VFromBuffer name d own) s \<longleftrightarrow> fits63 (int (length d))"
| "vsi_allowed (VGetBuffer name seize) s \<longleftrightarrow>
     (\<not> seize \<or> (case map_of (oFileList s) (NormalizePath name) of None \<Rightarrow> True
        | Some f \<Rightarrow> (case files s f of None \<Rightarrow> False | Some m \<Rightarrow> nRefCount m = 1)))"
| "vsi_allowed op s \<longleftrightarrow> True"

inductive vsi_reachable :: "mem_fs \<Rightarrow> bool" where
  vsi_start: "vsi_reachable empty_fs"
| vsi_step: "vsi_reachable s \<Longrightarrow> vsi_allowed op s \<Longrightarrow> vsi_exec env op s = Some s' \<Longrightarrow> vsi_reachable s'"

end
