(* ===== verification/Cpl_Vsi_Mem_Inv.thy ===== *)
theory Cpl_Vsi_Mem_Inv
  imports Cpl_Vsi_Mem
begin

text \<open>
  The invariant of the in-memory files: a file exists exactly as long as the file list or a handle refers to it, its
  count is the number of those references, and its length fits63 a buffer of its own. Every operation of a client keeps
  it and accesses nothing outside a buffer or freed.
\<close>

section \<open>Counting references\<close>

definition holders :: "('a \<Rightarrow> nat option) \<Rightarrow> nat \<Rightarrow> nat" where
  "holders m f = card {x. m x = Some f}"

definition counted :: "('a \<Rightarrow> nat option) \<Rightarrow> ('b \<Rightarrow> nat option) \<Rightarrow> (nat \<Rightarrow> int option) \<Rightarrow> bool" where
  "counted L H R \<longleftrightarrow> finite (dom L) \<and> finite (dom H) \<and>
     (\<forall>f. R f = (if holders L f + holders H f = 0 then None else Some (int (holders L f + holders H f))))"

lemma holders_finite: "finite (dom m) \<Longrightarrow> finite {x. m x = Some f}"
  by (rule finite_subset [of _ "dom m"]) auto

lemma holders_empty [simp]: "holders Map.empty f = 0"
  by (simp add: holders_def)

lemma holders_add:
  assumes "finite (dom m)" "m x = None"
  shows "holders (m(x \<mapsto> f)) g = holders m g + (if g = f then 1 else 0)"
proof (cases "g = f")
  case True
  have "{y. (m(x \<mapsto> f)) y = Some f} = insert x {y. m y = Some f}" by auto
  with True assms show ?thesis by (simp add: holders_def holders_finite)
next
  case False
  then have "{y. (m(x \<mapsto> f)) y = Some g} = {y. m y = Some g}" using assms by auto
  with False show ?thesis by (simp add: holders_def)
qed

lemma holders_drop:
  assumes "finite (dom m)" "m x = Some f"
  shows "holders (m(x := None)) g + (if g = f then 1 else 0) = holders m g"
proof -
  have "(m(x := None))(x \<mapsto> f) = m" using assms(2) by auto
  with holders_add [of "m(x := None)" x f g] assms(1) show ?thesis by (simp split: if_splits)
qed

lemma counted_sym: "counted L H R \<Longrightarrow> counted H L R"
  by (simp add: counted_def add.commute)

lemma counted_empty: "counted Map.empty Map.empty Map.empty"
  by (simp add: counted_def)

lemma counted_held: "counted L H R \<Longrightarrow> L x = Some f \<Longrightarrow> \<exists>n. R f = Some n \<and> 1 \<le> n"
  using holders_drop [of L x f f] by (auto simp: counted_def)

lemma counted_add:
  assumes "counted L H R" "L x = None"
  shows "counted (L(x \<mapsto> f)) H (R(f \<mapsto> (case R f of None \<Rightarrow> 1 | Some n \<Rightarrow> n + 1)))"
  using assms by (auto simp: counted_def holders_add)

lemma counted_drop:
  assumes "counted L H R" "L x = Some f" "R f = Some n"
  shows "counted (L(x := None)) H (R(f := if n = 1 then None else Some (n - 1)))"
proof -
  have L: "finite (dom L)" and H: "finite (dom H)"
    and R: "\<And>g. R g = (if holders L g + holders H g = 0 then None else Some (int (holders L g + holders H g)))"
    using assms(1) by (simp_all add: counted_def)
  have h: "\<And>g. holders L g = holders (L(x := None)) g + (if g = f then 1 else 0)"
    using holders_drop [OF L assms(2)] by simp
  have n: "n = int (holders L f + holders H f)" using R [of f] assms(3) by (simp split: if_splits)
  show ?thesis unfolding counted_def
  proof (intro conjI allI)
    fix g
    show "(R(f := if n = 1 then None else Some (n - 1))) g =
        (if holders (L(x := None)) g + holders H g = 0 then None else Some (int (holders (L(x := None)) g + holders H g)))"
      using h [of g] R [of g] n by (cases "g = f") auto
  qed (use L H in auto)
qed

section \<open>The invariant\<close>

abbreviation listed :: "mem_fs \<Rightarrow> string \<Rightarrow> nat option" where
  "listed s \<equiv> map_of (oFileList s)"

definition opened :: "mem_fs \<Rightarrow> nat \<Rightarrow> nat option" where
  "opened s h = (case handles s h of None \<Rightarrow> None | Some x \<Rightarrow> poFile x)"

definition refs :: "mem_fs \<Rightarrow> nat \<Rightarrow> int option" where
  "refs s f = map_option nRefCount (files s f)"

definition refs_inv :: "mem_fs \<Rightarrow> bool" where
  "refs_inv s \<longleftrightarrow> counted (listed s) (opened s) (refs s) \<and> distinct (map fst (oFileList s)) \<and>
     (\<forall>h x. handles s h = Some x \<longrightarrow> poFile x \<noteq> None \<and> h < next_id s) \<and>
     (\<forall>f m. files s f = Some m \<longrightarrow> f < next_id s) \<and>
     (\<forall>p f m. listed s p = Some f \<longrightarrow> files s f = Some m \<longrightarrow> osFilename m = p)"

definition buffer_ok :: "(nat \<Rightarrow> byte list option) \<Rightarrow> mem_file \<Rightarrow> bool" where
  "buffer_ok B m \<longleftrightarrow> nLength m \<le> nAllocLength m \<and>
     (case pabyData m of None \<Rightarrow> nAllocLength m = 0
      | Some b \<Rightarrow> (\<exists>d. B b = Some d \<and> length d = unat (nAllocLength m)))"

definition data_inv :: "mem_fs \<Rightarrow> bool" where
  "data_inv s \<longleftrightarrow> (\<forall>f m. files s f = Some m \<longrightarrow> buffer_ok (bufs s) m) \<and>
     (\<forall>f g m n b. files s f = Some m \<longrightarrow> files s g = Some n \<longrightarrow> pabyData m = Some b \<longrightarrow> pabyData n = Some b \<longrightarrow> f = g) \<and>
     (\<forall>b. bufs s b \<noteq> None \<longrightarrow> b < next_id s)"

definition mem_inv :: "mem_fs \<Rightarrow> bool" where
  "mem_inv s \<longleftrightarrow> refs_inv s \<and> data_inv s"

text \<open>The contents of a file, and what an operation that only touches data and positions leaves as it was.\<close>

definition file_data :: "(nat \<Rightarrow> byte list option) \<Rightarrow> mem_file \<Rightarrow> byte list" where
  "file_data B m = (case pabyData m of None \<Rightarrow> [] | Some b \<Rightarrow> (case B b of None \<Rightarrow> [] | Some d \<Rightarrow> d))"

definition contents :: "mem_fs \<Rightarrow> nat \<Rightarrow> byte list" where
  "contents s f = (case files s f of None \<Rightarrow> [] | Some m \<Rightarrow> take (unat (nLength m)) (file_data (bufs s) m))"

definition file_meta :: "mem_file \<Rightarrow> string \<times> int \<times> bool" where
  "file_meta m = (osFilename m, nRefCount m, bIsDirectory m)"

definition same_refs :: "mem_fs \<Rightarrow> mem_fs \<Rightarrow> bool" where
  "same_refs s s' \<longleftrightarrow> oFileList s' = oFileList s \<and>
     (\<forall>h. map_option poFile (handles s' h) = map_option poFile (handles s h)) \<and>
     (\<forall>f. map_option file_meta (files s' f) = map_option file_meta (files s f)) \<and> next_id s \<le> next_id s'"

lemma same_refs_refl [simp]: "same_refs s s"
  by (simp add: same_refs_def)

lemma same_refs_trans: "same_refs s t \<Longrightarrow> same_refs t u \<Longrightarrow> same_refs s u"
  by (auto simp: same_refs_def)

lemma same_refs_opened: "same_refs s s' \<Longrightarrow> opened s' = opened s"
proof
  fix h assume "same_refs s s'"
  then have "map_option poFile (handles s' h) = map_option poFile (handles s h)" by (simp add: same_refs_def)
  then show "opened s' h = opened s h" by (auto simp: opened_def split: option.splits)
qed

lemma same_refs_refs: "same_refs s s' \<Longrightarrow> refs s' = refs s"
proof
  fix f assume "same_refs s s'"
  then have "map_option file_meta (files s' f) = map_option file_meta (files s f)" by (simp add: same_refs_def)
  then show "refs s' f = refs s f" by (cases "files s f"; cases "files s' f") (auto simp: refs_def file_meta_def)
qed

lemma same_refs_file:
  "same_refs s s' \<Longrightarrow> files s' f = Some m' \<Longrightarrow> \<exists>m. files s f = Some m \<and> file_meta m = file_meta m'"
  unfolding same_refs_def by (metis map_option_eq_Some)

lemma same_refs_handle:
  "same_refs s s' \<Longrightarrow> handles s' h = Some x' \<Longrightarrow> \<exists>x. handles s h = Some x \<and> poFile x = poFile x'"
  unfolding same_refs_def by (metis map_option_eq_Some)

lemma same_refs_inv:
  assumes s: "same_refs s s'" and i: "refs_inv s"
  shows "refs_inv s'"
proof -
  have l: "listed s' = listed s" and n: "next_id s \<le> next_id s'" using s by (simp_all add: same_refs_def)
  have c: "counted (listed s) (opened s) (refs s)"
    and h: "\<And>h x. handles s h = Some x \<Longrightarrow> poFile x \<noteq> None \<and> h < next_id s"
    and f: "\<And>f m. files s f = Some m \<Longrightarrow> f < next_id s"
    and p: "\<And>p f m. listed s p = Some f \<Longrightarrow> files s f = Some m \<Longrightarrow> osFilename m = p"
    using i by (simp_all add: refs_inv_def)
  show ?thesis unfolding refs_inv_def
  proof (intro conjI allI impI)
    show "counted (listed s') (opened s') (refs s')"
      using c by (simp only: l same_refs_opened [OF s] same_refs_refs [OF s])
    show "distinct (map fst (oFileList s'))" using s i by (simp add: same_refs_def refs_inv_def)
  next
    fix h x assume "handles s' h = Some x"
    from same_refs_handle [OF s this] obtain y where "handles s h = Some y" "poFile y = poFile x" by blast
    with h [of h y] n show "poFile x \<noteq> None" "h < next_id s'" by auto
  next
    show "f < next_id s'" if "files s' f = Some m" for f m
      using same_refs_file [OF s that] f n by force
  next
    fix q f m assume q: "listed s' q = Some f" and "files s' f = Some m"
    from same_refs_file [OF s this(2)] obtain m0 where "files s f = Some m0" "osFilename m0 = osFilename m"
      by (auto simp: file_meta_def)
    with p [of q f m0] q l show "osFilename m = q" by simp
  qed
qed


section \<open>Data\<close>

lemma data_invD:
  assumes "data_inv s"
  shows "files s f = Some m \<Longrightarrow> buffer_ok (bufs s) m"
    "files s f = Some m \<Longrightarrow> files s g = Some n \<Longrightarrow> pabyData m = Some b \<Longrightarrow> pabyData n = Some b \<Longrightarrow> f = g"
    "bufs s b = Some d \<Longrightarrow> b < next_id s" "files s f = Some m \<Longrightarrow> pabyData m = Some b \<Longrightarrow> b < next_id s"
proof -
  show ok: "files s f = Some m \<Longrightarrow> buffer_ok (bufs s) m" for f m using assms unfolding data_inv_def by blast
  show "files s f = Some m \<Longrightarrow> files s g = Some n \<Longrightarrow> pabyData m = Some b \<Longrightarrow> pabyData n = Some b \<Longrightarrow> f = g"
    using assms unfolding data_inv_def by blast
  show lt: "bufs s b = Some d \<Longrightarrow> b < next_id s" for b d using assms unfolding data_inv_def by blast
  show "files s f = Some m \<Longrightarrow> pabyData m = Some b \<Longrightarrow> b < next_id s"
    using ok [of f m] lt by (auto simp: buffer_ok_def)
qed

text \<open>A file changes, its buffer is replaced by \<open>p\<close>, and the buffers of the other files stay.\<close>

lemma data_inv_change:
  assumes i: "data_inv s" and m: "buffer_ok B m'"
    and others: "\<And>g n b. files s g = Some n \<Longrightarrow> g \<noteq> f \<Longrightarrow> pabyData n = Some b \<Longrightarrow> B b = bufs s b \<and> pabyData m' \<noteq> Some b"
    and ids: "\<And>b. B b \<noteq> None \<Longrightarrow> b < k"
  shows "data_inv (s\<lparr>files := (files s)(f \<mapsto> m'), bufs := B, next_id := k\<rparr>)"
proof -
  have ok: "buffer_ok B n" if "files s g = Some n" "g \<noteq> f" for g n
    using data_invD(1) [OF i that(1)] others [OF that] by (auto simp: buffer_ok_def split: option.splits)
  have apart: "pabyData m' \<noteq> Some b" if "files s g = Some n" "g \<noteq> f" "pabyData n = Some b" for g n b
    using others [OF that] by blast
  show ?thesis unfolding data_inv_def
  proof (intro conjI allI impI)
    fix g n
    assume "files (s\<lparr>files := (files s)(f \<mapsto> m'), bufs := B, next_id := k\<rparr>) g = Some n"
    then show "buffer_ok (bufs (s\<lparr>files := (files s)(f \<mapsto> m'), bufs := B, next_id := k\<rparr>)) n"
      using ok [of g n] m by (cases "g = f") auto
  next
    fix g h n n' b
    assume "files (s\<lparr>files := (files s)(f \<mapsto> m'), bufs := B, next_id := k\<rparr>) g = Some n"
      "files (s\<lparr>files := (files s)(f \<mapsto> m'), bufs := B, next_id := k\<rparr>) h = Some n'"
      "pabyData n = Some b" "pabyData n' = Some b"
    then show "g = h"
      using apart data_invD(2) [OF i] by (cases "g = f"; cases "h = f") auto
  qed (use ids in auto)
qed

lemma data_inv_drop:
  assumes i: "data_inv s"
    and others: "\<And>g n b. files s g = Some n \<Longrightarrow> g \<noteq> f \<Longrightarrow> pabyData n = Some b \<Longrightarrow> B b = bufs s b"
    and ids: "\<And>b. B b \<noteq> None \<Longrightarrow> b < next_id s"
  shows "data_inv (s\<lparr>files := (files s)(f := None), bufs := B\<rparr>)"
proof -
  have ok: "buffer_ok B n" if "files s g = Some n" "g \<noteq> f" for g n
    using data_invD(1) [OF i that(1)] others [OF that] by (auto simp: buffer_ok_def split: option.splits)
  show ?thesis unfolding data_inv_def
    using ok data_invD(2) [OF i] ids by (auto split: if_splits)
qed

lemma data_inv_cong:
  "data_inv s \<Longrightarrow> files s' = files s \<Longrightarrow> bufs s' = bufs s \<Longrightarrow> next_id s \<le> next_id s' \<Longrightarrow> data_inv s'"
  unfolding data_inv_def by fastforce

lemma data_inv_put:
  assumes "data_inv s" "files s f = Some m" "pabyData m' = pabyData m" "nAllocLength m' = nAllocLength m" "nLength m' \<le> nAllocLength m"
  shows "data_inv (put_file f m' s)"
proof -
  have "buffer_ok (bufs s) m'" using data_invD(1) [OF assms(1,2)] assms(3-5) by (auto simp: buffer_ok_def split: option.splits)
  moreover have "pabyData m' \<noteq> Some b" if "files s g = Some n" "g \<noteq> f" "pabyData n = Some b" for g n b
    using data_invD(2) [OF assms(1) that(1) assms(2) that(3)] that(2) assms(3) by auto
  ultimately have "data_inv (s\<lparr>files := (files s)(f \<mapsto> m'), bufs := bufs s, next_id := next_id s\<rparr>)"
    using data_invD(3) [OF assms(1)] by (intro data_inv_change [OF assms(1)]) auto
  then show ?thesis by (rule data_inv_cong) (simp_all add: put_file_def)
qed

text \<open>The result of \<open>SetLength\<close> in a state with well-formed buffers.\<close>

definition grow_size :: "vsi_l_offset \<Rightarrow> vsi_l_offset" where
  "grow_size n = (n + n div 10) + 5000"

text \<open>A file can get the length \<open>n\<close>: it has the room, or its buffer is its own and the larger allocation is granted.\<close>

definition can_grow :: "heap_env \<Rightarrow> mem_file \<Rightarrow> vsi_l_offset \<Rightarrow> bool" where
  "can_grow env m n \<longleftrightarrow> n \<le> nAllocLength m \<or> bOwnData m \<and> grants env (grow_size n)"

definition freed_bufs :: "nat option \<Rightarrow> (nat \<Rightarrow> byte list option) \<Rightarrow> nat \<Rightarrow> byte list option" where
  "freed_bufs p B = (case p of None \<Rightarrow> B | Some b \<Rightarrow> B(b := None))"

definition grown :: "nat \<Rightarrow> mem_file \<Rightarrow> vsi_l_offset \<Rightarrow> mem_fs \<Rightarrow> mem_fs" where
  "grown f m n s =
     s\<lparr>files := (files s)(f \<mapsto> m\<lparr>pabyData := Some (next_id s), nAllocLength := grow_size n, nLength := n\<rparr>),
       bufs := (freed_bufs (pabyData m) (bufs s))(next_id s \<mapsto>
         file_data (bufs s) m @ replicate (unat (grow_size n) - unat (nAllocLength m)) 0),
       next_id := Suc (next_id s)\<rparr>"

lemma unat_grow: "unat n < 2 ^ 63 \<Longrightarrow> unat (grow_size n) = unat n + unat n div 10 + 5000"
  by (simp add: grow_size_def unat_word_ariths unat_div)

lemma buffer_length: "buffer_ok B m \<Longrightarrow> length (file_data B m) = unat (nAllocLength m)"
  by (auto simp: buffer_ok_def file_data_def split: option.splits)

lemma SetLength_grow:
  assumes i: "data_inv s" and m: "files s f = Some m" and room: "nAllocLength m \<le> grow_size n" and more: "nAllocLength m < n"
    and own: "bOwnData m" "grants env (grow_size n)"
  shows "SetLength env f n s = Some (True, grown f m n s)"
proof -
  let ?d = "file_data (bufs s) m" and ?a = "grow_size n"
  have ok: "buffer_ok (bufs s) m" by (rule data_invD(1) [OF i m])
  have len: "length ?d = unat (nAllocLength m)" by (rule buffer_length [OF ok])
  have le: "unat (nAllocLength m) \<le> unat ?a" using room by (simp add: word_le_nat_alt)
  have sub: "unat (?a - nAllocLength m) = unat ?a - unat (nAllocLength m)" by (rule unat_sub [OF room])
  have old: "(case pabyData m of None \<Rightarrow> Some [] | Some b \<Rightarrow> bufs s b) = Some ?d"
    using ok by (auto simp: buffer_ok_def file_data_def split: option.splits)
  have new: "VSIRealloc env (pabyData m) ?a s =
      Some (Some (next_id s), s\<lparr>bufs := (freed_bufs (pabyData m) (bufs s))(next_id s \<mapsto> ?d @ map (junk env) [length ?d..<unat ?a]),
              next_id := Suc (next_id s)\<rparr>)"
    using own old le len by (simp add: VSIRealloc_def freed_bufs_def Let_def)
  have fit: "unat (nAllocLength m) + (unat ?a - unat (nAllocLength m)) \<le> length ?d + (unat ?a - length ?d)"
    using le len by simp
  show ?thesis
    using own more le fit by (simp add: SetLength_def m new sub Let_def grow_size_def [symmetric] poke_bytes_def len
        put_file_def grown_def)
qed

lemma SetLength_result:
  assumes i: "data_inv s" and m: "files s f = Some m" and n: "unat n < 2 ^ 63"
  shows "SetLength env f n s =
    (if n \<le> nAllocLength m then Some (True, put_file f (m\<lparr>nLength := n\<rparr>) s)
     else if \<not> bOwnData m then Some (False, CPLError CPLE_NotSupported s)
     else if \<not> grants env (grow_size n) then Some (False, CPLError CPLE_OutOfMemory s)
     else Some (True, grown f m n s))"
proof (cases "n > nAllocLength m \<and> bOwnData m \<and> grants env (grow_size n)")
  case True
  have "nAllocLength m \<le> grow_size n" using True unat_grow [OF n] by (simp add: word_le_nat_alt word_less_nat_alt)
  with True show ?thesis by (simp add: SetLength_grow [OF i m] not_le [symmetric])
next
  case False
  have old: "(case pabyData m of None \<Rightarrow> Some [] | Some b \<Rightarrow> bufs s b) \<noteq> None"
    using data_invD(1) [OF i m] by (auto simp: buffer_ok_def split: option.splits)
  show ?thesis
    using False old by (auto simp: SetLength_def m Let_def grow_size_def [symmetric] VSIRealloc_def not_le)
qed

definition others_kept :: "nat \<Rightarrow> mem_fs \<Rightarrow> mem_fs \<Rightarrow> bool" where
  "others_kept f s s' \<longleftrightarrow> (\<forall>g. g \<noteq> f \<longrightarrow> files s' g = files s g \<and> contents s' g = contents s g)"

lemma contents_cong:
  assumes "files s' g = files s g" "\<And>n b. files s g = Some n \<Longrightarrow> pabyData n = Some b \<Longrightarrow> bufs s' b = bufs s b"
  shows "contents s' g = contents s g"
  using assms by (auto simp: contents_def file_data_def split: option.splits)

lemma file_data_length [simp]: "file_data B (m\<lparr>nLength := n\<rparr>) = file_data B m"
  by (simp add: file_data_def)

lemma same_refs_put:
  assumes "files s f = Some m" "file_meta m' = file_meta m" "next_id s \<le> k"
  shows "same_refs s (s\<lparr>files := (files s)(f \<mapsto> m'), bufs := B, next_id := k\<rparr>)"
  using assms by (simp add: same_refs_def)

lemma grown_ok:
  assumes i: "data_inv s" and m: "files s f = Some m" and n: "unat n < 2 ^ 63" and more: "nAllocLength m < n"
  shows "data_inv (grown f m n s)" "same_refs s (grown f m n s)" "others_kept f s (grown f m n s)"
    "contents (grown f m n s) f =
       take (unat n) (file_data (bufs s) m @ replicate (unat (grow_size n) - unat (nAllocLength m)) 0)"
proof -
  define d where "d = file_data (bufs s) m @ replicate (unat (grow_size n) - unat (nAllocLength m)) 0"
  define B where "B = (freed_bufs (pabyData m) (bufs s))(next_id s \<mapsto> d)"
  let ?m = "m\<lparr>pabyData := Some (next_id s), nAllocLength := grow_size n, nLength := n\<rparr>"
  have g: "grown f m n s = s\<lparr>files := (files s)(f \<mapsto> ?m), bufs := B, next_id := Suc (next_id s)\<rparr>"
    by (simp add: grown_def B_def d_def)
  have ok: "buffer_ok (bufs s) m" by (rule data_invD(1) [OF i m])
  have len: "length (file_data (bufs s) m) = unat (nAllocLength m)" by (rule buffer_length [OF ok])
  have less: "unat (nAllocLength m) < unat n" using more by (simp add: word_less_nat_alt)
  have a: "unat n < unat (grow_size n)" using unat_grow [OF n] by simp
  have le: "n \<le> grow_size n" using a by (simp add: word_le_nat_alt)
  have len_d: "length d = unat (grow_size n)" using len less a by (simp add: d_def)
  have others: "B b = bufs s b \<and> pabyData ?m \<noteq> Some b" if "files s g = Some n'" "g \<noteq> f" "pabyData n' = Some b" for g n' b
    using data_invD(2) [OF i that(1) m that(3)] data_invD(4) [OF i that(1,3)] that(2)
    by (auto simp: B_def freed_bufs_def split: option.splits)
  have fresh: "b < Suc (next_id s)" if "B b \<noteq> None" for b
    using that data_invD(3) [OF i, of b] by (force simp: B_def freed_bufs_def split: option.splits if_splits)
  have bok: "buffer_ok B ?m" using le len_d by (simp add: buffer_ok_def B_def)
  show "data_inv (grown f m n s)" unfolding g
    by (rule data_inv_change [OF i bok]) (use others fresh in blast)+
  show "same_refs s (grown f m n s)" unfolding g
    by (rule same_refs_put [OF m]) (simp_all add: file_meta_def)
  show "others_kept f s (grown f m n s)" unfolding others_kept_def
  proof (intro allI impI conjI)
    fix h assume h: "h \<noteq> f"
    show *: "files (grown f m n s) h = files s h" using h by (simp add: g)
    show "contents (grown f m n s) h = contents s h"
      by (rule contents_cong [OF *]) (use others [of h] h in \<open>simp add: g\<close>)
  qed
  show "contents (grown f m n s) f =
       take (unat n) (file_data (bufs s) m @ replicate (unat (grow_size n) - unat (nAllocLength m)) 0)"
  proof -
    have "contents (grown f m n s) f = take (unat n) (file_data B ?m)" by (simp add: contents_def g)
    also have "file_data B ?m = d" by (simp add: file_data_def B_def)
    finally show ?thesis by (simp only: d_def)
  qed
qed

text \<open>\<open>SetLength\<close> returns; on success the file has its new length, on failure nothing but the error record changes.\<close>

lemma SetLength_ok [consumes 3, case_names set fails]:
  assumes i: "data_inv s" and m: "files s f = Some m" and n: "unat n < 2 ^ 63"
  obtains s' m' k where "SetLength env f n s = Some (True, s')" "data_inv s'" "same_refs s s'" "others_kept f s s'"
      "handles s' = handles s" "files s' f = Some m'" "nLength m' = n" "bOwnData m' = bOwnData m"
      "contents s' f = take (unat n) (file_data (bufs s) m @ replicate k 0)" "can_grow env m n"
  | e where "SetLength env f n s = Some (False, CPLError e s)" "nAllocLength m < n" "\<not> can_grow env m n"
proof (cases "n \<le> nAllocLength m")
  case True
  let ?m = "m\<lparr>nLength := n\<rparr>"
  have k: "others_kept f s (put_file f ?m s)" unfolding others_kept_def
    by (intro allI impI conjI contents_cong) (simp_all add: put_file_def)
  have r: "same_refs s (put_file f ?m s)" using m by (simp add: same_refs_def put_file_def file_meta_def)
  show thesis
    by (rule that(1) [of "put_file f ?m s" ?m 0])
      (use True k r data_inv_put [OF i m, of ?m] in \<open>simp_all add: SetLength_result [OF i m n] put_file_def contents_def can_grow_def\<close>)
next
  case False
  then have more: "nAllocLength m < n" by simp
  show thesis
  proof (cases "bOwnData m \<and> grants env (grow_size n)")
    case True
    show thesis
      by (rule that(1) [of "grown f m n s" "m\<lparr>pabyData := Some (next_id s), nAllocLength := grow_size n, nLength := n\<rparr>"])
        (use False True in \<open>simp_all add: SetLength_result [OF i m n] grown_ok [OF i m n more] can_grow_def\<close>, simp_all add: grown_def)
  next
    case no: False
    show thesis
      by (rule that(2) [of "if bOwnData m then CPLE_OutOfMemory else CPLE_NotSupported"])
        (use False no more in \<open>simp_all add: SetLength_result [OF i m n] can_grow_def\<close>)
  qed
qed

text \<open>Copying into a buffer.\<close>

lemma poke_ok:
  assumes i: "data_inv s" and m: "files s f = Some m" and fit: "off + length d \<le> unat (nLength m)"
  obtains B where "poke_bytes (pabyData m) off d s = Some (s\<lparr>bufs := B\<rparr>)" "data_inv (s\<lparr>bufs := B\<rparr>)"
    "others_kept f s (s\<lparr>bufs := B\<rparr>)"
    "contents (s\<lparr>bufs := B\<rparr>) f = take off (contents s f) @ d @ drop (off + length d) (contents s f)"
proof (cases "d = []")
  case True
  show thesis
    by (rule that [of "bufs s"]) (use True i in \<open>simp_all add: poke_bytes_def others_kept_def\<close>)
next
  case False
  have ok: "buffer_ok (bufs s) m" by (rule data_invD(1) [OF i m])
  then have le: "unat (nLength m) \<le> unat (nAllocLength m)" by (simp add: buffer_ok_def word_le_nat_alt)
  with fit False have "nAllocLength m \<noteq> 0" by auto
  with ok obtain b c where b: "pabyData m = Some b" "bufs s b = Some c" "length c = unat (nAllocLength m)"
    by (auto simp: buffer_ok_def split: option.splits)
  let ?c = "take off c @ d @ drop (off + length d) c" let ?B = "(bufs s)(b \<mapsto> ?c)"
  have len: "length ?c = length c" using fit le b by simp
  have apart: "pabyData n = Some b \<Longrightarrow> g = f" if "files s g = Some n" for g n
    using data_invD(2) [OF i that m] b by blast
  have "data_inv (s\<lparr>files := (files s)(f \<mapsto> m), bufs := ?B, next_id := next_id s\<rparr>)"
  proof (rule data_inv_change [OF i])
    show "buffer_ok ?B m" using ok b len by (simp add: buffer_ok_def)
    show "?B b' = bufs s b' \<and> pabyData m \<noteq> Some b'" if "files s g = Some n" "g \<noteq> f" "pabyData n = Some b'" for g n b'
      using apart [OF that(1)] that b by auto
    show "?B b' \<noteq> None \<Longrightarrow> b' < next_id s" for b'
      using data_invD(3) [OF i] b by (auto split: if_splits)
  qed
  then have inv: "data_inv (s\<lparr>bufs := ?B\<rparr>)" by (rule data_inv_cong) (use m in \<open>auto simp: fun_upd_idem\<close>)
  have k: "others_kept f s (s\<lparr>bufs := ?B\<rparr>)" unfolding others_kept_def
  proof (intro allI impI conjI)
    fix g assume g: "g \<noteq> f"
    show "contents (s\<lparr>bufs := ?B\<rparr>) g = contents s g"
      by (rule contents_cong) (use apart g in auto)
  qed simp
  have cont: "contents (s\<lparr>bufs := ?B\<rparr>) f = take off (contents s f) @ d @ drop (off + length d) (contents s f)"
  proof -
    have "off < unat (nLength m)" using fit False by (cases d) auto
    then show ?thesis using fit le b by (simp add: contents_def m file_data_def b min_def drop_take)
  qed
  show thesis
    by (rule that [of ?B]) (use False b fit le inv k cont in \<open>simp_all add: poke_bytes_def\<close>)
qed

lemma peek_ok:
  assumes i: "data_inv s" and m: "files s f = Some m" and fit: "off + n \<le> unat (nLength m)"
  shows "peek_bytes (pabyData m) off n s = Some (take n (drop off (contents s f)))"
proof (cases "n = 0")
  case False
  have ok: "buffer_ok (bufs s) m" by (rule data_invD(1) [OF i m])
  then have le: "unat (nLength m) \<le> unat (nAllocLength m)" by (simp add: buffer_ok_def word_le_nat_alt)
  with fit False have "nAllocLength m \<noteq> 0" by auto
  with ok obtain b c where b: "pabyData m = Some b" "bufs s b = Some c" "length c = unat (nAllocLength m)"
    by (auto simp: buffer_ok_def split: option.splits)
  then show ?thesis using False fit le by (simp add: peek_bytes_def contents_def m file_data_def drop_take)
qed (simp add: peek_bytes_def)


section \<open>Operations on handles\<close>

lemma record_simps [simp]:
  "files (set_errno e s) = files s" "bufs (set_errno e s) = bufs s" "handles (set_errno e s) = handles s"
  "oFileList (set_errno e s) = oFileList s" "next_id (set_errno e s) = next_id s"
  "files (CPLError c s) = files s" "bufs (CPLError c s) = bufs s" "handles (CPLError c s) = handles s"
  "oFileList (CPLError c s) = oFileList s" "next_id (CPLError c s) = next_id s"
  "files (put_handle h x s) = files s" "bufs (put_handle h x s) = bufs s"
  "handles (put_handle h x s) = (handles s)(h \<mapsto> x)"
  "oFileList (put_handle h x s) = oFileList s" "next_id (put_handle h x s) = next_id s"
  by (simp_all add: set_errno_def CPLError_def put_handle_def)

lemma data_inv_simps [simp]:
  "data_inv (set_errno e s) = data_inv s" "data_inv (CPLError c s) = data_inv s" "data_inv (put_handle h x s) = data_inv s"
  by (auto simp: data_inv_def)

lemma contents_simps [simp]:
  "contents (set_errno e s) f = contents s f" "contents (CPLError c s) f = contents s f"
  "contents (put_handle h x s) f = contents s f"
  by (auto simp: contents_def file_data_def split: option.splits)

lemma same_refs_errors: "same_refs s (set_errno e s)" "same_refs s (CPLError c s)"
  by (simp_all add: same_refs_def)

lemma same_refs_put_handle: "handles s h = Some x \<Longrightarrow> poFile x' = poFile x \<Longrightarrow> same_refs s (put_handle h x' s)"
  by (simp add: same_refs_def)

lemma mem_invI: "same_refs s s' \<Longrightarrow> mem_inv s \<Longrightarrow> data_inv s' \<Longrightarrow> mem_inv s'"
  unfolding mem_inv_def using same_refs_inv by blast

lemma mem_inv_data: "mem_inv s \<Longrightarrow> data_inv s"
  by (simp add: mem_inv_def)

lemma mem_inv_open:
  assumes "mem_inv s" "handles s h = Some x"
  obtains f m where "poFile x = Some f" "files s f = Some m" "open_file h s = Some (x, f, m)"
proof -
  have r: "refs_inv s" using assms(1) by (simp add: mem_inv_def)
  then obtain f where f: "poFile x = Some f" using assms(2) unfolding refs_inv_def by blast
  then have "opened s h = Some f" using assms(2) by (simp add: opened_def)
  with r have "refs s f \<noteq> None" unfolding refs_inv_def using counted_held counted_sym by fastforce
  then obtain m where "files s f = Some m" by (auto simp: refs_def)
  with f assms(2) show thesis by (intro that) (simp_all add: open_file_def)
qed

lemma open_fileD:
  "open_file h s = Some (x, f, m) \<Longrightarrow> handles s h = Some x \<and> poFile x = Some f \<and> files s f = Some m"
  by (simp add: open_file_def bind_eq_Some_conv)

lemma fits63_int: "fits63 (int k) \<longleftrightarrow> k < 2 ^ 63"
  by (simp add: fits63_def)

lemma fits63_unat: "fits63 (uint n) \<longleftrightarrow> unat n < 2 ^ 63"
  by (simp only: uint_nat fits63_int)

lemma fits63_product:
  fixes a b c :: vsi_l_offset
  assumes "fits63 (uint a * uint b + uint c)"
  shows "unat (a * b) = unat a * unat b" "unat (a * b + c) = unat a * unat b + unat c" "unat a * unat b + unat c < 2 ^ 63"
proof -
  show less: "unat a * unat b + unat c < 2 ^ 63"
    using assms by (simp only: uint_nat fits63_int flip: of_nat_mult of_nat_add)
  then show ab: "unat (a * b) = unat a * unat b" by (simp add: unat_word_ariths)
  with less show "unat (a * b + c) = unat a * unat b + unat c" by (simp add: unat_word_ariths)
qed

lemma Seek_ok:
  assumes i: "mem_inv s" and o: "open_file h s = Some (x, f, m)"
    and t: "\<And>t. seek_target x m off w = Some t \<Longrightarrow> unat t < 2 ^ 63"
  obtains r s' where "Seek env h off w s = Some (r, s')" "mem_inv s'" "same_refs s s'" "others_kept f s s'"
proof -
  note x = open_fileD [OF o] and d = mem_inv_data [OF i]
  show thesis
  proof (cases "seek_target x m off w")
    case None
    then show thesis
      using i d by (intro that [of "-1" "set_errno EINVAL s"])
        (simp_all add: Seek_def o others_kept_def same_refs_errors mem_invI [OF same_refs_errors(1)])
  next
    case (Some t)
    let ?x = "x\<lparr>nOffset := t, bEOF := False\<rparr>" let ?s = "put_handle h ?x s"
    have r: "same_refs s ?s" using x by (intro same_refs_put_handle) auto
    have k: "others_kept f s ?s" by (simp add: others_kept_def)
    consider "t \<le> nLength m" | "nLength m < t" "\<not> bUpdate x" | "nLength m < t" "bUpdate x" by fastforce
    then show thesis
    proof cases
      case 1
      then show thesis
        using Some mem_invI [OF r i] d r k by (intro that [of 0 ?s]) (simp_all add: Seek_def o Let_def not_less [symmetric])
    next
      case 2
      let ?t = "set_errno EACCES (put_handle h (?x\<lparr>nOffset := nLength m\<rparr>) ?s)"
      have r': "same_refs s ?t" using x by (simp add: same_refs_def)
      show thesis
        by (rule that [of "-1" ?t]) (use 2 Some mem_invI [OF r' i] d r' in \<open>simp_all add: Seek_def o Let_def others_kept_def\<close>)
    next
      case 3
      have "files ?s f = Some m" "data_inv ?s" using x d by simp_all
      from this(2,1) t [OF Some] show thesis
      proof (cases rule: SetLength_ok [where env = env])
        case (set s' m' n)
        then have k': "others_kept f s s'" by (simp add: others_kept_def)
        show thesis
          by (rule that [of 0 s'])
            (use 3 Some set k' same_refs_trans [OF r] mem_invI [OF same_refs_trans [OF r] i] in \<open>simp_all add: Seek_def o Let_def\<close>)
      next
        case (fails e)
        have r': "same_refs s (CPLError e ?s)" by (rule same_refs_trans [OF r same_refs_errors(2)])
        show thesis
          by (rule that [of "-1" "CPLError e ?s"])
            (use 3 Some fails r' mem_invI [OF r' i] d k in \<open>simp_all add: Seek_def o Let_def others_kept_def\<close>)
      qed
    qed
  qed
qed

lemma MemRead_ok:
  assumes i: "mem_inv s" and o: "open_file h s = Some (x, f, m)" and fit: "fits63 (uint nSize * uint nCount + uint (nOffset x))"
  obtains k d x' where "MemRead h nSize nCount s = Some ((k, d), put_handle h x' s)" "poFile x' = Some f"
    "d = take (unat nSize * unat nCount) (drop (unat (nOffset x)) (contents s f))"
    "unat nSize * unat nCount + unat (nOffset x) \<le> unat (nLength m) \<longrightarrow> k = nCount"
    "bUpdate x' = bUpdate x" "nSize = 1 \<longrightarrow> unat k = length d"
proof -
  note x = open_fileD [OF o] and d = mem_inv_data [OF i] and n = fits63_product [OF fit]
  have len: "length (contents s f) = unat (nLength m)"
  proof -
    have "unat (nLength m) \<le> unat (nAllocLength m)" "length (file_data (bufs s) m) = unat (nAllocLength m)"
      using data_invD(1) [OF d, of f m] x buffer_length [of "bufs s" m] by (simp_all add: buffer_ok_def word_le_nat_alt)
    then show ?thesis using x by (simp add: contents_def)
  qed
  consider "nSize * nCount + nOffset x \<le> nLength m" | "nLength m < nSize * nCount + nOffset x" "nLength m < nOffset x"
    | "nLength m < nSize * nCount + nOffset x" "nOffset x \<le> nLength m" by fastforce
  then show thesis
  proof cases
    case 1
    then have fits: "unat (nOffset x) + unat (nSize * nCount) \<le> unat (nLength m)" using n by (simp add: word_le_nat_alt add.commute)
    then have ld: "length (take (unat nSize * unat nCount) (drop (unat (nOffset x)) (contents s f))) = unat nSize * unat nCount"
      using n len by simp
    from peek_ok [OF d _ fits] x 1 n ld show thesis
      by (intro that [of nCount _ "x\<lparr>nOffset := nOffset x + nSize * nCount\<rparr>"]) (auto simp: MemRead_def o Let_def)
  next
    case 2
    then have "drop (unat (nOffset x)) (contents s f) = []" using len by (simp add: word_less_nat_alt)
    moreover have "\<not> unat nSize * unat nCount + unat (nOffset x) \<le> unat (nLength m)"
      using 2(1) n by (simp add: word_less_nat_alt)
    ultimately show thesis
      using 2 x by (intro that [of 0 _ "x\<lparr>bEOF := True\<rparr>"]) (auto simp: MemRead_def o Let_def)
  next
    case 3
    have sub: "unat (nLength m - nOffset x) = unat (nLength m) - unat (nOffset x)" using 3 by (intro unat_sub)
    have le: "unat (nOffset x) \<le> unat (nLength m)" using 3 by (simp add: word_le_nat_alt)
    have more: "unat (nLength m) < unat nSize * unat nCount + unat (nOffset x)" using 3 n by (simp add: word_less_nat_alt)
    have "peek_bytes (pabyData m) (unat (nOffset x)) (unat (nLength m - nOffset x)) s =
        Some (take (unat (nLength m - nOffset x)) (drop (unat (nOffset x)) (contents s f)))"
      using x le sub by (intro peek_ok [OF d]) auto
    moreover have "take (unat (nLength m - nOffset x)) (drop (unat (nOffset x)) (contents s f)) =
        take (unat nSize * unat nCount) (drop (unat (nOffset x)) (contents s f))"
      using sub len more by (simp add: take_all_iff)
    ultimately show thesis
      using 3 x more sub len
      by (intro that [of "(nLength m - nOffset x) div nSize" _ "x\<lparr>bEOF := True, nOffset := nOffset x + (nLength m - nOffset x)\<rparr>"])
        (auto simp: MemRead_def o Let_def)
  qed
qed


lemma contents_length:
  assumes "data_inv s" "files s f = Some m"
  shows "length (contents s f) = unat (nLength m)" "length (file_data (bufs s) m) = unat (nAllocLength m)"
    "unat (nLength m) \<le> unat (nAllocLength m)" "contents s f = take (unat (nLength m)) (file_data (bufs s) m)"
proof -
  have b: "buffer_ok (bufs s) m" by (rule data_invD(1) [OF assms])
  show len: "length (file_data (bufs s) m) = unat (nAllocLength m)" by (rule buffer_length [OF b])
  show le: "unat (nLength m) \<le> unat (nAllocLength m)" using b by (simp add: buffer_ok_def word_le_nat_alt)
  show c: "contents s f = take (unat (nLength m)) (file_data (bufs s) m)" using assms(2) by (simp add: contents_def)
  show "length (contents s f) = unat (nLength m)" using len le c by simp
qed

lemma MemWrite_ok:
  assumes i: "mem_inv s" and o: "open_file h s = Some (x, f, m)"
    and fit: "fits63 (uint nSize * uint nCount + uint (nOffset x))" and src: "unat nSize * unat nCount \<le> length src"
  defines "d \<equiv> take (unat nSize * unat nCount) src" and "off \<equiv> unat (nOffset x)"
  obtains (written) s' where "MemWrite env h src nSize nCount s = Some (nCount, s')" "bUpdate x" "mem_inv s'" "same_refs s s'"
      "others_kept f s s'" "handles s' = (handles s)(h \<mapsto> x\<lparr>nOffset := nOffset x + nSize * nCount\<rparr>)"
      "nOffset x \<le> nLength m \<Longrightarrow> contents s' f = take off (contents s f) @ d @ drop (off + length d) (contents s f)"
      "off + length d \<le> length (contents s' f)" "can_grow env m (nSize * nCount + nOffset x)"
  | (refused) s' where "MemWrite env h src nSize nCount s = Some (0, s')" "mem_inv s'" "same_refs s s'"
      "files s' = files s" "bufs s' = bufs s" "handles s' = handles s"
      "\<not> (bUpdate x \<and> can_grow env m (nSize * nCount + nOffset x))"
proof (cases "bUpdate x")
  case False
  show thesis
    by (rule refused [of "set_errno EACCES s"])
      (use i False in \<open>simp_all add: MemWrite_def o same_refs_errors mem_invI [OF same_refs_errors(1)] mem_inv_data\<close>)
next
  case upd: True
  note x = open_fileD [OF o] and di = mem_inv_data [OF i] and n = fits63_product [OF fit]
  have len: "length d = unat nSize * unat nCount" using src by (simp add: d_def)
  let ?x = "x\<lparr>nOffset := nOffset x + nSize * nCount\<rparr>" and ?stop = "nSize * nCount + nOffset x"
  have e: "unat ?stop = off + length d" using n len by (simp add: off_def)
  have hx: "handles s h = Some x" "files s f = Some m" using x by simp_all
  note c = contents_length [OF di hx(2)]
  show thesis
  proof (cases "nLength m < ?stop")
    case False
    then have room: "off + length d \<le> unat (nLength m)" using e by (simp add: word_less_nat_alt)
    from poke_ok [OF di hx(2) room] obtain B where B: "poke_bytes (pabyData m) off d s = Some (s\<lparr>bufs := B\<rparr>)"
        "data_inv (s\<lparr>bufs := B\<rparr>)" "others_kept f s (s\<lparr>bufs := B\<rparr>)"
        "contents (s\<lparr>bufs := B\<rparr>) f = take off (contents s f) @ d @ drop (off + length d) (contents s f)" .
    let ?s = "put_handle h ?x (s\<lparr>bufs := B\<rparr>)"
    have r: "same_refs s ?s" using hx by (simp add: same_refs_def)
    have w: "MemWrite env h src nSize nCount s = Some (nCount, ?s)"
      using False upd B(1) src n by (simp add: MemWrite_def o Let_def hx d_def off_def)
    have l: "off + length d \<le> length (contents ?s f)" using B(4) c room by simp
    have "nLength m \<le> nAllocLength m" using data_invD(1) [OF di hx(2)] by (auto simp: buffer_ok_def)
    with False have "?stop \<le> nAllocLength m" by simp
    then have g: "can_grow env m ?stop" by (simp add: can_grow_def)
    show thesis
      by (rule written [OF w upd mem_invI [OF r i] r]) (use B l g in \<open>simp_all add: others_kept_def\<close>)
  next
    case more: True
    have e63: "unat ?stop < 2 ^ 63" using n by simp
    from di hx(2) e63 show thesis
    proof (cases rule: SetLength_ok [where env = env])
      case (set s1 m1 k)
      have "off + length d \<le> unat (nLength m1)" using e set by simp
      from poke_ok [OF set(2) set(6) this] obtain B where B: "poke_bytes (pabyData m1) off d s1 = Some (s1\<lparr>bufs := B\<rparr>)"
          "data_inv (s1\<lparr>bufs := B\<rparr>)" "others_kept f s1 (s1\<lparr>bufs := B\<rparr>)"
          "contents (s1\<lparr>bufs := B\<rparr>) f = take off (contents s1 f) @ d @ drop (off + length d) (contents s1 f)" .
      let ?s = "put_handle h ?x (s1\<lparr>bufs := B\<rparr>)"
      have r: "same_refs s ?s" using set(3) hx by (auto simp: same_refs_def)
      have w: "MemWrite env h src nSize nCount s = Some (nCount, ?s)"
        using more upd B(1) src n set(1,6) by (simp add: MemWrite_def o Let_def d_def off_def)
      have cont: "contents ?s f = take off (contents s f) @ d @ drop (off + length d) (contents s f)" if "nOffset x \<le> nLength m"
      proof -
        have le: "off \<le> unat (nLength m)" using that by (simp add: off_def word_le_nat_alt)
        have ge: "unat (nLength m) \<le> off + length d" using more e by (simp add: word_less_nat_alt)
        have "take off (contents s1 f) = take off (contents s f)" using le c set(9) e by (simp add: min_def)
        moreover have "drop (off + length d) (contents s1 f) = []" using set(9) e by simp
        moreover have "drop (off + length d) (contents s f) = []" using ge c by simp
        ultimately show ?thesis using B(4) by simp
      qed
      have l: "off + length d \<le> length (contents ?s f)" using B(4) e set contents_length(1) [OF set(2,6)] by simp
      have k': "others_kept f s ?s" using set(4) B(3) by (simp add: others_kept_def)
      have hs: "handles ?s = (handles s)(h \<mapsto> ?x)" using set(5) by simp
      have d': "data_inv ?s" using B(2) by simp
      show thesis by (rule written [OF w upd mem_invI [OF r i d'] r k' hs cont l set(10)])
    next
      case (fails c)
      show thesis
        by (rule refused [of "CPLError c s"])
          (use more upd fails i in \<open>simp_all add: MemWrite_def o same_refs_errors mem_invI [OF same_refs_errors(2)] mem_inv_data Let_def\<close>)
    qed
  qed
qed

lemma Truncate_ok:
  assumes i: "mem_inv s" and o: "open_file h s = Some (x, f, m)" and n: "unat n < 2 ^ 63"
  obtains r s' where "Truncate env h n s = Some (r, s')" "mem_inv s'" "same_refs s s'" "others_kept f s s'"
proof (cases "bUpdate x")
  case False
  show thesis
    by (rule that [of "-1" "set_errno EACCES s"])
      (use i False in \<open>simp_all add: Truncate_def o same_refs_errors mem_invI [OF same_refs_errors(1)] mem_inv_data others_kept_def\<close>)
next
  case True
  have m: "files s f = Some m" using open_fileD [OF o] by simp
  from mem_inv_data [OF i] m n show thesis
  proof (cases rule: SetLength_ok [where env = env])
    case (set s' m' k)
    show thesis
      by (rule that [of 0 s']) (use True set mem_invI [OF set(3) i] in \<open>simp_all add: Truncate_def o\<close>)
  next
    case (fails e)
    show thesis
      by (rule that [of "-1" "CPLError e s"])
        (use True fails i in \<open>simp_all add: Truncate_def o same_refs_errors mem_invI [OF same_refs_errors(2)] mem_inv_data others_kept_def\<close>)
  qed
qed

end
