(* ===== verification/Cpl_Vsi_Mem_Refs.thy ===== *)
theory Cpl_Vsi_Mem_Refs
  imports Cpl_Vsi_Mem_Inv
begin

text \<open>
  The operations on the file list of the in-memory files, and the steps that make and drop references: each keeps the
  invariant, and a client that respects \<open>vsi_allowed\<close> never meets an access outside a buffer or to something freed.
\<close>

section \<open>Making and dropping references\<close>

lemma refs_counted: "refs_inv s \<Longrightarrow> counted (listed s) (opened s) (refs s)"
  by (simp add: refs_inv_def)

lemma refs_distinct: "refs_inv s \<Longrightarrow> distinct (map fst (oFileList s))"
  by (simp add: refs_inv_def)

lemma refs_file: "refs_inv s \<Longrightarrow> files s f = Some m \<Longrightarrow> f < next_id s \<and> (listed s p = Some f \<longrightarrow> osFilename m = p)"
  unfolding refs_inv_def by blast

lemma buffer_ok_count [simp]: "buffer_ok B (m\<lparr>nRefCount := n\<rparr>) = buffer_ok B m"
  by (auto simp: buffer_ok_def split: option.splits)

lemma listed_file:
  assumes "mem_inv s" "listed s p = Some f"
  obtains m where "files s f = Some m" "osFilename m = p" "1 \<le> nRefCount m"
proof -
  have r: "refs_inv s" using assms(1) by (simp add: mem_inv_def)
  then obtain n where "refs s f = Some n" "1 \<le> n"
    using counted_held [of "listed s" "opened s" "refs s" p f] assms(2) refs_counted by blast
  then obtain m where "files s f = Some m" "1 \<le> nRefCount m" by (auto simp: refs_def)
  with r assms(2) show thesis by (intro that) (auto simp: refs_inv_def)
qed

lemma release_result:
  assumes i: "data_inv s" and m: "files s f = Some m"
  obtains B where "release_file f s =
      Some (s\<lparr>files := (files s)(f := if nRefCount m = 1 then None else Some (m\<lparr>nRefCount := nRefCount m - 1\<rparr>)), bufs := B\<rparr>)"
    "data_inv (s\<lparr>files := (files s)(f := if nRefCount m = 1 then None else Some (m\<lparr>nRefCount := nRefCount m - 1\<rparr>)), bufs := B\<rparr>)"
    "\<forall>b. B b \<noteq> bufs s b \<longrightarrow> nRefCount m = 1 \<and> bOwnData m \<and> pabyData m = Some b"
proof (cases "nRefCount m = 1")
  case False
  have "data_inv (put_file f (m\<lparr>nRefCount := nRefCount m - 1\<rparr>) s)"
    using data_invD(1) [OF i m] by (intro data_inv_put [OF i m]) (simp_all add: buffer_ok_def)
  then show thesis
    by (intro that [of "bufs s"]) (use False in \<open>simp_all add: release_file_def m Let_def put_file_def\<close>)
next
  case True
  let ?B = "if bOwnData m then freed_bufs (pabyData m) (bufs s) else bufs s"
  have ok: "buffer_ok (bufs s) m" by (rule data_invD(1) [OF i m])
  have free: "release_file f s = Some (s\<lparr>files := (files s)(f := None), bufs := ?B\<rparr>)"
    using True ok
    by (auto simp: release_file_def m Let_def put_file_def delete_VSIMemFile_def free_buffer_def freed_bufs_def buffer_ok_def
        split: option.splits)
  have kept: "?B b = bufs s b" if "files s g = Some n" "g \<noteq> f" "pabyData n = Some b" for g n b
    using data_invD(2) [OF i that(1) m that(3)] that(2) by (auto simp: freed_bufs_def split: option.splits)
  have ids: "b < next_id s" if "?B b \<noteq> None" for b
    using data_invD(3) [OF i, of b] that by (auto simp: freed_bufs_def split: option.splits if_splits)
  have "data_inv (s\<lparr>files := (files s)(f := None), bufs := ?B\<rparr>)"
    by (rule data_inv_drop [OF i]) (use kept ids in blast)+
  moreover have "?B b \<noteq> bufs s b \<Longrightarrow> bOwnData m \<and> pabyData m = Some b" for b
    by (auto simp: freed_bufs_def split: option.splits if_splits)
  ultimately show thesis using True free by (intro that [of ?B]) auto
qed

definition dropped :: "mem_file \<Rightarrow> mem_file option" where
  "dropped m = (if nRefCount m = 1 then None else Some (m\<lparr>nRefCount := nRefCount m - 1\<rparr>))"

lemmas release_dropped = release_result [folded dropped_def]

lemma refs_dropped:
  assumes "files s f = Some m" "files s' = (files s)(f := dropped m)"
  shows "refs s' = (refs s)(f := if nRefCount m = 1 then None else Some (nRefCount m - 1))"
  using assms by (auto simp: refs_def dropped_def)

lemma dropped_file:
  assumes "refs_inv s" "files s f = Some m" "files s' = (files s)(f := dropped m)" "files s' g = Some n"
  shows "g < next_id s \<and> (listed s q = Some g \<longrightarrow> osFilename n = q)"
proof (cases "g = f")
  case True
  then show ?thesis using refs_file [OF assms(1,2), of q] assms(3,4) by (auto simp: dropped_def split: if_splits)
next
  case False
  then show ?thesis using refs_file [OF assms(1), of g n q] assms(3,4) by simp
qed

lemma drop_listed:
  assumes r: "refs_inv s" and f: "listed s p = Some f" "files s f = Some m"
    and s': "files s' = (files s)(f := dropped m)" "listed s' = (listed s)(p := None)" "handles s' = handles s"
      "next_id s' = next_id s" "distinct (map fst (oFileList s'))"
  shows "refs_inv s'"
proof -
  have c: "counted (listed s) (opened s) (refs s)" using r by (simp add: refs_inv_def)
  have o: "opened s' = opened s" using s'(3) by (simp add: opened_def fun_eq_iff)
  have "counted (listed s') (opened s') (refs s')"
    using counted_drop [OF c f(1), of "nRefCount m"] f(2)
    by (simp only: refs_dropped [OF f(2) s'(1)] s'(2) o refs_def option.map)
  moreover have "osFilename n = q" if "listed s' q = Some g" "files s' g = Some n" for q g n
    using that(1) dropped_file [OF r f(2) s'(1) that(2), of q] unfolding s'(2) by (simp split: if_splits)
  moreover have "g < next_id s'" if "files s' g = Some n" for g n
    using dropped_file [OF r f(2) s'(1) that] s'(4) by simp
  ultimately show ?thesis using r s'(3-5) by (simp add: refs_inv_def)
qed

lemma drop_opened:
  assumes r: "refs_inv s" and f: "opened s h = Some f" "files s f = Some m"
    and s': "files s' = (files s)(f := dropped m)" "oFileList s' = oFileList s" "handles s' = (handles s)(h := None)"
      "next_id s' = next_id s"
  shows "refs_inv s'"
proof -
  have c: "counted (opened s) (listed s) (refs s)" by (rule counted_sym [OF refs_counted [OF r]])
  have o: "opened s' = (opened s)(h := None)" using s'(3) by (simp add: opened_def fun_eq_iff)
  have "counted (opened s') (listed s') (refs s')"
    using counted_drop [OF c f(1), of "nRefCount m"] f(2)
    by (simp only: refs_dropped [OF f(2) s'(1)] s'(2) o refs_def option.map)
  then have "counted (listed s') (opened s') (refs s')" by (rule counted_sym)
  moreover have "osFilename n = q" if "listed s' q = Some g" "files s' g = Some n" for q g n
    using that(1) dropped_file [OF r f(2) s'(1) that(2), of q] unfolding s'(2) by simp
  moreover have "g < next_id s'" if "files s' g = Some n" for g n
    using dropped_file [OF r f(2) s'(1) that] s'(4) by simp
  ultimately show ?thesis using r s'(2-4) by (auto simp: refs_inv_def)
qed

lemma add_opened:
  assumes i: "mem_inv s" and m: "files s f = Some m" and x: "poFile x = Some f"
  defines "s' \<equiv> put_handle (next_id s) x ((put_file f (m\<lparr>nRefCount := nRefCount m + 1\<rparr>) s)\<lparr>next_id := Suc (next_id s)\<rparr>)"
  shows "mem_inv s'"
proof -
  let ?m = "m\<lparr>nRefCount := nRefCount m + 1\<rparr>" and ?h = "next_id s"
  have r: "refs_inv s" and d: "data_inv s" using i by (simp_all add: mem_inv_def)
  have c: "counted (opened s) (listed s) (refs s)" by (rule counted_sym [OF refs_counted [OF r]])
  have free: "handles s ?h = None" using r by (force simp: refs_inv_def)
  have o: "opened s' = (opened s)(?h \<mapsto> f)" by (auto simp: s'_def opened_def x put_file_def put_handle_def)
  have rf: "refs s' = (refs s)(f \<mapsto> (case refs s f of None \<Rightarrow> 1 | Some n \<Rightarrow> n + 1))"
    by (auto simp: s'_def refs_def m put_file_def put_handle_def)
  have l: "oFileList s' = oFileList s" by (simp add: s'_def put_file_def)
  have "counted (opened s') (listed s') (refs s')"
    unfolding o rf l by (rule counted_add [OF c]) (simp add: opened_def free)
  then have "counted (listed s') (opened s') (refs s')" by (rule counted_sym)
  moreover have "\<forall>h y. handles s' h = Some y \<longrightarrow> poFile y \<noteq> None \<and> h < next_id s'"
    using r x unfolding refs_inv_def by (auto simp: s'_def put_file_def less_Suc_eq)
  moreover have "\<forall>g n. files s' g = Some n \<longrightarrow> g < next_id s'"
    using r m unfolding refs_inv_def by (auto simp: s'_def put_file_def less_Suc_eq)
  moreover have "\<forall>p g n. listed s' p = Some g \<longrightarrow> files s' g = Some n \<longrightarrow> osFilename n = p"
    using r m unfolding refs_inv_def by (auto simp: s'_def put_file_def)
  moreover have "distinct (map fst (oFileList s'))" using r unfolding l by (simp add: refs_inv_def)
  ultimately have "refs_inv s'" by (simp add: refs_inv_def)
  moreover have "data_inv (put_file f ?m s)"
    using data_invD(1) [OF d m] by (intro data_inv_put [OF d m]) (auto simp: buffer_ok_def split: option.splits)
  then have "data_inv s'" by (rule data_inv_cong) (simp_all add: s'_def put_file_def)
  ultimately show ?thesis by (simp add: mem_inv_def)
qed

lemma add_file_inv:
  assumes i: "mem_inv s" and p: "listed s p = None" and m: "osFilename m = p" "nRefCount m = 0" "buffer_ok (bufs s) m"
    and apart: "\<And>g n b. files s g = Some n \<Longrightarrow> pabyData m = Some b \<Longrightarrow> pabyData n \<noteq> Some b"
  shows "mem_inv (snd (add_file p m s))"
proof -
  let ?f = "next_id s" and ?m = "m\<lparr>nRefCount := nRefCount m + 1\<rparr>" and ?s = "snd (add_file p m s)"
  have r: "refs_inv s" and d: "data_inv s" using i by (simp_all add: mem_inv_def)
  have c: "counted (listed s) (opened s) (refs s)" using r by (simp add: refs_inv_def)
  have free: "files s ?f = None" using r by (force simp: refs_inv_def)
  have o: "opened ?s = opened s" by (simp add: add_file_def Let_def opened_def fun_eq_iff)
  have l: "listed ?s = (listed s)(p \<mapsto> ?f)" by (simp add: add_file_def Let_def update_conv')
  have rf: "refs ?s = (refs s)(?f \<mapsto> (case refs s ?f of None \<Rightarrow> 1 | Some n \<Rightarrow> n + 1))"
    using m(2) free by (auto simp: add_file_def Let_def refs_def)
  have "counted (listed ?s) (opened ?s) (refs ?s)" unfolding o l rf by (rule counted_add [OF c p])
  moreover have "\<forall>h y. handles ?s h = Some y \<longrightarrow> poFile y \<noteq> None \<and> h < next_id ?s"
    using r unfolding refs_inv_def by (auto simp: add_file_def Let_def less_Suc_eq)
  moreover have "\<forall>g n. files ?s g = Some n \<longrightarrow> g < next_id ?s"
    using r unfolding refs_inv_def by (auto simp: add_file_def Let_def less_Suc_eq)
  moreover have "osFilename n = q" if "listed ?s q = Some g" "files ?s g = Some n" for q g n
  proof (cases "q = p")
    case True
    then show ?thesis using that m(1) unfolding l by (auto simp: add_file_def Let_def)
  next
    case False
    then have q: "listed s q = Some g" using that(1) unfolding l by simp
    obtain n' where "files s g = Some n'" by (rule listed_file [OF i q])
    then have "g \<noteq> ?f" using free by auto
    then show ?thesis using that(2) r q by (auto simp: add_file_def Let_def refs_inv_def)
  qed
  moreover have "distinct (map fst (oFileList ?s))"
    using r by (simp add: refs_inv_def add_file_def Let_def distinct_update)
  ultimately have "refs_inv ?s" by (simp add: refs_inv_def)
  moreover have "data_inv (s\<lparr>files := (files s)(?f \<mapsto> ?m), bufs := bufs s, next_id := Suc ?f\<rparr>)"
  proof (rule data_inv_change [OF d])
    show "buffer_ok (bufs s) ?m" using m(3) by simp
    show "bufs s b = bufs s b \<and> pabyData ?m \<noteq> Some b" if "files s g = Some n" "g \<noteq> ?f" "pabyData n = Some b" for g n b
      using apart [OF that(1)] that(3) by auto
    show "b < Suc ?f" if "bufs s b \<noteq> None" for b using data_invD(3) [OF d, of b] that by force
  qed
  then have "data_inv ?s" by (rule data_inv_cong) (simp_all add: add_file_def Let_def)
  ultimately show ?thesis by (simp add: mem_inv_def)
qed


section \<open>The operations of the handler\<close>

lemma Close_ok:
  assumes i: "mem_inv s" and x: "handles s h = Some x"
  obtains s' where "VSIFCloseL h s = Some s'" "mem_inv s'" "oFileList s' = oFileList s" "handles s' = (handles s)(h := None)"
proof -
  obtain f m where f: "poFile x = Some f" and m: "files s f = Some m" and o: "open_file h s = Some (x, f, m)"
    by (rule mem_inv_open [OF i x])
  have r: "refs_inv s" and d: "data_inv s" using i by (simp_all add: mem_inv_def)
  obtain B where B: "release_file f s = Some (s\<lparr>files := (files s)(f := dropped m), bufs := B\<rparr>)"
      "data_inv (s\<lparr>files := (files s)(f := dropped m), bufs := B\<rparr>)"
      "\<forall>b. B b \<noteq> bufs s b \<longrightarrow> nRefCount m = 1 \<and> bOwnData m \<and> pabyData m = Some b"
    by (rule release_dropped [OF d m])
  let ?s = "s\<lparr>files := (files s)(f := dropped m), bufs := B, handles := (handles s)(h := None)\<rparr>"
  have "opened s h = Some f" using x f by (simp add: opened_def)
  then have "refs_inv ?s" by (rule drop_opened [OF r _ m]) simp_all
  moreover have "data_inv ?s" by (rule data_inv_cong [OF B(2)]) simp_all
  moreover have "VSIFCloseL h s = Some ?s" by (simp add: VSIFCloseL_def Close_def o B(1) put_handle_def)
  ultimately show thesis by (intro that [of ?s]) (simp_all add: mem_inv_def)
qed

text \<open>\<open>Unlink\<close> takes the path out of the list; no other path, no handle and no other file changes.\<close>

lemma Unlink_ok:
  assumes i: "mem_inv s"
  obtains r s' where "Unlink p s = Some (r, s')" "mem_inv s'" "listed s' = (listed s)(NormalizePath p := None)"
    "handles s' = handles s" "next_id s' = next_id s"
    "\<forall>f. listed s (NormalizePath p) \<noteq> Some f \<longrightarrow> files s' f = files s f"
    "\<forall>h f. opened s h = Some f \<longrightarrow> contents s' f = contents s f \<and>
       map_option (\<lambda>m. (pabyData m, nLength m)) (files s' f) = map_option (\<lambda>m. (pabyData m, nLength m)) (files s f)"
    "\<forall>b. bufs s' b \<noteq> bufs s b \<longrightarrow> (\<exists>f m. files s f = Some m \<and> pabyData m = Some b \<and> files s' f = None)"
    "\<forall>g n'. files s' g = Some n' \<longrightarrow> (\<exists>n. files s g = Some n \<and> pabyData n' = pabyData n)"
proof (cases "listed s (NormalizePath p)")
  case None
  have inv: "mem_inv (set_errno ENOENT s)" by (rule mem_invI [OF same_refs_errors(1) i]) (simp add: mem_inv_data [OF i])
  have l: "listed (set_errno ENOENT s) = (listed s)(NormalizePath p := None)" using None by (simp add: fun_upd_idem)
  have u: "Unlink p s = Some (-1, set_errno ENOENT s)" using None by (simp add: Unlink_def)
  show thesis by (rule that [OF u inv l]; simp?)
next
  case (Some f)
  obtain m where m: "files s f = Some m" by (rule listed_file [OF i Some])
  have r: "refs_inv s" and d: "data_inv s" using i by (simp_all add: mem_inv_def)
  obtain B where B: "release_file f s = Some (s\<lparr>files := (files s)(f := dropped m), bufs := B\<rparr>)"
      "data_inv (s\<lparr>files := (files s)(f := dropped m), bufs := B\<rparr>)"
      "\<forall>b. B b \<noteq> bufs s b \<longrightarrow> nRefCount m = 1 \<and> bOwnData m \<and> pabyData m = Some b"
    by (rule release_dropped [OF d m])
  let ?s = "s\<lparr>files := (files s)(f := dropped m), bufs := B, oFileList := AList.delete (NormalizePath p) (oFileList s)\<rparr>"
  have u: "Unlink p s = Some (0, ?s)" by (simp add: Unlink_def Let_def Some B(1))
  have l: "listed ?s = (listed s)(NormalizePath p := None)" by (simp add: delete_conv')
  have "refs_inv ?s" by (rule drop_listed [OF r Some m _ l]) (simp_all add: distinct_delete refs_distinct [OF r])
  moreover have "data_inv ?s" by (rule data_inv_cong [OF B(2)]) simp_all
  ultimately have inv: "mem_inv ?s" by (simp add: mem_inv_def)
  have shared: "nRefCount m \<noteq> 1" if "opened s h = Some f" for h
  proof -
    have "counted (opened s) ((listed s)(NormalizePath p := None))
        ((refs s)(f := if nRefCount m = 1 then None else Some (nRefCount m - 1)))"
      using counted_sym [OF counted_drop [OF refs_counted [OF r] Some, of "nRefCount m"]] m by (simp add: refs_def)
    from counted_held [OF this, of h f] that show ?thesis by auto
  qed
  have kept: "contents ?s g = contents s g \<and>
       map_option (\<lambda>m. (pabyData m, nLength m)) (files ?s g) = map_option (\<lambda>m. (pabyData m, nLength m)) (files s g)"
    if "opened s h = Some g" for h g
  proof (cases "g = f")
    case True
    then have "nRefCount m \<noteq> 1" using shared that by blast
    then have "B = bufs s" using B(3) by auto
    then show ?thesis using True m \<open>nRefCount m \<noteq> 1\<close> by (simp add: contents_def dropped_def file_data_def)
  next
    case False
    have "B b = bufs s b" if "files s g = Some n" "pabyData n = Some b" for n b
      using B(3) [THEN spec, of b] data_invD(2) [OF d that(1) m that(2)] False by auto
    then show ?thesis using False by (auto intro!: contents_cong)
  qed
  have freed: "\<exists>f m. files s f = Some m \<and> pabyData m = Some b \<and> files ?s f = None" if "bufs ?s b \<noteq> bufs s b" for b
    using B(3) [THEN spec, of b] that m by (intro exI [of _ f] exI [of _ m]) (auto simp: dropped_def)
  have other: "files ?s g = files s g" if "listed s (NormalizePath p) \<noteq> Some g" for g
    using that Some by auto
  have data: "\<exists>n. files s g = Some n \<and> pabyData n' = pabyData n" if "files ?s g = Some n'" for g n'
    using that m by (auto simp: dropped_def split: if_splits)
  show thesis by (rule that [OF u inv l]) (use other kept freed data in \<open>simp, simp, blast+\<close>)
qed


lemma Normalize_idem [simp]: "NormalizePath (NormalizePath p) = NormalizePath p"
  by (simp add: NormalizePath_def)

lemma errno_inv: "mem_inv s \<Longrightarrow> mem_inv (set_errno e s)"
  by (rule mem_invI [OF same_refs_errors(1)]) (simp_all add: mem_inv_data)

lemma new_file_simps [simp]:
  "nRefCount new_VSIMemFile = 0" "pabyData new_VSIMemFile = None" "nLength new_VSIMemFile = 0" "nAllocLength new_VSIMemFile = 0"
  "bIsDirectory new_VSIMemFile = False" "bOwnData new_VSIMemFile = True"
  by (simp_all add: new_VSIMemFile_def)

lemma Mkdir_ok: "mem_inv s \<Longrightarrow> mem_inv (snd (Mkdir p s))"
  by (auto simp: Mkdir_def Let_def buffer_ok_def intro!: errno_inv add_file_inv)

lemma Open_ok:
  assumes i: "mem_inv s"
  obtains r s' where "Open env p a s = Some (r, s')" "mem_inv s'"
    "\<forall>h. r = Some h \<longrightarrow> (\<exists>x f. handles s' h = Some x \<and> poFile x = Some f \<and> listed s' (NormalizePath p) = Some f)"
proof -
  let ?p = "NormalizePath p" and ?w = "CHR ''w'' \<in> set a"
  let ?x = "\<lambda>f m. \<lparr>poFile = Some f, nOffset = (if CHR ''a'' \<in> set a then nLength m else 0),
                      bUpdate = (?w \<or> CHR ''+'' \<in> set a \<or> CHR ''a'' \<in> set a), bEOF = False\<rparr>"
  show thesis
  proof (cases "\<not> ?w \<and> listed s ?p = None")
    case True
    then have "Open env p a s = Some (None, set_errno ENOENT s)" by (simp add: Open_def Let_def)
    then show thesis using errno_inv [OF i] by (rule that) simp
  next
    case False
    have "\<exists>f m s1. (case listed s ?p of
                None \<Rightarrow> Some (add_file ?p (new_VSIMemFile\<lparr>osFilename := ?p\<rparr>) s)
              | Some f \<Rightarrow> if ?w then do { (ok, s) \<leftarrow> SetLength env f 0 s; Some (f, s) } else Some (f, s)) = Some (f, s1)
            \<and> mem_inv s1 \<and> files s1 f = Some m \<and> listed s1 ?p = Some f"
    proof (cases "listed s ?p")
      case None
      let ?s = "snd (add_file ?p (new_VSIMemFile\<lparr>osFilename := ?p\<rparr>) s)"
      have "mem_inv ?s" by (rule add_file_inv [OF i None]) (simp_all add: buffer_ok_def)
      moreover have "add_file ?p (new_VSIMemFile\<lparr>osFilename := ?p\<rparr>) s = (next_id s, ?s)" by (simp add: add_file_def Let_def)
      moreover have "files ?s (next_id s) \<noteq> None" "listed ?s ?p = Some (next_id s)"
        by (simp_all add: add_file_def Let_def update_conv')
      ultimately show ?thesis using None by (auto simp del: snd_conv)
    next
      case (Some f)
      obtain m where m: "files s f = Some m" by (rule listed_file [OF i Some])
      show ?thesis
      proof (cases ?w)
        case True
        have z: "unat (0 :: vsi_l_offset) < 2 ^ 63" by simp
        from mem_inv_data [OF i] m z show ?thesis
        proof (cases rule: SetLength_ok [where env = env])
          case (set s' m' k)
          then show ?thesis using True Some mem_invI [OF set(3) i set(2)]
            by (intro exI [of _ f] exI [of _ m'] exI [of _ s']) (simp add: same_refs_def)
        qed simp
      qed (use i m Some in simp)
    qed
    then obtain f m s1 where s1: "(case listed s ?p of
                None \<Rightarrow> Some (add_file ?p (new_VSIMemFile\<lparr>osFilename := ?p\<rparr>) s)
              | Some f \<Rightarrow> if ?w then do { (ok, s) \<leftarrow> SetLength env f 0 s; Some (f, s) } else Some (f, s)) = Some (f, s1)"
        "mem_inv s1" "files s1 f = Some m" "listed s1 ?p = Some f" by blast
    have o: "Open env p a s =
        (if bIsDirectory m then Some (None, set_errno EISDIR s1)
         else Some (Some (next_id s1), put_handle (next_id s1) (?x f m)
           ((put_file f (m\<lparr>nRefCount := nRefCount m + 1\<rparr>) s1)\<lparr>next_id := Suc (next_id s1)\<rparr>)))"
      using False by (simp add: Open_def Let_def s1(1,3) del: de_Morgan_conj)
    show thesis
    proof (cases "bIsDirectory m")
      case True
      then show thesis using o errno_inv [OF s1(2)] by (intro that [of None]) simp_all
    next
      case False
      let ?s = "put_handle (next_id s1) (?x f m)
          ((put_file f (m\<lparr>nRefCount := nRefCount m + 1\<rparr>) s1)\<lparr>next_id := Suc (next_id s1)\<rparr>)"
      have inv: "mem_inv ?s" by (rule add_opened [OF s1(2,3)]) simp
      have e: "Open env p a s = Some (Some (next_id s1), ?s)" using False o by simp
      show thesis by (rule that [OF e inv]) (simp add: s1(4) put_file_def)
    qed
  qed
qed

lemma GetBuffer_ok:
  assumes i: "mem_inv s" and a: "vsi_allowed (VGetBuffer p seize) s"
  obtains r s' where "VSIGetMemFileBuffer (Some p) seize s = Some (r, s')" "mem_inv s'"
proof (cases "listed s (NormalizePath p)")
  case None
  then show thesis using i by (intro that) (simp_all add: VSIGetMemFileBuffer_def Let_def)
next
  case (Some f)
  obtain m where m: "files s f = Some m" by (rule listed_file [OF i Some])
  have r: "refs_inv s" and d: "data_inv s" using i by (simp_all add: mem_inv_def)
  show thesis
  proof (cases seize)
    case False
    then show thesis using i Some m by (intro that) (simp_all add: VSIGetMemFileBuffer_def Let_def)
  next
    case True
    let ?s = "s\<lparr>oFileList := AList.delete (NormalizePath p) (oFileList s), files := (files s)(f := None)\<rparr>"
    have one: "nRefCount m = 1" using a True Some m by simp
    have e: "VSIGetMemFileBuffer (Some p) seize s = Some (Some (pabyData m, nLength m), ?s)"
      using True Some m by (simp add: VSIGetMemFileBuffer_def Let_def put_file_def delete_VSIMemFile_def)
    have "refs_inv ?s"
      by (rule drop_listed [OF r Some m]) (simp_all add: distinct_delete refs_distinct [OF r] delete_conv' dropped_def one)
    moreover have "data_inv (s\<lparr>files := (files s)(f := None), bufs := bufs s\<rparr>)"
      using data_invD(3) [OF d] by (intro data_inv_drop [OF d]) auto
    then have "data_inv ?s" by (rule data_inv_cong) simp_all
    ultimately show thesis using e by (intro that) (simp_all add: mem_inv_def)
  qed
qed

lemma malloc_inv:
  assumes "mem_inv s"
  shows "mem_inv (snd (client_malloc d s))"
proof (rule mem_invI [OF _ assms])
  have di: "data_inv s" by (rule mem_inv_data [OF assms])
  show "same_refs s (snd (client_malloc d s))" by (simp add: same_refs_def client_malloc_def)
  show "data_inv (snd (client_malloc d s))" unfolding data_inv_def
  proof (intro conjI allI impI)
    fix f m assume m: "files (snd (client_malloc d s)) f = Some m"
    then show "buffer_ok (bufs (snd (client_malloc d s))) m"
      using data_invD(1,4) [OF di, of f m] by (auto simp: client_malloc_def buffer_ok_def split: option.splits)
  next
    fix f g m n b
    assume "files (snd (client_malloc d s)) f = Some m" "files (snd (client_malloc d s)) g = Some n"
      "pabyData m = Some b" "pabyData n = Some b"
    then show "f = g" using data_invD(2) [OF di, of f m g n b] by (simp add: client_malloc_def)
  next
    fix b assume "bufs (snd (client_malloc d s)) b \<noteq> None"
    then show "b < next_id (snd (client_malloc d s))"
      using data_invD(3) [OF di, of b] by (auto simp: client_malloc_def less_Suc_eq split: if_splits)
  qed
qed

lemma FromBuffer_ok:
  assumes i: "mem_inv s" and a: "fits63 (int (length d))"
  obtains r s' where "VSIFileFromMemBuffer env (Some p) (Some (next_id s)) (of_nat (length d)) own (snd (client_malloc d s)) = Some (r, s')"
    "mem_inv s'"
proof -
  let ?s = "snd (client_malloc d s)" and ?p = "NormalizePath p" and ?b = "next_id s"
  have len: "unat (of_nat (length d) :: vsi_l_offset) = length d"
    using a by (simp add: fits63_int unsigned_of_nat take_bit_nat_eq_self)
  have unused: "pabyData n \<noteq> Some ?b" if "files ?s f = Some n" for f n
    using data_invD(4) [OF mem_inv_data [OF i], of f n ?b] that by (auto simp: client_malloc_def)
  obtain r s1 where u: "Unlink ?p ?s = Some (r, s1)" "mem_inv s1" "listed s1 = (listed ?s)(NormalizePath ?p := None)"
      "\<forall>b. bufs s1 b \<noteq> bufs ?s b \<longrightarrow> (\<exists>f m. files ?s f = Some m \<and> pabyData m = Some b \<and> files s1 f = None)"
      "\<forall>g n'. files s1 g = Some n' \<longrightarrow> (\<exists>n. files ?s g = Some n \<and> pabyData n' = pabyData n)"
    by (rule Unlink_ok [OF malloc_inv [OF i, of d], of ?p])
  let ?m = "new_VSIMemFile\<lparr>osFilename := ?p, bOwnData := own, pabyData := Some ?b, nLength := of_nat (length d),
                                 nAllocLength := of_nat (length d)\<rparr>"
  have "bufs s1 ?b = bufs ?s ?b" using u(4) unused by blast
  then have b: "bufs s1 ?b = Some d" by (simp add: client_malloc_def)
  have inv: "mem_inv (snd (add_file ?p ?m s1))"
  proof (rule add_file_inv [OF u(2)])
    show "listed s1 ?p = None" using u(3) by simp
    show "buffer_ok (bufs s1) ?m" using b len by (simp add: buffer_ok_def)
    show "pabyData n \<noteq> Some b" if "files s1 g = Some n" "pabyData ?m = Some b" for g n b
    proof -
      from u(5) that(1) obtain n' where "files ?s g = Some n'" "pabyData n = pabyData n'" by blast
      then show ?thesis using unused that(2) by auto
    qed
  qed simp_all
  obtain r' s2 where "Open env ?p ''r+'' (snd (add_file ?p ?m s1)) = Some (r', s2)" "mem_inv s2"
    by (rule Open_ok [OF inv])
  then show thesis by (intro that) (simp_all add: VSIFileFromMemBuffer_def Let_def u(1))
qed


lemma move_listed:
  assumes r: "refs_inv s" and f: "listed s p = Some f" "files s f = Some m" and q: "listed s q = None"
    and s': "files s' = (files s)(f \<mapsto> m\<lparr>osFilename := q\<rparr>)" "listed s' = (listed s)(p := None, q \<mapsto> f)"
      "handles s' = handles s" "next_id s' = next_id s" "distinct (map fst (oFileList s'))"
  shows "refs_inv s'"
proof -
  note c = refs_counted [OF r]
  have n: "refs s f = Some (nRefCount m)" using f(2) by (simp add: refs_def)
  have o: "opened s' = opened s" using s'(3) by (simp add: opened_def fun_eq_iff)
  have rf: "refs s' = refs s" using s'(1) f(2) by (auto simp: refs_def)
  let ?R = "(refs s)(f := if nRefCount m = 1 then None else Some (nRefCount m - 1))"
  have "counted ((listed s)(p := None)) (opened s) ?R" by (rule counted_drop [OF c f(1) n])
  moreover have "((listed s)(p := None)) q = None" using q by simp
  ultimately have "counted ((listed s)(p := None, q \<mapsto> f)) (opened s)
      (?R(f \<mapsto> (case ?R f of None \<Rightarrow> 1 | Some n \<Rightarrow> n + 1)))" by (rule counted_add)
  moreover have "?R(f \<mapsto> (case ?R f of None \<Rightarrow> 1 | Some n \<Rightarrow> n + 1)) = refs s" using n by (auto simp: fun_eq_iff)
  ultimately have "counted (listed s') (opened s') (refs s')" by (simp only: s'(2) o rf)
  moreover have "osFilename n = k" if k: "listed s' k = Some g" "files s' g = Some n" for k g n
  proof (cases "g = f")
    case True
    have "k = q"
    proof (rule ccontr)
      assume "k \<noteq> q"
      then have "k \<noteq> p" "listed s k = Some f" using k(1) True unfolding s'(2) by (auto split: if_splits)
      then show False using refs_file [OF r f(2), of k] refs_file [OF r f(2), of p] f(1) by simp
    qed
    then show ?thesis using k(2) True s'(1) by auto
  next
    case False
    then have "listed s k = Some g" using k(1) unfolding s'(2) by (auto split: if_splits)
    then show ?thesis using refs_file [OF r, of g n k] k(2) False s'(1) by simp
  qed
  moreover have "g < next_id s'" if "files s' g = Some n" for g n
    using that refs_file [OF r] f(2) s'(1,4) by (auto split: if_splits)
  ultimately show ?thesis using r s'(3-5) by (simp add: refs_inv_def)
qed

lemma rename_data:
  assumes d: "data_inv s" and m: "files s f = Some m"
  shows "data_inv (put_file f (m\<lparr>osFilename := q\<rparr>) s)"
  using data_invD(1) [OF d m] by (intro data_inv_put [OF d m]) (auto simp: buffer_ok_def)

lemma Rename_ok:
  assumes i: "mem_inv s"
  obtains r s' where "Rename old new s = Some (r, s')" "mem_inv s'"
proof -
  let ?p = "NormalizePath old" and ?q = "NormalizePath new"
  have r: "refs_inv s" and d: "data_inv s" using i by (simp_all add: mem_inv_def)
  consider "?p = ?q" | "?p \<noteq> ?q" "listed s ?p = None" | f where "?p \<noteq> ?q" "listed s ?p = Some f" by blast
  then show thesis
  proof cases
    case 1
    then show thesis using i by (intro that) (simp_all add: Rename_def Let_def)
  next
    case 2
    then show thesis using errno_inv [OF i] by (intro that) (simp_all add: Rename_def Let_def)
  next
    case 3
    obtain m where m: "files s f = Some m" "osFilename m = ?p" by (rule listed_file [OF i 3(2)])
    let ?s = "s\<lparr>oFileList := AList.delete ?p (oFileList s)\<rparr>"
    show thesis
    proof (cases "listed s ?q")
      case None
      have u: "Unlink ?q ?s = Some (-1, set_errno ENOENT ?s)"
        using None by (simp add: Unlink_def Let_def delete_conv')
      let ?t = "put_file f (m\<lparr>osFilename := ?q\<rparr>) ((set_errno ENOENT ?s)\<lparr>oFileList := AList.update ?q f (oFileList ?s)\<rparr>)"
      have e: "Rename old new s = Some (0, ?t)" using 3 u m by (simp add: Rename_def Let_def)
      have "refs_inv ?t"
        by (rule move_listed [OF r 3(2) m(1) None])
          (simp_all add: distinct_update distinct_delete refs_distinct [OF r] put_file_def update_conv' delete_conv')
      moreover have "data_inv ?t"
        by (rule data_inv_cong [OF rename_data [OF d m(1), of ?q]]) (simp_all add: put_file_def)
      ultimately show thesis using e by (intro that) (simp_all add: mem_inv_def)
    next
      case (Some g)
      obtain n where n: "files s g = Some n" "osFilename n = ?q" by (rule listed_file [OF i Some])
      have gf: "g \<noteq> f" using m n 3(1) by auto
      have ds: "data_inv ?s" by (rule data_inv_cong [OF d]) simp_all
      have ns: "files ?s g = Some n" using n by simp
      obtain B where B: "release_file g ?s = Some (?s\<lparr>files := (files ?s)(g := dropped n), bufs := B\<rparr>)"
          "data_inv (?s\<lparr>files := (files ?s)(g := dropped n), bufs := B\<rparr>)"
          "\<forall>b. B b \<noteq> bufs ?s b \<longrightarrow> nRefCount n = 1 \<and> bOwnData n \<and> pabyData n = Some b"
        by (rule release_dropped [OF ds ns])
      let ?L = "AList.delete ?q (AList.delete ?p (oFileList s))"
      let ?s1 = "?s\<lparr>files := (files ?s)(g := dropped n), bufs := B, oFileList := ?L\<rparr>"
      have u: "Unlink ?q ?s = Some (0, ?s1)"
        using Some 3(1) B(1) by (simp add: Unlink_def Let_def delete_conv')
      let ?t = "put_file f (m\<lparr>osFilename := ?q\<rparr>) (?s1\<lparr>oFileList := AList.update ?q f ?L\<rparr>)"
      have e: "Rename old new s = Some (0, ?t)" using 3 u m gf by (simp add: Rename_def Let_def)
      let ?u = "s\<lparr>files := (files s)(g := dropped n), bufs := B, oFileList := AList.delete ?q (oFileList s)\<rparr>"
      have ru: "refs_inv ?u" by (rule drop_listed [OF r Some n(1)]) (simp_all add: distinct_delete refs_distinct [OF r] delete_conv')
      have "refs_inv ?t"
        by (rule move_listed [OF ru, of ?p f m ?q])
          (use 3 m gf in \<open>simp_all add: distinct_update distinct_delete refs_distinct [OF r] put_file_def update_conv' delete_conv' fun_upd_twist\<close>)
      moreover have "data_inv ?t"
        by (rule data_inv_cong [OF rename_data [OF B(2), of f m ?q]]) (use gf m in \<open>simp_all add: put_file_def\<close>)
      ultimately show thesis using e by (intro that) (simp_all add: mem_inv_def)
    qed
  qed
qed

section \<open>Every operation\<close>

lemma vsi_exec_ok:
  assumes i: "mem_inv s" and a: "vsi_allowed op s"
  shows "\<exists>s'. vsi_exec env op s = Some s' \<and> mem_inv s'"
proof (cases op)
  case (VOpen p m)
  obtain r s' where "Open env p m s = Some (r, s')" "mem_inv s'" by (rule Open_ok [OF i])
  with VOpen show ?thesis by simp
next
  case (VClose h)
  then obtain x where "handles s h = Some x" using a by auto
  then obtain s' where "VSIFCloseL h s = Some s'" "mem_inv s'" by (rule Close_ok [OF i])
  with VClose show ?thesis by simp
next
  case (VSeek h off w)
  then obtain x f m where o: "open_file h s = Some (x, f, m)"
      and t: "\<And>t. seek_target x m off w = Some t \<Longrightarrow> unat t < 2 ^ 63"
    using a by (auto split: option.splits simp: fits63_unat)
  obtain r s' where "Seek env h off w s = Some (r, s')" "mem_inv s'" by (rule Seek_ok [OF i o t])
  with VSeek show ?thesis by simp
next
  case (VRead h nSize nCount)
  then obtain x where x: "handles s h = Some x" "fits63 (uint nSize * uint nCount + uint (nOffset x))"
    using a by (auto split: option.splits)
  obtain f m where f: "poFile x = Some f" and o: "open_file h s = Some (x, f, m)" by (rule mem_inv_open [OF i x(1)])
  obtain k d x' where r: "MemRead h nSize nCount s = Some ((k, d), put_handle h x' s)" "poFile x' = Some f"
    by (rule MemRead_ok [OF i o x(2)])
  have "mem_inv (put_handle h x' s)"
    by (rule mem_invI [OF same_refs_put_handle [OF x(1)] i]) (simp_all add: r(2) f mem_inv_data [OF i])
  with VRead r(1) show ?thesis by simp
next
  case (VWrite h d nSize nCount)
  then obtain x where x: "handles s h = Some x" "fits63 (uint nSize * uint nCount + uint (nOffset x))"
      "uint nSize * uint nCount \<le> int (length d)"
    using a by (auto split: option.splits)
  have len: "unat nSize * unat nCount \<le> length d"
    using x(3) by (simp only: uint_nat of_nat_le_iff flip: of_nat_mult)
  obtain f m where o: "open_file h s = Some (x, f, m)" by (rule mem_inv_open [OF i x(1)])
  show ?thesis
    by (rule MemWrite_ok [OF i o x(2) len, where env = env]) (use VWrite in \<open>simp_all only: vsi_exec.simps, auto\<close>)
next
  case (VTruncate h n)
  then obtain x where x: "handles s h = Some x" "unat n < 2 ^ 63" using a by (auto simp: fits63_unat)
  obtain f m where o: "open_file h s = Some (x, f, m)" by (rule mem_inv_open [OF i x(1)])
  obtain r s' where "Truncate env h n s = Some (r, s')" "mem_inv s'" by (rule Truncate_ok [OF i o x(2)])
  with VTruncate show ?thesis by simp
next
  case (VStat p)
  show ?thesis
  proof (cases "listed s (NormalizePath p)")
    case None
    then show ?thesis using VStat i errno_inv [OF i] by (auto simp: Stat_def Let_def)
  next
    case (Some f)
    obtain m where "files s f = Some m" by (rule listed_file [OF i Some])
    then show ?thesis using VStat i Some by (auto simp: Stat_def Let_def)
  qed
next
  case (VUnlink p)
  obtain r s' where "Unlink p s = Some (r, s')" "mem_inv s'" by (rule Unlink_ok [OF i])
  with VUnlink show ?thesis by simp
next
  case (VMkdir p)
  then show ?thesis using Mkdir_ok [OF i] by simp
next
  case (VRmdir p)
  obtain r s' where "Unlink p s = Some (r, s')" "mem_inv s'" by (rule Unlink_ok [OF i])
  with VRmdir show ?thesis by (simp add: Rmdir_def)
next
  case (VRename p q)
  obtain r s' where "Rename p q s = Some (r, s')" "mem_inv s'" by (rule Rename_ok [OF i])
  with VRename show ?thesis by simp
next
  case (VFromBuffer p d own)
  then have "fits63 (int (length d))" using a by simp
  then obtain r s' where "VSIFileFromMemBuffer env (Some p) (Some (next_id s)) (of_nat (length d)) own (snd (client_malloc d s)) = Some (r, s')"
      "mem_inv s'" by (rule FromBuffer_ok [OF i])
  with VFromBuffer show ?thesis by (simp add: client_malloc_def Let_def)
next
  case (VGetBuffer p seize)
  have "vsi_allowed (VGetBuffer p seize) s" using a VGetBuffer by simp
  then obtain r s' where "VSIGetMemFileBuffer (Some p) seize s = Some (r, s')" "mem_inv s'" by (rule GetBuffer_ok [OF i])
  with VGetBuffer show ?thesis by simp
qed

lemma empty_inv: "mem_inv empty_fs"
proof -
  have "opened empty_fs = Map.empty" "refs empty_fs = Map.empty" by (simp_all add: empty_fs_def opened_def refs_def fun_eq_iff)
  then have "refs_inv empty_fs" by (simp add: refs_inv_def counted_empty) (simp add: empty_fs_def counted_empty)
  moreover have "data_inv empty_fs" by (simp add: data_inv_def empty_fs_def)
  ultimately show ?thesis by (simp add: mem_inv_def)
qed

lemma reachable_inv: "vsi_reachable s \<Longrightarrow> mem_inv s"
proof (induction rule: vsi_reachable.induct)
  case (vsi_step s op env s')
  then show ?case using vsi_exec_ok [OF vsi_step.IH vsi_step.hyps(2), of env] by simp
qed (rule empty_inv)

end
