(* ===== verification/Cpl_Vsi_Mem_Props.thy ===== *)
theory Cpl_Vsi_Mem_Props
  imports Cpl_Vsi_Mem_Refs
begin

text \<open>
  What the in-memory files promise: reference counts and memory safety for every client, reading back what was
  written, deleted files staying readable through open handles, directory listings, and the three ways the code breaks
  its promises.
\<close>

section \<open>Every client\<close>

text \<open>C10: In every state a client can reach, an operation that respects \<open>vsi_allowed\<close> accesses nothing outside a buffer
  and nothing freed; a file exists exactly while the file list or a handle refers to it, its count is the number of
  those references, and its length fits63 in its buffer.\<close>

theorem vsimem_reachable_safe:
  assumes "vsi_reachable s"
  shows "(vsi_allowed op s \<longrightarrow> vsi_exec env op s \<noteq> None) \<and>
    (\<forall>f. files s f \<noteq> None \<longleftrightarrow>
      (\<exists>p. map_of (oFileList s) p = Some f) \<or> (\<exists>h x. handles s h = Some x \<and> poFile x = Some f)) \<and>
    (\<forall>f m. files s f = Some m \<longrightarrow>
      nRefCount m = int (card {p. map_of (oFileList s) p = Some f} + card {h. \<exists>x. handles s h = Some x \<and> poFile x = Some f}) \<and>
      nLength m \<le> nAllocLength m \<and>
      (\<forall>b. pabyData m = Some b \<longrightarrow> (\<exists>d. bufs s b = Some d \<and> length d = unat (nAllocLength m))))"
proof -
  have i: "mem_inv s" by (rule reachable_inv [OF assms])
  then have r: "refs_inv s" and d: "data_inv s" by (simp_all add: mem_inv_def)
  note c = refs_counted [OF r]
  have o: "opened s h = Some f \<longleftrightarrow> (\<exists>x. handles s h = Some x \<and> poFile x = Some f)" for h f
    by (auto simp: opened_def split: option.splits)
  have count: "refs s f = (if holders (listed s) f + holders (opened s) f = 0 then None
      else Some (int (holders (listed s) f + holders (opened s) f)))" for f
    using c by (simp add: counted_def)
  have fin: "finite {p. listed s p = Some f}" "finite {h. opened s h = Some f}" for f
    using c by (auto simp: counted_def intro: holders_finite)
  show ?thesis
  proof (intro conjI allI impI)
    show "vsi_exec env op s \<noteq> None" if "vsi_allowed op s" using vsi_exec_ok [OF i that, of env] by auto
  next
    fix f
    have "files s f \<noteq> None \<longleftrightarrow> refs s f \<noteq> None" by (simp add: refs_def)
    also have "\<dots> \<longleftrightarrow> (\<exists>p. listed s p = Some f) \<or> (\<exists>h. opened s h = Some f)"
      using fin [of f] by (simp add: count holders_def)
    finally show "files s f \<noteq> None \<longleftrightarrow>
        (\<exists>p. map_of (oFileList s) p = Some f) \<or> (\<exists>h x. handles s h = Some x \<and> poFile x = Some f)" by (simp add: o)
  next
    fix f m assume m: "files s f = Some m"
    then have "refs s f = Some (nRefCount m)" by (simp add: refs_def)
    then show "nRefCount m = int (card {p. map_of (oFileList s) p = Some f} + card {h. \<exists>x. handles s h = Some x \<and> poFile x = Some f})"
      using count [of f] by (simp add: holders_def o split: if_splits)
    show "nLength m \<le> nAllocLength m" using data_invD(1) [OF d m] by (simp add: buffer_ok_def)
    show "\<exists>d. bufs s b = Some d \<and> length d = unat (nAllocLength m)" if "pabyData m = Some b" for b
      using data_invD(1) [OF d m] that by (simp add: buffer_ok_def)
  qed
qed

section \<open>Reading and writing\<close>

lemma opened_inv:
  assumes "mem_inv s" "handles s h = Some x" "poFile x = Some f"
  obtains m where "files s f = Some m" "open_file h s = Some (x, f, m)"
  using mem_inv_open [OF assms(1,2)] assms(3) by (metis option.inject)

text \<open>A handle reads back what lies at a position inside the file.\<close>

lemma seek_read:
  assumes i: "mem_inv s" and h: "handles s h = Some x" "poFile x = Some f"
    and fit: "fits63 (uint nSize * uint nCount + uint off)"
    and room: "unat off + unat nSize * unat nCount \<le> length (contents s f)"
  shows "\<exists>s' s''. Seek env h off SEEK_SET s = Some (0, s') \<and>
    MemRead h nSize nCount s' = Some ((nCount, take (unat nSize * unat nCount) (drop (unat off) (contents s f))), s'')"
proof -
  obtain m where m: "files s f = Some m" and o: "open_file h s = Some (x, f, m)" by (rule opened_inv [OF i h])
  note c = contents_length [OF mem_inv_data [OF i] m]
  let ?x = "x\<lparr>nOffset := off, bEOF := False\<rparr>" let ?s = "put_handle h ?x s"
  have le: "off \<le> nLength m" using room c by (simp add: word_le_nat_alt)
  have seek: "Seek env h off SEEK_SET s = Some (0, ?s)"
    using le by (simp add: Seek_def o seek_target_def Let_def not_less [symmetric])
  have inv: "mem_inv ?s"
    by (rule mem_invI [OF same_refs_put_handle [OF h(1)] i]) (simp_all add: mem_inv_data [OF i])
  have o': "open_file h ?s = Some (?x, f, m)" using m h by (simp add: open_file_def)
  have fit': "fits63 (uint nSize * uint nCount + uint (nOffset ?x))" using fit by simp
  obtain k d x' where r: "MemRead h nSize nCount ?s = Some ((k, d), put_handle h x' ?s)"
      "d = take (unat nSize * unat nCount) (drop (unat (nOffset ?x)) (contents ?s f))"
      "unat nSize * unat nCount + unat (nOffset ?x) \<le> unat (nLength m) \<longrightarrow> k = nCount"
    by (rule MemRead_ok [OF inv o' fit']) blast
  have "k = nCount" using r(3) room c by simp
  with r(1,2) seek show ?thesis by simp
qed

text \<open>C11: A write that starts inside or at the end of a file (and stops below 2 to the 63) succeeds exactly when its handle is open
  for update and the file has the room or may grow, its buffer being its own and the allocation granted. It then stores all
  bytes, every handle on the file reads them back at that position, and the bytes around them and all other files are as
  before. Otherwise it returns 0 and every file is as before.\<close>

theorem vsimem_write_read_roundtrip:
  assumes r: "vsi_reachable s" and h: "handles s h = Some x" "poFile x = Some f" "files s f = Some m"
    and at_end: "nOffset x \<le> nLength m" and fit: "fits63 (uint nSize * uint nCount + uint (nOffset x))"
    and d: "length d = unat nSize * unat nCount"
  shows "if bUpdate x \<and> can_grow env m (nSize * nCount + nOffset x) then
      \<exists>s'. MemWrite env h d nSize nCount s = Some (nCount, s') \<and>
       contents s' f = take (unat (nOffset x)) (contents s f) @ d @ drop (unat (nOffset x) + length d) (contents s f) \<and>
       (\<forall>g. g \<noteq> f \<longrightarrow> contents s' g = contents s g) \<and>
       (\<forall>h' x'. handles s' h' = Some x' \<longrightarrow> poFile x' = Some f \<longrightarrow>
         (\<exists>t t'. Seek env h' (nOffset x) SEEK_SET s' = Some (0, t) \<and> MemRead h' nSize nCount t = Some ((nCount, d), t')))
    else \<exists>s'. MemWrite env h d nSize nCount s = Some (0, s') \<and> (\<forall>g. contents s' g = contents s g)"
proof -
  have i: "mem_inv s" by (rule reachable_inv [OF r])
  have o: "open_file h s = Some (x, f, m)" using h by (simp add: open_file_def)
  have src: "unat nSize * unat nCount \<le> length d" using d by simp
  have all: "take (unat nSize * unat nCount) d = d" using d by simp
  show ?thesis
  proof (rule MemWrite_ok [OF i o fit src, where env = env, unfolded all])
    fix s'
    assume w: "MemWrite env h d nSize nCount s = Some (nCount, s')" "mem_inv s'" "others_kept f s s'"
      and c: "nOffset x \<le> nLength m \<Longrightarrow>
        contents s' f = take (unat (nOffset x)) (contents s f) @ d @ drop (unat (nOffset x) + length d) (contents s f)"
      and l: "unat (nOffset x) + length d \<le> length (contents s' f)"
      and g: "bUpdate x" "can_grow env m (nSize * nCount + nOffset x)"
    have len: "length (take (unat (nOffset x)) (contents s f)) = unat (nOffset x)"
      using at_end contents_length(1) [OF mem_inv_data [OF i] h(3)] by (simp add: word_le_nat_alt)
    have "take (length d) (drop (unat (nOffset x)) (contents s' f)) = d"
      unfolding c [OF at_end] using len by simp
    then have "\<exists>t t'. Seek env h' (nOffset x) SEEK_SET s' = Some (0, t) \<and> MemRead h' nSize nCount t = Some ((nCount, d), t')"
      if "handles s' h' = Some x'" "poFile x' = Some f" for h' x'
      using seek_read [OF w(2) that fit, of env] l d by simp
    then show ?thesis using g w c [OF at_end] by (auto simp: others_kept_def)
  next
    fix s' assume w0: "MemWrite env h d nSize nCount s = Some (0, s')" and "files s' = files s" "bufs s' = bufs s"
      and n: "\<not> (bUpdate x \<and> can_grow env m (nSize * nCount + nOffset x))"
    then have "contents s' g = contents s g" for g by (intro contents_cong) simp_all
    with w0 n show ?thesis by auto
  qed
qed

section \<open>Deleting an open file\<close>

lemma MemRead_cong:
  assumes "open_file h s = Some (x, f, m)" "open_file h s' = Some (x, f, m')"
    and "pabyData m' = pabyData m" "nLength m' = nLength m" "\<And>b. pabyData m = Some b \<Longrightarrow> bufs s' b = bufs s b"
  shows "map_option fst (MemRead h nSize nCount s') = map_option fst (MemRead h nSize nCount s)"
proof -
  have peek: "peek_bytes (pabyData m) off n s' = peek_bytes (pabyData m) off n s" for off n
    using assms(5) by (cases "pabyData m") (simp_all add: peek_bytes_def)
  show ?thesis
    by (simp add: MemRead_def assms(1-4) Let_def peek map_option_bind comp_def)
qed

text \<open>C12: Deleting a path takes it out of the file list and leaves a file that is still open readable through its handles as
  before; closing the last handle of such a file frees it.\<close>

theorem vsimem_unlink_keeps_open:
  assumes r: "vsi_reachable s" and h: "handles s h = Some x" "poFile x = Some f"
  shows "\<exists>r s'. Unlink p s = Some (r, s') \<and> map_of (oFileList s') (NormalizePath p) = None \<and>
    map_option fst (MemRead h nSize nCount s') = map_option fst (MemRead h nSize nCount s) \<and>
    contents s' f = contents s f \<and>
    ((\<forall>q. map_of (oFileList s') q \<noteq> Some f) \<and> (\<forall>h' x'. handles s h' = Some x' \<longrightarrow> poFile x' = Some f \<longrightarrow> h' = h) \<longrightarrow>
      (\<exists>s''. VSIFCloseL h s' = Some s'' \<and> files s'' f = None))"
proof -
  have i: "mem_inv s" by (rule reachable_inv [OF r])
  obtain m where m: "files s f = Some m" and o: "open_file h s = Some (x, f, m)" by (rule opened_inv [OF i h])
  have op: "opened s h = Some f" using h by (simp add: opened_def)
  obtain k s' where u: "Unlink p s = Some (k, s')" "mem_inv s'" "listed s' = (listed s)(NormalizePath p := None)"
      "handles s' = handles s"
      "\<forall>h f. opened s h = Some f \<longrightarrow> contents s' f = contents s f \<and>
        map_option (\<lambda>m. (pabyData m, nLength m)) (files s' f) = map_option (\<lambda>m. (pabyData m, nLength m)) (files s f)"
      "\<forall>b. bufs s' b \<noteq> bufs s b \<longrightarrow> (\<exists>f m. files s f = Some m \<and> pabyData m = Some b \<and> files s' f = None)"
    by (rule Unlink_ok [OF i])
  from u(5) op m obtain m' where m': "files s' f = Some m'" "pabyData m' = pabyData m" "nLength m' = nLength m" by force
  have o': "open_file h s' = Some (x, f, m')" using h m' by (simp add: open_file_def u(4))
  have same: "bufs s' b = bufs s b" if "pabyData m = Some b" for b
    using u(6) data_invD(2) [OF mem_inv_data [OF i] m _ that] m'(1) by force
  have "\<exists>s''. VSIFCloseL h s' = Some s'' \<and> files s'' f = None"
    if l: "\<forall>q. map_of (oFileList s') q \<noteq> Some f" and only: "\<forall>h' x'. handles s h' = Some x' \<longrightarrow> poFile x' = Some f \<longrightarrow> h' = h"
  proof -
    have h': "handles s' h = Some x" using h u(4) by simp
    obtain s'' where c: "VSIFCloseL h s' = Some s''" "mem_inv s''" "oFileList s'' = oFileList s'"
        "handles s'' = (handles s')(h := None)" by (rule Close_ok [OF u(2) h'])
    have "holders (listed s'') f = 0" using l c(3) by (simp add: holders_def)
    moreover have "opened s'' k \<noteq> Some f" for k
      using only by (auto simp: opened_def c(4) u(4) split: option.splits if_splits)
    then have "holders (opened s'') f = 0" by (simp add: holders_def)
    ultimately have "refs s'' f = None" using c(2) by (simp add: mem_inv_def refs_inv_def counted_def)
    then show ?thesis using c(1) by (auto simp: refs_def)
  qed
  moreover have "map_of (oFileList s') (NormalizePath p) = None" using u(3) by simp
  moreover have "contents s' f = contents s f" using u(5) op by blast
  ultimately show ?thesis using u(1) MemRead_cong [OF o o' m'(2,3) same] by (intro exI conjI) blast+
qed

section \<open>Broken promises\<close>

text \<open>C19: A file that is truncated to nothing and then extended by a seek holds its old bytes again, where the code
  says that it is extended by zeros.\<close>

theorem vsimem_seek_revives_bytes:
  assumes r: "vsi_reachable s" and h: "handles s h = Some x" "poFile x = Some f" "files s f = Some m" and u: "bUpdate x"
    and k: "k \<le> nLength m"
  shows "\<exists>s1 s2. Truncate env h 0 s = Some (0, s1) \<and> contents s1 f = [] \<and>
    Seek env h k SEEK_SET s1 = Some (0, s2) \<and> contents s2 f = take (unat k) (contents s f)"
proof -
  have d: "data_inv s" by (rule mem_inv_data [OF reachable_inv [OF r]])
  have le: "nLength m \<le> nAllocLength m" using data_invD(1) [OF d h(3)] by (simp add: buffer_ok_def)
  let ?m1 = "m\<lparr>nLength := 0\<rparr>"
  define s1 where "s1 = put_file f ?m1 s"
  have f1: "files s1 f = Some ?m1" "handles s1 = handles s" "bufs s1 = bufs s" by (simp_all add: s1_def put_file_def)
  have o: "open_file h s = Some (x, f, m)" and o1: "open_file h s1 = Some (x, f, ?m1)"
    using h f1 by (simp_all add: open_file_def)
  have t: "Truncate env h 0 s = Some (0, s1)"
    using u h(3) by (simp add: Truncate_def o SetLength_def not_less [symmetric] s1_def)
  have c1: "contents s1 f = []" by (simp add: contents_def f1)
  let ?x = "x\<lparr>nOffset := k, bEOF := False\<rparr>"
  let ?s2 = "if 0 < k then put_file f (?m1\<lparr>nLength := k\<rparr>) (put_handle h ?x s1) else put_handle h ?x s1"
  have fits63: "\<not> nAllocLength m < k" using k le by simp
  have seek: "Seek env h k SEEK_SET s1 = Some (0, ?s2)"
    using u fits63 by (simp add: Seek_def o1 seek_target_def Let_def SetLength_def f1)
  have "unat k \<le> unat (nLength m)" using k by (simp add: word_le_nat_alt)
  then have "take (unat k) (contents s f) = take (unat k) (file_data (bufs s) m)"
    by (simp add: contents_def h(3) min_def)
  moreover have "contents ?s2 f = take (unat k) (file_data (bufs s) m)"
    by (auto simp: contents_def put_file_def f1 word_less_nat_alt)
  ultimately show ?thesis using t c1 seek by (intro exI [of _ s1] exI [of _ ?s2]) simp
qed

text \<open>C18: Seizing the buffer of a file that is still open deletes the file under its handles: reading, writing and
  closing them afterwards use freed memory.\<close>

theorem vsimem_seize_open_dangles:
  assumes r: "vsi_reachable s" and h: "handles s h = Some x" "poFile x = Some f" "map_of (oFileList s) (NormalizePath p) = Some f"
  shows "\<exists>d s'. VSIGetMemFileBuffer (Some p) True s = Some (Some d, s') \<and> MemRead h nSize nCount s' = None \<and>
    MemWrite env h src nSize nCount s' = None \<and> VSIFCloseL h s' = None"
proof -
  obtain m where m: "files s f = Some m" by (rule opened_inv [OF reachable_inv [OF r] h(1,2)])
  let ?s = "s\<lparr>oFileList := AList.delete (NormalizePath p) (oFileList s), files := (files s)(f := None)\<rparr>"
  have "VSIGetMemFileBuffer (Some p) True s = Some (Some (pabyData m, nLength m), ?s)"
    using h(3) m by (simp add: VSIGetMemFileBuffer_def Let_def put_file_def delete_VSIMemFile_def)
  moreover have o: "open_file h ?s = None" using h by (simp add: open_file_def)
  ultimately show ?thesis
    by (intro exI conjI) (assumption, simp_all add: MemRead_def MemWrite_def VSIFCloseL_def Close_def)
qed


lemma wrapped_size:
  assumes "2 ^ 64 \<le> unat n + unat n div 10 + 5000"
  shows "grow_size n < n"
proof -
  have n: "unat n < 2 ^ 64" using unsigned_less [of n] by simp
  have "unat n div 10 mod 2 ^ 64 = unat n div 10" using n by (intro mod_less) linarith
  then have "unat (grow_size n) = (unat n + unat n div 10 + 5000) mod 2 ^ 64"
    by (simp add: grow_size_def unat_word_ariths unat_div mod_add_left_eq)
  also have "\<dots> = unat n + unat n div 10 + 5000 - 2 ^ 64"
    using assms n by (simp add: le_mod_geq)
  also have "unat n div 10 \<le> 2 ^ 64 div 10" using n by (intro div_le_mono) simp
  then have "unat n div 10 + 5000 < 2 ^ 64" by simp
  then have "unat n + unat n div 10 + 5000 - 2 ^ 64 < unat n" using assms by simp
  finally show ?thesis by (simp add: word_less_nat_alt)
qed

text \<open>C17: When the length with the ten percent and 5000 bytes the code adds to it passes 2 to the 64, the size of the
  allocation wraps: extending the file succeeds with a buffer shorter than the file, and reading or writing at the end of
  the buffer, inside the file, accesses memory outside of it.\<close>

theorem vsimem_length_wraps:
  assumes r: "vsi_reachable s" and h: "handles s h = Some x" "poFile x = Some f" "files s f = Some m"
    and u: "bUpdate x" "bOwnData m" and big: "2 ^ 64 \<le> unat n + unat n div 10 + 5000"
    and g: "grants env (n + n div 10 + 5000)" and room: "nAllocLength m \<le> n + n div 10 + 5000"
  shows "\<exists>s' m' s''. Truncate env h n s = Some (0, s') \<and> files s' f = Some m' \<and> nLength m' = n \<and> nAllocLength m' < n \<and>
    Seek env h (nAllocLength m') SEEK_SET s' = Some (0, s'') \<and>
    MemRead h 1 1 s'' = None \<and> MemWrite env h [b] 1 1 s'' = None"
proof -
  have d: "data_inv s" by (rule mem_inv_data [OF reachable_inv [OF r]])
  note fold = grow_size_def [symmetric]
  have a: "grow_size n < n" by (rule wrapped_size [OF big])
  have le: "nAllocLength m \<le> grow_size n" using room by (simp add: fold)
  have set: "SetLength env f n s = Some (True, grown f m n s)"
    using a le u g by (intro SetLength_grow [OF d h(3)]) (simp_all add: fold)
  have o: "open_file h s = Some (x, f, m)" using h by (simp add: open_file_def)
  have t: "Truncate env h n s = Some (0, grown f m n s)" using u by (simp add: Truncate_def o set)
  let ?m = "m\<lparr>pabyData := Some (next_id s), nAllocLength := grow_size n, nLength := n\<rparr>" and ?x = "x\<lparr>nOffset := grow_size n, bEOF := False\<rparr>"
  define s1 where "s1 = grown f m n s"
  have f1: "files s1 f = Some ?m" "handles s1 = handles s" by (simp_all add: s1_def grown_def)
  have len: "length (file_data (bufs s) m) = unat (nAllocLength m)"
    using contents_length(2) [OF d h(3)] .
  obtain D where D: "bufs s1 (next_id s) = Some D" "length D = unat (grow_size n)"
    using le len by (simp add: s1_def grown_def word_le_nat_alt)
  have o1: "open_file h s1 = Some (x, f, ?m)" using h f1 by (simp add: open_file_def)
  have seek: "Seek env h (grow_size n) SEEK_SET s1 = Some (0, put_handle h ?x s1)"
    using less_not_sym [OF a] by (simp add: Seek_def o1 seek_target_def Let_def)
  have o2: "open_file h (put_handle h ?x s1) = Some (?x, f, ?m)" using h f1 by (simp add: open_file_def)
  have in_file: "\<not> n < 1 + grow_size n"
    using a by (metis add.commute inc_le not_less)
  have "MemRead h 1 1 (put_handle h ?x s1) = None"
    using in_file D by (simp add: MemRead_def o2 Let_def peek_bytes_def)
  moreover have "MemWrite env h [b] 1 1 (put_handle h ?x s1) = None"
    using in_file D u by (simp add: MemWrite_def o2 Let_def poke_bytes_def f1)
  ultimately show ?thesis using t seek f1 a unfolding s1_def [symmetric]
    by (intro exI [of _ s1] exI [of _ ?m] exI [of _ "put_handle h ?x s1"]) simp
qed

section \<open>Listing a directory\<close>

lemma read_dir_loop_eq:
  assumes "\<forall>f \<in> set fs. files s f \<noteq> None"
  shows "\<exists>names. read_dir_loop d n fs s = Some names \<and>
    set names = {drop (n + 1) (osFilename m) |m. \<exists>f \<in> set fs. files s f = Some m \<and> EQUALN d (osFilename m) n \<and>
      char_at (osFilename m) n = CHR ''/'' \<and> CHR ''/'' \<notin> set (drop (n + 1) (osFilename m))}"
  using assms
proof (induction fs)
  case (Cons f fs)
  then obtain names m where *: "read_dir_loop d n fs s = Some names" "files s f = Some m"
    "set names = {drop (n + 1) (osFilename m) |m. \<exists>f \<in> set fs. files s f = Some m \<and> EQUALN d (osFilename m) n \<and>
      char_at (osFilename m) n = CHR ''/'' \<and> CHR ''/'' \<notin> set (drop (n + 1) (osFilename m))}" by auto
  show ?case
    by (rule exI [of _ "the (read_dir_loop d n (f # fs) s)"]) (use * in \<open>auto simp: Let_def\<close>)
qed simp

lemma child_path:
  assumes "cstr d" "cstr q"
  shows "EQUALN d q (length d) \<and> char_at q (length d) = CHR ''/'' \<longleftrightarrow>
    (\<exists>d'. q = d' @ CHR ''/'' # drop (length d + 1) q \<and> EQUAL d d')"
proof
  assume l: "EQUALN d q (length d) \<and> char_at q (length d) = CHR ''/''"
  then have lt: "length d < length q" by (auto simp: char_at_def split: if_splits)
  then have "q = take (length d) q @ CHR ''/'' # drop (length d + 1) q"
    using l id_take_nth_drop [OF lt] by simp
  moreover have "EQUAL d (take (length d) q)" using l assms by (simp add: cstr_simps cstr_take)
  ultimately show "\<exists>d'. q = d' @ CHR ''/'' # drop (length d + 1) q \<and> EQUAL d d'" by blast
next
  assume "\<exists>d'. q = d' @ CHR ''/'' # drop (length d + 1) q \<and> EQUAL d d'"
  then obtain d' where q: "q = d' @ CHR ''/'' # drop (length d + 1) q" and e: "EQUAL d d'" by blast
  have d': "cstr d'" using assms(2) by (subst (asm) q) simp
  then have m: "map c_tolower d = map c_tolower d'" using e assms(1) by (simp add: cstr_simps)
  then have len: "length d' = length d" by (metis length_map)
  have "take (length d) q = d'" "char_at q (length d) = CHR ''/''"
    by (subst q, simp add: len [symmetric])+
  then show "EQUALN d q (length d) \<and> char_at q (length d) = CHR ''/''" using m assms by (simp add: cstr_simps)
qed


text \<open>The directory that a path names: the path without one trailing slash.\<close>

definition dir_name :: "string \<Rightarrow> string" where
  "dir_name p = (if last p = CHR ''/'' then butlast p else p)"

lemma dir_name_facts:
  assumes "q \<noteq> []" "cstr q"
  shows "cstr (dir_name q)"
    "(if q ! (length q - 1) = CHR ''/'' then length q - 1 else length q) = length (dir_name q)"
    "cstr k \<Longrightarrow> EQUALN q k (length (dir_name q)) \<and> char_at k (length (dir_name q)) = CHR ''/'' \<longleftrightarrow>
      (\<exists>d'. k = d' @ CHR ''/'' # drop (length (dir_name q) + 1) k \<and> EQUAL (dir_name q) d')"
proof -
  show c: "cstr (dir_name q)" using assms cstr_take [of q "length q - 1"] by (simp add: dir_name_def butlast_conv_take)
  show "(if q ! (length q - 1) = CHR ''/'' then length q - 1 else length q) = length (dir_name q)"
    using assms(1) by (simp add: dir_name_def last_conv_nth)
  assume k: "cstr k"
  have "EQUALN q k (length (dir_name q)) \<longleftrightarrow> EQUALN (dir_name q) k (length (dir_name q))"
    using k assms c by (simp add: cstr_simps dir_name_def butlast_conv_take)
  then show "EQUALN q k (length (dir_name q)) \<and> char_at k (length (dir_name q)) = CHR ''/'' \<longleftrightarrow>
      (\<exists>d'. k = d' @ CHR ''/'' # drop (length (dir_name q) + 1) k \<and> EQUAL (dir_name q) d')"
    using child_path [OF c k] by simp
qed

lemma walked_files:
  assumes "mem_inv s"
  shows "f \<in> set (map snd (sort_key fst (oFileList s))) \<longleftrightarrow> (\<exists>p. map_of (oFileList s) p = Some f)"
    "\<forall>f \<in> set (map snd (sort_key fst (oFileList s))). files s f \<noteq> None"
proof -
  have "refs_inv s" using assms by (simp add: mem_inv_def)
  then show mem: "f \<in> set (map snd (sort_key fst (oFileList s))) \<longleftrightarrow> (\<exists>p. map_of (oFileList s) p = Some f)" for f
    using refs_distinct by (force simp: map_of_eq_Some_iff)
  show "\<forall>f \<in> set (map snd (sort_key fst (oFileList s))). files s f \<noteq> None"
  proof
    fix f assume "f \<in> set (map snd (sort_key fst (oFileList s)))"
    then obtain k where "map_of (oFileList s) k = Some f" unfolding mem by blast
    from listed_file [OF assms this] show "files s f \<noteq> None" by auto
  qed
qed

text \<open>C20: \<open>ReadDir\<close> gives the names of the files directly below the directory. The directory is compared without regard to
  case, while files are opened under their exact paths: a listing also holds the files of directories that differ in case.\<close>

theorem vsimem_readdir_lists:
  assumes r: "vsi_reachable s" and p: "p \<noteq> []" "cstr p"
    and names: "\<forall>q f. map_of (oFileList s) q = Some f \<longrightarrow> cstr q"
  shows "\<exists>names. ReadDir p s = Some names \<and>
    set names = {n. CHR ''/'' \<notin> set n \<and>
      (\<exists>d f. map_of (oFileList s) (d @ CHR ''/'' # n) = Some f \<and> EQUAL (dir_name (NormalizePath p)) d)}"
proof -
  have i: "mem_inv s" by (rule reachable_inv [OF r])
  let ?q = "NormalizePath p" and ?fs = "map snd (sort_key fst (oFileList s))"
  let ?d = "dir_name ?q" and ?n = "length (dir_name ?q)"
  have q: "?q \<noteq> []" "cstr ?q" using p by (auto simp: NormalizePath_def cstr_def)
  note dir = dir_name_facts [OF q] and walk = walked_files [OF i]
  have fl: "\<exists>m. files s f = Some m \<and> osFilename m = k" if "map_of (oFileList s) k = Some f" for k f
    by (rule listed_file [OF i that]) blast
  from read_dir_loop_eq [OF walk(2), of ?q ?n] obtain names where n: "read_dir_loop ?q ?n ?fs s = Some names"
    "set names = {drop (?n + 1) (osFilename m) |m. \<exists>f \<in> set ?fs. files s f = Some m \<and> EQUALN ?q (osFilename m) ?n \<and>
      char_at (osFilename m) ?n = CHR ''/'' \<and> CHR ''/'' \<notin> set (drop (?n + 1) (osFilename m))}" by blast
  have "x \<in> set names \<longleftrightarrow> CHR ''/'' \<notin> set x \<and>
      (\<exists>d f. map_of (oFileList s) (d @ CHR ''/'' # x) = Some f \<and> EQUAL ?d d)" for x
  proof
    assume "x \<in> set names"
    then obtain m f where m: "x = drop (?n + 1) (osFilename m)" "f \<in> set ?fs" "files s f = Some m"
        "EQUALN ?q (osFilename m) ?n" "char_at (osFilename m) ?n = CHR ''/''" "CHR ''/'' \<notin> set x"
      unfolding n(2) by auto
    from m(2) obtain k where k: "map_of (oFileList s) k = Some f" unfolding walk(1) by blast
    with fl [OF k] m(3) have os: "osFilename m = k" by simp
    have "cstr k" using names k by blast
    from dir(3) [OF this] m(4,5) obtain d' where "k = d' @ CHR ''/'' # drop (?n + 1) k" "EQUAL ?d d'" unfolding os by blast
    with k m(1,6) show "CHR ''/'' \<notin> set x \<and> (\<exists>d f. map_of (oFileList s) (d @ CHR ''/'' # x) = Some f \<and> EQUAL ?d d)"
      unfolding os by metis
  next
    assume "CHR ''/'' \<notin> set x \<and> (\<exists>d f. map_of (oFileList s) (d @ CHR ''/'' # x) = Some f \<and> EQUAL ?d d)"
    then obtain d' f where x: "CHR ''/'' \<notin> set x" and k: "map_of (oFileList s) (d' @ CHR ''/'' # x) = Some f" and e: "EQUAL ?d d'"
      by blast
    let ?k = "d' @ CHR ''/'' # x"
    obtain m where m: "files s f = Some m" "osFilename m = ?k" using fl [OF k] by blast
    have ck: "cstr ?k" using names k by blast
    have "map c_tolower ?d = map c_tolower d'" using e dir(1) ck by (simp add: cstr_simps)
    then have "length d' = ?n" by (metis length_map)
    then have dr: "drop (?n + 1) ?k = x" by simp
    then have "EQUALN ?q ?k ?n \<and> char_at ?k ?n = CHR ''/''" using dir(3) [OF ck] e by metis
    moreover have "f \<in> set ?fs" unfolding walk(1) using k by blast
    ultimately show "x \<in> set names" unfolding n(2) using m dr x by (auto intro!: exI [of _ m])
  qed
  moreover have "ReadDir p s = Some names" using n(1) q(1) by (simp only: ReadDir_def Let_def dir(2) if_False)
  ultimately show ?thesis by (intro exI [of _ names]) auto
qed

section \<open>Concrete states\<close>

text \<open>One file of three bytes, made from a buffer, and the handle that came with it.\<close>

definition heap_all :: heap_env where
  "heap_all = \<lparr>grants = (\<lambda>_. True), junk = (\<lambda>_. 0)\<rparr>"

definition small_fs :: mem_fs where
  "small_fs = \<lparr>oFileList = [(''/v/a'', 1)],
     files = [1 \<mapsto> \<lparr>osFilename = ''/v/a'', nRefCount = 2, bIsDirectory = False, bOwnData = True, pabyData = Some 0,
       nLength = 3, nAllocLength = 3, file_bEOF = False\<rparr>],
     bufs = [0 \<mapsto> [1, 2, 3]], handles = [2 \<mapsto> \<lparr>poFile = Some 1, nOffset = 0, bUpdate = True, bEOF = False\<rparr>],
     next_id = 3, errno = Some ENOENT, cpl_errors = []\<rparr>"

lemma small_fs_reachable: "vsi_reachable small_fs"
proof (rule vsi_step [OF vsi_start, of "VFromBuffer ''/v/a'' [1, 2, 3] True"])
  show "vsi_allowed (VFromBuffer ''/v/a'' [1, 2, 3] True) empty_fs" by (simp add: fits63_def)
  show "vsi_exec heap_all (VFromBuffer ''/v/a'' [1, 2, 3] True) empty_fs = Some small_fs"
    by (simp add: client_malloc_def VSIFileFromMemBuffer_def Let_def NormalizePath_def Unlink_def empty_fs_def set_errno_def
        add_file_def Open_def put_file_def put_handle_def new_VSIMemFile_def small_fs_def fun_upd_def fun_eq_iff)
qed

lemma small_fs_handle:
  "handles small_fs 2 = Some \<lparr>poFile = Some 1, nOffset = 0, bUpdate = True, bEOF = False\<rparr>"
  "files small_fs 1 = Some \<lparr>osFilename = ''/v/a'', nRefCount = 2, bIsDirectory = False, bOwnData = True, pabyData = Some 0,
     nLength = 3, nAllocLength = 3, file_bEOF = False\<rparr>"
  "oFileList small_fs = [(''/v/a'', 1)]" "contents small_fs 1 = [1, 2, 3]"
  by (simp_all add: small_fs_def contents_def file_data_def)

theorem vsimem_reachable_safe_witness: "vsi_exec heap_all (VWrite 2 [7] 1 1) small_fs \<noteq> None"
  using vsimem_reachable_safe [OF small_fs_reachable, of "VWrite 2 [7] 1 1" heap_all] by (simp add: small_fs_handle fits63_def)

theorem vsimem_write_read_roundtrip_witness:
  "\<exists>s' t t'. MemWrite heap_all 2 [9, 9] 1 2 small_fs = Some (2, s') \<and> contents s' 1 = [9, 9, 3] \<and>
    Seek heap_all 2 0 SEEK_SET s' = Some (0, t) \<and> MemRead 2 1 2 t = Some ((2, [9, 9]), t')"
proof -
  let ?x = "\<lparr>poFile = Some 1, nOffset = 0, bUpdate = True, bEOF = False\<rparr>"
  let ?m = "\<lparr>osFilename = ''/v/a'', nRefCount = 2, bIsDirectory = False, bOwnData = True, pabyData = Some 0,
     nLength = 3, nAllocLength = 3, file_bEOF = False\<rparr>"
  have g: "bUpdate ?x \<and> can_grow heap_all ?m (1 * 2 + nOffset ?x)" by (simp add: can_grow_def)
  have "poFile ?x = Some 1" by simp
  note w = vsimem_write_read_roundtrip [OF small_fs_reachable small_fs_handle(1) this small_fs_handle(2), of 1 2 "[9, 9]" heap_all]
  from w obtain s' where s': "MemWrite heap_all 2 [9, 9] 1 2 small_fs = Some (2, s')" "contents s' 1 = [9, 9, 3]"
      "\<forall>h' x'. handles s' h' = Some x' \<longrightarrow> poFile x' = Some 1 \<longrightarrow>
         (\<exists>t t'. Seek heap_all h' 0 SEEK_SET s' = Some (0, t) \<and> MemRead h' 1 2 t = Some ((2, [9, 9]), t'))"
    using g by (auto simp: fits63_def small_fs_handle(4) [simplified])
  have "\<exists>x'. handles s' 2 = Some x' \<and> poFile x' = Some 1"
    using s'(1) small_fs_handle by (auto simp: MemWrite_def open_file_def Let_def split: if_splits Option.bind_splits)
  then show ?thesis using s' by blast
qed

theorem vsimem_unlink_keeps_open_witness:
  "\<exists>r s'. Unlink ''/v/a'' small_fs = Some (r, s') \<and> contents s' 1 = [1, 2, 3] \<and>
    map_option fst (MemRead 2 1 3 s') = map_option fst (MemRead 2 1 3 small_fs)"
proof -
  have "poFile \<lparr>poFile = Some 1, nOffset = 0, bUpdate = True, bEOF = False\<rparr> = Some 1" by simp
  from vsimem_unlink_keeps_open [OF small_fs_reachable small_fs_handle(1) this, of "''/v/a''" 1 3] small_fs_handle(4)
  show ?thesis by metis
qed

theorem vsimem_seek_revives_bytes_witness:
  "\<exists>s1 s2. Truncate heap_all 2 0 small_fs = Some (0, s1) \<and> contents s1 1 = [] \<and>
    Seek heap_all 2 3 SEEK_SET s1 = Some (0, s2) \<and> contents s2 1 = [1, 2, 3]"
  using vsimem_seek_revives_bytes [OF small_fs_reachable small_fs_handle(1) _ small_fs_handle(2), of 3 heap_all]
  by (simp add: small_fs_handle(4) [simplified])

theorem vsimem_seize_open_dangles_witness:
  "\<exists>d s'. VSIGetMemFileBuffer (Some ''/v/a'') True small_fs = Some (Some d, s') \<and> MemRead 2 1 3 s' = None \<and>
    MemWrite heap_all 2 [] 1 3 s' = None \<and> VSIFCloseL 2 s' = None"
  using vsimem_seize_open_dangles [OF small_fs_reachable small_fs_handle(1), of 1 "''/v/a''" 1 3 heap_all "[]"]
  by (simp add: NormalizePath_def small_fs_handle(3))

theorem vsimem_length_wraps_witness:
  "\<exists>s' m' s''. Truncate heap_all 2 0xF000000000000000 small_fs = Some (0, s') \<and> files s' 1 = Some m' \<and>
    nLength m' = 0xF000000000000000 \<and> Seek heap_all 2 (nAllocLength m') SEEK_SET s' = Some (0, s'') \<and> MemRead 2 1 1 s'' = None"
proof -
  have "\<exists>s' m' s''. Truncate heap_all 2 0xF000000000000000 small_fs = Some (0, s') \<and> files s' 1 = Some m' \<and>
    nLength m' = 0xF000000000000000 \<and> nAllocLength m' < 0xF000000000000000 \<and>
    Seek heap_all 2 (nAllocLength m') SEEK_SET s' = Some (0, s'') \<and> MemRead 2 1 1 s'' = None \<and> MemWrite heap_all 2 [0] 1 1 s'' = None"
    by (rule vsimem_length_wraps [OF small_fs_reachable small_fs_handle(1) _ small_fs_handle(2)]) (simp_all add: heap_all_def)
  then show ?thesis by blast
qed

theorem vsimem_readdir_lists_witness: "\<exists>names. ReadDir ''/V'' small_fs = Some names \<and> ''a'' \<in> set names"
proof -
  have n: "NormalizePath ''/V'' = ''/V''" "dir_name ''/V'' = ''/V''" by (simp_all add: NormalizePath_def dir_name_def)
  have "\<exists>names. ReadDir ''/V'' small_fs = Some names \<and>
    set names = {n. CHR ''/'' \<notin> set n \<and>
      (\<exists>d f. map_of (oFileList small_fs) (d @ CHR ''/'' # n) = Some f \<and> EQUAL (dir_name (NormalizePath ''/V'')) d)}"
    by (rule vsimem_readdir_lists [OF small_fs_reachable]) (simp_all add: small_fs_handle(3))
  moreover have "map_of (oFileList small_fs) (''/v'' @ CHR ''/'' # ''a'') = Some 1" by (simp add: small_fs_handle(3))
  moreover have "EQUAL ''/V'' ''/v''" by code_simp
  moreover have "CHR ''/'' \<notin> set ''a''" by simp
  ultimately show ?thesis unfolding n by blast
qed

end
