(* ===== verification/Cpl_Vsil_Cache.thy ===== *)
theory Cpl_Vsil_Cache
  imports Cpl_Vsi_Mem
begin

text \<open>
  The caching file handle of \<^verbatim>\<open>port/cpl_vsil_cache.cpp\<close>: chunks of 32768 bytes of a base file, found by their number in a
  vector and chained in the order in which they are to be dropped. The base handle is a value of any type with the
  operations of \<open>base_ops\<close>. Offsets and sizes are natural numbers, with \<open>u64\<close> where the code can wrap. The value \<open>None\<close> is
  a failed assertion, an access outside an array, a vector that cannot be that long, or a division by zero. The temporary
  buffer of a load is taken to be allocated, and its leak after a failed seek is not modelled. A closed handle is only
  closed again, by its destructor.
\<close>

section \<open>State\<close>

definition u64 :: "nat \<Rightarrow> nat" where
  "u64 n = n mod 2 ^ 64"

definition CHUNK_SIZE :: nat where
  "CHUNK_SIZE = 32768"

text \<open>The calls the cache makes on the base handle: \<^verbatim>\<open>Seek( n, SEEK_SET )\<close>, \<^verbatim>\<open>Seek( 0, SEEK_END )\<close>, \<^verbatim>\<open>Tell()\<close>,
  \<^verbatim>\<open>Read( p, 1, n )\<close>, which gives its result and the bytes it stores, and \<^verbatim>\<open>Close()\<close>.\<close>

record 'h base_ops =
  base_Seek :: "nat \<Rightarrow> 'h \<Rightarrow> (int \<times> 'h) option"
  base_SeekEnd :: "'h \<Rightarrow> (int \<times> 'h) option"
  base_Tell :: "'h \<Rightarrow> nat option"
  base_Read :: "nat \<Rightarrow> 'h \<Rightarrow> ((nat \<times> byte list) \<times> 'h) option"
  base_Close :: "'h \<Rightarrow> 'h option"

record chunk =
  bDirty :: bool
  iBlock :: nat
  poLRUPrev :: "nat option"
  poLRUNext :: "nat option"
  nDataFilled :: nat
  abyData :: "byte list"

text \<open>\<open>base_open\<close> says that \<^verbatim>\<open>poBase\<close> is not \<^verbatim>\<open>NULL\<close>.\<close>

record 'h cached_file =
  poBase :: 'h
  base_open :: bool
  cf_nOffset :: nat
  nFileSize :: nat
  nCacheUsed :: nat
  nCacheMax :: nat
  poLRUStart :: "nat option"
  poLRUEnd :: "nat option"
  apoCache :: "nat option list"
  cf_bEOF :: bool
  chunks :: "nat \<Rightarrow> chunk option"
  next_chunk :: nat

definition VSICachedFile :: "'h base_ops \<Rightarrow> nat \<Rightarrow> 'h \<Rightarrow> 'h cached_file option" where
  "VSICachedFile B cacheSize h = do {
     (r, h) \<leftarrow> base_SeekEnd B h;
     n \<leftarrow> base_Tell B h;
     Some \<lparr>poBase = h, base_open = True, cf_nOffset = 0, nFileSize = n, nCacheUsed = 0, nCacheMax = cacheSize, poLRUStart = None,
           poLRUEnd = None, apoCache = [], cf_bEOF = False, chunks = Map.empty, next_chunk = 0\<rparr>
   }"

section \<open>The list of chunks\<close>

definition upd_chunk :: "nat \<Rightarrow> (chunk \<Rightarrow> chunk) \<Rightarrow> 'h cached_file \<Rightarrow> 'h cached_file option" where
  "upd_chunk b g f = do { c \<leftarrow> chunks f b; Some (f\<lparr>chunks := (chunks f)(b \<mapsto> g c)\<rparr>) }"

definition upd_link :: "nat option \<Rightarrow> (chunk \<Rightarrow> chunk) \<Rightarrow> 'h cached_file \<Rightarrow> 'h cached_file option" where
  "upd_link p g f = (case p of None \<Rightarrow> Some f | Some b \<Rightarrow> upd_chunk b g f)"

definition FlushLRU :: "'h cached_file \<Rightarrow> 'h cached_file option" where
  "FlushLRU f = do {
     b \<leftarrow> poLRUStart f;
     c \<leftarrow> chunks f b;
     if nCacheUsed f < nDataFilled c then None
     else do {
       let f = f\<lparr>nCacheUsed := nCacheUsed f - nDataFilled c, poLRUStart := poLRUNext c,
                 poLRUEnd := (if poLRUEnd f = Some b then None else poLRUEnd f)\<rparr>;
       f \<leftarrow> upd_link (poLRUNext c) (poLRUPrev_update (\<lambda>_. None)) f;
       if bDirty c \<or> length (apoCache f) \<le> iBlock c then None
       else Some (f\<lparr>apoCache := (apoCache f)[iBlock c := None], chunks := (chunks f)(b := None)\<rparr>)
     }
   }"

definition Demote :: "nat \<Rightarrow> 'h cached_file \<Rightarrow> 'h cached_file option" where
  "Demote b f =
     (if poLRUEnd f = Some b then Some f
      else do {
        c \<leftarrow> chunks f b;
        let f = (if poLRUStart f = Some b then f\<lparr>poLRUStart := poLRUNext c\<rparr> else f);
        f \<leftarrow> upd_link (poLRUPrev c) (poLRUNext_update (\<lambda>_. poLRUNext c)) f;
        f \<leftarrow> upd_link (poLRUNext c) (poLRUPrev_update (\<lambda>_. poLRUPrev c)) f;
        f \<leftarrow> upd_chunk b (\<lambda>c. c\<lparr>poLRUNext := None, poLRUPrev := None\<rparr>) f;
        f \<leftarrow> upd_link (poLRUEnd f) (poLRUNext_update (\<lambda>_. Some b)) f;
        Some (f\<lparr>poLRUEnd := Some b, poLRUStart := (if poLRUStart f = None then Some b else poLRUStart f)\<rparr>)
      })"

text \<open>A new chunk with number \<open>i\<close>, holding \<open>n\<close> bytes \<open>d\<close>, goes into the vector and to the end of the list.\<close>

definition add_chunk :: "nat \<Rightarrow> nat \<Rightarrow> byte list \<Rightarrow> 'h cached_file \<Rightarrow> 'h cached_file option" where
  "add_chunk i n d f =
     (let b = next_chunk f;
          c = \<lparr>bDirty = False, iBlock = i, poLRUPrev = None, poLRUNext = None, nDataFilled = n, abyData = d\<rparr>
      in if length (apoCache f) \<le> i then None
         else Demote b (f\<lparr>chunks := (chunks f)(b \<mapsto> c), next_chunk := Suc b, apoCache := (apoCache f)[i := Some b],
                          nCacheUsed := nCacheUsed f + n\<rparr>))"

section \<open>Loading\<close>

definition resize_cache :: "nat \<Rightarrow> nat \<Rightarrow> 'h cached_file \<Rightarrow> 'h cached_file option" where
  "resize_cache vmax n f =
     (if n \<le> length (apoCache f) then Some f
      else if vmax < n then None
      else Some (f\<lparr>apoCache := apoCache f @ replicate (n - length (apoCache f)) None\<rparr>))"

fun add_chunks :: "nat \<Rightarrow> nat \<Rightarrow> byte list \<Rightarrow> nat list \<Rightarrow> 'h cached_file \<Rightarrow> 'h cached_file option" where
  "add_chunks nStartBlock nDataRead buf [] f = Some f"
| "add_chunks nStartBlock nDataRead buf (i # is) f =
     (let n = (if nDataRead \<ge> (i + 1) * CHUNK_SIZE then CHUNK_SIZE else nDataRead - i * CHUNK_SIZE)
      in if length (apoCache f) \<le> i + nStartBlock \<or> apoCache f ! (i + nStartBlock) \<noteq> None then None
         else do {
           f \<leftarrow> add_chunk (nStartBlock + i) n (take n (drop (i * CHUNK_SIZE) buf)) f;
           add_chunks nStartBlock nDataRead buf is f
         })"

function LoadBlocks :: "'h base_ops \<Rightarrow> nat \<Rightarrow> nat \<Rightarrow> nat \<Rightarrow> nat \<Rightarrow> 'h cached_file \<Rightarrow> (bool \<times> 'h cached_file) option" where
  "LoadBlocks B vmax nStartBlock nBlockCount nBufferSize f =
     (if nBlockCount = 0 then Some (True, f)
      else do {
        f \<leftarrow> resize_cache vmax (nStartBlock + nBlockCount) f;
        if nBlockCount = 1 then do {
          (r, h) \<leftarrow> base_Seek B (nStartBlock * CHUNK_SIZE) (poBase f);
          ((n, d), h) \<leftarrow> base_Read B CHUNK_SIZE h;
          f \<leftarrow> add_chunk nStartBlock n d (f\<lparr>poBase := h\<rparr>);
          Some (True, f)
        }
        else if nBufferSize > CHUNK_SIZE * 20 \<and> nBufferSize < u64 (nBlockCount * CHUNK_SIZE) then do {
          (ok, f) \<leftarrow> LoadBlocks B vmax nStartBlock 2 nBufferSize f;
          if \<not> ok then Some (False, f) else LoadBlocks B vmax (nStartBlock + 2) (nBlockCount - 2) nBufferSize f
        }
        else do {
          (r, h) \<leftarrow> base_Seek B (nStartBlock * CHUNK_SIZE) (poBase f);
          if r \<noteq> 0 then Some (False, f\<lparr>poBase := h\<rparr>)
          else do {
            ((nDataRead, d), h) \<leftarrow> base_Read B (u64 (nBlockCount * CHUNK_SIZE)) h;
            f \<leftarrow> add_chunks nStartBlock nDataRead d
                  [0..<if u64 (nBlockCount * CHUNK_SIZE) > nDataRead + CHUNK_SIZE - 1
                       then (nDataRead + CHUNK_SIZE - 1) div CHUNK_SIZE else nBlockCount] (f\<lparr>poBase := h\<rparr>);
            Some (True, f)
          }
        }
      })"
  by pat_completeness auto

lemma split_case: "CHUNK_SIZE * 20 < n \<Longrightarrow> n < u64 (k * CHUNK_SIZE) \<Longrightarrow> 20 < k"
proof -
  assume "CHUNK_SIZE * 20 < n" "n < u64 (k * CHUNK_SIZE)"
  moreover have "u64 (k * CHUNK_SIZE) \<le> k * CHUNK_SIZE" by (simp add: u64_def)
  ultimately have "20 * CHUNK_SIZE < k * CHUNK_SIZE" by linarith
  then show ?thesis by simp
qed

termination LoadBlocks
  by (relation "measure (\<lambda>(B, vmax, s, k, n, f). k)") (auto dest: split_case)

declare LoadBlocks.simps [simp del]

definition missing :: "'h cached_file \<Rightarrow> nat \<Rightarrow> bool" where
  "missing f i \<longleftrightarrow> length (apoCache f) \<le> i \<or> apoCache f ! i = None"

function blocks_to_load :: "'h cached_file \<Rightarrow> nat \<Rightarrow> nat \<Rightarrow> nat \<Rightarrow> nat" where
  "blocks_to_load f i nEndBlock n =
     (if i + n \<le> nEndBlock \<and> missing f (i + n) then blocks_to_load f i nEndBlock (n + 1) else n)"
  by pat_completeness auto

termination blocks_to_load
  by (relation "measure (\<lambda>(f, i, e, n). Suc e - (i + n))") auto

declare blocks_to_load.simps [simp del]

function load_loop :: "'h base_ops \<Rightarrow> nat \<Rightarrow> nat \<Rightarrow> nat \<Rightarrow> nat \<Rightarrow> 'h cached_file \<Rightarrow> 'h cached_file option" where
  "load_loop B vmax nBytes nEndBlock i f =
     (if nEndBlock < i then Some f
      else do {
        f \<leftarrow> (if missing f i then map_option snd (LoadBlocks B vmax i (blocks_to_load f i nEndBlock 1) nBytes f) else Some f);
        load_loop B vmax nBytes nEndBlock (i + 1) f
      })"
  by pat_completeness auto

termination load_loop
  by (relation "measure (\<lambda>(B, v, n, e, i, f). Suc e - i)") auto

declare load_loop.simps [simp del]

section \<open>Reading\<close>

text \<open>The copying loop gives the bytes that it stores.\<close>

function copy_loop :: "'h base_ops \<Rightarrow> nat \<Rightarrow> nat \<Rightarrow> nat \<Rightarrow> 'h cached_file \<Rightarrow> (byte list \<times> 'h cached_file) option" where
  "copy_loop B vmax nBytes nAmountCopied f =
     (if nBytes \<le> nAmountCopied then Some ([], f)
      else let i = u64 (cf_nOffset f + nAmountCopied) div CHUNK_SIZE in
        if length (apoCache f) \<le> i then None
        else do {
          f \<leftarrow> (case apoCache f ! i of
                 None \<Rightarrow> map_option snd (LoadBlocks B vmax i 1 (min (nBytes - nAmountCopied) CHUNK_SIZE) f)
               | Some b \<Rightarrow> Some f);
          b \<leftarrow> apoCache f ! i;
          c \<leftarrow> chunks f b;
          let off = u64 (cf_nOffset f + nAmountCopied) - i * CHUNK_SIZE;
              nThisCopy = min (u64 (i * CHUNK_SIZE + nDataFilled c + (2 ^ 64 - u64 (cf_nOffset f + nAmountCopied)))) (nBytes - nAmountCopied)
          in if nThisCopy = 0 then Some ([], f)
             else if length (abyData c) < off + nThisCopy then None
             else do {
               (d, f) \<leftarrow> copy_loop B vmax nBytes (nAmountCopied + nThisCopy) f;
               Some (take nThisCopy (drop off (abyData c)) @ d, f)
             }
        })"
  by pat_completeness auto

termination copy_loop
  by (relation "measure (\<lambda>(B, v, n, k, f). n - k)") (auto intro!: diff_less_mono2)

declare copy_loop.simps [simp del]

partial_function (option) shrink_cache :: "'h cached_file \<Rightarrow> 'h cached_file option" where
  "shrink_cache f = (if nCacheUsed f > nCacheMax f then FlushLRU f \<bind> shrink_cache else Some f)"

definition CachedSeek :: "nat \<Rightarrow> whence \<Rightarrow> 'h cached_file \<Rightarrow> 'h cached_file" where
  "CachedSeek nReqOffset nWhence f =
     f\<lparr>cf_bEOF := False,
       cf_nOffset := (case nWhence of SEEK_CUR \<Rightarrow> u64 (nReqOffset + cf_nOffset f)
                      | SEEK_END \<Rightarrow> u64 (nReqOffset + nFileSize f) | _ \<Rightarrow> nReqOffset)\<rparr>"

definition CachedTell :: "'h cached_file \<Rightarrow> nat" where
  "CachedTell f = cf_nOffset f"

definition CachedEof :: "'h cached_file \<Rightarrow> bool" where
  "CachedEof f = cf_bEOF f"

definition CachedRead :: "'h base_ops \<Rightarrow> nat \<Rightarrow> nat \<Rightarrow> nat \<Rightarrow> 'h cached_file \<Rightarrow> ((nat \<times> byte list) \<times> 'h cached_file) option" where
  "CachedRead B vmax nSize nCount f =
     (if nFileSize f \<le> cf_nOffset f then Some ((0, []), f\<lparr>cf_bEOF := True\<rparr>)
      else
        let nBytes = u64 (nSize * nCount);
            nStartBlock = cf_nOffset f div CHUNK_SIZE;
            nEndBlock = u64 (cf_nOffset f + nBytes + (2 ^ 64 - 1)) div CHUNK_SIZE
        in do {
          f \<leftarrow> load_loop B vmax nBytes nEndBlock nStartBlock f;
          (d, f) \<leftarrow> copy_loop B vmax nBytes 0 f;
          f \<leftarrow> shrink_cache (f\<lparr>cf_nOffset := u64 (cf_nOffset f + length d)\<rparr>);
          if nSize = 0 then None
          else let nRet = length d div nSize in Some ((nRet, d), if nRet \<noteq> nCount then f\<lparr>cf_bEOF := True\<rparr> else f)
        })"

definition CachedWrite :: "byte list \<Rightarrow> nat \<Rightarrow> nat \<Rightarrow> 'h cached_file \<Rightarrow> nat \<times> 'h cached_file" where
  "CachedWrite src nSize nCount f = (0, f)"

definition CachedFlush :: "'h cached_file \<Rightarrow> int \<times> 'h cached_file" where
  "CachedFlush f = (0, f)"


fun delete_chunks :: "nat option list \<Rightarrow> 'h cached_file \<Rightarrow> 'h cached_file option" where
  "delete_chunks [] f = Some f"
| "delete_chunks (None # bs) f = delete_chunks bs f"
| "delete_chunks (Some b # bs) f =
     (case chunks f b of None \<Rightarrow> None | Some c \<Rightarrow> delete_chunks bs (f\<lparr>chunks := (chunks f)(b := None)\<rparr>))"

definition CachedClose :: "'h base_ops \<Rightarrow> 'h cached_file \<Rightarrow> 'h cached_file option" where
  "CachedClose B f = do {
     f \<leftarrow> delete_chunks (apoCache f) f;
     h \<leftarrow> (if base_open f then base_Close B (poBase f) else Some (poBase f));
     Some (f\<lparr>apoCache := [], poLRUStart := None, poLRUEnd := None, nCacheUsed := 0, poBase := h, base_open := False\<rparr>)
   }"


section \<open>Clients\<close>

text \<open>Seeks and reads of a client; a read answers with its count, its bytes and the end-of-file flag.\<close>

datatype cached_op = CSeek nat whence | CRead nat nat

fun cached_run :: "'h base_ops \<Rightarrow> nat \<Rightarrow> cached_op list \<Rightarrow> 'h cached_file \<Rightarrow> ((nat \<times> byte list \<times> bool) list \<times> 'h cached_file) option" where
  "cached_run B vmax [] f = Some ([], f)"
| "cached_run B vmax (CSeek n w # ops) f = cached_run B vmax ops (CachedSeek n w f)"
| "cached_run B vmax (CRead nSize nCount # ops) f = do {
     ((k, d), f) \<leftarrow> CachedRead B vmax nSize nCount f;
     (rs, f') \<leftarrow> cached_run B vmax ops f;
     Some ((k, d, CachedEof f) # rs, f')
   }"

text \<open>The specification: a position and a flag over an array of bytes.\<close>

definition plain_seek :: "nat \<Rightarrow> nat \<Rightarrow> whence \<Rightarrow> nat \<Rightarrow> nat" where
  "plain_seek len n w pos = (case w of SEEK_CUR \<Rightarrow> n + pos | SEEK_END \<Rightarrow> n + len | _ \<Rightarrow> n)"

fun plain_run :: "byte list \<Rightarrow> cached_op list \<Rightarrow> nat \<Rightarrow> bool \<Rightarrow> (nat \<times> byte list \<times> bool) list" where
  "plain_run D [] pos eof = []"
| "plain_run D (CSeek n w # ops) pos eof = plain_run D ops (plain_seek (length D) n w pos) False"
| "plain_run D (CRead nSize nCount # ops) pos eof =
     (let d = take (nSize * nCount) (drop pos D); k = length d div nSize; eof = (eof \<or> k \<noteq> nCount)
      in (k, d, eof) # plain_run D ops (pos + length d) eof)"

text \<open>What the client respects: positions below 2 to the 62, reads of at least one byte, and requests for which the vector
  of chunks can be long enough.\<close>

fun plain_allowed :: "nat \<Rightarrow> byte list \<Rightarrow> cached_op list \<Rightarrow> nat \<Rightarrow> bool" where
  "plain_allowed vmax D [] pos \<longleftrightarrow> True"
| "plain_allowed vmax D (CSeek n w # ops) pos \<longleftrightarrow>
     plain_seek (length D) n w pos < 2 ^ 62 \<and> plain_allowed vmax D ops (plain_seek (length D) n w pos)"
| "plain_allowed vmax D (CRead nSize nCount # ops) pos \<longleftrightarrow>
     0 < nSize \<and> 0 < nCount \<and> pos + nSize * nCount < 2 ^ 62 \<and> (pos + nSize * nCount) div CHUNK_SIZE < vmax \<and>
     plain_allowed vmax D ops (pos + length (take (nSize * nCount) (drop pos D)))"

end
