(* ===== verification/Cpl_Vsil_Cache_Inv.thy ===== *)
theory Cpl_Vsil_Cache_Inv
  imports Cpl_Vsil_Cache
begin

text \<open>
  Correctness of the caching handle over any base file that does not change: the locale \<open>stable_base\<close> has what the cache
  relies on, the invariant \<open>cache_ok\<close> says that the chunks hold the bytes of the file and that the list of chunks and the
  count of cached bytes are right, and reading gives the bytes of the file.
\<close>

section \<open>The chain of chunks\<close>

fun chain :: "(nat \<Rightarrow> chunk option) \<Rightarrow> nat list \<Rightarrow> bool" where
  "chain H [] \<longleftrightarrow> True"
| "chain H [b] \<longleftrightarrow> (\<exists>c. H b = Some c \<and> poLRUPrev c = None \<and> poLRUNext c = None)"
| "chain H (b # b' # bs) \<longleftrightarrow> (\<exists>c. H b = Some c \<and> poLRUPrev c = None \<and> poLRUNext c = Some b') \<and> chain H (b' # bs)"

definition first_chunk :: "nat list \<Rightarrow> nat option" where
  "first_chunk L = (case L of [] \<Rightarrow> None | b # _ \<Rightarrow> Some b)"

definition last_chunk :: "nat list \<Rightarrow> nat option" where
  "last_chunk L = (if L = [] then None else Some (last L))"

lemma chain_cong: "chain H L \<Longrightarrow> (\<And>b. b \<in> set L \<Longrightarrow> H' b = H b) \<Longrightarrow> chain H' L"
  by (induction H L rule: chain.induct) auto

lemma chain_tl: "chain H (b # bs) \<Longrightarrow> chain H bs"
  by (cases bs) auto

lemma chain_head:
  "chain H (b # bs) \<Longrightarrow> \<exists>c. H b = Some c \<and> poLRUPrev c = None \<and> poLRUNext c = first_chunk bs"
  by (cases bs) (auto simp: first_chunk_def)

lemma chain_append:
  assumes "chain H L" "distinct L" "b \<notin> set L" "H b = Some c" "poLRUPrev c = None" "poLRUNext c = None" "L \<noteq> []"
    and "H (last L) = Some e"
  shows "chain (H(last L \<mapsto> e\<lparr>poLRUNext := Some b\<rparr>)) (L @ [b])"
  using assms
proof (induction H L rule: chain.induct)
  case (3 H x y ys)
  let ?H = "H(last (y # ys) \<mapsto> e\<lparr>poLRUNext := Some b\<rparr>)"
  have "chain ?H ((y # ys) @ [b])"
    by (rule 3(1)) (use 3(2-) in simp_all)
  then have rest: "chain ?H (y # ys @ [b])" by simp
  have "x \<noteq> last (y # ys)" using 3(3) last_in_set [of "y # ys"] by auto
  then have "?H x = H x" by simp
  then have "\<exists>c. ?H x = Some c \<and> poLRUPrev c = None \<and> poLRUNext c = Some y" using 3(2) by simp
  with rest have "chain ?H (x # y # ys @ [b])" unfolding chain.simps by blast
  moreover have "last (x # y # ys) = last (y # ys)" by simp
  ultimately show ?case by (simp only: append_Cons)
qed auto

section \<open>The invariant\<close>

locale stable_base =
  fixes B :: "'h base_ops" and valid :: "'h \<Rightarrow> bool" and pos :: "'h \<Rightarrow> nat" and data :: "byte list"
  assumes seek: "valid h \<Longrightarrow> k < 2 ^ 63 \<Longrightarrow>
      \<exists>r h'. base_Seek B k h = Some (r, h') \<and> valid h' \<and> pos h' = min k (length data) \<and> (r = 0 \<longleftrightarrow> k \<le> length data)"
    and seek_end: "valid h \<Longrightarrow> \<exists>r h'. base_SeekEnd B h = Some (r, h') \<and> valid h' \<and> base_Tell B h' = Some (length data)"
    and read: "valid h \<Longrightarrow> n + pos h < 2 ^ 63 \<Longrightarrow>
      \<exists>h'. base_Read B n h = Some ((length (take n (drop (pos h) data)), take n (drop (pos h) data)), h') \<and> valid h'"
begin

definition block_data :: "nat \<Rightarrow> byte list" where
  "block_data i = take CHUNK_SIZE (drop (i * CHUNK_SIZE) data)"

definition chunk_ok :: "nat option list \<Rightarrow> nat \<Rightarrow> chunk \<Rightarrow> bool" where
  "chunk_ok V b c \<longleftrightarrow> \<not> bDirty c \<and> iBlock c < length V \<and> V ! iBlock c = Some b \<and>
     abyData c = block_data (iBlock c) \<and> nDataFilled c = length (block_data (iBlock c))"

definition held :: "nat option list \<Rightarrow> (nat \<Rightarrow> chunk option) \<Rightarrow> bool" where
  "held V H \<longleftrightarrow> (\<forall>b c. H b = Some c \<longrightarrow> chunk_ok V b c) \<and>
     (\<forall>i b. i < length V \<longrightarrow> V ! i = Some b \<longrightarrow> (\<exists>c. H b = Some c \<and> iBlock c = i))"

definition filled :: "(nat \<Rightarrow> chunk option) \<Rightarrow> nat \<Rightarrow> nat" where
  "filled H b = (case H b of None \<Rightarrow> 0 | Some c \<Rightarrow> nDataFilled c)"

definition list_ok :: "'h cached_file \<Rightarrow> nat list \<Rightarrow> bool" where
  "list_ok f L \<longleftrightarrow> distinct L \<and> chain (chunks f) L \<and> set L = dom (chunks f) \<and> poLRUStart f = first_chunk L \<and>
     poLRUEnd f = last_chunk L \<and> nCacheUsed f = sum_list (map (filled (chunks f)) L) \<and> (\<forall>b \<in> set L. b < next_chunk f)"

definition cache_ok :: "'h cached_file \<Rightarrow> bool" where
  "cache_ok f \<longleftrightarrow> valid (poBase f) \<and> nFileSize f = length data \<and> held (apoCache f) (chunks f) \<and> (\<exists>L. list_ok f L)"

lemma length_block: "length (block_data i) = min CHUNK_SIZE (length data - i * CHUNK_SIZE)"
  by (simp add: block_data_def)

lemma new_cached:
  assumes "valid h"
  shows "\<exists>f. VSICachedFile B m h = Some f \<and> cache_ok f \<and> cf_nOffset f = 0 \<and> \<not> cf_bEOF f \<and> nCacheUsed f = 0 \<and> nCacheMax f = m"
  using seek_end [OF assms]
  by (auto simp: VSICachedFile_def cache_ok_def held_def list_ok_def first_chunk_def last_chunk_def intro!: exI [of _ "[]"])

text \<open>Adding a chunk: the list grows at its end.\<close>

lemma Demote_new:
  fixes f :: "'h cached_file" and V :: "nat option list"
  assumes L: "list_ok f L" and c: "chunks f b = None" "poLRUPrev c = None" "poLRUNext c = None" and b: "b < n"
    and n: "next_chunk f \<le> n"
  defines "g \<equiv> f\<lparr>chunks := (chunks f)(b \<mapsto> c), next_chunk := n, apoCache := V, nCacheUsed := nCacheUsed f + nDataFilled c\<rparr>"
  shows "\<exists>H. Demote b g = Some (g\<lparr>chunks := H, poLRUStart := first_chunk (L @ [b]), poLRUEnd := Some b\<rparr>) \<and>
    list_ok (g\<lparr>chunks := H, poLRUStart := first_chunk (L @ [b]), poLRUEnd := Some b\<rparr>) (L @ [b]) \<and>
    (\<forall>x. map_option (\<lambda>c. (bDirty c, iBlock c, nDataFilled c, abyData c)) (H x) =
         map_option (\<lambda>c. (bDirty c, iBlock c, nDataFilled c, abyData c)) (chunks g x))"
proof -
  note l = L [unfolded list_ok_def]
  have nb: "b \<notin> set L" using l c(1) by auto
  have cc: "c\<lparr>poLRUNext := None, poLRUPrev := None\<rparr> = c" using c(2,3) by simp
  have sums: "sum_list (map (filled ((chunks f)(b \<mapsto> c))) L) = sum_list (map (filled (chunks f)) L)"
    using nb by (intro arg_cong [of _ _ sum_list] map_cong) (auto simp: filled_def)
  show ?thesis
  proof (cases "L = []")
    case True
    let ?H = "(chunks f)(b \<mapsto> c)"
    have "Demote b g = Some (g\<lparr>chunks := ?H, poLRUStart := first_chunk (L @ [b]), poLRUEnd := Some b\<rparr>)"
      using True l c(2,3) by (simp add: Demote_def g_def upd_link_def upd_chunk_def first_chunk_def last_chunk_def cc)
    then show ?thesis
      using True l c b by (intro exI [of _ ?H]) (auto simp: list_ok_def g_def first_chunk_def last_chunk_def filled_def)
  next
    case False
    then obtain e where e: "chunks f (last L) = Some e" using l last_in_set [OF False] by blast
    have lb: "last L \<noteq> b" using nb last_in_set [OF False] by auto
    let ?H = "(chunks f)(b \<mapsto> c, last L \<mapsto> e\<lparr>poLRUNext := Some b\<rparr>)"
    have d: "Demote b g = Some (g\<lparr>chunks := ?H, poLRUStart := first_chunk (L @ [b]), poLRUEnd := Some b\<rparr>)"
      using False l c(2,3) e lb
      by (auto simp: Demote_def g_def upd_link_def upd_chunk_def first_chunk_def last_chunk_def cc split: list.splits)
    have "chain (chunks f) L" using l by blast
    then have "chain ((chunks f)(b \<mapsto> c)) L" by (rule chain_cong) (use nb in auto)
    then have ch: "chain ?H (L @ [b])"
      using l nb c lb e False by (intro chain_append) auto
    have fl: "filled ?H = filled ((chunks f)(b \<mapsto> c))" using e lb by (auto simp: filled_def fun_eq_iff)
    have "sum_list (map (filled ?H) (L @ [b])) = nCacheUsed f + nDataFilled c"
      using sums l by (simp add: fl) (simp add: filled_def)
    moreover have "\<forall>x \<in> set (L @ [b]). x < n" using l b n by fastforce
    moreover have "set (L @ [b]) = dom ?H" using l e by auto
    ultimately have "list_ok (g\<lparr>chunks := ?H, poLRUStart := first_chunk (L @ [b]), poLRUEnd := Some b\<rparr>) (L @ [b])"
      using ch l nb by (simp add: list_ok_def g_def last_chunk_def)
    then show ?thesis using d e lb by (intro exI [of _ ?H]) (auto simp: g_def)
  qed
qed

lemma held_cong:
  assumes "held V H"
    and "\<And>x. map_option (\<lambda>c. (bDirty c, iBlock c, nDataFilled c, abyData c)) (H' x) =
             map_option (\<lambda>c. (bDirty c, iBlock c, nDataFilled c, abyData c)) (H x)"
  shows "held V H'"
proof -
  have same: "\<exists>c. H x = Some c \<and> bDirty c = bDirty d \<and> iBlock c = iBlock d \<and> nDataFilled c = nDataFilled d \<and> abyData c = abyData d"
    if "H' x = Some d" for x d
    using assms(2) [of x] that by (cases "H x") auto
  have kept: "\<exists>d. H' x = Some d \<and> iBlock c = iBlock d"
    if "H x = Some c" for x c
    using assms(2) [of x] that by (cases "H' x") auto
  show ?thesis unfolding held_def
  proof (intro conjI allI impI)
    fix b c assume "H' b = Some c"
    from same [OF this] assms(1) show "chunk_ok V b c" unfolding held_def chunk_ok_def by metis
  next
    fix i b assume "i < length V" "V ! i = Some b"
    with assms(1) obtain c where "H b = Some c" "iBlock c = i" unfolding held_def by blast
    from kept [OF this(1)] this(2) show "\<exists>c. H' b = Some c \<and> iBlock c = i" by auto
  qed
qed

lemma add_chunk_ok:
  assumes ok: "cache_ok f" and i: "i < length (apoCache f)" "apoCache f ! i = None"
  shows "\<exists>f'. add_chunk i (length (block_data i)) (block_data i) f = Some f' \<and> cache_ok f' \<and> poBase f' = poBase f \<and>
    (\<exists>b. apoCache f' = (apoCache f)[i := Some b]) \<and> cf_nOffset f' = cf_nOffset f \<and> nCacheMax f' = nCacheMax f \<and> cf_bEOF f' = cf_bEOF f"
proof -
  let ?b = "next_chunk f"
  let ?c = "\<lparr>bDirty = False, iBlock = i, poLRUPrev = None, poLRUNext = None, nDataFilled = length (block_data i), abyData = block_data i\<rparr>"
  let ?V = "(apoCache f)[i := Some ?b]"
  obtain L where L: "list_ok f L" using ok by (auto simp: cache_ok_def)
  have h: "held (apoCache f) (chunks f)" using ok by (simp add: cache_ok_def)
  have free: "chunks f ?b = None" using L by (force simp: list_ok_def)
  let ?g = "f\<lparr>chunks := (chunks f)(?b \<mapsto> ?c), next_chunk := Suc ?b, apoCache := ?V, nCacheUsed := nCacheUsed f + nDataFilled ?c\<rparr>"
  from Demote_new [OF L free, of ?c "Suc ?b" ?V] obtain H where
    H: "Demote ?b ?g = Some (?g\<lparr>chunks := H, poLRUStart := first_chunk (L @ [?b]), poLRUEnd := Some ?b\<rparr>)"
      "list_ok (?g\<lparr>chunks := H, poLRUStart := first_chunk (L @ [?b]), poLRUEnd := Some ?b\<rparr>) (L @ [?b])"
      "\<forall>x. map_option (\<lambda>c. (bDirty c, iBlock c, nDataFilled c, abyData c)) (H x) =
           map_option (\<lambda>c. (bDirty c, iBlock c, nDataFilled c, abyData c)) (((chunks f)(?b \<mapsto> ?c)) x)" by auto
  have "held ?V ((chunks f)(?b \<mapsto> ?c))"
    unfolding held_def
  proof (intro conjI allI impI)
    fix b c assume c: "((chunks f)(?b \<mapsto> ?c)) b = Some c"
    show "chunk_ok ?V b c"
    proof (cases "b = ?b")
      case True
      then show ?thesis using c i by (auto simp: chunk_ok_def)
    next
      case False
      then have "chunk_ok (apoCache f) b c" using c h by (auto simp: held_def)
      then show ?thesis using i by (auto simp: chunk_ok_def nth_list_update)
    qed
  next
    fix j b assume j: "j < length ?V" "?V ! j = Some b"
    show "\<exists>c. ((chunks f)(?b \<mapsto> ?c)) b = Some c \<and> iBlock c = j"
    proof (cases "j = i")
      case True
      then show ?thesis using j by simp
    next
      case False
      then have "\<exists>c. chunks f b = Some c \<and> iBlock c = j" using j h by (auto simp: held_def)
      then show ?thesis using free by auto
    qed
  qed
  then have "held ?V H" by (rule held_cong) (simp add: H(3))
  then have "cache_ok (?g\<lparr>chunks := H, poLRUStart := first_chunk (L @ [?b]), poLRUEnd := Some ?b\<rparr>)"
    using ok H(2) by (auto simp: cache_ok_def)
  then show ?thesis using H(1) i(1) by (auto simp: add_chunk_def Let_def)
qed


text \<open>What loading \<open>n\<close> missing chunks from \<open>s\<close> on does: only those come in, and all that hold bytes of the file.\<close>

definition loaded :: "nat \<Rightarrow> nat \<Rightarrow> 'h cached_file \<Rightarrow> 'h cached_file \<Rightarrow> bool" where
  "loaded s n f f' \<longleftrightarrow> cache_ok f' \<and> cf_nOffset f' = cf_nOffset f \<and> nCacheMax f' = nCacheMax f \<and> cf_bEOF f' = cf_bEOF f \<and>
     length (apoCache f) \<le> length (apoCache f') \<and> (\<forall>i. (i < s \<or> s + n \<le> i) \<longrightarrow> missing f' i = missing f i) \<and>
     (\<forall>i. s \<le> i \<longrightarrow> i < s + n \<longrightarrow> missing f' i \<longrightarrow> length data \<le> i * CHUNK_SIZE)"

lemma resize_ok:
  assumes "cache_ok f" "n \<le> vmax"
  shows "\<exists>f'. resize_cache vmax n f = Some f' \<and> cache_ok f' \<and> n \<le> length (apoCache f') \<and> cf_nOffset f' = cf_nOffset f \<and>
    nCacheMax f' = nCacheMax f \<and> cf_bEOF f' = cf_bEOF f \<and> length (apoCache f) \<le> length (apoCache f') \<and> (\<forall>i. missing f' i = missing f i)"
proof (cases "n \<le> length (apoCache f)")
  case True
  then show ?thesis using assms by (simp add: resize_cache_def)
next
  case False
  let ?V = "apoCache f @ replicate (n - length (apoCache f)) None"
  have h: "held (apoCache f) (chunks f)" using assms(1) by (simp add: cache_ok_def)
  then have "chunk_ok ?V b c" if "chunks f b = Some c" for b c
    using that by (auto simp: held_def chunk_ok_def nth_append trans_less_add1)
  moreover have "\<exists>c. chunks f b = Some c \<and> iBlock c = i" if "i < length ?V" "?V ! i = Some b" for i b
  proof -
    have "i < length (apoCache f)"
    proof (rule ccontr)
      assume no: "\<not> i < length (apoCache f)"
      then have "?V ! i = replicate (n - length (apoCache f)) None ! (i - length (apoCache f))" by (simp add: nth_append)
      also have "\<dots> = None" using that(1) no by (intro nth_replicate) auto
      finally show False using that(2) by simp
    qed
    then show ?thesis using that h by (auto simp: held_def nth_append)
  qed
  ultimately have "held ?V (chunks f)" by (simp add: held_def)
  moreover have "missing (f\<lparr>apoCache := ?V\<rparr>) i = missing f i" for i
  proof (cases "i < length (apoCache f) \<or> n \<le> i")
    case True
    then show ?thesis using False by (auto simp: missing_def nth_append)
  next
    case no: False
    then have "i - length (apoCache f) < n - length (apoCache f)" by auto
    then have "?V ! i = None" using no by (simp add: nth_append)
    then show ?thesis using no by (simp add: missing_def)
  qed
  ultimately show ?thesis using False assms
    by (simp add: resize_cache_def cache_ok_def list_ok_def)
qed

lemma add_chunk_missing:
  assumes "apoCache f' = (apoCache f)[i := Some b]" "i < length (apoCache f)"
  shows "missing f' j \<longleftrightarrow> j \<noteq> i \<and> missing f j"
  using assms by (auto simp: missing_def nth_list_update)

lemma part_of_buffer:
  fixes s n :: nat defines "d \<equiv> take (n * CHUNK_SIZE) (drop (s * CHUNK_SIZE) data)"
  assumes "i < n"
  shows "(if length d \<ge> (i + 1) * CHUNK_SIZE then CHUNK_SIZE else length d - i * CHUNK_SIZE) = length (block_data (s + i))"
    "take (length (block_data (s + i))) (drop (i * CHUNK_SIZE) d) = block_data (s + i)"
proof -
  have "(i + 1) * CHUNK_SIZE \<le> n * CHUNK_SIZE" using assms(2) by (intro mult_le_mono1) simp
  then have le: "CHUNK_SIZE + i * CHUNK_SIZE \<le> n * CHUNK_SIZE" by simp
  have b: "take CHUNK_SIZE (drop (i * CHUNK_SIZE) d) = block_data (s + i)"
    unfolding block_data_def d_def drop_take take_take drop_drop using le
    by (simp add: min_def add_mult_distrib add.commute)
  have "length (block_data (s + i)) = min CHUNK_SIZE (length d - i * CHUNK_SIZE)" unfolding b [symmetric] by simp
  then show "(if length d \<ge> (i + 1) * CHUNK_SIZE then CHUNK_SIZE else length d - i * CHUNK_SIZE) = length (block_data (s + i))"
    by (auto simp: min_def)
  show "take (length (block_data (s + i))) (drop (i * CHUNK_SIZE) d) = block_data (s + i)"
    unfolding b [symmetric] by (auto simp: min_def)
qed

lemma add_chunks_ok:
  fixes s n :: nat defines "d \<equiv> take (n * CHUNK_SIZE) (drop (s * CHUNK_SIZE) data)"
  assumes "j \<le> k" "k \<le> n" "cache_ok f" "s + n \<le> length (apoCache f)" "\<forall>i. s + j \<le> i \<longrightarrow> i < s + k \<longrightarrow> missing f i"
  shows "\<exists>f'. add_chunks s (length d) d [j..<k] f = Some f' \<and> cache_ok f' \<and> cf_nOffset f' = cf_nOffset f \<and> nCacheMax f' = nCacheMax f \<and>
    cf_bEOF f' = cf_bEOF f \<and> length (apoCache f') = length (apoCache f) \<and>
    (\<forall>i. missing f' i \<longleftrightarrow> missing f i \<and> (i < s + j \<or> s + k \<le> i))"
  using assms(2-)
proof (induction "k - j" arbitrary: j f)
  case 0
  then show ?case by auto
next
  case (Suc m)
  then have j: "j < k" by simp
  then have jn: "j < n" using Suc.prems(2) by simp
  have sj: "s + j < length (apoCache f)" using jn Suc.prems(4) by simp
  have mj: "apoCache f ! (s + j) = None" using Suc.prems(5) j sj by (auto simp: missing_def)
  note part = part_of_buffer [OF jn, of s, folded d_def]
  obtain f1 where f1: "add_chunk (s + j) (length (block_data (s + j))) (block_data (s + j)) f = Some f1" "cache_ok f1"
      "\<exists>b. apoCache f1 = (apoCache f)[s + j := Some b]" "cf_nOffset f1 = cf_nOffset f" "nCacheMax f1 = nCacheMax f" "cf_bEOF f1 = cf_bEOF f"
    using add_chunk_ok [OF Suc.prems(3) sj mj] by blast
  then have miss: "missing f1 i \<longleftrightarrow> i \<noteq> s + j \<and> missing f i" for i using add_chunk_missing sj by blast
  have len: "length (apoCache f1) = length (apoCache f)" using f1(3) by auto
  have "\<exists>f'. add_chunks s (length d) d [Suc j..<k] f1 = Some f' \<and> cache_ok f' \<and> cf_nOffset f' = cf_nOffset f1 \<and> nCacheMax f' = nCacheMax f1 \<and>
    cf_bEOF f' = cf_bEOF f1 \<and> length (apoCache f') = length (apoCache f1) \<and>
    (\<forall>i. missing f' i \<longleftrightarrow> missing f1 i \<and> (i < s + Suc j \<or> s + k \<le> i))"
  proof (rule Suc.hyps(1))
    show "m = k - Suc j" using Suc.hyps(2) by simp
    show "\<forall>i. s + Suc j \<le> i \<longrightarrow> i < s + k \<longrightarrow> missing f1 i" using Suc.prems(5) by (simp add: miss)
    show "s + n \<le> length (apoCache f1)" using Suc.prems(4) len by simp
  qed (use Suc.prems(2) j f1(2) in simp_all)
  then obtain f' where f': "add_chunks s (length d) d [Suc j..<k] f1 = Some f'" "cache_ok f'" "cf_nOffset f' = cf_nOffset f1"
      "nCacheMax f' = nCacheMax f1" "cf_bEOF f' = cf_bEOF f1" "length (apoCache f') = length (apoCache f1)"
      "\<forall>i. missing f' i \<longleftrightarrow> missing f1 i \<and> (i < s + Suc j \<or> s + k \<le> i)" by blast
  have "add_chunks s (length d) d [j..<k] f = Some f'"
    unfolding upt_conv_Cons [OF j] add_chunks.simps Let_def part
    using f1(1) f'(1) sj mj by (simp add: add.commute)
  moreover have "\<forall>i. missing f' i \<longleftrightarrow> missing f i \<and> (i < s + j \<or> s + k \<le> i)"
  proof
    fix i
    have "missing f' i \<longleftrightarrow> (i \<noteq> s + j \<and> missing f i) \<and> (i < s + Suc j \<or> s + k \<le> i)" using f'(7) miss by blast
    then show "missing f' i \<longleftrightarrow> missing f i \<and> (i < s + j \<or> s + k \<le> i)" using j by (cases "i = s + j") auto
  qed
  moreover note f'(2) f'(3) [unfolded f1(4)] f'(4) [unfolded f1(5)] f'(5) [unfolded f1(6)] f'(6) [unfolded len]
  ultimately show ?case by blast
qed


lemma load_multi:
  assumes ok: "cache_ok f" and k: "0 < n" and small: "(s + n) * CHUNK_SIZE < 2 ^ 63" and room: "s + n \<le> length (apoCache f)"
    and miss: "\<forall>i. s \<le> i \<longrightarrow> i < s + n \<longrightarrow> missing f i"
  shows "\<exists>r h f'. base_Seek B (s * CHUNK_SIZE) (poBase f) = Some (r, h) \<and>
    (if r \<noteq> 0 then loaded s n f (f\<lparr>poBase := h\<rparr>)
     else \<exists>m d h'. base_Read B (n * CHUNK_SIZE) h = Some ((m, d), h') \<and>
       add_chunks s m d [0..<if n * CHUNK_SIZE > m + CHUNK_SIZE - 1 then (m + CHUNK_SIZE - 1) div CHUNK_SIZE else n]
         (f\<lparr>poBase := h'\<rparr>) = Some f' \<and> loaded s n f f')"
proof -
  have v: "valid (poBase f)" using ok by (simp add: cache_ok_def)
  have sk: "s * CHUNK_SIZE < 2 ^ 63" "n * CHUNK_SIZE < 2 ^ 63" using small by (auto simp: add_mult_distrib)
  obtain r h where s: "base_Seek B (s * CHUNK_SIZE) (poBase f) = Some (r, h)" "valid h" "pos h = min (s * CHUNK_SIZE) (length data)"
      "r = 0 \<longleftrightarrow> s * CHUNK_SIZE \<le> length data" using seek [OF v sk(1)] by blast
  show ?thesis
  proof (cases "r = 0")
    case False
    then have past: "length data < s * CHUNK_SIZE" using s(4) by simp
    have "length data \<le> i * CHUNK_SIZE" if "s \<le> i" for i using past mult_le_mono1 [OF that, of CHUNK_SIZE] by linarith
    then have "loaded s n f (f\<lparr>poBase := h\<rparr>)"
      using ok s(2) by (simp add: loaded_def cache_ok_def list_ok_def missing_def)
    then show ?thesis using s(1) False by simp
  next
    case True
    let ?d = "take (n * CHUNK_SIZE) (drop (s * CHUNK_SIZE) data)"
    have d: "take (n * CHUNK_SIZE) (drop (pos h) data) = ?d" using s(3,4) True by (simp add: min_def)
    obtain h' where r: "base_Read B (n * CHUNK_SIZE) h = Some ((length ?d, ?d), h')" "valid h'"
    proof -
      have "n * CHUNK_SIZE + pos h < 2 ^ 63"
      proof -
        have "s * CHUNK_SIZE + n * CHUNK_SIZE < 2 ^ 63" using small by (simp only: add_mult_distrib)
        moreover have "pos h \<le> s * CHUNK_SIZE" using s(3) by simp
        ultimately show ?thesis by linarith
      qed
      from read [OF s(2) this] show ?thesis unfolding d using that by blast
    qed
    let ?k = "if n * CHUNK_SIZE > length ?d + CHUNK_SIZE - 1 then (length ?d + CHUNK_SIZE - 1) div CHUNK_SIZE else n"
    have pos_chunk: "0 < CHUNK_SIZE" by (simp add: CHUNK_SIZE_def)
    have kn: "?k \<le> n"
    proof (cases "n * CHUNK_SIZE > length ?d + CHUNK_SIZE - 1")
      case True
      then have "(length ?d + CHUNK_SIZE - 1) div CHUNK_SIZE < n" using pos_chunk by (simp only: div_less_iff_less_mult)
      then show ?thesis using True by simp
    qed simp
    have ok': "cache_ok (f\<lparr>poBase := h'\<rparr>)" using ok r(2) by (simp add: cache_ok_def list_ok_def)
    have "s + n \<le> length (apoCache (f\<lparr>poBase := h'\<rparr>))"
      "\<forall>i. s + 0 \<le> i \<longrightarrow> i < s + ?k \<longrightarrow> missing (f\<lparr>poBase := h'\<rparr>) i"
      using room miss kn by (simp, simp add: missing_def)
    from add_chunks_ok [OF le0 kn ok' this] obtain f' where
      f': "add_chunks s (length ?d) ?d [0..<?k] (f\<lparr>poBase := h'\<rparr>) = Some f'" "cache_ok f'" "cf_nOffset f' = cf_nOffset f"
        "nCacheMax f' = nCacheMax f" "cf_bEOF f' = cf_bEOF f" "length (apoCache f') = length (apoCache f)"
        "\<forall>i. missing f' i \<longleftrightarrow> missing f i \<and> (i < s + 0 \<or> s + ?k \<le> i)" by (auto simp: missing_def)
    have covered: "length data \<le> i * CHUNK_SIZE" if "s + ?k \<le> i" "i < s + n" for i
    proof -
      have c1: "n * CHUNK_SIZE > length ?d + CHUNK_SIZE - 1"
        by (rule ccontr) (use that in simp)
      have "s + (length ?d + CHUNK_SIZE - 1) div CHUNK_SIZE \<le> i" using that(1) unfolding if_P [OF c1] .
      then have c2: "(length ?d + CHUNK_SIZE - 1) div CHUNK_SIZE \<le> i - s" by linarith
      have "length ?d + CHUNK_SIZE - 1 < (i - s + 1) * CHUNK_SIZE"
        using c2 pos_chunk by (metis Suc_eq_plus1 div_less_iff_less_mult le_imp_less_Suc)
      then have "length ?d \<le> (i - s) * CHUNK_SIZE" using pos_chunk by simp
      moreover have "length ?d = length data - s * CHUNK_SIZE"
      proof -
        have "length ?d < n * CHUNK_SIZE" using c1 pos_chunk by linarith
        then show ?thesis by simp
      qed
      moreover have "(i - s) * CHUNK_SIZE = i * CHUNK_SIZE - s * CHUNK_SIZE" by (simp add: diff_mult_distrib)
      moreover have "s * CHUNK_SIZE \<le> i * CHUNK_SIZE" using that(1) by (intro mult_le_mono1) simp
      ultimately show ?thesis by linarith
    qed
    have "loaded s n f f'" unfolding loaded_def
    proof (intro conjI allI impI)
      show "missing f' i = missing f i" if "i < s \<or> s + n \<le> i" for i using f'(7) that kn by auto
      show "length data \<le> i * CHUNK_SIZE" if "s \<le> i" "i < s + n" "missing f' i" for i
        using covered [of i] f'(7) that by auto
    qed (use f'(2-6) in simp_all)
    then show ?thesis using s(1) True r(1) f'(1) by auto
  qed
qed

end

end
