(* ===== verification/Cpl_Vsil_Cache_Read.thy ===== *)
theory Cpl_Vsil_Cache_Read
  imports Cpl_Vsil_Cache_Inv
begin

text \<open>
  Reading through the cache: loading and copying return and give the bytes of the base file, the cache shrinks to its
  limit, and any sequence of seeks and reads answers as \<open>plain_step\<close>, a position in an array of bytes.
\<close>

text \<open>One round of the copying loop, its parts named.\<close>

lemma copy_step:
  assumes "k < n" and i: "i = u64 (cf_nOffset f + k) div CHUNK_SIZE" "i < length (apoCache f)"
    and g: "(case apoCache f ! i of None \<Rightarrow> map_option snd (LoadBlocks B vmax i 1 (min (n - k) CHUNK_SIZE) f) | Some b \<Rightarrow> Some f) = Some g"
      "apoCache g ! i = Some b" "chunks g b = Some c"
    and off: "off = u64 (cf_nOffset g + k) - i * CHUNK_SIZE"
    and t: "t = min (u64 (i * CHUNK_SIZE + nDataFilled c + (2 ^ 64 - u64 (cf_nOffset g + k)))) (n - k)"
  shows "copy_loop B vmax n k f =
    (if t = 0 then Some ([], g) else if length (abyData c) < off + t then None
     else copy_loop B vmax n (k + t) g \<bind> (\<lambda>(d, f). Some (take t (drop off (abyData c)) @ d, f)))"
proof -
  have k: "\<not> n \<le> k" and il: "\<not> length (apoCache f) \<le> i" using assms(1) i(2) by simp_all
  show ?thesis
    by (subst copy_loop.simps)
      (simp only: Let_def k il if_False i(1) [symmetric] g Option.bind.bind_lunit off [symmetric] t [symmetric] bind.simps prod.case)
qed

context stable_base begin

lemma loaded_trans:
  assumes "loaded s 2 f g" "loaded (s + 2) n g h"
  shows "loaded s (2 + n) f h"
  unfolding loaded_def
proof (intro conjI allI impI)
  fix i
  show "missing h i = missing f i" if "i < s \<or> s + (2 + n) \<le> i" using assms that by (auto simp: loaded_def)
  show "length data \<le> i * CHUNK_SIZE" if "s \<le> i" "i < s + (2 + n)" "missing h i"
  proof (cases "i < s + 2")
    case True
    then have "missing g i" using assms(2) that(3) by (simp add: loaded_def)
    then show ?thesis using assms(1) that(1) True by (simp add: loaded_def)
  next
    case False
    then show ?thesis using assms(2) that by (simp add: loaded_def)
  qed
qed (use assms in \<open>auto simp: loaded_def\<close>)

lemma loaded_cong:
  assumes "loaded s n g h" "cf_nOffset g = cf_nOffset f" "nCacheMax g = nCacheMax f" "cf_bEOF g = cf_bEOF f"
    "length (apoCache f) \<le> length (apoCache g)" "\<And>i. missing g i = missing f i"
  shows "loaded s n f h"
  using assms unfolding loaded_def by auto

lemma load_one:
  assumes ok: "cache_ok f" and small: "(s + 1) * CHUNK_SIZE < 2 ^ 63" and room: "s < length (apoCache f)" and miss: "missing f s"
  shows "\<exists>r h m d h' f'. base_Seek B (s * CHUNK_SIZE) (poBase f) = Some (r, h) \<and> base_Read B CHUNK_SIZE h = Some ((m, d), h') \<and>
    add_chunk s m d (f\<lparr>poBase := h'\<rparr>) = Some f' \<and> loaded s 1 f f' \<and> \<not> missing f' s \<and> length (apoCache f) \<le> length (apoCache f')"
proof -
  have v: "valid (poBase f)" using ok by (simp add: cache_ok_def)
  obtain r h where s: "base_Seek B (s * CHUNK_SIZE) (poBase f) = Some (r, h)" "valid h" "pos h = min (s * CHUNK_SIZE) (length data)"
  proof -
    have "s * CHUNK_SIZE < 2 ^ 63" using small by simp
    from seek [OF v this] show ?thesis using that by blast
  qed
  have d: "take CHUNK_SIZE (drop (pos h) data) = block_data s" by (simp add: s(3) block_data_def min_def)
  have c63: "CHUNK_SIZE + pos h < 2 ^ 63" using small s(3) by (simp add: min_def)
  obtain h' where r: "base_Read B CHUNK_SIZE h = Some ((length (block_data s), block_data s), h')" "valid h'"
    using read [OF s(2) c63] unfolding d by blast
  have ok': "cache_ok (f\<lparr>poBase := h'\<rparr>)" using ok r(2) by (simp add: cache_ok_def list_ok_def)
  have "s < length (apoCache (f\<lparr>poBase := h'\<rparr>))" "apoCache (f\<lparr>poBase := h'\<rparr>) ! s = None" using room miss by (simp_all add: missing_def)
  from add_chunk_ok [OF ok' this] obtain f' b where f': "add_chunk s (length (block_data s)) (block_data s) (f\<lparr>poBase := h'\<rparr>) = Some f'"
      "cache_ok f'" "apoCache f' = (apoCache f)[s := Some b]" "cf_nOffset f' = cf_nOffset f" "nCacheMax f' = nCacheMax f" "cf_bEOF f' = cf_bEOF f"
    by auto
  have miss: "missing f' j \<longleftrightarrow> j \<noteq> s \<and> missing f j" for j by (rule add_chunk_missing [OF f'(3) room])
  then have "loaded s 1 f f'" using f' by (simp add: loaded_def)
  then show ?thesis using s(1) r(1) f'(1,3) miss by auto
qed

lemma LoadBlocks_ok:
  assumes "cache_ok f" "(s + n) * CHUNK_SIZE < 2 ^ 63" "s + n \<le> vmax" "\<forall>i. s \<le> i \<longrightarrow> i < s + n \<longrightarrow> missing f i"
  shows "\<exists>r f'. LoadBlocks B vmax s n buf f = Some (r, f') \<and> loaded s n f f' \<and> (0 < n \<longrightarrow> s + n \<le> length (apoCache f')) \<and>
    (n = 1 \<longrightarrow> \<not> missing f' s) \<and> (\<not> r \<longrightarrow> n \<le> 2 \<longrightarrow> length data \<le> s * CHUNK_SIZE)"
  using assms
proof (induction n arbitrary: s f rule: less_induct)
  case (less n)
  have u: "u64 (n * CHUNK_SIZE) = n * CHUNK_SIZE" using less.prems(2) by (simp add: u64_def add_mult_distrib)
  obtain g where g: "resize_cache vmax (s + n) f = Some g" "cache_ok g" "s + n \<le> length (apoCache g)" "cf_nOffset g = cf_nOffset f"
      "nCacheMax g = nCacheMax f" "cf_bEOF g = cf_bEOF f" "length (apoCache f) \<le> length (apoCache g)" "\<forall>i. missing g i = missing f i"
    using resize_ok [OF less.prems(1,3)] by blast
  have to_f: "loaded s n f h" if "loaded s n g h" for h
    by (rule loaded_cong [OF that]) (simp_all add: g(4-7) g(8) [rule_format])
  have mg: "\<forall>i. s \<le> i \<longrightarrow> i < s + n \<longrightarrow> missing g i" using less.prems(4) g(8) by simp
  consider "n = 0" | "n = 1" | "1 < n" "buf > CHUNK_SIZE * 20 \<and> buf < n * CHUNK_SIZE"
    | "1 < n" "\<not> (buf > CHUNK_SIZE * 20 \<and> buf < n * CHUNK_SIZE)" by linarith
  then show ?case
  proof cases
    case 1
    then show ?thesis using less.prems(1) by (subst LoadBlocks.simps) (auto simp: loaded_def)
  next
    case 2
    have "(s + 1) * CHUNK_SIZE < 2 ^ 63" "s < length (apoCache g)" "missing g s" using less.prems(2) g(3) mg 2 by auto
    from load_one [OF g(2) this] obtain r h m d h' f' where
      l: "base_Seek B (s * CHUNK_SIZE) (poBase g) = Some (r, h)" "base_Read B CHUNK_SIZE h = Some ((m, d), h')"
        "add_chunk s m d (g\<lparr>poBase := h'\<rparr>) = Some f'" "loaded s 1 g f'" "\<not> missing f' s" "length (apoCache g) \<le> length (apoCache f')" by blast
    have "LoadBlocks B vmax s n buf f = Some (True, f')"
      using 2 g(1) l(1-3) by (subst LoadBlocks.simps) simp
    then show ?thesis using to_f l(4-6) 2 g(3) by auto
  next
    case 3
    have n2: "2 < n"
    proof -
      have "20 * CHUNK_SIZE < n * CHUNK_SIZE" using 3(2) by linarith
      then show ?thesis by simp
    qed
    have "\<exists>r f'. LoadBlocks B vmax s 2 buf g = Some (r, f') \<and> loaded s 2 g f' \<and> (0 < (2 :: nat) \<longrightarrow> s + 2 \<le> length (apoCache f')) \<and>
      ((2 :: nat) = 1 \<longrightarrow> \<not> missing f' s) \<and> (\<not> r \<longrightarrow> (2 :: nat) \<le> 2 \<longrightarrow> length data \<le> s * CHUNK_SIZE)"
    proof (rule less.IH [OF n2 g(2)])
      have "(s + 2) * CHUNK_SIZE \<le> (s + n) * CHUNK_SIZE" using n2 by (intro mult_le_mono1) simp
      then show "(s + 2) * CHUNK_SIZE < 2 ^ 63" using less.prems(2) by linarith
    qed (use less.prems(3) n2 mg in auto)
    then obtain r1 f1 where f1: "LoadBlocks B vmax s 2 buf g = Some (r1, f1)" "loaded s 2 g f1" "\<not> r1 \<longrightarrow> length data \<le> s * CHUNK_SIZE"
      by auto
    have len1: "length (apoCache g) \<le> length (apoCache f1)" using f1(2) by (simp add: loaded_def)
    show ?thesis
    proof (cases r1)
      case False
      then have past: "length data \<le> i * CHUNK_SIZE" if "s \<le> i" for i
        using f1(3) mult_le_mono1 [OF that, of CHUNK_SIZE] by linarith
      have "loaded s n g f1" using f1(2) past n2 by (simp add: loaded_def)
      moreover have "LoadBlocks B vmax s n buf f = Some (False, f1)"
        using 3 n2 g(1) f1(1) False by (subst LoadBlocks.simps) (simp add: u)
      ultimately show ?thesis using to_f f1(3) False len1 g(3) n2 by auto
    next
      case True
      have small: "n - 2 < n" using n2 by simp
      have sn: "s + 2 + (n - 2) = s + n" using n2 by simp
      have "\<exists>r f'. LoadBlocks B vmax (s + 2) (n - 2) buf f1 = Some (r, f') \<and> loaded (s + 2) (n - 2) f1 f' \<and>
        (0 < n - 2 \<longrightarrow> s + 2 + (n - 2) \<le> length (apoCache f')) \<and> (n - 2 = 1 \<longrightarrow> \<not> missing f' (s + 2)) \<and>
        (\<not> r \<longrightarrow> n - 2 \<le> 2 \<longrightarrow> length data \<le> (s + 2) * CHUNK_SIZE)"
      proof (rule less.IH [OF small])
        show "cache_ok f1" using f1(2) by (simp add: loaded_def)
        show "(s + 2 + (n - 2)) * CHUNK_SIZE < 2 ^ 63" "s + 2 + (n - 2) \<le> vmax"
          unfolding sn using less.prems(2,3) by simp_all
        show "\<forall>i. s + 2 \<le> i \<longrightarrow> i < s + 2 + (n - 2) \<longrightarrow> missing f1 i"
          unfolding sn using f1(2) mg by (simp add: loaded_def)
      qed
      then obtain r2 f2 where f2: "LoadBlocks B vmax (s + 2) (n - 2) buf f1 = Some (r2, f2)" "loaded (s + 2) (n - 2) f1 f2" by blast
      have "loaded s (2 + (n - 2)) g f2" by (rule loaded_trans [OF f1(2) f2(2)])
      moreover have "2 + (n - 2) = n" using n2 by simp
      ultimately have "loaded s n g f2" by simp
      moreover have "length (apoCache f1) \<le> length (apoCache f2)" using f2(2) by (simp add: loaded_def)
      moreover have "LoadBlocks B vmax s n buf f = Some (r2, f2)"
        using 3 n2 g(1) f1(1) True f2(1) by (subst LoadBlocks.simps) (simp add: u)
      ultimately show ?thesis using to_f len1 g(3) n2 by auto
    qed
  next
    case 4
    from load_multi [OF g(2) _ less.prems(2) g(3) mg] 4(1) obtain r h f' where
      l: "base_Seek B (s * CHUNK_SIZE) (poBase g) = Some (r, h)"
        "if r \<noteq> 0 then loaded s n g (g\<lparr>poBase := h\<rparr>)
         else \<exists>m d h'. base_Read B (n * CHUNK_SIZE) h = Some ((m, d), h') \<and>
           add_chunks s m d [0..<if n * CHUNK_SIZE > m + CHUNK_SIZE - 1 then (m + CHUNK_SIZE - 1) div CHUNK_SIZE else n]
             (g\<lparr>poBase := h'\<rparr>) = Some f' \<and> loaded s n g f'" by auto
    show ?thesis
    proof (cases "r = 0")
      case True
      with l(2) obtain m d h' where m: "base_Read B (n * CHUNK_SIZE) h = Some ((m, d), h')"
        "add_chunks s m d [0..<if n * CHUNK_SIZE > m + CHUNK_SIZE - 1 then (m + CHUNK_SIZE - 1) div CHUNK_SIZE else n]
             (g\<lparr>poBase := h'\<rparr>) = Some f'" "loaded s n g f'" by auto
      have "LoadBlocks B vmax s n buf f = Some (True, f')"
        using 4 g(1) l(1) True m(1,2) by (subst LoadBlocks.simps) (auto simp: u)
      moreover have "length (apoCache g) \<le> length (apoCache f')" using m(3) by (simp add: loaded_def)
      ultimately show ?thesis using to_f m(3) g(3) 4(1) by auto
    next
      case False
      with l(2) have "loaded s n g (g\<lparr>poBase := h\<rparr>)" by simp
      moreover have "LoadBlocks B vmax s n buf f = Some (False, g\<lparr>poBase := h\<rparr>)"
        using 4 g(1) l(1) False by (subst LoadBlocks.simps) (auto simp: u)
      moreover have "length data \<le> s * CHUNK_SIZE"
      proof -
        have "valid (poBase g)" "s * CHUNK_SIZE < 2 ^ 63" using g(2) less.prems(2) by (auto simp: cache_ok_def add_mult_distrib)
        from seek [OF this] l(1) False show ?thesis by auto
      qed
      ultimately show ?thesis using to_f g(3) 4(1) by auto
    qed
  qed
qed


lemma blocks_to_load_range:
  assumes "1 \<le> n" "i + n \<le> Suc e" "\<forall>j. i \<le> j \<longrightarrow> j < i + n \<longrightarrow> missing f j"
  shows "1 \<le> blocks_to_load f i e n \<and> i + blocks_to_load f i e n \<le> Suc e \<and>
    (\<forall>j. i \<le> j \<longrightarrow> j < i + blocks_to_load f i e n \<longrightarrow> missing f j)"
  using assms
proof (induction f i e n rule: blocks_to_load.induct)
  case (1 f i e n)
  show ?case
  proof (cases "i + n \<le> e \<and> missing f (i + n)")
    case True
    have "\<forall>j. i \<le> j \<longrightarrow> j < i + (n + 1) \<longrightarrow> missing f j" using 1(4) True by (auto simp: less_Suc_eq)
    with 1 True show ?thesis by (subst (1 2 3) blocks_to_load.simps) simp
  next
    case False
    with 1 show ?thesis by (subst (1 2 3) blocks_to_load.simps) auto
  qed
qed

text \<open>After loading: every chunk from \<open>s\<close> to \<open>e\<close> that holds bytes of the file is there.\<close>

definition ready :: "nat \<Rightarrow> nat \<Rightarrow> 'h cached_file \<Rightarrow> 'h cached_file \<Rightarrow> bool" where
  "ready s e f f' \<longleftrightarrow> cache_ok f' \<and> cf_nOffset f' = cf_nOffset f \<and> nCacheMax f' = nCacheMax f \<and> cf_bEOF f' = cf_bEOF f \<and>
     length (apoCache f) \<le> length (apoCache f') \<and> (\<forall>i. \<not> missing f i \<longrightarrow> \<not> missing f' i) \<and>
     (\<forall>i. s \<le> i \<longrightarrow> i \<le> e \<longrightarrow> i < length (apoCache f') \<and> (missing f' i \<longrightarrow> length data \<le> i * CHUNK_SIZE))"

lemma loaded_keeps:
  assumes "loaded s n f f'" "\<forall>i. s \<le> i \<longrightarrow> i < s + n \<longrightarrow> missing f i"
  shows "\<not> missing f i \<Longrightarrow> \<not> missing f' i"
  using assms by (cases "i < s \<or> s + n \<le> i") (auto simp: loaded_def)

lemma load_loop_ok:
  assumes "cache_ok f" "(e + 1) * CHUNK_SIZE < 2 ^ 63" "e < vmax"
  shows "\<exists>f'. load_loop B vmax buf e i f = Some f' \<and> ready i e f f'"
  using assms
proof (induction "Suc e - i" arbitrary: i f)
  case 0
  then show ?case by (subst load_loop.simps) (simp add: ready_def)
next
  case (Suc m)
  then have ie: "i \<le> e" by simp
  have "\<exists>g. (if missing f i then map_option snd (LoadBlocks B vmax i (blocks_to_load f i e 1) buf f) else Some f) = Some g \<and> ready i i f g"
  proof (cases "missing f i")
    case False
    then show ?thesis using Suc.prems(1) by (auto simp: ready_def missing_def)
  next
    case True
    let ?n = "blocks_to_load f i e 1"
    have "\<forall>j. i \<le> j \<longrightarrow> j < i + 1 \<longrightarrow> missing f j" using True by (auto simp: less_Suc_eq)
    from blocks_to_load_range [OF _ _ this, of e] ie have n: "1 \<le> ?n" "i + ?n \<le> Suc e"
      "\<forall>j. i \<le> j \<longrightarrow> j < i + ?n \<longrightarrow> missing f j" by auto
    have "(i + ?n) * CHUNK_SIZE \<le> (e + 1) * CHUNK_SIZE" using n(2) by (intro mult_le_mono1) simp
    then have small: "(i + ?n) * CHUNK_SIZE < 2 ^ 63" using Suc.prems(2) by linarith
    have room: "i + ?n \<le> vmax" using n(2) Suc.prems(3) by simp
    obtain r g where g: "LoadBlocks B vmax i ?n buf f = Some (r, g)" "loaded i ?n f g" "i + ?n \<le> length (apoCache g)"
      using LoadBlocks_ok [OF Suc.prems(1) small room n(3), of buf] n(1) by auto
    have "ready i i f g" using g(2,3) n(1) loaded_keeps [OF g(2) n(3)] by (auto simp: ready_def loaded_def)
    then show ?thesis using g(1) True by auto
  qed
  then obtain g where g: "(if missing f i then map_option snd (LoadBlocks B vmax i (blocks_to_load f i e 1) buf f) else Some f) = Some g"
    "ready i i f g" by blast
  have "\<exists>f'. load_loop B vmax buf e (Suc i) g = Some f' \<and> ready (Suc i) e g f'"
    by (rule Suc.hyps(1)) (use Suc.hyps(2) Suc.prems g(2) in \<open>auto simp: ready_def\<close>)
  then obtain f' where f': "load_loop B vmax buf e (Suc i) g = Some f'" "ready (Suc i) e g f'" by blast
  have "load_loop B vmax buf e i f = Some f'" using ie f'(1) by (subst load_loop.simps) (simp add: g(1))
  moreover have "ready i e f f'" unfolding ready_def
  proof (intro conjI allI impI)
    fix j assume j: "i \<le> j" "j \<le> e"
    show "j < length (apoCache f')"
      using f'(2) g(2) j by (cases "j = i") (auto simp: ready_def)
    show "length data \<le> j * CHUNK_SIZE" if "missing f' j"
      using f'(2) g(2) j that by (cases "j = i") (auto simp: ready_def)
  qed (use f'(2) g(2) in \<open>auto simp: ready_def\<close>)
  ultimately show ?case by blast
qed

lemma block_part:
  assumes "q \<le> length data" "i = q div CHUNK_SIZE"
  shows "i * CHUNK_SIZE \<le> q" "q < i * CHUNK_SIZE + CHUNK_SIZE" "q \<le> i * CHUNK_SIZE + length (block_data i)"
    "t \<le> i * CHUNK_SIZE + length (block_data i) - q \<Longrightarrow> take t (drop (q - i * CHUNK_SIZE) (block_data i)) = take t (drop q data)"
    "q = i * CHUNK_SIZE + length (block_data i) \<Longrightarrow> drop q data = []"
proof -
  have pos_chunk: "0 < CHUNK_SIZE" by (simp add: CHUNK_SIZE_def)
  show a: "i * CHUNK_SIZE \<le> q" unfolding assms(2) by simp
  show b: "q < i * CHUNK_SIZE + CHUNK_SIZE"
    unfolding assms(2) using pos_chunk by (metis add.commute dividend_less_div_times)
  have l: "length (block_data i) = min CHUNK_SIZE (length data - i * CHUNK_SIZE)" by (rule length_block)
  show "q \<le> i * CHUNK_SIZE + length (block_data i)" using a b assms(1) l by (auto simp: min_def)
  show "take t (drop (q - i * CHUNK_SIZE) (block_data i)) = take t (drop q data)"
    if "t \<le> i * CHUNK_SIZE + length (block_data i) - q"
  proof -
    have "t \<le> CHUNK_SIZE - (q - i * CHUNK_SIZE)" using that a b l by (auto simp: min_def split: if_splits)
    then show ?thesis using a by (simp add: block_data_def drop_take min_def)
  qed
  show "drop q data = []" if "q = i * CHUNK_SIZE + length (block_data i)"
    using that b l by (auto simp: min_def split: if_splits)
qed


lemma held_chunk:
  assumes "cache_ok f" "i < length (apoCache f)" "apoCache f ! i = Some b"
  obtains c where "chunks f b = Some c" "abyData c = block_data i" "nDataFilled c = length (block_data i)"
proof -
  have "held (apoCache f) (chunks f)" using assms(1) by (simp add: cache_ok_def)
  then obtain c where "chunks f b = Some c" "iBlock c = i" "chunk_ok (apoCache f) b c"
    using assms(2,3) unfolding held_def by metis
  then show thesis by (intro that) (auto simp: chunk_ok_def)
qed

text \<open>The chunk for a position inside the request, loaded if it is not there.\<close>

lemma fetch_chunk:
  assumes ok: "cache_ok f" and i: "i < length (apoCache f)" and small: "(i + 1) * CHUNK_SIZE < 2 ^ 63" and room: "i < vmax"
  obtains g b c where "(case apoCache f ! i of None \<Rightarrow> map_option snd (LoadBlocks B vmax i 1 buf f) | Some b \<Rightarrow> Some f) = Some g"
    "apoCache g ! i = Some b" "chunks g b = Some c" "abyData c = block_data i" "nDataFilled c = length (block_data i)"
    "cache_ok g" "cf_nOffset g = cf_nOffset f" "nCacheMax g = nCacheMax f" "cf_bEOF g = cf_bEOF f" "length (apoCache f) \<le> length (apoCache g)"
proof (cases "apoCache f ! i")
  case (Some b)
  obtain c where "chunks f b = Some c" "abyData c = block_data i" "nDataFilled c = length (block_data i)"
    by (rule held_chunk [OF ok i Some])
  with Some ok show thesis by (intro that [of f b c]) simp_all
next
  case None
  have m: "\<forall>j. i \<le> j \<longrightarrow> j < i + 1 \<longrightarrow> missing f j" using None by (auto simp: missing_def less_Suc_eq)
  have "i + 1 \<le> vmax" using room by simp
  from LoadBlocks_ok [OF ok small this m, of buf] obtain r g where
    g: "LoadBlocks B vmax i 1 buf f = Some (r, g)" "loaded i 1 f g" "\<not> missing g i" by auto
  then obtain b where ib: "i < length (apoCache g)" "apoCache g ! i = Some b" by (auto simp: missing_def)
  have okg: "cache_ok g" using g(2) by (simp add: loaded_def)
  obtain c where "chunks g b = Some c" "abyData c = block_data i" "nDataFilled c = length (block_data i)"
    by (rule held_chunk [OF okg ib])
  with g ib okg None show thesis by (intro that [of g b c]) (simp_all add: loaded_def)
qed

lemma wrapped_rest:
  assumes "q \<le> e" "e < 2 ^ 63"
  shows "u64 (e + (2 ^ 64 - q)) = e - q"
proof -
  have eq: "e + (2 ^ 64 - q) = (e - q) + 2 ^ 64" using assms by simp
  have "e - q < 2 ^ 64" using assms by simp
  then show ?thesis unfolding u64_def eq mod_add_self2 by (rule mod_less)
qed

lemma take_join:
  assumes "k + t \<le> n"
  shows "take t (drop q D) @ take (n - (k + t)) (drop (q + t) D) = take (n - k) (drop q D)"
proof -
  have "n - k = t + (n - (k + t))" using assms by simp
  then show ?thesis using take_add [of t "n - (k + t)" "drop q D"] by (simp add: add.commute)
qed

lemma copy_loop_ok:
  assumes "cache_ok f" "cf_nOffset f = p" "p + k \<le> length data" "k \<le> n" "p + n < 2 ^ 62"
    and "\<forall>i. p div CHUNK_SIZE \<le> i \<longrightarrow> i \<le> (p + n - 1) div CHUNK_SIZE \<longrightarrow> i < length (apoCache f)"
    and "(p + n) div CHUNK_SIZE < vmax"
  shows "\<exists>f'. copy_loop B vmax n k f = Some (take (n - k) (drop (p + k) data), f') \<and> cache_ok f' \<and> cf_nOffset f' = p \<and>
    nCacheMax f' = nCacheMax f \<and> cf_bEOF f' = cf_bEOF f"
  using assms
proof (induction "n - k" arbitrary: k f rule: less_induct)
  case less
  show ?case
  proof (cases "n \<le> k")
    case True
    then show ?thesis using less.prems by (subst copy_loop.simps) simp
  next
    case False
    let ?q = "p + k" let ?i = "?q div CHUNK_SIZE"
    note blk = block_part [OF less.prems(3) refl]
    have u: "u64 ?q = ?q" using less.prems(4,5) by (simp add: u64_def)
    have c15: "CHUNK_SIZE = 32768" by (simp add: CHUNK_SIZE_def)
    have lp: "p + n < 4611686018427387904" using less.prems(5) by simp
    have i_in: "p div CHUNK_SIZE \<le> ?i" "?i \<le> (p + n - 1) div CHUNK_SIZE" using False by (auto intro: div_le_mono)
    then have il: "?i < length (apoCache f)" using less.prems(6) by blast
    have "(?i + 1) * CHUNK_SIZE \<le> ?q + CHUNK_SIZE" using blk(1) by simp
    then have "(?i + 1) * CHUNK_SIZE < 9223372036854775808" using less.prems(4) lp c15 by linarith
    then have small: "(?i + 1) * CHUNK_SIZE < 2 ^ 63" by simp
    have "?i \<le> (p + n) div CHUNK_SIZE" using less.prems(4) by (intro div_le_mono) simp
    then have iv: "?i < vmax" using less.prems(7) by linarith
    obtain g b c where g: "(case apoCache f ! ?i of None \<Rightarrow> map_option snd (LoadBlocks B vmax ?i 1 (min (n - k) CHUNK_SIZE) f)
            | Some b \<Rightarrow> Some f) = Some g"
        "apoCache g ! ?i = Some b" "chunks g b = Some c" "abyData c = block_data ?i" "nDataFilled c = length (block_data ?i)"
        "cache_ok g" "cf_nOffset g = cf_nOffset f" "nCacheMax g = nCacheMax f" "cf_bEOF g = cf_bEOF f"
        "length (apoCache f) \<le> length (apoCache g)"
      by (rule fetch_chunk [OF less.prems(1) il small iv])
    let ?e = "?i * CHUNK_SIZE + length (block_data ?i)"
    have "length (block_data ?i) \<le> CHUNK_SIZE" by (simp add: length_block)
    then have e: "?e < 2 ^ 63" using small by (simp only: distrib_right mult_1)
    have amount: "u64 (?i * CHUNK_SIZE + nDataFilled c + (2 ^ 64 - u64 (cf_nOffset g + k))) = ?e - ?q"
      unfolding g(5,7) less.prems(2) u by (rule wrapped_rest [OF blk(3) e])
    let ?t = "min (?e - ?q) (n - k)"
    have kn: "k < n" using False by simp
    have step: "copy_loop B vmax n k f =
      (if ?t = 0 then Some ([], g) else if length (abyData c) < (?q - ?i * CHUNK_SIZE) + ?t then None
       else copy_loop B vmax n (k + ?t) g \<bind> (\<lambda>(d, f). Some (take ?t (drop (?q - ?i * CHUNK_SIZE) (abyData c)) @ d, f)))"
      by (rule copy_step [OF kn _ il g(1-3)]) (use amount in \<open>simp_all only: g(7) less.prems(2) u\<close>)
    show ?thesis
    proof (cases "?t = 0")
      case True
      then have "?q = ?e" using False blk(3) by (simp add: min_def split: if_splits)
      then have "drop ?q data = []" by (rule blk(5))
      then show ?thesis
        using step [unfolded if_P [OF True]] g(6-9) less.prems(2) by simp
    next
      case more: False
      have off: "?q - ?i * CHUNK_SIZE + ?t \<le> length (abyData c)" using blk(1,3) unfolding g(4) by linarith
      have part: "take ?t (drop (?q - ?i * CHUNK_SIZE) (abyData c)) = take ?t (drop ?q data)"
        unfolding g(4) by (rule blk(4)) simp
      have le: "?t \<le> length data - ?q" using length_block [of ?i] blk(1) by linarith
      have "\<exists>f'. copy_loop B vmax n (k + ?t) g = Some (take (n - (k + ?t)) (drop (p + (k + ?t)) data), f') \<and> cache_ok f' \<and>
        cf_nOffset f' = p \<and> nCacheMax f' = nCacheMax g \<and> cf_bEOF f' = cf_bEOF g"
      proof (rule less.hyps [OF _ g(6)])
        show "n - (k + ?t) < n - k" using more False by linarith
        show "cf_nOffset g = p" using g(7) less.prems(2) by simp
        show "p + (k + ?t) \<le> length data" using le less.prems(3) by linarith
        show "k + ?t \<le> n" using False by linarith
        show "\<forall>i. p div CHUNK_SIZE \<le> i \<longrightarrow> i \<le> (p + n - 1) div CHUNK_SIZE \<longrightarrow> i < length (apoCache g)"
          using less.prems(6) g(10) by (meson less_le_trans)
      qed (use less.prems in auto)
      then obtain f' where f': "copy_loop B vmax n (k + ?t) g = Some (take (n - (k + ?t)) (drop (p + (k + ?t)) data), f')"
        "cache_ok f'" "cf_nOffset f' = p" "nCacheMax f' = nCacheMax g" "cf_bEOF f' = cf_bEOF g" by blast
      have join: "take ?t (drop ?q data) @ take (n - (k + ?t)) (drop (p + (k + ?t)) data) = take (n - k) (drop ?q data)"
        using take_join [of k ?t n ?q data] False by (simp only: add.assoc)
      have "copy_loop B vmax n k f = Some (take ?t (drop (?q - ?i * CHUNK_SIZE) (abyData c)) @
          take (n - (k + ?t)) (drop (p + (k + ?t)) data), f')"
        unfolding step if_not_P [OF more] if_not_P [OF off [unfolded not_less [symmetric]]] f'(1) by (simp only: bind.simps prod.case)
      then show ?thesis using f' g(8,9) join part by simp
    qed
  qed
qed


section \<open>Shrinking\<close>

lemma FlushLRU_ok:
  assumes ok: "cache_ok f" and L: "list_ok f (b # bs)"
  shows "\<exists>f'. FlushLRU f = Some f' \<and> cache_ok f' \<and> list_ok f' bs \<and> cf_nOffset f' = cf_nOffset f \<and> nCacheMax f' = nCacheMax f \<and>
    cf_bEOF f' = cf_bEOF f"
proof -
  note l = L [unfolded list_ok_def]
  have ch: "chain (chunks f) (b # bs)" using l by blast
  from chain_head [OF ch] obtain c where c: "chunks f b = Some c" "poLRUPrev c = None" "poLRUNext c = first_chunk bs" by blast
  have h: "held (apoCache f) (chunks f)" using ok by (simp add: cache_ok_def)
  then have cok: "\<not> bDirty c" "iBlock c < length (apoCache f)" "apoCache f ! iBlock c = Some b"
    using c(1) by (auto simp: held_def chunk_ok_def)
  have used: "nCacheUsed f = nDataFilled c + sum_list (map (filled (chunks f)) bs)" using l c(1) by (simp add: filled_def)
  let ?H = "(chunks f)(b := None)" and ?V = "(apoCache f)[iBlock c := None]"
  let ?f = "f\<lparr>nCacheUsed := nCacheUsed f - nDataFilled c, poLRUStart := first_chunk bs,
      poLRUEnd := (if poLRUEnd f = Some b then None else poLRUEnd f)\<rparr>"
  have link: "upd_link (first_chunk bs) (poLRUPrev_update (\<lambda>_. None)) ?f = Some ?f"
  proof (cases bs)
    case Nil
    then show ?thesis by (simp add: upd_link_def first_chunk_def)
  next
    case (Cons b' bs')
    from chain_head [OF chain_tl [OF ch, unfolded Cons]] obtain c' where c': "chunks f b' = Some c'" "poLRUPrev c' = None" by blast
    then have "c'\<lparr>poLRUPrev := None\<rparr> = c'" by simp
    then show ?thesis using c' Cons by (simp add: upd_link_def upd_chunk_def first_chunk_def fun_upd_idem)
  qed
  have e: "FlushLRU f = Some (?f\<lparr>apoCache := ?V, chunks := ?H\<rparr>)"
    using l c cok link used by (simp add: FlushLRU_def first_chunk_def Let_def)
  have nb: "b \<notin> set bs" using l by simp
  have sums: "sum_list (map (filled ?H) bs) = sum_list (map (filled (chunks f)) bs)"
    using nb by (intro arg_cong [of _ _ sum_list] map_cong) (auto simp: filled_def)
  have "chain ?H bs" using chain_tl [OF ch] by (rule chain_cong) (use nb in auto)
  moreover have "set bs = dom ?H" using l nb by auto
  moreover have "(if last_chunk (b # bs) = Some b then None else last_chunk (b # bs)) = last_chunk bs"
    using nb by (cases bs rule: rev_cases) (auto simp: last_chunk_def)
  ultimately have lok: "list_ok (?f\<lparr>apoCache := ?V, chunks := ?H\<rparr>) bs"
    using l used sums by (auto simp: list_ok_def)
  have "held ?V ?H" unfolding held_def
  proof (intro conjI allI impI)
    fix x d assume d: "?H x = Some d"
    then have x: "x \<noteq> b" "chunk_ok (apoCache f) x d" using h by (auto simp: held_def split: if_splits)
    then have "iBlock d \<noteq> iBlock c" using cok(3) by (auto simp: chunk_ok_def)
    then show "chunk_ok ?V x d" using x(2) by (auto simp: chunk_ok_def)
  next
    fix i x assume i: "i < length ?V" "?V ! i = Some x"
    then have ni: "i \<noteq> iBlock c" using cok(2) by auto
    then have "apoCache f ! i = Some x" "i < length (apoCache f)" using i by auto
    with h obtain d where d: "chunks f x = Some d" "iBlock d = i" unfolding held_def by blast
    then have "x \<noteq> b" using ni c(1) by auto
    with d show "\<exists>d. ?H x = Some d \<and> iBlock d = i" by simp
  qed
  then have "cache_ok (?f\<lparr>apoCache := ?V, chunks := ?H\<rparr>)" using ok lok by (auto simp: cache_ok_def)
  then show ?thesis using e lok by simp
qed

lemma shrink_ok:
  assumes "cache_ok f" "list_ok f L"
  shows "\<exists>f'. shrink_cache f = Some f' \<and> cache_ok f' \<and> nCacheUsed f' \<le> nCacheMax f' \<and> cf_nOffset f' = cf_nOffset f \<and>
    nCacheMax f' = nCacheMax f \<and> cf_bEOF f' = cf_bEOF f"
  using assms
proof (induction L arbitrary: f)
  case Nil
  then have "nCacheUsed f = 0" by (simp add: list_ok_def)
  then show ?case using Nil by (subst shrink_cache.simps) simp
next
  case (Cons b bs)
  show ?case
  proof (cases "nCacheUsed f > nCacheMax f")
    case False
    then show ?thesis using Cons.prems by (subst shrink_cache.simps) simp
  next
    case True
    from FlushLRU_ok [OF Cons.prems] obtain g where g: "FlushLRU f = Some g" "cache_ok g" "list_ok g bs" "cf_nOffset g = cf_nOffset f"
      "nCacheMax g = nCacheMax f" "cf_bEOF g = cf_bEOF f" by blast
    from Cons.IH [OF g(2,3)] True g show ?thesis by (subst shrink_cache.simps) auto
  qed
qed

section \<open>Reading\<close>

lemma CachedRead_ok:
  assumes ok: "cache_ok f" and p: "cf_nOffset f + nSize * nCount < 2 ^ 62" and n: "0 < nSize" "0 < nCount"
    and room: "(cf_nOffset f + nSize * nCount) div CHUNK_SIZE < vmax"
  defines "d \<equiv> take (nSize * nCount) (drop (cf_nOffset f) data)"
  shows "\<exists>f'. CachedRead B vmax nSize nCount f = Some ((length d div nSize, d), f') \<and> cache_ok f' \<and>
    cf_nOffset f' = cf_nOffset f + length d \<and> cf_bEOF f' = (cf_bEOF f \<or> length d div nSize \<noteq> nCount) \<and> nCacheMax f' = nCacheMax f \<and>
    (nCacheUsed f \<le> nCacheMax f \<longrightarrow> nCacheUsed f' \<le> nCacheMax f')"
proof (cases "nFileSize f \<le> cf_nOffset f")
  case True
  then have "d = []" using ok by (simp add: cache_ok_def d_def)
  then show ?thesis using True ok n by (simp add: CachedRead_def cache_ok_def list_ok_def)
next
  case False
  let ?p = "cf_nOffset f" and ?n = "nSize * nCount"
  have n1: "1 \<le> ?n" using n by simp
  have size: "nFileSize f = length data" using ok by (simp add: cache_ok_def)
  have lp: "?p + ?n < 4611686018427387904" using p by simp
  have un: "u64 ?n = ?n" using lp by (simp add: u64_def)
  have stop: "u64 (?p + ?n + (2 ^ 64 - 1)) = ?p + ?n - 1"
  proof -
    have eq: "?p + ?n + (2 ^ 64 - 1) = (?p + ?n - 1) + 2 ^ 64" using n1 by simp
    have "?p + ?n - 1 < 2 ^ 64" using lp by simp
    then show ?thesis unfolding u64_def eq mod_add_self2 by (rule mod_less)
  qed
  let ?e = "(?p + ?n - 1) div CHUNK_SIZE"
  have c15: "CHUNK_SIZE = 32768" by (simp add: CHUNK_SIZE_def)
  have "?e * CHUNK_SIZE \<le> ?p + ?n - 1" by simp
  then have "(?e + 1) * CHUNK_SIZE < 9223372036854775808" using lp c15 by (simp only: distrib_right mult_1)
  then have small: "(?e + 1) * CHUNK_SIZE < 2 ^ 63" by simp
  have "?e \<le> (?p + ?n) div CHUNK_SIZE" by (intro div_le_mono) simp
  then have ev: "?e < vmax" using room by linarith
  obtain g where g: "load_loop B vmax ?n ?e (?p div CHUNK_SIZE) f = Some g" "ready (?p div CHUNK_SIZE) ?e f g"
    using load_loop_ok [OF ok small ev] by blast
  have okg: "cache_ok g" and same: "cf_nOffset g = ?p" "nCacheMax g = nCacheMax f" "cf_bEOF g = cf_bEOF f" using g(2) by (simp_all add: ready_def)
  have "?p + 0 \<le> length data" using False size by simp
  from copy_loop_ok [OF okg same(1) this le0 p _ room] obtain h where
    h: "copy_loop B vmax ?n 0 g = Some (d, h)" "cache_ok h" "cf_nOffset h = ?p" "nCacheMax h = nCacheMax f" "cf_bEOF h = cf_bEOF f"
    using g(2) same by (auto simp: ready_def d_def)
  have ld: "length d \<le> ?n" by (simp add: d_def)
  have ul: "u64 (cf_nOffset h + length d) = ?p + length d" using ld lp h(3) by (simp add: u64_def)
  have "cache_ok (h\<lparr>cf_nOffset := u64 (cf_nOffset h + length d)\<rparr>)" using h(2) by (simp add: cache_ok_def list_ok_def)
  moreover obtain L where "list_ok h L" using h(2) by (auto simp: cache_ok_def)
  then have "list_ok (h\<lparr>cf_nOffset := u64 (cf_nOffset h + length d)\<rparr>) L" by (simp add: list_ok_def)
  ultimately obtain k where k: "shrink_cache (h\<lparr>cf_nOffset := u64 (cf_nOffset h + length d)\<rparr>) = Some k" "cache_ok k"
    "nCacheUsed k \<le> nCacheMax k" "cf_nOffset k = ?p + length d" "nCacheMax k = nCacheMax f" "cf_bEOF k = cf_bEOF f"
    using shrink_ok [of "h\<lparr>cf_nOffset := u64 (cf_nOffset h + length d)\<rparr>" L] ul h(4,5) by auto
  have "CachedRead B vmax nSize nCount f =
      Some ((length d div nSize, d), if length d div nSize \<noteq> nCount then k\<lparr>cf_bEOF := True\<rparr> else k)"
    using False n(1) g(1) h(1) k(1) by (simp only: CachedRead_def un stop Let_def) simp
  then show ?thesis using k by (auto simp: cache_ok_def list_ok_def)
qed


section \<open>Clients\<close>

lemma CachedSeek_ok:
  assumes "cache_ok f" "plain_seek (length data) n w (cf_nOffset f) < 2 ^ 62"
  shows "cache_ok (CachedSeek n w f)" "cf_nOffset (CachedSeek n w f) = plain_seek (length data) n w (cf_nOffset f)"
    "\<not> cf_bEOF (CachedSeek n w f)" "nCacheUsed (CachedSeek n w f) = nCacheUsed f" "nCacheMax (CachedSeek n w f) = nCacheMax f"
proof -
  have "nFileSize f = length data" using assms(1) by (simp add: cache_ok_def)
  then show "cf_nOffset (CachedSeek n w f) = plain_seek (length data) n w (cf_nOffset f)"
    using assms(2) by (auto simp: CachedSeek_def plain_seek_def u64_def split: whence.splits)
  show "cache_ok (CachedSeek n w f)" using assms(1) by (simp add: CachedSeek_def cache_ok_def list_ok_def)
qed (simp_all add: CachedSeek_def)

lemma cached_run_ok:
  assumes "cache_ok f" "nCacheUsed f \<le> nCacheMax f" "plain_allowed vmax data ops (cf_nOffset f)"
  shows "\<exists>f'. cached_run B vmax ops f = Some (plain_run data ops (cf_nOffset f) (cf_bEOF f), f') \<and> cache_ok f' \<and>
    nCacheUsed f' \<le> nCacheMax f' \<and> nCacheMax f' = nCacheMax f"
  using assms
proof (induction ops arbitrary: f)
  case (Cons op ops)
  show ?case
  proof (cases op)
    case (CSeek n w)
    then have "plain_seek (length data) n w (cf_nOffset f) < 2 ^ 62" using Cons.prems(3) by simp
    note s = CachedSeek_ok [OF Cons.prems(1) this]
    from Cons.IH [OF s(1)] Cons.prems s(2-5) CSeek show ?thesis by simp
  next
    case (CRead nSize nCount)
    let ?d = "take (nSize * nCount) (drop (cf_nOffset f) data)"
    have p: "cf_nOffset f + nSize * nCount < 2 ^ 62" "0 < nSize" "0 < nCount" "(cf_nOffset f + nSize * nCount) div CHUNK_SIZE < vmax"
      "plain_allowed vmax data ops (cf_nOffset f + length ?d)" using Cons.prems(3) CRead by simp_all
    obtain g where g: "CachedRead B vmax nSize nCount f = Some ((length ?d div nSize, ?d), g)" "cache_ok g"
        "cf_nOffset g = cf_nOffset f + length ?d" "cf_bEOF g = (cf_bEOF f \<or> length ?d div nSize \<noteq> nCount)" "nCacheMax g = nCacheMax f"
        "nCacheUsed g \<le> nCacheMax g"
      using CachedRead_ok [OF Cons.prems(1) p(1-4)] Cons.prems(2) by blast
    obtain f' where f': "cached_run B vmax ops g = Some (plain_run data ops (cf_nOffset g) (cf_bEOF g), f')" "cache_ok f'"
        "nCacheUsed f' \<le> nCacheMax f'" "nCacheMax f' = nCacheMax g"
      using Cons.IH [OF g(2,6)] p(5) unfolding g(3) by blast
    have "cached_run B vmax (op # ops) f = Some (plain_run data (op # ops) (cf_nOffset f) (cf_bEOF f), f')"
      using g(1) f'(1) by (simp only: CRead cached_run.simps plain_run.simps Let_def g(3,4) CachedEof_def bind.simps prod.case)
    then show ?thesis using f' g(5) by simp
  qed
qed simp

lemma cached_file_ok:
  assumes "valid h" "plain_allowed vmax data ops 0"
  shows "\<exists>f f'. VSICachedFile B m h = Some f \<and> cached_run B vmax ops f = Some (plain_run data ops 0 False, f') \<and>
    nCacheUsed f' \<le> m"
proof -
  from new_cached [OF assms(1), of m] obtain f where f: "VSICachedFile B m h = Some f" "cache_ok f" "cf_nOffset f = 0" "\<not> cf_bEOF f"
    "nCacheUsed f = 0" "nCacheMax f = m" by blast
  from cached_run_ok [OF f(2), of vmax ops] f assms(2) show ?thesis by auto
qed

end

end
