(* ===== verification/Cpl_Vsil_Cache_Props.thy ===== *)
theory Cpl_Vsil_Cache_Props
  imports Cpl_Vsil_Cache_Read Cpl_Vsi_Mem_Props
begin

text \<open>
  The caching handle over a file in memory: a read-only handle of \<open>Cpl_Vsi_Mem\<close> meets the contract \<open>stable_base\<close>, so
  reading through the cache gives the contents of the file.
\<close>

section \<open>A file in memory as base\<close>

definition mem_base :: "heap_env \<Rightarrow> nat \<Rightarrow> mem_fs base_ops" where
  "mem_base env h = \<lparr>base_Seek = (\<lambda>n s. Seek env h (of_nat n) SEEK_SET s), base_SeekEnd = (\<lambda>s. Seek env h 0 SEEK_END s),
     base_Tell = (\<lambda>s. map_option unat (Tell h s)),
     base_Read = (\<lambda>n s. map_option (\<lambda>((k, d), s). ((unat k, d), s)) (MemRead h 1 (of_nat n) s)),
     base_Close = (\<lambda>s. VSIFCloseL h s)\<rparr>"

definition read_only :: "nat \<Rightarrow> nat \<Rightarrow> byte list \<Rightarrow> mem_fs \<Rightarrow> bool" where
  "read_only h f D s \<longleftrightarrow> mem_inv s \<and> contents s f = D \<and> (\<exists>x. handles s h = Some x \<and> poFile x = Some f \<and> \<not> bUpdate x)"

definition handle_pos :: "nat \<Rightarrow> mem_fs \<Rightarrow> nat" where
  "handle_pos h s = (case handles s h of None \<Rightarrow> 0 | Some x \<Rightarrow> unat (nOffset x))"

lemma read_only_put:
  assumes "read_only h f D s" "poFile x = Some f" "\<not> bUpdate x"
  shows "read_only h f D (put_handle h x s)"
proof -
  obtain x0 where x0: "handles s h = Some x0" "poFile x0 = Some f" using assms(1) by (auto simp: read_only_def)
  have i: "mem_inv s" using assms(1) by (simp add: read_only_def)
  have "mem_inv (put_handle h x s)"
    by (rule mem_invI [OF same_refs_put_handle [OF x0(1)] i]) (simp_all add: assms(2) x0 mem_inv_data [OF i])
  then show ?thesis using assms by (auto simp: read_only_def)
qed

lemma seek_read_only:
  assumes r: "read_only h f D s" and t: "\<And>x m. files s f = Some m \<Longrightarrow> seek_target x m off w = Some t"
  shows "\<exists>r s'. Seek env h off w s = Some (r, s') \<and> read_only h f D s' \<and> handle_pos h s' = min (unat t) (length D) \<and>
    (r = 0 \<longleftrightarrow> unat t \<le> length D)"
proof -
  obtain x where x: "handles s h = Some x" "poFile x = Some f" "\<not> bUpdate x" and i: "mem_inv s" and D: "contents s f = D"
    using r by (auto simp: read_only_def)
  obtain m where m: "files s f = Some m" and o: "open_file h s = Some (x, f, m)" by (rule opened_inv [OF i x(1,2)])
  have len: "length D = unat (nLength m)" using contents_length(1) [OF mem_inv_data [OF i] m] D by simp
  let ?x = "x\<lparr>nOffset := t, bEOF := False\<rparr>" let ?s = "put_handle h ?x s"
  have ro: "read_only h f D ?s" by (rule read_only_put [OF r]) (simp_all add: x)
  show ?thesis
  proof (cases "nLength m < t")
    case False
    then have "unat t \<le> length D" by (simp add: len word_le_nat_alt not_less)
    then show ?thesis using False ro t [OF m] by (simp add: Seek_def o Let_def handle_pos_def)
  next
    case True
    then have more: "length D < unat t" by (simp add: len word_less_nat_alt)
    let ?t = "set_errno EACCES (put_handle h (?x\<lparr>nOffset := nLength m\<rparr>) ?s)"
    have "read_only h f D (put_handle h (?x\<lparr>nOffset := nLength m\<rparr>) ?s)" by (rule read_only_put [OF ro]) (simp_all add: x)
    then have "read_only h f D ?t" using errno_inv by (auto simp: read_only_def)
    then show ?thesis using True more t [OF m] x(3) len by (simp add: Seek_def o Let_def handle_pos_def)
  qed
qed

interpretation mem_file: stable_base "mem_base env h" "read_only h f D" "handle_pos h" D for env h f D
proof
  fix s k assume r: "read_only h f D s" and k: "k < (2 :: nat) ^ 63"
  have "unat (of_nat k :: vsi_l_offset) = k" using k by (simp add: unsigned_of_nat take_bit_nat_eq_self)
  then show "\<exists>r s'. base_Seek (mem_base env h) k s = Some (r, s') \<and> read_only h f D s' \<and>
      handle_pos h s' = min k (length D) \<and> (r = 0 \<longleftrightarrow> k \<le> length D)"
    using seek_read_only [OF r, of "of_nat k" SEEK_SET "of_nat k" env] by (simp add: mem_base_def seek_target_def)
next
  fix s assume r: "read_only h f D s"
  then obtain m where m: "files s f = Some m" by (auto simp: read_only_def elim: opened_inv)
  have i: "mem_inv s" and D: "contents s f = D" using r by (simp_all add: read_only_def)
  have len: "length D = unat (nLength m)" using contents_length(1) [OF mem_inv_data [OF i] m] D by simp
  obtain q s' where s': "Seek env h 0 SEEK_END s = Some (q, s')" "read_only h f D s'" "handle_pos h s' = length D"
    using seek_read_only [OF r, of 0 SEEK_END "nLength m" env] m len by (auto simp: seek_target_def)
  then show "\<exists>r s'. base_SeekEnd (mem_base env h) s = Some (r, s') \<and> read_only h f D s' \<and> base_Tell (mem_base env h) s' = Some (length D)"
    by (auto simp: mem_base_def Tell_def handle_pos_def read_only_def)
next
  fix s n assume r: "read_only h f D s" and n: "n + handle_pos h s < 2 ^ 63"
  obtain x where x: "handles s h = Some x" "poFile x = Some f" "\<not> bUpdate x" and i: "mem_inv s" and D: "contents s f = D"
    using r by (auto simp: read_only_def)
  obtain m where o: "open_file h s = Some (x, f, m)" by (rule opened_inv [OF i x(1,2)])
  have p: "handle_pos h s = unat (nOffset x)" by (simp add: handle_pos_def x(1))
  have un: "unat (of_nat n :: vsi_l_offset) = n" using n by (simp add: unsigned_of_nat take_bit_nat_eq_self)
  have "fits63 (uint (1 :: vsi_l_offset) * uint (of_nat n :: vsi_l_offset) + uint (nOffset x))"
    using n un p by (simp only: uint_nat unat_1 mult_1 of_nat_1 fits63_int flip: of_nat_add)
  from MemRead_ok [OF i o this] obtain k d x' where m: "MemRead h 1 (of_nat n) s = Some ((k, d), put_handle h x' s)" "poFile x' = Some f"
      "d = take (unat (1 :: vsi_l_offset) * unat (of_nat n :: vsi_l_offset)) (drop (unat (nOffset x)) (contents s f))" "bUpdate x' = bUpdate x"
      "(1 :: vsi_l_offset) = 1 \<longrightarrow> unat k = length d" by blast
  have d: "d = take n (drop (handle_pos h s) D)" using m(3) un p D by simp
  have "read_only h f D (put_handle h x' s)" by (rule read_only_put [OF r m(2)]) (simp add: m(4) x(3))
  then show "\<exists>s'. base_Read (mem_base env h) n s =
      Some ((length (take n (drop (handle_pos h s) D)), take n (drop (handle_pos h s) D)), s') \<and> read_only h f D s'"
    using m(1,5) by (simp add: mem_base_def d)
qed


section \<open>What clients see\<close>

text \<open>C38: Through the caching handle over a read-only handle of a file in memory, any sequence of seeks and reads (of at least one
  byte, at positions below 2 to the 62 and within the chunks that the vector can hold) answers with the counts, bytes and
  end-of-file flags of the contents of the file, whatever was cached or dropped before, and the cached bytes stay within the
  limit.\<close>

theorem cached_file_transparent:
  assumes r: "vsi_reachable s" and h: "handles s h = Some x" "poFile x = Some f" "\<not> bUpdate x"
    and a: "plain_allowed vmax (contents s f) ops 0"
  shows "\<exists>c c'. VSICachedFile (mem_base env h) m s = Some c \<and>
    cached_run (mem_base env h) vmax ops c = Some (plain_run (contents s f) ops 0 False, c') \<and> nCacheUsed c' \<le> m"
proof -
  have "read_only h f (contents s f) s" using h reachable_inv [OF r] by (simp add: read_only_def)
  then show ?thesis using a by (rule mem_file.cached_file_ok)
qed

lemma blocks_all_missing:
  assumes "\<forall>j. missing f j" "i + n \<le> Suc e"
  shows "i + blocks_to_load f i e n = Suc e"
  using assms
proof (induction f i e n rule: blocks_to_load.induct)
  case (1 f i e n)
  show ?case
  proof (cases "i + n \<le> e")
    case True
    with 1 show ?thesis by (subst blocks_to_load.simps) simp
  next
    case False
    with 1(3) show ?thesis by (subst blocks_to_load.simps) simp
  qed
qed

text \<open>Reading no elements at the start of a non-empty file that was just opened fails: the last chunk of the request is
  computed as the one before the first, so that all chunks of 2 to the 64 bytes are to be loaded.\<close>

theorem cached_zero_read_fails:
  assumes f: "VSICachedFile B m h = Some f" and n: "0 < nFileSize f" and v: "vmax < 2 ^ 49"
  shows "CachedRead B vmax nSize 0 f = None"
proof -
  have e: "apoCache f = []" "cf_nOffset f = 0" using f by (auto simp: VSICachedFile_def bind_eq_Some_conv)
  then have miss: "\<forall>j. missing f j" by (simp add: missing_def)
  define stop :: nat where "stop = 2 ^ 49 - 1"
  have u: "u64 (nSize * 0) = 0" "u64 (0 + 0 + (2 ^ 64 - 1)) div CHUNK_SIZE = stop" by (simp_all add: u64_def CHUNK_SIZE_def stop_def)
  have "0 + blocks_to_load f 0 stop 1 = Suc stop" by (rule blocks_all_missing [OF miss]) simp
  then have b: "blocks_to_load f 0 stop 1 = 2 ^ 49" by (simp add: stop_def)
  have "resize_cache vmax (0 + 2 ^ 49) f = None" using v by (simp add: resize_cache_def e)
  then have "LoadBlocks B vmax 0 (2 ^ 49) 0 f = None" by (subst LoadBlocks.simps) simp
  then have "load_loop B vmax 0 stop 0 f = None"
    using miss b by (subst load_loop.simps) (simp add: stop_def)
  then show ?thesis using n unfolding CachedRead_def e(2) u Let_def by (simp add: e)
qed

section \<open>Concrete states\<close>

text \<open>The file of \<open>small_fs\<close> opened once more for reading.\<close>

definition small_open :: mem_fs where
  "small_open = small_fs\<lparr>files := (files small_fs)(1 \<mapsto> (the (files small_fs 1))\<lparr>nRefCount := 3\<rparr>),
     handles := (handles small_fs)(3 \<mapsto> \<lparr>poFile = Some 1, nOffset = 0, bUpdate = False, bEOF = False\<rparr>), next_id := 4\<rparr>"

lemma small_open_reachable: "vsi_reachable small_open"
proof (rule vsi_step [OF small_fs_reachable, of "VOpen ''/v/a'' ''r''"])
  show "vsi_exec heap_all (VOpen ''/v/a'' ''r'') small_fs = Some small_open"
    by (simp add: Open_def Let_def NormalizePath_def small_fs_def put_file_def put_handle_def small_open_def)
qed simp

lemma small_open_handle:
  "handles small_open 3 = Some \<lparr>poFile = Some 1, nOffset = 0, bUpdate = False, bEOF = False\<rparr>" "contents small_open 1 = [1, 2, 3]"
  by (simp_all add: small_open_def small_fs_def contents_def file_data_def)

theorem cached_file_transparent_witness:
  "\<exists>c c'. VSICachedFile (mem_base heap_all 3) 100 small_open = Some c \<and>
    cached_run (mem_base heap_all 3) 10 [CRead 1 2, CSeek 1 SEEK_SET, CRead 2 2] c =
      Some ([(2, [1, 2], False), (1, [2, 3], True)], c') \<and> nCacheUsed c' \<le> 100"
proof -
  have "plain_allowed 10 (contents small_open 1) [CRead 1 2, CSeek 1 SEEK_SET, CRead 2 2] 0"
    by (simp add: plain_seek_def CHUNK_SIZE_def)
  moreover have "plain_run (contents small_open 1) [CRead 1 2, CSeek 1 SEEK_SET, CRead 2 2] 0 False = [(2, [1, 2], False), (1, [2, 3], True)]"
    unfolding small_open_handle(2) by (simp add: plain_seek_def Let_def)
  ultimately show ?thesis
    using cached_file_transparent [OF small_open_reachable small_open_handle(1), of 1 10 "[CRead 1 2, CSeek 1 SEEK_SET, CRead 2 2]" heap_all 100]
    by simp
qed

theorem cached_zero_read_fails_witness:
  "\<exists>c. VSICachedFile (mem_base heap_all 3) 100 small_open = Some c \<and> CachedRead (mem_base heap_all 3) (2 ^ 40) 1 0 c = None"
proof -
  have "read_only 3 1 [1, 2, 3] small_open"
    using small_open_handle reachable_inv [OF small_open_reachable] by (simp add: read_only_def)
  from mem_file.new_cached [OF this, of heap_all 100] obtain c where
    c: "VSICachedFile (mem_base heap_all 3) 100 small_open = Some c" "nFileSize c = length [1, 2, 3 :: byte]"
    by (auto simp: mem_file.cache_ok_def)
  have "CachedRead (mem_base heap_all 3) (2 ^ 40) 1 0 c = None"
    by (rule cached_zero_read_fails [OF c(1)]) (simp_all add: c(2))
  with c(1) show ?thesis by blast
qed

end
