(* ===== verification/Gdal_Polygon_Enum.thy ===== *)
theory Gdal_Polygon_Enum
  imports Cpl_Prelude "HOL-Library.Monad_Syntax"
begin

text \<open>
  The polygon enumerator of \<^verbatim>\<open>alg/gdalrasterpolygonenumerator.cpp\<close>: it numbers the connected regions of equal value of a
  raster, one line at a time, in a forest of numbers whose roots stand for regions. The arrays \<^verbatim>\<open>panPolyIdMap\<close> and
  \<^verbatim>\<open>panPolyValue\<close> are lists of their first \<^verbatim>\<open>nNextPolygonId\<close> cells, the ones that were written; a read elsewhere, a loop
  that does not end and an allocation whose size overflows an \<^verbatim>\<open>int\<close> (it aborts the program) have the value \<open>None\<close>.
\<close>

section \<open>Definitions\<close>

definition cell :: "'a list \<Rightarrow> nat \<Rightarrow> 'a option" where
  "cell xs i = (if i < length xs then Some (xs ! i) else None)"

record GDALRasterPolygonEnumerator =
  panPolyIdMap :: "nat list"
  panPolyValue :: "int list"
  nNextPolygonId :: nat
  nPolyAlloc :: int
  nConnectedness :: nat

definition new_enumerator :: "nat \<Rightarrow> GDALRasterPolygonEnumerator" where
  "new_enumerator c = \<lparr>panPolyIdMap = [], panPolyValue = [], nNextPolygonId = 0, nPolyAlloc = 0, nConnectedness = c\<rparr>"

definition ClearPolygons :: "GDALRasterPolygonEnumerator \<Rightarrow> GDALRasterPolygonEnumerator" where
  "ClearPolygons e = e\<lparr>panPolyIdMap := [], panPolyValue := [], nNextPolygonId := 0, nPolyAlloc := 0\<rparr>"

partial_function (option) find_root :: "nat list \<Rightarrow> nat \<Rightarrow> nat option" where
  "find_root m x = do { y \<leftarrow> cell m x; if y \<noteq> x then find_root m y else Some x }"

definition MergePolygon :: "GDALRasterPolygonEnumerator \<Rightarrow> nat \<Rightarrow> nat \<Rightarrow> GDALRasterPolygonEnumerator option" where
  "MergePolygon e nSrcId nDstId = do {
     nDstId \<leftarrow> find_root (panPolyIdMap e) nDstId;
     nSrcId \<leftarrow> find_root (panPolyIdMap e) nSrcId;
     Some (if nSrcId = nDstId then e else e\<lparr>panPolyIdMap := (panPolyIdMap e)[nSrcId := nDstId]\<rparr>)
   }"

definition NewPolygon :: "GDALRasterPolygonEnumerator \<Rightarrow> int \<Rightarrow> (GDALRasterPolygonEnumerator \<times> nat) option" where
  "NewPolygon e nValue = do {
     let nPolyId = nNextPolygonId e;
     e \<leftarrow> (if int (nNextPolygonId e) \<ge> nPolyAlloc e then
             let n = nPolyAlloc e * 2 + 20
             in if n * 4 \<ge> 2 ^ 31 then None else Some (e\<lparr>nPolyAlloc := n\<rparr>)
           else Some e);
     Some (e\<lparr>nNextPolygonId := nPolyId + 1, panPolyIdMap := panPolyIdMap e @ [nPolyId],
             panPolyValue := panPolyValue e @ [nValue]\<rparr>, nPolyId)
   }"

text \<open>The loop that shortens the path of one number.\<close>

partial_function (option) flatten :: "nat list \<Rightarrow> nat \<Rightarrow> nat list option" where
  "flatten m i = do {
     x \<leftarrow> cell m i;
     y \<leftarrow> cell m x;
     if x \<noteq> y then flatten (m[i := y]) i else Some m
   }"

fun complete_loop :: "nat list \<Rightarrow> nat list \<Rightarrow> nat \<Rightarrow> (nat list \<times> nat) option" where
  "complete_loop [] m nFinalPolyCount = Some (m, nFinalPolyCount)"
| "complete_loop (i # is) m nFinalPolyCount = do {
     m \<leftarrow> flatten m i;
     x \<leftarrow> cell m i;
     complete_loop is m (if x = i then nFinalPolyCount + 1 else nFinalPolyCount)
   }"

text \<open>The number of final polygons, which the code writes to its debugging output, is returned too.\<close>

definition CompleteMerges :: "GDALRasterPolygonEnumerator \<Rightarrow> (GDALRasterPolygonEnumerator \<times> nat) option" where
  "CompleteMerges e = do {
     (m, nFinalPolyCount) \<leftarrow> complete_loop [0..<nNextPolygonId e] (panPolyIdMap e) 0;
     Some (e\<lparr>panPolyIdMap := m\<rparr>, nFinalPolyCount)
   }"

definition eq_at :: "'a list \<Rightarrow> nat \<Rightarrow> 'a list \<Rightarrow> nat \<Rightarrow> bool option" where
  "eq_at xs i ys j = do { x \<leftarrow> cell xs i; y \<leftarrow> cell ys j; Some (x = y) }"

text \<open>Merging the polygon of the pixel \<open>j\<close> of the last line into the polygon \<open>nId\<close> of the pixel \<open>i\<close>.\<close>

definition try_merge ::
    "int list \<Rightarrow> int list \<Rightarrow> nat list \<Rightarrow> nat \<Rightarrow> nat \<Rightarrow> nat \<Rightarrow> GDALRasterPolygonEnumerator \<Rightarrow> GDALRasterPolygonEnumerator option" where
  "try_merge panLastLineVal panThisLineVal panLastLineId i nId j e = do {
     same \<leftarrow> eq_at panLastLineVal j panThisLineVal i;
     if same then do {
       k \<leftarrow> cell panLastLineId j;
       x \<leftarrow> cell (panPolyIdMap e) k;
       y \<leftarrow> cell (panPolyIdMap e) nId;
       if x \<noteq> y then MergePolygon e k nId else Some e
     } else Some e
   }"

text \<open>One step of the loops of \<^verbatim>\<open>ProcessLine\<close>: the number of the pixel \<open>i\<close>, where \<open>ids\<close> are those of the pixels before.\<close>

definition first_line_pixel ::
    "int list \<Rightarrow> GDALRasterPolygonEnumerator \<Rightarrow> nat list \<Rightarrow> nat \<Rightarrow> (GDALRasterPolygonEnumerator \<times> nat) option" where
  "first_line_pixel panThisLineVal e ids i = do {
     left \<leftarrow> (if i = 0 then Some False else eq_at panThisLineVal i panThisLineVal (i - 1));
     if \<not> left then do { v \<leftarrow> cell panThisLineVal i; NewPolygon e v }
     else do { nId \<leftarrow> cell ids (i - 1); Some (e, nId) }
   }"

definition next_line_pixel ::
    "int list \<Rightarrow> int list \<Rightarrow> nat list \<Rightarrow> nat \<Rightarrow> GDALRasterPolygonEnumerator \<Rightarrow> nat list \<Rightarrow> nat
      \<Rightarrow> (GDALRasterPolygonEnumerator \<times> nat) option" where
  "next_line_pixel panLastLineVal panThisLineVal panLastLineId nXSize e ids i = do {
     let merge = try_merge panLastLineVal panThisLineVal panLastLineId i;
     left \<leftarrow> (if i > 0 then eq_at panThisLineVal i panThisLineVal (i - 1) else Some False);
     if left then do {
       nId \<leftarrow> cell ids (i - 1);
       e \<leftarrow> merge nId i e;
       e \<leftarrow> (if nConnectedness e = 8 then merge nId (i - 1) e else Some e);
       e \<leftarrow> (if nConnectedness e = 8 \<and> i + 1 < nXSize then merge nId (i + 1) e else Some e);
       Some (e, nId)
     } else do {
       up \<leftarrow> eq_at panLastLineVal i panThisLineVal i;
       if up then do { nId \<leftarrow> cell panLastLineId i; Some (e, nId) }
       else do {
         upleft \<leftarrow> (if i > 0 \<and> nConnectedness e = 8 then eq_at panLastLineVal (i - 1) panThisLineVal i else Some False);
         if upleft then do {
           nId \<leftarrow> cell panLastLineId (i - 1);
           e \<leftarrow> (if i + 1 < nXSize then merge nId (i + 1) e else Some e);
           Some (e, nId)
         } else do {
           upright \<leftarrow> (if i + 1 < nXSize \<and> nConnectedness e = 8 then eq_at panLastLineVal (i + 1) panThisLineVal i else Some False);
           if upright then do { nId \<leftarrow> cell panLastLineId (i + 1); Some (e, nId) }
           else do { v \<leftarrow> cell panThisLineVal i; NewPolygon e v }
         }
       }
     }
   }"

fun pixel_loop ::
    "(GDALRasterPolygonEnumerator \<Rightarrow> nat list \<Rightarrow> nat \<Rightarrow> (GDALRasterPolygonEnumerator \<times> nat) option)
      \<Rightarrow> nat list \<Rightarrow> GDALRasterPolygonEnumerator \<Rightarrow> nat list \<Rightarrow> (GDALRasterPolygonEnumerator \<times> nat list) option" where
  "pixel_loop f [] e ids = Some (e, ids)"
| "pixel_loop f (i # is) e ids = do { (e, nId) \<leftarrow> f e ids i; pixel_loop f is e (ids @ [nId]) }"

text \<open>\<open>prev\<close> has the values and the numbers of the last line, or is \<open>None\<close> for the first line.\<close>

definition ProcessLine ::
    "GDALRasterPolygonEnumerator \<Rightarrow> (int list \<times> nat list) option \<Rightarrow> int list \<Rightarrow> nat \<Rightarrow> (GDALRasterPolygonEnumerator \<times> nat list) option" where
  "ProcessLine e prev panThisLineVal nXSize =
     (case prev of
        None \<Rightarrow> pixel_loop (first_line_pixel panThisLineVal) [0..<nXSize] e []
      | Some (panLastLineVal, panLastLineId) \<Rightarrow>
          pixel_loop (next_line_pixel panLastLineVal panThisLineVal panLastLineId nXSize) [0..<nXSize] e [])"

section \<open>Forests\<close>

text \<open>\<open>forest m r\<close>: following \<open>m\<close> from \<open>x\<close> ends in the root \<open>r x\<close>; \<open>h\<close> decreases on the way.\<close>

definition ranked :: "nat list \<Rightarrow> (nat \<Rightarrow> nat) \<Rightarrow> (nat \<Rightarrow> nat) \<Rightarrow> bool" where
  "ranked m r h \<longleftrightarrow> (\<forall>x < length m. m ! x < length m \<and> r (m ! x) = r x
     \<and> (if m ! x = x then r x = x else h (m ! x) < h x))"

definition forest :: "nat list \<Rightarrow> (nat \<Rightarrow> nat) \<Rightarrow> bool" where
  "forest m r \<longleftrightarrow> (\<exists>h. ranked m r h)"

lemma rankedD:
  assumes "ranked m r h" "x < length m"
  shows "m ! x < length m" "r (m ! x) = r x" "m ! x = x \<Longrightarrow> r x = x" "m ! x \<noteq> x \<Longrightarrow> h (m ! x) < h x"
  using assms unfolding ranked_def by metis+

lemma ranked_root:
  assumes "ranked m r h"
  shows "x < length m \<Longrightarrow> find_root m x = Some (r x) \<and> r x < length m \<and> m ! r x = r x \<and> r (r x) = r x"
proof (induction x rule: measure_induct_rule [of h])
  case (less x)
  show ?case
  proof (cases "m ! x = x")
    case True
    then show ?thesis using rankedD(3) [OF assms less.prems] less.prems by (subst find_root.simps) (simp add: cell_def)
  next
    case False
    note x = rankedD [OF assms less.prems]
    from less.IH [OF x(4) [OF False] x(1)] show ?thesis
      using False x less.prems by (subst find_root.simps) (simp add: cell_def)
  qed
qed

lemma forest_root:
  assumes "forest m r" "x < length m"
  shows "find_root m x = Some (r x)" "r x < length m" "m ! r x = r x" "r (r x) = r x" "r (m ! x) = r x" "m ! x < length m"
  using assms ranked_root rankedD unfolding forest_def by metis+

text \<open>Linking a root \<open>a\<close> to another root \<open>b\<close>.\<close>

definition link :: "nat \<Rightarrow> nat \<Rightarrow> (nat \<Rightarrow> nat) \<Rightarrow> nat \<Rightarrow> nat" where
  "link a b r = (\<lambda>x. if r x = a then b else r x)"

lemma forest_link:
  assumes "forest m r" "a < length m" "b < length m" "m ! a = a" "m ! b = b" "a \<noteq> b"
  shows "forest (m[a := b]) (link a b r)"
proof -
  obtain h where h: "ranked m r h" using assms(1) by (auto simp: forest_def)
  have r: "r a = a" "r b = b" using rankedD(3) [OF h] assms by simp_all
  have "ranked (m[a := b]) (link a b r) (\<lambda>x. if r x = a then h x + h b + 1 else h x)"
    unfolding ranked_def
  proof (intro allI impI)
    fix x assume "x < length (m[a := b])"
    then have x: "x < length m" by simp
    show "(m[a := b]) ! x < length (m[a := b]) \<and> link a b r ((m[a := b]) ! x) = link a b r x
        \<and> (if (m[a := b]) ! x = x then link a b r x = x
           else (if r ((m[a := b]) ! x) = a then h ((m[a := b]) ! x) + h b + 1 else h ((m[a := b]) ! x))
              < (if r x = a then h x + h b + 1 else h x))"
      using rankedD [OF h x] r assms(2-6) x by (cases "x = a") (auto simp: link_def)
  qed
  then show ?thesis by (auto simp: forest_def)
qed

lemma forest_new:
  assumes "forest m r"
  shows "forest (m @ [length m]) (r(length m := length m))"
proof -
  obtain h where h: "ranked m r h" using assms by (auto simp: forest_def)
  have "ranked (m @ [length m]) (r(length m := length m)) h"
    unfolding ranked_def
  proof (intro allI impI)
    fix x assume "x < length (m @ [length m])"
    then consider "x = length m" | "x < length m" by fastforce
    then show "(m @ [length m]) ! x < length (m @ [length m])
      \<and> (r(length m := length m)) ((m @ [length m]) ! x) = (r(length m := length m)) x
      \<and> (if (m @ [length m]) ! x = x then (r(length m := length m)) x = x else h ((m @ [length m]) ! x) < h x)"
      by cases (use rankedD [OF h, of x] in \<open>auto simp: nth_append\<close>)
  qed
  then show ?thesis by (auto simp: forest_def)
qed

lemma flatten_root:
  assumes "ranked m r h" "i < length m"
  shows "\<exists>m'. flatten m i = Some m' \<and> ranked m' r h \<and> length m' = length m \<and> m' ! i = r i \<and> (\<forall>j. j \<noteq> i \<longrightarrow> m' ! j = m ! j)"
  using assms
proof (induction "h (m ! i)" arbitrary: m rule: less_induct)
  case less
  let ?x = "m ! i" let ?y = "m ! (m ! i)"
  note i = rankedD [OF less.prems] and x = rankedD [OF less.prems(1) rankedD(1) [OF less.prems]]
  show ?case
  proof (cases "?x = ?y")
    case True
    then show ?thesis using less.prems i x by (subst flatten.simps) (auto simp: cell_def)
  next
    case False
    then have h: "h ?y < h ?x" "h ?x < h i" "?y \<noteq> i" using i(4) x(4) by (metis order.asym)+
    have "ranked (m[i := ?y]) r h"
      using less.prems i x h unfolding ranked_def by (auto simp: nth_list_update)
    from less.hyps [OF _ this] h(1) less.prems(2) obtain m' where
      "flatten (m[i := ?y]) i = Some m'" "ranked m' r h" "length m' = length m" "m' ! i = r i" "\<forall>j. j \<noteq> i \<longrightarrow> m' ! j = m ! j"
      by auto
    then show ?thesis using False less.prems(2) i(1) by (subst flatten.simps) (auto simp: cell_def)
  qed
qed

lemma complete_roots:
  assumes "ranked m r h" "k \<le> length m"
  shows "\<exists>m'. complete_loop [k..<length m] m n = Some (m', n + card {i \<in> {k..<length m}. r i = i}) \<and> ranked m' r h
    \<and> length m' = length m \<and> (\<forall>i < k. m' ! i = m ! i) \<and> (\<forall>i \<in> {k..<length m}. m' ! i = r i)"
  using assms
proof (induction "length m - k" arbitrary: m k n)
  case 0
  then show ?case by simp
next
  case (Suc l)
  then have k: "k < length m" by simp
  then obtain m1 where m1: "flatten m k = Some m1" "ranked m1 r h" "length m1 = length m" "m1 ! k = r k"
      "\<forall>j. j \<noteq> k \<longrightarrow> m1 ! j = m ! j" using flatten_root [OF Suc.prems(1) k] by blast
  let ?n = "if r k = k then n + 1 else n"
  have l: "l = length m1 - Suc k" "Suc k \<le> length m1" using Suc.hyps(2) k m1(3) by simp_all
  from Suc.hyps(1) [OF l(1) m1(2) l(2), of ?n] obtain m' where
    m': "complete_loop [Suc k..<length m] m1 ?n = Some (m', ?n + card {i \<in> {Suc k..<length m}. r i = i})" "ranked m' r h"
      "length m' = length m" "\<forall>i < Suc k. m' ! i = m1 ! i" "\<forall>i \<in> {Suc k..<length m}. m' ! i = r i" unfolding m1(3) by blast
  have s: "{k..<length m} = insert k {Suc k..<length m}" using k by auto
  have "{i \<in> {k..<length m}. r i = i} = (if r k = k then insert k {i \<in> {Suc k..<length m}. r i = i} else {i \<in> {Suc k..<length m}. r i = i})"
    unfolding s by auto
  then have "?n + card {i \<in> {Suc k..<length m}. r i = i} = n + card {i \<in> {k..<length m}. r i = i}" by simp
  moreover have "complete_loop [k..<length m] m n = Some (m', ?n + card {i \<in> {Suc k..<length m}. r i = i})"
    using m1 m'(1) k by (simp add: upt_rec [of k] cell_def)
  moreover have "\<forall>i < k. m' ! i = m ! i" "\<forall>i \<in> {k..<length m}. m' ! i = r i" using m'(4,5) m1(4,5) s by auto
  ultimately show ?case using m'(2,3) by (intro exI [of _ m']) simp
qed

section \<open>Regions of a raster\<close>

text \<open>A pixel is a line and a column; lines are numbered from 0 downwards.\<close>

type_synonym pixel = "nat \<times> nat"

fun adjacent :: "nat \<Rightarrow> pixel \<Rightarrow> pixel \<Rightarrow> bool" where
  "adjacent c (y, x) (y', x') \<longleftrightarrow>
     y = y' \<and> (x' = Suc x \<or> x = Suc x')
     \<or> (y' = Suc y \<or> y = Suc y') \<and> (x = x' \<or> c = 8 \<and> (x' = Suc x \<or> x = Suc x'))"

definition pixels :: "int list list \<Rightarrow> nat \<Rightarrow> pixel set" where
  "pixels L nx = {(y, x). y < length L \<and> x < nx}"

definition pix :: "int list list \<Rightarrow> pixel \<Rightarrow> int" where
  "pix L p = L ! fst p ! snd p"

definition touching :: "int list list \<Rightarrow> nat \<Rightarrow> nat \<Rightarrow> (pixel \<times> pixel) set" where
  "touching L nx c = {(p, q). p \<in> pixels L nx \<and> q \<in> pixels L nx \<and> adjacent c p q \<and> pix L p = pix L q}"

definition region :: "int list list \<Rightarrow> nat \<Rightarrow> nat \<Rightarrow> (pixel \<times> pixel) set" where
  "region L nx c = (touching L nx c)\<^sup>*"

lemma adjacent_sym: "adjacent c p q \<Longrightarrow> adjacent c q p"
  by (cases p; cases q) auto

lemma region_refl [simp]: "(p, p) \<in> region L nx c"
  by (simp add: region_def)

lemma region_trans: "(p, q) \<in> region L nx c \<Longrightarrow> (q, s) \<in> region L nx c \<Longrightarrow> (p, s) \<in> region L nx c"
  unfolding region_def by (rule rtrancl_trans)

lemma region_sym: "(p, q) \<in> region L nx c \<Longrightarrow> (q, p) \<in> region L nx c"
proof -
  have "sym (touching L nx c)" by (auto simp: touching_def sym_def dest: adjacent_sym)
  then show "(p, q) \<in> region L nx c \<Longrightarrow> (q, p) \<in> region L nx c"
    unfolding region_def by (metis sym_rtrancl symD)
qed

lemma region_pix: "(p, q) \<in> region L nx c \<Longrightarrow> pix L p = pix L q"
  unfolding region_def by (induction rule: rtrancl_induct) (auto simp: touching_def)

lemma region_step:
  "p \<in> pixels L nx \<Longrightarrow> q \<in> pixels L nx \<Longrightarrow> adjacent c p q \<Longrightarrow> pix L p = pix L q \<Longrightarrow> (p, q) \<in> region L nx c"
  by (auto simp: region_def touching_def)

section \<open>The invariant\<close>

text \<open>The pixels \<open>D\<close> have numbers \<open>lb\<close>, which are all in use; numbers with the same root are of connected pixels.\<close>

definition numbered ::
    "int list list \<Rightarrow> nat \<Rightarrow> GDALRasterPolygonEnumerator \<Rightarrow> (nat \<Rightarrow> nat) \<Rightarrow> (pixel \<Rightarrow> nat) \<Rightarrow> pixel set \<Rightarrow> bool" where
  "numbered L nx e r lb D \<longleftrightarrow> forest (panPolyIdMap e) r \<and> length (panPolyIdMap e) = nNextPolygonId e
     \<and> length (panPolyValue e) = nNextPolygonId e \<and> nPolyAlloc e \<le> 2 * int (nNextPolygonId e) + 20
     \<and> D \<subseteq> pixels L nx \<and> lb ` D = {..<nNextPolygonId e}
     \<and> (\<forall>p \<in> D. panPolyValue e ! lb p = pix L p)
     \<and> (\<forall>p \<in> D. \<forall>q \<in> D. r (lb p) = r (lb q) \<longrightarrow> (p, q) \<in> region L nx (nConnectedness e))"

lemma finite_pixels [simp]: "finite (pixels L nx)" "card (pixels L nx) = length L * nx"
proof -
  have "pixels L nx = {..<length L} \<times> {..<nx}" by (auto simp: pixels_def)
  then show "finite (pixels L nx)" "card (pixels L nx) = length L * nx" by simp_all
qed

lemma numberedD:
  assumes "numbered L nx e r lb D"
  shows "forest (panPolyIdMap e) r" "length (panPolyIdMap e) = nNextPolygonId e" "length (panPolyValue e) = nNextPolygonId e"
    "nPolyAlloc e \<le> 2 * int (nNextPolygonId e) + 20" "D \<subseteq> pixels L nx" "lb ` D = {..<nNextPolygonId e}"
    "p \<in> D \<Longrightarrow> panPolyValue e ! lb p = pix L p" "p \<in> D \<Longrightarrow> lb p < nNextPolygonId e"
    "p \<in> D \<Longrightarrow> q \<in> D \<Longrightarrow> r (lb p) = r (lb q) \<Longrightarrow> (p, q) \<in> region L nx (nConnectedness e)"
  using assms unfolding numbered_def by blast+

lemma numbered_count:
  assumes "numbered L nx e r lb D"
  shows "finite D" "nNextPolygonId e \<le> card D"
proof -
  show f: "finite D" by (rule finite_subset [OF numberedD(5) [OF assms]]) simp
  have "card (lb ` D) \<le> card D" by (rule card_image_le [OF f])
  then show "nNextPolygonId e \<le> card D" using numberedD(6) [OF assms] by simp
qed

lemma numbered_new:
  assumes n: "numbered L nx e r lb D" and p: "p \<in> pixels L nx" "p \<notin> D" and small: "length L * nx \<le> 2 ^ 28 - 10"
  shows "\<exists>e' r'. NewPolygon e (pix L p) = Some (e', nNextPolygonId e) \<and> nConnectedness e' = nConnectedness e
    \<and> numbered L nx e' r' (lb(p := nNextPolygonId e)) (insert p D) \<and> (\<forall>x < nNextPolygonId e. r' x = r x)"
proof -
  let ?n = "nNextPolygonId e" let ?r = "r(?n := ?n)"
  have "card (insert p D) \<le> card (pixels L nx)" using numberedD(5) [OF n] p(1) by (intro card_mono) auto
  then have "?n < 2 ^ 28 - 10" using numbered_count [OF n] p(2) small by simp
  then have "(nPolyAlloc e * 2 + 20) * 4 < 2 ^ 31" if "int (nNextPolygonId e) \<ge> nPolyAlloc e" using that by simp
  then have "\<exists>k. NewPolygon e (pix L p) = Some (e\<lparr>nPolyAlloc := k, nNextPolygonId := ?n + 1,
      panPolyIdMap := panPolyIdMap e @ [?n], panPolyValue := panPolyValue e @ [pix L p]\<rparr>, ?n) \<and> k \<le> 2 * int ?n + 20"
    using numberedD(4) [OF n]
    by (intro exI [of _ "if int ?n \<ge> nPolyAlloc e then nPolyAlloc e * 2 + 20 else nPolyAlloc e"]) (auto simp: NewPolygon_def Let_def)
  then obtain k where new: "NewPolygon e (pix L p) = Some (e\<lparr>nPolyAlloc := k, nNextPolygonId := ?n + 1,
      panPolyIdMap := panPolyIdMap e @ [?n], panPolyValue := panPolyValue e @ [pix L p]\<rparr>, ?n)" "k \<le> 2 * int ?n + 20" by blast
  have f: "forest (panPolyIdMap e @ [?n]) ?r" using forest_new [OF numberedD(1) [OF n]] numberedD(2) [OF n] by simp
  have old: "lb q < ?n" "lb q \<noteq> ?n" "r (lb q) \<noteq> ?n" if "q \<in> D" for q
    using numberedD(8) [OF n that] forest_root(2) [OF numberedD(1) [OF n], of "lb q"] numberedD(2) [OF n] by auto
  have "numbered L nx (e\<lparr>nPolyAlloc := k, nNextPolygonId := ?n + 1, panPolyIdMap := panPolyIdMap e @ [?n],
      panPolyValue := panPolyValue e @ [pix L p]\<rparr>) ?r (lb(p := ?n)) (insert p D)"
    unfolding numbered_def
  proof (intro conjI ballI impI)
    show "lb(p := ?n) ` insert p D = {..<nNextPolygonId (e\<lparr>nPolyAlloc := k, nNextPolygonId := ?n + 1, panPolyIdMap := panPolyIdMap e @ [?n],
      panPolyValue := panPolyValue e @ [pix L p]\<rparr>)}"
      using numberedD(6) [OF n] p(2) by (auto simp: image_iff fun_upd_image lessThan_Suc)
    fix u assume u: "u \<in> insert p D"
    show "panPolyValue (e\<lparr>nPolyAlloc := k, nNextPolygonId := ?n + 1, panPolyIdMap := panPolyIdMap e @ [?n],
        panPolyValue := panPolyValue e @ [pix L p]\<rparr>) ! (lb(p := ?n)) u = pix L u"
      using u p(2) numberedD(7) [OF n, of u] old [of u] numberedD(3) [OF n] by (auto simp: nth_append)
    fix v assume v: "v \<in> insert p D" and eq: "?r ((lb(p := ?n)) u) = ?r ((lb(p := ?n)) v)"
    have "u = v \<or> u \<in> D \<and> v \<in> D \<and> r (lb u) = r (lb v)" using u v eq p(2) old [of u] old [of v] by (auto split: if_splits)
    then show "(u, v) \<in> region L nx (nConnectedness (e\<lparr>nPolyAlloc := k, nNextPolygonId := ?n + 1,
        panPolyIdMap := panPolyIdMap e @ [?n], panPolyValue := panPolyValue e @ [pix L p]\<rparr>))"
      using numberedD(9) [OF n, of u v] by (cases "u = v") simp_all
  qed (use f new(2) numberedD(2,3,5) [OF n] p(1) in simp_all)
  then show ?thesis using new(1) by (intro exI conjI) auto
qed

lemma numbered_reuse:
  assumes n: "numbered L nx e r lb D" and p: "p \<in> pixels L nx" "p \<notin> D" and q: "q \<in> D" "(p, q) \<in> region L nx (nConnectedness e)"
  shows "numbered L nx e r (lb(p := lb q)) (insert p D)"
  unfolding numbered_def
proof (intro conjI ballI impI)
  show "lb(p := lb q) ` insert p D = {..<nNextPolygonId e}"
    using numberedD(6) [OF n] p(2) q(1) by (auto simp: fun_upd_image)
  fix u assume u: "u \<in> insert p D"
  show "panPolyValue e ! (lb(p := lb q)) u = pix L u"
    using u numberedD(7) [OF n, of u] numberedD(7) [OF n q(1)] region_pix [OF q(2)] by (cases "u = p") simp_all
  have near: "(w, if w = p then q else w) \<in> region L nx (nConnectedness e)" for w using q(2) by simp
  fix v assume v: "v \<in> insert p D" and eq: "r ((lb(p := lb q)) u) = r ((lb(p := lb q)) v)"
  have "(if u = p then q else u, if v = p then q else v) \<in> region L nx (nConnectedness e)"
    using numberedD(9) [OF n, of "if u = p then q else u" "if v = p then q else v"] u v q(1) eq by auto
  from region_trans [OF region_trans [OF near this] region_sym [OF near]]
  show "(u, v) \<in> region L nx (nConnectedness e)" .
qed (use numberedD [OF n] p(1) in simp_all)

lemma numbered_merge:
  assumes n: "numbered L nx e r lb D" and pq: "p \<in> D" "q \<in> D" "(p, q) \<in> region L nx (nConnectedness e)"
  shows "\<exists>e' r'. MergePolygon e (lb p) (lb q) = Some e' \<and> nConnectedness e' = nConnectedness e \<and> numbered L nx e' r' lb D
    \<and> (\<forall>x y. r x = r y \<longrightarrow> r' x = r' y) \<and> r' (lb p) = r' (lb q)"
proof -
  let ?a = "r (lb p)" let ?b = "r (lb q)" let ?m = "panPolyIdMap e"
  note len = numberedD(2) [OF n]
  have lbp: "lb p < length ?m" "lb q < length ?m" using numberedD(8) [OF n] pq len by simp_all
  note P = forest_root [OF numberedD(1) [OF n] lbp(1)] and Q = forest_root [OF numberedD(1) [OF n] lbp(2)]
  show ?thesis
  proof (cases "?a = ?b")
    case True
    then show ?thesis using n P(1) Q(1) by (intro exI [of _ e] exI [of _ r]) (auto simp: MergePolygon_def)
  next
    case False
    have f: "forest (?m[?a := ?b]) (link ?a ?b r)" using forest_link [OF numberedD(1) [OF n] P(2) Q(2) P(3) Q(3) False] .
    have "numbered L nx (e\<lparr>panPolyIdMap := ?m[?a := ?b]\<rparr>) (link ?a ?b r) lb D"
      unfolding numbered_def
    proof (intro conjI ballI impI)
      have near: "(w, if r (lb w) = ?a then q else w) \<in> region L nx (nConnectedness e)" if "w \<in> D" for w
        using numberedD(9) [OF n that pq(1)] region_trans [OF _ pq(3)] by simp
      fix u v assume uv: "u \<in> D" "v \<in> D" and eq: "link ?a ?b r (lb u) = link ?a ?b r (lb v)"
      have "(if r (lb u) = ?a then q else u, if r (lb v) = ?a then q else v) \<in> region L nx (nConnectedness e)"
        using numberedD(9) [OF n, of "if r (lb u) = ?a then q else u" "if r (lb v) = ?a then q else v"] uv pq(2) eq
        by (auto simp: link_def split: if_splits)
      from region_trans [OF region_trans [OF near [OF uv(1)] this] region_sym [OF near [OF uv(2)]]]
      show "(u, v) \<in> region L nx (nConnectedness (e\<lparr>panPolyIdMap := ?m[?a := ?b]\<rparr>))" by simp
    qed (use f numberedD [OF n] in simp_all)
    moreover have "MergePolygon e (lb p) (lb q) = Some (e\<lparr>panPolyIdMap := ?m[?a := ?b]\<rparr>)"
      using False P(1) Q(1) by (simp add: MergePolygon_def)
    ultimately show ?thesis by (intro exI [of _ "link ?a ?b r"] exI) (auto simp: link_def)
  qed
qed

section \<open>Pixels and lines\<close>

text \<open>The pixels before the pixel \<open>i\<close> of the line \<open>y\<close>.\<close>

definition before :: "nat \<Rightarrow> nat \<Rightarrow> nat \<Rightarrow> pixel set" where
  "before nx y i = {(y', x'). y' < y \<and> x' < nx \<or> y' = y \<and> x' < i}"

text \<open>Adjacent pixels of the same value have the same root.\<close>

definition joined :: "int list list \<Rightarrow> nat \<Rightarrow> (nat \<Rightarrow> nat) \<Rightarrow> (pixel \<Rightarrow> nat) \<Rightarrow> pixel set \<Rightarrow> bool" where
  "joined L c r lb D \<longleftrightarrow> (\<forall>p \<in> D. \<forall>q \<in> D. adjacent c p q \<and> pix L p = pix L q \<longrightarrow> r (lb p) = r (lb q))"

definition labelled ::
    "int list list \<Rightarrow> nat \<Rightarrow> nat \<Rightarrow> GDALRasterPolygonEnumerator \<Rightarrow> (pixel \<Rightarrow> nat) \<Rightarrow> pixel set \<Rightarrow> bool" where
  "labelled L nx c e lb D \<longleftrightarrow> nConnectedness e = c \<and> (\<exists>r. numbered L nx e r lb D \<and> joined L c r lb D)"

lemma before_Suc: "before nx y (Suc i) = insert (y, i) (before nx y i)"
  by (auto simp: before_def)

lemma before_line: "before nx (Suc y) 0 = before nx y nx"
  by (auto simp: before_def less_Suc_eq)

lemma before_self [simp]: "(y, i) \<notin> before nx y i"
  by (simp add: before_def)

lemma adjacent_before:
  "q \<in> before nx y i \<Longrightarrow> adjacent c (y, i) q \<Longrightarrow>
    i > 0 \<and> q = (y, i - 1) \<or> y > 0 \<and> (i < nx \<and> q = (y - 1, i)
      \<or> c = 8 \<and> (i > 0 \<and> q = (y - 1, i - 1) \<or> i + 1 < nx \<and> q = (y - 1, i + 1)))"
  by (cases q) (auto simp: before_def)

text \<open>A new pixel \<open>p\<close> is joined when its neighbours have its root.\<close>

lemma joined_insert:
  assumes "joined L c r lb D" "p \<notin> D" "\<forall>x y. r x = r y \<longrightarrow> r' x = r' y \<or> x \<notin> lb ` D \<or> y \<notin> lb ` D"
    and "\<And>q. q \<in> D \<Longrightarrow> adjacent c p q \<Longrightarrow> pix L p = pix L q \<Longrightarrow> r' (lb q) = r' k"
  shows "joined L c r' (lb(p := k)) (insert p D)"
  unfolding joined_def
proof (intro ballI impI)
  fix u v assume u: "u \<in> insert p D" and v: "v \<in> insert p D" and uv: "adjacent c u v \<and> pix L u = pix L v"
  consider "u = p" "v = p" | "u = p" "v \<in> D" | "u \<in> D" "v = p" | "u \<in> D" "v \<in> D" using u v by blast
  then show "r' ((lb(p := k)) u) = r' ((lb(p := k)) v)"
  proof cases
    case 2
    then show ?thesis using assms(2,4) uv by auto
  next
    case 3
    then show ?thesis using assms(2) assms(4) [of u] uv adjacent_sym [of c u v] by auto
  next
    case 4
    then have "r (lb u) = r (lb v)" using assms(1) uv unfolding joined_def by blast
    then show ?thesis using 4 assms(2,3) by auto
  qed simp
qed

lemma try_merge_joins:
  assumes n: "numbered L nx e r lb D" and pq: "p \<in> D" "q \<in> D" "adjacent (nConnectedness e) p q"
    and cells: "cell lastVal j = Some (pix L p)" "cell thisVal i = Some (pix L q)" "cell lastId j = Some (lb p)"
  shows "\<exists>e' r'. try_merge lastVal thisVal lastId i (lb q) j e = Some e' \<and> nConnectedness e' = nConnectedness e
    \<and> numbered L nx e' r' lb D \<and> (\<forall>x y. r x = r y \<longrightarrow> r' x = r' y) \<and> (pix L p = pix L q \<longrightarrow> r' (lb p) = r' (lb q))"
proof (cases "pix L p = pix L q")
  case True
  have c: "(p, q) \<in> region L nx (nConnectedness e)"
    using numberedD(5) [OF n] pq True by (intro region_step) blast+
  have len: "lb p < length (panPolyIdMap e)" "lb q < length (panPolyIdMap e)"
    using numberedD(2,8) [OF n] pq by simp_all
  show ?thesis
  proof (cases "panPolyIdMap e ! lb p = panPolyIdMap e ! lb q")
    case same: True
    then have "r (lb p) = r (lb q)" using forest_root(5) [OF numberedD(1) [OF n]] len by metis
    then show ?thesis using n True same cells len
      by (intro exI [of _ e] exI [of _ r]) (simp add: try_merge_def eq_at_def cell_def)
  next
    case False
    then have "try_merge lastVal thisVal lastId i (lb q) j e = MergePolygon e (lb p) (lb q)"
      using True cells len by (simp add: try_merge_def eq_at_def cell_def)
    then show ?thesis using numbered_merge [OF n pq(1,2) c] by auto
  qed
next
  case False
  then show ?thesis using n cells by (intro exI [of _ e] exI [of _ r]) (simp add: try_merge_def eq_at_def)
qed

text \<open>The new pixel \<open>p\<close> has the root of its neighbours \<open>S\<close>.\<close>

definition hanging ::
    "int list list \<Rightarrow> nat \<Rightarrow> nat \<Rightarrow> GDALRasterPolygonEnumerator \<Rightarrow> (pixel \<Rightarrow> nat) \<Rightarrow> pixel set \<Rightarrow> pixel \<Rightarrow> pixel set \<Rightarrow> bool" where
  "hanging L nx c e lb D p S \<longleftrightarrow> nConnectedness e = c \<and> p \<notin> D \<and> (\<exists>r. numbered L nx e r lb (insert p D) \<and> joined L c r lb D
     \<and> (\<forall>q \<in> S. r (lb q) = r (lb p)))"

lemma hang_start:
  assumes "labelled L nx c e lb D" "p \<in> pixels L nx" "p \<notin> D" "q \<in> D" "adjacent c p q" "pix L p = pix L q"
  shows "hanging L nx c e (lb(p := lb q)) D p {q}"
proof -
  obtain r where r: "numbered L nx e r lb D" "joined L c r lb D" and c: "nConnectedness e = c"
    using assms(1) by (auto simp: labelled_def)
  have "(p, q) \<in> region L nx (nConnectedness e)"
    using assms numberedD(5) [OF r(1)] c by (intro region_step) blast+
  note numbered_reuse [OF r(1) assms(2,3,4) this]
  moreover have "joined L c r (lb(p := lb q)) D" using r(2) assms(3) unfolding joined_def by (metis fun_upd_other)
  moreover have "q \<noteq> p" using assms(3,4) by blast
  ultimately show ?thesis using c assms(3) by (auto simp: hanging_def)
qed

lemma hang_more:
  assumes "hanging L nx c e lb D p S" "q \<in> S" "q \<in> D" "q' \<in> D" "adjacent c q q'" "pix L q = pix L q'"
  shows "hanging L nx c e lb D p (insert q' S)"
proof -
  obtain r where r: "numbered L nx e r lb (insert p D)" "joined L c r lb D" "\<forall>q \<in> S. r (lb q) = r (lb p)"
    using assms(1) by (auto simp: hanging_def)
  then have "r (lb q') = r (lb p)" using assms(2-6) unfolding joined_def by metis
  then show ?thesis using assms(1) r unfolding hanging_def by blast
qed

lemma hang_merge:
  assumes "hanging L nx c e lb D p S" "q \<in> D" "adjacent c q p"
    and "cell lastVal j = Some (pix L q)" "cell thisVal i = Some (pix L p)" "cell lastId j = Some (lb q)"
  shows "\<exists>e'. try_merge lastVal thisVal lastId i (lb p) j e = Some e'
    \<and> hanging L nx c e' lb D p (if pix L q = pix L p then insert q S else S)"
proof -
  obtain r where r: "numbered L nx e r lb (insert p D)" "joined L c r lb D" "\<forall>q \<in> S. r (lb q) = r (lb p)"
    and c: "nConnectedness e = c" "p \<notin> D" using assms(1) by (auto simp: hanging_def)
  have "q \<in> insert p D" "p \<in> insert p D" "adjacent (nConnectedness e) q p" using assms(2,3) c(1) by simp_all
  from try_merge_joins [OF r(1) this assms(4-6)] c(1)
  obtain e' r' where e': "try_merge lastVal thisVal lastId i (lb p) j e = Some e'" "nConnectedness e' = c"
    "numbered L nx e' r' lb (insert p D)" "\<forall>x y. r x = r y \<longrightarrow> r' x = r' y" "pix L q = pix L p \<longrightarrow> r' (lb q) = r' (lb p)" by metis
  have "joined L c r' lb D" using r(2) e'(4) unfolding joined_def by blast
  moreover have "r' (lb s) = r' (lb p)" if "s \<in> S" for s using r(3) e'(4) that by blast
  ultimately have "hanging L nx c e' lb D p (if pix L q = pix L p then insert q S else S)"
    using e'(2,3,5) c(2) unfolding hanging_def by (intro conjI exI [of _ r']) simp_all
  then show ?thesis using e'(1) by blast
qed

lemma hang_end:
  assumes "hanging L nx c e lb D p S" "\<And>q. q \<in> D \<Longrightarrow> adjacent c p q \<Longrightarrow> pix L p = pix L q \<Longrightarrow> q \<in> S"
  shows "labelled L nx c e lb (insert p D)"
proof -
  obtain r where r: "numbered L nx e r lb (insert p D)" "joined L c r lb D" "\<forall>q \<in> S. r (lb q) = r (lb p)"
    and c: "nConnectedness e = c" "p \<notin> D" using assms(1) by (auto simp: hanging_def)
  have "joined L c r (lb(p := lb p)) (insert p D)" by (rule joined_insert [OF r(2) c(2)]) (use assms(2) r(3) in auto)
  then show ?thesis using r(1) c(1) by (auto simp: labelled_def)
qed

lemma label_new:
  assumes "labelled L nx c e lb D" "p \<in> pixels L nx" "p \<notin> D" "length L * nx \<le> 2 ^ 28 - 10"
    and alone: "\<And>q. q \<in> D \<Longrightarrow> adjacent c p q \<Longrightarrow> pix L p \<noteq> pix L q"
  shows "\<exists>e' k. NewPolygon e (pix L p) = Some (e', k) \<and> labelled L nx c e' (lb(p := k)) (insert p D)"
proof -
  obtain r where r: "numbered L nx e r lb D" "joined L c r lb D" and c: "nConnectedness e = c"
    using assms(1) by (auto simp: labelled_def)
  from numbered_new [OF r(1) assms(2-4)] obtain e' r' where e': "NewPolygon e (pix L p) = Some (e', nNextPolygonId e)"
    "nConnectedness e' = nConnectedness e" "numbered L nx e' r' (lb(p := nNextPolygonId e)) (insert p D)"
    "\<forall>x < nNextPolygonId e. r' x = r x" by blast
  have "joined L c r' (lb(p := nNextPolygonId e)) (insert p D)"
    by (rule joined_insert [OF r(2) assms(3)]) (use alone e'(4) numberedD(8) [OF r(1)] in auto)
  then show ?thesis using e' c by (auto simp: labelled_def)
qed

text \<open>The arrays of a line hold the values and numbers of its pixels.\<close>

definition holds_line :: "'a list \<Rightarrow> (pixel \<Rightarrow> 'a) \<Rightarrow> nat \<Rightarrow> nat \<Rightarrow> bool" where
  "holds_line xs f y n \<longleftrightarrow> (\<forall>x < n. cell xs x = Some (f (y, x)))"

lemma holds_lineD: "holds_line xs f y n \<Longrightarrow> x < n \<Longrightarrow> cell xs x = Some (f (y, x))"
  by (simp add: holds_line_def)

lemma first_line_step:
  assumes l: "labelled L nx c e lb (before nx 0 i)" and i: "i < nx" "L \<noteq> []" and small: "length L * nx \<le> 2 ^ 28 - 10"
    and val: "holds_line vs (pix L) 0 nx" and ids: "holds_line ids lb 0 i"
  shows "\<exists>e' k. first_line_pixel vs e ids i = Some (e', k) \<and> labelled L nx c e' (lb((0, i) := k)) (before nx 0 (Suc i))"
proof -
  have p: "(0, i) \<in> pixels L nx" using i by (simp add: pixels_def)
  show ?thesis
  proof (cases "i > 0 \<and> pix L (0, i) = pix L (0, i - 1)")
    case True
    have h: "hanging L nx c e (lb((0, i) := lb (0, i - 1))) (before nx 0 i) (0, i) {(0, i - 1)}"
      by (rule hang_start [OF l p before_self]) (use True in \<open>auto simp: before_def\<close>)
    have "labelled L nx c e (lb((0, i) := lb (0, i - 1))) (insert (0, i) (before nx 0 i))"
      by (rule hang_end [OF h]) (auto dest: adjacent_before)
    moreover have "first_line_pixel vs e ids i = Some (e, lb (0, i - 1))"
      using True i holds_lineD [OF val] holds_lineD [OF ids] by (simp add: first_line_pixel_def eq_at_def)
    ultimately show ?thesis unfolding before_Suc by blast
  next
    case False
    have "\<exists>e' k. NewPolygon e (pix L (0, i)) = Some (e', k) \<and> labelled L nx c e' (lb((0, i) := k)) (insert (0, i) (before nx 0 i))"
      by (rule label_new [OF l p before_self small]) (use False in \<open>auto dest: adjacent_before\<close>)
    moreover have "first_line_pixel vs e ids i = NewPolygon e (pix L (0, i))"
      using False i holds_lineD [OF val] by (auto simp: first_line_pixel_def eq_at_def)
    ultimately show ?thesis unfolding before_Suc by simp
  qed
qed

lemma hang_merge_if:
  assumes h: "hanging L nx c e lb D p S" and v: "cell thisVal i = Some (pix L p)" and k: "lb p = k"
    and q: "b \<Longrightarrow> q \<in> D \<and> adjacent c q p \<and> cell lastVal j = Some (pix L q) \<and> cell lastId j = Some (lb q)"
  shows "\<exists>e' S'. (if b then try_merge lastVal thisVal lastId i k j e else Some e) = Some e' \<and> hanging L nx c e' lb D p S'
    \<and> S \<subseteq> S' \<and> (b \<and> pix L p = pix L q \<longrightarrow> q \<in> S')"
proof (cases b)
  case True
  with q have "q \<in> D" "adjacent c q p" "cell lastVal j = Some (pix L q)" "cell lastId j = Some (lb q)" by auto
  from hang_merge [OF h this(1-3) v this(4)] obtain e' where e': "try_merge lastVal thisVal lastId i (lb p) j e = Some e'"
    "hanging L nx c e' lb D p (if pix L q = pix L p then insert q S else S)" by blast
  have "S \<subseteq> (if pix L q = pix L p then insert q S else S)" "pix L p = pix L q \<longrightarrow> q \<in> (if pix L q = pix L p then insert q S else S)"
    by auto
  then show ?thesis using e' True k by (intro exI [of _ e'] exI [of _ "if pix L q = pix L p then insert q S else S"]) simp
qed (use h in auto)

lemma hang_more_if:
  assumes h: "hanging L nx c e lb D p S" and q: "b \<Longrightarrow> q \<in> S \<and> q \<in> D \<and> q' \<in> D \<and> adjacent c q q' \<and> pix L q = pix L q'"
  shows "\<exists>S'. hanging L nx c e lb D p S' \<and> S \<subseteq> S' \<and> (b \<longrightarrow> q' \<in> S')"
proof (cases b)
  case True
  then show ?thesis using hang_more [OF h, of q q'] q by (intro exI [of _ "insert q' S"]) auto
qed (use h in blast)

lemma next_line_step:
  assumes l: "labelled L nx c e lb (before nx (Suc y) i)" and i: "i < nx" "Suc y < length L" and small: "length L * nx \<le> 2 ^ 28 - 10"
    and lastVal: "holds_line lastVal (pix L) y nx" and thisVal: "holds_line thisVal (pix L) (Suc y) nx"
    and lastId: "holds_line lastId lb y nx" and ids: "holds_line ids lb (Suc y) i"
  shows "\<exists>e' k. next_line_pixel lastVal thisVal lastId nx e ids i = Some (e', k)
    \<and> labelled L nx c e' (lb((Suc y, i) := k)) (before nx (Suc y) (Suc i))"
proof -
  let ?D = "before nx (Suc y) i" and ?p = "(Suc y, i)"
  have p: "?p \<in> pixels L nx" using i by (simp add: pixels_def)
  have D: "(y, x) \<in> ?D" if "x < nx" for x using that by (simp add: before_def)
  have c: "nConnectedness e = c" using l by (simp add: labelled_def)
  note cells = holds_lineD [OF lastVal] holds_lineD [OF thisVal] holds_lineD [OF lastId] holds_lineD [OF ids]
  define left where "left \<longleftrightarrow> i > 0 \<and> pix L ?p = pix L (Suc y, i - 1)"
  define up where "up \<longleftrightarrow> pix L (y, i) = pix L ?p"
  define upleft where "upleft \<longleftrightarrow> i > 0 \<and> c = 8 \<and> pix L (y, i - 1) = pix L ?p"
  define upright where "upright \<longleftrightarrow> i + 1 < nx \<and> c = 8 \<and> pix L (y, i + 1) = pix L ?p"
  note next_def = next_line_pixel_def Let_def eq_at_def c left_def up_def upleft_def upright_def
  consider "left" | "\<not> left" "up" | "\<not> left" "\<not> up" "upleft" | "\<not> left" "\<not> up" "\<not> upleft" "upright"
    | "\<not> left" "\<not> up" "\<not> upleft" "\<not> upright" by blast
  then show ?thesis
  proof cases
    case 1
    then have i0: "i > 0" and same: "pix L ?p = pix L (Suc y, i - 1)" by (auto simp: left_def)
    let ?k = "lb (Suc y, i - 1)" let ?lb = "lb(?p := ?k)"
    have h0: "hanging L nx c e ?lb ?D ?p {(Suc y, i - 1)}"
      by (rule hang_start [OF l p before_self]) (use i0 same in \<open>auto simp: before_def\<close>)
    have "\<exists>e1 S1. (if True then try_merge lastVal thisVal lastId i ?k i e else Some e) = Some e1 \<and> hanging L nx c e1 ?lb ?D ?p S1
      \<and> {(Suc y, i - 1)} \<subseteq> S1 \<and> (True \<and> pix L ?p = pix L (y, i) \<longrightarrow> (y, i) \<in> S1)"
      by (rule hang_merge_if [OF h0]) (use i cells D in simp_all)
    then obtain e1 S1 where 1: "try_merge lastVal thisVal lastId i ?k i e = Some e1" "hanging L nx c e1 ?lb ?D ?p S1"
        "{(Suc y, i - 1)} \<subseteq> S1" "pix L ?p = pix L (y, i) \<longrightarrow> (y, i) \<in> S1" by auto
    have "\<exists>e2 S2. (if c = 8 then try_merge lastVal thisVal lastId i ?k (i - 1) e1 else Some e1) = Some e2 \<and> hanging L nx c e2 ?lb ?D ?p S2
      \<and> S1 \<subseteq> S2 \<and> (c = 8 \<and> pix L ?p = pix L (y, i - 1) \<longrightarrow> (y, i - 1) \<in> S2)"
      by (rule hang_merge_if [OF 1(2)]) (use i i0 cells D in simp_all)
    then obtain e2 S2 where 2: "(if c = 8 then try_merge lastVal thisVal lastId i ?k (i - 1) e1 else Some e1) = Some e2"
        "hanging L nx c e2 ?lb ?D ?p S2" "S1 \<subseteq> S2" "c = 8 \<and> pix L ?p = pix L (y, i - 1) \<longrightarrow> (y, i - 1) \<in> S2" by blast
    have "\<exists>e3 S3. (if c = 8 \<and> i + 1 < nx then try_merge lastVal thisVal lastId i ?k (i + 1) e2 else Some e2) = Some e3
      \<and> hanging L nx c e3 ?lb ?D ?p S3 \<and> S2 \<subseteq> S3 \<and> ((c = 8 \<and> i + 1 < nx) \<and> pix L ?p = pix L (y, i + 1) \<longrightarrow> (y, i + 1) \<in> S3)"
      by (rule hang_merge_if [OF 2(2)]) (use i cells D in simp_all)
    then obtain e3 S3 where 3: "(if c = 8 \<and> i + 1 < nx then try_merge lastVal thisVal lastId i ?k (i + 1) e2 else Some e2) = Some e3"
        "hanging L nx c e3 ?lb ?D ?p S3" "S2 \<subseteq> S3" "(c = 8 \<and> i + 1 < nx) \<and> pix L ?p = pix L (y, i + 1) \<longrightarrow> (y, i + 1) \<in> S3" by blast
    have "labelled L nx c e3 ?lb (insert ?p ?D)"
      by (rule hang_end [OF 3(2)]) (use 1(3,4) 2(3,4) 3(3,4) in \<open>auto dest!: adjacent_before\<close>)
    moreover have "nConnectedness e1 = c" "nConnectedness e2 = c" using 1(2) 2(2) by (simp_all add: hanging_def)
    then have "next_line_pixel lastVal thisVal lastId nx e ids i = Some (e3, ?k)"
      using i i0 same 1(1) 2(1) 3(1) cells unfolding next_line_pixel_def Let_def eq_at_def by (simp cong: if_cong)
    ultimately show ?thesis unfolding before_Suc by blast
  next
    case 2
    let ?lb = "lb(?p := lb (y, i))"
    have h: "hanging L nx c e ?lb ?D ?p {(y, i)}"
      by (rule hang_start [OF l p before_self D [OF i(1)]]) (use 2 in \<open>auto simp: up_def\<close>)
    have "\<exists>S. hanging L nx c e ?lb ?D ?p S \<and> {(y, i)} \<subseteq> S \<and> (upleft \<longrightarrow> (y, i - 1) \<in> S)"
      by (rule hang_more_if [OF h, where q = "(y, i)"]) (use 2 D i in \<open>simp add: upleft_def up_def\<close>)
    then obtain S1 where 1: "hanging L nx c e ?lb ?D ?p S1" "(y, i) \<in> S1" "upleft \<longrightarrow> (y, i - 1) \<in> S1" by blast
    have "\<exists>S. hanging L nx c e ?lb ?D ?p S \<and> S1 \<subseteq> S \<and> (upright \<longrightarrow> (y, i + 1) \<in> S)"
      by (rule hang_more_if [OF 1(1), where q = "(y, i)"]) (use 1(2) 2 D i in \<open>simp add: upright_def up_def\<close>)
    then obtain S2 where S2: "hanging L nx c e ?lb ?D ?p S2" "S1 \<subseteq> S2" "upright \<longrightarrow> (y, i + 1) \<in> S2" by blast
    have "labelled L nx c e ?lb (insert ?p ?D)"
      by (rule hang_end [OF S2(1)])
        (use 1(2,3) S2(2,3) 2 in \<open>auto simp: left_def upleft_def upright_def dest!: adjacent_before\<close>)
    moreover have "next_line_pixel lastVal thisVal lastId nx e ids i = Some (e, lb (y, i))"
      using i 2 cells by (auto simp: next_def)
    ultimately show ?thesis unfolding before_Suc by blast
  next
    case 3
    let ?k = "lb (y, i - 1)" let ?lb = "lb(?p := ?k)"
    have i0: "i > 0" "c = 8" "pix L ?p = pix L (y, i - 1)" using 3 by (auto simp: upleft_def)
    have h0: "hanging L nx c e ?lb ?D ?p {(y, i - 1)}"
      by (rule hang_start [OF l p before_self]) (use i i0 in \<open>auto simp: before_def\<close>)
    have "\<exists>e1 S1. (if i + 1 < nx then try_merge lastVal thisVal lastId i ?k (i + 1) e else Some e) = Some e1
      \<and> hanging L nx c e1 ?lb ?D ?p S1 \<and> {(y, i - 1)} \<subseteq> S1 \<and> (i + 1 < nx \<and> pix L ?p = pix L (y, i + 1) \<longrightarrow> (y, i + 1) \<in> S1)"
      by (rule hang_merge_if [OF h0]) (use i i0 cells D in simp_all)
    then obtain e1 S1 where 1: "(if i + 1 < nx then try_merge lastVal thisVal lastId i ?k (i + 1) e else Some e) = Some e1"
        "hanging L nx c e1 ?lb ?D ?p S1" "{(y, i - 1)} \<subseteq> S1" "i + 1 < nx \<and> pix L ?p = pix L (y, i + 1) \<longrightarrow> (y, i + 1) \<in> S1" by blast
    have "labelled L nx c e1 ?lb (insert ?p ?D)"
      by (rule hang_end [OF 1(2)]) (use 1(3,4) 3 in \<open>auto simp: left_def up_def dest!: adjacent_before\<close>)
    moreover have "next_line_pixel lastVal thisVal lastId nx e ids i = Some (e1, ?k)"
      using i i0 1(1) 3 cells by (auto simp: next_def)
    ultimately show ?thesis unfolding before_Suc by blast
  next
    case 4
    let ?lb = "lb(?p := lb (y, i + 1))"
    have i0: "i + 1 < nx" "c = 8" "pix L ?p = pix L (y, i + 1)" using 4 by (auto simp: upright_def)
    have h: "hanging L nx c e ?lb ?D ?p {(y, i + 1)}"
      by (rule hang_start [OF l p before_self D [OF i0(1)]]) (use i0 in auto)
    have "labelled L nx c e ?lb (insert ?p ?D)"
      by (rule hang_end [OF h]) (use 4 in \<open>auto simp: left_def up_def upleft_def dest!: adjacent_before\<close>)
    moreover have "next_line_pixel lastVal thisVal lastId nx e ids i = Some (e, lb (y, i + 1))"
      using i i0 4 cells by (auto simp: next_def)
    ultimately show ?thesis unfolding before_Suc by blast
  next
    case 5
    have "\<exists>e' k. NewPolygon e (pix L ?p) = Some (e', k) \<and> labelled L nx c e' (lb(?p := k)) (insert ?p ?D)"
      by (rule label_new [OF l p before_self small])
        (use 5 in \<open>auto simp: left_def up_def upleft_def upright_def dest!: adjacent_before\<close>)
    moreover have "next_line_pixel lastVal thisVal lastId nx e ids i = NewPolygon e (pix L ?p)"
      using i 5 cells by (auto simp: next_def)
    ultimately show ?thesis unfolding before_Suc by simp
  qed
qed

lemma holds_line_other: "holds_line xs lb y n \<Longrightarrow> y \<noteq> y' \<or> n \<le> i \<Longrightarrow> holds_line xs (lb((y', i) := k)) y n"
  by (auto simp: holds_line_def)

lemma holds_line_append:
  "holds_line ids lb y i \<Longrightarrow> length ids = i \<Longrightarrow> holds_line (ids @ [k]) (lb((y, i) := k)) y (Suc i)"
  by (auto simp: holds_line_def cell_def nth_append less_Suc_eq)

text \<open>\<open>prev\<close> holds the values and the numbers of the line above \<open>y\<close>.\<close>

definition prev_line ::
    "int list list \<Rightarrow> nat \<Rightarrow> (pixel \<Rightarrow> nat) \<Rightarrow> nat \<Rightarrow> (int list \<times> nat list) option \<Rightarrow> bool" where
  "prev_line L nx lb y prev \<longleftrightarrow> (case prev of None \<Rightarrow> y = 0
     | Some (vs, ids) \<Rightarrow> y > 0 \<and> holds_line vs (pix L) (y - 1) nx \<and> holds_line ids lb (y - 1) nx)"

lemma ProcessLine_loop:
  "ProcessLine e prev vs nx = pixel_loop (case prev of None \<Rightarrow> first_line_pixel vs
     | Some (lastVal, lastId) \<Rightarrow> next_line_pixel lastVal vs lastId nx) [0..<nx] e []"
  by (auto simp: ProcessLine_def split: option.splits)

lemma any_line_step:
  assumes "labelled L nx c e lb (before nx y i)" "i < nx" "y < length L" "length L * nx \<le> 2 ^ 28 - 10"
    and "prev_line L nx lb y prev" "holds_line vs (pix L) y nx" "holds_line ids lb y i"
  shows "\<exists>e' k. (case prev of None \<Rightarrow> first_line_pixel vs | Some (lastVal, lastId) \<Rightarrow> next_line_pixel lastVal vs lastId nx) e ids i
      = Some (e', k) \<and> labelled L nx c e' (lb((y, i) := k)) (before nx y (Suc i))"
proof (cases prev)
  case None
  then have "y = 0" "L \<noteq> []" using assms(3,5) by (auto simp: prev_line_def)
  then show ?thesis using first_line_step [of L nx c e lb i vs ids] assms None by simp
next
  case (Some p)
  then obtain y' lastVal lastId where y': "y = Suc y'" "p = (lastVal, lastId)" "holds_line lastVal (pix L) y' nx" "holds_line lastId lb y' nx"
    using assms(5) by (cases y) (auto simp: prev_line_def)
  then show ?thesis using next_line_step [of L nx c e lb y' i lastVal vs lastId ids] assms Some by simp
qed

lemma line_loop_labels:
  assumes "labelled L nx c e lb (before nx y i)" "i \<le> nx" "y < length L" "length L * nx \<le> 2 ^ 28 - 10"
    and "prev_line L nx lb y prev" "holds_line vs (pix L) y nx" "holds_line ids lb y i" "length ids = i"
  shows "\<exists>e' ids' lb'. pixel_loop (case prev of None \<Rightarrow> first_line_pixel vs
        | Some (lastVal, lastId) \<Rightarrow> next_line_pixel lastVal vs lastId nx) [i..<nx] e ids = Some (e', ids')
     \<and> labelled L nx c e' lb' (before nx y nx) \<and> holds_line ids' lb' y nx \<and> length ids' = nx
     \<and> (\<forall>p \<in> before nx y i. lb' p = lb p)"
  using assms
proof (induction "nx - i" arbitrary: e lb i ids)
  case 0
  then have "i = nx" by simp
  then show ?case using 0 by (intro exI [of _ e] exI [of _ ids] exI [of _ lb]) simp
next
  case (Suc l)
  let ?f = "case prev of None \<Rightarrow> first_line_pixel vs | Some (lastVal, lastId) \<Rightarrow> next_line_pixel lastVal vs lastId nx"
  have i: "i < nx" using Suc.hyps(2) by simp
  from any_line_step [OF Suc.prems(1) i Suc.prems(3-7)] obtain e1 k where
    step: "?f e ids i = Some (e1, k)" and l1: "labelled L nx c e1 (lb((y, i) := k)) (before nx y (Suc i))" by blast
  have "prev_line L nx (lb((y, i) := k)) y prev"
    using Suc.prems(5) by (auto simp: prev_line_def intro!: holds_line_other split: option.splits)
  moreover have "holds_line (ids @ [k]) (lb((y, i) := k)) y (Suc i)" by (rule holds_line_append [OF Suc.prems(7,8)])
  moreover have "l = nx - Suc i" "Suc i \<le> nx" "length (ids @ [k]) = Suc i" using Suc.hyps(2) i Suc.prems(8) by simp_all
  ultimately obtain e' ids' lb' where r: "pixel_loop ?f [Suc i..<nx] e1 (ids @ [k]) = Some (e', ids')"
    "labelled L nx c e' lb' (before nx y nx)" "holds_line ids' lb' y nx" "length ids' = nx"
    "\<forall>p \<in> before nx y (Suc i). lb' p = (lb((y, i) := k)) p"
    using Suc.hyps(1) [of "Suc i" e1 "lb((y, i) := k)" "ids @ [k]"] l1 Suc.prems(3,4,6) by blast
  have "pixel_loop ?f [i..<nx] e ids = Some (e', ids')" using step r(1) i by (simp add: upt_rec [of i])
  moreover have "\<forall>p \<in> before nx y i. lb' p = lb p" using r(5) unfolding before_Suc by auto
  ultimately show ?case using r(2-4) by blast
qed

lemma ProcessLine_labels:
  assumes "labelled L nx c e lb (before nx y 0)" "y < length L" "length L * nx \<le> 2 ^ 28 - 10"
    and "prev_line L nx lb y prev" "holds_line vs (pix L) y nx"
  shows "\<exists>e' ids lb'. ProcessLine e prev vs nx = Some (e', ids) \<and> labelled L nx c e' lb' (before nx (Suc y) 0)
     \<and> prev_line L nx lb' (Suc y) (Some (vs, ids)) \<and> length ids = nx \<and> (\<forall>p \<in> before nx y 0. lb' p = lb p)"
proof -
  have "holds_line [] lb y 0" by (simp add: holds_line_def)
  from line_loop_labels [OF assms(1) _ assms(2-5) this] obtain e' ids lb' where
    r: "ProcessLine e prev vs nx = Some (e', ids)" "labelled L nx c e' lb' (before nx y nx)" "holds_line ids lb' y nx"
      "length ids = nx" "\<forall>p \<in> before nx y 0. lb' p = lb p" unfolding ProcessLine_loop by auto
  then show ?thesis using assms(5) unfolding before_line by (intro exI [of _ e'] exI [of _ ids] exI [of _ lb']) (simp add: prev_line_def)
qed

section \<open>Rasters\<close>

text \<open>Clients hand the lines of a raster to the enumerator one after the other, each with the line before it and its numbers.\<close>

fun enumerate_lines ::
    "GDALRasterPolygonEnumerator \<Rightarrow> (int list \<times> nat list) option \<Rightarrow> int list list \<Rightarrow> nat
      \<Rightarrow> (GDALRasterPolygonEnumerator \<times> nat list list) option" where
  "enumerate_lines e prev [] nXSize = Some (e, [])"
| "enumerate_lines e prev (vs # rest) nXSize = do {
     (e, ids) \<leftarrow> ProcessLine e prev vs nXSize;
     (e, idss) \<leftarrow> enumerate_lines e (Some (vs, ids)) rest nXSize;
     Some (e, ids # idss)
   }"

text \<open>The final number of a pixel.\<close>

definition final :: "GDALRasterPolygonEnumerator \<Rightarrow> nat list list \<Rightarrow> pixel \<Rightarrow> nat" where
  "final e idss p = panPolyIdMap e ! (idss ! fst p ! snd p)"

lemma before_all: "before nx (length L) 0 = pixels L nx"
  by (auto simp: before_def pixels_def)

lemma ClearPolygons_new: "ClearPolygons e = new_enumerator (nConnectedness e)"
  by (cases e) (simp add: ClearPolygons_def new_enumerator_def)

lemma new_labelled: "labelled L nx c (new_enumerator c) lb (before nx 0 0)"
  by (auto simp: labelled_def numbered_def joined_def new_enumerator_def before_def forest_def ranked_def)

lemma enumerate_labels:
  assumes "labelled L nx c e lb (before nx y 0)" "y \<le> length L" "prev_line L nx lb y prev"
    and small: "length L * nx \<le> 2 ^ 28 - 10" and rect: "\<forall>vs \<in> set L. length vs = nx"
  shows "\<exists>e' idss lb'. enumerate_lines e prev (drop y L) nx = Some (e', idss) \<and> labelled L nx c e' lb' (pixels L nx)
    \<and> length idss = length L - y \<and> (\<forall>p \<in> before nx y 0. lb' p = lb p)
    \<and> (\<forall>j < length L - y. length (idss ! j) = nx \<and> (\<forall>x < nx. idss ! j ! x = lb' (y + j, x)))"
  using assms(1-3)
proof (induction "length L - y" arbitrary: e lb y prev)
  case 0
  then have "y = length L" by simp
  then show ?case using 0 by (intro exI [of _ e] exI [of _ "[]"] exI [of _ lb]) (simp add: before_all)
next
  case (Suc l)
  then have y: "y < length L" by simp
  have vs: "holds_line (L ! y) (pix L) y nx" using rect y by (auto simp: holds_line_def cell_def pix_def)
  from ProcessLine_labels [OF Suc.prems(1) y small Suc.prems(3) vs] obtain e1 ids lb1 where
    l1: "ProcessLine e prev (L ! y) nx = Some (e1, ids)" "labelled L nx c e1 lb1 (before nx (Suc y) 0)"
      "prev_line L nx lb1 (Suc y) (Some (L ! y, ids))" "length ids = nx" "\<forall>p \<in> before nx y 0. lb1 p = lb p" by blast
  have "l = length L - Suc y" "Suc y \<le> length L" using Suc.hyps(2) y by simp_all
  from Suc.hyps(1) [OF this(1) l1(2) this(2) l1(3)] obtain e' idss lb' where
    r: "enumerate_lines e1 (Some (L ! y, ids)) (drop (Suc y) L) nx = Some (e', idss)" "labelled L nx c e' lb' (pixels L nx)"
      "length idss = length L - Suc y" "\<forall>p \<in> before nx (Suc y) 0. lb' p = lb1 p"
      "\<forall>j < length L - Suc y. length (idss ! j) = nx \<and> (\<forall>x < nx. idss ! j ! x = lb' (Suc y + j, x))" by blast
  have "drop y L = L ! y # drop (Suc y) L" using y by (simp add: Cons_nth_drop_Suc)
  then have "enumerate_lines e prev (drop y L) nx = Some (e', ids # idss)" using l1(1) r(1) by simp
  moreover have "\<forall>p \<in> before nx y 0. lb' p = lb p" using r(4) l1(5) unfolding before_line by (auto simp: before_def)
  moreover have "length ((ids # idss) ! j) = nx \<and> (\<forall>x < nx. (ids # idss) ! j ! x = lb' (y + j, x))" if "j < length L - y" for j
  proof (cases j)
    case 0
    have "ids ! x = lb' (y, x)" if "x < nx" for x
    proof -
      have "cell ids x = Some (lb1 (y, x))" using l1(3) that by (simp add: prev_line_def holds_line_def)
      moreover have "(y, x) \<in> before nx (Suc y) 0" using that by (simp add: before_def)
      ultimately show ?thesis using r(4) l1(4) that by (simp add: cell_def)
    qed
    then show ?thesis using 0 l1(4) by simp
  next
    case (Suc k)
    then show ?thesis using r(5) that by auto
  qed
  ultimately show ?case using r(2,3) y by (intro exI [of _ e'] exI [of _ "ids # idss"] exI [of _ lb']) simp
qed

lemma region_pixels: "(p, q) \<in> region L nx c \<Longrightarrow> p \<in> pixels L nx \<Longrightarrow> q \<in> pixels L nx"
  unfolding region_def by (induction rule: rtrancl_induct) (auto simp: touching_def)

lemma numbered_regions:
  assumes n: "numbered L nx e r lb (pixels L nx)" and j: "joined L (nConnectedness e) r lb (pixels L nx)"
    and p: "p \<in> pixels L nx" "q \<in> pixels L nx"
  shows "r (lb p) = r (lb q) \<longleftrightarrow> (p, q) \<in> region L nx (nConnectedness e)"
proof
  have "(p, q) \<in> (touching L nx (nConnectedness e))\<^sup>* \<Longrightarrow> r (lb p) = r (lb q)"
    by (induction rule: rtrancl_induct) (use j in \<open>auto simp: touching_def joined_def\<close>)
  then show "(p, q) \<in> region L nx (nConnectedness e) \<Longrightarrow> r (lb p) = r (lb q)" by (simp add: region_def)
qed (rule numberedD(9) [OF n p])

lemma numbered_quotient:
  assumes n: "numbered L nx e r lb (pixels L nx)" and j: "joined L (nConnectedness e) r lb (pixels L nx)"
  shows "card (pixels L nx // region L nx (nConnectedness e)) = card {i \<in> {0..<nNextPolygonId e}. r i = i}"
proof -
  let ?A = "pixels L nx" and ?R = "region L nx (nConnectedness e)"
  let ?f = "\<lambda>p. r (lb p)" and ?g = "\<lambda>y. {q \<in> pixels L nx. r (lb q) = y}"
  have "?R `` {p} = ?g (?f p)" if "p \<in> ?A" for p
  proof (rule set_eqI)
    fix q
    show "q \<in> ?R `` {p} \<longleftrightarrow> q \<in> ?g (?f p)"
      using numbered_regions [OF n j that, of q] region_pixels [of p q L nx "nConnectedness e"] that by auto
  qed
  then have "?A // ?R = ?g ` ?f ` ?A" unfolding quotient_def by (auto simp: image_iff)
  moreover have "inj_on ?g (?f ` ?A)" by (rule inj_onI) blast
  ultimately have "card (?A // ?R) = card (?f ` ?A)" by (simp add: card_image)
  moreover have "?f ` ?A = r ` lb ` ?A" by (simp add: image_image)
  moreover have "r ` {..<nNextPolygonId e} = {i \<in> {0..<nNextPolygonId e}. r i = i}"
    using forest_root(2,4) [OF numberedD(1) [OF n]] numberedD(2) [OF n] by (auto simp: image_iff) (metis lessThan_iff)+
  ultimately show ?thesis using numberedD(6) [OF n] by simp
qed

lemma CompleteMerges_roots:
  assumes n: "numbered L nx e r lb D"
  shows "\<exists>m. CompleteMerges e = Some (e\<lparr>panPolyIdMap := m\<rparr>, card {i \<in> {0..<nNextPolygonId e}. r i = i})
    \<and> length m = nNextPolygonId e \<and> (\<forall>i < nNextPolygonId e. m ! i = r i)"
proof -
  obtain h where "ranked (panPolyIdMap e) r h" using numberedD(1) [OF n] by (auto simp: forest_def)
  from complete_roots [OF this, of 0 0] numberedD(2) [OF n] show ?thesis by (auto simp: CompleteMerges_def)
qed

text \<open>What two passes of a client over a raster know: the numbers of the pixels, and after \<open>CompleteMerges\<close> those of the regions.\<close>

definition regions_of ::
    "int list list \<Rightarrow> nat \<Rightarrow> nat \<Rightarrow> GDALRasterPolygonEnumerator \<Rightarrow> nat list list \<Rightarrow> bool" where
  "regions_of L nx c e idss \<longleftrightarrow>
     length (panPolyIdMap e) = nNextPolygonId e \<and> length (panPolyValue e) = nNextPolygonId e
     \<and> length idss = length L \<and> (\<forall>ids \<in> set idss. length ids = nx \<and> (\<forall>k \<in> set ids. k < nNextPolygonId e))
     \<and> (\<forall>k < nNextPolygonId e. \<exists>p \<in> pixels L nx. idss ! fst p ! snd p = k)
     \<and> (\<forall>k < nNextPolygonId e. panPolyIdMap e ! k < nNextPolygonId e \<and> panPolyIdMap e ! (panPolyIdMap e ! k) = panPolyIdMap e ! k)
     \<and> (\<forall>p \<in> pixels L nx. \<forall>q \<in> pixels L nx. final e idss p = final e idss q \<longleftrightarrow> (p, q) \<in> region L nx c)
     \<and> (\<forall>p \<in> pixels L nx. panPolyValue e ! final e idss p = pix L p)"

lemma enumerate_regions:
  assumes small: "length L * nx \<le> 2 ^ 28 - 10" and rect: "\<forall>vs \<in> set L. length vs = nx"
  shows "\<exists>e idss e' n. enumerate_lines (new_enumerator c) None L nx = Some (e, idss) \<and> CompleteMerges e = Some (e', n)
    \<and> nNextPolygonId e' = nNextPolygonId e \<and> regions_of L nx c e' idss \<and> n = card (pixels L nx // region L nx c)"
proof -
  have "prev_line L nx (\<lambda>_. 0) 0 None" by (simp add: prev_line_def)
  from enumerate_labels [OF new_labelled [of L nx c] _ this small rect] obtain e idss lb where
    en: "enumerate_lines (new_enumerator c) None L nx = Some (e, idss)" and l: "labelled L nx c e lb (pixels L nx)"
    and len: "length idss = length L" "\<forall>j < length L. length (idss ! j) = nx \<and> (\<forall>x < nx. idss ! j ! x = lb (j, x))" by auto
  then obtain r where n: "numbered L nx e r lb (pixels L nx)" and j: "joined L c r lb (pixels L nx)" and c: "nConnectedness e = c"
    by (auto simp: labelled_def)
  from CompleteMerges_roots [OF n] obtain m where m: "CompleteMerges e = Some (e\<lparr>panPolyIdMap := m\<rparr>, card {i \<in> {0..<nNextPolygonId e}. r i = i})"
    "length m = nNextPolygonId e" "\<forall>i < nNextPolygonId e. m ! i = r i" by blast
  have id: "idss ! fst p ! snd p = lb p" "lb p < nNextPolygonId e" if "p \<in> pixels L nx" for p
    using len that numberedD(8) [OF n that] by (auto simp: pixels_def)
  have fin: "final (e\<lparr>panPolyIdMap := m\<rparr>) idss p = r (lb p)" if "p \<in> pixels L nx" for p
    using id [OF that] m(3) by (simp add: final_def)
  have root: "r k < nNextPolygonId e" "r (r k) = r k" if "k < nNextPolygonId e" for k
    using forest_root [OF numberedD(1) [OF n], of k] numberedD(2) [OF n] that by simp_all
  have used: "\<exists>p \<in> pixels L nx. lb p = k" if "k < nNextPolygonId e" for k
    using numberedD(6) [OF n] that by (metis imageE lessThan_iff)
  have val: "panPolyValue e ! r (lb p) = pix L p" if p: "p \<in> pixels L nx" for p
  proof -
    obtain q where q: "q \<in> pixels L nx" "lb q = r (lb p)" using used [OF root(1) [OF id(2) [OF p]]] by blast
    then have "(p, q) \<in> region L nx (nConnectedness e)" using root(2) [OF id(2) [OF p]] by (intro numberedD(9) [OF n p q(1)]) simp
    then show ?thesis using numberedD(7) [OF n q(1)] q(2) region_pix by metis
  qed
  have "regions_of L nx c (e\<lparr>panPolyIdMap := m\<rparr>) idss"
    unfolding regions_of_def
  proof (intro conjI ballI allI impI)
    fix ids assume "ids \<in> set idss"
    then obtain y where y: "y < length L" "ids = idss ! y" using len(1) by (metis in_set_conv_nth)
    then show "length ids = nx" using len(2) by simp
    fix k assume "k \<in> set ids"
    then obtain x where "x < nx" "k = lb (y, x)" using y len(2) by (metis in_set_conv_nth)
    then show "k < nNextPolygonId (e\<lparr>panPolyIdMap := m\<rparr>)" using id(2) [of "(y, x)"] y(1) by (simp add: pixels_def)
  next
    fix k assume "k < nNextPolygonId (e\<lparr>panPolyIdMap := m\<rparr>)"
    then have k: "k < nNextPolygonId e" by simp
    obtain p where "p \<in> pixels L nx" "lb p = k" using used [OF k] by blast
    then show "\<exists>p \<in> pixels L nx. idss ! fst p ! snd p = k" using id(1) by blast
    show "panPolyIdMap (e\<lparr>panPolyIdMap := m\<rparr>) ! k < nNextPolygonId (e\<lparr>panPolyIdMap := m\<rparr>)"
      "panPolyIdMap (e\<lparr>panPolyIdMap := m\<rparr>) ! (panPolyIdMap (e\<lparr>panPolyIdMap := m\<rparr>) ! k) = panPolyIdMap (e\<lparr>panPolyIdMap := m\<rparr>) ! k"
      using root [OF k] m(3) k by simp_all
  next
    fix p q assume p: "p \<in> pixels L nx" and q: "q \<in> pixels L nx"
    show "final (e\<lparr>panPolyIdMap := m\<rparr>) idss p = final (e\<lparr>panPolyIdMap := m\<rparr>) idss q \<longleftrightarrow> (p, q) \<in> region L nx c"
      using numbered_regions [OF n _ p q] j fin [OF p] fin [OF q] c by simp
  next
    fix p assume p: "p \<in> pixels L nx"
    show "panPolyValue (e\<lparr>panPolyIdMap := m\<rparr>) ! final (e\<lparr>panPolyIdMap := m\<rparr>) idss p = pix L p"
      using val [OF p] fin [OF p] by simp
  qed (use m(2) numberedD(3) [OF n] len(1) in simp_all)
  then show ?thesis using en m(1) numbered_quotient [OF n] j c
    by (intro exI [of _ e] exI [of _ idss] exI [of _ "e\<lparr>panPolyIdMap := m\<rparr>"]) simp
qed

text \<open>C9: the polygon enumerator. For every raster of fewer than \<open>2\<^sup>28 - 10\<close> pixels the enumerator returns, and after the merges
are completed two pixels have the same number exactly if they are connected by steps between neighbours of equal value (four
neighbours, or eight), the value of a number is that of its pixels, and the number of regions is counted.\<close>
theorem polygon_enumerator_finds_regions:
  assumes "length L * nx \<le> 2 ^ 28 - 10" "\<forall>vs \<in> set L. length vs = nx"
  shows "\<exists>e idss e' n. enumerate_lines (new_enumerator c) None L nx = Some (e, idss) \<and> CompleteMerges e = Some (e', n)
    \<and> (\<forall>p \<in> pixels L nx. \<forall>q \<in> pixels L nx. final e' idss p = final e' idss q \<longleftrightarrow> (p, q) \<in> region L nx c)
    \<and> (\<forall>p \<in> pixels L nx. panPolyValue e' ! final e' idss p = pix L p)
    \<and> n = card (pixels L nx // region L nx c)"
  using enumerate_regions [OF assms, of c] unfolding regions_of_def by blast

declare find_root.simps [code] flatten.simps [code]

text \<open>A diagonal line on a background of zeros: with eight neighbours two regions, with four neighbours five.\<close>

definition diagonal :: "int list list" where
  "diagonal = [[1, 0, 0], [0, 1, 0], [0, 0, 1]]"

theorem polygon_enumerator_finds_regions_witness:
  "card (pixels diagonal 3 // region diagonal 3 8) = 2 \<and> card (pixels diagonal 3 // region diagonal 3 4) = 5"
proof -
  have count: "Option.bind (enumerate_lines (new_enumerator 8) None diagonal 3) (\<lambda>(e, idss). map_option snd (CompleteMerges e)) = Some 2"
    "Option.bind (enumerate_lines (new_enumerator 4) None diagonal 3) (\<lambda>(e, idss). map_option snd (CompleteMerges e)) = Some 5"
    by code_simp+
  have ok: "length diagonal * 3 \<le> 2 ^ 28 - 10" "\<forall>vs \<in> set diagonal. length vs = 3" by (simp_all add: diagonal_def)
  from polygon_enumerator_finds_regions [OF ok, of 8] polygon_enumerator_finds_regions [OF ok, of 4] count show ?thesis by auto
qed

end
