(* ===== verification/Gdal_Sieve_Filter.thy ===== *)
theory Gdal_Sieve_Filter
  imports Gdal_Polygon_Enum
begin

text \<open>
  \<^verbatim>\<open>GDALSieveFilter\<close> of \<^verbatim>\<open>alg/gdalsievefilter.cpp\<close>: three passes over a raster that replace the pixels of small regions by
  the value of their largest neighbour. Lines are read and written through the parameters of the record \<open>raster_io\<close>, each
  a function on the state \<open>'s\<close> of the bands and of the progress report. An access outside an array has the value \<open>None\<close>.
\<close>

section \<open>Definitions\<close>

text \<open>
  \<^verbatim>\<open>GDALRasterIO\<close> on one line of the source, of the mask (if there is one) and of the destination, and \<^verbatim>\<open>pfnProgress\<close>,
  which gets the pass and the line its fraction is computed from. A read returns the contents of the buffer.
\<close>

record 's raster_io =
  ReadLine :: "'s \<Rightarrow> nat \<Rightarrow> CPLErr \<times> int list \<times> 's"
  ReadMask :: "('s \<Rightarrow> nat \<Rightarrow> CPLErr \<times> byte list \<times> 's) option"
  WriteLine :: "'s \<Rightarrow> nat \<Rightarrow> int list \<Rightarrow> CPLErr \<times> 's"
  Progress :: "'s \<Rightarrow> nat \<Rightarrow> nat \<Rightarrow> bool \<times> 's"

definition GP_NODATA_MARKER :: int where "GP_NODATA_MARKER = - 51502112"

definition MY_MAX_INT :: int where "MY_MAX_INT = 2147483647"

definition mask_line :: "byte list \<Rightarrow> int list \<Rightarrow> int list" where
  "mask_line pabyMaskLine panImageLine =
     map2 (\<lambda>k v. if k = 0 then GP_NODATA_MARKER else v) pabyMaskLine panImageLine"

definition GPMaskImageData ::
    "('s \<Rightarrow> nat \<Rightarrow> CPLErr \<times> byte list \<times> 's) \<Rightarrow> nat \<Rightarrow> int list \<Rightarrow> 's \<Rightarrow> CPLErr \<times> int list \<times> 's" where
  "GPMaskImageData hMaskBand iY panImageLine s =
     (let (eErr, pabyMaskLine, s) = hMaskBand s iY
      in (eErr, if eErr = CE_None then mask_line pabyMaskLine panImageLine else panImageLine, s))"

text \<open>Reading a line, and masking it when there is a mask: the error, the line as read and as masked.\<close>

definition read_masked :: "'s raster_io \<Rightarrow> 's \<Rightarrow> nat \<Rightarrow> CPLErr \<times> int list \<times> int list \<times> 's" where
  "read_masked io s iY =
     (let (eErr, line, s) = ReadLine io s iY
      in case ReadMask io of
           Some hMaskBand \<Rightarrow>
             if eErr = CE_None then let (eErr, masked, s) = GPMaskImageData hMaskBand iY line s in (eErr, line, masked, s)
             else (eErr, line, line, s)
         | None \<Rightarrow> (eErr, line, line, s))"

definition report :: "'s raster_io \<Rightarrow> CPLErr \<Rightarrow> 's \<Rightarrow> nat \<Rightarrow> nat \<Rightarrow> CPLErr \<times> 's" where
  "report io eErr s pass iY =
     (if eErr = CE_None then let (go, s) = Progress io s pass iY in if \<not> go then (CE_Failure, s) else (eErr, s) else (eErr, s))"

text \<open>First pass: the sizes of the polygons.\<close>

fun count_pixels :: "nat list \<Rightarrow> int list \<Rightarrow> int list option" where
  "count_pixels [] anPolySizes = Some anPolySizes"
| "count_pixels (iPoly # ids) anPolySizes = do {
     n \<leftarrow> cell anPolySizes iPoly;
     count_pixels ids (if n < MY_MAX_INT then anPolySizes[iPoly := n + 1] else anPolySizes)
   }"

definition grow_sizes :: "nat \<Rightarrow> int list \<Rightarrow> int list" where
  "grow_sizes n anPolySizes = anPolySizes @ replicate (n - length anPolySizes) 0"

fun first_pass ::
    "'s raster_io \<Rightarrow> nat \<Rightarrow> nat list \<Rightarrow> CPLErr \<Rightarrow> GDALRasterPolygonEnumerator \<Rightarrow> (int list \<times> nat list) option \<Rightarrow> int list \<Rightarrow> 's
      \<Rightarrow> (CPLErr \<times> GDALRasterPolygonEnumerator \<times> int list \<times> 's) option" where
  "first_pass io nXSize [] eErr e prev anPolySizes s = Some (eErr, e, anPolySizes, s)"
| "first_pass io nXSize (iY # rest) eErr e prev anPolySizes s =
     (if eErr \<noteq> CE_None then Some (eErr, e, anPolySizes, s)
      else do {
        let (eErr, line, masked, s) = read_masked io s iY;
        (e, ids) \<leftarrow> ProcessLine e prev masked nXSize;
        anPolySizes \<leftarrow> count_pixels ids (grow_sizes (nNextPolygonId e) anPolySizes);
        let (eErr, s) = report io eErr s 1 iY;
        first_pass io nXSize rest eErr e (Some (masked, ids)) anPolySizes s
      })"

fun push_sizes :: "nat list \<Rightarrow> nat list \<Rightarrow> int list \<Rightarrow> int list option" where
  "push_sizes [] m anPolySizes = Some anPolySizes"
| "push_sizes (iPoly # rest) m anPolySizes = do {
     k \<leftarrow> cell m iPoly;
     anPolySizes \<leftarrow> (if k \<noteq> iPoly then do {
         a \<leftarrow> cell anPolySizes k;
         b \<leftarrow> cell anPolySizes iPoly;
         Some (anPolySizes[k := (if a + b > MY_MAX_INT then MY_MAX_INT else a + b), iPoly := 0])
       } else Some anPolySizes);
     push_sizes rest m anPolySizes
   }"

text \<open>Second pass: the biggest neighbours; \<open>None\<close> is the code's \<open>-1\<close>.\<close>

definition bigger :: "int list \<Rightarrow> nat option \<Rightarrow> nat \<Rightarrow> bool option" where
  "bigger anPolySizes b nPolyId =
     (case b of None \<Rightarrow> Some True
      | Some k \<Rightarrow> do { x \<leftarrow> cell anPolySizes k; y \<leftarrow> cell anPolySizes nPolyId; Some (x < y) })"

definition CompareNeighbour ::
    "nat list \<Rightarrow> int list \<Rightarrow> int list \<Rightarrow> nat \<Rightarrow> nat \<Rightarrow> nat option list \<Rightarrow> nat option list option" where
  "CompareNeighbour idMap polyValue anPolySizes nPolyId1 nPolyId2 anBigNeighbour = do {
     nPolyId1 \<leftarrow> cell idMap nPolyId1;
     nPolyId2 \<leftarrow> cell idMap nPolyId2;
     if nPolyId1 = nPolyId2 then Some anBigNeighbour
     else do {
       v1 \<leftarrow> cell polyValue nPolyId1;
       v2 \<leftarrow> cell polyValue nPolyId2;
       if v1 = GP_NODATA_MARKER \<or> v2 = GP_NODATA_MARKER then Some anBigNeighbour
       else do {
         b1 \<leftarrow> cell anBigNeighbour nPolyId1;
         up \<leftarrow> bigger anPolySizes b1 nPolyId2;
         let anBigNeighbour = (if up then anBigNeighbour[nPolyId1 := Some nPolyId2] else anBigNeighbour);
         b2 \<leftarrow> cell anBigNeighbour nPolyId2;
         up \<leftarrow> bigger anPolySizes b2 nPolyId1;
         Some (if up then anBigNeighbour[nPolyId2 := Some nPolyId1] else anBigNeighbour)
       }
     }
   }"

definition compare_pixel ::
    "(nat \<Rightarrow> nat \<Rightarrow> nat option list \<Rightarrow> nat option list option) \<Rightarrow> nat \<Rightarrow> nat \<Rightarrow> nat list option \<Rightarrow> nat list \<Rightarrow> nat
      \<Rightarrow> nat option list \<Rightarrow> nat option list option" where
  "compare_pixel cmp nConn nXSize panLastLineId panThisLineId iX big = do {
     k \<leftarrow> cell panThisLineId iX;
     big \<leftarrow> (case panLastLineId of None \<Rightarrow> Some big
       | Some lastId \<Rightarrow> do {
           j \<leftarrow> cell lastId iX;
           big \<leftarrow> cmp k j big;
           big \<leftarrow> (if iX > 0 \<and> nConn = 8 then do { j \<leftarrow> cell lastId (iX - 1); cmp k j big } else Some big);
           (if iX + 1 < nXSize \<and> nConn = 8 then do { j \<leftarrow> cell lastId (iX + 1); cmp k j big } else Some big)
         });
     (if iX > 0 then do { j \<leftarrow> cell panThisLineId (iX - 1); cmp k j big } else Some big)
   }"

fun compare_line ::
    "(nat \<Rightarrow> nat \<Rightarrow> nat option list \<Rightarrow> nat option list option) \<Rightarrow> nat \<Rightarrow> nat \<Rightarrow> nat list option \<Rightarrow> nat list \<Rightarrow> nat list
      \<Rightarrow> nat option list \<Rightarrow> nat option list option" where
  "compare_line cmp nConn nXSize lastId ids [] big = Some big"
| "compare_line cmp nConn nXSize lastId ids (iX # rest) big = do {
     big \<leftarrow> compare_pixel cmp nConn nXSize lastId ids iX big;
     compare_line cmp nConn nXSize lastId ids rest big
   }"

fun second_pass ::
    "'s raster_io \<Rightarrow> nat \<Rightarrow> nat \<Rightarrow> (nat \<Rightarrow> nat \<Rightarrow> nat option list \<Rightarrow> nat option list option) \<Rightarrow> nat list \<Rightarrow> CPLErr
      \<Rightarrow> GDALRasterPolygonEnumerator \<Rightarrow> (int list \<times> nat list) option \<Rightarrow> nat option list \<Rightarrow> 's
      \<Rightarrow> (CPLErr \<times> GDALRasterPolygonEnumerator \<times> nat option list \<times> 's) option" where
  "second_pass io nXSize nConn cmp [] eErr e prev big s = Some (eErr, e, big, s)"
| "second_pass io nXSize nConn cmp (iY # rest) eErr e prev big s =
     (if eErr \<noteq> CE_None then Some (eErr, e, big, s)
      else do {
        let (eErr, line, masked, s) = read_masked io s iY;
        if eErr \<noteq> CE_None then second_pass io nXSize nConn cmp rest eErr e prev big s
        else do {
          (e, ids) \<leftarrow> ProcessLine e prev masked nXSize;
          big \<leftarrow> compare_line cmp nConn nXSize (map_option snd prev) ids [0..<nXSize] big;
          let (eErr, s) = report io eErr s 2 iY;
          second_pass io nXSize nConn cmp rest eErr e (Some (masked, ids)) big s
        }
      })"

text \<open>Which polygons are merged into their biggest neighbour.\<close>

fun select_merges ::
    "nat list \<Rightarrow> nat list \<Rightarrow> int list \<Rightarrow> int list \<Rightarrow> int \<Rightarrow> nat option list \<Rightarrow> nat option list option" where
  "select_merges [] m values anPolySizes nSizeThreshold big = Some big"
| "select_merges (iPoly # rest) m values anPolySizes nSizeThreshold big = do {
     k \<leftarrow> cell m iPoly;
     big \<leftarrow> (if k \<noteq> iPoly then Some big
       else do {
         v \<leftarrow> cell values iPoly;
         if v = GP_NODATA_MARKER then Some big
         else do {
           n \<leftarrow> cell anPolySizes iPoly;
           if n \<ge> nSizeThreshold then (if iPoly < length big then Some (big[iPoly := None]) else None)
           else do {
             b \<leftarrow> cell big iPoly;
             case b of None \<Rightarrow> Some big
             | Some j \<Rightarrow> do {
                 x \<leftarrow> cell anPolySizes j;
                 Some (if x \<ge> nSizeThreshold then big else big[iPoly := None])
               }
           }
         }
       });
     select_merges rest m values anPolySizes nSizeThreshold big
   }"

text \<open>Third pass: the values of a line with the merges applied.\<close>

fun merge_line :: "nat list \<Rightarrow> int list \<Rightarrow> nat option list \<Rightarrow> nat list \<Rightarrow> int list \<Rightarrow> int list option" where
  "merge_line m values big [] line = Some []"
| "merge_line m values big (nId # ids) [] = None"
| "merge_line m values big (nId # ids) (v # line) = do {
     iThisPoly \<leftarrow> cell m nId;
     b \<leftarrow> cell big iThisPoly;
     w \<leftarrow> (case b of None \<Rightarrow> Some v | Some j \<Rightarrow> cell values j);
     ws \<leftarrow> merge_line m values big ids line;
     Some (w # ws)
   }"

fun third_pass ::
    "'s raster_io \<Rightarrow> nat \<Rightarrow> (nat list \<Rightarrow> int list \<Rightarrow> int list option) \<Rightarrow> nat list \<Rightarrow> CPLErr
      \<Rightarrow> GDALRasterPolygonEnumerator \<Rightarrow> (int list \<times> nat list) option \<Rightarrow> 's \<Rightarrow> (CPLErr \<times> 's) option" where
  "third_pass io nXSize mrg [] eErr e prev s = Some (eErr, s)"
| "third_pass io nXSize mrg (iY # rest) eErr e prev s =
     (if eErr \<noteq> CE_None then Some (eErr, s)
      else do {
        let (eErr, line, masked, s) = read_masked io s iY;
        if eErr \<noteq> CE_None then third_pass io nXSize mrg rest eErr e prev s
        else do {
          (e, ids) \<leftarrow> ProcessLine e prev masked nXSize;
          out \<leftarrow> mrg ids line;
          let (eErr, s) = WriteLine io s iY out;
          let (eErr, s) = report io eErr s 3 iY;
          third_pass io nXSize mrg rest eErr e (Some (masked, ids)) s
        }
      })"

text \<open>\<open>allocated\<close> says that the allocation of the working buffers succeeds.\<close>

definition GDALSieveFilter ::
    "'s raster_io \<Rightarrow> bool \<Rightarrow> nat \<Rightarrow> nat \<Rightarrow> int \<Rightarrow> nat \<Rightarrow> 's \<Rightarrow> (CPLErr \<times> 's) option" where
  "GDALSieveFilter io allocated nXSize nYSize nSizeThreshold nConn s =
     (if \<not> allocated then Some (CE_Failure, s)
      else do {
        (eErr, oFirstEnum, anPolySizes, s) \<leftarrow> first_pass io nXSize [0..<nYSize] CE_None (new_enumerator nConn) None [] s;
        (oFirstEnum, nFinalPolyCount) \<leftarrow> CompleteMerges oFirstEnum;
        let m = panPolyIdMap oFirstEnum;
        let values = panPolyValue oFirstEnum;
        anPolySizes \<leftarrow> push_sizes [0..<nNextPolygonId oFirstEnum] m anPolySizes;
        let cmp = CompareNeighbour m values anPolySizes;
        (eErr, oSecondEnum, big, s) \<leftarrow> second_pass io nXSize nConn cmp [0..<nYSize] eErr (new_enumerator nConn) None
          (replicate (length anPolySizes) None) s;
        big \<leftarrow> select_merges [0..<length anPolySizes] m values anPolySizes nSizeThreshold big;
        third_pass io nXSize (merge_line m values big) [0..<nYSize] eErr (ClearPolygons oSecondEnum) None s
      })"

section \<open>What the filter does\<close>

text \<open>The lines of the source with the pixels outside the mask marked.\<close>

definition masked_lines :: "'s raster_io \<Rightarrow> int list list \<Rightarrow> byte list list \<Rightarrow> int list list" where
  "masked_lines io S K = (case ReadMask io of None \<Rightarrow> S | Some h \<Rightarrow> map2 mask_line K S)"

text \<open>
  The behaviour of the bands: in a state \<open>s\<close> with \<open>view s = (S, K, T)\<close> the source has the lines \<open>S\<close>, the mask the lines
  \<open>K\<close> and the destination the lines \<open>T\<close>. Reading and the progress report succeed and keep them; writing a line stores
  it in the destination and may change that line of the source, which may be the same band.
\<close>

definition works :: "'s raster_io \<Rightarrow> nat \<Rightarrow> nat \<Rightarrow> ('s \<Rightarrow> int list list \<times> byte list list \<times> int list list) \<Rightarrow> bool" where
  "works io nx ny view \<longleftrightarrow> (\<forall>s S K T. view s = (S, K, T) \<longrightarrow> length S = ny \<longrightarrow> (\<forall>y < ny.
     (\<exists>s'. ReadLine io s y = (CE_None, S ! y, s') \<and> view s' = (S, K, T))
     \<and> (case ReadMask io of None \<Rightarrow> True | Some h \<Rightarrow> \<exists>s'. h s y = (CE_None, K ! y, s') \<and> view s' = (S, K, T))
     \<and> (\<forall>line. length line = nx \<longrightarrow> (\<exists>s' S'. WriteLine io s y line = (CE_None, s') \<and> view s' = (S', K, T[y := line])
          \<and> length S' = ny \<and> (\<forall>y'. y' \<noteq> y \<longrightarrow> S' ! y' = S ! y')))
     \<and> (\<forall>pass. \<exists>s'. Progress io s pass y = (True, s') \<and> view s' = (S, K, T))))"

text \<open>The region of a pixel, and the pixels of other regions next to it that are not marked.\<close>

definition region_at :: "int list list \<Rightarrow> nat \<Rightarrow> nat \<Rightarrow> pixel \<Rightarrow> pixel set" where
  "region_at M nx c p = {q. (p, q) \<in> region M nx c}"

definition neighbours :: "int list list \<Rightarrow> nat \<Rightarrow> nat \<Rightarrow> pixel \<Rightarrow> pixel set" where
  "neighbours M nx c p = {q \<in> pixels M nx. q \<notin> region_at M nx c p \<and> pix M q \<noteq> GP_NODATA_MARKER
     \<and> (\<exists>p' \<in> region_at M nx c p. adjacent c p' q)}"

text \<open>The pixels that are replaced.\<close>

definition sieved :: "int list list \<Rightarrow> nat \<Rightarrow> nat \<Rightarrow> int \<Rightarrow> pixel \<Rightarrow> bool" where
  "sieved M nx c thr p \<longleftrightarrow> pix M p \<noteq> GP_NODATA_MARKER \<and> int (card (region_at M nx c p)) < thr
     \<and> (\<exists>q \<in> neighbours M nx c p. thr \<le> int (card (region_at M nx c q)))"

text \<open>The pixel \<open>q\<close> is in a largest region next to that of \<open>p\<close>.\<close>

definition largest_neighbour :: "int list list \<Rightarrow> nat \<Rightarrow> nat \<Rightarrow> pixel \<Rightarrow> pixel \<Rightarrow> bool" where
  "largest_neighbour M nx c p q \<longleftrightarrow> q \<in> neighbours M nx c p
     \<and> (\<forall>q' \<in> neighbours M nx c p. card (region_at M nx c q') \<le> card (region_at M nx c q))"

end
