(* ===== verification/Gdal_Sieve_Passes.thy ===== *)
theory Gdal_Sieve_Passes
  imports Gdal_Sieve_Filter
begin

text \<open>
  The three passes of the sieve filter on bands that work: all number the pixels as one run of the polygon enumerator does
  (\<open>trace\<close>); the first counts the pixels of each number, the second finds the biggest neighbours (\<open>best\<close>), the third writes
  each line once.
\<close>

section \<open>The passes\<close>

text \<open>All passes number the lines \<open>M\<close> in the same way: \<open>E y\<close> is the enumerator before the line \<open>y\<close> and \<open>I y\<close> the numbers of the line.\<close>

definition line_above :: "int list list \<Rightarrow> (nat \<Rightarrow> nat list) \<Rightarrow> nat \<Rightarrow> (int list \<times> nat list) option" where
  "line_above M I y = (if y = 0 then None else Some (M ! (y - 1), I (y - 1)))"

definition trace ::
    "int list list \<Rightarrow> nat \<Rightarrow> nat \<Rightarrow> (nat \<Rightarrow> GDALRasterPolygonEnumerator) \<Rightarrow> (nat \<Rightarrow> nat list) \<Rightarrow> nat \<Rightarrow> bool" where
  "trace M nx c E I n \<longleftrightarrow> E 0 = new_enumerator c \<and> (\<forall>y < n. ProcessLine (E y) (line_above M I y) (M ! y) nx = Some (E (Suc y), I y)
     \<and> length (I y) = nx \<and> (\<forall>k \<in> set (I y). k < nNextPolygonId (E (Suc y))) \<and> nNextPolygonId (E y) \<le> nNextPolygonId (E (Suc y)))"

lemma labelled_bounds:
  "labelled L nx c e lb D \<Longrightarrow> p \<in> D \<Longrightarrow> lb p < nNextPolygonId e"
  by (auto simp: labelled_def dest: numberedD(8))

lemma labelled_mono:
  assumes "labelled L nx c e lb D" "labelled L nx c e' lb' D'" "D \<subseteq> D'" "\<forall>p \<in> D. lb' p = lb p"
  shows "nNextPolygonId e \<le> nNextPolygonId e'"
proof -
  have "lb ` D = {..<nNextPolygonId e}" "lb' ` D' = {..<nNextPolygonId e'}"
    using assms(1,2) by (auto simp: labelled_def dest: numberedD(6))
  moreover have "lb ` D \<subseteq> lb' ` D'" using assms(3,4) by (metis image_cong image_mono)
  ultimately show ?thesis by (metis lessThan_subset_iff)
qed

lemma trace_exists:
  assumes small: "length M * nx \<le> 2 ^ 28 - 10" and rect: "\<forall>line \<in> set M. length line = nx"
  shows "n \<le> length M \<Longrightarrow> \<exists>E I lb. trace M nx c E I n \<and> labelled M nx c (E n) lb (before nx n 0) \<and> prev_line M nx lb n (line_above M I n)"
proof (induction n)
  case 0
  have "trace M nx c (\<lambda>_. new_enumerator c) (\<lambda>_. []) 0" "prev_line M nx (\<lambda>_. 0) 0 (line_above M (\<lambda>_. []) 0)"
    by (simp_all add: trace_def prev_line_def line_above_def)
  then show ?case using new_labelled by blast
next
  case (Suc n)
  then obtain E I lb where t: "trace M nx c E I n" "labelled M nx c (E n) lb (before nx n 0)" "prev_line M nx lb n (line_above M I n)" by auto
  have y: "n < length M" using Suc.prems by simp
  have vs: "holds_line (M ! n) (pix M) n nx" using rect y by (auto simp: holds_line_def cell_def pix_def)
  from ProcessLine_labels [OF t(2) y small t(3) vs] obtain e' ids lb' where
    l: "ProcessLine (E n) (line_above M I n) (M ! n) nx = Some (e', ids)" "labelled M nx c e' lb' (before nx (Suc n) 0)"
      "prev_line M nx lb' (Suc n) (Some (M ! n, ids))" "length ids = nx" "\<forall>p \<in> before nx n 0. lb' p = lb p" by blast
  let ?E = "E(Suc n := e')" let ?I = "I(n := ids)"
  have same: "line_above M ?I y = line_above M I y" if "y \<le> n" for y using that by (cases y) (auto simp: line_above_def)
  have "\<forall>k \<in> set ids. k < nNextPolygonId e'"
  proof
    fix k assume "k \<in> set ids"
    then obtain x where x: "x < nx" "k = ids ! x" using l(4) by (metis in_set_conv_nth)
    then have "k = lb' (n, x)" using l(3,4) by (auto simp: prev_line_def holds_line_def cell_def)
    then show "k < nNextPolygonId e'" using labelled_bounds [OF l(2), of "(n, x)"] x(1) by (simp add: before_def)
  qed
  moreover have "nNextPolygonId (E n) \<le> nNextPolygonId e'"
    by (rule labelled_mono [OF t(2) l(2) _ l(5)]) (auto simp: before_def)
  ultimately have "trace M nx c ?E ?I (Suc n)"
    using t(1) l(1,4) same unfolding trace_def by (auto simp: less_Suc_eq)
  moreover have "line_above M ?I (Suc n) = Some (M ! n, ids)" by (simp add: line_above_def)
  ultimately have "trace M nx c ?E ?I (Suc n) \<and> labelled M nx c (?E (Suc n)) lb' (before nx (Suc n) 0)
      \<and> prev_line M nx lb' (Suc n) (line_above M ?I (Suc n))" using l(2,3) by (simp only: fun_upd_same)
  then show ?case by blast
qed

lemma traceD:
  assumes "trace M nx c E I n" "y < n"
  shows "ProcessLine (E y) (line_above M I y) (M ! y) nx = Some (E (Suc y), I y)" "length (I y) = nx"
    "k \<in> set (I y) \<Longrightarrow> k < nNextPolygonId (E (Suc y))" "nNextPolygonId (E y) \<le> nNextPolygonId (E (Suc y))"
  using assms unfolding trace_def by auto

lemma line_above_Suc [simp]: "line_above M I (Suc y) = Some (M ! y, I y)"
  by (simp add: line_above_def)

lemma trace_enumerates:
  assumes "trace M nx c E I (length M)"
  shows "y \<le> length M \<Longrightarrow> enumerate_lines (E y) (line_above M I y) (drop y M) nx = Some (E (length M), map I [y..<length M])"
proof (induction "length M - y" arbitrary: y)
  case (Suc l)
  then have y: "y < length M" by simp
  then have d: "drop y M = M ! y # drop (Suc y) M" by (simp add: Cons_nth_drop_Suc)
  show ?case using Suc.hyps(1) [of "Suc y"] Suc.hyps(2) traceD(1) [OF assms y] y
    unfolding d by (simp add: upt_rec [of y])
qed simp

text \<open>Sizes.\<close>

lemma count_pixels_sizes:
  "\<forall>k \<in> set ids. k < length sizes \<Longrightarrow> \<forall>k < length sizes. sizes ! k + int (count_list ids k) \<le> MY_MAX_INT \<Longrightarrow>
    count_pixels ids sizes = Some (map (\<lambda>k. sizes ! k + int (count_list ids k)) [0..<length sizes])"
proof (induction ids arbitrary: sizes)
  case Nil
  show ?case by (simp add: map_nth)
next
  case (Cons i ids)
  have i: "i < length sizes" "sizes ! i < MY_MAX_INT" using Cons.prems by force+
  let ?s = "sizes[i := sizes ! i + 1]"
  have "?s ! k + int (count_list ids k) = sizes ! k + int (count_list (i # ids) k)" if "k < length sizes" for k
    using that i by (cases "k = i") auto
  then have "count_pixels ids ?s = Some (map (\<lambda>k. ?s ! k + int (count_list ids k)) [0..<length ?s])"
    using Cons.prems by (intro Cons.IH) auto
  moreover have "map (\<lambda>k. ?s ! k + int (count_list ids k)) [0..<length ?s] = map (\<lambda>k. sizes ! k + int (count_list (i # ids) k)) [0..<length sizes]"
    using i by (intro map_cong) (auto simp: nth_list_update)
  ultimately show ?case using i by (simp add: cell_def)
qed

text \<open>The pixels with the number \<open>k\<close>.\<close>

definition of_id :: "(nat \<Rightarrow> nat list) \<Rightarrow> nat \<Rightarrow> nat \<Rightarrow> nat \<Rightarrow> pixel set" where
  "of_id I nx y k = {p \<in> before nx y 0. I (fst p) ! snd p = k}"

lemma of_id_Suc:
  assumes "length (I y) = nx"
  shows "card (of_id I nx (Suc y) k) = card (of_id I nx y k) + count_list (I y) k"
proof -
  let ?new = "Pair y ` {x. x < length (I y) \<and> I y ! x = k}"
  have "of_id I nx (Suc y) k = of_id I nx y k \<union> ?new" using assms by (auto simp: of_id_def before_def less_Suc_eq)
  moreover have "of_id I nx y k \<inter> ?new = {}" by (auto simp: of_id_def before_def)
  moreover have "finite (of_id I nx y k)"
    by (rule finite_subset [of _ "{..<y} \<times> {..<nx}"]) (auto simp: of_id_def before_def)
  moreover have "card ?new = count_list (I y) k"
    by (subst card_image) (simp_all add: count_list_eq_length_filter length_filter_conv_card inj_on_def eq_commute)
  ultimately show ?thesis by (simp add: card_Un_disjoint)
qed

lemma of_id_bound: "card (of_id I nx y k) \<le> y * nx"
proof -
  have "of_id I nx y k \<subseteq> {..<y} \<times> {..<nx}" by (auto simp: of_id_def before_def)
  then have "card (of_id I nx y k) \<le> card ({..<y} \<times> {..<nx})" by (intro card_mono) auto
  then show ?thesis by simp
qed

text \<open>What the passes know about the state: the three rasters, of the right shape.\<close>

definition viewed ::
    "'s raster_io \<Rightarrow> nat \<Rightarrow> nat \<Rightarrow> ('s \<Rightarrow> int list list \<times> byte list list \<times> int list list) \<Rightarrow> int list list \<Rightarrow> byte list list \<Rightarrow> int list list \<Rightarrow> 's \<Rightarrow> bool" where
  "viewed io nx ny view S K T s \<longleftrightarrow> works io nx ny view \<and> view s = (S, K, T) \<and> length S = ny \<and> (ReadMask io \<noteq> None \<longrightarrow> length K = ny)"

lemma masked_lines_length [simp]: "ReadMask io \<noteq> None \<longrightarrow> length K = length S \<Longrightarrow> length (masked_lines io S K) = length S"
  by (auto simp: masked_lines_def split: option.splits)

lemma worksD:
  assumes "works io nx ny view" "view s = (S, K, T)" "length S = ny" "y < ny"
  shows "\<exists>s'. ReadLine io s y = (CE_None, S ! y, s') \<and> view s' = (S, K, T)"
    "ReadMask io = Some h \<Longrightarrow> \<exists>s'. h s y = (CE_None, K ! y, s') \<and> view s' = (S, K, T)"
    "length line = nx \<Longrightarrow> \<exists>s' S'. WriteLine io s y line = (CE_None, s') \<and> view s' = (S', K, T[y := line])
       \<and> length S' = ny \<and> (\<forall>y'. y' \<noteq> y \<longrightarrow> S' ! y' = S ! y')"
    "\<exists>s'. Progress io s pass y = (True, s') \<and> view s' = (S, K, T)"
  using assms unfolding works_def by fastforce+

lemma read_masked_viewed:
  assumes "viewed io nx ny view S K T s" "y < ny"
  shows "\<exists>s'. read_masked io s y = (CE_None, S ! y, masked_lines io S K ! y, s') \<and> viewed io nx ny view S K T s'"
proof -
  have w: "works io nx ny view" and v: "view s = (S, K, T)" and l: "length S = ny" "ReadMask io \<noteq> None \<longrightarrow> length K = ny"
    using assms(1) by (auto simp: viewed_def)
  from worksD(1) [OF w v l(1) assms(2)] obtain s1 where s1: "ReadLine io s y = (CE_None, S ! y, s1)" "view s1 = (S, K, T)" by blast
  show ?thesis
  proof (cases "ReadMask io")
    case None
    then show ?thesis using s1 w l by (auto simp: read_masked_def masked_lines_def viewed_def)
  next
    case (Some h)
    from worksD(2) [OF w s1(2) l(1) assms(2) this] obtain s2 where s2: "h s1 y = (CE_None, K ! y, s2)" "view s2 = (S, K, T)" by blast
    then show ?thesis using s1 w l Some assms(2)
      by (auto simp: read_masked_def masked_lines_def viewed_def GPMaskImageData_def)
  qed
qed

lemma report_viewed:
  assumes "viewed io nx ny view S K T s" "y < ny"
  shows "\<exists>s'. report io CE_None s pass y = (CE_None, s') \<and> viewed io nx ny view S K T s'"
proof -
  have w: "works io nx ny view" and v: "view s = (S, K, T)" and l: "length S = ny" using assms(1) by (auto simp: viewed_def)
  from worksD(4) [OF w v l assms(2)] obtain s' where "Progress io s pass y = (True, s')" "view s' = (S, K, T)" by blast
  then show ?thesis using assms(1) by (auto simp: report_def viewed_def)
qed

lemma first_pass_viewed:
  assumes t: "trace (masked_lines io S K) nx c E I ny" and small: "ny * nx \<le> 2 ^ 28 - 10"
  shows "y \<le> ny \<Longrightarrow> viewed io nx ny view S K T s \<Longrightarrow> length sizes = nNextPolygonId (E y) \<Longrightarrow>
      \<forall>k < length sizes. sizes ! k = int (card (of_id I nx y k)) \<Longrightarrow>
    \<exists>sizes' s'. first_pass io nx [y..<ny] CE_None (E y) (line_above (masked_lines io S K) I y) sizes s = Some (CE_None, E ny, sizes', s')
      \<and> viewed io nx ny view S K T s' \<and> length sizes' = nNextPolygonId (E ny) \<and> (\<forall>k < length sizes'. sizes' ! k = int (card (of_id I nx ny k)))"
proof (induction "ny - y" arbitrary: y sizes s)
  case 0
  then have "y = ny" by simp
  then show ?case using 0 by (intro exI [of _ sizes] exI [of _ s]) simp
next
  case (Suc l)
  then have y: "y < ny" by simp
  note tr = traceD [OF t y]
  from read_masked_viewed [OF Suc.prems(2) y] obtain s1 where
    s1: "read_masked io s y = (CE_None, S ! y, masked_lines io S K ! y, s1)" "viewed io nx ny view S K T s1" by blast
  from report_viewed [OF s1(2) y, of 1] obtain s2 where s2: "report io CE_None s1 1 y = (CE_None, s2)" "viewed io nx ny view S K T s2" by blast
  let ?g = "grow_sizes (nNextPolygonId (E (Suc y))) sizes"
  have none: "of_id I nx y k = {}" if "k \<ge> nNextPolygonId (E y)" for k
  proof -
    have mono: "nNextPolygonId (E (Suc i)) \<le> nNextPolygonId (E y)" if "i < y" for i
      using that y
    proof (induction y)
      case (Suc y)
      then show ?case using traceD(4) [OF t, of y] by (cases "i = y") auto
    qed simp
    have "I i ! x < nNextPolygonId (E y)" if "i < y" "x < nx" for i x
      using traceD(2,3) [OF t, of i] mono [OF that(1)] that y by (metis nth_mem order_less_le_trans order_less_trans)
    then show ?thesis using that by (fastforce simp: of_id_def before_def)
  qed
  have len: "length ?g = nNextPolygonId (E (Suc y))" using Suc.prems(3) tr(4) by (simp add: grow_sizes_def)
  have g: "?g ! k = int (card (of_id I nx y k))" if "k < length ?g" for k
  proof (cases "k < length sizes")
    case False
    then show ?thesis using none [of k] Suc.prems(3) that by (simp add: grow_sizes_def nth_append)
  qed (use Suc.prems(4) in \<open>simp add: grow_sizes_def nth_append\<close>)
  have sum: "?g ! k + int (count_list (I y) k) = int (card (of_id I nx (Suc y) k))" if "k < length ?g" for k
    using g [OF that] of_id_Suc [of I y nx k, OF tr(2)] by simp
  have "int (card (of_id I nx (Suc y) k)) \<le> MY_MAX_INT" for k
  proof -
    have "card (of_id I nx (Suc y) k) \<le> Suc y * nx" by (rule of_id_bound)
    also have "\<dots> \<le> ny * nx" using y by (intro mult_le_mono1) simp
    finally show ?thesis using small by (simp add: MY_MAX_INT_def)
  qed
  then have "count_pixels (I y) ?g = Some (map (\<lambda>k. ?g ! k + int (count_list (I y) k)) [0..<length ?g])"
    using tr(3) len sum by (intro count_pixels_sizes) simp_all
  moreover have "map (\<lambda>k. ?g ! k + int (count_list (I y) k)) [0..<length ?g] = map (\<lambda>k. int (card (of_id I nx (Suc y) k))) [0..<length ?g]"
    using sum by (intro map_cong) simp_all
  ultimately have cp: "count_pixels (I y) ?g = Some (map (\<lambda>k. int (card (of_id I nx (Suc y) k))) [0..<length ?g])" by metis
  let ?s = "map (\<lambda>k. int (card (of_id I nx (Suc y) k))) [0..<length ?g]"
  have l: "l = ny - Suc y" "Suc y \<le> ny" "length ?s = nNextPolygonId (E (Suc y))"
      "\<forall>k < length ?s. ?s ! k = int (card (of_id I nx (Suc y) k))" using Suc.hyps(2) y len by simp_all
  from Suc.hyps(1) [OF l(1,2) s2(2) l(3,4)] obtain sizes' s' where r: "first_pass io nx [Suc y..<ny] CE_None (E (Suc y)) (Some (masked_lines io S K ! y, I y)) ?s s2 = Some (CE_None, E ny, sizes', s')"
      "viewed io nx ny view S K T s'" "length sizes' = nNextPolygonId (E ny)" "\<forall>k < length sizes'. sizes' ! k = int (card (of_id I nx ny k))"
    unfolding line_above_Suc by blast
  have "first_pass io nx [y..<ny] CE_None (E y) (line_above (masked_lines io S K) I y) sizes s = Some (CE_None, E ny, sizes', s')"
    using y s1(1) s2(1) tr(1) cp r(1) by (simp add: upt_rec [of y])
  then show ?case using r(2-4) by blast
qed

text \<open>The sizes while the fragments before \<open>i\<close> are pushed into their polygons.\<close>

definition pushed :: "nat list \<Rightarrow> int list \<Rightarrow> nat \<Rightarrow> nat \<Rightarrow> int" where
  "pushed m sizes i k = (\<Sum>j | j < length m \<and> (if j < i then m ! j else j) = k. sizes ! j)"

definition flat :: "nat list \<Rightarrow> bool" where
  "flat m \<longleftrightarrow> (\<forall>k < length m. m ! k < length m \<and> m ! (m ! k) = m ! k)"

lemma pushed_0: "k < length m \<Longrightarrow> pushed m sizes 0 k = sizes ! k"
proof -
  assume "k < length m"
  then have "{j. j < length m \<and> (if j < 0 then m ! j else j) = k} = {k}" by auto
  then show ?thesis by (simp add: pushed_def)
qed

lemma pushed_root: "i < length m \<Longrightarrow> m ! i = i \<Longrightarrow> pushed m sizes (Suc i) k = pushed m sizes i k"
  unfolding pushed_def by (rule sum.cong) (auto simp: less_Suc_eq)

lemma pushed_step:
  assumes "flat m" "i < length m" "m ! i \<noteq> i"
  shows "pushed m sizes i i = sizes ! i" "pushed m sizes (Suc i) i = 0"
    "pushed m sizes (Suc i) (m ! i) = pushed m sizes i (m ! i) + sizes ! i"
    "k \<noteq> i \<Longrightarrow> k \<noteq> m ! i \<Longrightarrow> pushed m sizes (Suc i) k = pushed m sizes i k"
proof -
  have no: "m ! j \<noteq> i" if "j < length m" for j using assms that unfolding flat_def by metis
  have "{j. j < length m \<and> (if j < i then m ! j else j) = i} = {i}" "{j. j < length m \<and> (if j < Suc i then m ! j else j) = i} = {}"
    using no assms(2) by auto
  then show "pushed m sizes i i = sizes ! i" "pushed m sizes (Suc i) i = 0" by (simp_all only: pushed_def) simp_all
  have "{j. j < length m \<and> (if j < Suc i then m ! j else j) = m ! i} = insert i {j. j < length m \<and> (if j < i then m ! j else j) = m ! i}"
    using assms(2) by (auto simp: less_Suc_eq)
  moreover have "i \<notin> {j. j < length m \<and> (if j < i then m ! j else j) = m ! i}" using assms(3) by simp
  ultimately show "pushed m sizes (Suc i) (m ! i) = pushed m sizes i (m ! i) + sizes ! i" by (simp add: pushed_def)
  assume k: "k \<noteq> i" "k \<noteq> m ! i"
  then show "pushed m sizes (Suc i) k = pushed m sizes i k"
    unfolding pushed_def by (intro sum.cong) (auto simp: less_Suc_eq)
qed

lemma push_sizes_pushed:
  assumes flat: "flat m" and nonneg: "\<forall>k < length m. 0 \<le> sizes ! k" and small: "(\<Sum>j < length m. sizes ! j) \<le> MY_MAX_INT"
  shows "i \<le> length m \<Longrightarrow> length z = length m \<Longrightarrow> \<forall>k < length m. z ! k = pushed m sizes i k \<Longrightarrow>
    \<exists>z'. push_sizes [i..<length m] m z = Some z' \<and> length z' = length m \<and> (\<forall>k < length m. z' ! k = pushed m sizes (length m) k)"
proof (induction "length m - i" arbitrary: i z)
  case 0
  then have "i = length m" by simp
  then show ?case using 0 by (intro exI [of _ z]) simp
next
  case (Suc l)
  then have i: "i < length m" by simp
  have mi: "m ! i < length m" using flat i by (simp add: flat_def)
  have le: "pushed m sizes n k \<le> MY_MAX_INT" for n k
  proof -
    have "pushed m sizes n k \<le> (\<Sum>j < length m. sizes ! j)" unfolding pushed_def by (rule sum_mono2) (use nonneg in auto)
    then show ?thesis using small by simp
  qed
  let ?z = "if m ! i = i then z else z[m ! i := z ! (m ! i) + z ! i, i := 0]"
  have "?z ! k = pushed m sizes (Suc i) k" if "k < length m" for k
  proof (cases "m ! i = i")
    case True
    then show ?thesis using pushed_root [OF i] Suc.prems(3) that by simp
  next
    case False
    then show ?thesis using pushed_step [OF flat i False] Suc.prems(2,3) that i mi
      by (cases "k = i"; cases "k = m ! i") simp_all
  qed
  then have "\<forall>k < length m. ?z ! k = pushed m sizes (Suc i) k" by blast
  moreover have "l = length m - Suc i" "Suc i \<le> length m" "length ?z = length m" using Suc.hyps(2) i Suc.prems(2) by simp_all
  ultimately obtain z' where z': "push_sizes [Suc i..<length m] m ?z = Some z'" "length z' = length m"
    "\<forall>k < length m. z' ! k = pushed m sizes (length m) k" using Suc.hyps(1) by blast
  have "\<not> z ! (m ! i) + z ! i > MY_MAX_INT" if "m ! i \<noteq> i"
    using pushed_step(1,3) [OF flat i that, of sizes] le [of "Suc i" "m ! i"] Suc.prems(3) i mi by simp
  then have "push_sizes [i..<length m] m z = push_sizes [Suc i..<length m] m ?z"
    using i mi Suc.prems(2) by (simp add: upt_rec [of i] cell_def)
  then show ?case using z' by simp
qed

text \<open>Biggest neighbours. \<open>lbl\<close> gives the number of a pixel.\<close>

definition rivals :: "nat list \<Rightarrow> int list \<Rightarrow> ('p \<Rightarrow> nat) \<Rightarrow> ('p \<times> 'p) set \<Rightarrow> nat \<Rightarrow> nat set" where
  "rivals m values lbl T k = {m ! lbl q | p q. ((p, q) \<in> T \<or> (q, p) \<in> T) \<and> m ! lbl p = k \<and> m ! lbl q \<noteq> k
     \<and> values ! k \<noteq> GP_NODATA_MARKER \<and> values ! (m ! lbl q) \<noteq> GP_NODATA_MARKER}"

definition best :: "nat list \<Rightarrow> int list \<Rightarrow> int list \<Rightarrow> ('p \<Rightarrow> nat) \<Rightarrow> ('p \<times> 'p) set \<Rightarrow> nat option list \<Rightarrow> bool" where
  "best m values sizes lbl T big \<longleftrightarrow> length big = length m \<and> (\<forall>k < length m. case big ! k of
       None \<Rightarrow> rivals m values lbl T k = {}
     | Some b \<Rightarrow> b \<in> rivals m values lbl T k \<and> (\<forall>j \<in> rivals m values lbl T k. sizes ! j \<le> sizes ! b))"

definition allowed :: "nat list \<Rightarrow> int list \<Rightarrow> nat \<Rightarrow> nat \<Rightarrow> bool" where
  "allowed m values i j \<longleftrightarrow> m ! i \<noteq> m ! j \<and> values ! (m ! i) \<noteq> GP_NODATA_MARKER \<and> values ! (m ! j) \<noteq> GP_NODATA_MARKER"

lemma rivals_of:
  fixes lbl :: "'p \<Rightarrow> nat"
  shows "j \<in> rivals m values lbl T k \<Longrightarrow> \<exists>p q. ((p, q) \<in> T \<or> (q, p) \<in> T) \<and> j = m ! lbl q"
  by (auto simp: rivals_def)

lemma rivals_insert:
  "rivals m values lbl (insert (p, q) T) k = rivals m values lbl T k
     \<union> (if allowed m values (lbl p) (lbl q) \<and> k = m ! lbl p then {m ! lbl q} else {})
     \<union> (if allowed m values (lbl p) (lbl q) \<and> k = m ! lbl q then {m ! lbl p} else {})"
proof -
  have "rivals m values lbl (insert (p, q) T) k = rivals m values lbl T k \<union> rivals m values lbl {(p, q)} k"
    unfolding rivals_def by blast
  moreover have "rivals m values lbl {(p, q)} k = (if allowed m values (lbl p) (lbl q) \<and> k = m ! lbl p then {m ! lbl q} else {})
     \<union> (if allowed m values (lbl p) (lbl q) \<and> k = m ! lbl q then {m ! lbl p} else {})"
    by (auto simp: rivals_def allowed_def) metis
  ultimately show ?thesis by (simp add: Un_assoc)
qed

text \<open>One cell of the table of biggest neighbours.\<close>

definition cell_best :: "int list \<Rightarrow> nat option \<Rightarrow> nat set \<Rightarrow> bool" where
  "cell_best sizes b R \<longleftrightarrow> (case b of None \<Rightarrow> R = {} | Some x \<Rightarrow> x \<in> R \<and> (\<forall>j \<in> R. sizes ! j \<le> sizes ! x))"

lemma cell_best_insert:
  assumes "cell_best sizes b R" "j < length sizes" "\<forall>x \<in> R. x < length sizes"
  shows "\<exists>up. bigger sizes b j = Some up \<and> cell_best sizes (if up then Some j else b) (insert j R)"
proof (cases b)
  case None
  then show ?thesis using assms(1) by (intro exI [of _ True]) (simp add: bigger_def cell_best_def)
next
  case (Some x)
  then show ?thesis using assms by (force simp: bigger_def cell_best_def cell_def)
qed

lemma best_cells: "best m values sizes lbl T big \<longleftrightarrow>
    length big = length m \<and> (\<forall>k < length m. cell_best sizes (big ! k) (rivals m values lbl T k))"
  unfolding best_def cell_best_def by simp

lemma CompareNeighbour_best:
  assumes b: "best m values sizes lbl T big" and flat: "flat m" and len: "length values = length m" "length sizes = length m"
    and pq: "lbl p < length m" "lbl q < length m" and T: "\<forall>(u, v) \<in> T. lbl u < length m \<and> lbl v < length m"
  shows "\<exists>big'. CompareNeighbour m values sizes (lbl p) (lbl q) big = Some big' \<and> best m values sizes lbl (insert (p, q) T) big'"
proof -
  let ?i = "m ! lbl p" and ?j = "m ! lbl q" and ?R = "rivals m values lbl T"
  have ij: "?i < length m" "?j < length m" using flat pq by (simp_all add: flat_def)
  note cells = pq ij len
  show ?thesis
  proof (cases "allowed m values (lbl p) (lbl q)")
    case False
    then have "best m values sizes lbl (insert (p, q) T) big" using b unfolding best_cells rivals_insert by simp
    moreover have "CompareNeighbour m values sizes (lbl p) (lbl q) big = Some big"
      using False cells by (auto simp: CompareNeighbour_def cell_def allowed_def)
    ultimately show ?thesis by blast
  next
    case True
    then have ne: "?i \<noteq> ?j" by (simp add: allowed_def)
    have big: "length big = length m" "cell_best sizes (big ! ?i) (?R ?i)" "cell_best sizes (big ! ?j) (?R ?j)"
      using b ij by (simp_all add: best_cells)
    have R: "\<forall>x \<in> ?R k. x < length sizes" for k
      using T flat len(2) unfolding rivals_def flat_def by fastforce
    from cell_best_insert [OF big(2) _ R, of ?j] ij len obtain up1 where
      up1: "bigger sizes (big ! ?i) ?j = Some up1" "cell_best sizes (if up1 then Some ?j else big ! ?i) (insert ?j (?R ?i))" by auto
    from cell_best_insert [OF big(3) _ R, of ?i] ij len obtain up2 where
      up2: "bigger sizes (big ! ?j) ?i = Some up2" "cell_best sizes (if up2 then Some ?i else big ! ?j) (insert ?i (?R ?j))" by auto
    let ?big1 = "if up1 then big[?i := Some ?j] else big"
    let ?big = "if up2 then ?big1[?j := Some ?i] else ?big1"
    have "CompareNeighbour m values sizes (lbl p) (lbl q) big = Some ?big"
      using True ne up1(1) up2(1) cells big(1) by (simp add: CompareNeighbour_def cell_def allowed_def Let_def)
    moreover have "cell_best sizes (?big ! k) (rivals m values lbl (insert (p, q) T) k)" if "k < length m" for k
      using that b ij ne True up1(2) up2(2) unfolding rivals_insert best_cells
      by (cases "k = ?i"; cases "k = ?j") (simp_all add: nth_list_update split: if_splits)
    then have "best m values sizes lbl (insert (p, q) T) ?big" using big(1) by (simp add: best_cells)
    ultimately show ?thesis by blast
  qed
qed

text \<open>The pairs that the second pass compares at a pixel.\<close>

definition links :: "nat \<Rightarrow> nat \<Rightarrow> pixel \<Rightarrow> (pixel \<times> pixel) set" where
  "links nx c p = {(p, q) | q. q \<in> before nx (fst p) (snd p) \<and> adjacent c p q}"

lemma links_eq:
  assumes "x < nx"
  shows "links nx c (y, x) = (if y > 0 then insert ((y, x), (y - 1, x))
      ((if x > 0 \<and> c = 8 then {((y, x), (y - 1, x - 1))} else {}) \<union> (if x + 1 < nx \<and> c = 8 then {((y, x), (y - 1, x + 1))} else {})) else {})
    \<union> (if x > 0 then {((y, x), (y, x - 1))} else {})"
proof -
  have "(q \<in> before nx y x \<and> adjacent c (y, x) q) = (x > 0 \<and> q = (y, x - 1) \<or> y > 0 \<and> (q = (y - 1, x)
      \<or> c = 8 \<and> (x > 0 \<and> q = (y - 1, x - 1) \<or> x + 1 < nx \<and> q = (y - 1, x + 1))))" for q
  proof
    show "q \<in> before nx y x \<and> adjacent c (y, x) q \<Longrightarrow> x > 0 \<and> q = (y, x - 1) \<or> y > 0 \<and> (q = (y - 1, x)
      \<or> c = 8 \<and> (x > 0 \<and> q = (y - 1, x - 1) \<or> x + 1 < nx \<and> q = (y - 1, x + 1)))" using adjacent_before by blast
  qed (use assms in \<open>auto simp: before_def\<close>)
  then show ?thesis unfolding links_def fst_conv snd_conv by auto
qed

lemma compare_if:
  assumes step: "\<And>T big p q. B T big \<Longrightarrow> T \<subseteq> A \<times> A \<Longrightarrow> p \<in> A \<Longrightarrow> q \<in> A \<Longrightarrow>
      \<exists>big'. cmp (lbl p) (lbl q) big = Some big' \<and> B (insert (p, q) T) big'"
    and B: "B T big" "T \<subseteq> A \<times> A" "p \<in> A" and q: "b \<Longrightarrow> q \<in> A \<and> cell xs i = Some (lbl q)" and k: "lbl p = k"
  shows "\<exists>big'. (if b then cell xs i \<bind> (\<lambda>j. cmp k j big) else Some big) = Some big'
    \<and> B (T \<union> (if b then {(p, q)} else {})) big' \<and> T \<union> (if b then {(p, q)} else {}) \<subseteq> A \<times> A"
proof (cases b)
  case True
  with q have "q \<in> A" "cell xs i = Some (lbl q)" by blast+
  with step [OF B(1-3) this(1)] show ?thesis using True B(2,3) k by auto
qed (use B in auto)

lemma compare_pixel_links:
  assumes step: "\<And>T big p q. B T big \<Longrightarrow> T \<subseteq> A \<times> A \<Longrightarrow> p \<in> A \<Longrightarrow> q \<in> A \<Longrightarrow>
      \<exists>big'. cmp (lbl p) (lbl q) big = Some big' \<and> B (insert (p, q) T) big'"
    and B: "B T big" "T \<subseteq> A \<times> A" and A: "A = {..<ny} \<times> {..<nx}" "x < nx" "y < ny"
    and ids: "\<forall>x < nx. cell ids x = Some (lbl (y, x))"
    and lastId: "case lastId of None \<Rightarrow> y = 0 | Some js \<Rightarrow> y > 0 \<and> (\<forall>x < nx. cell js x = Some (lbl (y - 1, x)))"
  shows "\<exists>big'. compare_pixel cmp c nx lastId ids x big = Some big' \<and> B (T \<union> links nx c (y, x)) big'
    \<and> T \<union> links nx c (y, x) \<subseteq> A \<times> A"
proof -
  let ?p = "(y, x)" let ?k = "lbl ?p"
  have p: "?p \<in> A" using A by simp
  note step_if = compare_if [where B = B and A = A and cmp = cmp and lbl = lbl and p = ?p and k = ?k, OF step]
  have left: "\<exists>big'. (if x > 0 then cell ids (x - 1) \<bind> (\<lambda>j. cmp ?k j big) else Some big) = Some big'
      \<and> B (T \<union> (if x > 0 then {(?p, (y, x - 1))} else {})) big' \<and> T \<union> (if x > 0 then {(?p, (y, x - 1))} else {}) \<subseteq> A \<times> A"
    if "B T big" "T \<subseteq> A \<times> A" for T big
    by (rule step_if [OF _ _ _ _ that(1,2) p]) (use A ids in auto)
  show ?thesis
  proof (cases lastId)
    case None
    then have "links nx c ?p = (if x > 0 then {(?p, (y, x - 1))} else {})" using lastId unfolding links_eq [OF A(2)] by simp
    moreover have "compare_pixel cmp c nx lastId ids x big = (if x > 0 then cell ids (x - 1) \<bind> (\<lambda>j. cmp ?k j big) else Some big)"
      unfolding compare_pixel_def None using ids A(2) by simp
    ultimately show ?thesis using left [OF B] by simp
  next
    case (Some js)
    then have y: "y > 0" and js: "\<forall>x < nx. cell js x = Some (lbl (y - 1, x))" using lastId by simp_all
    have "\<exists>big'. (if True then cell js x \<bind> (\<lambda>j. cmp ?k j big) else Some big) = Some big'
        \<and> B (T \<union> (if True then {(?p, (y - 1, x))} else {})) big' \<and> T \<union> (if True then {(?p, (y - 1, x))} else {}) \<subseteq> A \<times> A"
      by (rule step_if [OF _ _ _ _ B p]) (use A js in auto)
    then obtain b1 where b1: "cell js x \<bind> (\<lambda>j. cmp ?k j big) = Some b1"
      "B (T \<union> {(?p, (y - 1, x))}) b1" "T \<union> {(?p, (y - 1, x))} \<subseteq> A \<times> A" by auto
    let ?T2 = "T \<union> {(?p, (y - 1, x))} \<union> (if x > 0 \<and> c = 8 then {(?p, (y - 1, x - 1))} else {})"
    have "\<exists>big'. (if x > 0 \<and> c = 8 then cell js (x - 1) \<bind> (\<lambda>j. cmp ?k j b1) else Some b1) = Some big' \<and> B ?T2 big' \<and> ?T2 \<subseteq> A \<times> A"
      by (rule step_if [OF _ _ _ _ b1(2,3) p]) (use A js in auto)
    then obtain b2 where b2: "(if x > 0 \<and> c = 8 then cell js (x - 1) \<bind> (\<lambda>j. cmp ?k j b1) else Some b1) = Some b2"
      "B ?T2 b2" "?T2 \<subseteq> A \<times> A" by blast
    let ?T3 = "?T2 \<union> (if x + 1 < nx \<and> c = 8 then {(?p, (y - 1, x + 1))} else {})"
    have "\<exists>big'. (if x + 1 < nx \<and> c = 8 then cell js (x + 1) \<bind> (\<lambda>j. cmp ?k j b2) else Some b2) = Some big' \<and> B ?T3 big' \<and> ?T3 \<subseteq> A \<times> A"
      by (rule step_if [OF _ _ _ _ b2(2,3) p]) (use A js in auto)
    then obtain b3 where b3: "(if x + 1 < nx \<and> c = 8 then cell js (x + 1) \<bind> (\<lambda>j. cmp ?k j b2) else Some b2) = Some b3"
      "B ?T3 b3" "?T3 \<subseteq> A \<times> A" by blast
    from left [OF b3(2,3)] obtain b4 where b4: "(if x > 0 then cell ids (x - 1) \<bind> (\<lambda>j. cmp ?k j b3) else Some b3) = Some b4"
      "B (?T3 \<union> (if x > 0 then {(?p, (y, x - 1))} else {})) b4" "?T3 \<union> (if x > 0 then {(?p, (y, x - 1))} else {}) \<subseteq> A \<times> A" by blast
    have j: "cell js x = Some (lbl (y - 1, x))" using js A(2) by simp
    then have b1': "cmp ?k (lbl (y - 1, x)) big = Some b1" using b1(1) by simp
    have "?T3 \<union> (if x > 0 then {(?p, (y, x - 1))} else {}) = T \<union> links nx c ?p"
      unfolding links_eq [OF A(2)] using y by auto
    moreover have "compare_pixel cmp c nx lastId ids x big = Some b4"
      unfolding compare_pixel_def Some using ids A(2) j b1' b2(1) b3(1) b4(1) by simp
    ultimately show ?thesis using b4(2,3) by auto
  qed
qed

lemma compare_line_links:
  assumes step: "\<And>T big p q. B T big \<Longrightarrow> T \<subseteq> A \<times> A \<Longrightarrow> p \<in> A \<Longrightarrow> q \<in> A \<Longrightarrow>
      \<exists>big'. cmp (lbl p) (lbl q) big = Some big' \<and> B (insert (p, q) T) big'"
    and A: "A = {..<ny} \<times> {..<nx}" "y < ny"
    and ids: "\<forall>x < nx. cell ids x = Some (lbl (y, x))"
    and lastId: "case lastId of None \<Rightarrow> y = 0 | Some js \<Rightarrow> y > 0 \<and> (\<forall>x < nx. cell js x = Some (lbl (y - 1, x)))"
  shows "\<forall>x \<in> set xs. x < nx \<Longrightarrow> B T big \<Longrightarrow> T \<subseteq> A \<times> A \<Longrightarrow>
    \<exists>big'. compare_line cmp c nx lastId ids xs big = Some big' \<and> B (T \<union> (\<Union>x \<in> set xs. links nx c (y, x))) big'
      \<and> T \<union> (\<Union>x \<in> set xs. links nx c (y, x)) \<subseteq> A \<times> A"
proof (induction xs arbitrary: T big)
  case (Cons x xs)
  then have x: "x < nx" by simp
  from compare_pixel_links [where B = B and A = A and cmp = cmp and lbl = lbl, OF step Cons.prems(2,3) A(1) x A(2) ids lastId]
  obtain b1 where b1: "compare_pixel cmp c nx lastId ids x big = Some b1" "B (T \<union> links nx c (y, x)) b1"
    "T \<union> links nx c (y, x) \<subseteq> A \<times> A" by blast
  from Cons.IH [OF _ b1(2,3)] Cons.prems(1) obtain b2 where "compare_line cmp c nx lastId ids xs b1 = Some b2"
    "B (T \<union> links nx c (y, x) \<union> (\<Union>x \<in> set xs. links nx c (y, x))) b2"
    "T \<union> links nx c (y, x) \<union> (\<Union>x \<in> set xs. links nx c (y, x)) \<subseteq> A \<times> A" by auto
  then show ?case using b1(1) by (simp add: Un_assoc)
qed simp

text \<open>The numbers of the pixels in a trace.\<close>

definition id_of :: "(nat \<Rightarrow> nat list) \<Rightarrow> pixel \<Rightarrow> nat" where
  "id_of I p = I (fst p) ! snd p"

lemma second_pass_links:
  assumes t: "trace (masked_lines io S K) nx c E I ny"
    and step: "\<And>T big p q. B T big \<Longrightarrow> T \<subseteq> A \<times> A \<Longrightarrow> p \<in> A \<Longrightarrow> q \<in> A \<Longrightarrow>
      \<exists>big'. cmp (id_of I p) (id_of I q) big = Some big' \<and> B (insert (p, q) T) big'"
    and A: "A = {..<ny} \<times> {..<nx}"
  shows "y \<le> ny \<Longrightarrow> viewed io nx ny view S K T s \<Longrightarrow> B Z big \<Longrightarrow> Z \<subseteq> A \<times> A \<Longrightarrow>
    \<exists>big' s'. second_pass io nx c cmp [y..<ny] CE_None (E y) (line_above (masked_lines io S K) I y) big s = Some (CE_None, E ny, big', s')
      \<and> viewed io nx ny view S K T s' \<and> B (Z \<union> (\<Union>p \<in> {y..<ny} \<times> {..<nx}. links nx c p)) big'"
proof (induction "ny - y" arbitrary: y Z big s)
  case 0
  then have "y = ny" by simp
  then show ?case using 0 by (intro exI [of _ big] exI [of _ s]) simp
next
  case (Suc l)
  then have y: "y < ny" by simp
  note tr = traceD [OF t y]
  from read_masked_viewed [OF Suc.prems(2) y] obtain s1 where
    s1: "read_masked io s y = (CE_None, S ! y, masked_lines io S K ! y, s1)" "viewed io nx ny view S K T s1" by blast
  from report_viewed [OF s1(2) y, of 2] obtain s2 where s2: "report io CE_None s1 2 y = (CE_None, s2)" "viewed io nx ny view S K T s2" by blast
  let ?last = "map_option snd (line_above (masked_lines io S K) I y)"
  have ids: "\<forall>x < nx. cell (I y) x = Some (id_of I (y, x))" using tr(2) by (simp add: cell_def id_of_def)
  have last: "case ?last of None \<Rightarrow> y = 0 | Some js \<Rightarrow> y > 0 \<and> (\<forall>x < nx. cell js x = Some (id_of I (y - 1, x)))"
    using traceD(2) [OF t, of "y - 1"] y by (auto simp: line_above_def cell_def id_of_def)
  from compare_line_links [where B = B and A = A and cmp = cmp and lbl = "id_of I" and xs = "[0..<nx]" and c = c, OF step A y ids last _ Suc.prems(3,4)]
  obtain b1 where b1: "compare_line cmp c nx ?last (I y) [0..<nx] big = Some b1" "B (Z \<union> (\<Union>x \<in> {0..<nx}. links nx c (y, x))) b1"
    "Z \<union> (\<Union>x \<in> {0..<nx}. links nx c (y, x)) \<subseteq> A \<times> A" by auto
  have l: "l = ny - Suc y" "Suc y \<le> ny" using Suc.hyps(2) y by simp_all
  from Suc.hyps(1) [OF l s2(2) b1(2,3)] obtain big' s' where r:
    "second_pass io nx c cmp [Suc y..<ny] CE_None (E (Suc y)) (Some (masked_lines io S K ! y, I y)) b1 s2 = Some (CE_None, E ny, big', s')"
    "viewed io nx ny view S K T s'"
    "B (Z \<union> (\<Union>x \<in> {0..<nx}. links nx c (y, x)) \<union> (\<Union>p \<in> {Suc y..<ny} \<times> {..<nx}. links nx c p)) big'"
    unfolding line_above_Suc by blast
  have "Z \<union> (\<Union>x \<in> {0..<nx}. links nx c (y, x)) \<union> (\<Union>p \<in> {Suc y..<ny} \<times> {..<nx}. links nx c p) = Z \<union> (\<Union>p \<in> {y..<ny} \<times> {..<nx}. links nx c p)"
  proof -
    have "{y..<ny} \<times> {..<nx} = Pair y ` {0..<nx} \<union> {Suc y..<ny} \<times> {..<nx}" using y by auto
    then show ?thesis by (simp add: Un_assoc)
  qed
  moreover have "second_pass io nx c cmp [y..<ny] CE_None (E y) (line_above (masked_lines io S K) I y) big s = Some (CE_None, E ny, big', s')"
    using y s1(1) s2(1) tr(1) b1(1) r(1) by (simp add: upt_rec [of y])
  ultimately show ?case using r(2,3) by (intro exI [of _ big'] exI [of _ s']) simp
qed

text \<open>The merges.\<close>

definition merge_target :: "nat list \<Rightarrow> int list \<Rightarrow> int list \<Rightarrow> int \<Rightarrow> nat option list \<Rightarrow> nat \<Rightarrow> nat option" where
  "merge_target m values sizes thr big k =
     (if m ! k = k \<and> values ! k \<noteq> GP_NODATA_MARKER then
        if sizes ! k \<ge> thr then None
        else case big ! k of None \<Rightarrow> None | Some j \<Rightarrow> if sizes ! j \<ge> thr then Some j else None
      else big ! k)"

lemma select_merges_targets:
  assumes len: "length values = length m" "length sizes = length m"
    and big0: "\<forall>k < length m. \<forall>j. big0 ! k = Some j \<longrightarrow> j < length m"
  shows "i \<le> length m \<Longrightarrow> length big = length m \<Longrightarrow> \<forall>k < length m. big ! k = (if k < i then merge_target m values sizes thr big0 k else big0 ! k) \<Longrightarrow>
    \<exists>big'. select_merges [i..<length m] m values sizes thr big = Some big' \<and> length big' = length m
      \<and> (\<forall>k < length m. big' ! k = merge_target m values sizes thr big0 k)"
proof (induction "length m - i" arbitrary: i big)
  case 0
  then have "i = length m" by simp
  then show ?case using 0 by (intro exI [of _ big]) simp
next
  case (Suc l)
  then have i: "i < length m" by simp
  let ?big = "big[i := merge_target m values sizes thr big0 i]"
  have "select_merges [i..<length m] m values sizes thr big = select_merges [Suc i..<length m] m values sizes thr ?big"
  proof -
    have b: "big ! i = big0 ! i" using Suc.prems(3) i by simp
    have u: "big[i := big0 ! i] = big" using b by (metis list_update_id)
    show ?thesis using i b u len Suc.prems(2) big0
      by (cases "big0 ! i") (auto simp: upt_rec [of i] cell_def merge_target_def)
  qed
  moreover have "\<forall>k < length m. ?big ! k = (if k < Suc i then merge_target m values sizes thr big0 k else big0 ! k)"
    using Suc.prems(2,3) by (auto simp: nth_list_update less_Suc_eq)
  moreover have "l = length m - Suc i" "Suc i \<le> length m" "length ?big = length m" using Suc.hyps(2) i Suc.prems(2) by simp_all
  ultimately show ?case using Suc.hyps(1) [of "Suc i" ?big] by simp
qed

text \<open>A pixel of the destination.\<close>

definition merged_value :: "nat list \<Rightarrow> int list \<Rightarrow> nat option list \<Rightarrow> nat \<Rightarrow> int \<Rightarrow> int" where
  "merged_value m values big i v = (case big ! (m ! i) of None \<Rightarrow> v | Some j \<Rightarrow> values ! j)"

lemma merge_line_values:
  assumes "flat m" "length values = length m" "length big = length m" "\<forall>k < length m. \<forall>j. big ! k = Some j \<longrightarrow> j < length m"
  shows "\<forall>i \<in> set ids. i < length m \<Longrightarrow> length line = length ids \<Longrightarrow>
    merge_line m values big ids line = Some (map2 (merged_value m values big) ids line)"
proof (induction ids arbitrary: line)
  case (Cons i ids)
  then obtain v vs where line: "line = v # vs" "length vs = length ids" by (cases line) auto
  have "m ! i < length m" "i < length m" using assms(1) Cons.prems(1) by (auto simp: flat_def)
  moreover from this have "(case big ! (m ! i) of None \<Rightarrow> Some v | Some j \<Rightarrow> cell values j) = Some (merged_value m values big i v)"
    using assms(2,4) by (auto simp: merged_value_def cell_def split: option.splits)
  ultimately show ?case using Cons.IH [of vs] Cons.prems(1) line assms(3) by (simp add: cell_def)
qed simp

lemma map2_nth: "y < length xs \<Longrightarrow> y < length ys \<Longrightarrow> map2 f xs ys ! y = f (xs ! y) (ys ! y)"
  by simp

lemma masked_lines_nth:
  "y < length S \<Longrightarrow> ReadMask io \<noteq> None \<longrightarrow> length K = length S \<Longrightarrow>
    masked_lines io S K ! y = (case ReadMask io of None \<Rightarrow> S ! y | Some h \<Rightarrow> mask_line (K ! y) (S ! y))"
  by (auto simp: masked_lines_def split: option.splits)

lemma third_pass_writes:
  assumes t: "trace (masked_lines io S K) nx c E I ny"
    and mrg: "\<And>y. y < ny \<Longrightarrow> mrg (I y) (S ! y) = Some (out y) \<and> length (out y) = nx" and len: "length S = ny"
  shows "y \<le> ny \<Longrightarrow> viewed io nx ny view S' K T s \<Longrightarrow> \<forall>i. y \<le> i \<and> i < ny \<longrightarrow> S' ! i = S ! i \<Longrightarrow>
    \<exists>s' S'' T'. third_pass io nx mrg [y..<ny] CE_None (E y) (line_above (masked_lines io S K) I y) s = Some (CE_None, s')
      \<and> view s' = (S'', K, T') \<and> length T' = length T \<and> (\<forall>i < length T. T' ! i = (if y \<le> i \<and> i < ny then out i else T ! i))"
proof (induction "ny - y" arbitrary: y S' T s)
  case 0
  then have "y = ny" "view s = (S', K, T)" by (simp_all add: viewed_def)
  then show ?case by auto
next
  case (Suc l)
  then have y: "y < ny" by simp
  note tr = traceD [OF t y]
  have v: "length S' = ny" "ReadMask io \<noteq> None \<longrightarrow> length K = ny" using Suc.prems(2) by (simp_all add: viewed_def)
  have row1: "S' ! y = S ! y" using Suc.prems(3) y by simp
  then have row: "S' ! y = S ! y" "masked_lines io S' K ! y = masked_lines io S K ! y"
    using y v len masked_lines_nth [of y S' io K] masked_lines_nth [of y S io K] by (cases "ReadMask io"; simp)+
  from read_masked_viewed [OF Suc.prems(2) y] row obtain s1 where
    s1: "read_masked io s y = (CE_None, S ! y, masked_lines io S K ! y, s1)" "viewed io nx ny view S' K T s1" by auto
  have w: "works io nx ny view" and v1: "view s1 = (S', K, T)" using s1(2) by (simp_all add: viewed_def)
  from mrg [OF y] worksD(3) [OF w v1 v(1) y, of "out y"] obtain s2 S2 where
    s2: "WriteLine io s1 y (out y) = (CE_None, s2)" "view s2 = (S2, K, T[y := out y])" "length S2 = ny" "\<forall>y'. y' \<noteq> y \<longrightarrow> S2 ! y' = S' ! y'" by auto
  have "viewed io nx ny view S2 K (T[y := out y]) s2" using s2 w v by (simp add: viewed_def)
  from report_viewed [OF this y, of 3] obtain s3 where
    s3: "report io CE_None s2 3 y = (CE_None, s3)" "viewed io nx ny view S2 K (T[y := out y]) s3" by blast
  have l: "l = ny - Suc y" "Suc y \<le> ny" "\<forall>i. Suc y \<le> i \<and> i < ny \<longrightarrow> S2 ! i = S ! i" using Suc.hyps(2) y s2(4) Suc.prems(3) by auto
  from Suc.hyps(1) [OF l(1,2) s3(2) l(3)] obtain s' S'' T' where r:
    "third_pass io nx mrg [Suc y..<ny] CE_None (E (Suc y)) (Some (masked_lines io S K ! y, I y)) s3 = Some (CE_None, s')"
    "view s' = (S'', K, T')" "length T' = length (T[y := out y])"
    "\<forall>i < length (T[y := out y]). T' ! i = (if Suc y \<le> i \<and> i < ny then out i else T[y := out y] ! i)"
    unfolding line_above_Suc by blast
  have "third_pass io nx mrg [y..<ny] CE_None (E y) (line_above (masked_lines io S K) I y) s = Some (CE_None, s')"
    using y s1(1) s2(1) s3(1) tr(1) mrg [OF y] r(1) by (simp add: upt_rec [of y])
  moreover have "T' ! i = (if y \<le> i \<and> i < ny then out i else T ! i)" if "i < length T" for i
    using r(4) that y by (cases "i = y") auto
  ultimately show ?case using r(2,3) by auto
qed

end
