(* ===== verification/Gdal_Sieve_Props.thy ===== *)
theory Gdal_Sieve_Props
  imports Gdal_Sieve_Passes
begin

text \<open>
  The sieve filter against its specification by regions, neighbours and sizes, and a raster filtered in place.
\<close>

section \<open>Correctness\<close>

lemma sum_card:
  assumes "finite A" "finite J"
  shows "(\<Sum>j \<in> J. card {p \<in> A. f p = j}) = card {p \<in> A. f p \<in> J}"
proof -
  have "{p \<in> A. f p \<in> J} = (\<Union>j \<in> J. {p \<in> A. f p = j})" by auto
  also have "card \<dots> = (\<Sum>j \<in> J. card {p \<in> A. f p = j})" by (rule card_UN_disjoint) (use assms in auto)
  finally show ?thesis by simp
qed

lemma target_of_pixel:
  assumes reg: "\<And>p q. p \<in> P \<Longrightarrow> q \<in> P \<Longrightarrow> m ! lbl p = m ! lbl q \<longleftrightarrow> (p, q) \<in> region M nx c" and P: "P = pixels M nx"
    and val: "\<And>p. p \<in> P \<Longrightarrow> values ! (m ! lbl p) = pix M p"
    and flat: "flat m" and lbl: "\<And>p. p \<in> P \<Longrightarrow> lbl p < length m"
    and sz: "\<And>p. p \<in> P \<Longrightarrow> sizes ! (m ! lbl p) = int (card (region_at M nx c p))"
    and best: "best m values sizes lbl T big"
    and T: "\<And>p q. (p, q) \<in> T \<or> (q, p) \<in> T \<longleftrightarrow> p \<in> P \<and> q \<in> P \<and> adjacent c p q"
    and p: "p \<in> P"
  shows "if sieved M nx c thr p
    then \<exists>q. merge_target m values sizes thr big (m ! lbl p) = Some (m ! lbl q) \<and> largest_neighbour M nx c p q
    else merge_target m values sizes thr big (m ! lbl p) = None"
proof -
  let ?k = "m ! lbl p"
  have k: "?k < length m" "m ! ?k = ?k" using flat lbl [OF p] by (simp_all add: flat_def)
  have cb: "cell_best sizes (big ! ?k) (rivals m values lbl T ?k)" using best k(1) by (simp add: best_cells)
  have inP: "q \<in> P" if "q \<in> region_at M nx c p" for q using that p P region_pixels by (auto simp: region_at_def)
  have riv: "rivals m values lbl T ?k = (\<lambda>q. m ! lbl q) ` neighbours M nx c p" if "pix M p \<noteq> GP_NODATA_MARKER"
  proof (rule set_eqI)
    fix j
    have "j \<in> rivals m values lbl T ?k \<longleftrightarrow> (\<exists>p' \<in> P. \<exists>q \<in> P. j = m ! lbl q \<and> adjacent c p' q \<and> m ! lbl p' = ?k \<and> m ! lbl q \<noteq> ?k
        \<and> values ! ?k \<noteq> GP_NODATA_MARKER \<and> values ! (m ! lbl q) \<noteq> GP_NODATA_MARKER)"
      unfolding rivals_def using T by blast
    also have "\<dots> \<longleftrightarrow> (\<exists>p' \<in> P. \<exists>q \<in> P. j = m ! lbl q \<and> adjacent c p' q \<and> (p, p') \<in> region M nx c \<and> (p, q) \<notin> region M nx c
        \<and> pix M q \<noteq> GP_NODATA_MARKER)" using reg [OF p] val that p by (metis (full_types))
    also have "\<dots> \<longleftrightarrow> j \<in> (\<lambda>q. m ! lbl q) ` neighbours M nx c p"
      unfolding neighbours_def using inP P by (fastforce simp: region_at_def image_iff)
    finally show "j \<in> rivals m values lbl T ?k \<longleftrightarrow> j \<in> (\<lambda>q. m ! lbl q) ` neighbours M nx c p" .
  qed
  have nP: "q \<in> P" if "q \<in> neighbours M nx c p" for q using that P by (simp add: neighbours_def)
  show ?thesis
  proof (cases "pix M p = GP_NODATA_MARKER")
    case True
    then have "rivals m values lbl T ?k = {}" using val [OF p] by (auto simp: rivals_def)
    then have "big ! ?k = None" using cb by (auto simp: cell_best_def split: option.splits)
    then show ?thesis using True val [OF p] by (simp add: merge_target_def sieved_def)
  next
    case False
    note riv = riv [OF False]
    have target: "merge_target m values sizes thr big ?k = (if int (card (region_at M nx c p)) \<ge> thr then None
        else case big ! ?k of None \<Rightarrow> None | Some j \<Rightarrow> if sizes ! j \<ge> thr then Some j else None)"
      using k(2) False val [OF p] sz [OF p] by (simp add: merge_target_def)
    show ?thesis
    proof (cases "big ! ?k")
      case None
      then have "neighbours M nx c p = {}" using cb riv by (simp add: cell_best_def)
      then show ?thesis using None target by (simp add: sieved_def)
    next
      case (Some j)
      then obtain q where q: "q \<in> neighbours M nx c p" "j = m ! lbl q" using cb riv by (auto simp: cell_best_def)
      have max: "card (region_at M nx c q') \<le> card (region_at M nx c q)" if "q' \<in> neighbours M nx c p" for q'
      proof -
        have "sizes ! (m ! lbl q') \<le> sizes ! j" using cb Some riv that by (auto simp: cell_best_def)
        then show ?thesis using sz [OF nP [OF that]] sz [OF nP [OF q(1)]] q(2) by simp
      qed
      then have "sieved M nx c thr p \<longleftrightarrow> int (card (region_at M nx c p)) < thr \<and> thr \<le> sizes ! j"
        using False q sz [OF nP [OF q(1)]] unfolding sieved_def by force
      moreover have "largest_neighbour M nx c p q" using q(1) max by (simp add: largest_neighbour_def)
      moreover have "merge_target m values sizes thr big ?k = (if int (card (region_at M nx c p)) < thr \<and> thr \<le> sizes ! j then Some j else None)"
        using target Some by simp
      ultimately have "if sieved M nx c thr p then merge_target m values sizes thr big ?k = Some (m ! lbl q) \<and> largest_neighbour M nx c p q
          else merge_target m values sizes thr big ?k = None" using q(2) by simp
      then show ?thesis by (metis (mono_tags, lifting))
    qed
  qed
qed

lemma links_adjacent:
  "(p, q) \<in> (\<Union>p \<in> {..<ny} \<times> {..<nx}. links nx c p) \<or> (q, p) \<in> (\<Union>p \<in> {..<ny} \<times> {..<nx}. links nx c p)
    \<longleftrightarrow> p \<in> {..<ny} \<times> {..<nx} \<and> q \<in> {..<ny} \<times> {..<nx} \<and> adjacent c p q"
proof -
  obtain y x y' x' where pq: "p = (y, x)" "q = (y', x')" by (cases p; cases q)
  have 1: "(p, q) \<in> (\<Union>p \<in> {..<ny} \<times> {..<nx}. links nx c p) \<longleftrightarrow> y < ny \<and> x < nx \<and> q \<in> before nx y x \<and> adjacent c p q"
    by (auto simp: links_def pq)
  have 2: "(q, p) \<in> (\<Union>p \<in> {..<ny} \<times> {..<nx}. links nx c p) \<longleftrightarrow> y' < ny \<and> x' < nx \<and> p \<in> before nx y' x' \<and> adjacent c q p"
    by (auto simp: links_def pq)
  show ?thesis
  proof (cases "adjacent c p q")
    case True
    then have "adjacent c q p" "p \<noteq> q" by (auto intro: adjacent_sym simp: pq)
    then have "(y < ny \<and> x < nx \<and> q \<in> before nx y x) \<or> (y' < ny \<and> x' < nx \<and> p \<in> before nx y' x') \<longleftrightarrow>
        p \<in> {..<ny} \<times> {..<nx} \<and> q \<in> {..<ny} \<times> {..<nx}" by (auto simp: pq before_def)
    then show ?thesis using 1 2 True \<open>adjacent c q p\<close> by simp
  next
    case False
    then have "\<not> adjacent c q p" using adjacent_sym by blast
    then show ?thesis using 1 2 False by simp
  qed
qed

declare split_paired_All [simp del] split_paired_Ex [simp del]

text \<open>
  What the passes have in common. The number of a pixel is \<open>id_of I\<close>, and \<open>m\<close> maps it to the number of its region, of which
  \<open>vals\<close> has the value.
\<close>

abbreviation grid :: "nat \<Rightarrow> nat \<Rightarrow> pixel set" where
  "grid ny nx \<equiv> {..<ny} \<times> {..<nx}"

definition coloured :: "int list list \<Rightarrow> nat \<Rightarrow> nat \<Rightarrow> nat \<Rightarrow> (nat \<Rightarrow> nat list) \<Rightarrow> nat list \<Rightarrow> int list \<Rightarrow> bool" where
  "coloured M nx c ny I m vals \<longleftrightarrow> grid ny nx = pixels M nx \<and> flat m \<and> length vals = length m
     \<and> (\<forall>y < ny. length (I y) = nx \<and> (\<forall>k \<in> set (I y). k < length m))
     \<and> (\<forall>p \<in> grid ny nx. \<forall>q \<in> grid ny nx. m ! id_of I p = m ! id_of I q \<longleftrightarrow> (p, q) \<in> region M nx c)
     \<and> (\<forall>p \<in> grid ny nx. vals ! (m ! id_of I p) = pix M p)"

lemma colouredD:
  assumes "coloured M nx c ny I m vals"
  shows "grid ny nx = pixels M nx" "flat m" "length vals = length m" "y < ny \<Longrightarrow> length (I y) = nx"
    "y < ny \<Longrightarrow> \<forall>k \<in> set (I y). k < length m"
    "p \<in> grid ny nx \<Longrightarrow> q \<in> grid ny nx \<Longrightarrow> m ! id_of I p = m ! id_of I q \<longleftrightarrow> (p, q) \<in> region M nx c"
    "p \<in> grid ny nx \<Longrightarrow> vals ! (m ! id_of I p) = pix M p"
  using assms unfolding coloured_def by blast+

lemma coloured_id:
  assumes "coloured M nx c ny I m vals" "p \<in> grid ny nx"
  shows "id_of I p < length m" "m ! id_of I p < length m"
proof -
  show "id_of I p < length m" using colouredD(4,5) [OF assms(1), of "fst p"] assms(2) by (auto simp: id_of_def)
  then show "m ! id_of I p < length m" using colouredD(2) [OF assms(1)] by (simp add: flat_def)
qed

lemma coloured_region:
  assumes c: "coloured M nx c ny I m vals" and p: "p \<in> grid ny nx"
  shows "{q \<in> grid ny nx. m ! id_of I q = m ! id_of I p} = region_at M nx c p"
proof (rule set_eqI)
  fix q
  have "q \<in> grid ny nx" if "(p, q) \<in> region M nx c" using region_pixels [OF that] p colouredD(1) [OF c] by simp
  then show "q \<in> {q \<in> grid ny nx. m ! id_of I q = m ! id_of I p} \<longleftrightarrow> q \<in> region_at M nx c p"
    using colouredD(6) [OF c p, of q] unfolding region_at_def by (metis (mono_tags, lifting) mem_Collect_eq)
qed

lemma coloured_exists:
  assumes len: "length M = ny" and rect: "\<forall>line \<in> set M. length line = nx" and small: "ny * nx \<le> 2 ^ 28 - 10"
  shows "\<exists>E I e n. trace M nx c E I ny \<and> E 0 = new_enumerator c \<and> ClearPolygons (E ny) = new_enumerator c
    \<and> CompleteMerges (E ny) = Some (e, n) \<and> nNextPolygonId e = length (panPolyIdMap e) \<and> nNextPolygonId (E ny) = length (panPolyIdMap e)
    \<and> coloured M nx c ny I (panPolyIdMap e) (panPolyValue e)"
proof -
  have s: "length M * nx \<le> 2 ^ 28 - 10" using small len by simp
  have P: "grid ny nx = pixels M nx" using len by (auto simp: pixels_def)
  obtain E I lb where t: "trace M nx c E I ny" and lab: "labelled M nx c (E ny) lb (before nx ny 0)"
    using trace_exists [OF s rect, of ny c] len by auto
  have E0: "E 0 = new_enumerator c" "ClearPolygons (E ny) = new_enumerator c"
    using t lab by (simp_all add: trace_def labelled_def ClearPolygons_new)
  have "enumerate_lines (new_enumerator c) None M nx = Some (E ny, map I [0..<ny])"
    using trace_enumerates [of M nx c E I 0] t len E0(1) by (simp add: line_above_def)
  with enumerate_regions [OF s rect, of c] obtain e n where
    cm: "CompleteMerges (E ny) = Some (e, n)" "nNextPolygonId e = nNextPolygonId (E ny)" and
    ro: "regions_of M nx c e (map I [0..<ny])" by auto
  have fin: "final e (map I [0..<ny]) p = panPolyIdMap e ! id_of I p" if "p \<in> grid ny nx" for p
    using that by (auto simp: final_def id_of_def)
  have roD: "length (panPolyIdMap e) = nNextPolygonId e" "length (panPolyValue e) = nNextPolygonId e"
    "\<forall>k < nNextPolygonId e. panPolyIdMap e ! k < nNextPolygonId e \<and> panPolyIdMap e ! (panPolyIdMap e ! k) = panPolyIdMap e ! k"
    "\<forall>ids \<in> set (map I [0..<ny]). length ids = nx \<and> (\<forall>k \<in> set ids. k < nNextPolygonId e)"
    using ro unfolding regions_of_def by blast+
  have "coloured M nx c ny I (panPolyIdMap e) (panPolyValue e)"
    unfolding coloured_def
  proof (intro conjI ballI)
    fix p q assume p: "p \<in> grid ny nx" and q: "q \<in> grid ny nx"
    show "panPolyIdMap e ! id_of I p = panPolyIdMap e ! id_of I q \<longleftrightarrow> (p, q) \<in> region M nx c"
      using ro fin [OF p] fin [OF q] p q unfolding regions_of_def P by metis
  next
    fix p assume p: "p \<in> grid ny nx"
    show "panPolyValue e ! (panPolyIdMap e ! id_of I p) = pix M p"
      using ro fin [OF p] p unfolding regions_of_def P by metis
  qed (use roD P in \<open>simp_all add: flat_def\<close>)
  moreover have "nNextPolygonId e = length (panPolyIdMap e)" "nNextPolygonId (E ny) = length (panPolyIdMap e)"
    using roD(1) cm(2) by simp_all
  ultimately show ?thesis using t E0 cm(1) by blast
qed

lemma region_sizes:
  assumes c: "coloured M nx c ny I m vals" and small: "ny * nx \<le> 2 ^ 28 - 10" and len: "length z = length m"
    and z: "\<forall>k < length m. z ! k = int (card {p \<in> grid ny nx. id_of I p = k})"
  shows "\<exists>sizes. push_sizes [0..<length m] m z = Some sizes \<and> length sizes = length m
    \<and> (\<forall>p \<in> grid ny nx. sizes ! (m ! id_of I p) = int (card (region_at M nx c p)))"
proof -
  have sum: "(\<Sum>j | j < length m \<and> Q j. z ! j) = int (card {p \<in> grid ny nx. Q (id_of I p)})" for Q
  proof -
    have "(\<Sum>j | j < length m \<and> Q j. z ! j) = (\<Sum>j \<in> {j. j < length m \<and> Q j}. int (card {p \<in> grid ny nx. id_of I p = j}))"
      using z by (intro sum.cong) auto
    also have "\<dots> = int (\<Sum>j \<in> {j. j < length m \<and> Q j}. card {p \<in> grid ny nx. id_of I p = j})" by (rule of_nat_sum [symmetric])
    also have "(\<Sum>j \<in> {j. j < length m \<and> Q j}. card {p \<in> grid ny nx. id_of I p = j}) = card {p \<in> grid ny nx. id_of I p \<in> {j. j < length m \<and> Q j}}"
      by (rule sum_card) simp_all
    also have "{p \<in> grid ny nx. id_of I p \<in> {j. j < length m \<and> Q j}} = {p \<in> grid ny nx. Q (id_of I p)}"
      using coloured_id(1) [OF c] by blast
    finally show ?thesis .
  qed
  have "(\<Sum>j < length m. z ! j) = int (card (grid ny nx))" using sum [of "\<lambda>_. True"] by (simp add: lessThan_def)
  moreover have "ny * nx \<le> 2147483647" using small by simp
  then have "int (ny * nx) \<le> int 2147483647" by (simp only: of_nat_le_iff)
  ultimately have "(\<Sum>j < length m. z ! j) \<le> MY_MAX_INT" by (simp add: MY_MAX_INT_def)
  moreover have "\<forall>k < length m. 0 \<le> z ! k" "\<forall>k < length m. z ! k = pushed m z 0 k" using z pushed_0 by simp_all
  ultimately obtain sizes where ps: "push_sizes [0..<length m] m z = Some sizes" "length sizes = length m"
    "\<forall>k < length m. sizes ! k = pushed m z (length m) k"
    using push_sizes_pushed [OF colouredD(2) [OF c] _ _ le0 len] by blast
  have "sizes ! (m ! id_of I p) = int (card (region_at M nx c p))" if p: "p \<in> grid ny nx" for p
  proof -
    have "pushed m z (length m) (m ! id_of I p) = (\<Sum>j | j < length m \<and> m ! j = m ! id_of I p. z ! j)"
      unfolding pushed_def by (rule sum.cong) auto
    then show ?thesis using ps(3) coloured_id(2) [OF c p] sum [of "\<lambda>j. m ! j = m ! id_of I p"] coloured_region [OF c p] by simp
  qed
  then show ?thesis using ps by blast
qed

text \<open>The table of merges that the filter computes.\<close>

definition merges_found :: "int list list \<Rightarrow> nat \<Rightarrow> nat \<Rightarrow> nat \<Rightarrow> int \<Rightarrow> (nat \<Rightarrow> nat list) \<Rightarrow> nat list \<Rightarrow> nat option list \<Rightarrow> bool" where
  "merges_found M nx c ny thr I m big \<longleftrightarrow> length big = length m \<and> (\<forall>k < length m. \<forall>j. big ! k = Some j \<longrightarrow> j < length m)
     \<and> (\<forall>p \<in> grid ny nx. if sieved M nx c thr p then \<exists>q. big ! (m ! id_of I p) = Some (m ! id_of I q) \<and> largest_neighbour M nx c p q
          else big ! (m ! id_of I p) = None)"

lemma select_merges_found:
  assumes c: "coloured M nx c ny I m vals" and len: "length sizes = length m"
    and sz: "\<And>p. p \<in> grid ny nx \<Longrightarrow> sizes ! (m ! id_of I p) = int (card (region_at M nx c p))"
    and best: "best m vals sizes (id_of I) (\<Union>p \<in> grid ny nx. links nx c p) big"
  shows "\<exists>big'. select_merges [0..<length m] m vals sizes thr big = Some big' \<and> merges_found M nx c ny thr I m big'"
proof -
  have bound: "\<forall>k < length m. \<forall>j. big ! k = Some j \<longrightarrow> j < length m"
  proof (intro allI impI)
    fix k j assume "k < length m" "big ! k = Some j"
    then have "j \<in> rivals m vals (id_of I) (\<Union>p \<in> grid ny nx. links nx c p) k" using best unfolding best_def by fastforce
    from rivals_of [OF this] obtain p q where
      pq: "(p, q) \<in> (\<Union>p \<in> grid ny nx. links nx c p) \<or> (q, p) \<in> (\<Union>p \<in> grid ny nx. links nx c p)" "j = m ! id_of I q"
      by (elim exE conjE) (rule that)
    have "q \<in> grid ny nx" by (rule conjunct1 [OF conjunct2 [OF iffD1 [OF links_adjacent pq(1)]]])
    then show "j < length m" using coloured_id(2) [OF c] pq(2) by simp
  qed
  have "length big = length m" using best by (simp add: best_def)
  with select_merges_targets [OF colouredD(3) [OF c] len bound le0, of big thr] obtain big' where
    sm: "select_merges [0..<length m] m vals sizes thr big = Some big'" "length big' = length m"
      "\<forall>k < length m. big' ! k = merge_target m vals sizes thr big k" by auto
  have "\<forall>k < length m. \<forall>j. big' ! k = Some j \<longrightarrow> j < length m"
    using sm(3) bound by (auto simp: merge_target_def split: if_splits option.splits)
  moreover have "if sieved M nx c thr p then \<exists>q. big' ! (m ! id_of I p) = Some (m ! id_of I q) \<and> largest_neighbour M nx c p q
      else big' ! (m ! id_of I p) = None" if p: "p \<in> grid ny nx" for p
  proof -
    have "big' ! (m ! id_of I p) = merge_target m vals sizes thr big (m ! id_of I p)" using sm(3) coloured_id(2) [OF c p] by simp
    then show ?thesis
      using target_of_pixel [where lbl = "id_of I", OF colouredD(6) [OF c] colouredD(1) [OF c] colouredD(7) [OF c]
          colouredD(2) [OF c] coloured_id(1) [OF c] sz best links_adjacent p, of thr] by simp
  qed
  ultimately show ?thesis using sm(1,2) unfolding merges_found_def by blast
qed

lemma merges_foundD:
  assumes "merges_found M nx c ny thr I m big" "p \<in> grid ny nx"
  shows "if sieved M nx c thr p then \<exists>q. big ! (m ! id_of I p) = Some (m ! id_of I q) \<and> largest_neighbour M nx c p q
    else big ! (m ! id_of I p) = None"
  using assms unfolding merges_found_def by blast

text \<open>The pixels of the destination.\<close>

lemma merged_pixels:
  assumes c: "coloured M nx c ny I m vals" and f: "merges_found M nx c ny thr I m big"
    and T: "\<And>p. p \<in> grid ny nx \<Longrightarrow> pix T p = merged_value m vals big (id_of I p) (pix S p)" and p: "p \<in> grid ny nx"
  shows "if sieved M nx c thr p then \<exists>q. largest_neighbour M nx c p q \<and> (\<forall>p' \<in> region_at M nx c p. pix T p' = pix M q)
    else pix T p = pix S p"
proof (cases "sieved M nx c thr p")
  case True
  then have "\<exists>q. big ! (m ! id_of I p) = Some (m ! id_of I q) \<and> largest_neighbour M nx c p q" using merges_foundD [OF f p] by simp
  then obtain q where q: "big ! (m ! id_of I p) = Some (m ! id_of I q)" "largest_neighbour M nx c p q" by blast
  have qP: "q \<in> grid ny nx" using q(2) colouredD(1) [OF c] by (simp add: largest_neighbour_def neighbours_def)
  have "pix T p' = pix M q" if "p' \<in> region_at M nx c p" for p'
  proof -
    have p': "p' \<in> grid ny nx" "m ! id_of I p' = m ! id_of I p" using that coloured_region [OF c p] by blast+
    then show ?thesis using T [OF p'(1)] q(1) colouredD(7) [OF c qP] by (simp add: merged_value_def)
  qed
  then have "\<exists>q. largest_neighbour M nx c p q \<and> (\<forall>p' \<in> region_at M nx c p. pix T p' = pix M q)"
    using q(2) by (intro exI [of _ q] conjI ballI)
  then show ?thesis using True by simp
next
  case False
  then show ?thesis using merges_foundD [OF f p] T [OF p] by (simp add: merged_value_def)
qed

lemma masked_lines_rect:
  assumes "\<forall>line \<in> set S. length line = nx" "ReadMask io \<noteq> None \<longrightarrow> length K = length S \<and> (\<forall>line \<in> set K. length line = nx)"
  shows "length (masked_lines io S K) = length S" "\<forall>line \<in> set (masked_lines io S K). length line = nx"
proof -
  show l: "length (masked_lines io S K) = length S" using assms(2) by simp
  have "length (masked_lines io S K ! y) = nx" if "y < length S" for y
    using masked_lines_nth [of y S io K] that assms by (auto simp: mask_line_def split: option.splits)
  then show "\<forall>line \<in> set (masked_lines io S K). length line = nx" using l by (metis in_set_conv_nth)
qed

text \<open>C8: the sieve filter. On bands of at most \<open>2\<^sup>2\<^sup>8 - 10\<close> pixels that work, with a mask or without, into another band or in place, \<open>GDALSieveFilter\<close>
returns without an error. Regions are those of the source with the pixels outside the mask set to the value -51502112
(\<open>GP_NODATA_MARKER\<close>); a region of that value, inside the mask or not, is never changed and is no neighbour of another one. The
pixels of each other region that is smaller than the threshold and has such a neighbouring region at least as large as the
threshold get the value of a largest neighbouring region, the same for all of them; all other pixels, and those outside the
mask, keep their value.\<close>
theorem sieve_filter_merges_small_regions:
  assumes "works io nx ny view" "view s = (S, K, T)" "length S = ny" "\<forall>line \<in> set S. length line = nx" "length T = ny"
    and "ReadMask io \<noteq> None \<longrightarrow> length K = ny \<and> (\<forall>line \<in> set K. length line = nx)" "ny * nx \<le> 2 ^ 28 - 10"
  shows "\<exists>s' S' T'. GDALSieveFilter io True nx ny thr c s = Some (CE_None, s') \<and> view s' = (S', K, T') \<and> length T' = ny
    \<and> (\<forall>p \<in> pixels S nx. if sieved (masked_lines io S K) nx c thr p
         then \<exists>q. largest_neighbour (masked_lines io S K) nx c p q
           \<and> (\<forall>p' \<in> region_at (masked_lines io S K) nx c p. pix T' p' = pix (masked_lines io S K) q)
         else pix T' p = pix S p)"
proof -
  let ?M = "masked_lines io S K"
  have v: "viewed io nx ny view S K T s" using assms by (simp add: viewed_def)
  have M: "length ?M = ny" "\<forall>line \<in> set ?M. length line = nx" using masked_lines_rect [of S nx io K] assms(3,4,6) by simp_all
  from coloured_exists [OF M assms(7), of c] obtain E I e n where
    t: "trace ?M nx c E I ny" and E0: "E 0 = new_enumerator c" "ClearPolygons (E ny) = new_enumerator c" and
    cm: "CompleteMerges (E ny) = Some (e, n)" "nNextPolygonId e = length (panPolyIdMap e)" "nNextPolygonId (E ny) = length (panPolyIdMap e)" and
    c: "coloured ?M nx c ny I (panPolyIdMap e) (panPolyValue e)" by blast
  define m where "m = panPolyIdMap e"
  define vals where "vals = panPolyValue e"
  note c = c [folded m_def vals_def]
  have start: "line_above ?M I 0 = None" by (simp add: line_above_def)
  have "of_id I nx ny k = {p \<in> grid ny nx. id_of I p = k}" for k by (auto simp: of_id_def before_def id_of_def)
  then obtain z s1 where p1: "first_pass io nx [0..<ny] CE_None (new_enumerator c) None [] s = Some (CE_None, E ny, z, s1)"
    "viewed io nx ny view S K T s1" "length z = length m" "\<forall>k < length m. z ! k = int (card {p \<in> grid ny nx. id_of I p = k})"
    using first_pass_viewed [OF t assms(7) le0 v, of "[]"] E0(1) cm(3) start by (auto simp: new_enumerator_def m_def)
  from region_sizes [OF c assms(7) p1(3,4)] obtain sizes where
    ps: "push_sizes [0..<length m] m z = Some sizes" "length sizes = length m" and
    sz: "\<And>p. p \<in> grid ny nx \<Longrightarrow> sizes ! (m ! id_of I p) = int (card (region_at ?M nx c p))" by blast
  have step: "\<exists>big'. CompareNeighbour m vals sizes (id_of I p) (id_of I q) big = Some big' \<and> best m vals sizes (id_of I) (insert (p, q) T) big'"
    if "best m vals sizes (id_of I) T big" "T \<subseteq> grid ny nx \<times> grid ny nx" "p \<in> grid ny nx" "q \<in> grid ny nx" for T big p q
    by (rule CompareNeighbour_best [OF that(1) colouredD(2,3) [OF c] ps(2) coloured_id(1) [OF c that(3)] coloured_id(1) [OF c that(4)]])
      (use that(2) coloured_id(1) [OF c] in auto)
  have B0: "best m vals sizes (id_of I) {} (replicate (length m) None)" by (simp add: best_def rivals_def)
  from second_pass_links [where B = "best m vals sizes (id_of I)" and cmp = "CompareNeighbour m vals sizes",
      OF t step refl le0 p1(2) B0 empty_subsetI] obtain big s2 where
    p2: "second_pass io nx c (CompareNeighbour m vals sizes) [0..<ny] CE_None (new_enumerator c) None (replicate (length m) None) s1
        = Some (CE_None, E ny, big, s2)" "viewed io nx ny view S K T s2" "best m vals sizes (id_of I) (\<Union>p \<in> grid ny nx. links nx c p) big"
    unfolding start E0(1) Un_empty_left atLeast0LessThan by blast
  from select_merges_found [OF c ps(2) sz p2(3), of thr] obtain big' where
    sm: "select_merges [0..<length m] m vals sizes thr big = Some big'" and f: "merges_found ?M nx c ny thr I m big'" by blast
  let ?out = "\<lambda>y. map2 (merged_value m vals big') (I y) (S ! y)"
  have mrg: "merge_line m vals big' (I y) (S ! y) = Some (?out y) \<and> length (?out y) = nx" if "y < ny" for y
    using merge_line_values [OF colouredD(2,3) [OF c] _ _ colouredD(5) [OF c that], of big' "S ! y"] f colouredD(4) [OF c that] that assms(3,4)
    by (simp add: merges_found_def)
  from third_pass_writes [where mrg = "merge_line m vals big'" and out = ?out, OF t mrg assms(3) le0 p2(2)] obtain s' S' T' where
    p3: "third_pass io nx (merge_line m vals big') [0..<ny] CE_None (new_enumerator c) None s2 = Some (CE_None, s')"
      "view s' = (S', K, T')" "length T' = ny" "\<forall>i < ny. T' ! i = ?out i" using E0(1) start assms(5) by auto
  have "GDALSieveFilter io True nx ny thr c s = Some (CE_None, s')"
    using p1(1) cm ps p2(1) sm p3(1) E0(2) unfolding GDALSieveFilter_def m_def vals_def by simp
  moreover have T': "pix T' p = merged_value m vals big' (id_of I p) (pix S p)" if "p \<in> grid ny nx" for p
    using that p3(4) colouredD(4) [OF c, of "fst p"] assms(3,4) by (auto simp: pix_def id_of_def)
  moreover have "pixels S nx = grid ny nx" using assms(3) by (auto simp: pixels_def)
  ultimately show ?thesis using p3(2,3) merged_pixels [OF c f T'] by blast
qed

section \<open>A raster filtered in place\<close>

definition in_place :: "int list list raster_io" where
  "in_place = \<lparr>ReadLine = (\<lambda>L y. (CE_None, L ! y, L)), ReadMask = None, WriteLine = (\<lambda>L y line. (CE_None, L[y := line])),
     Progress = (\<lambda>L pass y. (True, L))\<rparr>"

definition spot :: "int list list" where
  "spot = [[1, 1, 1], [1, 2, 1], [1, 1, 1]]"

text \<open>Without a mask, a small region with the value of the marker stays next to a large one; and a small region whose only
neighbour is small stays, although that neighbour is merged into a large one: there is no tracking to the neighbour's neighbour.\<close>

lemma marker_region_not_sieved:
  "GDALSieveFilter in_place True 3 3 2 4 [[1, 1, 1], [1, GP_NODATA_MARKER, 1], [1, 1, 1]]
    = Some (CE_None, [[1, 1, 1], [1, GP_NODATA_MARKER, 1], [1, 1, 1]])"
  by code_simp

lemma no_tracking_of_neighbours:
  "GDALSieveFilter in_place True 6 1 3 4 [[1, 2, 2, 3, 3, 3]] = Some (CE_None, [[1, 3, 3, 3, 3, 3]])"
  by code_simp

theorem sieve_filter_merges_small_regions_witness:
  "GDALSieveFilter in_place True 3 3 2 4 spot = Some (CE_None, [[1, 1, 1], [1, 1, 1], [1, 1, 1]]) \<and> sieved spot 3 4 2 (1, 1)"
proof
  show run: "GDALSieveFilter in_place True 3 3 2 4 spot = Some (CE_None, [[1, 1, 1], [1, 1, 1], [1, 1, 1]])" by code_simp
  have w: "works in_place 3 3 (\<lambda>L. (L, [], L))" by (auto simp: works_def in_place_def)
  have m: "masked_lines in_place spot [] = spot" by (simp add: masked_lines_def in_place_def)
  have ok: "length spot = 3" "\<forall>line \<in> set spot. length line = 3" "ReadMask in_place \<noteq> None \<longrightarrow> length ([] :: byte list list) = 3 \<and> (\<forall>line \<in> set ([] :: byte list list). length line = 3)"
    "3 * 3 \<le> (2 :: nat) ^ 28 - 10" by (simp_all add: spot_def in_place_def)
  have "\<forall>p \<in> pixels spot 3. \<not> sieved spot 3 4 2 p \<longrightarrow> pix [[1, 1, 1], [1, 1, 1], [1, 1, 1]] p = pix spot p"
    using sieve_filter_merges_small_regions [OF w refl ok(1,2,1,3,4), where c = 4 and thr = 2] run unfolding m by fastforce
  then have "\<not> sieved spot 3 4 2 (1, 1) \<longrightarrow> pix [[1, 1, 1], [1, 1, 1], [1, 1, 1]] (1, 1) = pix spot (1, 1)"
    by (rule bspec) (simp add: pixels_def spot_def)
  then show "sieved spot 3 4 2 (1, 1)" by (simp add: pix_def spot_def)
qed

end
