(* ===== verification/Gdal_Block_Lru.thy ===== *)
theory Gdal_Block_Lru
  imports Cpl_Prelude "HOL-Library.Monad_Syntax"
begin

text \<open>
  The data of GDAL's raster block cache (\<^verbatim>\<open>gcore/gdal_priv.h\<close>) and the list of its blocks in the order
  of their last use (\<^verbatim>\<open>gcore/gdalrasterblock.cpp\<close>): a doubly linked list through the blocks, with global
  pointers to both ends. A pointer to a block is a number and the heap of blocks a map; an access to a block
  that is not allocated is the value \<open>None\<close>. \<open>lru_ok s L\<close> says that the links of the state \<open>s\<close> represent the
  list \<open>L\<close>, newest first. The mutex around the operations is not modelled (one thread).
\<close>

section \<open>The state of the block cache\<close>

datatype GDALDataType = GDT_Unknown | GDT_Byte | GDT_UInt16 | GDT_Int16 | GDT_UInt32 | GDT_Int32 | GDT_Float32
  | GDT_Float64 | GDT_CInt16 | GDT_CInt32 | GDT_CFloat32 | GDT_CFloat64

datatype GDALAccess = GA_ReadOnly | GA_Update

text \<open>The size in bits.\<close>

fun GDALGetDataTypeSize :: "GDALDataType \<Rightarrow> int" where
  "GDALGetDataTypeSize GDT_Byte = 8"
| "GDALGetDataTypeSize GDT_UInt16 = 16"
| "GDALGetDataTypeSize GDT_Int16 = 16"
| "GDALGetDataTypeSize GDT_UInt32 = 32"
| "GDALGetDataTypeSize GDT_Int32 = 32"
| "GDALGetDataTypeSize GDT_Float32 = 32"
| "GDALGetDataTypeSize GDT_CInt16 = 32"
| "GDALGetDataTypeSize GDT_Float64 = 64"
| "GDALGetDataTypeSize GDT_CInt32 = 64"
| "GDALGetDataTypeSize GDT_CFloat32 = 64"
| "GDALGetDataTypeSize GDT_CFloat64 = 128"
| "GDALGetDataTypeSize GDT_Unknown = 0"

text \<open>A block; its band is the number of a band.\<close>

record raster_block =
  eType :: GDALDataType
  bDirty :: bool
  nLockCount :: int
  nXOff :: int
  nYOff :: int
  nXSize :: int
  nYSize :: int
  pData :: "byte list option"
  poBand :: nat
  poNext :: "nat option"
  poPrevious :: "nat option"

text \<open>
  An entry of \<^verbatim>\<open>papoBlocks\<close>: NULL, a block, or, with sub-blocking, a grid of 64 by 64 pointers (the code casts
  the pointer).
\<close>

datatype block_cell = NullCell | BlockCell nat | GridCell "nat option list"

record raster_band =
  eFlushBlockErr :: CPLErr
  nRasterXSize :: int
  nRasterYSize :: int
  eDataType :: GDALDataType
  eAccess :: GDALAccess
  nBlockXSize :: int
  nBlockYSize :: int
  nBlocksPerRow :: int
  nBlocksPerColumn :: int
  bSubBlockingActive :: bool
  nSubBlocksPerRow :: int
  nSubBlocksPerColumn :: int
  papoBlocks :: "block_cell list option"
  nBlockReads :: int

text \<open>
  The global variables of the cache, the heap of blocks (\<open>newBlock\<close> is the next block to be allocated), the
  bands, and the state of the driver that reads and writes blocks.
\<close>

record 'd gdal =
  bCacheMaxInitialized :: bool
  nCacheMax :: int
  nCacheUsed :: int
  poOldest :: "nat option"
  poNewest :: "nat option"
  blocks :: "nat \<Rightarrow> raster_block option"
  newBlock :: nat
  bands :: "nat \<Rightarrow> raster_band option"
  device :: 'd

definition upd_block :: "nat \<Rightarrow> (raster_block \<Rightarrow> raster_block) \<Rightarrow> 'd gdal \<Rightarrow> 'd gdal option" where
  "upd_block b f s = (case blocks s b of None \<Rightarrow> None | Some r \<Rightarrow> Some (s\<lparr>blocks := (blocks s)(b \<mapsto> f r)\<rparr>))"

section \<open>The operations on the list\<close>

definition Detach :: "nat \<Rightarrow> 'd gdal \<Rightarrow> 'd gdal option" where
  "Detach this s = do {
     r \<leftarrow> blocks s this;
     let s = (if poOldest s = Some this then s\<lparr>poOldest := poPrevious r\<rparr> else s);
     let s = (if poNewest s = Some this then s\<lparr>poNewest := poNext r\<rparr> else s);
     s \<leftarrow> (case poPrevious r of None \<Rightarrow> Some s | Some p \<Rightarrow> upd_block p (poNext_update (\<lambda>_. poNext r)) s);
     r \<leftarrow> blocks s this;
     s \<leftarrow> (case poNext r of None \<Rightarrow> Some s | Some n \<Rightarrow> upd_block n (poPrevious_update (\<lambda>_. poPrevious r)) s);
     upd_block this (\<lambda>r. r\<lparr>poPrevious := None, poNext := None\<rparr>) s
   }"

definition Touch :: "nat \<Rightarrow> 'd gdal \<Rightarrow> 'd gdal option" where
  "Touch this s = do {
     r \<leftarrow> blocks s this;
     if poNewest s = Some this then Some s
     else do {
       let s = (if poOldest s = Some this then s\<lparr>poOldest := poPrevious r\<rparr> else s);
       s \<leftarrow> (case poPrevious r of None \<Rightarrow> Some s | Some p \<Rightarrow> upd_block p (poNext_update (\<lambda>_. poNext r)) s);
       r \<leftarrow> blocks s this;
       s \<leftarrow> (case poNext r of None \<Rightarrow> Some s | Some n \<Rightarrow> upd_block n (poPrevious_update (\<lambda>_. poPrevious r)) s);
       s \<leftarrow> upd_block this (\<lambda>r. r\<lparr>poPrevious := None, poNext := poNewest s\<rparr>) s;
       s \<leftarrow> (case poNewest s of None \<Rightarrow> Some s | Some n \<Rightarrow> upd_block n (poPrevious_update (\<lambda>_. Some this)) s);
       let s = s\<lparr>poNewest := Some this\<rparr>;
       Some (if poOldest s = None then s\<lparr>poOldest := Some this\<rparr> else s)
     }
   }"

text \<open>\<open>Verify\<close> computes whether the assertions of the code hold; the loop walks the list.\<close>

partial_function (option) verify_loop :: "'d gdal \<Rightarrow> nat option \<Rightarrow> bool option" where
  "verify_loop s poBlock =
     (case poBlock of None \<Rightarrow> Some True
      | Some b \<Rightarrow> do {
          r \<leftarrow> blocks s b;
          p \<leftarrow> (case poPrevious r of None \<Rightarrow> Some True
               | Some p \<Rightarrow> map_option (\<lambda>q. poNext q = Some b) (blocks s p));
          n \<leftarrow> (case poNext r of None \<Rightarrow> Some True
               | Some n \<Rightarrow> map_option (\<lambda>q. poPrevious q = Some b) (blocks s n));
          if p \<and> n then verify_loop s (poNext r) else Some False
        })"

definition Verify :: "'d gdal \<Rightarrow> bool option" where
  "Verify s =
     (if \<not> (poNewest s = None \<and> poOldest s = None \<or> poNewest s \<noteq> None \<and> poOldest s \<noteq> None) then Some False
      else case poNewest s of None \<Rightarrow> Some True
      | Some new \<Rightarrow> do {
          rn \<leftarrow> blocks s new;
          ro \<leftarrow> Option.bind (poOldest s) (blocks s);
          if poPrevious rn \<noteq> None \<or> poNext ro \<noteq> None then Some False
          else verify_loop s (Some new)
        })"

definition MarkDirty :: "nat \<Rightarrow> 'd gdal \<Rightarrow> 'd gdal option" where
  "MarkDirty this s = upd_block this (bDirty_update (\<lambda>_. True)) s"

definition MarkClean :: "nat \<Rightarrow> 'd gdal \<Rightarrow> 'd gdal option" where
  "MarkClean this s = upd_block this (bDirty_update (\<lambda>_. False)) s"

definition AddLock :: "nat \<Rightarrow> 'd gdal \<Rightarrow> 'd gdal option" where
  "AddLock this s = upd_block this (nLockCount_update (\<lambda>n. n + 1)) s"

definition DropLock :: "nat \<Rightarrow> 'd gdal \<Rightarrow> 'd gdal option" where
  "DropLock this s = upd_block this (nLockCount_update (\<lambda>n. n - 1)) s"

text \<open>\<open>SafeLockBlock\<close> gets the pointer that \<^verbatim>\<open>ppBlock\<close> points to.\<close>

definition SafeLockBlock :: "nat option \<Rightarrow> 'd gdal \<Rightarrow> (bool \<times> 'd gdal) option" where
  "SafeLockBlock ppBlock s =
     (case ppBlock of
        Some b \<Rightarrow> do { s \<leftarrow> AddLock b s; s \<leftarrow> Touch b s; Some (True, s) }
      | None \<Rightarrow> Some (False, s))"

text \<open>The loop of \<open>FlushCacheBlock\<close> that skips locked blocks from the oldest on.\<close>

partial_function (option) oldest_unlocked :: "'d gdal \<Rightarrow> nat option \<Rightarrow> nat option option" where
  "oldest_unlocked s poTarget =
     (case poTarget of None \<Rightarrow> Some None
      | Some b \<Rightarrow> do {
          r \<leftarrow> blocks s b;
          if nLockCount r > 0 then oldest_unlocked s (poPrevious r) else Some (Some b)
        })"

section \<open>Doubly linked lists\<close>

definition first_of :: "nat list \<Rightarrow> nat option \<Rightarrow> nat option" where
  "first_of bs q = (case bs of [] \<Rightarrow> q | b # _ \<Rightarrow> Some b)"

definition last_of :: "nat option \<Rightarrow> nat list \<Rightarrow> nat option" where
  "last_of p bs = (if bs = [] then p else Some (last bs))"

lemma first_of_simps [simp]: "first_of [] q = q" "first_of (b # bs) q = Some b"
  by (simp_all add: first_of_def)

lemma last_of_simps [simp]: "last_of p [] = p" "last_of p (bs @ [b]) = Some b" "last_of p (b # bs) = last_of (Some b) bs"
  by (simp_all add: last_of_def)

lemma last_of_append [simp]: "last_of p (xs @ ys) = last_of (last_of p xs) ys"
  by (simp add: last_of_def)

lemma first_of_append [simp]: "first_of (xs @ ys) q = first_of xs (first_of ys q)"
  by (cases xs) simp_all

text \<open>A segment \<open>bs\<close> of a list, with the neighbours \<open>p\<close> and \<open>q\<close>.\<close>

fun dll :: "(nat \<Rightarrow> raster_block option) \<Rightarrow> nat option \<Rightarrow> nat list \<Rightarrow> nat option \<Rightarrow> bool" where
  "dll h p [] q = True"
| "dll h p (b # bs) q \<longleftrightarrow>
     (\<exists>r. h b = Some r \<and> poPrevious r = p \<and> poNext r = first_of bs q) \<and> dll h (Some b) bs q"

lemma dll_append [simp]: "dll h p (xs @ ys) q \<longleftrightarrow> dll h p xs (first_of ys q) \<and> dll h (last_of p xs) ys q"
  by (induction xs arbitrary: p) auto

lemma dll_frame [simp]: "b \<notin> set xs \<Longrightarrow> dll (h(b := r)) p xs q = dll h p xs q"
  by (induction xs arbitrary: p) auto

lemma dll_dom: "dll h p xs q \<Longrightarrow> set xs \<subseteq> dom h"
  by (induction xs arbitrary: p) auto

definition lru_ok :: "'d gdal \<Rightarrow> nat list \<Rightarrow> bool" where
  "lru_ok s L \<longleftrightarrow> distinct L \<and> poNewest s = first_of L None \<and> poOldest s = last_of None L
    \<and> dll (blocks s) None L None
    \<and> (\<forall>b r. blocks s b = Some r \<longrightarrow> b \<notin> set L \<longrightarrow> poPrevious r = None \<and> poNext r = None)"

text \<open>A block without its links, and the state without the list.\<close>

definition payload :: "raster_block \<Rightarrow> raster_block" where
  "payload r = r\<lparr>poNext := None, poPrevious := None\<rparr>"

definition pay :: "'d gdal \<Rightarrow> nat \<Rightarrow> raster_block option" where
  "pay s b = map_option payload (blocks s b)"

definition rest :: "'d gdal \<Rightarrow> 'd gdal" where
  "rest s = s\<lparr>blocks := Map.empty, poOldest := None, poNewest := None\<rparr>"

lemma last_of_eq_None [simp]: "last_of p xs = None \<longleftrightarrow> xs = [] \<and> p = None"
  by (simp add: last_of_def)

lemma first_of_eq_None [simp]: "first_of xs q = None \<longleftrightarrow> xs = [] \<and> q = None"
  by (cases xs) simp_all

lemma last_of_in: "last_of (Some c) xs = Some b \<Longrightarrow> b = c \<or> b \<in> set xs"
  by (auto simp: last_of_def split: if_splits)

lemma last_of_not [simp]: "b \<noteq> c \<Longrightarrow> b \<notin> set xs \<Longrightarrow> last_of (Some c) xs \<noteq> Some b"
  using last_of_in by blast

lemma first_of_not [simp]: "b \<noteq> c \<Longrightarrow> b \<notin> set xs \<Longrightarrow> first_of xs (Some c) \<noteq> Some b"
  by (cases xs) auto

lemma pay_upd [simp]: "pay (s\<lparr>blocks := h\<rparr>) = (\<lambda>b. map_option payload (h b))"
  by (simp add: pay_def fun_eq_iff)

lemma payload_links [simp]:
  "payload (r\<lparr>poNext := x\<rparr>) = payload r" "payload (r\<lparr>poPrevious := x\<rparr>) = payload r"
  by (simp_all add: payload_def)

text \<open>A segment whose first or last block gets another neighbour.\<close>

lemma dll_set_next:
  assumes "dll h p (xs @ [c]) q" "distinct (xs @ [c])" "h c = Some r"
  shows "dll (h(c \<mapsto> r\<lparr>poNext := q'\<rparr>)) p (xs @ [c]) q'"
  using assms by auto

lemma dll_set_previous:
  assumes "dll h p (c # ys) q" "distinct (c # ys)" "h c = Some r"
  shows "dll (h(c \<mapsto> r\<lparr>poPrevious := p'\<rparr>)) p' (c # ys) q"
  using assms by auto

lemma Detach_middle:
  assumes "lru_ok s (xs @ b # ys)"
  shows "\<exists>s'. Detach b s = Some s' \<and> lru_ok s' (xs @ ys) \<and> pay s' = pay s \<and> rest s' = rest s"
proof -
  obtain r where r: "blocks s b = Some r" "poPrevious r = last_of None xs" "poNext r = first_of ys None"
    using assms by (auto simp: lru_ok_def)
  show ?thesis
  proof (cases xs rule: rev_cases)
    case Nil
    show ?thesis
    proof (cases ys)
      case Nil
      with \<open>xs = []\<close> assms show ?thesis
        by (auto simp: lru_ok_def Detach_def upd_block_def pay_def rest_def fun_eq_iff payload_def)
    next
      case (Cons c ys')
      with \<open>xs = []\<close> assms show ?thesis
        by (auto simp: lru_ok_def Detach_def upd_block_def pay_def rest_def fun_eq_iff payload_def)
    qed
  next
    case (snoc xs' a)
    show ?thesis
    proof (cases ys)
      case Nil
      with snoc assms show ?thesis
        by (auto simp: lru_ok_def Detach_def upd_block_def pay_def rest_def fun_eq_iff payload_def)
    next
      case (Cons c ys')
      with snoc assms show ?thesis
        by (auto simp: lru_ok_def Detach_def upd_block_def pay_def rest_def fun_eq_iff payload_def)
    qed
  qed
qed


lemma Touch_middle:
  assumes "lru_ok s (xs @ b # ys)"
  shows "\<exists>s'. Touch b s = Some s' \<and> lru_ok s' (b # xs @ ys) \<and> pay s' = pay s \<and> rest s' = rest s"
proof (cases xs rule: rev_cases)
  case Nil
  with assms show ?thesis by (auto simp: lru_ok_def Touch_def)
next
  case (snoc xs' a)
  show ?thesis
  proof (cases xs')
    case Nil
    show ?thesis
    proof (cases ys)
      case Nil
      with snoc \<open>xs' = []\<close> assms show ?thesis
        by (auto simp: lru_ok_def Touch_def upd_block_def pay_def rest_def fun_eq_iff payload_def)
    next
      case (Cons c ys')
      with snoc \<open>xs' = []\<close> assms show ?thesis
        by (auto simp: lru_ok_def Touch_def upd_block_def pay_def rest_def fun_eq_iff payload_def)
    qed
  next
    case (Cons d xs'')
    show ?thesis
    proof (cases ys)
      case Nil
      with snoc \<open>xs' = d # xs''\<close> assms show ?thesis
        by (auto simp: lru_ok_def Touch_def upd_block_def pay_def rest_def fun_eq_iff payload_def)
    next
      case (Cons c ys')
      with snoc \<open>xs' = d # xs''\<close> assms show ?thesis
        by (auto simp: lru_ok_def Touch_def upd_block_def pay_def rest_def fun_eq_iff payload_def)
    qed
  qed
qed

lemma Touch_new:
  assumes "lru_ok s L" "b \<notin> set L" "b \<in> dom (blocks s)"
  shows "\<exists>s'. Touch b s = Some s' \<and> lru_ok s' (b # L) \<and> pay s' = pay s \<and> rest s' = rest s"
proof (cases L)
  case Nil
  with assms show ?thesis
    by (auto simp: lru_ok_def Touch_def upd_block_def pay_def rest_def fun_eq_iff payload_def)
next
  case (Cons c ys)
  with assms show ?thesis
    by (auto simp: lru_ok_def Touch_def upd_block_def pay_def rest_def fun_eq_iff payload_def)
qed

lemma removeAll_split: "distinct (xs @ b # ys) \<Longrightarrow> removeAll b (xs @ b # ys) = xs @ ys"
  by (simp add: removeAll_id)

text \<open>
  The abstraction of a state: the list \<open>L\<close> of the blocks, newest first, the blocks \<open>P\<close> without their links, and
  the other variables \<open>R\<close>. Every operation is a function on these.
\<close>

definition lru :: "'d gdal \<Rightarrow> nat list \<Rightarrow> (nat \<Rightarrow> raster_block option) \<Rightarrow> 'd gdal \<Rightarrow> bool" where
  "lru s L P R \<longleftrightarrow> lru_ok s L \<and> pay s = P \<and> rest s = R"

lemma ends_in: "b \<notin> set L \<Longrightarrow> last_of None L \<noteq> Some b \<and> first_of L None \<noteq> Some b"
  by (cases L) (auto simp: last_of_def)

lemma lru_rest:
  assumes "lru s L P R"
  shows "nCacheUsed s = nCacheUsed R" "nCacheMax s = nCacheMax R" "bCacheMaxInitialized s = bCacheMaxInitialized R"
    "newBlock s = newBlock R" "bands s = bands R" "device s = device R"
  using assms by (auto simp: lru_def rest_def)

lemma lru_pay: "lru s L P R \<Longrightarrow> P b = map_option payload (blocks s b)"
  by (auto simp: lru_def pay_def)

lemma lru_distinct: "lru s L P R \<Longrightarrow> distinct L"
  by (simp add: lru_def lru_ok_def)

lemma lru_dom: "lru s L P R \<Longrightarrow> set L \<subseteq> dom P"
  using dll_dom [of "blocks s" None L None] by (auto simp: lru_def lru_ok_def pay_def)

lemma payload_fields [simp]:
  "eType (payload r) = eType r" "bDirty (payload r) = bDirty r" "nLockCount (payload r) = nLockCount r"
  "nXOff (payload r) = nXOff r" "nYOff (payload r) = nYOff r" "nXSize (payload r) = nXSize r"
  "nYSize (payload r) = nYSize r" "pData (payload r) = pData r" "poBand (payload r) = poBand r"
  by (simp_all add: payload_def)

lemma Detach_lru:
  assumes "lru s L P R" "P b \<noteq> None"
  shows "\<exists>s'. Detach b s = Some s' \<and> lru s' (removeAll b L) P R"
proof (cases "b \<in> set L")
  case True
  then obtain xs ys where L: "L = xs @ b # ys" by (auto simp: in_set_conv_decomp)
  moreover have "removeAll b L = xs @ ys" using lru_distinct [OF assms(1)] unfolding L by (rule removeAll_split)
  ultimately show ?thesis using Detach_middle [of s xs b ys] assms(1) by (auto simp: lru_def)
next
  case False
  obtain r where "blocks s b = Some r" using assms by (auto simp: lru_def pay_def)
  moreover have "poOldest s \<noteq> Some b" "poNewest s \<noteq> Some b"
    using assms(1) False ends_in [of b L] by (auto simp: lru_def lru_ok_def)
  moreover have "poPrevious r = None" "poNext r = None"
    using assms(1) False calculation(1) by (auto simp: lru_def lru_ok_def)
  ultimately have "Detach b s = Some (s\<lparr>blocks := (blocks s)(b \<mapsto> r\<lparr>poPrevious := None, poNext := None\<rparr>)\<rparr>)"
    by (simp add: Detach_def upd_block_def)
  also have "r\<lparr>poPrevious := None, poNext := None\<rparr> = r"
    using \<open>poPrevious r = None\<close> \<open>poNext r = None\<close> by (cases r) simp
  finally have "Detach b s = Some (s\<lparr>blocks := (blocks s)(b \<mapsto> r)\<rparr>)" .
  moreover have "(blocks s)(b \<mapsto> r) = blocks s" using \<open>blocks s b = Some r\<close> by auto
  ultimately show ?thesis using assms(1) False by simp
qed

lemma Touch_lru:
  assumes "lru s L P R" "P b \<noteq> None"
  shows "\<exists>s'. Touch b s = Some s' \<and> lru s' (b # removeAll b L) P R"
proof (cases "b \<in> set L")
  case True
  then obtain xs ys where L: "L = xs @ b # ys" by (auto simp: in_set_conv_decomp)
  moreover have "removeAll b L = xs @ ys" using lru_distinct [OF assms(1)] unfolding L by (rule removeAll_split)
  ultimately show ?thesis using Touch_middle [of s xs b ys] assms(1) by (auto simp: lru_def)
next
  case False
  moreover have "b \<in> dom (blocks s)" using assms by (auto simp: lru_def pay_def)
  ultimately show ?thesis using Touch_new [of s L b] assms(1) by (simp add: lru_def)
qed

lemma upd_block_lru:
  assumes "lru s L P R" "P b = Some r"
    and "\<And>r. payload (f r) = f (payload r)" "\<And>r. poNext (f r) = poNext r" "\<And>r. poPrevious (f r) = poPrevious r"
  shows "\<exists>s'. upd_block b f s = Some s' \<and> lru s' L (P(b \<mapsto> f r)) R"
proof -
  obtain r' where r': "blocks s b = Some r'" "payload r' = r" using assms(1,2) by (auto simp: lru_def pay_def)
  have d: "dll ((blocks s)(b \<mapsto> f r')) p xs q = dll (blocks s) p xs q" for p xs q
    using r' assms(4,5) by (induction xs arbitrary: p) auto
  show ?thesis
    using assms r' by (auto simp: lru_def lru_ok_def upd_block_def d pay_def rest_def fun_eq_iff)
qed

lemma nLockCount_update_const: "nLockCount_update f r = r\<lparr>nLockCount := f (nLockCount r)\<rparr>"
  by (cases r) simp

lemma AddLock_lru: "lru s L P R \<Longrightarrow> P b = Some r \<Longrightarrow>
    \<exists>s'. AddLock b s = Some s' \<and> lru s' L (P(b \<mapsto> r\<lparr>nLockCount := nLockCount r + 1\<rparr>)) R"
  unfolding AddLock_def by (drule (1) upd_block_lru [where f = "nLockCount_update (\<lambda>n. n + 1)"])
    (simp_all add: payload_def nLockCount_update_const [of "\<lambda>n. n + 1"])

lemma DropLock_lru: "lru s L P R \<Longrightarrow> P b = Some r \<Longrightarrow>
    \<exists>s'. DropLock b s = Some s' \<and> lru s' L (P(b \<mapsto> r\<lparr>nLockCount := nLockCount r - 1\<rparr>)) R"
  unfolding DropLock_def by (drule (1) upd_block_lru [where f = "nLockCount_update (\<lambda>n. n - 1)"])
    (simp_all add: payload_def nLockCount_update_const [of "\<lambda>n. n - 1"])

lemma MarkClean_lru: "lru s L P R \<Longrightarrow> P b = Some r \<Longrightarrow>
    \<exists>s'. MarkClean b s = Some s' \<and> lru s' L (P(b \<mapsto> r\<lparr>bDirty := False\<rparr>)) R"
  unfolding MarkClean_def by (drule (1) upd_block_lru [where f = "bDirty_update (\<lambda>_. False)"]) (simp_all add: payload_def)

lemma MarkDirty_lru: "lru s L P R \<Longrightarrow> P b = Some r \<Longrightarrow>
    \<exists>s'. MarkDirty b s = Some s' \<and> lru s' L (P(b \<mapsto> r\<lparr>bDirty := True\<rparr>)) R"
  unfolding MarkDirty_def by (drule (1) upd_block_lru [where f = "bDirty_update (\<lambda>_. True)"]) (simp_all add: payload_def)

lemma SafeLockBlock_lru:
  assumes "lru s L P R" "P b = Some r"
  shows "\<exists>s'. SafeLockBlock (Some b) s = Some (True, s')
    \<and> lru s' (b # removeAll b L) (P(b \<mapsto> r\<lparr>nLockCount := nLockCount r + 1\<rparr>)) R"
proof -
  obtain s1 where "AddLock b s = Some s1" "lru s1 L (P(b \<mapsto> r\<lparr>nLockCount := nLockCount r + 1\<rparr>)) R"
    using AddLock_lru [OF assms] by blast
  moreover from Touch_lru [OF this(2), of b] obtain s2
    where "Touch b s1 = Some s2" "lru s2 (b # removeAll b L) (P(b \<mapsto> r\<lparr>nLockCount := nLockCount r + 1\<rparr>)) R"
    by auto
  ultimately show ?thesis by (simp add: SafeLockBlock_def)
qed

section \<open>Walking the list\<close>

lemma oldest_unlocked_walk:
  "dll (blocks s) None xs q \<Longrightarrow>
    oldest_unlocked s (last_of None xs) = Some (List.find (\<lambda>b. nLockCount (the (blocks s b)) \<le> 0) (rev xs))"
proof (induction xs arbitrary: q rule: rev_induct)
  case Nil
  show ?case by (subst oldest_unlocked.simps) simp
next
  case (snoc b xs)
  then show ?case by (subst oldest_unlocked.simps) auto
qed

lemma oldest_unlocked_lru:
  assumes "lru s L P R"
  shows "oldest_unlocked s (poOldest s) = Some (List.find (\<lambda>b. nLockCount (the (P b)) \<le> 0) (rev L))"
proof -
  have "nLockCount (the (blocks s b)) = nLockCount (the (P b))" if "b \<in> set L" for b
    using that lru_dom [OF assms] lru_pay [OF assms, of b] by (cases "blocks s b") (auto simp: dom_def)
  then have "List.find (\<lambda>b. nLockCount (the (blocks s b)) \<le> 0) (rev L) = List.find (\<lambda>b. nLockCount (the (P b)) \<le> 0) (rev L)"
    by (intro find_cong) auto
  then show ?thesis using assms oldest_unlocked_walk [of s L None] by (simp add: lru_def lru_ok_def)
qed

lemma verify_walk:
  assumes "dll (blocks s) p bs None" "\<And>c. p = Some c \<Longrightarrow> \<exists>r. blocks s c = Some r \<and> poNext r = first_of bs None"
  shows "verify_loop s (first_of bs None) = Some True"
  using assms
proof (induction bs arbitrary: p)
  case Nil
  show ?case by (subst verify_loop.simps) simp
next
  case (Cons b bs)
  from Cons.prems(1) obtain r where r: "blocks s b = Some r" "poPrevious r = p" "poNext r = first_of bs None"
    "dll (blocks s) (Some b) bs None" by auto
  have "verify_loop s (first_of bs None) = Some True" using Cons.IH [of "Some b"] r by auto
  moreover have "\<exists>r'. blocks s c = Some r' \<and> poNext r' = Some b" if "p = Some c" for c
    using Cons.prems(2) [OF that] by simp
  moreover have "\<exists>r'. blocks s c = Some r' \<and> poPrevious r' = Some b" if "first_of bs None = Some c" for c
    using r(4) that by (cases bs) auto
  ultimately show ?case using r(1-3)
    by (subst verify_loop.simps) (auto split: option.splits)
qed

lemma Verify_lru: "lru_ok s L \<Longrightarrow> Verify s = Some True"
proof (cases L)
  case Nil
  then show "lru_ok s L \<Longrightarrow> ?thesis" by (simp add: Verify_def lru_ok_def)
next
  case (Cons b bs)
  assume l: "lru_ok s L"
  then have "verify_loop s (Some b) = Some True"
    using verify_walk [of s None L] Cons by (simp add: lru_ok_def)
  moreover obtain xs c where "L = xs @ [c]" using Cons rev_exhaust [of L] by auto
  then have "\<exists>r. poOldest s = Some c \<and> blocks s c = Some r \<and> poNext r = None" using l by (auto simp: lru_ok_def)
  moreover have "\<exists>r. poNewest s = Some b \<and> blocks s b = Some r \<and> poPrevious r = None"
    using l Cons by (auto simp: lru_ok_def)
  ultimately show ?thesis by (auto simp: Verify_def)
qed

end
