(* ===== verification/Gdal_Block_Cache.thy ===== *)
theory Gdal_Block_Cache
  imports Gdal_Block_Lru
begin

text \<open>
  The raster block cache: how a band finds, loads, writes back and evicts its blocks
  (\<^verbatim>\<open>gcore/gdalrasterblock.cpp\<close> and the block functions of \<^verbatim>\<open>gcore/gdalrasterband.cpp\<close>). The methods \<^verbatim>\<open>IReadBlock\<close>
  and \<^verbatim>\<open>IWriteBlock\<close> belong to the driver of the dataset: they are fields of the record \<open>driver\<close>, together with the
  allocator and the configuration option. They are assumed not to call the cache again. \<^verbatim>\<open>CPLError\<close> and
  \<^verbatim>\<open>CPLDebug\<close> messages are left out. The value \<open>None\<close> is an access outside an array or to a freed block, or a
  loop that does not end.
\<close>

section \<open>The environment\<close>

text \<open>
  \<open>GDAL_CACHEMAX\<close> is the configuration option as a number; \<open>VSIMalloc\<close> gives the contents of the new
  memory, or \<open>None\<close>; \<open>VSICalloc\<close> says whether an array of so many pointers can be allocated.
\<close>

record 'd driver =
  GDAL_CACHEMAX :: "int option"
  VSIMalloc :: "int \<Rightarrow> byte list option"
  VSICalloc :: "int \<Rightarrow> bool"
  IReadBlock :: "'d \<Rightarrow> nat \<Rightarrow> int \<Rightarrow> int \<Rightarrow> byte list \<Rightarrow> CPLErr \<times> byte list \<times> 'd"
  IWriteBlock :: "'d \<Rightarrow> nat \<Rightarrow> int \<Rightarrow> int \<Rightarrow> byte list \<Rightarrow> CPLErr \<times> 'd"

definition int64 :: "int \<Rightarrow> int" where
  "int64 x = signed_take_bit 63 x"

definition INT_MAX :: int where "INT_MAX = 2147483647"

definition SUBBLOCK_SIZE :: int where "SUBBLOCK_SIZE = 64"

definition TO_SUBBLOCK :: "int \<Rightarrow> int" where "TO_SUBBLOCK x = drop_bit 6 x"

definition WITHIN_SUBBLOCK :: "int \<Rightarrow> int" where "WITHIN_SUBBLOCK x = x AND 63"

definition DIV_ROUND_UP :: "int \<Rightarrow> int \<Rightarrow> int" where
  "DIV_ROUND_UP a b = (if a smod b = 0 then a sdiv b else a sdiv b + 1)"

definition load :: "'a list \<Rightarrow> int \<Rightarrow> 'a option" where
  "load t n = (if 0 \<le> n \<and> n < int (length t) then Some (t ! nat n) else None)"

definition store :: "'a list \<Rightarrow> int \<Rightarrow> 'a \<Rightarrow> 'a list option" where
  "store t n v = (if 0 \<le> n \<and> n < int (length t) then Some (t[nat n := v]) else None)"

definition memcpy :: "byte list \<Rightarrow> byte list \<Rightarrow> int \<Rightarrow> byte list option" where
  "memcpy dst src n =
     (if 0 \<le> n \<and> n \<le> int (length dst) \<and> n \<le> int (length src)
      then Some (take (nat n) src @ drop (nat n) dst) else None)"

definition set_band :: "nat \<Rightarrow> raster_band \<Rightarrow> 'd gdal \<Rightarrow> 'd gdal" where
  "set_band bi bd s = s\<lparr>bands := (bands s)(bi \<mapsto> bd)\<rparr>"

section \<open>The table of a band\<close>

text \<open>The entry for a block, and writing it.\<close>

datatype slot = NoSubGrid | Slot "nat option"

definition slot_fetch :: "raster_band \<Rightarrow> int \<Rightarrow> int \<Rightarrow> slot option" where
  "slot_fetch bd nXBlockOff nYBlockOff = do {
     papo \<leftarrow> papoBlocks bd;
     if \<not> bSubBlockingActive bd then do {
       c \<leftarrow> load papo (nXBlockOff + nYBlockOff * nBlocksPerRow bd);
       case c of NullCell \<Rightarrow> Some (Slot None) | BlockCell b \<Rightarrow> Some (Slot (Some b)) | GridCell _ \<Rightarrow> None
     }
     else do {
       c \<leftarrow> load papo (TO_SUBBLOCK nXBlockOff + TO_SUBBLOCK nYBlockOff * nSubBlocksPerRow bd);
       case c of NullCell \<Rightarrow> Some NoSubGrid | BlockCell _ \<Rightarrow> None
       | GridCell g \<Rightarrow> map_option Slot (load g (WITHIN_SUBBLOCK nXBlockOff + WITHIN_SUBBLOCK nYBlockOff * SUBBLOCK_SIZE))
     }
   }"

definition slot_store :: "raster_band \<Rightarrow> int \<Rightarrow> int \<Rightarrow> nat option \<Rightarrow> raster_band option" where
  "slot_store bd nXBlockOff nYBlockOff p = do {
     papo \<leftarrow> papoBlocks bd;
     if \<not> bSubBlockingActive bd then do {
       papo \<leftarrow> store papo (nXBlockOff + nYBlockOff * nBlocksPerRow bd)
                  (case p of None \<Rightarrow> NullCell | Some b \<Rightarrow> BlockCell b);
       Some (bd\<lparr>papoBlocks := Some papo\<rparr>)
     }
     else do {
       let n = TO_SUBBLOCK nXBlockOff + TO_SUBBLOCK nYBlockOff * nSubBlocksPerRow bd;
       c \<leftarrow> load papo n;
       case c of
         GridCell g \<Rightarrow> do {
           g \<leftarrow> store g (WITHIN_SUBBLOCK nXBlockOff + WITHIN_SUBBLOCK nYBlockOff * SUBBLOCK_SIZE) p;
           papo \<leftarrow> store papo n (GridCell g);
           Some (bd\<lparr>papoBlocks := Some papo\<rparr>)
         }
       | _ \<Rightarrow> None
     }
   }"

definition new_subgrid :: "raster_band \<Rightarrow> int \<Rightarrow> int \<Rightarrow> raster_band option" where
  "new_subgrid bd nXBlockOff nYBlockOff = do {
     papo \<leftarrow> papoBlocks bd;
     papo \<leftarrow> store papo (TO_SUBBLOCK nXBlockOff + TO_SUBBLOCK nYBlockOff * nSubBlocksPerRow bd)
                (GridCell (replicate (nat (SUBBLOCK_SIZE * SUBBLOCK_SIZE)) None));
     Some (bd\<lparr>papoBlocks := Some papo\<rparr>)
   }"

definition InitBlockInfo :: "'d driver \<Rightarrow> nat \<Rightarrow> 'd gdal \<Rightarrow> (bool \<times> 'd gdal) option" where
  "InitBlockInfo e bi s = do {
     bd \<leftarrow> bands s bi;
     if papoBlocks bd \<noteq> None then Some (True, s)
     else if nBlockXSize bd \<le> 0 \<or> nBlockYSize bd \<le> 0 then Some (False, s)
     else if nRasterXSize bd \<le> 0 \<or> nRasterYSize bd \<le> 0 then Some (False, s)
     else if (nBlockXSize bd \<ge> 10000 \<or> nBlockYSize bd \<ge> 10000)
       \<and> int32 (nBlockXSize bd * nBlockYSize bd * (GDALGetDataTypeSize (eDataType bd) sdiv 8))
         \<noteq> int64 (nBlockXSize bd * nBlockYSize bd * (GDALGetDataTypeSize (eDataType bd) sdiv 8)) then Some (False, s)
     else let bd = bd\<lparr>nBlocksPerRow := DIV_ROUND_UP (nRasterXSize bd) (nBlockXSize bd),
                      nBlocksPerColumn := DIV_ROUND_UP (nRasterYSize bd) (nBlockYSize bd)\<rparr>
     in if nBlocksPerRow bd < SUBBLOCK_SIZE sdiv 2 then
       let bd = bd\<lparr>bSubBlockingActive := False\<rparr>; n = nBlocksPerRow bd * nBlocksPerColumn bd
       in if nBlocksPerRow bd < INT_MAX sdiv nBlocksPerColumn bd then
            if VSICalloc e n then Some (True, set_band bi (bd\<lparr>papoBlocks := Some (replicate (nat n) NullCell)\<rparr>) s)
            else Some (False, set_band bi bd s)
          else Some (False, set_band bi bd s)
     else
       let bd = bd\<lparr>bSubBlockingActive := True, nSubBlocksPerRow := DIV_ROUND_UP (nBlocksPerRow bd) SUBBLOCK_SIZE,
                   nSubBlocksPerColumn := DIV_ROUND_UP (nBlocksPerColumn bd) SUBBLOCK_SIZE\<rparr>;
           n = nSubBlocksPerRow bd * nSubBlocksPerColumn bd
       in if nSubBlocksPerRow bd < INT_MAX sdiv nSubBlocksPerColumn bd then
            if VSICalloc e n then Some (True, set_band bi (bd\<lparr>papoBlocks := Some (replicate (nat n) NullCell)\<rparr>) s)
            else Some (False, set_band bi bd s)
          else Some (False, set_band bi bd s)
   }"

definition GetBlockSize :: "raster_band \<Rightarrow> int \<times> int" where
  "GetBlockSize bd = (if nBlockXSize bd \<le> 0 \<or> nBlockYSize bd \<le> 0 then (0, 0) else (nBlockXSize bd, nBlockYSize bd))"

definition SetFlushBlockErr :: "nat \<Rightarrow> CPLErr \<Rightarrow> 'd gdal \<Rightarrow> 'd gdal option" where
  "SetFlushBlockErr bi eErr s = map_option (\<lambda>bd. set_band bi (bd\<lparr>eFlushBlockErr := eErr\<rparr>) s) (bands s bi)"

section \<open>Writing back and evicting blocks\<close>

definition Write :: "'d driver \<Rightarrow> nat \<Rightarrow> 'd gdal \<Rightarrow> (CPLErr \<times> 'd gdal) option" where
  "Write e this s = do {
     r \<leftarrow> blocks s this;
     if \<not> bDirty r then Some (CE_None, s)
     else do {
       s \<leftarrow> MarkClean this s;
       bd \<leftarrow> bands s (poBand r);
       if eFlushBlockErr bd = CE_None then do {
         d \<leftarrow> pData r;
         let (err, dev) = IWriteBlock e (device s) (poBand r) (nXOff r) (nYOff r) d;
         Some (err, s\<lparr>device := dev\<rparr>)
       }
       else Some (eFlushBlockErr bd, s)
     }
   }"

text \<open>The destructor, and freeing the block; the assertion that it is not locked is a failure of the model.\<close>

definition delete_block :: "nat \<Rightarrow> 'd gdal \<Rightarrow> 'd gdal option" where
  "delete_block this s = do {
     s \<leftarrow> Detach this s;
     r \<leftarrow> blocks s this;
     let s = (if pData r \<noteq> None
        then s\<lparr>nCacheUsed := nCacheUsed s - int32 (nXSize r * nYSize r * GDALGetDataTypeSize (eType r) + 7) sdiv 8\<rparr>
        else s);
     if nLockCount r = 0 then Some (s\<lparr>blocks := (blocks s)(this := None)\<rparr>) else None
   }"

text \<open>The end of \<^verbatim>\<open>FlushBlock\<close>, for the block that was taken from the table.\<close>

definition flush_taken :: "'d driver \<Rightarrow> nat option \<Rightarrow> bool \<Rightarrow> 'd gdal \<Rightarrow> (CPLErr \<times> 'd gdal) option" where
  "flush_taken e poBlock bWriteDirtyBlock s =
     (case poBlock of None \<Rightarrow> Some (CE_None, s)
      | Some b \<Rightarrow> do {
          s \<leftarrow> Detach b s;
          r \<leftarrow> blocks s b;
          (eErr, s) \<leftarrow> (if bWriteDirtyBlock \<and> bDirty r then Write e b s else Some (CE_None, s));
          s \<leftarrow> DropLock b s;
          s \<leftarrow> delete_block b s;
          Some (eErr, s)
        })"

definition FlushBlock ::
    "'d driver \<Rightarrow> nat \<Rightarrow> int \<Rightarrow> int \<Rightarrow> bool \<Rightarrow> 'd gdal \<Rightarrow> (CPLErr \<times> 'd gdal) option" where
  "FlushBlock e bi nXBlockOff nYBlockOff bWriteDirtyBlock s = do {
     bd \<leftarrow> bands s bi;
     if papoBlocks bd = None then Some (CE_None, s)
     else if nXBlockOff < 0 \<or> nXBlockOff \<ge> nBlocksPerRow bd then Some (CE_Failure, s)
     else if nYBlockOff < 0 \<or> nYBlockOff \<ge> nBlocksPerColumn bd then Some (CE_Failure, s)
     else do {
       sl \<leftarrow> slot_fetch bd nXBlockOff nYBlockOff;
       case sl of NoSubGrid \<Rightarrow> Some (CE_None, s)
       | Slot p \<Rightarrow> do {
           (_, s) \<leftarrow> SafeLockBlock p s;
           bd \<leftarrow> bands s bi;
           bd \<leftarrow> slot_store bd nXBlockOff nYBlockOff None;
           flush_taken e p bWriteDirtyBlock (set_band bi bd s)
         }
     }
   }"

definition FlushCacheBlock :: "'d driver \<Rightarrow> 'd gdal \<Rightarrow> (bool \<times> 'd gdal) option" where
  "FlushCacheBlock e s = do {
     poTarget \<leftarrow> oldest_unlocked s (poOldest s);
     case poTarget of None \<Rightarrow> Some (False, s)
     | Some b \<Rightarrow> do {
         s \<leftarrow> Detach b s;
         r \<leftarrow> blocks s b;
         (eErr, s) \<leftarrow> FlushBlock e (poBand r) (nXOff r) (nYOff r) True s;
         s \<leftarrow> (if eErr \<noteq> CE_None then SetFlushBlockErr (poBand r) eErr s else Some s);
         Some (True, s)
       }
   }"

text \<open>The loop of \<^verbatim>\<open>GDALSetCacheMax64\<close> and of \<^verbatim>\<open>Internalize\<close>.\<close>

partial_function (option) flush_loop :: "'d driver \<Rightarrow> int \<Rightarrow> 'd gdal \<Rightarrow> 'd gdal option" where
  "flush_loop e nMax s =
     (if nCacheUsed s > nMax then do {
        (_, s') \<leftarrow> FlushCacheBlock e s;
        if nCacheUsed s' = nCacheUsed s then Some s' else flush_loop e nMax s'
      }
      else Some s)"

definition GDALSetCacheMax64 :: "'d driver \<Rightarrow> int \<Rightarrow> 'd gdal \<Rightarrow> 'd gdal option" where
  "GDALSetCacheMax64 e nNewSizeInBytes s =
     flush_loop e nNewSizeInBytes (s\<lparr>bCacheMaxInitialized := True, nCacheMax := nNewSizeInBytes\<rparr>)"

definition GDALGetCacheMax64 :: "'d driver \<Rightarrow> 'd gdal \<Rightarrow> int \<times> 'd gdal" where
  "GDALGetCacheMax64 e s =
     (if \<not> bCacheMaxInitialized s then
        let s = s\<lparr>bCacheMaxInitialized := True\<rparr> in
        (case GDAL_CACHEMAX e of None \<Rightarrow> (nCacheMax s, s)
         | Some n \<Rightarrow>
             if n < 0 then (nCacheMax s, s)
             else let n = (if n < 100000 then n * (1024 * 1024) else n) in (n, s\<lparr>nCacheMax := n\<rparr>))
      else (nCacheMax s, s))"

definition GDALGetCacheMax :: "'d driver \<Rightarrow> 'd gdal \<Rightarrow> int \<times> 'd gdal" where
  "GDALGetCacheMax e s = (let (nRes, s) = GDALGetCacheMax64 e s in (if nRes > INT_MAX then INT_MAX else int32 nRes, s))"

definition GDALGetCacheUsed :: "'d gdal \<Rightarrow> int" where
  "GDALGetCacheUsed s = (if nCacheUsed s > INT_MAX then INT_MAX else int32 (nCacheUsed s))"

section \<open>Loading blocks\<close>

text \<open>The constructor.\<close>

definition new_raster_block :: "nat \<Rightarrow> int \<Rightarrow> int \<Rightarrow> 'd gdal \<Rightarrow> (nat \<times> 'd gdal) option" where
  "new_raster_block bi nXOffIn nYOffIn s = do {
     bd \<leftarrow> bands s bi;
     let (xs, ys) = GetBlockSize bd;
     Some (newBlock s, s\<lparr>blocks := (blocks s)(newBlock s \<mapsto>
         \<lparr>eType = eDataType bd, bDirty = False, nLockCount = 0, nXOff = nXOffIn, nYOff = nYOffIn, nXSize = xs,
          nYSize = ys, pData = None, poBand = bi, poNext = None, poPrevious = None\<rparr>),
       newBlock := newBlock s + 1\<rparr>)
   }"

definition Internalize :: "'d driver \<Rightarrow> nat \<Rightarrow> 'd gdal \<Rightarrow> (CPLErr \<times> 'd gdal) option" where
  "Internalize e this s = do {
     let (nCurCacheMax, s) = GDALGetCacheMax64 e s;
     r \<leftarrow> blocks s this;
     let nSizeInBytes = int32 (nXSize r * nYSize r * (GDALGetDataTypeSize (eType r) sdiv 8));
     case VSIMalloc e nSizeInBytes of None \<Rightarrow> Some (CE_Failure, s)
     | Some pNewData \<Rightarrow> do {
         pNewData \<leftarrow> (case pData r of None \<Rightarrow> Some pNewData | Some d \<Rightarrow> memcpy pNewData d nSizeInBytes);
         s \<leftarrow> upd_block this (pData_update (\<lambda>_. Some pNewData)) s;
         s \<leftarrow> AddLock this s;
         s \<leftarrow> flush_loop e nCurCacheMax (s\<lparr>nCacheUsed := nCacheUsed s + nSizeInBytes\<rparr>);
         s \<leftarrow> Touch this s;
         s \<leftarrow> DropLock this s;
         Some (CE_None, s)
       }
   }"

definition AdoptBlock :: "'d driver \<Rightarrow> nat \<Rightarrow> int \<Rightarrow> int \<Rightarrow> nat \<Rightarrow> 'd gdal \<Rightarrow> (CPLErr \<times> 'd gdal) option" where
  "AdoptBlock e bi nXBlockOff nYBlockOff poBlock s = do {
     (ok, s) \<leftarrow> InitBlockInfo e bi s;
     if \<not> ok then Some (CE_Failure, s)
     else do {
       bd \<leftarrow> bands s bi;
       sl \<leftarrow> slot_fetch bd nXBlockOff nYBlockOff;
       if sl = NoSubGrid \<and> \<not> VSICalloc e (SUBBLOCK_SIZE * SUBBLOCK_SIZE) then Some (CE_Failure, s)
       else do {
         bd \<leftarrow> (if sl = NoSubGrid then new_subgrid bd nXBlockOff nYBlockOff else Some bd);
         let s = set_band bi bd s;
         sl \<leftarrow> slot_fetch bd nXBlockOff nYBlockOff;
         if sl = Slot (Some poBlock) then Some (CE_None, s)
         else do {
           s \<leftarrow> (if sl \<noteq> Slot None then map_option snd (FlushBlock e bi nXBlockOff nYBlockOff True s) else Some s);
           bd \<leftarrow> bands s bi;
           bd \<leftarrow> slot_store bd nXBlockOff nYBlockOff (Some poBlock);
           s \<leftarrow> Touch poBlock (set_band bi bd s);
           Some (CE_None, s)
         }
       }
     }
   }"

definition TryGetLockedBlockRef ::
    "'d driver \<Rightarrow> nat \<Rightarrow> int \<Rightarrow> int \<Rightarrow> 'd gdal \<Rightarrow> (nat option \<times> 'd gdal) option" where
  "TryGetLockedBlockRef e bi nXBlockOff nYBlockOff s = do {
     (ok, s) \<leftarrow> InitBlockInfo e bi s;
     if \<not> ok then Some (None, s)
     else do {
       bd \<leftarrow> bands s bi;
       if nXBlockOff < 0 \<or> nXBlockOff \<ge> nBlocksPerRow bd then Some (None, s)
       else if nYBlockOff < 0 \<or> nYBlockOff \<ge> nBlocksPerColumn bd then Some (None, s)
       else do {
         sl \<leftarrow> slot_fetch bd nXBlockOff nYBlockOff;
         case sl of NoSubGrid \<Rightarrow> Some (None, s)
         | Slot p \<Rightarrow> do { (_, s) \<leftarrow> SafeLockBlock p s; Some (p, s) }
       }
     }
   }"

text \<open>The call of \<^verbatim>\<open>IReadBlock\<close> on the data of a block.\<close>

definition read_into :: "'d driver \<Rightarrow> nat \<Rightarrow> int \<Rightarrow> int \<Rightarrow> nat \<Rightarrow> 'd gdal \<Rightarrow> (CPLErr \<times> 'd gdal) option" where
  "read_into e bi nXBlockOff nYBlockOff b s = do {
     r \<leftarrow> blocks s b;
     d \<leftarrow> pData r;
     let (err, d, dev) = IReadBlock e (device s) bi nXBlockOff nYBlockOff d;
     s \<leftarrow> upd_block b (pData_update (\<lambda>_. Some d)) (s\<lparr>device := dev\<rparr>);
     Some (err, s)
   }"

definition count_read :: "nat \<Rightarrow> 'd gdal \<Rightarrow> 'd gdal option" where
  "count_read bi s = map_option (\<lambda>bd. set_band bi (bd\<lparr>nBlockReads := nBlockReads bd + 1\<rparr>) s) (bands s bi)"

definition GetLockedBlockRef ::
    "'d driver \<Rightarrow> nat \<Rightarrow> int \<Rightarrow> int \<Rightarrow> bool \<Rightarrow> 'd gdal \<Rightarrow> (nat option \<times> 'd gdal) option" where
  "GetLockedBlockRef e bi nXBlockOff nYBlockOff bJustInitialize s = do {
     (poBlock, s) \<leftarrow> TryGetLockedBlockRef e bi nXBlockOff nYBlockOff s;
     if poBlock \<noteq> None then Some (poBlock, s)
     else do {
       (ok, s) \<leftarrow> InitBlockInfo e bi s;
       if \<not> ok then Some (None, s)
       else do {
         bd \<leftarrow> bands s bi;
         if nXBlockOff < 0 \<or> nXBlockOff \<ge> nBlocksPerRow bd then Some (None, s)
         else if nYBlockOff < 0 \<or> nYBlockOff \<ge> nBlocksPerColumn bd then Some (None, s)
         else do {
           (b, s) \<leftarrow> new_raster_block bi nXBlockOff nYBlockOff s;
           s \<leftarrow> AddLock b s;
           (err, s) \<leftarrow> Internalize e b s;
           if err \<noteq> CE_None then do { s \<leftarrow> DropLock b s; s \<leftarrow> delete_block b s; Some (None, s) }
           else do {
             (err, s) \<leftarrow> AdoptBlock e bi nXBlockOff nYBlockOff b s;
             if err \<noteq> CE_None then do { s \<leftarrow> DropLock b s; s \<leftarrow> delete_block b s; Some (None, s) }
             else if bJustInitialize then Some (Some b, s)
             else do {
               (err, s) \<leftarrow> read_into e bi nXBlockOff nYBlockOff b s;
               if err \<noteq> CE_None then do {
                 s \<leftarrow> DropLock b s;
                 (_, s) \<leftarrow> FlushBlock e bi nXBlockOff nYBlockOff True s;
                 Some (None, s)
               }
               else do { s \<leftarrow> count_read bi s; Some (Some b, s) }
             }
           }
         }
       }
     }
   }"

section \<open>Operations on a whole band\<close>

text \<open>The positions of a grid in the order of the loops.\<close>

definition positions :: "int \<Rightarrow> int \<Rightarrow> (int \<times> int) list" where
  "positions w h = concat (map (\<lambda>y. map (\<lambda>x. (x, y)) [0..w - 1]) [0..h - 1])"

fun flush_blocks ::
    "'d driver \<Rightarrow> nat \<Rightarrow> (int \<times> int) list \<Rightarrow> CPLErr \<Rightarrow> 'd gdal \<Rightarrow> (CPLErr \<times> 'd gdal) option" where
  "flush_blocks e bi [] eGlobalErr s = Some (eGlobalErr, s)"
| "flush_blocks e bi ((iX, iY) # ps) eGlobalErr s = do {
     bd \<leftarrow> bands s bi;
     papo \<leftarrow> papoBlocks bd;
     c \<leftarrow> load papo (iX + iY * nBlocksPerRow bd);
     if c \<noteq> NullCell then do {
       (eErr, s) \<leftarrow> FlushBlock e bi iX iY (eGlobalErr = CE_None) s;
       flush_blocks e bi ps (if eErr \<noteq> CE_None then eErr else eGlobalErr) s
     }
     else flush_blocks e bi ps eGlobalErr s
   }"

fun flush_grid ::
    "'d driver \<Rightarrow> nat \<Rightarrow> int \<Rightarrow> int \<Rightarrow> (int \<times> int) list \<Rightarrow> CPLErr \<Rightarrow> 'd gdal \<Rightarrow> (CPLErr \<times> 'd gdal) option" where
  "flush_grid e bi iSBX iSBY [] eGlobalErr s = Some (eGlobalErr, s)"
| "flush_grid e bi iSBX iSBY ((iX, iY) # ps) eGlobalErr s = do {
     bd \<leftarrow> bands s bi;
     papo \<leftarrow> papoBlocks bd;
     c \<leftarrow> load papo (iSBX + iSBY * nSubBlocksPerRow bd);
     case c of
       GridCell g \<Rightarrow> do {
         p \<leftarrow> load g (iX + iY * SUBBLOCK_SIZE);
         if p \<noteq> None then do {
           (eErr, s) \<leftarrow> FlushBlock e bi (iX + iSBX * SUBBLOCK_SIZE) (iY + iSBY * SUBBLOCK_SIZE) (eGlobalErr = CE_None) s;
           flush_grid e bi iSBX iSBY ps (if eErr \<noteq> CE_None then eErr else eGlobalErr) s
         }
         else flush_grid e bi iSBX iSBY ps eGlobalErr s
       }
     | _ \<Rightarrow> None
   }"

fun flush_subblocks ::
    "'d driver \<Rightarrow> nat \<Rightarrow> (int \<times> int) list \<Rightarrow> CPLErr \<Rightarrow> 'd gdal \<Rightarrow> (CPLErr \<times> 'd gdal) option" where
  "flush_subblocks e bi [] eGlobalErr s = Some (eGlobalErr, s)"
| "flush_subblocks e bi ((iSBX, iSBY) # ps) eGlobalErr s = do {
     bd \<leftarrow> bands s bi;
     papo \<leftarrow> papoBlocks bd;
     let nSubBlock = iSBX + iSBY * nSubBlocksPerRow bd;
     c \<leftarrow> load papo nSubBlock;
     if c = NullCell then flush_subblocks e bi ps eGlobalErr s
     else do {
       (eGlobalErr, s) \<leftarrow> flush_grid e bi iSBX iSBY (positions SUBBLOCK_SIZE SUBBLOCK_SIZE) eGlobalErr s;
       bd \<leftarrow> bands s bi;
       papo \<leftarrow> papoBlocks bd;
       papo \<leftarrow> store papo nSubBlock NullCell;
       flush_subblocks e bi ps eGlobalErr (set_band bi (bd\<lparr>papoBlocks := Some papo\<rparr>) s)
     }
   }"

definition FlushCache :: "'d driver \<Rightarrow> nat \<Rightarrow> 'd gdal \<Rightarrow> (CPLErr \<times> 'd gdal) option" where
  "FlushCache e bi s = do {
     bd \<leftarrow> bands s bi;
     let eGlobalErr = eFlushBlockErr bd;
     let bd = bd\<lparr>eFlushBlockErr := CE_None\<rparr>;
     let s = (if eGlobalErr \<noteq> CE_None then set_band bi bd s else s);
     if papoBlocks bd = None then Some (eGlobalErr, s)
     else if \<not> bSubBlockingActive bd
     then flush_blocks e bi (positions (nBlocksPerRow bd) (nBlocksPerColumn bd)) eGlobalErr s
     else flush_subblocks e bi (positions (nSubBlocksPerRow bd) (nSubBlocksPerColumn bd)) eGlobalErr s
   }"

text \<open>Reading and writing past the cache.\<close>

definition ReadBlock ::
    "'d driver \<Rightarrow> nat \<Rightarrow> int \<Rightarrow> int \<Rightarrow> byte list \<Rightarrow> 'd gdal \<Rightarrow> (CPLErr \<times> byte list \<times> 'd gdal) option" where
  "ReadBlock e bi nXBlockOff nYBlockOff pImage s = do {
     (ok, s) \<leftarrow> InitBlockInfo e bi s;
     bd \<leftarrow> bands s bi;
     if \<not> ok then Some (CE_Failure, pImage, s)
     else if nXBlockOff < 0 \<or> nXBlockOff \<ge> nBlocksPerRow bd then Some (CE_Failure, pImage, s)
     else if nYBlockOff < 0 \<or> nYBlockOff \<ge> nBlocksPerColumn bd then Some (CE_Failure, pImage, s)
     else let (err, pImage, dev) = IReadBlock e (device s) bi nXBlockOff nYBlockOff pImage
       in Some (err, pImage, s\<lparr>device := dev\<rparr>)
   }"

definition WriteBlock ::
    "'d driver \<Rightarrow> nat \<Rightarrow> int \<Rightarrow> int \<Rightarrow> byte list \<Rightarrow> 'd gdal \<Rightarrow> (CPLErr \<times> 'd gdal) option" where
  "WriteBlock e bi nXBlockOff nYBlockOff pImage s = do {
     (ok, s) \<leftarrow> InitBlockInfo e bi s;
     bd \<leftarrow> bands s bi;
     if \<not> ok then Some (CE_Failure, s)
     else if nXBlockOff < 0 \<or> nXBlockOff \<ge> nBlocksPerRow bd then Some (CE_Failure, s)
     else if nYBlockOff < 0 \<or> nYBlockOff \<ge> nBlocksPerColumn bd then Some (CE_Failure, s)
     else if eAccess bd = GA_ReadOnly then Some (CE_Failure, s)
     else if eFlushBlockErr bd \<noteq> CE_None
       then Some (eFlushBlockErr bd, set_band bi (bd\<lparr>eFlushBlockErr := CE_None\<rparr>) s)
     else let (err, dev) = IWriteBlock e (device s) bi nXBlockOff nYBlockOff pImage in Some (err, s\<lparr>device := dev\<rparr>)
   }"

text \<open>
  \<open>fill_blocks\<close> is the loop of \<^verbatim>\<open>Fill\<close>; a block that is filled is the block size times the first element, which
  \<^verbatim>\<open>GDALCopyWords\<close> converts from the fill value (a parameter).
\<close>

fun fill_blocks :: "'d driver \<Rightarrow> nat \<Rightarrow> byte list \<Rightarrow> (int \<times> int) list \<Rightarrow> 'd gdal \<Rightarrow> (CPLErr \<times> 'd gdal) option" where
  "fill_blocks e bi srcBlock [] s = Some (CE_None, s)"
| "fill_blocks e bi srcBlock ((i, j) # ps) s = do {
     (destBlock, s) \<leftarrow> GetLockedBlockRef e bi i j True s;
     case destBlock of None \<Rightarrow> Some (CE_Failure, s)
     | Some b \<Rightarrow> do {
         r \<leftarrow> blocks s b;
         case pData r of None \<Rightarrow> Some (CE_Failure, s)
         | Some d \<Rightarrow> do {
             d \<leftarrow> memcpy d srcBlock (int (length srcBlock));
             s \<leftarrow> upd_block b (pData_update (\<lambda>_. Some d)) s;
             s \<leftarrow> MarkDirty b s;
             s \<leftarrow> DropLock b s;
             fill_blocks e bi srcBlock ps s
           }
       }
   }"

definition Fill :: "'d driver \<Rightarrow> nat \<Rightarrow> byte list \<Rightarrow> 'd gdal \<Rightarrow> (CPLErr \<times> 'd gdal) option" where
  "Fill e bi element s = do {
     bd \<leftarrow> bands s bi;
     if eAccess bd = GA_ReadOnly then Some (CE_Failure, s)
     else do {
       (ok, s) \<leftarrow> InitBlockInfo e bi s;
       bd \<leftarrow> bands s bi;
       if \<not> ok then Some (CE_Failure, s)
       else if VSIMalloc e (nBlockXSize bd * nBlockYSize bd * (GDALGetDataTypeSize (eDataType bd) sdiv 8)) = None
       then Some (CE_Failure, s)
       else fill_blocks e bi (concat (replicate (nat (nBlockXSize bd * nBlockYSize bd)) element))
              (positions (nBlocksPerRow bd) (nBlocksPerColumn bd)) s
     }
   }"

end
