(* ===== verification/Gdal_Block_Table.thy ===== *)
theory Gdal_Block_Table
  imports Gdal_Block_Cache
begin

text \<open>
  Facts about the table of blocks of a band: \<open>slot bd x y\<close> is the block that the table has at a position, with
  and without sub-blocking; the lemmas give the positions the laws of an array.
\<close>

section \<open>Arithmetic of the indices\<close>

lemma int64_id: "- (2 ^ 63) \<le> x \<Longrightarrow> x < 2 ^ 63 \<Longrightarrow> int64 x = x"
  unfolding int64_def by (rule signed_take_bit_int_eq_self) auto

lemma index_range:
  fixes x y w h :: int
  assumes "0 \<le> x" "x < w" "0 \<le> y" "y < h"
  shows "0 \<le> x + y * w" "x + y * w < w * h"
proof -
  show "0 \<le> x + y * w" using assms by simp
  have "y * w + w \<le> h * w" using mult_right_mono [of "y + 1" h w] assms by (simp add: distrib_right)
  then show "x + y * w < w * h" using assms by (simp add: mult.commute)
qed

lemma index_inj:
  fixes x y w :: int
  assumes "0 \<le> x" "x < w" "0 \<le> x'" "x' < w"
  shows "x + y * w = x' + y' * w \<longleftrightarrow> x = x' \<and> y = y'"
proof
  assume eq: "x + y * w = x' + y' * w"
  have "(x + y * w) mod w = x" "(x' + y' * w) mod w = x'" using assms by simp_all
  then have "x = x'" using eq by metis
  then show "x = x' \<and> y = y'" using eq assms by simp
qed simp

lemma DIV_ROUND_UP_pos:
  assumes "0 < a" "0 < b"
  shows "0 < DIV_ROUND_UP a b" "a \<le> DIV_ROUND_UP a b * b" "DIV_ROUND_UP a b * b < a + b"
proof -
  have d: "a smod b = a mod b" "a sdiv b = a div b"
    using assms by (simp_all add: signed_divide_int_def signed_modulo_int_def)
  have m: "0 \<le> a mod b" "a mod b < b" using assms by simp_all
  have e: "a div b * b = a - a mod b" by (simp add: minus_mod_eq_div_mult)
  show le: "a \<le> DIV_ROUND_UP a b * b" using m e by (auto simp: DIV_ROUND_UP_def d distrib_right)
  show "DIV_ROUND_UP a b * b < a + b"
  proof (cases "a mod b = 0")
    case False
    then have "0 < a mod b" using m by simp
    then show ?thesis using e False by (simp add: DIV_ROUND_UP_def d distrib_right)
  qed (use e assms in \<open>simp add: DIV_ROUND_UP_def d\<close>)
  have "0 < DIV_ROUND_UP a b * b" using le assms(1) by simp
  then show "0 < DIV_ROUND_UP a b" using assms(2) zero_less_mult_pos2 by blast
qed

lemma TO_SUBBLOCK_div: "TO_SUBBLOCK x = x div 64"
  by (simp add: TO_SUBBLOCK_def drop_bit_eq_div)

lemma WITHIN_SUBBLOCK_mod: "WITHIN_SUBBLOCK x = x mod 64"
proof -
  have "(63 :: int) = mask 6" by (simp add: mask_eq_exp_minus_1)
  then have "WITHIN_SUBBLOCK x = take_bit 6 x" by (simp add: WITHIN_SUBBLOCK_def take_bit_eq_mask)
  then show ?thesis by (simp add: take_bit_eq_mod)
qed

lemma within_range: "0 \<le> WITHIN_SUBBLOCK x" "WITHIN_SUBBLOCK x < 64"
  by (simp_all add: WITHIN_SUBBLOCK_mod)

lemma sub_split: "TO_SUBBLOCK x = TO_SUBBLOCK x' \<and> WITHIN_SUBBLOCK x = WITHIN_SUBBLOCK x' \<longleftrightarrow> x = x'"
proof
  assume "TO_SUBBLOCK x = TO_SUBBLOCK x' \<and> WITHIN_SUBBLOCK x = WITHIN_SUBBLOCK x'"
  then have "x div 64 = x' div 64" "x mod 64 = x' mod 64" by (simp_all add: TO_SUBBLOCK_div WITHIN_SUBBLOCK_mod)
  then show "x = x'" by (metis div_mult_mod_eq)
qed simp

lemma to_sub_range: "0 \<le> x \<Longrightarrow> x < w \<Longrightarrow> w \<le> 64 * sw \<Longrightarrow> 0 \<le> TO_SUBBLOCK x \<and> TO_SUBBLOCK x < sw"
  by (simp add: TO_SUBBLOCK_div) linarith

lemma load_some: "load t n = Some c \<longleftrightarrow> 0 \<le> n \<and> n < int (length t) \<and> t ! nat n = c"
  by (auto simp: load_def)

lemma store_some: "store t n v = Some t' \<longleftrightarrow> 0 \<le> n \<and> n < int (length t) \<and> t' = t[nat n := v]"
  by (auto simp: store_def)

lemma load_store: "store t n v = Some t' \<Longrightarrow> load t' m = (if m = n then Some v else load t m)"
  by (auto simp: store_def load_def nth_list_update split: if_splits)

lemma load_in: "load t n = Some c \<Longrightarrow> c \<in> set t"
  by (auto simp: load_def split: if_splits)

section \<open>Tables\<close>

definition in_range :: "raster_band \<Rightarrow> int \<Rightarrow> int \<Rightarrow> bool" where
  "in_range bd x y \<longleftrightarrow> 0 \<le> x \<and> x < nBlocksPerRow bd \<and> 0 \<le> y \<and> y < nBlocksPerColumn bd"

definition slot :: "raster_band \<Rightarrow> int \<Rightarrow> int \<Rightarrow> nat option" where
  "slot bd x y = (case slot_fetch bd x y of Some (Slot p) \<Rightarrow> p | _ \<Rightarrow> None)"

definition plain_ok :: "raster_band \<Rightarrow> block_cell list \<Rightarrow> bool" where
  "plain_ok bd t \<longleftrightarrow> int (length t) = nBlocksPerRow bd * nBlocksPerColumn bd \<and> (\<forall>c \<in> set t. \<forall>g. c \<noteq> GridCell g)"

text \<open>A table of grids: beyond the last row and column of blocks the grids are empty.\<close>

definition sub_ok :: "raster_band \<Rightarrow> block_cell list \<Rightarrow> bool" where
  "sub_ok bd t \<longleftrightarrow> int (length t) = nSubBlocksPerRow bd * nSubBlocksPerColumn bd
    \<and> nBlocksPerRow bd \<le> 64 * nSubBlocksPerRow bd \<and> nBlocksPerColumn bd \<le> 64 * nSubBlocksPerColumn bd
    \<and> (\<forall>c \<in> set t. (\<forall>b. c \<noteq> BlockCell b) \<and> (\<forall>g. c = GridCell g \<longrightarrow> length g = 4096))
    \<and> (\<forall>sx sy x y g b. 0 \<le> sx \<longrightarrow> sx < nSubBlocksPerRow bd \<longrightarrow> 0 \<le> x \<longrightarrow> x < 64 \<longrightarrow> 0 \<le> y \<longrightarrow> y < 64
        \<longrightarrow> load t (sx + sy * nSubBlocksPerRow bd) = Some (GridCell g) \<longrightarrow> load g (x + y * 64) = Some (Some b)
        \<longrightarrow> in_range bd (x + sx * 64) (y + sy * 64))"

definition table_ok :: "raster_band \<Rightarrow> bool" where
  "table_ok bd \<longleftrightarrow> (case papoBlocks bd of None \<Rightarrow> True
     | Some t \<Rightarrow> 0 < nBlocksPerRow bd \<and> 0 < nBlocksPerColumn bd
         \<and> (if bSubBlockingActive bd then sub_ok bd t else plain_ok bd t))"

lemma plain_fetch:
  assumes "papoBlocks bd = Some t" "\<not> bSubBlockingActive bd" "plain_ok bd t" "in_range bd x y"
  shows "\<exists>c. load t (x + y * nBlocksPerRow bd) = Some c \<and> (\<forall>g. c \<noteq> GridCell g)
    \<and> slot_fetch bd x y = Some (Slot (case c of BlockCell b \<Rightarrow> Some b | _ \<Rightarrow> None))"
proof -
  have "0 \<le> x + y * nBlocksPerRow bd" "x + y * nBlocksPerRow bd < int (length t)"
    using index_range [of x "nBlocksPerRow bd" y "nBlocksPerColumn bd"] assms(3,4)
    by (simp_all add: in_range_def plain_ok_def)
  then obtain c where c: "load t (x + y * nBlocksPerRow bd) = Some c" by (simp add: load_def)
  moreover have "\<forall>g. c \<noteq> GridCell g" using load_in [OF c] assms(3) by (simp add: plain_ok_def)
  ultimately show ?thesis using assms(1,2) by (cases c) (simp_all add: slot_fetch_def)
qed

abbreviation sub_index :: "raster_band \<Rightarrow> int \<Rightarrow> int \<Rightarrow> int" where
  "sub_index bd x y \<equiv> TO_SUBBLOCK x + TO_SUBBLOCK y * nSubBlocksPerRow bd"

abbreviation in_sub_index :: "int \<Rightarrow> int \<Rightarrow> int" where
  "in_sub_index x y \<equiv> WITHIN_SUBBLOCK x + WITHIN_SUBBLOCK y * SUBBLOCK_SIZE"

lemma sub_to_range:
  assumes "sub_ok bd t" "in_range bd x y"
  shows "0 \<le> TO_SUBBLOCK x" "TO_SUBBLOCK x < nSubBlocksPerRow bd" "0 \<le> TO_SUBBLOCK y"
    "TO_SUBBLOCK y < nSubBlocksPerColumn bd"
  using to_sub_range [of x "nBlocksPerRow bd" "nSubBlocksPerRow bd"]
    to_sub_range [of y "nBlocksPerColumn bd" "nSubBlocksPerColumn bd"] assms
  by (simp_all add: sub_ok_def in_range_def)

lemma sub_index_range:
  assumes "sub_ok bd t" "in_range bd x y"
  shows "0 \<le> sub_index bd x y" "sub_index bd x y < int (length t)"
  using index_range [OF sub_to_range [OF assms]] assms(1) by (simp_all add: sub_ok_def)

lemma in_sub_index_range: "0 \<le> in_sub_index x y" "in_sub_index x y < 4096"
  using index_range [of "WITHIN_SUBBLOCK x" 64 "WITHIN_SUBBLOCK y" 64] within_range
  by (simp_all add: SUBBLOCK_SIZE_def)

lemma sub_fetch:
  assumes "papoBlocks bd = Some t" "bSubBlockingActive bd" "sub_ok bd t" "in_range bd x y"
  shows "load t (sub_index bd x y) = Some NullCell \<and> slot_fetch bd x y = Some NoSubGrid
    \<or> (\<exists>g p. load t (sub_index bd x y) = Some (GridCell g) \<and> length g = 4096 \<and> load g (in_sub_index x y) = Some p
         \<and> slot_fetch bd x y = Some (Slot p))"
proof -
  obtain c where c: "load t (sub_index bd x y) = Some c"
    using sub_index_range [OF assms(3,4)] by (simp add: load_def)
  then show ?thesis
  proof (cases c)
    case NullCell
    with c assms(1,2) show ?thesis by (simp add: slot_fetch_def)
  next
    case (BlockCell b)
    with load_in [OF c] assms(3) show ?thesis by (auto simp: sub_ok_def)
  next
    case (GridCell g)
    then have g: "length g = 4096" using load_in [OF c] assms(3) by (auto simp: sub_ok_def)
    then obtain p where "load g (in_sub_index x y) = Some p"
      using in_sub_index_range [of x y] by (simp add: load_def)
    with g c GridCell assms(1,2) show ?thesis by (simp add: slot_fetch_def)
  qed
qed

lemma slot_fetch_ok:
  assumes "table_ok bd" "papoBlocks bd \<noteq> None" "in_range bd x y"
  shows "slot_fetch bd x y = Some NoSubGrid \<or> slot_fetch bd x y = Some (Slot (slot bd x y))"
proof -
  obtain t where t: "papoBlocks bd = Some t" using assms(2) by auto
  show ?thesis
  proof (cases "bSubBlockingActive bd")
    case True
    then show ?thesis using sub_fetch [OF t True _ assms(3)] assms(1) t by (auto simp: table_ok_def slot_def)
  next
    case False
    then show ?thesis using plain_fetch [OF t False _ assms(3)] assms(1) t by (auto simp: table_ok_def slot_def)
  qed
qed

lemma slot_fetch_slot: "slot_fetch bd x y = Some (Slot p) \<Longrightarrow> slot bd x y = p"
  by (simp add: slot_def)

section \<open>Writing a table\<close>

lemma in_range_papo [simp]: "in_range (bd\<lparr>papoBlocks := t\<rparr>) = in_range bd"
  by (simp add: in_range_def fun_eq_iff)

lemma plain_store:
  assumes t: "papoBlocks bd = Some t" "\<not> bSubBlockingActive bd" "plain_ok bd t" and xy: "in_range bd x y"
  shows "\<exists>t'. slot_store bd x y p = Some (bd\<lparr>papoBlocks := Some t'\<rparr>) \<and> plain_ok bd t'
    \<and> (\<forall>x' y'. in_range bd x' y' \<longrightarrow> slot_fetch (bd\<lparr>papoBlocks := Some t'\<rparr>) x' y'
         = (if x' = x \<and> y' = y then Some (Slot p) else slot_fetch bd x' y'))"
proof -
  define c where "c = (case p of None \<Rightarrow> NullCell | Some b \<Rightarrow> BlockCell b)"
  define n where "n = x + y * nBlocksPerRow bd"
  have r: "0 \<le> n" "n < int (length t)"
    using index_range [of x "nBlocksPerRow bd" y "nBlocksPerColumn bd"] t(3) xy
    by (simp_all add: in_range_def plain_ok_def n_def)
  define t' where "t' = t[nat n := c]"
  have st: "store t n c = Some t'" using r by (simp add: store_def t'_def)
  have "set t' \<subseteq> insert c (set t)" unfolding t'_def by (rule set_update_subset_insert)
  then have ok: "plain_ok bd t'" using t(3) by (auto simp: plain_ok_def t'_def c_def split: option.splits)
  have "slot_fetch (bd\<lparr>papoBlocks := Some t'\<rparr>) x' y' = (if x' = x \<and> y' = y then Some (Slot p) else slot_fetch bd x' y')"
    if "in_range bd x' y'" for x' y'
  proof -
    have "x' + y' * nBlocksPerRow bd = n \<longleftrightarrow> x' = x \<and> y' = y"
      unfolding n_def using that xy by (intro index_inj) (simp_all add: in_range_def)
    then show ?thesis using load_store [OF st, of "x' + y' * nBlocksPerRow bd"] t
      by (auto simp: slot_fetch_def c_def split: option.splits)
  qed
  moreover have "slot_store bd x y p = Some (bd\<lparr>papoBlocks := Some t'\<rparr>)"
    using t st by (simp add: slot_store_def n_def c_def)
  ultimately show ?thesis using ok by blast
qed

text \<open>The entry of a grid for a position, when a grid of the table is replaced.\<close>

lemma sub_fetch_store:
  assumes t: "papoBlocks bd = Some t" "bSubBlockingActive bd" "sub_ok bd t" and xy: "in_range bd x y" "in_range bd x' y'"
    and st: "store t (sub_index bd x y) (GridCell g) = Some t'"
  shows "slot_fetch (bd\<lparr>papoBlocks := Some t'\<rparr>) x' y' =
    (if TO_SUBBLOCK x' = TO_SUBBLOCK x \<and> TO_SUBBLOCK y' = TO_SUBBLOCK y
     then map_option Slot (load g (in_sub_index x' y')) else slot_fetch bd x' y')"
proof -
  have "sub_index bd x' y' = sub_index bd x y \<longleftrightarrow> TO_SUBBLOCK x' = TO_SUBBLOCK x \<and> TO_SUBBLOCK y' = TO_SUBBLOCK y"
    using sub_to_range [OF t(3) xy(1)] sub_to_range [OF t(3) xy(2)] by (intro index_inj)
  then show ?thesis using t load_store [OF st, of "sub_index bd x' y'"] by (auto simp: slot_fetch_def)
qed

lemma sub_ok_store:
  assumes t: "sub_ok bd t" and xy: "in_range bd x y"
    and st: "store t (sub_index bd x y) (GridCell g) = Some t'" and g: "length g = 4096"
    and new: "\<And>x' y' b. 0 \<le> x' \<Longrightarrow> x' < 64 \<Longrightarrow> 0 \<le> y' \<Longrightarrow> y' < 64 \<Longrightarrow> load g (x' + y' * 64) = Some (Some b)
      \<Longrightarrow> in_range bd (x' + TO_SUBBLOCK x * 64) (y' + TO_SUBBLOCK y * 64)"
  shows "sub_ok bd t'"
proof -
  have "set t' \<subseteq> insert (GridCell g) (set t)" "length t' = length t"
    using st by (auto simp: store_some set_update_subset_insert)
  moreover have "in_range bd (x' + sx * 64) (y' + sy * 64)"
    if r: "0 \<le> sx" "sx < nSubBlocksPerRow bd" "0 \<le> x'" "x' < 64" "0 \<le> y'" "y' < 64"
      and l: "load t' (sx + sy * nSubBlocksPerRow bd) = Some (GridCell g')" "load g' (x' + y' * 64) = Some (Some b)"
    for sx sy x' y' g' b
  proof (cases "sx + sy * nSubBlocksPerRow bd = sub_index bd x y")
    case True
    then have "sx = TO_SUBBLOCK x \<and> sy = TO_SUBBLOCK y"
      using index_inj [OF r(1,2) sub_to_range(1,2) [OF t xy]] by simp
    moreover have "g' = g" using l(1) True load_store [OF st] by simp
    ultimately show ?thesis using new r l(2) by blast
  next
    case False
    then have "load t (sx + sy * nSubBlocksPerRow bd) = Some (GridCell g')" using l(1) load_store [OF st] by simp
    then show ?thesis using t r l(2) unfolding sub_ok_def by blast
  qed
  ultimately show ?thesis using t g unfolding sub_ok_def by auto
qed

lemma sub_store:
  assumes t: "papoBlocks bd = Some t" "bSubBlockingActive bd" "sub_ok bd t" and xy: "in_range bd x y"
    and sl: "slot_fetch bd x y \<noteq> Some NoSubGrid"
  shows "\<exists>t'. slot_store bd x y p = Some (bd\<lparr>papoBlocks := Some t'\<rparr>) \<and> sub_ok bd t'
    \<and> (\<forall>x' y'. in_range bd x' y' \<longrightarrow> slot_fetch (bd\<lparr>papoBlocks := Some t'\<rparr>) x' y'
         = (if x' = x \<and> y' = y then Some (Slot p) else slot_fetch bd x' y'))"
proof -
  obtain g where g: "load t (sub_index bd x y) = Some (GridCell g)" "length g = 4096"
    using sub_fetch [OF t xy] sl by auto
  obtain g' where g': "store g (in_sub_index x y) p = Some g'"
    using in_sub_index_range [of x y] g(2) by (simp add: store_def)
  obtain t' where t': "store t (sub_index bd x y) (GridCell g') = Some t'"
    using sub_index_range [OF t(3) xy] by (simp add: store_def)
  have l: "length g' = 4096" using g' g(2) by (auto simp: store_some)
  have "sub_ok bd t'"
  proof (rule sub_ok_store [OF t(3) xy t' l])
    fix x' y' :: int and b
    assume r: "0 \<le> x'" "x' < 64" "0 \<le> y'" "y' < 64" and e: "load g' (x' + y' * 64) = Some (Some b)"
    show "in_range bd (x' + TO_SUBBLOCK x * 64) (y' + TO_SUBBLOCK y * 64)"
    proof (cases "x' + y' * 64 = in_sub_index x y")
      case True
      then have "x' = WITHIN_SUBBLOCK x \<and> y' = WITHIN_SUBBLOCK y"
        using index_inj [OF r(1,2) within_range] by (simp add: SUBBLOCK_SIZE_def)
      then show ?thesis using xy by (simp add: WITHIN_SUBBLOCK_mod TO_SUBBLOCK_div)
    next
      case False
      then have "load g (x' + y' * 64) = Some (Some b)" using e load_store [OF g'] by simp
      then show ?thesis using t(3) g(1) r sub_to_range(1,2) [OF t(3) xy] unfolding sub_ok_def by blast
    qed
  qed
  moreover have "slot_fetch (bd\<lparr>papoBlocks := Some t'\<rparr>) x' y' = (if x' = x \<and> y' = y then Some (Slot p) else slot_fetch bd x' y')"
    if xy': "in_range bd x' y'" for x' y'
  proof (cases "TO_SUBBLOCK x' = TO_SUBBLOCK x \<and> TO_SUBBLOCK y' = TO_SUBBLOCK y")
    case True
    have "in_sub_index x' y' = in_sub_index x y \<longleftrightarrow> WITHIN_SUBBLOCK x' = WITHIN_SUBBLOCK x \<and> WITHIN_SUBBLOCK y' = WITHIN_SUBBLOCK y"
      using index_inj [OF within_range within_range] by (simp add: SUBBLOCK_SIZE_def)
    also have "\<dots> \<longleftrightarrow> x' = x \<and> y' = y" using True sub_split [of x' x] sub_split [of y' y] by auto
    finally show ?thesis using True sub_fetch_store [OF t xy xy' t'] load_store [OF g', of "in_sub_index x' y'"] t(1,2) g(1)
      by (simp add: slot_fetch_def)
  next
    case False
    then show ?thesis using sub_fetch_store [OF t xy xy' t'] by auto
  qed
  moreover have "slot_store bd x y p = Some (bd\<lparr>papoBlocks := Some t'\<rparr>)"
    using t(1,2) g g' t' by (simp add: slot_store_def Let_def)
  ultimately show ?thesis by blast
qed

lemma table_ok_papo:
  "0 < nBlocksPerRow bd \<Longrightarrow> 0 < nBlocksPerColumn bd \<Longrightarrow>
    table_ok (bd\<lparr>papoBlocks := Some t\<rparr>) \<longleftrightarrow> (if bSubBlockingActive bd then sub_ok bd t else plain_ok bd t)"
  by (simp add: table_ok_def sub_ok_def plain_ok_def)

lemma slot_store_ok:
  assumes ok: "table_ok bd" "papoBlocks bd \<noteq> None" and xy: "in_range bd x y" and sl: "slot_fetch bd x y \<noteq> Some NoSubGrid"
  shows "\<exists>t'. slot_store bd x y p = Some (bd\<lparr>papoBlocks := Some t'\<rparr>) \<and> table_ok (bd\<lparr>papoBlocks := Some t'\<rparr>)
    \<and> (\<forall>x' y'. in_range bd x' y' \<longrightarrow> slot_fetch (bd\<lparr>papoBlocks := Some t'\<rparr>) x' y'
         = (if x' = x \<and> y' = y then Some (Slot p) else slot_fetch bd x' y'))"
proof -
  obtain t where t: "papoBlocks bd = Some t" using ok(2) by auto
  have p: "0 < nBlocksPerRow bd" "0 < nBlocksPerColumn bd" using ok(1) t by (simp_all add: table_ok_def)
  show ?thesis
  proof (cases "bSubBlockingActive bd")
    case True
    then have "sub_ok bd t" using ok(1) t by (simp add: table_ok_def)
    from sub_store [OF t True this xy sl, of p] show ?thesis using True p by (auto simp: table_ok_papo)
  next
    case False
    then have "plain_ok bd t" using ok(1) t by (simp add: table_ok_def)
    from plain_store [OF t False this xy, of p] show ?thesis using False p by (auto simp: table_ok_papo)
  qed
qed

lemma new_subgrid_ok:
  assumes ok: "table_ok bd" "papoBlocks bd \<noteq> None" and xy: "in_range bd x y" and sl: "slot_fetch bd x y = Some NoSubGrid"
  shows "\<exists>t'. new_subgrid bd x y = Some (bd\<lparr>papoBlocks := Some t'\<rparr>) \<and> table_ok (bd\<lparr>papoBlocks := Some t'\<rparr>)
    \<and> (\<forall>x' y'. in_range bd x' y' \<longrightarrow> slot (bd\<lparr>papoBlocks := Some t'\<rparr>) x' y' = slot bd x' y')
    \<and> slot_fetch (bd\<lparr>papoBlocks := Some t'\<rparr>) x y = Some (Slot None)"
proof -
  obtain t where t: "papoBlocks bd = Some t" using ok(2) by auto
  have p: "0 < nBlocksPerRow bd" "0 < nBlocksPerColumn bd" using ok(1) t by (simp_all add: table_ok_def)
  have True: "bSubBlockingActive bd"
    using plain_fetch [OF t _ _ xy] ok(1) t sl by (cases "bSubBlockingActive bd") (auto simp: table_ok_def)
  then have s: "sub_ok bd t" using ok(1) t by (simp add: table_ok_def)
  define g where "g = replicate 4096 (None :: nat option)"
  have l: "load g n = Some q \<longleftrightarrow> 0 \<le> n \<and> n < 4096 \<and> q = None" for n q by (auto simp: load_def g_def)
  obtain t' where t': "store t (sub_index bd x y) (GridCell g) = Some t'"
    using sub_index_range [OF s xy] by (simp add: store_def)
  have "length g = 4096" by (simp add: g_def)
  then have "sub_ok bd t'" by (rule sub_ok_store [OF s xy t']) (simp add: l)
  then have "table_ok (bd\<lparr>papoBlocks := Some t'\<rparr>)" using True p by (simp add: table_ok_papo)
  moreover have f: "slot_fetch (bd\<lparr>papoBlocks := Some t'\<rparr>) x' y' =
      (if TO_SUBBLOCK x' = TO_SUBBLOCK x \<and> TO_SUBBLOCK y' = TO_SUBBLOCK y then Some (Slot None) else slot_fetch bd x' y')"
    if xy': "in_range bd x' y'" for x' y'
    using sub_fetch_store [OF t True s xy xy' t'] l [of "in_sub_index x' y'"] in_sub_index_range [of x' y'] by simp
  moreover have "slot_fetch bd x' y' = Some NoSubGrid"
    if "TO_SUBBLOCK x' = TO_SUBBLOCK x \<and> TO_SUBBLOCK y' = TO_SUBBLOCK y" for x' y'
    using sub_fetch [OF t True s xy] sl that t True by (auto simp: slot_fetch_def)
  moreover have "new_subgrid bd x y = Some (bd\<lparr>papoBlocks := Some t'\<rparr>)"
    using t t' by (simp add: new_subgrid_def g_def SUBBLOCK_SIZE_def)
  ultimately show ?thesis using xy by (auto simp: slot_def)
qed

section \<open>The table of a new band\<close>

text \<open>Bands that differ in the table and its dimensions only, and the table that \<open>InitBlockInfo\<close> makes.\<close>

definition table_only :: "raster_band \<Rightarrow> raster_band \<Rightarrow> bool" where
  "table_only bd bd' \<longleftrightarrow> eFlushBlockErr bd' = eFlushBlockErr bd \<and> nRasterXSize bd' = nRasterXSize bd
    \<and> nRasterYSize bd' = nRasterYSize bd \<and> eDataType bd' = eDataType bd \<and> eAccess bd' = eAccess bd
    \<and> nBlockXSize bd' = nBlockXSize bd \<and> nBlockYSize bd' = nBlockYSize bd \<and> nBlockReads bd' = nBlockReads bd"

definition fresh_table :: "raster_band \<Rightarrow> raster_band \<Rightarrow> bool" where
  "fresh_table bd bd' \<longleftrightarrow> table_only bd bd' \<and> papoBlocks bd' \<noteq> None \<and> table_ok bd' \<and> nBlocksPerRow bd' = DIV_ROUND_UP (nRasterXSize bd) (nBlockXSize bd)
    \<and> nBlocksPerColumn bd' = DIV_ROUND_UP (nRasterYSize bd) (nBlockYSize bd)
    \<and> 0 < nBlockXSize bd \<and> 0 < nBlockYSize bd
    \<and> (\<forall>x y. in_range bd' x y \<longrightarrow> slot bd' x y = None)"

lemma load_replicate: "load (replicate n v) k = (if 0 \<le> k \<and> k < int n then Some v else None)"
  by (simp add: load_def nat_less_iff)

text \<open>Conditions that make \<open>InitBlockInfo\<close> succeed: blocks below two gigabytes, at most 32767 of them in a row or
  column, and memory for the table.\<close>

definition roomy :: "'d driver \<Rightarrow> raster_band \<Rightarrow> bool" where
  "roomy e bd \<longleftrightarrow> 0 < nBlockXSize bd \<and> 0 < nBlockYSize bd \<and> 0 < nRasterXSize bd \<and> 0 < nRasterYSize bd
    \<and> nBlockXSize bd * nBlockYSize bd * (GDALGetDataTypeSize (eDataType bd) sdiv 8) < 2 ^ 31
    \<and> DIV_ROUND_UP (nRasterXSize bd) (nBlockXSize bd) \<le> 32767 \<and> DIV_ROUND_UP (nRasterYSize bd) (nBlockYSize bd) \<le> 32767
    \<and> (\<forall>n. VSICalloc e n)"

lemma roomy_quotient:
  assumes "0 < (w :: int)" "w \<le> 32767" "0 < h" "h \<le> 32767"
  shows "w < INT_MAX sdiv h"
proof -
  have "w * h \<le> 32767 * 32767" using assms by (intro mult_mono) simp_all
  then have "(w + 1) * h \<le> 2147483647" using assms by (simp add: distrib_right)
  then have "(w + 1) * h div h \<le> 2147483647 div h" using assms(3) by (intro zdiv_mono1)
  then have "w + 1 \<le> 2147483647 div h" using assms(3) by simp
  then show ?thesis using assms(3) by (simp add: INT_MAX_def signed_divide_int_def)
qed

lemma InitBlockInfo_cases:
  assumes bd: "bands s bi = Some bd" and d: "table_ok bd"
  shows "\<exists>bd'. InitBlockInfo e bi s = Some (papoBlocks bd' \<noteq> None, s\<lparr>bands := (bands s)(bi \<mapsto> bd')\<rparr>)
    \<and> (papoBlocks bd \<noteq> None \<longrightarrow> bd' = bd)
    \<and> (papoBlocks bd = None \<longrightarrow> papoBlocks bd' \<noteq> None \<longrightarrow> fresh_table bd bd')
    \<and> table_only bd bd' \<and> (papoBlocks bd' = None \<longrightarrow> \<not> roomy e bd)"
proof -
  have same: "s\<lparr>bands := (bands s)(bi \<mapsto> bd)\<rparr> = s" using bd by (simp add: fun_upd_idem)
  define bad where "bad \<longleftrightarrow> nBlockXSize bd \<le> 0 \<or> nBlockYSize bd \<le> 0 \<or> nRasterXSize bd \<le> 0 \<or> nRasterYSize bd \<le> 0
      \<or> (nBlockXSize bd \<ge> 10000 \<or> nBlockYSize bd \<ge> 10000)
       \<and> int32 (nBlockXSize bd * nBlockYSize bd * (GDALGetDataTypeSize (eDataType bd) sdiv 8))
         \<noteq> int64 (nBlockXSize bd * nBlockYSize bd * (GDALGetDataTypeSize (eDataType bd) sdiv 8))"
  have b: "InitBlockInfo e bi s = Some (False, s)" if "papoBlocks bd = None" bad
    using that bd unfolding bad_def InitBlockInfo_def by (elim disjE) simp_all
  have p: "0 < nBlockXSize bd" "0 < nBlockYSize bd" "0 < nRasterXSize bd" "0 < nRasterYSize bd" if "\<not> bad"
    using that by (auto simp: bad_def)
  have nb: "\<not> bad" if "roomy e bd"
  proof -
    have "0 \<le> nBlockXSize bd * nBlockYSize bd * (GDALGetDataTypeSize (eDataType bd) sdiv 8)"
      using that by (cases "eDataType bd") (simp_all add: roomy_def signed_divide_int_def)
    then have "int32 (nBlockXSize bd * nBlockYSize bd * (GDALGetDataTypeSize (eDataType bd) sdiv 8))
      = int64 (nBlockXSize bd * nBlockYSize bd * (GDALGetDataTypeSize (eDataType bd) sdiv 8))"
      using that by (simp add: roomy_def int32_id int64_id)
    then show ?thesis using that by (auto simp: bad_def roomy_def)
  qed
  consider (some) "papoBlocks bd \<noteq> None" | (bad) "papoBlocks bd = None" "InitBlockInfo e bi s = Some (False, s)" bad
    | (init) "papoBlocks bd = None" "0 < nBlockXSize bd" "0 < nBlockYSize bd" "0 < nRasterXSize bd" "0 < nRasterYSize bd"
      "\<not> ((nBlockXSize bd \<ge> 10000 \<or> nBlockYSize bd \<ge> 10000)
       \<and> int32 (nBlockXSize bd * nBlockYSize bd * (GDALGetDataTypeSize (eDataType bd) sdiv 8))
         \<noteq> int64 (nBlockXSize bd * nBlockYSize bd * (GDALGetDataTypeSize (eDataType bd) sdiv 8)))"
    using b p unfolding bad_def by blast
  then show ?thesis
  proof cases
    case some
    then show ?thesis using bd same by (intro exI [of _ bd]) (auto simp: InitBlockInfo_def table_only_def)
  next
    case bad
    then show ?thesis using same nb by (intro exI [of _ bd]) (auto simp: table_only_def)
  next
    case init
    define w where "w = DIV_ROUND_UP (nRasterXSize bd) (nBlockXSize bd)"
    define h where "h = DIV_ROUND_UP (nRasterYSize bd) (nBlockYSize bd)"
    have wh: "0 < w" "0 < h" using init by (simp_all add: w_def h_def DIV_ROUND_UP_pos)
    define sw where "sw = DIV_ROUND_UP w 64"
    define sh where "sh = DIV_ROUND_UP h 64"
    have swh: "0 < sw" "0 < sh" "w \<le> 64 * sw" "h \<le> 64 * sh"
      using DIV_ROUND_UP_pos [of w 64] DIV_ROUND_UP_pos [of h 64] wh by (simp_all add: sw_def sh_def)
    have q: "w < INT_MAX sdiv h \<and> VSICalloc e n" "sw < INT_MAX sdiv sh \<and> VSICalloc e n" if "roomy e bd" for n
    proof -
      have l: "w \<le> 32767" "h \<le> 32767" using that by (simp_all add: roomy_def w_def h_def)
      have "sw \<le> 32767" "sh \<le> 32767" using l wh DIV_ROUND_UP_pos(3) [of w 64] DIV_ROUND_UP_pos(3) [of h 64] by (simp_all add: sw_def sh_def)
      then show "w < INT_MAX sdiv h \<and> VSICalloc e n" "sw < INT_MAX sdiv sh \<and> VSICalloc e n"
        using l wh swh(1,2) that by (simp_all add: roomy_quotient) (simp_all add: roomy_def)
    qed
    have bd64: "SUBBLOCK_SIZE = 64" "SUBBLOCK_SIZE sdiv 2 = (32 :: int)"
      by (simp_all add: SUBBLOCK_SIZE_def signed_divide_int_def)
    show ?thesis
    proof (cases "w < 32")
      case True
      define b1 where "b1 = bd\<lparr>nBlocksPerRow := w, nBlocksPerColumn := h, bSubBlockingActive := False\<rparr>"
      define b2 where "b2 = b1\<lparr>papoBlocks := Some (replicate (nat (w * h)) NullCell)\<rparr>"
      have f: "InitBlockInfo e bi s = (if w < INT_MAX sdiv h \<and> VSICalloc e (w * h) then Some (True, set_band bi b2 s)
          else Some (False, set_band bi b1 s))"
        using init True bd by (auto simp: InitBlockInfo_def Let_def bd64 b1_def b2_def w_def h_def)
      have "plain_ok b2 (replicate (nat (w * h)) NullCell)" using wh by (simp add: plain_ok_def b2_def b1_def)
      then have t: "table_ok b2" using wh by (simp add: table_ok_def b2_def b1_def)
      have "slot b2 x y = None" if "in_range b2 x y" for x y
        using slot_fetch_ok [OF t _ that] by (auto simp: slot_def slot_fetch_def b2_def b1_def load_replicate split: if_splits)
      then have "fresh_table bd b2" unfolding fresh_table_def
        using t init wh by (auto simp: b2_def b1_def w_def h_def table_only_def)
      moreover have "papoBlocks b1 = None" "papoBlocks b2 \<noteq> None" "table_only bd b1" "table_only bd b2"
        using init by (simp_all add: b1_def b2_def table_only_def)
      ultimately show ?thesis using init(1) unfolding f
        by (cases "w < INT_MAX sdiv h \<and> VSICalloc e (w * h)") (use q(1) in \<open>auto simp: set_band_def\<close>)
    next
      case False
      define b1 where "b1 = bd\<lparr>nBlocksPerRow := w, nBlocksPerColumn := h, bSubBlockingActive := True,
        nSubBlocksPerRow := sw, nSubBlocksPerColumn := sh\<rparr>"
      define b2 where "b2 = b1\<lparr>papoBlocks := Some (replicate (nat (sw * sh)) NullCell)\<rparr>"
      have f: "InitBlockInfo e bi s = (if sw < INT_MAX sdiv sh \<and> VSICalloc e (sw * sh) then Some (True, set_band bi b2 s)
          else Some (False, set_band bi b1 s))"
        using init False bd by (auto simp: InitBlockInfo_def Let_def bd64 b1_def b2_def w_def h_def sw_def sh_def)
      have "sub_ok b2 (replicate (nat (sw * sh)) NullCell)" using swh
        by (auto simp: sub_ok_def b2_def b1_def load_replicate split: if_splits)
      then have t: "table_ok b2" using wh by (simp add: table_ok_def b2_def b1_def)
      have "slot b2 x y = None" if "in_range b2 x y" for x y
        by (auto simp: slot_def slot_fetch_def b2_def b1_def load_replicate split: if_splits)
      then have "fresh_table bd b2" unfolding fresh_table_def
        using t init wh by (auto simp: b2_def b1_def w_def h_def table_only_def)
      moreover have "papoBlocks b1 = None" "papoBlocks b2 \<noteq> None" "table_only bd b1" "table_only bd b2"
        using init by (simp_all add: b1_def b2_def table_only_def)
      ultimately show ?thesis using init(1) unfolding f
        by (cases "sw < INT_MAX sdiv sh \<and> VSICalloc e (sw * sh)") (use q(2) in \<open>auto simp: set_band_def\<close>)
    qed
  qed
qed

lemma slot_Some: "slot bd x y = Some b \<Longrightarrow> slot_fetch bd x y = Some (Slot (Some b)) \<and> papoBlocks bd \<noteq> None"
proof -
  assume s: "slot bd x y = Some b"
  then have "slot_fetch bd x y = Some (Slot (Some b))"
    by (auto simp: slot_def split: option.splits slot.splits)
  moreover from this have "papoBlocks bd \<noteq> None" by (cases "papoBlocks bd") (simp_all add: slot_fetch_def)
  ultimately show ?thesis by simp
qed

text \<open>The table depends on these fields only.\<close>

lemma in_range_same:
  "nBlocksPerRow bd' = nBlocksPerRow bd \<Longrightarrow> nBlocksPerColumn bd' = nBlocksPerColumn bd \<Longrightarrow> in_range bd' = in_range bd"
  by (simp add: in_range_def fun_eq_iff)

lemma slot_fetch_same:
  assumes "papoBlocks bd' = papoBlocks bd" "bSubBlockingActive bd' = bSubBlockingActive bd"
    "nBlocksPerRow bd' = nBlocksPerRow bd" "nBlocksPerColumn bd' = nBlocksPerColumn bd"
    "nSubBlocksPerRow bd' = nSubBlocksPerRow bd" "nSubBlocksPerColumn bd' = nSubBlocksPerColumn bd"
  shows "slot_fetch bd' = slot_fetch bd"
  using assms by (intro ext) (simp add: slot_fetch_def cong: if_cong)

lemma table_ok_same:
  assumes "papoBlocks bd' = papoBlocks bd" "bSubBlockingActive bd' = bSubBlockingActive bd"
    "nBlocksPerRow bd' = nBlocksPerRow bd" "nBlocksPerColumn bd' = nBlocksPerColumn bd"
    "nSubBlocksPerRow bd' = nSubBlocksPerRow bd" "nSubBlocksPerColumn bd' = nSubBlocksPerColumn bd"
  shows "table_ok bd' = table_ok bd"
  using assms by (simp add: table_ok_def sub_ok_def plain_ok_def in_range_def split: option.split)

lemma slot_store_laws:
  assumes "table_ok bd" "papoBlocks bd \<noteq> None" "in_range bd x y" "slot_fetch bd x y \<noteq> Some NoSubGrid"
    and st: "slot_store bd x y p = Some (bd\<lparr>papoBlocks := Some t\<rparr>)"
  shows "table_ok (bd\<lparr>papoBlocks := Some t\<rparr>)"
    and "in_range bd x' y' \<Longrightarrow> slot (bd\<lparr>papoBlocks := Some t\<rparr>) x' y' = (if x' = x \<and> y' = y then p else slot bd x' y')"
proof -
  obtain t' where t': "slot_store bd x y p = Some (bd\<lparr>papoBlocks := Some t'\<rparr>)" "table_ok (bd\<lparr>papoBlocks := Some t'\<rparr>)"
    "\<forall>x' y'. in_range bd x' y' \<longrightarrow> slot_fetch (bd\<lparr>papoBlocks := Some t'\<rparr>) x' y'
         = (if x' = x \<and> y' = y then Some (Slot p) else slot_fetch bd x' y')"
    using slot_store_ok [OF assms(1-4), of p] by blast
  have eq: "bd\<lparr>papoBlocks := Some t'\<rparr> = bd\<lparr>papoBlocks := Some t\<rparr>" using st t'(1) by simp
  show "table_ok (bd\<lparr>papoBlocks := Some t\<rparr>)" using t'(2) unfolding eq .
  show "slot (bd\<lparr>papoBlocks := Some t\<rparr>) x' y' = (if x' = x \<and> y' = y then p else slot bd x' y')" if "in_range bd x' y'"
    using t'(3) that unfolding eq slot_def by simp
qed

end
