(* ===== verification/Gdal_Block_Inv.thy ===== *)
theory Gdal_Block_Inv
  imports Gdal_Block_Table
begin

text \<open>
  The invariant of the block cache and the effect of every operation of \<open>Gdal_Block_Cache\<close> on the abstract
  state: the list \<open>L\<close> of blocks, newest first, the blocks \<open>P\<close> without their links, and the other variables \<open>R\<close>.
\<close>

section \<open>Effects on the abstract state\<close>

lemma lru_set:
  assumes "lru s L P R"
  shows "lru (s\<lparr>device := d\<rparr>) L P (R\<lparr>device := d\<rparr>)" "lru (s\<lparr>nCacheUsed := n\<rparr>) L P (R\<lparr>nCacheUsed := n\<rparr>)"
    "lru (s\<lparr>bands := h\<rparr>) L P (R\<lparr>bands := h\<rparr>)" "lru (s\<lparr>nCacheMax := n\<rparr>) L P (R\<lparr>nCacheMax := n\<rparr>)"
    "lru (s\<lparr>bCacheMaxInitialized := c\<rparr>) L P (R\<lparr>bCacheMaxInitialized := c\<rparr>)"
  using assms by (auto simp: lru_def lru_ok_def pay_def fun_eq_iff rest_def)

lemma lru_block: "lru s L P R \<Longrightarrow> P b = Some r \<Longrightarrow> \<exists>r'. blocks s b = Some r' \<and> payload r' = r"
  using lru_pay [of s L P R b] by auto

lemma lru_None: "lru s L P R \<Longrightarrow> P b = None \<Longrightarrow> blocks s b = None"
  using lru_pay [of s L P R b] by auto

lemma lru_free:
  assumes "lru s L P R" "b \<notin> set L"
  shows "lru (s\<lparr>blocks := (blocks s)(b := None)\<rparr>) L (P(b := None)) R"
  using assms by (auto simp: lru_def lru_ok_def pay_def fun_eq_iff rest_def)

lemma lru_alloc:
  assumes "lru s L P R" "P (newBlock R) = None" "poNext r = None" "poPrevious r = None"
  shows "lru (s\<lparr>blocks := (blocks s)(newBlock s \<mapsto> r), newBlock := newBlock s + 1\<rparr>) L (P(newBlock R \<mapsto> r))
    (R\<lparr>newBlock := newBlock R + 1\<rparr>)"
proof -
  have "newBlock s = newBlock R" "newBlock s \<notin> set L"
    using lru_rest [OF assms(1)] lru_dom [OF assms(1)] assms(2) by auto
  moreover have "payload r = r" using assms(3,4) by (cases r) (simp add: payload_def)
  ultimately show ?thesis using assms by (auto simp: lru_def lru_ok_def pay_def fun_eq_iff rest_def)
qed

text \<open>What deleting a block takes off \<open>nCacheUsed\<close>, and the result and device after writing it back.\<close>

definition freed :: "raster_block \<Rightarrow> int" where
  "freed r = (if pData r = None then 0
     else int32 (nXSize r * nYSize r * GDALGetDataTypeSize (eType r) + 7) sdiv 8)"

definition written :: "'d driver \<Rightarrow> raster_band \<Rightarrow> raster_block \<Rightarrow> bool \<Rightarrow> 'd \<Rightarrow> CPLErr \<times> 'd" where
  "written e bd r w dev =
     (if w \<and> bDirty r then
        if eFlushBlockErr bd = CE_None then IWriteBlock e dev (poBand r) (nXOff r) (nYOff r) (the (pData r))
        else (eFlushBlockErr bd, dev)
      else (CE_None, dev))"

lemma delete_block_lru:
  assumes "lru s L P R" "P b = Some r" "nLockCount r = 0"
  shows "\<exists>s'. delete_block b s = Some s' \<and> lru s' (removeAll b L) (P(b := None)) (R\<lparr>nCacheUsed := nCacheUsed R - freed r\<rparr>)"
proof -
  obtain s1 where s1: "Detach b s = Some s1" "lru s1 (removeAll b L) P R" using Detach_lru [OF assms(1)] assms(2) by auto
  obtain r' where r': "blocks s1 b = Some r'" "payload r' = r" using lru_block [OF s1(2) assms(2)] by auto
  have fr: "freed r' = freed r" "nLockCount r' = 0" using r'(2) assms(3) by (auto simp: freed_def)
  define s2 where "s2 = s1\<lparr>nCacheUsed := nCacheUsed R - freed r\<rparr>"
  have "lru s2 (removeAll b L) P (R\<lparr>nCacheUsed := nCacheUsed R - freed r\<rparr>)"
    unfolding s2_def using lru_set(2) [OF s1(2)] .
  from lru_free [OF this, of b]
  have "lru (s2\<lparr>blocks := (blocks s2)(b := None)\<rparr>) (removeAll b L) (P(b := None)) (R\<lparr>nCacheUsed := nCacheUsed R - freed r\<rparr>)"
    by simp
  moreover have "nCacheUsed s1 = nCacheUsed R" using lru_rest [OF s1(2)] by simp
  then have "delete_block b s = Some (s2\<lparr>blocks := (blocks s2)(b := None)\<rparr>)"
    using s1(1) r'(1) fr by (cases "pData r'") (auto simp: delete_block_def Let_def s2_def freed_def)
  ultimately show ?thesis by blast
qed

lemma Write_lru:
  assumes "lru s L P R" "P b = Some r" "pData r \<noteq> None" "bands R (poBand r) = Some bd" "bDirty r"
  shows "\<exists>s'. Write e b s = Some (fst (written e bd r True (device R)), s')
    \<and> lru s' L (P(b \<mapsto> r\<lparr>bDirty := False\<rparr>)) (R\<lparr>device := snd (written e bd r True (device R))\<rparr>)"
proof -
  obtain r' where r': "blocks s b = Some r'" "payload r' = r" using lru_block [OF assms(1,2)] by auto
  obtain s1 where s1: "MarkClean b s = Some s1" "lru s1 L (P(b \<mapsto> r\<lparr>bDirty := False\<rparr>)) R"
    using MarkClean_lru [OF assms(1,2)] by auto
  note rest1 = lru_rest [OF s1(2)]
  obtain d where d: "pData r = Some d" using assms(3) by auto
  have f: "bDirty r'" "poBand r' = poBand r" "nXOff r' = nXOff r" "nYOff r' = nYOff r" "pData r' = Some d"
    using r'(2) assms(5) d by auto
  show ?thesis
  proof (cases "eFlushBlockErr bd = CE_None")
    case True
    obtain err dev where w: "IWriteBlock e (device R) (poBand r) (nXOff r) (nYOff r) d = (err, dev)" by fastforce
    then show ?thesis using True r'(1) s1 rest1 f assms(4,5) d lru_set(1) [OF s1(2), of dev]
      by (simp add: Write_def written_def)
  next
    case False
    have "R\<lparr>device := device R\<rparr> = R" by simp
    then show ?thesis using False r'(1) s1 rest1 f assms(4,5) by (simp add: Write_def written_def)
  qed
qed

lemma flush_taken_lru:
  assumes "lru s L P R" "P b = Some r" "pData r \<noteq> None" "bands R (poBand r) = Some bd" "nLockCount r = 1"
  shows "\<exists>s'. flush_taken e (Some b) w s = Some (fst (written e bd r w (device R)), s')
    \<and> lru s' (removeAll b L) (P(b := None))
         (R\<lparr>nCacheUsed := nCacheUsed R - freed r, device := snd (written e bd r w (device R))\<rparr>)"
proof -
  obtain s1 where s1: "Detach b s = Some s1" "lru s1 (removeAll b L) P R" using Detach_lru [OF assms(1)] assms(2) by auto
  obtain r' where r': "blocks s1 b = Some r'" "payload r' = r" using lru_block [OF s1(2) assms(2)] by auto
  have dirty: "bDirty r' = bDirty r" using r'(2) by auto
  let ?res = "fst (written e bd r w (device R))" let ?dev = "snd (written e bd r w (device R))"
  have "\<exists>s2 c. (if w \<and> bDirty r' then Write e b s1 else Some (CE_None, s1)) = Some (?res, s2)
      \<and> lru s2 (removeAll b L) (P(b \<mapsto> r\<lparr>bDirty := c\<rparr>)) (R\<lparr>device := ?dev\<rparr>)"
  proof (cases "w \<and> bDirty r")
    case True
    then show ?thesis using Write_lru [OF s1(2) assms(2-4), of e] dirty by auto
  next
    case False
    have "r\<lparr>bDirty := bDirty r\<rparr> = r" "R\<lparr>device := device R\<rparr> = R" by simp_all
    moreover have "P(b \<mapsto> r) = P" using assms(2) by auto
    ultimately show ?thesis using False dirty s1(2) unfolding written_def by (intro exI [of _ s1] exI [of _ "bDirty r"]) auto
  qed
  then obtain s2 c where s2: "(if w \<and> bDirty r' then Write e b s1 else Some (CE_None, s1)) = Some (?res, s2)"
    "lru s2 (removeAll b L) (P(b \<mapsto> r\<lparr>bDirty := c\<rparr>)) (R\<lparr>device := ?dev\<rparr>)" by blast
  obtain r3 s3 where s3: "DropLock b s2 = Some s3" "lru s3 (removeAll b L) (P(b \<mapsto> r3)) (R\<lparr>device := ?dev\<rparr>)" "freed r3 = freed r"
    "nLockCount r3 = 0"
    using DropLock_lru [OF s2(2), of b] assms(5) by (auto simp: freed_def)
  obtain s4 where "delete_block b s3 = Some s4"
    "lru s4 (removeAll b L) (P(b := None)) (R\<lparr>device := ?dev, nCacheUsed := nCacheUsed R - freed r\<rparr>)"
    using delete_block_lru [OF s3(2), of b] s3(3,4) by auto
  moreover have "R\<lparr>device := ?dev, nCacheUsed := nCacheUsed R - freed r\<rparr> = R\<lparr>nCacheUsed := nCacheUsed R - freed r, device := ?dev\<rparr>"
    by simp
  ultimately show ?thesis using s1(1) r'(1) s2(1) s3(1) by (auto simp: flush_taken_def simp del: if_split split del: if_split)
qed

lemma FlushBlock_lru:
  assumes lru: "lru s L P R" and bd: "bands R bi = Some bd" "table_ok bd" "in_range bd x y" "slot bd x y = Some b"
    and b: "P b = Some r" "pData r \<noteq> None" "poBand r = bi" "nLockCount r = 0"
  shows "\<exists>s' t. FlushBlock e bi x y w s = Some (fst (written e bd r w (device R)), s')
    \<and> slot_store bd x y None = Some (bd\<lparr>papoBlocks := Some t\<rparr>)
    \<and> lru s' (removeAll b L) (P(b := None)) (R\<lparr>bands := (bands R)(bi \<mapsto> bd\<lparr>papoBlocks := Some t\<rparr>),
         nCacheUsed := nCacheUsed R - freed r, device := snd (written e bd r w (device R))\<rparr>)"
proof -
  have papo: "papoBlocks bd \<noteq> None" and sl: "slot_fetch bd x y = Some (Slot (Some b))"
    using slot_Some [OF bd(4)] by simp_all
  then obtain t where t: "slot_store bd x y None = Some (bd\<lparr>papoBlocks := Some t\<rparr>)"
    using slot_store_ok [OF bd(2) papo bd(3)] by fastforce
  obtain s1 where s1: "SafeLockBlock (Some b) s = Some (True, s1)"
    "lru s1 (b # removeAll b L) (P(b \<mapsto> r\<lparr>nLockCount := nLockCount r + 1\<rparr>)) R"
    using SafeLockBlock_lru [OF lru b(1)] by auto
  let ?bd = "bd\<lparr>papoBlocks := Some t\<rparr>" let ?r = "r\<lparr>nLockCount := nLockCount r + 1\<rparr>"
  have "lru (set_band bi ?bd s1) (b # removeAll b L) (P(b \<mapsto> ?r)) (R\<lparr>bands := (bands R)(bi \<mapsto> ?bd)\<rparr>)"
    using lru_set(3) [OF s1(2), of "(bands R)(bi \<mapsto> ?bd)"] lru_rest(5) [OF s1(2)] by (simp add: set_band_def)
  from flush_taken_lru [OF this, of b ?r ?bd e w] obtain s2
    where s2: "flush_taken e (Some b) w (set_band bi ?bd s1) = Some (fst (written e ?bd ?r w (device R)), s2)"
      "lru s2 (removeAll b L) (P(b := None)) (R\<lparr>bands := (bands R)(bi \<mapsto> ?bd),
         nCacheUsed := nCacheUsed R - freed ?r, device := snd (written e ?bd ?r w (device R))\<rparr>)"
    using b by auto
  have same: "freed ?r = freed r" "written e ?bd ?r w dev = written e bd r w dev" for dev
    by (simp_all add: freed_def written_def)
  have "FlushBlock e bi x y w s = flush_taken e (Some b) w (set_band bi ?bd s1)"
    using bd papo sl s1 t lru_rest(5) [OF lru] lru_rest(5) [OF s1(2)]
    by (auto simp: FlushBlock_def in_range_def)
  then show ?thesis using s2 t unfolding same by auto
qed

section \<open>The invariant\<close>

definition block_bytes :: "raster_band \<Rightarrow> int" where
  "block_bytes bd = nBlockXSize bd * nBlockYSize bd * (GDALGetDataTypeSize (eDataType bd) sdiv 8)"

text \<open>
  Bands whose blocks have less than \<open>2\<^sup>3\<^sup>1\<close> bits, so that the sizes computed by the constructor and destructor of
  blocks do not overflow, and whose table has the dimensions for the raster.
\<close>

definition band_ok :: "raster_band \<Rightarrow> bool" where
  "band_ok bd \<longleftrightarrow> 0 < nBlockXSize bd \<and> 0 < nBlockYSize bd \<and> eDataType bd \<noteq> GDT_Unknown
    \<and> nBlockXSize bd * nBlockYSize bd * GDALGetDataTypeSize (eDataType bd) + 7 < 2 ^ 31 \<and> table_ok bd
    \<and> (papoBlocks bd \<noteq> None \<longrightarrow> nBlocksPerRow bd = DIV_ROUND_UP (nRasterXSize bd) (nBlockXSize bd)
        \<and> nBlocksPerColumn bd = DIV_ROUND_UP (nRasterYSize bd) (nBlockYSize bd))"

text \<open>The blocks in \<open>F\<close> are being loaded: they are locked and not in a table yet.\<close>

definition block_ok :: "'d gdal \<Rightarrow> nat set \<Rightarrow> nat \<Rightarrow> raster_block \<Rightarrow> bool" where
  "block_ok R F b r \<longleftrightarrow> (\<exists>bd. bands R (poBand r) = Some bd \<and> papoBlocks bd \<noteq> None \<and> in_range bd (nXOff r) (nYOff r)
    \<and> eType r = eDataType bd \<and> nXSize r = nBlockXSize bd \<and> nYSize r = nBlockYSize bd
    \<and> (\<forall>d. pData r = Some d \<longrightarrow> int (length d) = block_bytes bd)
    \<and> (if b \<in> F then nLockCount r > 0
       else nLockCount r \<ge> 0 \<and> pData r \<noteq> None \<and> slot bd (nXOff r) (nYOff r) = Some b))"

definition bytes :: "raster_block option \<Rightarrow> int" where
  "bytes r = (case Option.bind r pData of None \<Rightarrow> 0 | Some d \<Rightarrow> int (length d))"

definition blocks_inv :: "(nat \<Rightarrow> raster_block option) \<Rightarrow> 'd gdal \<Rightarrow> nat set \<Rightarrow> bool" where
  "blocks_inv P R F \<longleftrightarrow> (\<forall>b r. P b = Some r \<longrightarrow> block_ok R F b r)
    \<and> (\<forall>bi bd. bands R bi = Some bd \<longrightarrow> band_ok bd)
    \<and> (\<forall>bi bd x y b. bands R bi = Some bd \<longrightarrow> in_range bd x y \<longrightarrow> slot bd x y = Some b \<longrightarrow>
         b \<notin> F \<and> (\<exists>r. P b = Some r \<and> poBand r = bi \<and> nXOff r = x \<and> nYOff r = y))
    \<and> finite (dom P) \<and> nCacheUsed R = (\<Sum>b \<in> dom P. bytes (P b))
    \<and> (\<forall>b \<ge> newBlock R. P b = None) \<and> F \<subseteq> dom P"

lemma inv_block: "blocks_inv P R F \<Longrightarrow> P b = Some r \<Longrightarrow> block_ok R F b r"
  and inv_band: "blocks_inv P R F \<Longrightarrow> bands R bi = Some bd \<Longrightarrow> band_ok bd"
  and inv_slot: "blocks_inv P R F \<Longrightarrow> bands R bi = Some bd \<Longrightarrow> in_range bd x y \<Longrightarrow> slot bd x y = Some b \<Longrightarrow>
         b \<notin> F \<and> (\<exists>r. P b = Some r \<and> poBand r = bi \<and> nXOff r = x \<and> nYOff r = y)"
  and inv_finite: "blocks_inv P R F \<Longrightarrow> finite (dom P)"
  and inv_used: "blocks_inv P R F \<Longrightarrow> nCacheUsed R = (\<Sum>b \<in> dom P. bytes (P b))"
  and inv_new: "blocks_inv P R F \<Longrightarrow> n \<ge> newBlock R \<Longrightarrow> P n = None"
  and inv_loading: "blocks_inv P R F \<Longrightarrow> F \<subseteq> dom P"
  unfolding blocks_inv_def by blast+

lemma blocks_invI:
  assumes "\<And>b r. P b = Some r \<Longrightarrow> block_ok R F b r" "\<And>bi bd. bands R bi = Some bd \<Longrightarrow> band_ok bd"
    and "\<And>bi bd x y b. bands R bi = Some bd \<Longrightarrow> in_range bd x y \<Longrightarrow> slot bd x y = Some b \<Longrightarrow>
         b \<notin> F \<and> (\<exists>r. P b = Some r \<and> poBand r = bi \<and> nXOff r = x \<and> nYOff r = y)"
    and "finite (dom P)" "nCacheUsed R = (\<Sum>b \<in> dom P. bytes (P b))" "\<And>b. b \<ge> newBlock R \<Longrightarrow> P b = None" "F \<subseteq> dom P"
  shows "blocks_inv P R F"
  using assms unfolding blocks_inv_def by blast

lemma type_size: "8 * (GDALGetDataTypeSize t sdiv 8) = GDALGetDataTypeSize t" "0 \<le> GDALGetDataTypeSize t"
  "t \<noteq> GDT_Unknown \<Longrightarrow> 0 < GDALGetDataTypeSize t sdiv 8"
  by (cases t; simp add: signed_divide_int_def)+

lemma block_bytes_pos: "band_ok bd \<Longrightarrow> 0 < block_bytes bd"
  using type_size(3) [of "eDataType bd"] by (simp add: band_ok_def block_bytes_def)

lemma block_bytes_bits: "8 * block_bytes bd = nBlockXSize bd * nBlockYSize bd * GDALGetDataTypeSize (eDataType bd)"
  using type_size(1) [of "eDataType bd"] by (simp add: block_bytes_def mult.assoc mult.left_commute)

lemma block_bytes_int32: "band_ok bd \<Longrightarrow>
    int32 (nBlockXSize bd * nBlockYSize bd * (GDALGetDataTypeSize (eDataType bd) sdiv 8)) = block_bytes bd"
  using block_bytes_pos [of bd] block_bytes_bits [of bd]
  unfolding block_bytes_def [symmetric] by (intro int32_id) (auto simp: band_ok_def)

lemma freed_bytes:
  assumes "blocks_inv P R F" "P b = Some r"
  shows "freed r = bytes (Some r)"
proof -
  obtain bd where bd: "bands R (poBand r) = Some bd" "eType r = eDataType bd" "nXSize r = nBlockXSize bd"
      "nYSize r = nBlockYSize bd" "\<forall>d. pData r = Some d \<longrightarrow> int (length d) = block_bytes bd"
    using inv_block [OF assms] unfolding block_ok_def by blast
  have ok: "band_ok bd" by (rule inv_band [OF assms(1) bd(1)])
  have "int32 (nBlockXSize bd * nBlockYSize bd * GDALGetDataTypeSize (eDataType bd) + 7) = 8 * block_bytes bd + 7"
    unfolding block_bytes_bits [symmetric] using block_bytes_pos [OF ok] block_bytes_bits [of bd] ok
    by (intro int32_id) (auto simp: band_ok_def)
  moreover have "(8 * block_bytes bd + 7) sdiv 8 = block_bytes bd"
    using block_bytes_pos [OF ok] by (simp add: signed_divide_int_def)
  ultimately show ?thesis using bd by (auto simp: freed_def bytes_def)
qed

lemma bytes_nonneg: "0 \<le> bytes r"
  by (simp add: bytes_def split: option.split)

lemma used_nonneg: "blocks_inv P R F \<Longrightarrow> 0 \<le> nCacheUsed R"
  by (simp add: inv_used bytes_nonneg sum_nonneg)

lemma sum_remove:
  assumes "finite (dom P)" "P b = Some r"
  shows "(\<Sum>c \<in> dom (P(b := None)). bytes ((P(b := None)) c)) = (\<Sum>c \<in> dom P. bytes (P c)) - bytes (Some r)"
proof -
  have "(\<Sum>c \<in> dom P. bytes (P c)) = bytes (P b) + (\<Sum>c \<in> dom P - {b}. bytes (P c))"
    using assms by (intro sum.remove) auto
  moreover have "(\<Sum>c \<in> dom P - {b}. bytes ((P(b := None)) c)) = (\<Sum>c \<in> dom P - {b}. bytes (P c))"
    by (intro sum.cong) auto
  ultimately show ?thesis using assms(2) by simp
qed

lemma sum_update:
  assumes "finite (dom P)" "P b = Some r"
  shows "(\<Sum>c \<in> dom (P(b \<mapsto> r')). bytes ((P(b \<mapsto> r')) c)) = (\<Sum>c \<in> dom P. bytes (P c)) - bytes (Some r) + bytes (Some r')"
proof -
  have d: "dom (P(b \<mapsto> r')) = dom P" using assms(2) by auto
  have "(\<Sum>c \<in> dom P. bytes (P c)) = bytes (P b) + (\<Sum>c \<in> dom P - {b}. bytes (P c))"
    using assms by (intro sum.remove) auto
  moreover have "(\<Sum>c \<in> dom P. bytes ((P(b \<mapsto> r')) c)) = bytes (Some r') + (\<Sum>c \<in> dom P - {b}. bytes ((P(b \<mapsto> r')) c))"
    using assms by (subst sum.remove [of _ b]) auto
  moreover have "(\<Sum>c \<in> dom P - {b}. bytes ((P(b \<mapsto> r')) c)) = (\<Sum>c \<in> dom P - {b}. bytes (P c))"
    by (intro sum.cong) auto
  ultimately show ?thesis using assms(2) d by simp
qed

text \<open>Replacing the table of a band: every other block keeps its place.\<close>

lemma block_ok_bands:
  assumes "block_ok R F c q" "bands R bi = Some bd" "bands R' = (bands R)(bi \<mapsto> bd')"
    and "nBlocksPerRow bd' = nBlocksPerRow bd" "nBlocksPerColumn bd' = nBlocksPerColumn bd" "table_only bd bd'"
    and "papoBlocks bd' \<noteq> None"
    and "c \<notin> F \<Longrightarrow> poBand q = bi \<Longrightarrow> slot bd (nXOff q) (nYOff q) = Some c \<Longrightarrow> slot bd' (nXOff q) (nYOff q) = Some c"
  shows "block_ok R' F c q"
proof (cases "poBand q = bi")
  case True
  then show ?thesis using assms unfolding block_ok_def in_range_def table_only_def block_bytes_def
    by (auto split: if_splits)
next
  case False
  then show ?thesis using assms unfolding block_ok_def by auto
qed

lemma bytes_same: "pData r' = pData r \<Longrightarrow> bytes (Some r') = bytes (Some r)"
  by (simp add: bytes_def)

lemma block_placed:
  assumes "blocks_inv P R F" "P b = Some r" "b \<notin> F"
  shows "\<exists>bd. bands R (poBand r) = Some bd \<and> band_ok bd \<and> papoBlocks bd \<noteq> None \<and> in_range bd (nXOff r) (nYOff r)
    \<and> slot bd (nXOff r) (nYOff r) = Some b \<and> pData r \<noteq> None"
  using inv_block [OF assms(1,2)] assms(3) inv_band [OF assms(1)] unfolding block_ok_def by auto

lemma band_ok_table:
  "band_ok bd \<Longrightarrow> papoBlocks bd \<noteq> None \<Longrightarrow> table_ok (bd\<lparr>papoBlocks := Some t\<rparr>) \<Longrightarrow> band_ok (bd\<lparr>papoBlocks := Some t\<rparr>)"
  by (simp add: band_ok_def)

lemma inv_rest:
  assumes "blocks_inv P R F" "bands R' = bands R" "nCacheUsed R' = nCacheUsed R" "newBlock R' = newBlock R"
  shows "blocks_inv P R' F"
  using assms unfolding blocks_inv_def block_ok_def by simp

text \<open>A block leaves the cache.\<close>

lemma inv_remove:
  assumes i: "blocks_inv P R F" and b: "P b = Some r" "b \<notin> F" "bands R (poBand r) = Some bd"
    and st: "slot_store bd (nXOff r) (nYOff r) None = Some (bd\<lparr>papoBlocks := Some t\<rparr>)"
  shows "blocks_inv (P(b := None)) (R\<lparr>bands := (bands R)(poBand r \<mapsto> bd\<lparr>papoBlocks := Some t\<rparr>),
    nCacheUsed := nCacheUsed R - freed r, device := d\<rparr>) F"
    (is "blocks_inv ?P ?R F")
proof -
  let ?bd = "bd\<lparr>papoBlocks := Some t\<rparr>"
  have bd: "band_ok bd" "papoBlocks bd \<noteq> None" "in_range bd (nXOff r) (nYOff r)" "slot bd (nXOff r) (nYOff r) = Some b"
    using block_placed [OF i b(1,2)] b(3) by auto
  have sl: "slot_fetch bd (nXOff r) (nYOff r) \<noteq> Some NoSubGrid" using slot_Some [OF bd(4)] by simp
  have "table_ok bd" using bd(1) by (simp add: band_ok_def)
  note slots = slot_store_laws(2) [OF this bd(2,3) sl st] and tab = slot_store_laws(1) [OF this bd(2,3) sl st]
  have band: "\<And>bi bd'. bands ?R bi = Some bd' \<Longrightarrow> band_ok bd'"
    using inv_band [OF i] band_ok_table [OF bd(1,2) tab] by (auto split: if_splits)
  have block: "block_ok ?R F c q" if c: "P c = Some q" "c \<noteq> b" for c q
  proof (rule block_ok_bands [OF inv_block [OF i c(1)] b(3)])
    show "bands ?R = (bands R)(poBand r \<mapsto> ?bd)" by simp
    assume "c \<notin> F" "poBand q = poBand r" and s: "slot bd (nXOff q) (nYOff q) = Some c"
    then have "in_range bd (nXOff q) (nYOff q)" using block_placed [OF i c(1)] b(3) by auto
    then show "slot ?bd (nXOff q) (nYOff q) = Some c" using slots s bd(4) c(2) by auto
  qed (simp_all add: table_only_def)
  have slot: "c \<notin> F \<and> (\<exists>q. ?P c = Some q \<and> poBand q = bi \<and> nXOff q = x \<and> nYOff q = y)"
    if h: "bands ?R bi = Some bd'" "in_range bd' x y" "slot bd' x y = Some c" for bi bd' x y c
  proof (cases "bi = poBand r")
    case True
    then have "?bd = bd'" using h(1) by simp
    with h(2,3) have "in_range bd x y" "slot ?bd x y = Some c" by auto
    then have "slot bd x y = Some c" "x = nXOff r \<and> y = nYOff r \<Longrightarrow> False" using slots by (auto split: if_splits)
    with inv_slot [OF i b(3) \<open>in_range bd x y\<close>] b(1) True show ?thesis by auto
  next
    case False
    then have "bands R bi = Some bd'" using h by simp
    from inv_slot [OF i this h(2,3)] b(1) False show ?thesis by auto
  qed
  have "nCacheUsed ?R = (\<Sum>c \<in> dom ?P. bytes (?P c))"
    using sum_remove [OF inv_finite [OF i] b(1)] inv_used [OF i] freed_bytes [OF i b(1)] by simp
  moreover have "finite (dom ?P)" "F \<subseteq> dom ?P" using inv_finite [OF i] inv_loading [OF i] b(2) by auto
  moreover have "\<forall>c \<ge> newBlock ?R. ?P c = None" using inv_new [OF i] by simp
  ultimately show ?thesis using band block slot unfolding blocks_inv_def by (auto split: if_splits)
qed

text \<open>A block changes, but not its place, and the size of its data stays.\<close>

definition same_place :: "raster_block \<Rightarrow> raster_block \<Rightarrow> bool" where
  "same_place r r' \<longleftrightarrow> poBand r' = poBand r \<and> nXOff r' = nXOff r \<and> nYOff r' = nYOff r \<and> eType r' = eType r
    \<and> nXSize r' = nXSize r \<and> nYSize r' = nYSize r"

lemma inv_change:
  assumes i: "blocks_inv P R F" and b: "P b = Some r" and r': "same_place r r'" "bytes (Some r') = bytes (Some r)"
    "pData r' = None \<longleftrightarrow> pData r = None" "if b \<in> F then nLockCount r' > 0 else nLockCount r' \<ge> 0"
  shows "blocks_inv (P(b \<mapsto> r')) R F"
proof -
  have "block_ok R F b r'" using inv_block [OF i b] r' unfolding block_ok_def same_place_def bytes_def
    by (auto split: if_splits)
  then have "block_ok R F c q" if "(P(b \<mapsto> r')) c = Some q" for c q
    using that inv_block [OF i] by (auto split: if_splits)
  moreover have "nCacheUsed R = (\<Sum>c \<in> dom (P(b \<mapsto> r')). bytes ((P(b \<mapsto> r')) c))"
    using sum_update [OF inv_finite [OF i] b, of r'] inv_used [OF i] r'(2) by simp
  moreover have "c \<notin> F \<and> (\<exists>q. (P(b \<mapsto> r')) c = Some q \<and> poBand q = bi \<and> nXOff q = x \<and> nYOff q = y)"
    if h: "bands R bi = Some bd'" "in_range bd' x y" "slot bd' x y = Some c" for bi bd' x y c
    using inv_slot [OF i h] b r'(1) by (auto simp: same_place_def)
  moreover have "finite (dom (P(b \<mapsto> r')))" "F \<subseteq> dom (P(b \<mapsto> r'))" using inv_finite [OF i] inv_loading [OF i] by auto
  moreover have "\<forall>c \<ge> newBlock R. (P(b \<mapsto> r')) c = None" using inv_new [OF i] b by auto
  ultimately show ?thesis using inv_band [OF i] unfolding blocks_inv_def by auto
qed

text \<open>Only the error flag or the count of reads of a band changes.\<close>

lemma inv_band_flags:
  assumes i: "blocks_inv P R F" and bd: "bands R bi = Some bd"
    and bd': "bd' = bd\<lparr>eFlushBlockErr := err\<rparr> \<or> bd' = bd\<lparr>nBlockReads := n\<rparr>"
  shows "blocks_inv P (R\<lparr>bands := (bands R)(bi \<mapsto> bd')\<rparr>) F"
    (is "blocks_inv P ?R F")
proof -
  have f: "papoBlocks bd' = papoBlocks bd" "bSubBlockingActive bd' = bSubBlockingActive bd"
    "nBlocksPerRow bd' = nBlocksPerRow bd" "nBlocksPerColumn bd' = nBlocksPerColumn bd"
    "nSubBlocksPerRow bd' = nSubBlocksPerRow bd" "nSubBlocksPerColumn bd' = nSubBlocksPerColumn bd"
    using bd' by auto
  note s = slot_fetch_same [OF f] in_range_same [OF f(3,4)] f(1) table_ok_same [OF f]
  then have sl: "slot bd' = slot bd" by (simp add: slot_def fun_eq_iff)
  have "band_ok bd'" using inv_band [OF i bd] bd' s by (auto simp: band_ok_def)
  then have "\<And>bi bd'. bands ?R bi = Some bd' \<Longrightarrow> band_ok bd'" using inv_band [OF i] by (auto split: if_splits)
  moreover have "block_ok ?R F c q" if c: "P c = Some q" for c q
    using inv_block [OF i c] bd bd' s sl unfolding block_ok_def block_bytes_def by (auto split: if_splits)
  moreover have "c \<notin> F \<and> (\<exists>q. P c = Some q \<and> poBand q = bi' \<and> nXOff q = x \<and> nYOff q = y)"
    if h: "bands ?R bi' = Some bd2" "in_range bd2 x y" "slot bd2 x y = Some c" for bi' bd2 x y c
    using h inv_slot [OF i, of bi' _ x y c] bd s sl by (auto split: if_splits)
  moreover have "nCacheUsed ?R = (\<Sum>b \<in> dom P. bytes (P b))" "\<forall>c \<ge> newBlock ?R. P c = None"
    using inv_used [OF i] inv_new [OF i] by simp_all
  ultimately show ?thesis using inv_finite [OF i] inv_loading [OF i] unfolding blocks_inv_def by blast
qed

section \<open>Eviction\<close>

text \<open>A state of the cache; every block is in the list or being loaded.\<close>

definition cache :: "'d gdal \<Rightarrow> nat list \<Rightarrow> (nat \<Rightarrow> raster_block option) \<Rightarrow> 'd gdal \<Rightarrow> nat set \<Rightarrow> bool" where
  "cache s L P R F \<longleftrightarrow> lru s L P R \<and> blocks_inv P R F \<and> dom P = set L \<union> F"

text \<open>The effect on the other variables when the block \<open>r\<close> leaves its band.\<close>

definition flushed :: "'d driver \<Rightarrow> bool \<Rightarrow> 'd gdal \<Rightarrow> raster_block \<Rightarrow> CPLErr \<Rightarrow> 'd gdal \<Rightarrow> bool" where
  "flushed e w R r err R' \<longleftrightarrow> (\<exists>bd t. bands R (poBand r) = Some bd
    \<and> slot_store bd (nXOff r) (nYOff r) None = Some (bd\<lparr>papoBlocks := Some t\<rparr>)
    \<and> err = fst (written e bd r w (device R))
    \<and> R' = R\<lparr>bands := (bands R)(poBand r \<mapsto> bd\<lparr>papoBlocks := Some t\<rparr>),
         nCacheUsed := nCacheUsed R - freed r, device := snd (written e bd r w (device R))\<rparr>)"

lemma FlushBlock_cache:
  assumes c: "lru s L P R" "blocks_inv P R F" and b: "P b = Some r" "b \<notin> F" and n: "nLockCount r = 0"
  shows "\<exists>s' R' err. FlushBlock e (poBand r) (nXOff r) (nYOff r) w s = Some (err, s') \<and> flushed e w R r err R'
    \<and> lru s' (removeAll b L) (P(b := None)) R' \<and> blocks_inv (P(b := None)) R' F"
proof -
  obtain bd where bd: "bands R (poBand r) = Some bd" "table_ok bd" "in_range bd (nXOff r) (nYOff r)"
    "slot bd (nXOff r) (nYOff r) = Some b" "pData r \<noteq> None"
    using block_placed [OF c(2) b] by (auto simp: band_ok_def)
  obtain s' t where s': "FlushBlock e (poBand r) (nXOff r) (nYOff r) w s = Some (fst (written e bd r w (device R)), s')"
    "slot_store bd (nXOff r) (nYOff r) None = Some (bd\<lparr>papoBlocks := Some t\<rparr>)"
    "lru s' (removeAll b L) (P(b := None)) (R\<lparr>bands := (bands R)(poBand r \<mapsto> bd\<lparr>papoBlocks := Some t\<rparr>),
         nCacheUsed := nCacheUsed R - freed r, device := snd (written e bd r w (device R))\<rparr>)"
    using FlushBlock_lru [OF c(1) bd(1-4) b(1) bd(5) refl n] by blast
  show ?thesis
    using s' inv_remove [OF c(2) b bd(1) s'(2)] bd(1) unfolding flushed_def by blast
qed

text \<open>Eviction records a write error in the band.\<close>

definition record_error :: "nat \<Rightarrow> CPLErr \<Rightarrow> 'd gdal \<Rightarrow> 'd gdal" where
  "record_error bi err R = (if err = CE_None then R
     else R\<lparr>bands := (bands R)(bi := map_option (eFlushBlockErr_update (\<lambda>_. err)) (bands R bi))\<rparr>)"

definition unlocked :: "(nat \<Rightarrow> raster_block option) \<Rightarrow> nat \<Rightarrow> bool" where
  "unlocked P b \<longleftrightarrow> nLockCount (the (P b)) \<le> 0"

lemma find_rev: "List.find Q (rev L) = Some b \<Longrightarrow> b \<in> set L \<and> Q b"
proof -
  assume "List.find Q (rev L) = Some b"
  then obtain i where "i < length (rev L)" "Q (rev L ! i)" "b = rev L ! i" by (auto simp: find_Some_iff)
  then show ?thesis using nth_mem [of i "rev L"] by simp
qed

lemma FlushCacheBlock_none:
  assumes "cache s L P R F" "List.find (unlocked P) (rev L) = None"
  shows "FlushCacheBlock e s = Some (False, s)"
  using assms oldest_unlocked_lru [of s L P R] by (simp add: cache_def FlushCacheBlock_def unlocked_def [abs_def])

lemma inv_record_error:
  assumes "blocks_inv P R F" "bands R bi \<noteq> None"
  shows "blocks_inv P (record_error bi err R) F"
proof -
  obtain bd where bd: "bands R bi = Some bd" using assms(2) by auto
  show ?thesis
  proof (cases "err = CE_None")
    case False
    have e: "eFlushBlockErr_update (\<lambda>_. err) bd = bd\<lparr>eFlushBlockErr := err\<rparr>" by simp
    show ?thesis using inv_band_flags [OF assms(1) bd, of "bd\<lparr>eFlushBlockErr := err\<rparr>" err 0] False bd
      by (simp add: record_error_def)
  qed (simp add: record_error_def assms(1))
qed

lemma SetFlushBlockErr_lru:
  assumes "lru s L P R" "bands R bi \<noteq> None"
  shows "\<exists>s'. (if err \<noteq> CE_None then SetFlushBlockErr bi err s else Some s) = Some s' \<and> lru s' L P (record_error bi err R)"
  using assms lru_set(3) [OF assms(1)] lru_rest(5) [OF assms(1)]
  by (auto simp: SetFlushBlockErr_def record_error_def set_band_def)

lemma flushed_band: "flushed e w R r err R' \<Longrightarrow> bands R' (poBand r) \<noteq> None"
  by (auto simp: flushed_def)

lemma FlushCacheBlock_some:
  assumes c: "cache s L P R F" and f: "List.find (unlocked P) (rev L) = Some b" and b: "P b = Some r"
  shows "\<exists>s' R' err. FlushCacheBlock e s = Some (True, s') \<and> flushed e True R r err R'
    \<and> cache s' (removeAll b L) (P(b := None)) (record_error (poBand r) err R') F"
proof -
  have lru: "lru s L P R" and i: "blocks_inv P R F" and d: "dom P = set L \<union> F" using c by (auto simp: cache_def)
  have u: "unlocked P b" "b \<in> set L" using find_rev [OF f] by simp_all
  have bF: "b \<notin> F" using inv_block [OF i b] u(1) b by (auto simp: block_ok_def unlocked_def split: if_splits)
  have n: "nLockCount r = 0" using inv_block [OF i b] u(1) b by (auto simp: block_ok_def unlocked_def split: if_splits)
  have t: "oldest_unlocked s (poOldest s) = Some (Some b)"
    using oldest_unlocked_lru [OF lru] f by (simp add: unlocked_def [abs_def])
  obtain s1 where s1: "Detach b s = Some s1" "lru s1 (removeAll b L) P R" using Detach_lru [OF lru] b by auto
  obtain r' where r': "blocks s1 b = Some r'" "payload r' = r" using lru_block [OF s1(2) b] by auto
  have pos: "poBand r' = poBand r" "nXOff r' = nXOff r" "nYOff r' = nYOff r" using r'(2) by auto
  obtain s2 R' err where s2: "FlushBlock e (poBand r) (nXOff r) (nYOff r) True s1 = Some (err, s2)"
    "flushed e True R r err R'" "lru s2 (removeAll b (removeAll b L)) (P(b := None)) R'" "blocks_inv (P(b := None)) R' F"
    using FlushBlock_cache [OF s1(2) i b bF n] by blast
  obtain s3 where s3: "(if err \<noteq> CE_None then SetFlushBlockErr (poBand r) err s2 else Some s2) = Some s3"
    "lru s3 (removeAll b L) (P(b := None)) (record_error (poBand r) err R')"
    using SetFlushBlockErr_lru [OF s2(3) flushed_band [OF s2(2)]] by fastforce
  have "FlushCacheBlock e s = Some (True, s3)"
    using t s1(1) r'(1) pos s2(1) s3(1) by (simp add: FlushCacheBlock_def split del: if_split cong: if_cong)
  moreover have "dom (P(b := None)) = set (removeAll b L) \<union> F" using d bF by auto
  ultimately show ?thesis
    using s2(2) s3(2) inv_record_error [OF s2(4) flushed_band [OF s2(2)], of err] by (auto simp: cache_def)
qed

text \<open>A sequence of evictions: always the least recently used block that is not locked.\<close>

inductive evictions ::
    "'d driver \<Rightarrow> nat list \<Rightarrow> (nat \<Rightarrow> raster_block option) \<Rightarrow> 'd gdal
     \<Rightarrow> nat list \<Rightarrow> (nat \<Rightarrow> raster_block option) \<Rightarrow> 'd gdal \<Rightarrow> bool"
  for e :: "'d driver" where
  stop: "evictions e L P R L P R"
| evict: "List.find (unlocked P) (rev L) = Some b \<Longrightarrow> P b = Some r \<Longrightarrow> flushed e True R r err R1
    \<Longrightarrow> blocks_inv (P(b := None)) (record_error (poBand r) err R1) F
    \<Longrightarrow> evictions e (removeAll b L) (P(b := None)) (record_error (poBand r) err R1) L' P' R'
    \<Longrightarrow> evictions e L P R L' P' R'"

lemma flush_loop_cache:
  assumes "cache s L P R F"
  shows "\<exists>s' L' P' R'. flush_loop e m s = Some s' \<and> cache s' L' P' R' F \<and> evictions e L P R L' P' R'
    \<and> (nCacheUsed R' \<le> m \<or> (\<forall>b \<in> set L'. \<not> unlocked P' b))"
  using assms
proof (induction "length L" arbitrary: s L P R rule: less_induct)
  case less
  have lru: "lru s L P R" and i: "blocks_inv P R F" using less.prems by (auto simp: cache_def)
  have used: "nCacheUsed s = nCacheUsed R" using lru_rest [OF lru] by simp
  show ?case
  proof (cases "nCacheUsed R \<le> m")
    case True
    then have "flush_loop e m s = Some s" using used by (subst flush_loop.simps) simp
    then show ?thesis using less.prems True evictions.stop by blast
  next
    case False
    show ?thesis
    proof (cases "List.find (unlocked P) (rev L)")
      case None
      then have "flush_loop e m s = Some s"
        using FlushCacheBlock_none [OF less.prems None, of e] by (subst flush_loop.simps) simp
      moreover have "\<forall>b \<in> set L. \<not> unlocked P b" using None by (auto simp: find_None_iff)
      ultimately show ?thesis using less.prems evictions.stop by blast
    next
      case (Some b)
      then have b: "b \<in> set L" "unlocked P b" using find_rev [OF Some] by simp_all
      then obtain r where r: "P b = Some r" using lru_dom [OF lru] by auto
      obtain s1 R1 err where s1: "FlushCacheBlock e s = Some (True, s1)" "flushed e True R r err R1"
        "cache s1 (removeAll b L) (P(b := None)) (record_error (poBand r) err R1) F"
        using FlushCacheBlock_some [OF less.prems Some r] by blast
      let ?R1 = "record_error (poBand r) err R1"
      have "nCacheUsed s1 = nCacheUsed ?R1" using s1(3) lru_rest(1) by (auto simp: cache_def)
      moreover have "nCacheUsed ?R1 = nCacheUsed R - bytes (Some r)"
        using s1(2) freed_bytes [OF i r] by (auto simp: flushed_def record_error_def)
      moreover have "0 < bytes (Some r)"
      proof -
        have "b \<notin> F" using inv_block [OF i r] b(2) r by (auto simp: block_ok_def unlocked_def split: if_splits)
        then obtain bd d where "bands R (poBand r) = Some bd" "band_ok bd" "pData r = Some d"
          using block_placed [OF i r] by auto
        with inv_block [OF i r] show ?thesis using block_bytes_pos by (auto simp: block_ok_def bytes_def)
      qed
      ultimately have "nCacheUsed s1 \<noteq> nCacheUsed s" using used by simp
      then have "flush_loop e m s = flush_loop e m s1"
        using False used s1(1) by (subst flush_loop.simps) simp
      moreover have "length (removeAll b L) < length L" using b(1) by (rule length_removeAll_less)
      from less.hyps [OF this s1(3)] obtain s' L' P' R' where
        "flush_loop e m s1 = Some s'" "cache s' L' P' R' F" "evictions e (removeAll b L) (P(b := None)) ?R1 L' P' R'"
        "nCacheUsed R' \<le> m \<or> (\<forall>b \<in> set L'. \<not> unlocked P' b)" by blast
      moreover have "blocks_inv (P(b := None)) ?R1 F" using s1(3) by (simp add: cache_def)
      ultimately show ?thesis using evictions.evict [OF Some r s1(2)] by metis
    qed
  qed
qed

lemma GDALSetCacheMax64_cache:
  assumes "cache s L P R F"
  shows "\<exists>s' L' P' R'. GDALSetCacheMax64 e n s = Some s' \<and> cache s' L' P' R' F
    \<and> evictions e L P (R\<lparr>bCacheMaxInitialized := True, nCacheMax := n\<rparr>) L' P' R'
    \<and> (nCacheUsed R' \<le> n \<or> (\<forall>b \<in> set L'. \<not> unlocked P' b))"
proof -
  let ?s = "s\<lparr>bCacheMaxInitialized := True, nCacheMax := n\<rparr>" let ?R = "R\<lparr>bCacheMaxInitialized := True, nCacheMax := n\<rparr>"
  have "lru ?s L P ?R" using lru_set(4) [OF lru_set(5)] assms by (auto simp: cache_def)
  moreover have "blocks_inv P ?R F" using assms inv_rest [of P R F ?R] by (simp add: cache_def)
  ultimately have "cache ?s L P ?R F" using assms by (simp add: cache_def)
  then show ?thesis unfolding GDALSetCacheMax64_def by (rule flush_loop_cache)
qed

section \<open>Loading a block\<close>

text \<open>\<open>InitBlockInfo\<close>: the table of a band is made, or the call fails and has only set the dimensions.\<close>

definition table_init :: "'d driver \<Rightarrow> 'd gdal \<Rightarrow> nat \<Rightarrow> raster_band \<Rightarrow> 'd gdal \<Rightarrow> bool" where
  "table_init e R bi bd' R' \<longleftrightarrow> (\<exists>bd. bands R bi = Some bd \<and> R' = R\<lparr>bands := (bands R)(bi \<mapsto> bd')\<rparr> \<and> table_only bd bd'
    \<and> (papoBlocks bd \<noteq> None \<longrightarrow> bd' = bd) \<and> (papoBlocks bd = None \<longrightarrow> papoBlocks bd' \<noteq> None \<longrightarrow> fresh_table bd bd')
    \<and> (papoBlocks bd' = None \<longrightarrow> \<not> roomy e bd))"

lemma table_initI:
  assumes "bands R bi = Some bd" "R' = R\<lparr>bands := (bands R)(bi \<mapsto> bd')\<rparr>" "table_only bd bd'"
    "papoBlocks bd \<noteq> None \<longrightarrow> bd' = bd" "papoBlocks bd = None \<longrightarrow> papoBlocks bd' \<noteq> None \<longrightarrow> fresh_table bd bd'"
    "papoBlocks bd' = None \<longrightarrow> \<not> roomy e bd"
  shows "table_init e R bi bd' R'"
  unfolding table_init_def using assms by (intro exI [of _ bd] conjI)

lemma slot_no_table: "papoBlocks bd = None \<Longrightarrow> slot bd x y = None"
  by (simp add: slot_def slot_fetch_def)

lemma inv_init:
  assumes i: "blocks_inv P R F" and t: "table_init e R bi bd' R'"
  shows "blocks_inv P R' F"
proof -
  obtain bd where bd: "bands R bi = Some bd" "R' = R\<lparr>bands := (bands R)(bi \<mapsto> bd')\<rparr>" "table_only bd bd'"
    "papoBlocks bd \<noteq> None \<Longrightarrow> bd' = bd" "papoBlocks bd = None \<Longrightarrow> papoBlocks bd' \<noteq> None \<Longrightarrow> fresh_table bd bd'"
    using t unfolding table_init_def by blast
  show ?thesis
  proof (cases "papoBlocks bd")
    case None
    have ok: "band_ok bd" by (rule inv_band [OF i bd(1)])
    have "band_ok bd'"
    proof (cases "papoBlocks bd'")
      case None
      then show ?thesis using ok bd(3) by (simp add: band_ok_def table_only_def table_ok_def)
    next
      case (Some t)
      then show ?thesis using ok bd(3) bd(5) [OF None] by (simp add: band_ok_def table_only_def fresh_table_def)
    qed
    then have b: "\<And>bi bd. bands R' bi = Some bd \<Longrightarrow> band_ok bd" using inv_band [OF i] bd(2) by (auto split: if_splits)
    have "block_ok R' F c q" if "P c = Some q" for c q
      using inv_block [OF i that] bd(1,2) None unfolding block_ok_def by auto
    moreover have "slot bd' x y = None" if "in_range bd' x y" for x y
      using bd(5) [OF None] that slot_no_table [of bd' x y] by (cases "papoBlocks bd'") (auto simp: fresh_table_def)
    then have "c \<notin> F \<and> (\<exists>q. P c = Some q \<and> poBand q = bi' \<and> nXOff q = x \<and> nYOff q = y)"
      if "bands R' bi' = Some bd2" "in_range bd2 x y" "slot bd2 x y = Some c" for bi' bd2 x y c
      using that inv_slot [OF i, of bi' bd2 x y c] bd(2) by (auto split: if_splits)
    moreover have "nCacheUsed R' = (\<Sum>b \<in> dom P. bytes (P b))" "\<forall>c \<ge> newBlock R'. P c = None"
      using inv_used [OF i] inv_new [OF i] bd(2) by simp_all
    ultimately show ?thesis using b inv_finite [OF i] inv_loading [OF i] unfolding blocks_inv_def by blast
  next
    case (Some t)
    then have "R' = R" using bd(1,2,4) by (simp add: fun_upd_idem)
    then show ?thesis using i by simp
  qed
qed

lemma InitBlockInfo_cache:
  assumes c: "cache s L P R F" and bd: "bands R bi \<noteq> None"
  shows "\<exists>s' bd' R'. InitBlockInfo e bi s = Some (papoBlocks bd' \<noteq> None, s') \<and> table_init e R bi bd' R' \<and> cache s' L P R' F"
proof -
  obtain bd where bd: "bands R bi = Some bd" using bd by auto
  have lru: "lru s L P R" and i: "blocks_inv P R F" using c by (auto simp: cache_def)
  have s: "bands s bi = Some bd" using lru_rest(5) [OF lru] bd by simp
  have tab: "table_ok bd" using inv_band [OF i bd] by (simp add: band_ok_def)
  obtain bd' where b0: "InitBlockInfo e bi s = Some (papoBlocks bd' \<noteq> None, s\<lparr>bands := (bands s)(bi \<mapsto> bd')\<rparr>)"
    "papoBlocks bd \<noteq> None \<longrightarrow> bd' = bd" "papoBlocks bd = None \<longrightarrow> papoBlocks bd' \<noteq> None \<longrightarrow> fresh_table bd bd'"
    "table_only bd bd'" "papoBlocks bd' = None \<longrightarrow> \<not> roomy e bd"
    using InitBlockInfo_cases [OF s tab, of e] by (elim exE conjE)
  have b: "InitBlockInfo e bi s = Some (papoBlocks bd' \<noteq> None, s\<lparr>bands := (bands s)(bi \<mapsto> bd')\<rparr>)"
    "table_init e R bi bd' (R\<lparr>bands := (bands R)(bi \<mapsto> bd')\<rparr>)"
    using b0(1) table_initI [OF bd refl b0(4,2,3,5)] by simp_all
  have "lru (s\<lparr>bands := (bands s)(bi \<mapsto> bd')\<rparr>) L P (R\<lparr>bands := (bands R)(bi \<mapsto> bd')\<rparr>)"
    using lru_set(3) [OF lru] lru_rest(5) [OF lru] by simp
  then have "cache (s\<lparr>bands := (bands s)(bi \<mapsto> bd')\<rparr>) L P (R\<lparr>bands := (bands R)(bi \<mapsto> bd')\<rparr>) F"
    using inv_init [OF i b(2)] c by (simp add: cache_def)
  then show ?thesis using b by blast
qed

lemma table_init_band: "table_init e R bi bd R' \<Longrightarrow> bands R' bi = Some bd"
  by (auto simp: table_init_def)

lemma table_init_idem: "bands R bi = Some bd \<Longrightarrow> papoBlocks bd \<noteq> None \<Longrightarrow> table_init e R bi bd' R' \<Longrightarrow> bd' = bd \<and> R' = R"
  by (auto simp: table_init_def fun_upd_idem)

lemma inv_in_table:
  "blocks_inv P R F \<Longrightarrow> bands R bi = Some bd \<Longrightarrow> in_range bd x y \<Longrightarrow> slot bd x y = Some b \<Longrightarrow>
    \<exists>r. P b = Some r \<and> b \<notin> F \<and> poBand r = bi \<and> nXOff r = x \<and> nYOff r = y"
  using inv_slot by blast

lemma dom_touched: "dom P = set L \<union> F \<Longrightarrow> dom (P(b \<mapsto> r)) = set (b # removeAll b L) \<union> F"
  by (simp only: dom_fun_upd option.simps if_False set_simps set_removeAll) blast

lemma SafeLockBlock_cache:
  assumes c: "cache s L P R F" and b: "P b = Some r" "b \<notin> F"
  shows "\<exists>s'. SafeLockBlock (Some b) s = Some (True, s')
    \<and> cache s' (b # removeAll b L) (P(b \<mapsto> r\<lparr>nLockCount := nLockCount r + 1\<rparr>)) R F"
proof -
  have lru: "lru s L P R" and i: "blocks_inv P R F" and d: "dom P = set L \<union> F" using c by (auto simp: cache_def)
  let ?r = "r\<lparr>nLockCount := nLockCount r + 1\<rparr>"
  have "0 \<le> nLockCount r" using inv_block [OF i b(1)] b(2) by (auto simp: block_ok_def)
  then have "blocks_inv (P(b \<mapsto> ?r)) R F"
    using b(2) by (intro inv_change [OF i b(1)]) (simp_all add: same_place_def bytes_def)
  moreover have "dom (P(b \<mapsto> ?r)) = set (b # removeAll b L) \<union> F" by (rule dom_touched [OF d])
  ultimately show ?thesis using SafeLockBlock_lru [OF lru b(1)] by (auto simp: cache_def)
qed

text \<open>The result of \<open>TryGetLockedBlockRef\<close> for a block that is in the table.\<close>

definition wanted :: "raster_band \<Rightarrow> int \<Rightarrow> int \<Rightarrow> nat option" where
  "wanted bd x y = (if papoBlocks bd \<noteq> None \<and> in_range bd x y then slot bd x y else None)"

lemma TryGet_miss:
  assumes c: "cache s L P R F" and bd: "bands R bi \<noteq> None"
  shows "\<exists>s' bd' R'. table_init e R bi bd' R' \<and>
    (case wanted bd' x y of
       None \<Rightarrow> TryGetLockedBlockRef e bi x y s = Some (None, s') \<and> cache s' L P R' F
     | Some b \<Rightarrow> \<exists>r. P b = Some r \<and> b \<notin> F \<and> TryGetLockedBlockRef e bi x y s = Some (Some b, s')
         \<and> cache s' (b # removeAll b L) (P(b \<mapsto> r\<lparr>nLockCount := nLockCount r + 1\<rparr>)) R' F)"
proof -
  obtain s1 bd' R' where s1: "InitBlockInfo e bi s = Some (papoBlocks bd' \<noteq> None, s1)" "table_init e R bi bd' R'"
    "cache s1 L P R' F"
    using InitBlockInfo_cache [OF c bd] by blast
  have lru: "lru s1 L P R'" and i: "blocks_inv P R' F" using s1(3) by (auto simp: cache_def)
  have b: "bands R' bi = Some bd'" "bands s1 bi = Some bd'"
    using table_init_band [OF s1(2)] lru_rest(5) [OF lru] by auto
  have tab: "table_ok bd'" using inv_band [OF i b(1)] by (simp add: band_ok_def)
  show ?thesis
  proof (cases "papoBlocks bd' \<noteq> None \<and> in_range bd' x y")
    case True
    then have r: "\<not> (x < 0 \<or> x \<ge> nBlocksPerRow bd')" "\<not> (y < 0 \<or> y \<ge> nBlocksPerColumn bd')"
      by (auto simp: in_range_def)
    show ?thesis
    proof (cases "slot bd' x y")
      case None
      then have "slot_fetch bd' x y = Some NoSubGrid \<or> slot_fetch bd' x y = Some (Slot None)"
        using slot_fetch_ok [OF tab, of x y] True by metis
      then have "TryGetLockedBlockRef e bi x y s = Some (None, s1)"
        using s1(1) b True r by (auto simp: TryGetLockedBlockRef_def SafeLockBlock_def)
      then show ?thesis using s1(2,3) None
        by (intro exI [of _ s1] exI [of _ bd'] exI [of _ R']) (simp add: wanted_def)
    next
      case (Some c)
      obtain r where pr: "P c = Some r" "c \<notin> F" using inv_in_table [OF i b(1) _ Some] True by blast
      obtain s2 where s2: "SafeLockBlock (Some c) s1 = Some (True, s2)"
        "cache s2 (c # removeAll c L) (P(c \<mapsto> r\<lparr>nLockCount := nLockCount r + 1\<rparr>)) R' F"
        using SafeLockBlock_cache [OF s1(3) pr] by blast
      have "TryGetLockedBlockRef e bi x y s = Some (Some c, s2)"
        using s1(1) b True r slot_Some [OF Some] s2(1) by (auto simp: TryGetLockedBlockRef_def)
      then show ?thesis using s1(2) s2(2) pr Some True
        by (intro exI [of _ s2] exI [of _ bd'] exI [of _ R']) (simp add: wanted_def)
    qed
  next
    case False
    then have "TryGetLockedBlockRef e bi x y s = Some (None, s1)"
      using s1(1) b by (auto simp: TryGetLockedBlockRef_def in_range_def)
    then have "wanted bd' x y = None" using False by (auto simp: wanted_def)
    then show ?thesis using s1(2,3) \<open>TryGetLockedBlockRef e bi x y s = _\<close>
      by (intro exI [of _ s1] exI [of _ bd'] exI [of _ R']) simp
  qed
qed

lemma block_ok_same: "block_ok R F c q \<Longrightarrow> bands R' = bands R \<Longrightarrow> (c \<in> F' \<longleftrightarrow> c \<in> F) \<Longrightarrow> block_ok R' F' c q"
  by (simp add: block_ok_def)

text \<open>The block that is being loaded.\<close>

definition loading :: "raster_band \<Rightarrow> nat \<Rightarrow> int \<Rightarrow> int \<Rightarrow> int \<Rightarrow> byte list option \<Rightarrow> raster_block" where
  "loading bd bi x y n d = \<lparr>eType = eDataType bd, bDirty = False, nLockCount = n, nXOff = x, nYOff = y,
     nXSize = nBlockXSize bd, nYSize = nBlockYSize bd, pData = d, poBand = bi, poNext = None, poPrevious = None\<rparr>"

lemma inv_alloc:
  assumes i: "blocks_inv P R {}" and bd: "bands R bi = Some bd" "papoBlocks bd \<noteq> None" "in_range bd x y" and n: "0 < n"
  shows "blocks_inv (P(newBlock R \<mapsto> loading bd bi x y n None)) (R\<lparr>newBlock := newBlock R + 1\<rparr>) {newBlock R}"
    (is "blocks_inv ?P ?R ?F")
proof (rule blocks_invI)
  let ?b = "newBlock R"
  have new: "P ?b = None" using inv_new [OF i] by simp
  show "block_ok ?R ?F c q" if "?P c = Some q" for c q
  proof (cases "c = ?b")
    case True
    then have "q = loading bd bi x y n None" using that by simp
    then show ?thesis using bd n True by (simp add: block_ok_def loading_def)
  next
    case False
    then have "block_ok R {} c q" using that inv_block [OF i] by simp
    then show ?thesis using False by (auto simp: block_ok_def)
  qed
  show "band_ok bd'" if "bands ?R bi = Some bd'" for bi bd' using that inv_band [OF i] by simp
  show "c \<notin> ?F \<and> (\<exists>q. ?P c = Some q \<and> poBand q = bi' \<and> nXOff q = x' \<and> nYOff q = y')"
    if h: "bands ?R bi' = Some bd2" "in_range bd2 x' y'" "slot bd2 x' y' = Some c" for bi' bd2 x' y' c
  proof -
    obtain q where "P c = Some q" "poBand q = bi'" "nXOff q = x'" "nYOff q = y'"
      using inv_slot [OF i _ h(2,3)] h(1) by auto
    moreover from this new have "c \<noteq> ?b" by auto
    ultimately show ?thesis by simp
  qed
  show "nCacheUsed ?R = (\<Sum>c \<in> dom ?P. bytes (?P c))"
  proof -
    have "(\<Sum>c \<in> dom P. bytes (?P c)) = (\<Sum>c \<in> dom P. bytes (P c))" using new by (intro sum.cong) auto
    moreover have "bytes (Some (loading bd bi x y n None)) = 0" by (simp add: bytes_def loading_def)
    moreover have "(\<Sum>c \<in> insert ?b (dom P). bytes (?P c)) = bytes (?P ?b) + (\<Sum>c \<in> dom P. bytes (?P c))"
      using inv_finite [OF i] new by (intro sum.insert) auto
    ultimately show ?thesis using inv_used [OF i] by simp
  qed
  show "?P c = None" if "c \<ge> newBlock ?R" for c using inv_new [OF i] that by simp
qed (use inv_finite [OF i] in simp_all)

lemma inv_internalize:
  assumes i: "blocks_inv P R F" and b: "b \<in> F" "P b = Some (loading bd bi x y n None)"
    and bd: "bands R bi = Some bd" "int (length d) = block_bytes bd" and m: "0 < m"
  shows "blocks_inv (P(b \<mapsto> loading bd bi x y m (Some d))) (R\<lparr>nCacheUsed := nCacheUsed R + block_bytes bd\<rparr>) F"
    (is "blocks_inv ?P ?R F")
proof (rule blocks_invI)
  let ?r = "loading bd bi x y m (Some d)"
  show "block_ok ?R F c q" if "?P c = Some q" for c q
  proof (cases "c = b")
    case True
    then have "q = ?r" using that by simp
    moreover have "block_ok R F b ?r" using inv_block [OF i b(2)] bd m b(1) unfolding block_ok_def loading_def by simp
    ultimately show ?thesis using True by (auto intro: block_ok_same)
  next
    case False
    then have "block_ok R F c q" using that inv_block [OF i] by simp
    then show ?thesis by (rule block_ok_same) simp_all
  qed
  show "band_ok bd'" if "bands ?R bi = Some bd'" for bi bd' using that inv_band [OF i] by simp
  show "c \<notin> F \<and> (\<exists>q. ?P c = Some q \<and> poBand q = bi' \<and> nXOff q = x' \<and> nYOff q = y')"
    if h: "bands ?R bi' = Some bd2" "in_range bd2 x' y'" "slot bd2 x' y' = Some c" for bi' bd2 x' y' c
  proof -
    have "c \<notin> F \<and> (\<exists>q. P c = Some q \<and> poBand q = bi' \<and> nXOff q = x' \<and> nYOff q = y')"
      using inv_slot [OF i _ h(2,3)] h(1) by simp
    moreover from this b(1) have "c \<noteq> b" by auto
    ultimately show ?thesis by simp
  qed
  show "nCacheUsed ?R = (\<Sum>c \<in> dom ?P. bytes (?P c))"
    using sum_update [OF inv_finite [OF i] b(2)] inv_used [OF i] bd(2) by (simp add: bytes_def loading_def)
  show "?P c = None" if "c \<ge> newBlock ?R" for c using inv_new [OF i, of c] b(2) that by auto
  show "F \<subseteq> dom ?P" using inv_loading [OF i] by auto
qed (use inv_finite [OF i] in simp)

text \<open>A block that is being loaded is freed again.\<close>

lemma inv_free:
  assumes i: "blocks_inv P R F" and b: "b \<in> F" "P b = Some r"
  shows "blocks_inv (P(b := None)) (R\<lparr>nCacheUsed := nCacheUsed R - freed r\<rparr>) (F - {b})"
    (is "blocks_inv ?P ?R ?F")
proof (rule blocks_invI)
  show "block_ok ?R ?F c q" if "?P c = Some q" for c q
  proof -
    have c: "c \<noteq> b" "P c = Some q" using that by (auto split: if_splits)
    show ?thesis using c(1) by (intro block_ok_same [OF inv_block [OF i c(2)]]) simp_all
  qed
  show "band_ok bd'" if "bands ?R bi = Some bd'" for bi bd' using that inv_band [OF i] by simp
  show "c \<notin> ?F \<and> (\<exists>q. ?P c = Some q \<and> poBand q = bi' \<and> nXOff q = x' \<and> nYOff q = y')"
    if h: "bands ?R bi' = Some bd2" "in_range bd2 x' y'" "slot bd2 x' y' = Some c" for bi' bd2 x' y' c
  proof -
    have "c \<notin> F \<and> (\<exists>q. P c = Some q \<and> poBand q = bi' \<and> nXOff q = x' \<and> nYOff q = y')"
      using inv_slot [OF i _ h(2,3)] h(1) by simp
    moreover from this b(1) have "c \<noteq> b" by auto
    ultimately show ?thesis by simp
  qed
  show "nCacheUsed ?R = (\<Sum>c \<in> dom ?P. bytes (?P c))"
    using sum_remove [OF inv_finite [OF i] b(2)] inv_used [OF i] freed_bytes [OF i b(2)] by simp
  show "?P c = None" if "c \<ge> newBlock ?R" for c using inv_new [OF i, of c] that by simp
  show "?F \<subseteq> dom ?P" using inv_loading [OF i] by auto
qed (use inv_finite [OF i] in simp)

text \<open>A new table of a band, with the block \<open>b\<close> at one position and otherwise the same blocks.\<close>

lemma inv_place:
  assumes i: "blocks_inv P R F" and bd: "bands R bi = Some bd" "papoBlocks bd \<noteq> None"
    and t: "table_ok (bd\<lparr>papoBlocks := Some t\<rparr>)"
    and r: "P b = Some r" "poBand r = bi" "nXOff r = x" "nYOff r = y" "pData r \<noteq> None" "b \<in> F" "in_range bd x y"
      "slot bd x y = None"
    and sl: "\<And>x' y'. in_range bd x' y' \<Longrightarrow> slot (bd\<lparr>papoBlocks := Some t\<rparr>) x' y' = (if x' = x \<and> y' = y then Some b else slot bd x' y')"
  shows "blocks_inv P (R\<lparr>bands := (bands R)(bi \<mapsto> bd\<lparr>papoBlocks := Some t\<rparr>)\<rparr>) (F - {b})"
    (is "blocks_inv P ?R ?F")
proof -
  let ?bd = "bd\<lparr>papoBlocks := Some t\<rparr>"
  have band: "\<And>bi bd'. bands ?R bi = Some bd' \<Longrightarrow> band_ok bd'"
    using inv_band [OF i] band_ok_table [OF inv_band [OF i bd(1)] bd(2) t] by (auto split: if_splits)
  have "block_ok ?R ?F c q" if c: "P c = Some q" for c q
  proof -
    have "block_ok ?R F c q"
    proof (rule block_ok_bands [OF inv_block [OF i c] bd(1)])
      show "bands ?R = (bands R)(bi \<mapsto> ?bd)" by simp
      assume cF: "c \<notin> F" and q: "poBand q = bi" "slot bd (nXOff q) (nYOff q) = Some c"
      have "in_range bd (nXOff q) (nYOff q)" using block_placed [OF i c cF] q(1) bd(1) by auto
      then show "slot ?bd (nXOff q) (nYOff q) = Some c" using sl q(2) r(8) by auto
    qed (simp_all add: table_only_def)
    moreover have "slot ?bd x y = Some b" using sl [OF r(7)] by simp
    ultimately show ?thesis using r c by (cases "c = b") (auto simp: block_ok_def)
  qed
  moreover have "c \<notin> ?F \<and> (\<exists>q. P c = Some q \<and> poBand q = bi' \<and> nXOff q = x' \<and> nYOff q = y')"
    if h: "bands ?R bi' = Some bd2" "in_range bd2 x' y'" "slot bd2 x' y' = Some c" for bi' bd2 x' y' c
  proof (cases "bi' = bi")
    case True
    then have "?bd = bd2" using h(1) by simp
    with h(2,3) have s: "in_range bd x' y'" "slot ?bd x' y' = Some c" by auto
    show ?thesis
    proof (cases "x' = x \<and> y' = y")
      case True
      then have "c = b" using sl [OF s(1)] s(2) by simp
      then show ?thesis using r True \<open>bi' = bi\<close> by simp
    next
      case False
      have "slot bd x' y' = Some c" using s(2) unfolding sl [OF s(1)] if_not_P [OF False] .
      with inv_slot [OF i bd(1) s(1)] True show ?thesis by blast
    qed
  next
    case False
    then have "bands R bi' = Some bd2" using h by simp
    from inv_slot [OF i this h(2,3)] show ?thesis by blast
  qed
  moreover have "nCacheUsed ?R = (\<Sum>b \<in> dom P. bytes (P b))" "\<forall>c \<ge> newBlock ?R. P c = None"
    using inv_used [OF i] inv_new [OF i] by simp_all
  ultimately show ?thesis using band inv_finite [OF i] inv_loading [OF i] unfolding blocks_inv_def by blast
qed

text \<open>A new table of a band with the same blocks.\<close>

lemma inv_same_slots:
  assumes i: "blocks_inv P R F" and bd: "bands R bi = Some bd" "papoBlocks bd \<noteq> None"
    and t: "table_ok (bd\<lparr>papoBlocks := Some t\<rparr>)"
    and sl: "\<And>x' y'. in_range bd x' y' \<Longrightarrow> slot (bd\<lparr>papoBlocks := Some t\<rparr>) x' y' = slot bd x' y'"
  shows "blocks_inv P (R\<lparr>bands := (bands R)(bi \<mapsto> bd\<lparr>papoBlocks := Some t\<rparr>)\<rparr>) F"
    (is "blocks_inv P ?R F")
proof -
  let ?bd = "bd\<lparr>papoBlocks := Some t\<rparr>"
  have band: "\<And>bi bd'. bands ?R bi = Some bd' \<Longrightarrow> band_ok bd'"
    using inv_band [OF i] band_ok_table [OF inv_band [OF i bd(1)] bd(2) t] by (auto split: if_splits)
  have "block_ok ?R F c q" if c: "P c = Some q" for c q
  proof (rule block_ok_bands [OF inv_block [OF i c] bd(1)])
    show "bands ?R = (bands R)(bi \<mapsto> ?bd)" by simp
    assume cF: "c \<notin> F" and q: "poBand q = bi" "slot bd (nXOff q) (nYOff q) = Some c"
    have "in_range bd (nXOff q) (nYOff q)" using block_placed [OF i c cF] q(1) bd(1) by auto
    then show "slot ?bd (nXOff q) (nYOff q) = Some c" using sl q(2) by simp
  qed (simp_all add: table_only_def)
  moreover have "c \<notin> F \<and> (\<exists>q. P c = Some q \<and> poBand q = bi' \<and> nXOff q = x' \<and> nYOff q = y')"
    if h: "bands ?R bi' = Some bd2" "in_range bd2 x' y'" "slot bd2 x' y' = Some c" for bi' bd2 x' y' c
  proof (cases "bi' = bi")
    case True
    then have "?bd = bd2" using h(1) by simp
    with h(2,3) have s: "in_range bd x' y'" "slot bd x' y' = Some c" using sl by auto
    from inv_slot [OF i bd(1) s] True show ?thesis by simp
  next
    case False
    then have "bands R bi' = Some bd2" using h by simp
    from inv_slot [OF i this h(2,3)] show ?thesis by blast
  qed
  moreover have "nCacheUsed ?R = (\<Sum>b \<in> dom P. bytes (P b))" "\<forall>c \<ge> newBlock ?R. P c = None"
    using inv_used [OF i] inv_new [OF i] by simp_all
  ultimately show ?thesis using band inv_finite [OF i] inv_loading [OF i] unfolding blocks_inv_def by blast
qed

section \<open>What evictions keep\<close>

text \<open>A band whose table has lost blocks, and may have an error recorded.\<close>

definition shrunk :: "raster_band \<Rightarrow> raster_band \<Rightarrow> bool" where
  "shrunk bd bd' \<longleftrightarrow> (\<exists>err. bd' = bd\<lparr>papoBlocks := papoBlocks bd', eFlushBlockErr := err\<rparr>)
    \<and> (papoBlocks bd' = None \<longleftrightarrow> papoBlocks bd = None)
    \<and> (\<forall>x y. in_range bd x y \<longrightarrow> slot bd' x y = None \<or> slot bd' x y = slot bd x y)"

lemma shrunk_dims:
  assumes "shrunk bd bd'"
  shows "in_range bd' = in_range bd" "nBlockXSize bd' = nBlockXSize bd" "nBlockYSize bd' = nBlockYSize bd"
    "eDataType bd' = eDataType bd" "block_bytes bd' = block_bytes bd" "nBlocksPerRow bd' = nBlocksPerRow bd"
    "nBlocksPerColumn bd' = nBlocksPerColumn bd" "eAccess bd' = eAccess bd" "nBlockReads bd' = nBlockReads bd"
    "nRasterXSize bd' = nRasterXSize bd" "nRasterYSize bd' = nRasterYSize bd"
proof -
  obtain err where e: "bd' = bd\<lparr>papoBlocks := papoBlocks bd', eFlushBlockErr := err\<rparr>" using assms unfolding shrunk_def by blast
  show "in_range bd' = in_range bd" "nBlockXSize bd' = nBlockXSize bd" "nBlockYSize bd' = nBlockYSize bd"
    "eDataType bd' = eDataType bd" "block_bytes bd' = block_bytes bd" "nBlocksPerRow bd' = nBlocksPerRow bd"
    "nBlocksPerColumn bd' = nBlocksPerColumn bd" "eAccess bd' = eAccess bd" "nBlockReads bd' = nBlockReads bd"
    "nRasterXSize bd' = nRasterXSize bd" "nRasterYSize bd' = nRasterYSize bd"
    by (subst e, simp add: in_range_def fun_eq_iff block_bytes_def)+
qed

lemma shrunk_refl: "shrunk bd bd"
  by (auto simp: shrunk_def intro: exI [of _ "eFlushBlockErr bd"])

lemma shrunk_trans:
  assumes "shrunk a b" "shrunk b c"
  shows "shrunk a c"
proof -
  obtain ea eb where "b = a\<lparr>papoBlocks := papoBlocks b, eFlushBlockErr := ea\<rparr>" "c = b\<lparr>papoBlocks := papoBlocks c, eFlushBlockErr := eb\<rparr>"
    using assms unfolding shrunk_def by blast
  then have "c = a\<lparr>papoBlocks := papoBlocks c, eFlushBlockErr := eb\<rparr>" by (cases a, cases b, cases c) auto
  moreover have "slot c x y = None \<or> slot c x y = slot a x y" if "in_range a x y" for x y
  proof -
    have "in_range b x y" using shrunk_dims(1) [OF assms(1)] that by simp
    then show ?thesis using assms that unfolding shrunk_def by metis
  qed
  moreover have "papoBlocks c = None \<longleftrightarrow> papoBlocks a = None" using assms by (simp add: shrunk_def)
  ultimately show ?thesis unfolding shrunk_def by (intro conjI exI [of _ eb]) simp_all
qed

definition all_shrunk :: "'d gdal \<Rightarrow> 'd gdal \<Rightarrow> bool" where
  "all_shrunk R R' \<longleftrightarrow> (\<forall>bi. case bands R bi of None \<Rightarrow> bands R' bi = None
     | Some bd \<Rightarrow> \<exists>bd'. bands R' bi = Some bd' \<and> shrunk bd bd')"

lemma all_shrunkD: "all_shrunk R R' \<Longrightarrow> bands R bi = Some bd \<Longrightarrow> \<exists>bd'. bands R' bi = Some bd' \<and> shrunk bd bd'"
  unfolding all_shrunk_def by (drule spec [of _ bi]) simp

lemma all_shrunk_trans: "all_shrunk A B \<Longrightarrow> all_shrunk B C \<Longrightarrow> all_shrunk A C"
proof (unfold all_shrunk_def, intro allI)
  fix bi
  assume "\<forall>bi. case bands A bi of None \<Rightarrow> bands B bi = None | Some bd \<Rightarrow> \<exists>bd'. bands B bi = Some bd' \<and> shrunk bd bd'"
    "\<forall>bi. case bands B bi of None \<Rightarrow> bands C bi = None | Some bd \<Rightarrow> \<exists>bd'. bands C bi = Some bd' \<and> shrunk bd bd'"
  from this [THEN spec, of bi]
  show "case bands A bi of None \<Rightarrow> bands C bi = None | Some bd \<Rightarrow> \<exists>bd'. bands C bi = Some bd' \<and> shrunk bd bd'"
    by (cases "bands A bi") (simp, clarsimp, erule shrunk_trans, assumption)
qed

lemma flushed_shrunk:
  assumes i: "blocks_inv P R F" and b: "P b = Some r" "b \<notin> F" and f: "flushed e w R r err R1"
  shows "all_shrunk R (record_error (poBand r) err' R1)"
proof -
  obtain bd t where bd: "bands R (poBand r) = Some bd" "slot_store bd (nXOff r) (nYOff r) None = Some (bd\<lparr>papoBlocks := Some t\<rparr>)"
    "bands R1 = (bands R)(poBand r \<mapsto> bd\<lparr>papoBlocks := Some t\<rparr>)"
    using f unfolding flushed_def by auto
  have p: "band_ok bd" "papoBlocks bd \<noteq> None" "in_range bd (nXOff r) (nYOff r)" "slot bd (nXOff r) (nYOff r) = Some b"
    using block_placed [OF i b] bd(1) by auto
  have tab: "table_ok bd" using p(1) by (simp add: band_ok_def)
  have sl: "slot_fetch bd (nXOff r) (nYOff r) \<noteq> Some NoSubGrid" using slot_Some [OF p(4)] by simp
  define bd' where "bd' = bd\<lparr>papoBlocks := Some t, eFlushBlockErr := if err' = CE_None then eFlushBlockErr bd else err'\<rparr>"
  have "slot bd' = slot (bd\<lparr>papoBlocks := Some t\<rparr>)"
    using slot_fetch_same [of bd' "bd\<lparr>papoBlocks := Some t\<rparr>"] by (simp add: bd'_def slot_def fun_eq_iff)
  then have "slot bd' x y = None \<or> slot bd' x y = slot bd x y" if "in_range bd x y" for x y
    using slot_store_laws(2) [OF tab p(2,3) sl bd(2) that] by auto
  then have s: "shrunk bd bd'" using p(2) unfolding shrunk_def
    by (intro conjI exI [of _ "if err' = CE_None then eFlushBlockErr bd else err'"]) (simp_all add: bd'_def)
  have "bands (record_error (poBand r) err' R1) = (bands R)(poBand r \<mapsto> bd')"
    using bd(3) by (auto simp: record_error_def bd'_def)
  then show ?thesis using s bd(1) shrunk_refl by (auto simp: all_shrunk_def split: option.splits)
qed

lemma unlocked_not_loading: "blocks_inv P R F \<Longrightarrow> P b = Some r \<Longrightarrow> unlocked P b \<Longrightarrow> b \<notin> F"
  using inv_block [of P R F b r] by (auto simp: block_ok_def unlocked_def split: if_splits)

lemma evictions_keep:
  "evictions e L P R L' P' R' \<Longrightarrow> blocks_inv P R F \<Longrightarrow>
    all_shrunk R R' \<and> newBlock R' = newBlock R \<and> nCacheMax R' = nCacheMax R \<and> bCacheMaxInitialized R' = bCacheMaxInitialized R
    \<and> (\<exists>X. L' = filter (\<lambda>c. c \<notin> X) L \<and> P' = P |` (- X) \<and> (\<forall>c \<in> X. unlocked P c \<and> c \<in> set L))"
proof (induction arbitrary: F rule: evictions.induct)
  case (stop L P R)
  show ?case using shrunk_refl by (auto simp: all_shrunk_def split: option.splits intro!: exI [of _ "{}"])
next
  case (evict P L b r R err R1 F1 L' P' R')
  have u: "unlocked P b" "b \<in> set L" using find_rev [OF evict.hyps(1)] by simp_all
  have bF: "b \<notin> F" using unlocked_not_loading [OF evict.prems evict.hyps(2) u(1)] .
  let ?R1 = "record_error (poBand r) err R1"
  have s: "all_shrunk R ?R1" by (rule flushed_shrunk [OF evict.prems evict.hyps(2) bF evict.hyps(3)])
  have f: "newBlock ?R1 = newBlock R" "nCacheMax ?R1 = nCacheMax R" "bCacheMaxInitialized ?R1 = bCacheMaxInitialized R"
    using evict.hyps(3) by (auto simp: flushed_def record_error_def)
  from evict.IH [OF evict.hyps(4)] obtain X where X: "L' = filter (\<lambda>c. c \<notin> X) (removeAll b L)"
    "P' = P(b := None) |` (- X)" "\<forall>c \<in> X. unlocked (P(b := None)) c \<and> c \<in> set (removeAll b L)"
    and t: "all_shrunk ?R1 R'" and f': "newBlock R' = newBlock ?R1" "nCacheMax R' = nCacheMax ?R1"
      "bCacheMaxInitialized R' = bCacheMaxInitialized ?R1" by blast
  have "L' = filter (\<lambda>c. c \<notin> insert b X) L" unfolding X(1) removeAll_filter_not_eq filter_filter
    by (intro filter_cong) auto
  moreover have "P' = P |` (- insert b X)" unfolding X(2) by (auto simp: restrict_map_def fun_eq_iff)
  moreover have "\<forall>c \<in> insert b X. unlocked P c \<and> c \<in> set L" using X(3) u by (auto simp: unlocked_def)
  ultimately have "\<exists>X. L' = filter (\<lambda>c. c \<notin> X) L \<and> P' = P |` (- X) \<and> (\<forall>c \<in> X. unlocked P c \<and> c \<in> set L)" by blast
  then show ?case using all_shrunk_trans [OF s t] f f' by simp
qed

end
