(* ===== verification/Gdal_Block_Load.thy ===== *)
theory Gdal_Block_Load
  imports Gdal_Block_Inv
begin

text \<open>
  \<^verbatim>\<open>GetLockedBlockRef\<close>: every outcome of loading a block, as an inductive predicate on the abstract state, and
  the proof that the code reaches one of them, without an access outside an array or to a freed block.
\<close>

section \<open>Making room\<close>

text \<open>What is assumed of the allocator and the driver: they respect the sizes of buffers.\<close>

definition driver_ok :: "'d driver \<Rightarrow> bool" where
  "driver_ok e \<longleftrightarrow> (\<forall>n d. VSIMalloc e n = Some d \<longrightarrow> int (length d) = n)
    \<and> (\<forall>dev bi x y d. length (fst (snd (IReadBlock e dev bi x y d))) = length d)"

lemma GDALGetCacheMax64_lru:
  assumes "lru s L P R"
  shows "fst (GDALGetCacheMax64 e s) = fst (GDALGetCacheMax64 e R)"
    and "lru (snd (GDALGetCacheMax64 e s)) L P (snd (GDALGetCacheMax64 e R))"
  using lru_rest [OF assms] lru_set(4,5) [OF assms] lru_set(4) [OF lru_set(5) [OF assms]] assms
  by (simp_all add: GDALGetCacheMax64_def Let_def split: option.splits)

lemma GDALGetCacheMax64_rest:
  "bands (snd (GDALGetCacheMax64 e R)) = bands R" "nCacheUsed (snd (GDALGetCacheMax64 e R)) = nCacheUsed R"
  "newBlock (snd (GDALGetCacheMax64 e R)) = newBlock R" "device (snd (GDALGetCacheMax64 e R)) = device R"
  "nCacheMax (snd (GDALGetCacheMax64 e R)) = fst (GDALGetCacheMax64 e R)"
  by (simp_all add: GDALGetCacheMax64_def Let_def split: option.splits)

lemma GDALGetCacheMax64_cache:
  assumes "cache s L P R F"
  shows "cache (snd (GDALGetCacheMax64 e s)) L P (snd (GDALGetCacheMax64 e R)) F"
proof -
  have "lru s L P R" using assms by (simp add: cache_def)
  from GDALGetCacheMax64_lru(2) [OF this, of e] assms show ?thesis
    using inv_rest [of P R F "snd (GDALGetCacheMax64 e R)"] by (simp add: cache_def GDALGetCacheMax64_rest)
qed

text \<open>
  The evictions while the block \<open>b\<close> is loaded: \<open>R1\<close> is the state before, \<open>Rv\<close> after them. The cache is within its
  limit afterwards, or nothing but locked blocks are left.
\<close>

definition make_room ::
    "'d driver \<Rightarrow> nat \<Rightarrow> int \<Rightarrow> int \<Rightarrow> raster_band \<Rightarrow> nat list \<Rightarrow> (nat \<Rightarrow> raster_block option) \<Rightarrow> 'd gdal \<Rightarrow> nat
     \<Rightarrow> byte list \<Rightarrow> nat list \<Rightarrow> (nat \<Rightarrow> raster_block option) \<Rightarrow> 'd gdal \<Rightarrow> bool" where
  "make_room e bi x y bd L P R1 b d Lv Pv Rv \<longleftrightarrow> b = newBlock R1 \<and> VSIMalloc e (block_bytes bd) = Some d
    \<and> (let R2 = snd (GDALGetCacheMax64 e (R1\<lparr>newBlock := newBlock R1 + 1\<rparr>))
       in evictions e L (P(b \<mapsto> loading bd bi x y 2 (Some d))) (R2\<lparr>nCacheUsed := nCacheUsed R2 + block_bytes bd\<rparr>) Lv Pv Rv)
    \<and> (nCacheUsed Rv \<le> nCacheMax Rv \<or> (\<forall>c \<in> set Lv. \<not> unlocked Pv c))"

lemma upd_pData_lru:
  assumes "lru s L P R" "P b = Some r"
  shows "\<exists>s'. upd_block b (pData_update (\<lambda>_. d)) s = Some s' \<and> lru s' L (P(b \<mapsto> r\<lparr>pData := d\<rparr>)) R"
  by (rule upd_block_lru [OF assms]) (simp_all add: payload_def)

lemma lru_payload: "lru s L P R \<Longrightarrow> P b = Some r \<Longrightarrow> blocks s b = Some q \<Longrightarrow>
    pData q = pData r \<and> nXSize q = nXSize r \<and> nYSize q = nYSize r \<and> eType q = eType r \<and> poBand q = poBand r
    \<and> nXOff q = nXOff r \<and> nYOff q = nYOff r \<and> nLockCount q = nLockCount r \<and> bDirty q = bDirty r"
  using lru_pay [of s L P R b] by auto

lemma loading_upd [simp]:
  "(loading bd bi x y n d)\<lparr>pData := d'\<rparr> = loading bd bi x y n d'"
  "(loading bd bi x y n d)\<lparr>nLockCount := n'\<rparr> = loading bd bi x y n' d"
  "nLockCount (loading bd bi x y n d) = n" "pData (loading bd bi x y n d) = d" "poBand (loading bd bi x y n d) = bi"
  "nXOff (loading bd bi x y n d) = x" "nYOff (loading bd bi x y n d) = y" "bDirty (loading bd bi x y n d) = False"
  "nXSize (loading bd bi x y n d) = nBlockXSize bd" "nYSize (loading bd bi x y n d) = nBlockYSize bd"
  "eType (loading bd bi x y n d) = eDataType bd"
  by (simp_all add: loading_def)

lemma Internalize_cache:
  assumes c: "cache s L P R {b}" and b: "P b = Some (loading bd bi x y 1 None)" "b \<notin> set L"
    and bd: "bands R bi = Some bd" and e: "driver_ok e"
  shows "\<exists>s'. case VSIMalloc e (block_bytes bd) of
      None \<Rightarrow> Internalize e b s = Some (CE_Failure, s') \<and> cache s' L P (snd (GDALGetCacheMax64 e R)) {b}
    | Some d \<Rightarrow> \<exists>Lv Pv Rv. Internalize e b s = Some (CE_None, s')
        \<and> (let R2 = snd (GDALGetCacheMax64 e R)
           in evictions e L (P(b \<mapsto> loading bd bi x y 2 (Some d))) (R2\<lparr>nCacheUsed := nCacheUsed R2 + block_bytes bd\<rparr>) Lv Pv Rv)
        \<and> cache s' (b # Lv) (Pv(b \<mapsto> loading bd bi x y 1 (Some d))) Rv {b}
        \<and> Pv b = Some (loading bd bi x y 2 (Some d)) \<and> b \<notin> set Lv
        \<and> (nCacheUsed Rv \<le> nCacheMax Rv \<or> (\<forall>c \<in> set Lv. \<not> unlocked Pv c))"
proof -
  define s1 where "s1 = snd (GDALGetCacheMax64 e s)"
  define R1 where "R1 = snd (GDALGetCacheMax64 e R)"
  define m where "m = fst (GDALGetCacheMax64 e R)"
  have c1: "cache s1 L P R1 {b}" using GDALGetCacheMax64_cache [OF c] by (simp add: s1_def R1_def)
  have lru: "lru s L P R" and lru1: "lru s1 L P R1" and i1: "blocks_inv P R1 {b}" and d1: "dom P = set L \<union> {b}"
    using c c1 by (auto simp: cache_def)
  have g: "GDALGetCacheMax64 e s = (m, s1)"
    using GDALGetCacheMax64_lru(1) [OF lru, of e] by (simp add: m_def s1_def prod_eq_iff)
  have bd1: "bands R1 bi = Some bd" using bd by (simp add: R1_def GDALGetCacheMax64_rest)
  have ok: "band_ok bd" by (rule inv_band [OF i1 bd1])
  obtain q where q: "blocks s1 b = Some q" using lru_block [OF lru1 b(1)] by auto
  note qf = lru_payload [OF lru1 b(1) q, simplified]
  have n: "int32 (nXSize q * nYSize q * (GDALGetDataTypeSize (eType q) sdiv 8)) = block_bytes bd"
    using qf block_bytes_int32 [OF ok] by simp
  show ?thesis
  proof (cases "VSIMalloc e (block_bytes bd)")
    case None
    then have "Internalize e b s = Some (CE_Failure, s1)"
      using g q n by (simp add: Internalize_def Let_def)
    then show ?thesis using None c1 by (auto simp: R1_def)
  next
    case (Some d)
    have len: "int (length d) = block_bytes bd" using e Some by (auto simp: driver_ok_def)
    let ?r2 = "loading bd bi x y 2 (Some d)" let ?P2 = "P(b \<mapsto> ?r2)"
    let ?R2 = "R1\<lparr>nCacheUsed := nCacheUsed R1 + block_bytes bd\<rparr>"
    obtain s2 where s2: "upd_block b (pData_update (\<lambda>_. Some d)) s1 = Some s2" "lru s2 L (P(b \<mapsto> loading bd bi x y 1 (Some d))) R1"
      using upd_pData_lru [OF lru1 b(1), of "Some d"] by auto
    obtain s3 where s3: "AddLock b s2 = Some s3" "lru s3 L ?P2 R1" using AddLock_lru [OF s2(2), of b] by auto
    define s4 where "s4 = s3\<lparr>nCacheUsed := nCacheUsed R1 + block_bytes bd\<rparr>"
    have "lru s4 L ?P2 ?R2" unfolding s4_def by (rule lru_set(2) [OF s3(2)])
    moreover have i2: "blocks_inv ?P2 ?R2 {b}" using inv_internalize [OF i1 _ b(1) bd1 len, of 2] by simp
    moreover have "dom ?P2 = set L \<union> {b}" using d1 by auto
    ultimately have "cache s4 L ?P2 ?R2 {b}" by (simp add: cache_def)
    from flush_loop_cache [OF this, of e m] obtain s5 Lv Pv Rv where
      ev: "flush_loop e m s4 = Some s5" "cache s5 Lv Pv Rv {b}" "evictions e L ?P2 ?R2 Lv Pv Rv"
        "nCacheUsed Rv \<le> m \<or> (\<forall>b \<in> set Lv. \<not> unlocked Pv b)" by blast
    from evictions_keep [OF ev(3) i2] obtain X where
      X: "Lv = filter (\<lambda>c. c \<notin> X) L" "Pv = ?P2 |` (- X)" "\<forall>c \<in> X. unlocked ?P2 c \<and> c \<in> set L"
      and max: "nCacheMax Rv = nCacheMax R1" by auto
    have Pb: "Pv b = Some ?r2" "b \<notin> set Lv" using X b(2) by (auto simp: unlocked_def)
    have lru5: "lru s5 Lv Pv Rv" and i5: "blocks_inv Pv Rv {b}" and d5: "dom Pv = set Lv \<union> {b}"
      using ev(2) by (auto simp: cache_def)
    obtain s6 where s6: "Touch b s5 = Some s6" "lru s6 (b # Lv) Pv Rv" using Touch_lru [OF lru5, of b] Pb by auto
    obtain s7 where s7: "DropLock b s6 = Some s7" "lru s7 (b # Lv) (Pv(b \<mapsto> loading bd bi x y 1 (Some d))) Rv"
      using DropLock_lru [OF s6(2) Pb(1)] by auto
    have "blocks_inv (Pv(b \<mapsto> loading bd bi x y 1 (Some d))) Rv {b}"
      by (intro inv_change [OF i5 Pb(1)]) (simp_all add: same_place_def bytes_def)
    moreover have "dom (Pv(b \<mapsto> loading bd bi x y 1 (Some d))) = set (b # Lv) \<union> {b}" using d5 by auto
    ultimately have c7: "cache s7 (b # Lv) (Pv(b \<mapsto> loading bd bi x y 1 (Some d))) Rv {b}" using s7(2) by (simp add: cache_def)
    have used: "nCacheUsed s3 = nCacheUsed R1" using lru_rest(1) [OF s3(2)] .
    have "Internalize e b s = Some (CE_None, s7)"
      using g q n Some qf s2(1) s3(1) ev(1) s6(1) s7(1) used
      by (simp add: Internalize_def Let_def s4_def)
    moreover have "nCacheMax Rv = m" using max by (simp add: R1_def m_def GDALGetCacheMax64_rest)
    ultimately show ?thesis using Some ev(3,4) c7 Pb unfolding R1_def by (auto simp: Let_def)
  qed
qed

section \<open>Adopting a block\<close>

text \<open>The table \<open>t\<close> has the block \<open>b\<close> at \<open>(x, y)\<close>, and otherwise the blocks of the table of \<open>bd\<close>.\<close>

definition placed :: "raster_band \<Rightarrow> int \<Rightarrow> int \<Rightarrow> nat \<Rightarrow> block_cell list \<Rightarrow> bool" where
  "placed bd x y b t \<longleftrightarrow> table_ok (bd\<lparr>papoBlocks := Some t\<rparr>)
    \<and> (\<forall>x' y'. in_range bd x' y' \<longrightarrow> slot (bd\<lparr>papoBlocks := Some t\<rparr>) x' y' = (if x' = x \<and> y' = y then Some b else slot bd x' y'))"

lemma place_in_table:
  assumes ok: "table_ok bd" "papoBlocks bd \<noteq> None" and xy: "in_range bd x y" "slot bd x y = None"
  shows "\<exists>bd1 t1 t. (if slot_fetch bd x y = Some NoSubGrid then new_subgrid bd x y else Some bd) = Some bd1
    \<and> bd1 = bd\<lparr>papoBlocks := Some t1\<rparr> \<and> slot_fetch bd1 x y = Some (Slot None)
    \<and> slot_store bd1 x y (Some b) = Some (bd\<lparr>papoBlocks := Some t\<rparr>) \<and> placed bd x y b t"
proof -
  obtain t0 where t0: "papoBlocks bd = Some t0" using ok(2) by auto
  have same: "bd = bd\<lparr>papoBlocks := Some t0\<rparr>" using t0 by (cases bd) simp
  have "\<exists>t1. (if slot_fetch bd x y = Some NoSubGrid then new_subgrid bd x y else Some bd) = Some (bd\<lparr>papoBlocks := Some t1\<rparr>)
    \<and> table_ok (bd\<lparr>papoBlocks := Some t1\<rparr>) \<and> slot_fetch (bd\<lparr>papoBlocks := Some t1\<rparr>) x y = Some (Slot None)
    \<and> (\<forall>x' y'. in_range bd x' y' \<longrightarrow> slot (bd\<lparr>papoBlocks := Some t1\<rparr>) x' y' = slot bd x' y')"
  proof (cases "slot_fetch bd x y = Some NoSubGrid")
    case True
    then show ?thesis using new_subgrid_ok [OF ok xy(1) True] by auto
  next
    case False
    then have "slot_fetch bd x y = Some (Slot None)" using slot_fetch_ok [OF ok xy(1)] xy(2) by auto
    then show ?thesis using False ok(1) same by (intro exI [of _ t0]) simp
  qed
  then obtain t1 where t1: "(if slot_fetch bd x y = Some NoSubGrid then new_subgrid bd x y else Some bd) = Some (bd\<lparr>papoBlocks := Some t1\<rparr>)"
    "table_ok (bd\<lparr>papoBlocks := Some t1\<rparr>)" "slot_fetch (bd\<lparr>papoBlocks := Some t1\<rparr>) x y = Some (Slot None)"
    "\<And>x' y'. in_range bd x' y' \<Longrightarrow> slot (bd\<lparr>papoBlocks := Some t1\<rparr>) x' y' = slot bd x' y'" by blast
  let ?bd1 = "bd\<lparr>papoBlocks := Some t1\<rparr>"
  have p: "papoBlocks ?bd1 \<noteq> None" "in_range ?bd1 x y" "slot_fetch ?bd1 x y \<noteq> Some NoSubGrid" using xy(1) t1(3) by simp_all
  obtain t where t: "slot_store ?bd1 x y (Some b) = Some (?bd1\<lparr>papoBlocks := Some t\<rparr>)"
    using slot_store_ok [OF t1(2) p, of "Some b"] by blast
  have e: "?bd1\<lparr>papoBlocks := Some t\<rparr> = bd\<lparr>papoBlocks := Some t\<rparr>" by simp
  have "placed bd x y b t"
    using slot_store_laws [OF t1(2) p t] t1(4) unfolding placed_def e by simp
  then show ?thesis using t1(1,3) t unfolding e by blast
qed

lemma AdoptBlock_cache:
  assumes c: "cache s (b # Lv) P R {b}" and b: "P b = Some (loading bd0 bi x y n (Some d))"
    and bd: "bands R bi = Some bd" "papoBlocks bd \<noteq> None" "in_range bd x y" "slot bd x y = None"
  shows "\<exists>s'. AdoptBlock e bi x y b s = Some (CE_Failure, s') \<and> \<not> VSICalloc e (SUBBLOCK_SIZE * SUBBLOCK_SIZE) \<and> cache s' (b # Lv) P R {b}
    \<or> (\<exists>t. AdoptBlock e bi x y b s = Some (CE_None, s') \<and> placed bd x y b t
         \<and> cache s' (b # Lv) P (R\<lparr>bands := (bands R)(bi \<mapsto> bd\<lparr>papoBlocks := Some t\<rparr>)\<rparr>) {})"
proof -
  have lru: "lru s (b # Lv) P R" and i: "blocks_inv P R {b}" and dm: "dom P = set (b # Lv) \<union> {b}"
    using c by (auto simp: cache_def)
  have s: "bands s bi = Some bd" using lru_rest(5) [OF lru] bd(1) by simp
  have init: "InitBlockInfo e bi s = Some (True, s)" using s bd(2) by (auto simp: InitBlockInfo_def)
  have tab: "table_ok bd" using inv_band [OF i bd(1)] by (simp add: band_ok_def)
  obtain bd1 t1 t where t: "(if slot_fetch bd x y = Some NoSubGrid then new_subgrid bd x y else Some bd) = Some bd1"
    "bd1 = bd\<lparr>papoBlocks := Some t1\<rparr>" "slot_fetch bd1 x y = Some (Slot None)"
    "slot_store bd1 x y (Some b) = Some (bd\<lparr>papoBlocks := Some t\<rparr>)" "placed bd x y b t"
    using place_in_table [OF tab bd(2-4), of b] by blast
  obtain sl where sl: "slot_fetch bd x y = Some sl" using slot_fetch_ok [OF tab bd(2,3)] by auto
  show ?thesis
  proof (cases "sl = NoSubGrid \<and> \<not> VSICalloc e (SUBBLOCK_SIZE * SUBBLOCK_SIZE)")
    case True
    then have "AdoptBlock e bi x y b s = Some (CE_Failure, s)" using init s sl by (simp add: AdoptBlock_def)
    then show ?thesis using c True by blast
  next
    case False
    let ?bd = "bd\<lparr>papoBlocks := Some t\<rparr>" let ?R = "R\<lparr>bands := (bands R)(bi \<mapsto> ?bd)\<rparr>"
    define s1 where "s1 = set_band bi ?bd (set_band bi bd1 s)"
    have "lru s1 (b # Lv) P ?R"
      using lru_set(3) [OF lru, of "(bands R)(bi \<mapsto> ?bd)"] lru_rest(5) [OF lru] by (simp add: s1_def set_band_def)
    then obtain s2 where s2: "Touch b s1 = Some s2" "lru s2 (b # removeAll b (b # Lv)) P ?R"
      using Touch_lru [of s1 "b # Lv" P ?R b] b by auto
    have "b # removeAll b (b # Lv) = b # Lv" using lru_distinct [OF lru] by (simp add: removeAll_id)
    then have "lru s2 (b # Lv) P ?R" using s2(2) by simp
    moreover have "blocks_inv P ?R ({b} - {b})"
      using t(5) b bd(3,4) unfolding placed_def by (intro inv_place [OF i bd(1,2) _ b]) simp_all
    ultimately have c2: "cache s2 (b # Lv) P ?R {}" using dm by (simp add: cache_def)
    have "bands (set_band bi bd1 s) bi = Some bd1" by (simp add: set_band_def)
    moreover have "(if sl = NoSubGrid then new_subgrid bd x y else Some bd) = Some bd1" using t(1) sl by simp
    ultimately have "AdoptBlock e bi x y b s = Some (CE_None, s2)"
      using init s sl t(3,4) s2(1) by (simp add: AdoptBlock_def Let_def s1_def if_not_P [OF False] split del: if_split)
    then show ?thesis using t(5) c2 by blast
  qed
qed

section \<open>The outcomes of GetLockedBlockRef\<close>

abbreviation with_table :: "'d gdal \<Rightarrow> nat \<Rightarrow> raster_band \<Rightarrow> block_cell list \<Rightarrow> 'd gdal" where
  "with_table R bi bd t \<equiv> R\<lparr>bands := (bands R)(bi \<mapsto> bd\<lparr>papoBlocks := Some t\<rparr>)\<rparr>"

inductive get_result ::
    "'d driver \<Rightarrow> nat \<Rightarrow> int \<Rightarrow> int \<Rightarrow> bool \<Rightarrow> nat list \<Rightarrow> (nat \<Rightarrow> raster_block option) \<Rightarrow> 'd gdal
     \<Rightarrow> nat option \<Rightarrow> nat list \<Rightarrow> (nat \<Rightarrow> raster_block option) \<Rightarrow> 'd gdal \<Rightarrow> bool"
  for e bi x y just L P R where
  no_block: "table_init e R bi bd R1 \<Longrightarrow> \<not> (papoBlocks bd \<noteq> None \<and> in_range bd x y) \<Longrightarrow> get_result e bi x y just L P R None L P R1"
| hit: "table_init e R bi bd R1 \<Longrightarrow> papoBlocks bd \<noteq> None \<Longrightarrow> in_range bd x y \<Longrightarrow> slot bd x y = Some b \<Longrightarrow> P b = Some r
    \<Longrightarrow> get_result e bi x y just L P R (Some b) (b # removeAll b L) (P(b \<mapsto> r\<lparr>nLockCount := nLockCount r + 1\<rparr>)) R1"
| no_memory: "table_init e R bi bd R1 \<Longrightarrow> papoBlocks bd \<noteq> None \<Longrightarrow> in_range bd x y \<Longrightarrow> slot bd x y = None
    \<Longrightarrow> VSIMalloc e (block_bytes bd) = None
    \<Longrightarrow> get_result e bi x y just L P R None L P (snd (GDALGetCacheMax64 e (R1\<lparr>newBlock := newBlock R1 + 1\<rparr>)))"
| no_grid: "table_init e R bi bd R1 \<Longrightarrow> papoBlocks bd \<noteq> None \<Longrightarrow> in_range bd x y \<Longrightarrow> slot bd x y = None
    \<Longrightarrow> make_room e bi x y bd L P R1 b d Lv Pv Rv \<Longrightarrow> \<not> VSICalloc e (SUBBLOCK_SIZE * SUBBLOCK_SIZE)
    \<Longrightarrow> get_result e bi x y just L P R None Lv (Pv(b := None)) (Rv\<lparr>nCacheUsed := nCacheUsed Rv - block_bytes bd\<rparr>)"
| fresh: "table_init e R bi bd R1 \<Longrightarrow> papoBlocks bd \<noteq> None \<Longrightarrow> in_range bd x y \<Longrightarrow> slot bd x y = None
    \<Longrightarrow> make_room e bi x y bd L P R1 b d Lv Pv Rv \<Longrightarrow> bands Rv bi = Some bdv \<Longrightarrow> placed bdv x y b t \<Longrightarrow> just
    \<Longrightarrow> get_result e bi x y just L P R (Some b) (b # Lv) (Pv(b \<mapsto> loading bd bi x y 1 (Some d))) (with_table Rv bi bdv t)"
| loaded: "table_init e R bi bd R1 \<Longrightarrow> papoBlocks bd \<noteq> None \<Longrightarrow> in_range bd x y \<Longrightarrow> slot bd x y = None
    \<Longrightarrow> make_room e bi x y bd L P R1 b d Lv Pv Rv \<Longrightarrow> bands Rv bi = Some bdv \<Longrightarrow> placed bdv x y b t \<Longrightarrow> \<not> just
    \<Longrightarrow> IReadBlock e (device Rv) bi x y d = (CE_None, d', dev)
    \<Longrightarrow> get_result e bi x y just L P R (Some b) (b # Lv) (Pv(b \<mapsto> loading bd bi x y 1 (Some d')))
          ((with_table Rv bi (bdv\<lparr>nBlockReads := nBlockReads bdv + 1\<rparr>) t)\<lparr>device := dev\<rparr>)"
| read_failed: "table_init e R bi bd R1 \<Longrightarrow> papoBlocks bd \<noteq> None \<Longrightarrow> in_range bd x y \<Longrightarrow> slot bd x y = None
    \<Longrightarrow> make_room e bi x y bd L P R1 b d Lv Pv Rv \<Longrightarrow> bands Rv bi = Some bdv \<Longrightarrow> placed bdv x y b t \<Longrightarrow> \<not> just
    \<Longrightarrow> IReadBlock e (device Rv) bi x y d = (err, d', dev) \<Longrightarrow> err \<noteq> CE_None
    \<Longrightarrow> flushed e True ((with_table Rv bi bdv t)\<lparr>device := dev\<rparr>) (loading bd bi x y 0 (Some d')) err' R'
    \<Longrightarrow> get_result e bi x y just L P R None Lv (Pv(b := None)) R'"

inductive_cases get_result_SomeE: "get_result e bi x y just L P R (Some b) L' P' R'"
inductive_cases get_result_NoneE: "get_result e bi x y just L P R None L' P' R'"

lemma new_raster_block_lru:
  assumes c: "cache s L P R {}" and bd: "bands R bi = Some bd" "papoBlocks bd \<noteq> None" "in_range bd x y"
  shows "\<exists>s1 s2. new_raster_block bi x y s = Some (newBlock R, s1) \<and> AddLock (newBlock R) s1 = Some s2
    \<and> cache s2 L (P(newBlock R \<mapsto> loading bd bi x y 1 None)) (R\<lparr>newBlock := newBlock R + 1\<rparr>) {newBlock R}"
proof -
  have lru: "lru s L P R" and i: "blocks_inv P R {}" and d: "dom P = set L" using c by (auto simp: cache_def)
  let ?b = "newBlock R" let ?r = "loading bd bi x y 0 None"
  have new: "P ?b = None" using inv_new [OF i] by simp
  have ok: "band_ok bd" by (rule inv_band [OF i bd(1)])
  define s1 where "s1 = s\<lparr>blocks := (blocks s)(newBlock s \<mapsto> ?r), newBlock := newBlock s + 1\<rparr>"
  have "lru s1 L (P(?b \<mapsto> ?r)) (R\<lparr>newBlock := newBlock R + 1\<rparr>)"
    unfolding s1_def by (rule lru_alloc [OF lru new]) (simp_all add: loading_def)
  then obtain s2 where s2: "AddLock ?b s1 = Some s2" "lru s2 L (P(?b \<mapsto> loading bd bi x y 1 None)) (R\<lparr>newBlock := newBlock R + 1\<rparr>)"
    using AddLock_lru [of s1 L "P(?b \<mapsto> ?r)" "R\<lparr>newBlock := newBlock R + 1\<rparr>" ?b] by auto
  have "GetBlockSize bd = (nBlockXSize bd, nBlockYSize bd)" using ok by (simp add: GetBlockSize_def band_ok_def)
  then have "new_raster_block bi x y s = Some (?b, s1)"
    using bd(1) lru_rest [OF lru] by (simp add: new_raster_block_def s1_def loading_def)
  moreover have "blocks_inv (P(?b \<mapsto> loading bd bi x y 1 None)) (R\<lparr>newBlock := newBlock R + 1\<rparr>) {?b}"
    by (rule inv_alloc [OF i bd]) simp
  ultimately show ?thesis using s2 d by (auto simp: cache_def)
qed

text \<open>A block that was being loaded is unlocked and freed.\<close>

lemma drop_loading:
  assumes c: "cache s L P R {b}" and b: "P b = Some r" "nLockCount r = 1"
  shows "\<exists>s1 s2. DropLock b s = Some s1 \<and> delete_block b s1 = Some s2
    \<and> cache s2 (removeAll b L) (P(b := None)) (R\<lparr>nCacheUsed := nCacheUsed R - freed r\<rparr>) {}"
proof -
  have lru: "lru s L P R" and i: "blocks_inv P R {b}" and d: "dom P = set L \<union> {b}" using c by (auto simp: cache_def)
  obtain s1 where s1: "DropLock b s = Some s1" "lru s1 L (P(b \<mapsto> r\<lparr>nLockCount := nLockCount r - 1\<rparr>)) R"
    using DropLock_lru [OF lru b(1)] by auto
  have "freed (r\<lparr>nLockCount := nLockCount r - 1\<rparr>) = freed r" by (simp add: freed_def)
  then obtain s2 where s2: "delete_block b s1 = Some s2"
    "lru s2 (removeAll b L) (P(b := None)) (R\<lparr>nCacheUsed := nCacheUsed R - freed r\<rparr>)"
    using delete_block_lru [OF s1(2), of b] b(2) by auto
  have "blocks_inv (P(b := None)) (R\<lparr>nCacheUsed := nCacheUsed R - freed r\<rparr>) ({b} - {b})"
    by (rule inv_free [OF i _ b(1)]) simp
  moreover have "dom (P(b := None)) = set (removeAll b L)" using d by auto
  ultimately show ?thesis using s1(1) s2 by (simp add: cache_def)
qed

lemma read_into_lru:
  assumes lru: "lru s L P R" and b: "P b = Some r" "pData r = Some d" and io: "IReadBlock e (device R) bi x y d = (err, d', dev)"
  shows "\<exists>s'. read_into e bi x y b s = Some (err, s') \<and> lru s' L (P(b \<mapsto> r\<lparr>pData := Some d'\<rparr>)) (R\<lparr>device := dev\<rparr>)"
proof -
  obtain q where q: "blocks s b = Some q" using lru_block [OF lru b(1)] by auto
  have "pData q = Some d" using lru_payload [OF lru b(1) q] b(2) by simp
  moreover have "lru (s\<lparr>device := dev\<rparr>) L P (R\<lparr>device := dev\<rparr>)" by (rule lru_set(1) [OF lru])
  from upd_pData_lru [OF this b(1), of "Some d'"] obtain s' where
    "upd_block b (pData_update (\<lambda>_. Some d')) (s\<lparr>device := dev\<rparr>) = Some s'"
    "lru s' L (P(b \<mapsto> r\<lparr>pData := Some d'\<rparr>)) (R\<lparr>device := dev\<rparr>)" by blast
  moreover have "device s = device R" using lru_rest(6) [OF lru] .
  ultimately show ?thesis using q io by (simp add: read_into_def)
qed

lemma table_only_trans: "table_only a b \<Longrightarrow> table_only b c \<Longrightarrow> table_only a c"
  by (simp add: table_only_def)

lemma fresh_table_trans: "table_only a b \<Longrightarrow> fresh_table b c \<Longrightarrow> fresh_table a c"
  by (auto simp: fresh_table_def table_only_def)

lemma table_init_trans:
  assumes "table_init e R bi bd' R1" "table_init e R1 bi bd'' R2"
  shows "table_init e R bi bd'' R2"
proof -
  obtain bd where a: "bands R bi = Some bd" "R1 = R\<lparr>bands := (bands R)(bi \<mapsto> bd')\<rparr>" "table_only bd bd'"
    "papoBlocks bd \<noteq> None \<longrightarrow> bd' = bd" "papoBlocks bd = None \<longrightarrow> papoBlocks bd' \<noteq> None \<longrightarrow> fresh_table bd bd'"
    using assms(1) unfolding table_init_def by blast
  have a': "papoBlocks bd' = None \<longrightarrow> \<not> roomy e bd" using assms(1) a(1) unfolding table_init_def by auto
  have b: "R2 = R1\<lparr>bands := (bands R1)(bi \<mapsto> bd'')\<rparr>" "table_only bd' bd''"
    "papoBlocks bd' \<noteq> None \<longrightarrow> bd'' = bd'" "papoBlocks bd' = None \<longrightarrow> papoBlocks bd'' \<noteq> None \<longrightarrow> fresh_table bd' bd''"
    using assms(2) a(2) unfolding table_init_def by auto
  have "R2 = R\<lparr>bands := (bands R)(bi \<mapsto> bd'')\<rparr>" unfolding b(1) a(2) by simp
  moreover have "table_only bd bd''" by (rule table_only_trans [OF a(3) b(2)])
  moreover have "papoBlocks bd \<noteq> None \<longrightarrow> bd'' = bd" using a(4) b(3) by auto
  moreover have "papoBlocks bd = None \<longrightarrow> papoBlocks bd'' \<noteq> None \<longrightarrow> fresh_table bd bd''"
    using a(3,5) b(3,4) fresh_table_trans by metis
  moreover have "papoBlocks bd'' = None \<longrightarrow> \<not> roomy e bd" using a' b(3) by auto
  ultimately show ?thesis by (rule table_initI [OF a(1)])
qed

text \<open>Both lookups of a block that is not in the cache.\<close>

lemma lookup_miss:
  assumes c: "cache s L P R {}" and bd: "bands R bi \<noteq> None"
  shows "(\<exists>s' bd' R' b r. table_init e R bi bd' R' \<and> papoBlocks bd' \<noteq> None \<and> in_range bd' x y \<and> slot bd' x y = Some b
      \<and> P b = Some r \<and> TryGetLockedBlockRef e bi x y s = Some (Some b, s')
      \<and> cache s' (b # removeAll b L) (P(b \<mapsto> r\<lparr>nLockCount := nLockCount r + 1\<rparr>)) R' {})
    \<or> (\<exists>s1 s' bd' R'. TryGetLockedBlockRef e bi x y s = Some (None, s1)
      \<and> InitBlockInfo e bi s1 = Some (papoBlocks bd' \<noteq> None, s') \<and> table_init e R bi bd' R' \<and> cache s' L P R' {}
      \<and> (papoBlocks bd' \<noteq> None \<and> in_range bd' x y \<longrightarrow> slot bd' x y = None))"
proof -
  obtain s1 bd1 R1 where s1: "table_init e R bi bd1 R1" "case wanted bd1 x y of
       None \<Rightarrow> TryGetLockedBlockRef e bi x y s = Some (None, s1) \<and> cache s1 L P R1 {}
     | Some b \<Rightarrow> \<exists>r. P b = Some r \<and> b \<notin> {} \<and> TryGetLockedBlockRef e bi x y s = Some (Some b, s1)
         \<and> cache s1 (b # removeAll b L) (P(b \<mapsto> r\<lparr>nLockCount := nLockCount r + 1\<rparr>)) R1 {}"
    using TryGet_miss [OF c bd, of e x y] by blast
  show ?thesis
  proof (cases "wanted bd1 x y")
    case (Some b)
    then have "papoBlocks bd1 \<noteq> None" "in_range bd1 x y" "slot bd1 x y = Some b"
      by (auto simp: wanted_def split: if_splits)
    moreover from s1(2) Some obtain r where "P b = Some r" "TryGetLockedBlockRef e bi x y s = Some (Some b, s1)"
      "cache s1 (b # removeAll b L) (P(b \<mapsto> r\<lparr>nLockCount := nLockCount r + 1\<rparr>)) R1 {}" by auto
    ultimately show ?thesis using s1(1) by blast
  next
    case None
    then have t: "TryGetLockedBlockRef e bi x y s = Some (None, s1)" "cache s1 L P R1 {}" using s1(2) by auto
    have b1: "bands R1 bi = Some bd1" by (rule table_init_band [OF s1(1)])
    obtain s2 bd2 R2 where s2: "InitBlockInfo e bi s1 = Some (papoBlocks bd2 \<noteq> None, s2)" "table_init e R1 bi bd2 R2" "cache s2 L P R2 {}"
      using InitBlockInfo_cache [OF t(2), of bi e] b1 by auto
    have "slot bd2 x y = None" if "papoBlocks bd2 \<noteq> None" "in_range bd2 x y"
    proof (cases "papoBlocks bd1 = None")
      case True
      then have "fresh_table bd1 bd2" using s2(2) b1 that(1) by (auto simp: table_init_def)
      then show ?thesis using that(2) by (simp add: fresh_table_def)
    next
      case False
      then have "bd2 = bd1" using s2(2) b1 by (auto simp: table_init_def)
      then show ?thesis using None that by (auto simp: wanted_def split: if_splits)
    qed
    then show ?thesis using t(1) s2 table_init_trans [OF s1(1) s2(2)] by blast
  qed
qed

lemma make_room_band:
  assumes m: "make_room e bi x y bd L P R1 b d Lv Pv Rv" and i: "blocks_inv P R1 {}"
    and bd: "bands R1 bi = Some bd" "papoBlocks bd \<noteq> None" "in_range bd x y" "slot bd x y = None" and d: "int (length d) = block_bytes bd"
  shows "\<exists>bdv. bands Rv bi = Some bdv \<and> shrunk bd bdv \<and> papoBlocks bdv \<noteq> None \<and> in_range bdv x y \<and> slot bdv x y = None"
proof -
  let ?R2 = "snd (GDALGetCacheMax64 e (R1\<lparr>newBlock := newBlock R1 + 1\<rparr>))"
  let ?R3 = "?R2\<lparr>nCacheUsed := nCacheUsed ?R2 + block_bytes bd\<rparr>"
  have b: "b = newBlock R1" and ev: "evictions e L (P(b \<mapsto> loading bd bi x y 2 (Some d))) ?R3 Lv Pv Rv"
    using m unfolding make_room_def Let_def by blast+
  have "blocks_inv (P(b \<mapsto> loading bd bi x y 1 None)) (R1\<lparr>newBlock := newBlock R1 + 1\<rparr>) {b}"
    unfolding b by (rule inv_alloc [OF i bd(1-3)]) simp
  then have "blocks_inv (P(b \<mapsto> loading bd bi x y 1 None)) ?R2 {b}" by (rule inv_rest) (simp_all add: GDALGetCacheMax64_rest)
  from inv_internalize [OF this, of b bd bi x y 1 d 2] have "blocks_inv (P(b \<mapsto> loading bd bi x y 2 (Some d))) ?R3 {b}"
    using bd(1) d by (simp add: GDALGetCacheMax64_rest)
  from evictions_keep [OF ev this] have "all_shrunk ?R3 Rv" by blast
  moreover have "bands ?R3 bi = Some bd" using bd(1) by (simp add: GDALGetCacheMax64_rest)
  ultimately obtain bdv where v: "bands Rv bi = Some bdv" "shrunk bd bdv" using all_shrunkD by blast
  moreover have "slot bdv x y = None" using v(2) bd(3,4) unfolding shrunk_def by metis
  moreover have "papoBlocks bdv \<noteq> None" using v(2) bd(2) unfolding shrunk_def by metis
  ultimately show ?thesis using bd(3) shrunk_dims(1) [OF v(2)] by simp
qed

lemma GetLockedBlockRef_cache:
  assumes c: "cache s L P R {}" and bi: "bands R bi \<noteq> None" and e: "driver_ok e"
  shows "\<exists>s' res L' P' R'. GetLockedBlockRef e bi x y just s = Some (res, s') \<and> cache s' L' P' R' {}
    \<and> get_result e bi x y just L P R res L' P' R'"
  using lookup_miss [OF c bi, of e x y]
proof (elim disjE exE conjE)
  fix s' bd' R' b r
  assume "table_init e R bi bd' R'" "papoBlocks bd' \<noteq> None" "in_range bd' x y" "slot bd' x y = Some b" "P b = Some r"
    "TryGetLockedBlockRef e bi x y s = Some (Some b, s')"
    "cache s' (b # removeAll b L) (P(b \<mapsto> r\<lparr>nLockCount := nLockCount r + 1\<rparr>)) R' {}"
  then show ?thesis using get_result.hit [of e R bi bd' R' x y b P r just L] by (auto simp: GetLockedBlockRef_def)
next
  fix s1 s2 bd R1
  assume s1: "TryGetLockedBlockRef e bi x y s = Some (None, s1)" "InitBlockInfo e bi s1 = Some (papoBlocks bd \<noteq> None, s2)"
    and t: "table_init e R bi bd R1" and c2: "cache s2 L P R1 {}"
    and none: "papoBlocks bd \<noteq> None \<and> in_range bd x y \<longrightarrow> slot bd x y = None"
  have lru2: "lru s2 L P R1" and i2: "blocks_inv P R1 {}" and d2: "dom P = set L" using c2 by (auto simp: cache_def)
  have b1: "bands R1 bi = Some bd" by (rule table_init_band [OF t])
  have b2: "bands s2 bi = Some bd" using lru_rest(5) [OF lru2] b1 by simp
  show ?thesis
  proof (cases "papoBlocks bd \<noteq> None \<and> in_range bd x y")
    case False
    then have "GetLockedBlockRef e bi x y just s = Some (None, s2)"
      using s1 b2 by (auto simp: GetLockedBlockRef_def in_range_def)
    then show ?thesis using c2 get_result.no_block [OF t False, of just L P] by blast
  next
    case True
    then have p: "papoBlocks bd \<noteq> None" "in_range bd x y" and sl: "slot bd x y = None" using none by auto
    have r: "\<not> (x < 0 \<or> x \<ge> nBlocksPerRow bd)" "\<not> (y < 0 \<or> y \<ge> nBlocksPerColumn bd)" using p(2) by (auto simp: in_range_def)
    define b where "b = newBlock R1"
    have new: "P b = None" using inv_new [OF i2] by (simp add: b_def)
    then have bL: "b \<notin> set L" using d2 by auto
    let ?P1 = "P(b \<mapsto> loading bd bi x y 1 None)" let ?R1 = "R1\<lparr>newBlock := newBlock R1 + 1\<rparr>"
    obtain s3 s4 where s4: "new_raster_block bi x y s2 = Some (b, s3)" "AddLock b s3 = Some s4" "cache s4 L ?P1 ?R1 {b}"
      using new_raster_block_lru [OF c2 b1 p] unfolding b_def by blast
    have P1b: "?P1 b = Some (loading bd bi x y 1 None)" by simp
    have bd1: "bands ?R1 bi = Some bd" using b1 by simp
    note int = Internalize_cache [OF s4(3) P1b bL bd1 e]
    show ?thesis
    proof (cases "VSIMalloc e (block_bytes bd)")
      case None
      then obtain s5 where s5: "Internalize e b s4 = Some (CE_Failure, s5)" "cache s5 L ?P1 (snd (GDALGetCacheMax64 e ?R1)) {b}"
        using int by auto
      obtain s6 s7 where s7: "DropLock b s5 = Some s6" "delete_block b s6 = Some s7"
        "cache s7 (removeAll b L) (?P1(b := None)) ((snd (GDALGetCacheMax64 e ?R1))\<lparr>nCacheUsed := nCacheUsed (snd (GDALGetCacheMax64 e ?R1)) - freed (loading bd bi x y 1 None)\<rparr>) {}"
        using drop_loading [OF s5(2) P1b loading_upd(3)] by blast
      have "removeAll b L = L" "?P1(b := None) = P" using bL new by (simp_all add: removeAll_id fun_upd_idem)
      then have "cache s7 L P (snd (GDALGetCacheMax64 e ?R1)) {}" using s7(3) by (simp add: freed_def)
      moreover have "GetLockedBlockRef e bi x y just s = Some (None, s7)"
        using s1 b2 p(1) r s4(1,2) s5(1) s7(1,2) by (simp add: GetLockedBlockRef_def)
      ultimately show ?thesis using get_result.no_memory [OF t p sl None, of just L P] by blast
    next
      case (Some d)
      have len: "int (length d) = block_bytes bd" using e Some by (auto simp: driver_ok_def)
      from int Some obtain s5 Lv Pv Rv where s5: "Internalize e b s4 = Some (CE_None, s5)"
        "let R2 = snd (GDALGetCacheMax64 e ?R1)
           in evictions e L (?P1(b \<mapsto> loading bd bi x y 2 (Some d))) (R2\<lparr>nCacheUsed := nCacheUsed R2 + block_bytes bd\<rparr>) Lv Pv Rv"
        "cache s5 (b # Lv) (Pv(b \<mapsto> loading bd bi x y 1 (Some d))) Rv {b}" "b \<notin> set Lv"
        "nCacheUsed Rv \<le> nCacheMax Rv \<or> (\<forall>c \<in> set Lv. \<not> unlocked Pv c)" by auto
      have room: "make_room e bi x y bd L P R1 b d Lv Pv Rv"
        using s5(2,5) Some by (simp add: make_room_def b_def)
      let ?Pv = "Pv(b \<mapsto> loading bd bi x y 1 (Some d))"
      have Pvb: "?Pv b = Some (loading bd bi x y 1 (Some d))" by simp
      obtain bdv where bdv: "bands Rv bi = Some bdv" "papoBlocks bdv \<noteq> None" "in_range bdv x y" "slot bdv x y = None"
        using make_room_band [OF room i2 b1 p sl len] by blast
      from AdoptBlock_cache [OF s5(3) Pvb bdv, of e] obtain s6 where
        "AdoptBlock e bi x y b s5 = Some (CE_Failure, s6) \<and> \<not> VSICalloc e (SUBBLOCK_SIZE * SUBBLOCK_SIZE)
            \<and> cache s6 (b # Lv) ?Pv Rv {b}
         \<or> (\<exists>t. AdoptBlock e bi x y b s5 = Some (CE_None, s6) \<and> placed bdv x y b t
            \<and> cache s6 (b # Lv) ?Pv (with_table Rv bi bdv t) {})" by blast
      then show ?thesis
      proof (elim disjE exE conjE)
        assume a: "AdoptBlock e bi x y b s5 = Some (CE_Failure, s6)" "\<not> VSICalloc e (SUBBLOCK_SIZE * SUBBLOCK_SIZE)"
          "cache s6 (b # Lv) ?Pv Rv {b}"
        obtain s7 s8 where s8: "DropLock b s6 = Some s7" "delete_block b s7 = Some s8"
          "cache s8 (removeAll b (b # Lv)) (?Pv(b := None)) (Rv\<lparr>nCacheUsed := nCacheUsed Rv - freed (loading bd bi x y 1 (Some d))\<rparr>) {}"
          using drop_loading [OF a(3) Pvb loading_upd(3)] by blast
        have "freed (loading bd bi x y 1 (Some d)) = block_bytes bd"
          using freed_bytes [of ?Pv Rv "{b}" b "loading bd bi x y 1 (Some d)"] a(3) len by (simp add: cache_def bytes_def)
        then have "cache s8 Lv (Pv(b := None)) (Rv\<lparr>nCacheUsed := nCacheUsed Rv - block_bytes bd\<rparr>) {}"
          using s8(3) s5(4) by (simp add: removeAll_id)
        moreover have "GetLockedBlockRef e bi x y just s = Some (None, s8)"
          using s1 b2 p(1) r s4(1,2) s5(1) a(1) s8(1,2) by (simp add: GetLockedBlockRef_def)
        ultimately show ?thesis using get_result.no_grid [OF t p sl room a(2), of just] by blast
      next
        fix tb
        assume a: "AdoptBlock e bi x y b s5 = Some (CE_None, s6)" "placed bdv x y b tb"
          "cache s6 (b # Lv) ?Pv (with_table Rv bi bdv tb) {}"
        have eq: "GetLockedBlockRef e bi x y just s = (if just then Some (Some b, s6)
            else do {
               (err, s) \<leftarrow> read_into e bi x y b s6;
               if err \<noteq> CE_None then do {
                 s \<leftarrow> DropLock b s;
                 (_, s) \<leftarrow> FlushBlock e bi x y True s;
                 Some (None, s)
               }
               else do { s \<leftarrow> count_read bi s; Some (Some b, s) }
             })"
          using s1 b2 p(1) r s4(1,2) s5(1) a(1) by (simp add: GetLockedBlockRef_def)
        show ?thesis
        proof (cases just)
          case True
          then show ?thesis using eq a(3) get_result.fresh [OF t p sl room bdv(1) a(2), of just] by auto
        next
          case False
          have lru6: "lru s6 (b # Lv) ?Pv (with_table Rv bi bdv tb)" and i6: "blocks_inv ?Pv (with_table Rv bi bdv tb) {}"
            and d6: "dom ?Pv = set (b # Lv)" using a(3) by (auto simp: cache_def)
          obtain err d' dev where io: "IReadBlock e (device Rv) bi x y d = (err, d', dev)" by (metis prod_cases3)
          have len': "length d' = length d" using e io unfolding driver_ok_def by (metis fst_conv snd_conv)
          let ?Pr = "?Pv(b \<mapsto> loading bd bi x y 1 (Some d'))" let ?Rr = "(with_table Rv bi bdv tb)\<lparr>device := dev\<rparr>"
          have "IReadBlock e (device (with_table Rv bi bdv tb)) bi x y d = (err, d', dev)" using io by simp
          note rd = read_into_lru [OF lru6 Pvb _ this, unfolded loading_upd, OF refl]
          then obtain s7 where s7: "read_into e bi x y b s6 = Some (err, s7)" "lru s7 (b # Lv) ?Pr ?Rr" by blast
          have i7: "blocks_inv (?Pv(b \<mapsto> loading bd bi x y n (Some d'))) ?Rr {}" if "0 \<le> n" for n
          proof (rule inv_rest)
            show "blocks_inv (?Pv(b \<mapsto> loading bd bi x y n (Some d'))) (with_table Rv bi bdv tb) {}"
              using that len' by (intro inv_change [OF i6 Pvb]) (simp_all add: same_place_def bytes_def)
          qed simp_all
          show ?thesis
          proof (cases "err = CE_None")
            case True
            let ?bd = "bdv\<lparr>papoBlocks := Some tb, nBlockReads := nBlockReads bdv + 1\<rparr>"
            have Rrb: "bands ?Rr bi = Some (bdv\<lparr>papoBlocks := Some tb\<rparr>)" by simp
            define R9 where "R9 = ?Rr\<lparr>bands := (bands ?Rr)(bi \<mapsto> ?bd)\<rparr>"
            have R9: "R9 = (with_table Rv bi (bdv\<lparr>nBlockReads := nBlockReads bdv + 1\<rparr>) tb)\<lparr>device := dev\<rparr>"
              unfolding R9_def by (cases bdv, cases Rv) simp
            have bs: "bands s7 = bands ?Rr" using lru_rest(5) [OF s7(2)] .
            have "count_read bi s7 = Some (s7\<lparr>bands := (bands ?Rr)(bi \<mapsto> ?bd)\<rparr>)"
              unfolding count_read_def set_band_def bs by simp
            moreover have "lru (s7\<lparr>bands := (bands ?Rr)(bi \<mapsto> ?bd)\<rparr>) (b # Lv) ?Pr R9"
              unfolding R9_def by (rule lru_set(3) [OF s7(2)])
            moreover have "blocks_inv ?Pr R9 {}" unfolding R9_def
              by (rule inv_band_flags [OF i7 Rrb, of 1 _ CE_None "nBlockReads bdv + 1"]) simp_all
            moreover have "dom ?Pr = set (b # Lv)" using d6 by auto
            ultimately obtain s9 where "count_read bi s7 = Some s9" "cache s9 (b # Lv) ?Pr R9 {}"
              by (auto simp: cache_def)
            moreover have "get_result e bi x y just L P R (Some b) (b # Lv) (Pv(b \<mapsto> loading bd bi x y 1 (Some d'))) R9"
              unfolding R9 using io True by (intro get_result.loaded [OF t p sl room bdv(1) a(2) False]) simp
            ultimately show ?thesis using eq False s7(1) True by auto
          next
            case err: False
            obtain s8 where s8: "DropLock b s7 = Some s8" "lru s8 (b # Lv) (?Pr(b \<mapsto> loading bd bi x y 0 (Some d'))) ?Rr"
              using DropLock_lru [OF s7(2), of b "loading bd bi x y 1 (Some d')"] by auto
            let ?P8 = "?Pv(b \<mapsto> loading bd bi x y 0 (Some d'))"
            have P8: "?Pr(b \<mapsto> loading bd bi x y 0 (Some d')) = ?P8" by simp
            have lru8: "lru s8 (b # Lv) ?P8 ?Rr" using s8(2) unfolding P8 .
            have i8: "blocks_inv ?P8 ?Rr {}" by (rule i7) simp
            have P8b: "?P8 b = Some (loading bd bi x y 0 (Some d'))" by simp
            obtain s9 R9 err9 where s9: "FlushBlock e bi x y True s8 = Some (err9, s9)"
              "flushed e True ?Rr (loading bd bi x y 0 (Some d')) err9 R9"
              "lru s9 (removeAll b (b # Lv)) (?P8(b := None)) R9" "blocks_inv (?P8(b := None)) R9 {}"
              using FlushBlock_cache [OF lru8 i8 P8b _ loading_upd(3), of e True, unfolded loading_upd] by blast
            have "dom (?P8(b := None)) = set Lv" using d6 s5(4) by auto
            then have "cache s9 Lv (Pv(b := None)) R9 {}" using s9(3,4) s5(4) by (simp add: cache_def removeAll_id)
            moreover have "get_result e bi x y just L P R None Lv (Pv(b := None)) R9"
              by (rule get_result.read_failed [OF t p sl room bdv(1) a(2) False io err s9(2)])
            moreover have "GetLockedBlockRef e bi x y just s = Some (None, s9)"
              using eq False s7(1) err s8(1) s9(1) by simp
            ultimately show ?thesis by blast
          qed
        qed
      qed
    qed
  qed
qed

end
