(* ===== verification/Gdal_Block_Flush.thy ===== *)
theory Gdal_Block_Flush
  imports Gdal_Block_Load
begin

text \<open>
  \<^verbatim>\<open>FlushCache\<close>: it returns, every block of the band leaves the cache, and what happens is a sequence of single
  flushes (\<open>flushes\<close>), with and without sub-blocking.
\<close>

section \<open>Sequences of flushes\<close>

lemma cache_bands: "cache s L P R F \<Longrightarrow> bands s = bands R"
  using lru_rest(5) by (auto simp: cache_def)

definition worse :: "CPLErr \<Rightarrow> CPLErr \<Rightarrow> CPLErr" where
  "worse err g = (if err \<noteq> CE_None then err else g)"

inductive flushes ::
    "'d driver \<Rightarrow> nat \<Rightarrow> CPLErr \<Rightarrow> nat list \<Rightarrow> (nat \<Rightarrow> raster_block option) \<Rightarrow> 'd gdal
     \<Rightarrow> CPLErr \<Rightarrow> nat list \<Rightarrow> (nat \<Rightarrow> raster_block option) \<Rightarrow> 'd gdal \<Rightarrow> bool"
  for e :: "'d driver" and bi :: nat where
  stop: "flushes e bi g L P R g L P R"
| flush: "P b = Some r \<Longrightarrow> poBand r = bi \<Longrightarrow> flushed e (g = CE_None) R r err R1 \<Longrightarrow> blocks_inv (P(b := None)) R1 {}
    \<Longrightarrow> flushes e bi (worse err g) (removeAll b L) (P(b := None)) R1 g' L' P' R' \<Longrightarrow> flushes e bi g L P R g' L' P' R'"
| regrid: "bands R bi = Some bd \<Longrightarrow> \<forall>x y. in_range bd x y \<longrightarrow> slot (bd\<lparr>papoBlocks := Some t\<rparr>) x y = slot bd x y
    \<Longrightarrow> papoBlocks bd \<noteq> None \<Longrightarrow> blocks_inv P (with_table R bi bd t) {}
    \<Longrightarrow> flushes e bi g L P (with_table R bi bd t) g' L' P' R' \<Longrightarrow> flushes e bi g L P R g' L' P' R'"

lemma flushes_trans: "flushes e bi g L P R g1 L1 P1 R1 \<Longrightarrow> flushes e bi g1 L1 P1 R1 g' L' P' R' \<Longrightarrow> flushes e bi g L P R g' L' P' R'"
  by (induction rule: flushes.induct) (blast intro: flushes.intros)+

text \<open>No block of the band is locked: what a client must see to before it flushes the band.\<close>

definition quiet_band :: "nat \<Rightarrow> (nat \<Rightarrow> raster_block option) \<Rightarrow> bool" where
  "quiet_band bi P \<longleftrightarrow> (\<forall>b r. P b = Some r \<longrightarrow> poBand r = bi \<longrightarrow> nLockCount r = 0)"

lemma quiet_band_remove: "quiet_band bi P \<Longrightarrow> quiet_band bi (P(b := None))"
  by (simp add: quiet_band_def)

lemma quiet_band_flushes: "flushes e bi g L P R g' L' P' R' \<Longrightarrow> quiet_band bi P \<Longrightarrow> quiet_band bi P'"
  by (induction rule: flushes.induct) (simp_all add: quiet_band_remove)

text \<open>A block that is in the table is flushed.\<close>

lemma flush_step:
  assumes c: "cache s L P R {}" and bd: "bands R bi = Some bd" "in_range bd x y" "slot bd x y = Some b"
    and q: "quiet_band bi P"
  shows "\<exists>s' err r R1 t. P b = Some r \<and> poBand r = bi \<and> FlushBlock e bi x y w s = Some (err, s') \<and> flushed e w R r err R1
    \<and> cache s' (removeAll b L) (P(b := None)) R1 {} \<and> bands R1 bi = Some (bd\<lparr>papoBlocks := Some t\<rparr>)
    \<and> (\<forall>x' y'. in_range bd x' y' \<longrightarrow> slot_fetch (bd\<lparr>papoBlocks := Some t\<rparr>) x' y'
         = (if x' = x \<and> y' = y then Some (Slot None) else slot_fetch bd x' y'))"
proof -
  have lru: "lru s L P R" and i: "blocks_inv P R {}" and d: "dom P = set L" using c by (auto simp: cache_def)
  obtain r where r: "P b = Some r" "poBand r = bi" "nXOff r = x" "nYOff r = y" using inv_in_table [OF i bd] by blast
  obtain s' R1 err where s': "FlushBlock e bi x y w s = Some (err, s')" "flushed e w R r err R1"
    "lru s' (removeAll b L) (P(b := None)) R1" "blocks_inv (P(b := None)) R1 {}"
    using FlushBlock_cache [OF lru i r(1), of e w] r(2-4) q r(1) by (auto simp: quiet_band_def)
  have "dom (P(b := None)) = set (removeAll b L)" using d by auto
  then have c': "cache s' (removeAll b L) (P(b := None)) R1 {}" using s'(3,4) by (simp add: cache_def)
  obtain bd2 t where "bands R (poBand r) = Some bd2" "slot_store bd2 (nXOff r) (nYOff r) None = Some (bd2\<lparr>papoBlocks := Some t\<rparr>)"
    and R1: "R1 = R\<lparr>bands := (bands R)(poBand r \<mapsto> bd2\<lparr>papoBlocks := Some t\<rparr>),
         nCacheUsed := nCacheUsed R - freed r, device := snd (written e bd2 r w (device R))\<rparr>"
    using s'(2) unfolding flushed_def by blast
  then have t: "slot_store bd x y None = Some (bd\<lparr>papoBlocks := Some t\<rparr>)" "bands R1 bi = Some (bd\<lparr>papoBlocks := Some t\<rparr>)"
    using r(2-4) bd(1) by simp_all
  have tab: "table_ok bd" using inv_band [OF i bd(1)] by (simp add: band_ok_def)
  have "papoBlocks bd \<noteq> None" "slot_fetch bd x y \<noteq> Some NoSubGrid" using slot_Some [OF bd(3)] by simp_all
  from slot_store_ok [OF tab this(1) bd(2) this(2), of None] t(1)
  have "\<forall>x' y'. in_range bd x' y' \<longrightarrow> slot_fetch (bd\<lparr>papoBlocks := Some t\<rparr>) x' y'
         = (if x' = x \<and> y' = y then Some (Slot None) else slot_fetch bd x' y')"
    by (metis option.inject)
  then show ?thesis using r(1,2) s'(1,2) c' t(2) by blast
qed

text \<open>Bands with the same dimensions and another table.\<close>

definition same_dims :: "raster_band \<Rightarrow> raster_band \<Rightarrow> bool" where
  "same_dims bd bd' \<longleftrightarrow> (\<exists>t. bd' = bd\<lparr>papoBlocks := Some t\<rparr>)"

lemma same_dimsD:
  assumes "same_dims bd bd'"
  shows "in_range bd' = in_range bd" "nBlocksPerRow bd' = nBlocksPerRow bd" "nBlocksPerColumn bd' = nBlocksPerColumn bd"
    "nSubBlocksPerRow bd' = nSubBlocksPerRow bd" "nSubBlocksPerColumn bd' = nSubBlocksPerColumn bd"
    "bSubBlockingActive bd' = bSubBlockingActive bd" "papoBlocks bd' \<noteq> None" "eFlushBlockErr bd' = eFlushBlockErr bd"
  using assms by (auto simp: same_dims_def)

lemma same_dims_trans: "same_dims a b \<Longrightarrow> same_dims b c \<Longrightarrow> same_dims a c"
  by (auto simp: same_dims_def)

lemma same_dims_refl: "papoBlocks bd \<noteq> None \<Longrightarrow> same_dims bd bd"
  by (cases bd) (auto simp: same_dims_def)

section \<open>Without sub-blocking\<close>

lemma flush_blocks_cache:
  "cache s L P R {} \<Longrightarrow> bands R bi = Some bd \<Longrightarrow> papoBlocks bd \<noteq> None \<Longrightarrow> \<not> bSubBlockingActive bd
    \<Longrightarrow> (\<And>x y. (x, y) \<in> set ps \<Longrightarrow> in_range bd x y) \<Longrightarrow> quiet_band bi P
    \<Longrightarrow> \<exists>s' g' L' P' R' bd'. flush_blocks e bi ps g s = Some (g', s') \<and> cache s' L' P' R' {}
      \<and> flushes e bi g L P R g' L' P' R' \<and> bands R' bi = Some bd' \<and> same_dims bd bd'
      \<and> (\<forall>x y. in_range bd x y \<longrightarrow> (x, y) \<in> set ps \<or> slot bd x y = None \<longrightarrow> slot bd' x y = None)"
proof (induction ps arbitrary: s g L P R bd)
  case Nil
  then show ?case using flushes.stop same_dims_refl [OF Nil(3)] by fastforce
next
  case (Cons p ps)
  obtain x y where p: "p = (x, y)" by fastforce
  have xy: "in_range bd x y" using Cons.prems(5) p by simp
  have lru: "lru s L P R" and i: "blocks_inv P R {}" using Cons.prems(1) by (auto simp: cache_def)
  have s: "bands s bi = Some bd" using lru_rest(5) [OF lru] Cons.prems(2) by simp
  obtain t where t: "papoBlocks bd = Some t" using Cons.prems(3) by auto
  have "plain_ok bd t" using inv_band [OF i Cons.prems(2)] t Cons.prems(4) by (simp add: band_ok_def table_ok_def)
  from plain_fetch [OF t Cons.prems(4) this xy] obtain c where
    c: "load t (x + y * nBlocksPerRow bd) = Some c" "\<forall>g. c \<noteq> GridCell g" "slot bd x y = (case c of BlockCell b \<Rightarrow> Some b | _ \<Rightarrow> None)"
    by (auto simp: slot_def)
  show ?case
  proof (cases c)
    case NullCell
    then have f: "flush_blocks e bi (p # ps) g s = flush_blocks e bi ps g s" using p s t c(1) by simp
    have n: "slot bd x y = None" using c(3) NullCell by simp
    from Cons.IH [OF Cons.prems(1-4) _ Cons.prems(6), of g] Cons.prems(5) obtain s' g' L' P' R' bd' where
      *: "flush_blocks e bi ps g s = Some (g', s')" "cache s' L' P' R' {}" "flushes e bi g L P R g' L' P' R'"
      "bands R' bi = Some bd'" "same_dims bd bd'"
      "\<forall>x y. in_range bd x y \<longrightarrow> (x, y) \<in> set ps \<or> slot bd x y = None \<longrightarrow> slot bd' x y = None" by (auto simp: p)
    have "\<forall>x y. in_range bd x y \<longrightarrow> (x, y) \<in> set (p # ps) \<or> slot bd x y = None \<longrightarrow> slot bd' x y = None"
      using *(6) n p by auto
    then show ?thesis using * f by metis
  next
    case (BlockCell b)
    then have sl: "slot bd x y = Some b" using c(3) by simp
    obtain s1 err r R1 t1 where st: "P b = Some r" "poBand r = bi" "FlushBlock e bi x y (g = CE_None) s = Some (err, s1)"
      "flushed e (g = CE_None) R r err R1" "cache s1 (removeAll b L) (P(b := None)) R1 {}"
      "bands R1 bi = Some (bd\<lparr>papoBlocks := Some t1\<rparr>)"
      "\<forall>x' y'. in_range bd x' y' \<longrightarrow> slot_fetch (bd\<lparr>papoBlocks := Some t1\<rparr>) x' y'
         = (if x' = x \<and> y' = y then Some (Slot None) else slot_fetch bd x' y')"
      using flush_step [OF Cons.prems(1,2) xy sl Cons.prems(6), of e "g = CE_None"] by blast
    let ?bd = "bd\<lparr>papoBlocks := Some t1\<rparr>"
    have f: "flush_blocks e bi (p # ps) g s = flush_blocks e bi ps (worse err g) s1"
      using p s t c(1) BlockCell st(3) by (simp add: worse_def)
    have sd: "same_dims bd ?bd" by (auto simp: same_dims_def)
    have "\<not> bSubBlockingActive ?bd" "papoBlocks ?bd \<noteq> None" "\<And>x y. (x, y) \<in> set ps \<Longrightarrow> in_range ?bd x y"
      using Cons.prems(4,5) by simp_all
    from Cons.IH [OF st(5,6) this(2,1,3) quiet_band_remove [OF Cons.prems(6)], of "worse err g"] obtain s' g' L' P' R' bd' where
      *: "flush_blocks e bi ps (worse err g) s1 = Some (g', s')" "cache s' L' P' R' {}"
      "flushes e bi (worse err g) (removeAll b L) (P(b := None)) R1 g' L' P' R'"
      "bands R' bi = Some bd'" "same_dims ?bd bd'"
      "\<forall>x y. in_range ?bd x y \<longrightarrow> (x, y) \<in> set ps \<or> slot ?bd x y = None \<longrightarrow> slot bd' x y = None" by blast
    have "slot bd' x' y' = None" if h: "in_range bd x' y'" "(x', y') \<in> set (p # ps) \<or> slot bd x' y' = None" for x' y'
    proof -
      have "slot ?bd x' y' = None" if "(x', y') = (x, y) \<or> slot bd x' y' = None"
        using that st(7) h(1) by (auto simp: slot_def)
      then show ?thesis using *(6) h p by auto
    qed
    moreover have "flushes e bi g L P R g' L' P' R'"
      using flushes.flush [OF st(1,2,4) _ *(3)] st(5) by (simp add: cache_def)
    ultimately show ?thesis using * f same_dims_trans [OF sd *(5)] by metis
  next
    case (GridCell g')
    then show ?thesis using c(2) by simp
  qed
qed

lemma positions_iff: "(x, y) \<in> set (positions w h) \<longleftrightarrow> 0 \<le> x \<and> x < w \<and> 0 \<le> y \<and> y < h"
  by (auto simp: positions_def image_iff)

section \<open>With sub-blocking\<close>

text \<open>An entry of a grid is the entry of the table for its position.\<close>

lemma grid_entry:
  assumes t: "papoBlocks bd = Some t" "bSubBlockingActive bd" and g: "load t (sx + sy * nSubBlocksPerRow bd) = Some (GridCell g)"
    and xy: "0 \<le> x" "x < 64" "0 \<le> y" "y < 64"
  shows "slot_fetch bd (x + sx * 64) (y + sy * 64) = map_option Slot (load g (x + y * 64))"
proof -
  have "TO_SUBBLOCK (x + sx * 64) = sx" "TO_SUBBLOCK (y + sy * 64) = sy"
    "WITHIN_SUBBLOCK (x + sx * 64) = x" "WITHIN_SUBBLOCK (y + sy * 64) = y"
    using xy by (simp_all add: TO_SUBBLOCK_div WITHIN_SUBBLOCK_mod)
  then show ?thesis using t g by (simp add: slot_fetch_def SUBBLOCK_SIZE_def)
qed

lemma grid_load:
  assumes "sub_ok bd t" "load t (sx + sy * nSubBlocksPerRow bd) = Some (GridCell g)" "0 \<le> x" "x < 64" "0 \<le> y" "y < 64"
  shows "\<exists>p. load g (x + y * 64) = Some p"
proof -
  have "length g = 4096" using load_in [OF assms(2)] assms(1) by (auto simp: sub_ok_def)
  then show ?thesis using index_range [of x 64 y 64] assms(3-6) by (simp add: load_def)
qed

lemma flush_grid_cache:
  assumes "cache s L P R {}" "bands R bi = Some bd" "papoBlocks bd = Some t" "bSubBlockingActive bd"
    and "0 \<le> sx" "sx < nSubBlocksPerRow bd" "load t (sx + sy * nSubBlocksPerRow bd) = Some (GridCell g0)"
    and "\<And>x y. (x, y) \<in> set ps \<Longrightarrow> 0 \<le> x \<and> x < 64 \<and> 0 \<le> y \<and> y < 64" "quiet_band bi P"
  shows "\<exists>s' g' L' P' R' bd' t' gr. flush_grid e bi sx sy ps g s = Some (g', s') \<and> cache s' L' P' R' {}
      \<and> flushes e bi g L P R g' L' P' R' \<and> bands R' bi = Some bd' \<and> same_dims bd bd' \<and> papoBlocks bd' = Some t'
      \<and> load t' (sx + sy * nSubBlocksPerRow bd) = Some (GridCell gr)
      \<and> (\<forall>x y. in_range bd x y \<longrightarrow> slot bd x y = None \<longrightarrow> slot bd' x y = None)
      \<and> (\<forall>x y. (x, y) \<in> set ps \<longrightarrow> in_range bd (x + sx * 64) (y + sy * 64) \<longrightarrow> slot bd' (x + sx * 64) (y + sy * 64) = None)"
  using assms
proof (induction ps arbitrary: s g L P R bd t g0)
  case Nil
  have "same_dims bd bd" using same_dims_refl [of bd] Nil(3) by simp
  moreover have "flush_grid e bi sx sy [] g s = Some (g, s)" by simp
  moreover have "\<forall>x y. in_range bd x y \<longrightarrow> slot bd x y = None \<longrightarrow> slot bd x y = None" by simp
  moreover have "\<forall>x y. (x, y) \<in> set [] \<longrightarrow> in_range bd (x + sx * 64) (y + sy * 64) \<longrightarrow> slot bd (x + sx * 64) (y + sy * 64) = None"
    by simp
  ultimately show ?case using Nil flushes.stop [of e bi g L P R] by metis
next
  case (Cons p ps)
  obtain x y where p: "p = (x, y)" by fastforce
  have xy: "0 \<le> x" "x < 64" "0 \<le> y" "y < 64" using Cons.prems(8) p by auto
  let ?x = "x + sx * 64" let ?y = "y + sy * 64" let ?n = "sx + sy * nSubBlocksPerRow bd"
  have lru: "lru s L P R" and i: "blocks_inv P R {}" using Cons.prems(1) by (auto simp: cache_def)
  have s: "bands s bi = Some bd" using lru_rest(5) [OF lru] Cons.prems(2) by simp
  have sub: "sub_ok bd t" using inv_band [OF i Cons.prems(2)] Cons.prems(3,4) by (simp add: band_ok_def table_ok_def)
  obtain q where q: "load g0 (x + y * 64) = Some q" using grid_load [OF sub Cons.prems(7) xy] by blast
  have sf: "slot_fetch bd ?x ?y = Some (Slot q)" using grid_entry [OF Cons.prems(3,4,7) xy] q by simp
  have ps: "\<And>x y. (x, y) \<in> set ps \<Longrightarrow> 0 \<le> x \<and> x < 64 \<and> 0 \<le> y \<and> y < 64" using Cons.prems(8) by (metis list.set_intros(2))
  show ?case
  proof (cases q)
    case None
    then have f: "flush_grid e bi sx sy (p # ps) g s = flush_grid e bi sx sy ps g s"
      using p s Cons.prems(3,7) q by (simp add: SUBBLOCK_SIZE_def)
    have n: "slot bd ?x ?y = None" using sf None by (simp add: slot_def)
    from Cons.IH [OF Cons.prems(1-7) ps Cons.prems(9), of g] obtain s' g' L' P' R' bd' t' gr where
      *: "flush_grid e bi sx sy ps g s = Some (g', s')" "cache s' L' P' R' {}" "flushes e bi g L P R g' L' P' R'"
      "bands R' bi = Some bd'" "same_dims bd bd'" "papoBlocks bd' = Some t'" "load t' ?n = Some (GridCell gr)"
      "\<forall>x y. in_range bd x y \<longrightarrow> slot bd x y = None \<longrightarrow> slot bd' x y = None"
      "\<forall>x y. (x, y) \<in> set ps \<longrightarrow> in_range bd (x + sx * 64) (y + sy * 64) \<longrightarrow> slot bd' (x + sx * 64) (y + sy * 64) = None"
      by blast
    have "\<forall>x y. (x, y) \<in> set (p # ps) \<longrightarrow> in_range bd (x + sx * 64) (y + sy * 64) \<longrightarrow> slot bd' (x + sx * 64) (y + sy * 64) = None"
      using *(8,9) n p by auto
    then show ?thesis using *(1-8) f by metis
  next
    case (Some b)
    have r: "in_range bd ?x ?y" using sub Cons.prems(5-7) xy q Some unfolding sub_ok_def by blast
    have sl: "slot bd ?x ?y = Some b" using sf Some by (simp add: slot_def)
    obtain s1 err r1 R1 t1 where st: "P b = Some r1" "poBand r1 = bi" "FlushBlock e bi ?x ?y (g = CE_None) s = Some (err, s1)"
      "flushed e (g = CE_None) R r1 err R1" "cache s1 (removeAll b L) (P(b := None)) R1 {}"
      "bands R1 bi = Some (bd\<lparr>papoBlocks := Some t1\<rparr>)"
      "\<forall>x' y'. in_range bd x' y' \<longrightarrow> slot_fetch (bd\<lparr>papoBlocks := Some t1\<rparr>) x' y'
         = (if x' = ?x \<and> y' = ?y then Some (Slot None) else slot_fetch bd x' y')"
      using flush_step [OF Cons.prems(1,2) r sl Cons.prems(9), of e "g = CE_None"] by blast
    let ?bd = "bd\<lparr>papoBlocks := Some t1\<rparr>"
    have f: "flush_grid e bi sx sy (p # ps) g s = flush_grid e bi sx sy ps (worse err g) s1"
      using p s Cons.prems(3,7) q Some st(3) by (simp add: worse_def SUBBLOCK_SIZE_def)
    have sd: "same_dims bd ?bd" by (auto simp: same_dims_def)
    have i1: "blocks_inv (P(b := None)) R1 {}" using st(5) by (simp add: cache_def)
    have sub1: "sub_ok ?bd t1" using inv_band [OF i1 st(6)] Cons.prems(4) by (simp add: band_ok_def table_ok_def)
    have "TO_SUBBLOCK ?x = sx" "TO_SUBBLOCK ?y = sy" using xy by (simp_all add: TO_SUBBLOCK_div)
    then obtain g1 where g1: "load t1 (sx + sy * nSubBlocksPerRow ?bd) = Some (GridCell g1)"
      using sub_fetch [of ?bd t1 ?x ?y] sub1 st(7) r Cons.prems(4) by auto
    have h: "papoBlocks ?bd = Some t1" "bSubBlockingActive ?bd" "sx < nSubBlocksPerRow ?bd"
      using Cons.prems(4,6) by simp_all
    from Cons.IH [OF st(5,6) h(1,2) Cons.prems(5) h(3) g1 ps quiet_band_remove [OF Cons.prems(9)], of "worse err g"] obtain s' g' L' P' R' bd' t' gr where
      *: "flush_grid e bi sx sy ps (worse err g) s1 = Some (g', s')" "cache s' L' P' R' {}"
      "flushes e bi (worse err g) (removeAll b L) (P(b := None)) R1 g' L' P' R'"
      "bands R' bi = Some bd'" "same_dims ?bd bd'" "papoBlocks bd' = Some t'"
      "load t' (sx + sy * nSubBlocksPerRow ?bd) = Some (GridCell gr)"
      "\<forall>x y. in_range ?bd x y \<longrightarrow> slot ?bd x y = None \<longrightarrow> slot bd' x y = None"
      "\<forall>x y. (x, y) \<in> set ps \<longrightarrow> in_range ?bd (x + sx * 64) (y + sy * 64) \<longrightarrow> slot bd' (x + sx * 64) (y + sy * 64) = None"
      by blast
    have n: "slot ?bd x' y' = None" if "in_range bd x' y'" "(x' = ?x \<and> y' = ?y) \<or> slot bd x' y' = None" for x' y'
      using that st(7) by (auto simp: slot_def)
    have "\<forall>x y. in_range bd x y \<longrightarrow> slot bd x y = None \<longrightarrow> slot bd' x y = None" using *(8) n by simp
    moreover have "\<forall>x y. (x, y) \<in> set (p # ps) \<longrightarrow> in_range bd (x + sx * 64) (y + sy * 64) \<longrightarrow> slot bd' (x + sx * 64) (y + sy * 64) = None"
      using *(8,9) n p by auto
    moreover have "flushes e bi g L P R g' L' P' R'"
      using flushes.flush [OF st(1,2,4) i1 *(3)] .
    moreover have "load t' ?n = Some (GridCell gr)" using *(7) by simp
    ultimately show ?thesis using *(1,2,4-6) f same_dims_trans [OF sd *(5)] by metis
  qed
qed

text \<open>Freeing a grid whose blocks are gone.\<close>

lemma free_grid:
  assumes c: "cache s L P R {}" and bd: "bands R bi = Some bd" "papoBlocks bd = Some t" "bSubBlockingActive bd"
    and s: "0 \<le> sx" "sx < nSubBlocksPerRow bd" "load t (sx + sy * nSubBlocksPerRow bd) = Some (GridCell g)"
    and empty: "\<And>x y. 0 \<le> x \<Longrightarrow> x < 64 \<Longrightarrow> 0 \<le> y \<Longrightarrow> y < 64 \<Longrightarrow> in_range bd (x + sx * 64) (y + sy * 64)
      \<Longrightarrow> slot bd (x + sx * 64) (y + sy * 64) = None"
  shows "\<exists>t'. store t (sx + sy * nSubBlocksPerRow bd) NullCell = Some t'
    \<and> cache (set_band bi (bd\<lparr>papoBlocks := Some t'\<rparr>) s) L P (with_table R bi bd t') {}
    \<and> (\<forall>x y. in_range bd x y \<longrightarrow> slot (bd\<lparr>papoBlocks := Some t'\<rparr>) x y = slot bd x y)"
proof -
  have lru: "lru s L P R" and i: "blocks_inv P R {}" using c by (auto simp: cache_def)
  have ok: "band_ok bd" by (rule inv_band [OF i bd(1)])
  then have sub: "sub_ok bd t" and pos: "0 < nBlocksPerRow bd" "0 < nBlocksPerColumn bd"
    using bd by (simp_all add: band_ok_def table_ok_def)
  let ?n = "sx + sy * nSubBlocksPerRow bd"
  obtain t' where t': "store t ?n NullCell = Some t'" using s(3) by (auto simp: load_some store_def)
  let ?bd = "bd\<lparr>papoBlocks := Some t'\<rparr>"
  have ld: "load t' m = (if m = ?n then Some NullCell else load t m)" for m using load_store [OF t'] .
  have st: "set t' \<subseteq> insert NullCell (set t)" "length t' = length t"
    using t' by (auto simp: store_some set_update_subset_insert)
  have "sub_ok bd t'" unfolding sub_ok_def
  proof (intro conjI allI impI ballI)
    fix sx' sy' x y g' b
    assume h: "0 \<le> sx'" "sx' < nSubBlocksPerRow bd" "0 \<le> x" "x < 64" "0 \<le> y" "y < 64"
      "load t' (sx' + sy' * nSubBlocksPerRow bd) = Some (GridCell g')" "load g' (x + y * 64) = Some (Some b)"
    then have "load t (sx' + sy' * nSubBlocksPerRow bd) = Some (GridCell g')" using ld by (auto split: if_splits)
    then show "in_range bd (x + sx' * 64) (y + sy' * 64)" using sub h unfolding sub_ok_def by blast
  qed (use sub st in \<open>auto simp: sub_ok_def\<close>)
  then have tab: "table_ok ?bd" using pos bd(3) by (simp add: table_ok_papo)
  have sl: "slot ?bd x y = slot bd x y" if r: "in_range bd x y" for x y
  proof (cases "sub_index bd x y = ?n")
    case True
    then have "TO_SUBBLOCK x = sx" "TO_SUBBLOCK y = sy"
      using index_inj [OF sub_to_range(1,2) [OF sub r] s(1,2)] by simp_all
    then have "x = WITHIN_SUBBLOCK x + sx * 64" "y = WITHIN_SUBBLOCK y + sy * 64"
      unfolding TO_SUBBLOCK_div WITHIN_SUBBLOCK_mod using mod_div_mult_eq [of x 64] mod_div_mult_eq [of y 64] by simp_all
    then have "slot bd x y = None" using empty [OF within_range within_range, of x y] r by metis
    moreover have "slot_fetch ?bd x y = Some NoSubGrid" using True ld bd(3) by (simp add: slot_fetch_def)
    ultimately show ?thesis by (simp add: slot_def)
  next
    case False
    then have "slot_fetch ?bd x y = slot_fetch bd x y" using ld bd(2,3) by (simp add: slot_fetch_def)
    then show ?thesis by (simp add: slot_def)
  qed
  have "blocks_inv P (with_table R bi bd t') {}"
    using bd(2) by (intro inv_same_slots [OF i bd(1) _ tab sl]) simp_all
  moreover have "lru (set_band bi ?bd s) L P (with_table R bi bd t')"
    using lru_set(3) [OF lru, of "(bands R)(bi \<mapsto> ?bd)"] lru_rest(5) [OF lru] by (simp add: set_band_def)
  ultimately show ?thesis using t' sl c by (auto simp: cache_def)
qed

lemma flush_subblocks_cache:
  assumes "cache s L P R {}" "bands R bi = Some bd" "papoBlocks bd \<noteq> None" "bSubBlockingActive bd"
    and "\<And>x y. (x, y) \<in> set ps \<Longrightarrow> 0 \<le> x \<and> x < nSubBlocksPerRow bd \<and> 0 \<le> y \<and> y < nSubBlocksPerColumn bd"
    and "quiet_band bi P"
  shows "\<exists>s' g' L' P' R' bd'. flush_subblocks e bi ps g s = Some (g', s') \<and> cache s' L' P' R' {}
      \<and> flushes e bi g L P R g' L' P' R' \<and> bands R' bi = Some bd' \<and> same_dims bd bd'
      \<and> (\<forall>x y. in_range bd x y \<longrightarrow> (TO_SUBBLOCK x, TO_SUBBLOCK y) \<in> set ps \<or> slot bd x y = None \<longrightarrow> slot bd' x y = None)"
  using assms
proof (induction ps arbitrary: s g L P R bd)
  case Nil
  then show ?case using flushes.stop same_dims_refl [OF Nil(3)] by fastforce
next
  case (Cons p ps)
  obtain sx sy where p: "p = (sx, sy)" by fastforce
  have sxy: "0 \<le> sx" "sx < nSubBlocksPerRow bd" "0 \<le> sy" "sy < nSubBlocksPerColumn bd" using Cons.prems(5) p by auto
  have ps: "\<And>x y. (x, y) \<in> set ps \<Longrightarrow> 0 \<le> x \<and> x < nSubBlocksPerRow bd \<and> 0 \<le> y \<and> y < nSubBlocksPerColumn bd"
    using Cons.prems(5) by (metis list.set_intros(2))
  have lru: "lru s L P R" and i: "blocks_inv P R {}" using Cons.prems(1) by (auto simp: cache_def)
  have s: "bands s bi = Some bd" using lru_rest(5) [OF lru] Cons.prems(2) by simp
  obtain t where t: "papoBlocks bd = Some t" using Cons.prems(3) by auto
  let ?n = "sx + sy * nSubBlocksPerRow bd"
  have sub: "sub_ok bd t" using inv_band [OF i Cons.prems(2)] t Cons.prems(4) by (simp add: band_ok_def table_ok_def)
  obtain c where c: "load t ?n = Some c" using index_range [OF sxy] sub by (auto simp: load_def sub_ok_def)
  then have nb: "\<forall>b. c \<noteq> BlockCell b" using load_in [OF c] sub by (auto simp: sub_ok_def)
  show ?case
  proof (cases "c = NullCell")
    case True
    then have f: "flush_subblocks e bi (p # ps) g s = flush_subblocks e bi ps g s" using p s t c by (simp add: Let_def)
    have n: "slot bd x y = None" if "(TO_SUBBLOCK x, TO_SUBBLOCK y) = p" for x y
      using that p c True t Cons.prems(4) by (auto simp: slot_def slot_fetch_def)
    from Cons.IH [OF Cons.prems(1-4) ps Cons.prems(6), of g] obtain s' g' L' P' R' bd' where
      *: "flush_subblocks e bi ps g s = Some (g', s')" "cache s' L' P' R' {}" "flushes e bi g L P R g' L' P' R'"
      "bands R' bi = Some bd'" "same_dims bd bd'"
      "\<forall>x y. in_range bd x y \<longrightarrow> (TO_SUBBLOCK x, TO_SUBBLOCK y) \<in> set ps \<or> slot bd x y = None \<longrightarrow> slot bd' x y = None"
      by blast
    have "\<forall>x y. in_range bd x y \<longrightarrow> (TO_SUBBLOCK x, TO_SUBBLOCK y) \<in> set (p # ps) \<or> slot bd x y = None \<longrightarrow> slot bd' x y = None"
      using *(6) n by auto
    then show ?thesis using *(1-5) f by metis
  next
    case False
    then obtain g0 where g0: "load t ?n = Some (GridCell g0)" using c nb by (cases c) auto
    have pos: "\<And>x y. (x, y) \<in> set (positions 64 64) \<Longrightarrow> 0 \<le> x \<and> x < 64 \<and> 0 \<le> y \<and> y < 64" by (simp add: positions_iff)
    from flush_grid_cache [OF Cons.prems(1,2) t Cons.prems(4) sxy(1,2) g0 _ Cons.prems(6), of "positions 64 64" e g] pos
    obtain s1 g1 L1 P1 R1 bd1 t1 gr where
      *: "flush_grid e bi sx sy (positions 64 64) g s = Some (g1, s1)" "cache s1 L1 P1 R1 {}"
      "flushes e bi g L P R g1 L1 P1 R1" "bands R1 bi = Some bd1" "same_dims bd bd1" "papoBlocks bd1 = Some t1"
      "load t1 ?n = Some (GridCell gr)" "\<forall>x y. in_range bd x y \<longrightarrow> slot bd x y = None \<longrightarrow> slot bd1 x y = None"
      "\<forall>x y. (x, y) \<in> set (positions 64 64) \<longrightarrow> in_range bd (x + sx * 64) (y + sy * 64) \<longrightarrow> slot bd1 (x + sx * 64) (y + sy * 64) = None"
      by blast
    note sd = same_dimsD [OF *(5)]
    have e1: "slot bd1 (x + sx * 64) (y + sy * 64) = None"
      if "0 \<le> x" "x < 64" "0 \<le> y" "y < 64" "in_range bd1 (x + sx * 64) (y + sy * 64)" for x y
      using *(9) that sd(1) by (simp add: positions_iff)
    have h1: "bSubBlockingActive bd1" "sx < nSubBlocksPerRow bd1" "load t1 (sx + sy * nSubBlocksPerRow bd1) = Some (GridCell gr)"
      using Cons.prems(4) sxy(2) *(7) sd by simp_all
    from free_grid [OF *(2,4,6) h1(1) sxy(1) h1(2,3) e1] obtain t2 where
      t2: "store t1 (sx + sy * nSubBlocksPerRow bd1) NullCell = Some t2"
      "cache (set_band bi (bd1\<lparr>papoBlocks := Some t2\<rparr>) s1) L1 P1 (with_table R1 bi bd1 t2) {}"
      "\<forall>x y. in_range bd1 x y \<longrightarrow> slot (bd1\<lparr>papoBlocks := Some t2\<rparr>) x y = slot bd1 x y" by blast
    let ?bd2 = "bd1\<lparr>papoBlocks := Some t2\<rparr>"
    have sd2: "same_dims bd1 ?bd2" by (auto simp: same_dims_def)
    have h2: "bands (with_table R1 bi bd1 t2) bi = Some ?bd2" "papoBlocks ?bd2 \<noteq> None" "bSubBlockingActive ?bd2"
      using Cons.prems(4) sd(6) by simp_all
    have ps2: "\<And>x y. (x, y) \<in> set ps \<Longrightarrow> 0 \<le> x \<and> x < nSubBlocksPerRow ?bd2 \<and> 0 \<le> y \<and> y < nSubBlocksPerColumn ?bd2"
      using ps sd by simp
    from Cons.IH [OF t2(2) h2 ps2 quiet_band_flushes [OF *(3) Cons.prems(6)], of g1] obtain s' g' L' P' R' bd' where
      **: "flush_subblocks e bi ps g1 (set_band bi ?bd2 s1) = Some (g', s')" "cache s' L' P' R' {}"
      "flushes e bi g1 L1 P1 (with_table R1 bi bd1 t2) g' L' P' R'" "bands R' bi = Some bd'" "same_dims ?bd2 bd'"
      "\<forall>x y. in_range ?bd2 x y \<longrightarrow> (TO_SUBBLOCK x, TO_SUBBLOCK y) \<in> set ps \<or> slot ?bd2 x y = None \<longrightarrow> slot bd' x y = None"
      by blast
    have "bands s1 bi = Some bd1" using *(4) cache_bands [OF *(2)] by simp
    then have f: "flush_subblocks e bi (p # ps) g s = flush_subblocks e bi ps g1 (set_band bi ?bd2 s1)"
      using p s t c False *(1,6) t2(1) sd(4) by (simp add: Let_def SUBBLOCK_SIZE_def)
    have "slot bd' x y = None" if r: "in_range bd x y" and a: "(TO_SUBBLOCK x, TO_SUBBLOCK y) \<in> set (p # ps) \<or> slot bd x y = None" for x y
    proof -
      have r2: "in_range ?bd2 x y" "in_range bd1 x y" using r sd(1) by simp_all
      show ?thesis
      proof (cases "(TO_SUBBLOCK x, TO_SUBBLOCK y) = p")
        case True
        then have "x = WITHIN_SUBBLOCK x + sx * 64" "y = WITHIN_SUBBLOCK y + sy * 64" using p
          unfolding TO_SUBBLOCK_div WITHIN_SUBBLOCK_mod using mod_div_mult_eq [of x 64] mod_div_mult_eq [of y 64] by simp_all
        then have "slot bd1 x y = None" using e1 [OF within_range within_range, of x y] r2(2) by metis
        then show ?thesis using **(6) r2 t2(3) by simp
      next
        case False
        then show ?thesis using **(6) r2 a t2(3) *(8) r by auto
      qed
    qed
    moreover have "flushes e bi g L P R g' L' P' R'"
    proof (rule flushes_trans [OF *(3)], rule flushes.regrid [OF *(4) t2(3) _ _ **(3)])
      show "papoBlocks bd1 \<noteq> None" using *(6) by simp
      show "blocks_inv P1 (with_table R1 bi bd1 t2) {}" using t2(2) by (simp add: cache_def)
    qed
    ultimately show ?thesis using **(1,2,4) f same_dims_trans [OF *(5) same_dims_trans [OF sd2 **(5)]] by metis
  qed
qed

section \<open>FlushCache\<close>

definition clear_error :: "nat \<Rightarrow> raster_band \<Rightarrow> 'd gdal \<Rightarrow> 'd gdal" where
  "clear_error bi bd R = (if eFlushBlockErr bd \<noteq> CE_None
     then R\<lparr>bands := (bands R)(bi \<mapsto> bd\<lparr>eFlushBlockErr := CE_None\<rparr>)\<rparr> else R)"

lemma clear_error_cache:
  assumes c: "cache s L P R {}" and bd: "bands R bi = Some bd"
  shows "cache (if eFlushBlockErr bd \<noteq> CE_None then set_band bi (bd\<lparr>eFlushBlockErr := CE_None\<rparr>) s else s) L P (clear_error bi bd R) {}
    \<and> bands (clear_error bi bd R) bi = Some (bd\<lparr>eFlushBlockErr := CE_None\<rparr>)"
proof (cases "eFlushBlockErr bd = CE_None")
  case True
  moreover from this have "bd\<lparr>eFlushBlockErr := CE_None\<rparr> = bd" by (cases bd) simp
  ultimately show ?thesis using assms by (simp add: clear_error_def)
next
  case False
  have lru: "lru s L P R" and i: "blocks_inv P R {}" using c by (auto simp: cache_def)
  have "blocks_inv P (clear_error bi bd R) {}"
    using inv_band_flags [OF i bd, of "bd\<lparr>eFlushBlockErr := CE_None\<rparr>" CE_None 0] False by (simp add: clear_error_def)
  moreover have "lru (set_band bi (bd\<lparr>eFlushBlockErr := CE_None\<rparr>) s) L P (clear_error bi bd R)"
    using lru_set(3) [OF lru] lru_rest(5) [OF lru] False by (simp add: set_band_def clear_error_def)
  ultimately show ?thesis using c False by (simp add: cache_def clear_error_def)
qed

lemma FlushCache_cache:
  assumes c: "cache s L P R {}" and bd: "bands R bi = Some bd" and q: "quiet_band bi P"
  shows "\<exists>s' g' L' P' R'. FlushCache e bi s = Some (g', s') \<and> cache s' L' P' R' {}
      \<and> flushes e bi (eFlushBlockErr bd) L P (clear_error bi bd R) g' L' P' R'
      \<and> (\<forall>b r. P' b = Some r \<longrightarrow> poBand r \<noteq> bi)"
proof -
  let ?bd = "bd\<lparr>eFlushBlockErr := CE_None\<rparr>" let ?R = "clear_error bi bd R"
  define s1 where "s1 = (if eFlushBlockErr bd \<noteq> CE_None then set_band bi ?bd s else s)"
  have c1: "cache s1 L P ?R {}" and b1: "bands ?R bi = Some ?bd"
    using clear_error_cache [OF c bd] by (simp_all add: s1_def)
  have sb: "bands s bi = Some bd" using cache_bands [OF c] bd by simp
  have i1: "blocks_inv P ?R {}" using c1 by (simp add: cache_def)
  show ?thesis
  proof (cases "papoBlocks bd")
    case None
    then have "FlushCache e bi s = Some (eFlushBlockErr bd, s1)" using sb by (simp add: FlushCache_def s1_def)
    moreover have "poBand r \<noteq> bi" if "P b = Some r" for b r
      using inv_block [OF i1 that] b1 None by (auto simp: block_ok_def)
    ultimately show ?thesis using c1 flushes.stop by blast
  next
    case (Some t)
    have gone: "poBand r \<noteq> bi" if "cache s' L' P' R' {}" "bands R' bi = Some bd'"
      "\<forall>x y. in_range bd' x y \<longrightarrow> slot bd' x y = None" "P' b = Some r" for s' L' P' R' bd' b r
      using block_placed [of P' R' "{}" b r] that by (auto simp: cache_def)
    show ?thesis
    proof (cases "bSubBlockingActive bd")
      case False
      have "\<And>x y. (x, y) \<in> set (positions (nBlocksPerRow bd) (nBlocksPerColumn bd)) \<Longrightarrow> in_range ?bd x y"
        by (simp add: positions_iff in_range_def)
      moreover have "papoBlocks ?bd \<noteq> None" "\<not> bSubBlockingActive ?bd" using Some False by simp_all
      ultimately obtain s' g' L' P' R' bd' where
        *: "flush_blocks e bi (positions (nBlocksPerRow bd) (nBlocksPerColumn bd)) (eFlushBlockErr bd) s1 = Some (g', s')"
        "cache s' L' P' R' {}" "flushes e bi (eFlushBlockErr bd) L P ?R g' L' P' R'" "bands R' bi = Some bd'" "same_dims ?bd bd'"
        "\<forall>x y. in_range ?bd x y \<longrightarrow> (x, y) \<in> set (positions (nBlocksPerRow bd) (nBlocksPerColumn bd)) \<or> slot ?bd x y = None \<longrightarrow> slot bd' x y = None"
        using flush_blocks_cache [OF c1 b1 _ _ _ q, of "positions (nBlocksPerRow bd) (nBlocksPerColumn bd)" e "eFlushBlockErr bd"] by blast
      have "\<forall>x y. in_range bd' x y \<longrightarrow> slot bd' x y = None"
        using *(6) same_dimsD(1) [OF *(5)] by (simp add: positions_iff in_range_def)
      moreover have "FlushCache e bi s = Some (g', s')"
        using sb Some False *(1) by (simp add: FlushCache_def s1_def)
      ultimately show ?thesis using *(2,3) gone [OF *(2,4)] by blast
    next
      case True
      have "\<And>x y. (x, y) \<in> set (positions (nSubBlocksPerRow bd) (nSubBlocksPerColumn bd)) \<Longrightarrow>
          0 \<le> x \<and> x < nSubBlocksPerRow ?bd \<and> 0 \<le> y \<and> y < nSubBlocksPerColumn ?bd"
        by (simp add: positions_iff)
      moreover have p: "papoBlocks ?bd = Some t" "bSubBlockingActive ?bd" using Some True by simp_all
      moreover have "papoBlocks ?bd \<noteq> None" using Some by simp
      ultimately obtain s' g' L' P' R' bd' where
        *: "flush_subblocks e bi (positions (nSubBlocksPerRow bd) (nSubBlocksPerColumn bd)) (eFlushBlockErr bd) s1 = Some (g', s')"
        "cache s' L' P' R' {}" "flushes e bi (eFlushBlockErr bd) L P ?R g' L' P' R'" "bands R' bi = Some bd'" "same_dims ?bd bd'"
        "\<forall>x y. in_range ?bd x y \<longrightarrow> (TO_SUBBLOCK x, TO_SUBBLOCK y) \<in> set (positions (nSubBlocksPerRow bd) (nSubBlocksPerColumn bd)) \<or> slot ?bd x y = None \<longrightarrow> slot bd' x y = None"
        using flush_subblocks_cache [OF c1 b1 _ _ _ q, of "positions (nSubBlocksPerRow bd) (nSubBlocksPerColumn bd)" e "eFlushBlockErr bd"] by blast
      have "sub_ok ?bd t" using inv_band [OF i1 b1] p by (simp add: band_ok_def table_ok_def)
      from sub_to_range [OF this] have "\<forall>x y. in_range bd' x y \<longrightarrow> slot bd' x y = None"
        using *(6) same_dimsD(1) [OF *(5)] by (simp add: positions_iff)
      moreover have "FlushCache e bi s = Some (g', s')"
        using sb Some True *(1) by (simp add: FlushCache_def s1_def)
      ultimately show ?thesis using *(2,3) gone [OF *(2,4)] by blast
    qed
  qed
qed

end
