(* ===== verification/Gdal_Block_Shape.thy ===== *)
theory Gdal_Block_Shape
  imports Gdal_Block_Flush
begin

text \<open>
  The dimensions of the bands (\<open>geom\<close>), which no operation of the cache changes.
\<close>

section \<open>The dimensions of the bands\<close>

definition width :: "raster_band \<Rightarrow> int" where
  "width bd = DIV_ROUND_UP (nRasterXSize bd) (nBlockXSize bd)"

definition height :: "raster_band \<Rightarrow> int" where
  "height bd = DIV_ROUND_UP (nRasterYSize bd) (nBlockYSize bd)"

definition inside :: "'d gdal \<Rightarrow> nat \<Rightarrow> int \<Rightarrow> int \<Rightarrow> bool" where
  "inside R bi x y \<longleftrightarrow> (\<exists>bd. bands R bi = Some bd \<and> 0 \<le> x \<and> x < width bd \<and> 0 \<le> y \<and> y < height bd)"

text \<open>No operation changes the dimensions and the data type of a band.\<close>

definition shape :: "raster_band \<Rightarrow> int \<times> int \<times> int \<times> int \<times> GDALDataType" where
  "shape bd = (nRasterXSize bd, nRasterYSize bd, nBlockXSize bd, nBlockYSize bd, eDataType bd)"

definition geom :: "'d gdal \<Rightarrow> nat \<Rightarrow> (int \<times> int \<times> int \<times> int \<times> GDALDataType) option" where
  "geom R bi = map_option shape (bands R bi)"

lemma shape_eq: "shape bd' = shape bd \<Longrightarrow> width bd' = width bd \<and> height bd' = height bd \<and> block_bytes bd' = block_bytes bd"
  by (simp add: shape_def width_def height_def block_bytes_def)

lemma shape_roomy: "shape bd' = shape bd \<Longrightarrow> roomy e bd' = roomy e bd"
  by (simp add: shape_def roomy_def)

lemma geom_band: "geom R' = geom R \<Longrightarrow> bands R bi = Some bd \<Longrightarrow> \<exists>bd'. bands R' bi = Some bd' \<and> shape bd' = shape bd"
  by (drule fun_cong [of _ _ bi]) (auto simp: geom_def)

lemma geom_upd: "bands R bi = Some bd \<Longrightarrow> bands R' = (bands R)(bi \<mapsto> bd') \<Longrightarrow> shape bd' = shape bd \<Longrightarrow> geom R' = geom R"
  by (simp add: geom_def fun_eq_iff)

lemma geom_bands: "bands R' = bands R \<Longrightarrow> geom R' = geom R"
  by (simp add: geom_def fun_eq_iff)

lemma inside_geom: "geom R' = geom R \<Longrightarrow> inside R' bi x y \<Longrightarrow> inside R bi x y"
proof -
  assume g: "geom R' = geom R" and "inside R' bi x y"
  then obtain bd' where bd': "bands R' bi = Some bd'" "0 \<le> x" "x < width bd'" "0 \<le> y" "y < height bd'" by (auto simp: inside_def)
  obtain bd where bd: "bands R bi = Some bd" "shape bd = shape bd'" using geom_band [OF g [symmetric] bd'(1)] by blast
  then show "inside R bi x y" using bd' shape_eq [OF bd(2)] by (simp add: inside_def)
qed

lemma inside_geom_eq: "geom R' = geom R \<Longrightarrow> inside R' = inside R"
  using inside_geom [of R R'] inside_geom [of R' R] by (auto simp: fun_eq_iff)

lemma geom_all_shrunk: "all_shrunk R R' \<Longrightarrow> geom R' = geom R"
proof
  fix bi
  assume a: "all_shrunk R R'"
  show "geom R' bi = geom R bi"
  proof (cases "bands R bi")
    case None
    then show ?thesis using a [unfolded all_shrunk_def, THEN spec, of bi] by (simp add: geom_def)
  next
    case (Some bd)
    then obtain bd' where "bands R' bi = Some bd'" "shrunk bd bd'" using all_shrunkD [OF a] by blast
    then show ?thesis using Some shrunk_dims [of bd bd'] by (simp add: geom_def shape_def)
  qed
qed

lemma geom_init: "table_init e R bi bd' R' \<Longrightarrow> geom R' = geom R"
proof -
  assume "table_init e R bi bd' R'"
  then obtain bd where "bands R bi = Some bd" "R' = R\<lparr>bands := (bands R)(bi \<mapsto> bd')\<rparr>" "table_only bd bd'"
    unfolding table_init_def by blast
  then show ?thesis by (intro geom_upd [of R bi bd R' bd']) (simp_all add: table_only_def shape_def)
qed

lemma geom_flushed: "flushed e w R r err R' \<Longrightarrow> geom R' = geom R"
proof -
  assume "flushed e w R r err R'"
  then obtain bd t where "bands R (poBand r) = Some bd" "bands R' = (bands R)(poBand r \<mapsto> bd\<lparr>papoBlocks := Some t\<rparr>)"
    unfolding flushed_def by auto
  then show ?thesis by (rule geom_upd) (simp add: shape_def)
qed

lemma geom_flushes: "flushes e bi g L P R g' L' P' R' \<Longrightarrow> geom R' = geom R"
proof (induction rule: flushes.induct)
  case (regrid R bd t P g L g' L' P' R')
  have "geom (with_table R bi bd t) = geom R" by (rule geom_upd [OF regrid(1), of _ "bd\<lparr>papoBlocks := Some t\<rparr>"]) (simp_all add: shape_def)
  then show ?case using regrid by simp
qed (simp_all add: geom_flushed)

lemma make_room_shrunk:
  assumes m: "make_room e bi x y bd L P R1 b d Lv Pv Rv" and i: "blocks_inv P R1 {}"
    and bd: "bands R1 bi = Some bd" "papoBlocks bd \<noteq> None" "in_range bd x y" and d: "int (length d) = block_bytes bd"
  shows "all_shrunk R1 Rv" and "\<exists>X. Pv = (P(b \<mapsto> loading bd bi x y 2 (Some d))) |` (- X)"
proof -
  let ?R2 = "snd (GDALGetCacheMax64 e (R1\<lparr>newBlock := newBlock R1 + 1\<rparr>))"
  let ?R3 = "?R2\<lparr>nCacheUsed := nCacheUsed ?R2 + block_bytes bd\<rparr>"
  have b: "b = newBlock R1" and ev: "evictions e L (P(b \<mapsto> loading bd bi x y 2 (Some d))) ?R3 Lv Pv Rv"
    using m unfolding make_room_def Let_def by blast+
  have "blocks_inv (P(b \<mapsto> loading bd bi x y 1 None)) (R1\<lparr>newBlock := newBlock R1 + 1\<rparr>) {b}"
    unfolding b by (rule inv_alloc [OF i bd(1-3)]) simp
  then have "blocks_inv (P(b \<mapsto> loading bd bi x y 1 None)) ?R2 {b}" by (rule inv_rest) (simp_all add: GDALGetCacheMax64_rest)
  from inv_internalize [OF this, of b bd bi x y 1 d 2] have "blocks_inv (P(b \<mapsto> loading bd bi x y 2 (Some d))) ?R3 {b}"
    using bd(1) d by (simp add: GDALGetCacheMax64_rest)
  from evictions_keep [OF ev this] have "all_shrunk ?R3 Rv" and X: "\<exists>X. Pv = (P(b \<mapsto> loading bd bi x y 2 (Some d))) |` (- X)"
    by blast+
  then show "all_shrunk R1 Rv" by (simp add: all_shrunk_def GDALGetCacheMax64_rest)
  show "\<exists>X. Pv = (P(b \<mapsto> loading bd bi x y 2 (Some d))) |` (- X)" by (rule X)
qed

lemma geom_get:
  assumes g: "get_result e bi x y just L P R res L' P' R'" and i: "blocks_inv P R {}" and e: "driver_ok e"
  shows "geom R' = geom R"
proof -
  have room: "geom Rv = geom R" if "table_init e R bi bd R1" "papoBlocks bd \<noteq> None" "in_range bd x y"
    "make_room e bi x y bd L P R1 b d Lv Pv Rv" for bd R1 b d Lv Pv Rv
  proof -
    have "VSIMalloc e (block_bytes bd) = Some d" using that(4) by (simp add: make_room_def)
    then have "int (length d) = block_bytes bd" using e by (simp add: driver_ok_def)
    from make_room_shrunk(1) [OF that(4) inv_init [OF i that(1)] table_init_band [OF that(1)] that(2,3) this]
    show ?thesis using geom_all_shrunk geom_init [OF that(1)] by metis
  qed
  have tab: "geom (with_table R bi bd' t) = geom R" if "bands R bi = Some bd" "shape bd' = shape bd" for R :: "'a gdal" and bd bd' t
    by (rule geom_upd [OF that(1), of _ "bd'\<lparr>papoBlocks := Some t\<rparr>"]) (use that(2) in \<open>simp_all add: shape_def\<close>)
  show ?thesis using g
  proof cases
    case (no_block bd)
    then show ?thesis using geom_init by metis
  next
    case (hit bd b r)
    then show ?thesis using geom_init by metis
  next
    case (no_memory bd R1)
    have "geom R' = geom R1" unfolding no_memory by (rule geom_bands) (simp add: GDALGetCacheMax64_rest)
    then show ?thesis using geom_init [OF no_memory(5)] by simp
  next
    case (no_grid bd R1 b d Pv Rv)
    have "geom R' = geom Rv" unfolding no_grid by (rule geom_bands) simp
    then show ?thesis using room no_grid by metis
  next
    case (fresh bd R1 b d Lv Pv Rv bdv t)
    have "geom R' = geom Rv" unfolding fresh using fresh tab by blast
    then show ?thesis using room fresh by metis
  next
    case (loaded bd R1 b d Lv Pv Rv bdv t d' dev)
    have "geom (with_table Rv bi (bdv\<lparr>nBlockReads := nBlockReads bdv + 1\<rparr>) t) = geom Rv"
      by (rule tab) (use loaded in \<open>simp_all add: shape_def\<close>)
    moreover have "geom R' = geom (with_table Rv bi (bdv\<lparr>nBlockReads := nBlockReads bdv + 1\<rparr>) t)"
      unfolding loaded by (rule geom_bands) simp
    ultimately show ?thesis using room loaded by metis
  next
    case (read_failed bd R1 b d Pv Rv bdv t err d' dev err')
    have "geom ((with_table Rv bi bdv t)\<lparr>device := dev\<rparr>) = geom (with_table Rv bi bdv t)" by (rule geom_bands) simp
    moreover have "geom (with_table Rv bi bdv t) = geom Rv" by (rule tab) (use read_failed in simp_all)
    moreover have "geom R' = geom ((with_table Rv bi bdv t)\<lparr>device := dev\<rparr>)" by (rule geom_flushed) (use read_failed in simp_all)
    ultimately show ?thesis using room read_failed by metis
  qed
qed

text \<open>No block is locked.\<close>

definition quiet :: "(nat \<Rightarrow> raster_block option) \<Rightarrow> bool" where
  "quiet P \<longleftrightarrow> (\<forall>b r. P b = Some r \<longrightarrow> nLockCount r = 0)"

end
