(* ===== verification/Gdal_Block_Client.thy ===== *)
theory Gdal_Block_Client
  imports Gdal_Block_Shape
begin

text \<open>
  The clients of the block cache: sequences of its operations from an empty cache (\<open>reachable\<close>), in which clients
  unlock only blocks that they hold, write only into blocks that exist and flush a band only when no block of it is
  locked (the destructor of blocks asserts this). Every such operation returns, and the
  invariant of the cache holds in every state.
\<close>

section \<open>Reachable states\<close>

text \<open>\<open>Poke\<close> is a client that writes into the memory of a block.\<close>

datatype op = Get nat int int bool | Unlock nat | Dirty nat | Poke nat "byte list" | Flush nat | Evict | Limit int

fun exec :: "'d driver \<Rightarrow> op \<Rightarrow> 'd gdal \<Rightarrow> 'd gdal option" where
  "exec e (Get bi x y just) s = map_option snd (GetLockedBlockRef e bi x y just s)"
| "exec e (Unlock b) s = DropLock b s"
| "exec e (Dirty b) s = MarkDirty b s"
| "exec e (Poke b d) s = upd_block b (pData_update (\<lambda>_. Some d)) s"
| "exec e (Flush bi) s = map_option snd (FlushCache e bi s)"
| "exec e Evict s = map_option snd (FlushCacheBlock e s)"
| "exec e (Limit n) s = GDALSetCacheMax64 e n s"

text \<open>No block of the band is locked; blocks are numbered from 0.\<close>

definition band_unlocked :: "nat \<Rightarrow> 'd gdal \<Rightarrow> bool" where
  "band_unlocked bi s \<longleftrightarrow> list_all (\<lambda>b. case blocks s b of None \<Rightarrow> True | Some r \<Rightarrow> poBand r = bi \<longrightarrow> nLockCount r = 0) [0..<newBlock s]"

fun op_ok :: "'d gdal \<Rightarrow> op \<Rightarrow> bool" where
  "op_ok s (Get bi x y just) \<longleftrightarrow> bands s bi \<noteq> None"
| "op_ok s (Unlock b) \<longleftrightarrow> (case blocks s b of None \<Rightarrow> False | Some r \<Rightarrow> nLockCount r > 0)"
| "op_ok s (Dirty b) \<longleftrightarrow> blocks s b \<noteq> None"
| "op_ok s (Poke b d) \<longleftrightarrow> (case Option.bind (blocks s b) pData of None \<Rightarrow> False | Some d' \<Rightarrow> length d = length d')"
| "op_ok s (Flush bi) \<longleftrightarrow> bands s bi \<noteq> None \<and> band_unlocked bi s"
| "op_ok s Evict \<longleftrightarrow> True"
| "op_ok s (Limit n) \<longleftrightarrow> True"

definition initial :: "'d gdal \<Rightarrow> bool" where
  "initial s \<longleftrightarrow> blocks s = Map.empty \<and> poOldest s = None \<and> poNewest s = None \<and> nCacheUsed s = 0
    \<and> (\<forall>bi bd. bands s bi = Some bd \<longrightarrow> band_ok bd \<and> papoBlocks bd = None)"

inductive reachable :: "'d driver \<Rightarrow> 'd gdal \<Rightarrow> bool" for e :: "'d driver" where
  start: "initial s \<Longrightarrow> reachable e s"
| step: "reachable e s \<Longrightarrow> op_ok s op \<Longrightarrow> exec e op s = Some s' \<Longrightarrow> reachable e s'"

text \<open>A run of operations that are allowed.\<close>

fun run :: "'d driver \<Rightarrow> op list \<Rightarrow> 'd gdal \<Rightarrow> 'd gdal option" where
  "run e [] s = Some s"
| "run e (op # ops) s = (if op_ok s op then Option.bind (exec e op s) (run e ops) else None)"

lemma run_reachable: "run e ops s = Some s' \<Longrightarrow> reachable e s \<Longrightarrow> reachable e s'"
proof (induction ops arbitrary: s)
  case (Cons op ops)
  then obtain s1 where "op_ok s op" "exec e op s = Some s1" "run e ops s1 = Some s'" by (auto split: if_splits Option.bind_splits)
  then show ?case using Cons.IH reachable.step [OF Cons.prems(2)] by blast
qed simp

section \<open>The invariant\<close>

definition well :: "'d gdal \<Rightarrow> bool" where
  "well s \<longleftrightarrow> (\<exists>L P R. cache s L P R {})"

lemma initial_well: "initial s \<Longrightarrow> well s"
proof -
  assume a: "initial s"
  have "pay s = Map.empty" using a by (simp add: initial_def pay_def fun_eq_iff)
  then have "lru s [] Map.empty (rest s)" using a by (simp add: lru_def lru_ok_def initial_def)
  moreover have "slot bd x y = None" if "bands s bi = Some bd" for bi bd x y
    using a that by (intro slot_no_table) (simp add: initial_def)
  then have "blocks_inv Map.empty (rest s) {}" using a by (auto simp: blocks_inv_def initial_def rest_def)
  ultimately have "cache s [] Map.empty (rest s) {}" by (simp add: cache_def)
  then show ?thesis unfolding well_def by blast
qed

lemma well_blocks: "cache s L P R F \<Longrightarrow> P b = map_option payload (blocks s b)"
  by (rule lru_pay) (auto simp: cache_def)

lemma band_unlocked_cache:
  assumes c: "cache s L P R {}"
  shows "band_unlocked bi s \<longleftrightarrow> quiet_band bi P" and "band_unlocked bi s \<longleftrightarrow> (\<forall>b r. blocks s b = Some r \<longrightarrow> poBand r = bi \<longrightarrow> nLockCount r = 0)"
proof -
  have i: "blocks_inv P R {}" and lru: "lru s L P R" using c by (auto simp: cache_def)
  have new: "blocks s b = None" if "\<not> b < newBlock s" for b
    using inv_new [OF i, of b] lru_rest(4) [OF lru] well_blocks [OF c, of b] that by simp
  then have b: "b < newBlock s" if "blocks s b = Some r" for b r using that by (metis option.distinct(1))
  then show u: "band_unlocked bi s \<longleftrightarrow> (\<forall>b r. blocks s b = Some r \<longrightarrow> poBand r = bi \<longrightarrow> nLockCount r = 0)"
    by (auto simp: band_unlocked_def list_all_iff split: option.splits)
  have "nLockCount r = 0" if "quiet_band bi P" "blocks s b = Some r" "poBand r = bi" for b r
  proof -
    have p: "P b = Some (payload r)" using that(2) well_blocks [OF c, of b] by simp
    show ?thesis using that(1) [unfolded quiet_band_def, rule_format, OF p] that(3) by simp
  qed
  moreover have "quiet_band bi P" if "\<forall>b r. blocks s b = Some r \<longrightarrow> poBand r = bi \<longrightarrow> nLockCount r = 0"
    using that well_blocks [OF c] by (auto simp: quiet_band_def)
  ultimately show "band_unlocked bi s \<longleftrightarrow> quiet_band bi P" unfolding u by blast
qed

lemma change_well:
  assumes c: "cache s L P R {}" and b: "P b = Some r" and u: "lru s' L (P(b \<mapsto> r')) R"
    and r': "same_place r r'" "bytes (Some r') = bytes (Some r)" "pData r' = None \<longleftrightarrow> pData r = None" "nLockCount r' \<ge> 0"
  shows "cache s' L (P(b \<mapsto> r')) R {}"
proof -
  have i: "blocks_inv P R {}" and d: "dom P = set L" using c by (auto simp: cache_def)
  have "blocks_inv (P(b \<mapsto> r')) R {}" using inv_change [OF i b r'(1-3)] r'(4) by simp
  moreover have "dom (P(b \<mapsto> r')) = set L" using d b by auto
  ultimately show ?thesis using u by (simp add: cache_def)
qed

lemma poke_lru:
  assumes "lru s L P R" "P b = Some r"
  shows "\<exists>s'. upd_block b (pData_update (\<lambda>_. Some d)) s = Some s' \<and> lru s' L (P(b \<mapsto> r\<lparr>pData := Some d\<rparr>)) R"
  using upd_block_lru [OF assms, of "pData_update (\<lambda>_. Some d)"] by (simp add: payload_def)

lemma exec_well:
  assumes e: "driver_ok e" and w: "well s" and ok: "op_ok s op"
  shows "\<exists>s'. exec e op s = Some s' \<and> well s'"
proof -
  obtain L P R where c: "cache s L P R {}" using w unfolding well_def by blast
  have lru: "lru s L P R" and i: "blocks_inv P R {}" using c by (auto simp: cache_def)
  have bs: "bands s = bands R" by (rule cache_bands [OF c])
  have locks: "0 \<le> nLockCount r" if "P b = Some r" for b r
    using inv_block [OF i that] by (auto simp: block_ok_def)
  show ?thesis
  proof (cases op)
    case (Get bi x y just)
    then have "bands R bi \<noteq> None" using ok bs by simp
    from GetLockedBlockRef_cache [OF c this e, of x y just] show ?thesis
      using Get unfolding well_def by fastforce
  next
    case (Unlock b)
    then obtain r where r: "P b = Some r" "nLockCount r > 0" using ok well_blocks [OF c, of b] by (auto split: option.splits)
    obtain s' where s': "DropLock b s = Some s'" "lru s' L (P(b \<mapsto> r\<lparr>nLockCount := nLockCount r - 1\<rparr>)) R"
      using DropLock_lru [OF lru r(1)] by blast
    have "cache s' L (P(b \<mapsto> r\<lparr>nLockCount := nLockCount r - 1\<rparr>)) R {}"
      by (rule change_well [OF c r(1) s'(2)]) (use r(2) in \<open>simp_all add: same_place_def bytes_def\<close>)
    then show ?thesis using Unlock s'(1) unfolding well_def by auto
  next
    case (Dirty b)
    then obtain r where r: "P b = Some r" using ok well_blocks [OF c] by auto
    obtain s' where s': "MarkDirty b s = Some s'" "lru s' L (P(b \<mapsto> r\<lparr>bDirty := True\<rparr>)) R"
      using MarkDirty_lru [OF lru r] by blast
    have "cache s' L (P(b \<mapsto> r\<lparr>bDirty := True\<rparr>)) R {}"
      by (rule change_well [OF c r s'(2)]) (use locks [OF r] in \<open>simp_all add: same_place_def bytes_def\<close>)
    then show ?thesis using Dirty s'(1) unfolding well_def by auto
  next
    case (Poke b d)
    then obtain r d' where r: "P b = Some r" "pData r = Some d'" "length d = length d'" using ok well_blocks [OF c, of b]
      by (auto split: option.splits Option.bind_splits)
    obtain s' where s': "upd_block b (pData_update (\<lambda>_. Some d)) s = Some s'" "lru s' L (P(b \<mapsto> r\<lparr>pData := Some d\<rparr>)) R"
      using poke_lru [OF lru r(1)] by blast
    have "cache s' L (P(b \<mapsto> r\<lparr>pData := Some d\<rparr>)) R {}"
      by (rule change_well [OF c r(1) s'(2)]) (use locks [OF r(1)] r in \<open>simp_all add: same_place_def bytes_def\<close>)
    then show ?thesis using Poke s'(1) unfolding well_def by auto
  next
    case (Flush bi)
    then obtain bd where "bands R bi = Some bd" using ok bs by auto
    moreover have "quiet_band bi P" using ok Flush band_unlocked_cache(1) [OF c] by simp
    ultimately show ?thesis using FlushCache_cache [OF c, of bi bd e] Flush unfolding well_def by fastforce
  next
    case Evict
    show ?thesis
    proof (cases "List.find (unlocked P) (rev L)")
      case None
      then show ?thesis using FlushCacheBlock_none [OF c None, of e] w Evict by auto
    next
      case (Some b)
      then have "b \<in> set L" using find_rev by fastforce
      then obtain r where "P b = Some r" using lru_dom [OF lru] by auto
      from FlushCacheBlock_some [OF c Some this, of e] show ?thesis using Evict unfolding well_def by fastforce
    qed
  next
    case (Limit n)
    from GDALSetCacheMax64_cache [OF c, of e n] show ?thesis using Limit unfolding well_def by auto
  qed
qed

lemma reachable_well: "reachable e s \<Longrightarrow> driver_ok e \<Longrightarrow> well s"
proof (induction rule: reachable.induct)
  case (step s op s')
  then show ?case using exec_well [of e s op] by auto
qed (simp add: initial_well)

end
