(* ===== verification/Gdal_Block_Device.thy ===== *)
theory Gdal_Block_Device
  imports Gdal_Block_Client
begin

text \<open>
  What the cache shows to its users. The locale \<open>block_device\<close> is the contract of a driver: \<open>content\<close> is the data of
  a block on the device, reading gives it, and writing a block changes this block only. Under the contract
  every operation of the cache keeps the data that users see (\<open>faithful\<close>), whatever is cached, written back or
  evicted.
\<close>

section \<open>Users of the cache\<close>

text \<open>Reading and overwriting a block as \<^verbatim>\<open>RasterIO\<close> and \<^verbatim>\<open>Fill\<close> do: the block is locked meanwhile.\<close>

definition read_block :: "'d driver \<Rightarrow> nat \<Rightarrow> int \<Rightarrow> int \<Rightarrow> 'd gdal \<Rightarrow> (byte list option \<times> 'd gdal) option" where
  "read_block e bi x y s = do {
     (p, s) \<leftarrow> GetLockedBlockRef e bi x y False s;
     case p of None \<Rightarrow> Some (None, s)
     | Some b \<Rightarrow> do { r \<leftarrow> blocks s b; s \<leftarrow> DropLock b s; Some (pData r, s) }
   }"

definition overwrite :: "nat \<Rightarrow> byte list \<Rightarrow> 'd gdal \<Rightarrow> 'd gdal option" where
  "overwrite b d s = do {
     s \<leftarrow> upd_block b (pData_update (\<lambda>_. Some d)) s;
     s \<leftarrow> MarkDirty b s;
     DropLock b s
   }"

definition write_block :: "'d driver \<Rightarrow> nat \<Rightarrow> int \<Rightarrow> int \<Rightarrow> byte list \<Rightarrow> 'd gdal \<Rightarrow> (bool \<times> 'd gdal) option" where
  "write_block e bi x y d s = do {
     (p, s) \<leftarrow> GetLockedBlockRef e bi x y True s;
     case p of None \<Rightarrow> Some (False, s)
     | Some b \<Rightarrow> do { s \<leftarrow> overwrite b d s; Some (True, s) }
   }"

text \<open>What users can do, and the answers they get.\<close>

datatype access = Read nat int int | Overwrite nat int int "byte list" | FlushAll nat | SetMax int | EvictOne

datatype answer = Data "byte list option" | Written bool | Flushed CPLErr | Set | Evicted bool

fun access_step :: "'d driver \<Rightarrow> access \<Rightarrow> 'd gdal \<Rightarrow> (answer \<times> 'd gdal) option" where
  "access_step e (Read bi x y) s = map_option (apfst Data) (read_block e bi x y s)"
| "access_step e (Overwrite bi x y d) s = map_option (apfst Written) (write_block e bi x y d s)"
| "access_step e (FlushAll bi) s = map_option (apfst Flushed) (FlushCache e bi s)"
| "access_step e (SetMax n) s = map_option (Pair Set) (GDALSetCacheMax64 e n s)"
| "access_step e EvictOne s = map_option (apfst Evicted) (FlushCacheBlock e s)"

fun accesses :: "'d driver \<Rightarrow> access list \<Rightarrow> 'd gdal \<Rightarrow> (answer list \<times> 'd gdal) option" where
  "accesses e [] s = Some ([], s)"
| "accesses e (a # as) s = do {
     (r, s) \<leftarrow> access_step e a s;
     (rs, s) \<leftarrow> accesses e as s;
     Some (r # rs, s)
   }"

text \<open>The bands exist, and blocks are overwritten by data of the size of a block.\<close>

fun access_ok :: "'d gdal \<Rightarrow> access \<Rightarrow> bool" where
  "access_ok s (Read bi x y) \<longleftrightarrow> bands s bi \<noteq> None"
| "access_ok s (Overwrite bi x y d) \<longleftrightarrow> (\<exists>bd. bands s bi = Some bd \<and> int (length d) = block_bytes bd)"
| "access_ok s (FlushAll bi) \<longleftrightarrow> bands s bi \<noteq> None"
| "access_ok s (SetMax n) \<longleftrightarrow> True"
| "access_ok s EvictOne \<longleftrightarrow> True"

text \<open>The store that users see after a block is overwritten.\<close>

definition put :: "(nat \<Rightarrow> int \<Rightarrow> int \<Rightarrow> byte list) \<Rightarrow> nat \<Rightarrow> int \<Rightarrow> int \<Rightarrow> byte list \<Rightarrow> nat \<Rightarrow> int \<Rightarrow> int \<Rightarrow> byte list" where
  "put V bi x y d = (\<lambda>bi' x' y'. if bi' = bi \<and> x' = x \<and> y' = y then d else V bi' x' y')"

text \<open>
  The specification: a store \<open>V\<close> without a cache. A block that cannot be read or written leaves the store unchanged;
  a block \<open>served\<close>, inside a band of moderate size and with memory for it, can always be. Flushing, limits and
  evictions leave the store unchanged, too.
\<close>

definition served :: "'d driver \<Rightarrow> 'd gdal \<Rightarrow> nat \<Rightarrow> int \<Rightarrow> int \<Rightarrow> bool" where
  "served e s bi x y \<longleftrightarrow> inside s bi x y
     \<and> (\<exists>bd. bands s bi = Some bd \<and> roomy e bd \<and> VSIMalloc e (block_bytes bd) \<noteq> None)"

fun answers ::
    "(nat \<Rightarrow> int \<Rightarrow> int \<Rightarrow> bool) \<Rightarrow> access list \<Rightarrow> answer list \<Rightarrow> (nat \<Rightarrow> int \<Rightarrow> int \<Rightarrow> byte list)
     \<Rightarrow> (nat \<Rightarrow> int \<Rightarrow> int \<Rightarrow> byte list) option" where
  "answers srv [] [] V = Some V"
| "answers srv (Read bi x y # as) (Data r # rs) V =
     (if r = Some (V bi x y) \<or> r = None \<and> \<not> srv bi x y then answers srv as rs V else None)"
| "answers srv (Overwrite bi x y d # as) (Written ok # rs) V =
     (if ok then answers srv as rs (put V bi x y d) else if \<not> srv bi x y then answers srv as rs V else None)"
| "answers srv (FlushAll bi # as) (Flushed err # rs) V = (if err = CE_None then answers srv as rs V else None)"
| "answers srv (SetMax n # as) (Set # rs) V = answers srv as rs V"
| "answers srv (EvictOne # as) (Evicted r # rs) V = answers srv as rs V"
| "answers srv _ _ _ = None"

lemma served_geom:
  assumes "geom s' = geom s"
  shows "served e s' = served e s"
proof -
  have "served e t bi x y \<Longrightarrow> served e t' bi x y" if "geom t' = geom t" for t t' :: "'a gdal" and bi x y
  proof -
    note g = that
    assume "served e t bi x y"
    then obtain bd where bd: "inside t bi x y" "bands t bi = Some bd" "roomy e bd" "VSIMalloc e (block_bytes bd) \<noteq> None"
      by (auto simp: served_def)
    obtain bd' where "bands t' bi = Some bd'" "shape bd' = shape bd" using geom_band [OF g bd(2)] by blast
    then show "served e t' bi x y" using bd inside_geom_eq [OF g] shape_eq [of bd' bd] shape_roomy [of bd' bd e] by (simp add: served_def)
  qed
  from this [OF assms] this [OF assms [symmetric]] show ?thesis by (intro ext) blast
qed

section \<open>The contract of a driver\<close>

text \<open>\<open>dims dev bi\<close>: the number of blocks in a row and column of a band and the bytes of a block.\<close>

locale block_device =
  fixes e :: "'d driver" and good :: "'d \<Rightarrow> bool" and dims :: "'d \<Rightarrow> nat \<Rightarrow> (int \<times> int \<times> int) option"
    and content :: "'d \<Rightarrow> nat \<Rightarrow> int \<Rightarrow> int \<Rightarrow> byte list"
  assumes reads: "good dev \<Longrightarrow> dims dev bi = Some (w, h, n) \<Longrightarrow> 0 \<le> x \<Longrightarrow> x < w \<Longrightarrow> 0 \<le> y \<Longrightarrow> y < h \<Longrightarrow> int (length d) = n
      \<Longrightarrow> IReadBlock e dev bi x y d = (CE_None, content dev bi x y, dev)"
    and writes: "good dev \<Longrightarrow> dims dev bi = Some (w, h, n) \<Longrightarrow> 0 \<le> x \<Longrightarrow> x < w \<Longrightarrow> 0 \<le> y \<Longrightarrow> y < h \<Longrightarrow> int (length d) = n
      \<Longrightarrow> \<exists>dev'. IWriteBlock e dev bi x y d = (CE_None, dev') \<and> good dev' \<and> dims dev' = dims dev
        \<and> content dev' bi x y = d
        \<and> (\<forall>bi' w' h' n' x' y'. dims dev bi' = Some (w', h', n') \<longrightarrow> 0 \<le> x' \<longrightarrow> x' < w' \<longrightarrow> 0 \<le> y' \<longrightarrow> y' < h'
            \<longrightarrow> \<not> (bi' = bi \<and> x' = x \<and> y' = y) \<longrightarrow> content dev' bi' x' y' = content dev bi' x' y')"
    and allocates: "VSIMalloc e m = Some d \<Longrightarrow> int (length d) = m"
    and same_length: "length (fst (snd (IReadBlock e dev bi x y d))) = length d"
begin

lemma driver_ok: "driver_ok e"
  using allocates same_length by (simp add: driver_ok_def)

definition fits :: "'d gdal \<Rightarrow> bool" where
  "fits R \<longleftrightarrow> (\<forall>bi bd. bands R bi = Some bd \<longrightarrow> dims (device R) bi = Some (width bd, height bd, block_bytes bd))"

definition synced :: "(nat \<Rightarrow> raster_block option) \<Rightarrow> 'd gdal \<Rightarrow> bool" where
  "synced P R \<longleftrightarrow> (\<forall>b r. P b = Some r \<longrightarrow> nLockCount r \<le> 0 \<longrightarrow> \<not> bDirty r \<longrightarrow>
     pData r = Some (content (device R) (poBand r) (nXOff r) (nYOff r)))"

definition no_errors :: "'d gdal \<Rightarrow> bool" where
  "no_errors R \<longleftrightarrow> (\<forall>bi bd. bands R bi = Some bd \<longrightarrow> eFlushBlockErr bd = CE_None)"

definition view :: "(nat \<Rightarrow> raster_block option) \<Rightarrow> 'd gdal \<Rightarrow> nat \<Rightarrow> int \<Rightarrow> int \<Rightarrow> byte list" where
  "view P R bi x y = (case bands R bi of None \<Rightarrow> []
     | Some bd \<Rightarrow> (case slot bd x y of None \<Rightarrow> content (device R) bi x y | Some b \<Rightarrow> the (pData (the (P b)))))"

definition faithful :: "(nat \<Rightarrow> raster_block option) \<Rightarrow> 'd gdal \<Rightarrow> (nat \<Rightarrow> int \<Rightarrow> int \<Rightarrow> byte list) \<Rightarrow> bool" where
  "faithful P R V \<longleftrightarrow> good (device R) \<and> fits R \<and> no_errors R \<and> synced P R
    \<and> (\<forall>bi x y. inside R bi x y \<longrightarrow> view P R bi x y = V bi x y)"

lemma in_range_inside:
  "band_ok bd \<Longrightarrow> papoBlocks bd \<noteq> None \<Longrightarrow> in_range bd x y \<longleftrightarrow> 0 \<le> x \<and> x < width bd \<and> 0 \<le> y \<and> y < height bd"
  by (auto simp: band_ok_def in_range_def width_def height_def)

text \<open>Writing back one block.\<close>

lemma flushed_faithful:
  assumes i: "blocks_inv P R F" and b: "P b = Some r" "b \<notin> F" "nLockCount r \<le> 0" and f: "flushed e w R r err R'"
    and w: "w \<or> \<not> bDirty r" and V: "faithful P R V"
  shows "err = CE_None \<and> faithful (P(b := None)) R' V"
proof -
  obtain bd t where bd: "bands R (poBand r) = Some bd" "slot_store bd (nXOff r) (nYOff r) None = Some (bd\<lparr>papoBlocks := Some t\<rparr>)"
    and err: "err = fst (written e bd r w (device R))"
    and R': "R' = R\<lparr>bands := (bands R)(poBand r \<mapsto> bd\<lparr>papoBlocks := Some t\<rparr>),
         nCacheUsed := nCacheUsed R - freed r, device := snd (written e bd r w (device R))\<rparr>"
    using f unfolding flushed_def by blast
  have p: "band_ok bd" "papoBlocks bd \<noteq> None" "in_range bd (nXOff r) (nYOff r)" "slot bd (nXOff r) (nYOff r) = Some b" "pData r \<noteq> None"
    using block_placed [OF i b(1,2)] bd(1) by auto
  obtain d where d: "pData r = Some d" using p(5) by auto
  have len: "int (length d) = block_bytes bd" using inv_block [OF i b(1)] bd(1) d by (auto simp: block_ok_def)
  have g: "good (device R)" "dims (device R) (poBand r) = Some (width bd, height bd, block_bytes bd)" "eFlushBlockErr bd = CE_None"
    using V bd(1) by (auto simp: faithful_def fits_def no_errors_def)
  have pos: "0 \<le> nXOff r" "nXOff r < width bd" "0 \<le> nYOff r" "nYOff r < height bd"
    using p(3) in_range_inside [OF p(1,2)] by auto
  let ?dev = "snd (written e bd r w (device R))"
  have wr: "err = CE_None \<and> good ?dev \<and> dims ?dev = dims (device R) \<and> content ?dev (poBand r) (nXOff r) (nYOff r) = d
    \<and> (\<forall>bi' x' y'. inside R bi' x' y' \<longrightarrow> \<not> (bi' = poBand r \<and> x' = nXOff r \<and> y' = nYOff r) \<longrightarrow>
        content ?dev bi' x' y' = content (device R) bi' x' y')"
  proof (cases "bDirty r")
    case True
    with w have "w" by simp
    from writes [OF g(1,2) pos len] obtain dev' where
      dev': "IWriteBlock e (device R) (poBand r) (nXOff r) (nYOff r) d = (CE_None, dev')" "good dev'" "dims dev' = dims (device R)"
        "content dev' (poBand r) (nXOff r) (nYOff r) = d"
      and o: "\<And>bi' w' h' n' x' y'. dims (device R) bi' = Some (w', h', n') \<Longrightarrow> 0 \<le> x' \<Longrightarrow> x' < w' \<Longrightarrow> 0 \<le> y' \<Longrightarrow> y' < h'
            \<Longrightarrow> \<not> (bi' = poBand r \<and> x' = nXOff r \<and> y' = nYOff r) \<Longrightarrow> content dev' bi' x' y' = content (device R) bi' x' y'"
      by blast
    have "content dev' bi' x' y' = content (device R) bi' x' y'"
      if h: "inside R bi' x' y'" "\<not> (bi' = poBand r \<and> x' = nXOff r \<and> y' = nYOff r)" for bi' x' y'
    proof -
      obtain bd' where "bands R bi' = Some bd'" "0 \<le> x'" "x' < width bd'" "0 \<le> y'" "y' < height bd'"
        using h(1) by (auto simp: inside_def)
      moreover from this(1) have "dims (device R) bi' = Some (width bd', height bd', block_bytes bd')"
        using V by (simp add: faithful_def fits_def)
      ultimately show ?thesis using o h(2) by blast
    qed
    then show ?thesis using True \<open>w\<close> d dev' g(3) by (simp add: written_def err)
  next
    case False
    then have "d = content (device R) (poBand r) (nXOff r) (nYOff r)"
      using V b(1,3) d by (auto simp: faithful_def synced_def)
    then show ?thesis using False g(1) by (simp add: written_def err)
  qed
  have tab: "table_ok bd" using p(1) by (simp add: band_ok_def)
  have sl: "slot_fetch bd (nXOff r) (nYOff r) \<noteq> Some NoSubGrid" using slot_Some [OF p(4)] by simp
  note slots = slot_store_laws(2) [OF tab p(2,3) sl bd(2)]
  have dims': "width (bd\<lparr>papoBlocks := Some t\<rparr>) = width bd" "height (bd\<lparr>papoBlocks := Some t\<rparr>) = height bd"
    "block_bytes (bd\<lparr>papoBlocks := Some t\<rparr>) = block_bytes bd"
    by (simp_all add: width_def height_def block_bytes_def)
  have ins: "inside R' = inside R" using bd(1) dims' by (auto simp: R' inside_def fun_eq_iff)
  have "fits R'" using V wr bd(1) dims' by (auto simp: fits_def faithful_def R')
  moreover have "no_errors R'" using V bd(1) by (auto simp: no_errors_def faithful_def R')
  moreover have "synced (P(b := None)) R'"
  proof (unfold synced_def, intro allI impI)
    fix c q
    assume c: "(P(b := None)) c = Some q" "nLockCount q \<le> 0" "\<not> bDirty q"
    then have q: "P c = Some q" "c \<noteq> b" by (auto split: if_splits)
    have cF: "c \<notin> F" using inv_block [OF i q(1)] c(2) by (auto simp: block_ok_def)
    obtain bd' where bd': "bands R (poBand q) = Some bd'" "band_ok bd'" "papoBlocks bd' \<noteq> None" "in_range bd' (nXOff q) (nYOff q)"
      "slot bd' (nXOff q) (nYOff q) = Some c"
      using block_placed [OF i q(1) cF] by auto
    then have "inside R (poBand q) (nXOff q) (nYOff q)" using in_range_inside [of bd'] by (auto simp: inside_def)
    moreover have "\<not> (poBand q = poBand r \<and> nXOff q = nXOff r \<and> nYOff q = nYOff r)"
      using bd' p(4) bd(1) q(2) by auto
    moreover have "pData q = Some (content (device R) (poBand q) (nXOff q) (nYOff q))"
      using V q(1) c(2,3) by (simp add: faithful_def synced_def)
    ultimately show "pData q = Some (content (device R') (poBand q) (nXOff q) (nYOff q))" using wr by (simp add: R')
  qed
  moreover have "view (P(b := None)) R' bi x y = V bi x y" if in': "inside R' bi x y" for bi x y
  proof -
    have in1: "inside R bi x y" using in' ins by simp
    then have v: "view P R bi x y = V bi x y" using V by (simp add: faithful_def)
    obtain bd' where bd': "bands R bi = Some bd'" "0 \<le> x" "x < width bd'" "0 \<le> y" "y < height bd'"
      using in1 by (auto simp: inside_def)
    show ?thesis
    proof (cases "bi = poBand r")
      case True
      then have e: "bd' = bd" using bd' bd(1) by simp
      have r: "in_range bd x y" using bd' in_range_inside [OF p(1,2)] e by simp
      show ?thesis
      proof (cases "x = nXOff r \<and> y = nYOff r")
        case True
        then have "V bi x y = d" using v \<open>bi = poBand r\<close> bd(1) p(4) b(1) d by (simp add: view_def)
        moreover have "view (P(b := None)) R' bi x y = content ?dev (poBand r) (nXOff r) (nYOff r)"
          using True \<open>bi = poBand r\<close> slots [OF r] by (simp add: view_def R')
        ultimately show ?thesis using wr by simp
      next
        case False
        have s: "slot (bd\<lparr>papoBlocks := Some t\<rparr>) x y = slot bd x y" unfolding slots [OF r] by (rule if_not_P [OF False])
        have "slot bd x y \<noteq> Some b" using inv_slot [OF i bd(1) r, of b] b(1) False by auto
        then show ?thesis using v wr in1 False True s bd(1) by (auto simp: view_def R' split: option.splits)
      qed
    next
      case False
      have "slot bd' x y \<noteq> Some b"
      proof
        assume a: "slot bd' x y = Some b"
        have "in_range bd' x y" using bd' in_range_inside [OF inv_band [OF i bd'(1)]] slot_Some [OF a] by simp
        from inv_slot [OF i bd'(1) this a] b(1) False show False by auto
      qed
      then show ?thesis using v wr in1 False bd'(1) by (auto simp: view_def R' split: option.splits)
    qed
  qed
  ultimately show ?thesis using wr by (simp add: faithful_def R')
qed

lemma record_error_none: "record_error bi CE_None R = R"
  by (simp add: record_error_def)

lemma evictions_faithful:
  "evictions e L P R L' P' R' \<Longrightarrow> blocks_inv P R F \<Longrightarrow> faithful P R V \<Longrightarrow> faithful P' R' V"
proof (induction arbitrary: F rule: evictions.induct)
  case (evict P L b r R err R1 F1 L' P' R')
  have u: "unlocked P b" using find_rev [OF evict.hyps(1)] by simp
  have bF: "b \<notin> F" by (rule unlocked_not_loading [OF evict.prems(1) evict.hyps(2) u])
  have l: "nLockCount r \<le> 0" using u evict.hyps(2) by (simp add: unlocked_def)
  have "err = CE_None \<and> faithful (P(b := None)) R1 V"
    by (rule flushed_faithful [OF evict.prems(1) evict.hyps(2) bF l evict.hyps(3) _ evict.prems(2)]) simp
  then have n: "err = CE_None" "faithful (P(b := None)) R1 V" by simp_all
  from evict.IH [OF evict.hyps(4)] n show ?case by (simp only: record_error_none)
qed

text \<open>A block is locked or unlocked, or loses the flag that it is modified: the data stay.\<close>

lemma view_change:
  assumes "P b = Some r" "pData r' = pData r"
  shows "view (P(b \<mapsto> r')) R = view P R"
  using assms by (intro ext) (auto simp: view_def split: option.splits)

lemma lock_faithful:
  assumes "faithful P R V" "P b = Some r" "same_place r r'" "pData r' = pData r" "bDirty r' = bDirty r" "0 < nLockCount r'"
  shows "faithful (P(b \<mapsto> r')) R V"
  using assms by (simp add: faithful_def view_change synced_def)

lemma inside_init:
  assumes "table_init e R bi bd' R'"
  shows "inside R' = inside R"
proof -
  obtain bd where bd: "bands R bi = Some bd" "R' = R\<lparr>bands := (bands R)(bi \<mapsto> bd')\<rparr>" "table_only bd bd'"
    using assms unfolding table_init_def by blast
  have "width bd' = width bd" "height bd' = height bd" using bd(3) by (simp_all add: table_only_def width_def height_def)
  then show ?thesis using bd(1,2) by (auto simp: inside_def fun_eq_iff)
qed

lemma table_init_faithful:
  assumes i: "blocks_inv P R F" and t: "table_init e R bi bd' R'" and V: "faithful P R V"
  shows "faithful P R' V"
proof -
  obtain bd where bd: "bands R bi = Some bd" "R' = R\<lparr>bands := (bands R)(bi \<mapsto> bd')\<rparr>" "table_only bd bd'"
    "papoBlocks bd \<noteq> None \<longrightarrow> bd' = bd" "papoBlocks bd = None \<longrightarrow> papoBlocks bd' \<noteq> None \<longrightarrow> fresh_table bd bd'"
    using t unfolding table_init_def by blast
  have s: "width bd' = width bd" "height bd' = height bd" "block_bytes bd' = block_bytes bd" "eFlushBlockErr bd' = eFlushBlockErr bd"
    using bd(3) by (simp_all add: table_only_def width_def height_def block_bytes_def)
  have ins: "inside R' = inside R" by (rule inside_init [OF t])
  have "view P R' bi' x y = view P R bi' x y" if h: "inside R bi' x y" for bi' x y
  proof (cases "bi' = bi \<and> papoBlocks bd = None")
    case True
    have i': "blocks_inv P R' F" by (rule inv_init [OF i t])
    have b': "bands R' bi = Some bd'" using bd(2) by simp
    have "slot bd' x y = None"
    proof (cases "papoBlocks bd'")
      case None
      then show ?thesis by (simp add: slot_def slot_fetch_def)
    next
      case (Some q)
      then have "in_range bd' x y" using h True bd(1) s in_range_inside [OF inv_band [OF i' b']] by (auto simp: inside_def)
      then show ?thesis using bd(5) True Some by (simp add: fresh_table_def)
    qed
    moreover have "slot bd x y = None" using True by (simp add: slot_def slot_fetch_def)
    ultimately show ?thesis using True bd(1,2) by (simp add: view_def)
  next
    case False
    then have "bi' = bi \<longrightarrow> bd' = bd" using bd(4) by auto
    then show ?thesis using bd(1,2) by (auto simp: view_def split: option.splits)
  qed
  moreover have "fits R'" "no_errors R'" "synced P R'" "good (device R')"
    using V bd(1,2) s by (auto simp: faithful_def fits_def no_errors_def synced_def)
  ultimately show ?thesis using V ins by (simp add: faithful_def)
qed

text \<open>Variables that the contract does not mention.\<close>

lemma faithful_rest:
  "faithful P R V \<Longrightarrow> bands R' = bands R \<Longrightarrow> device R' = device R \<Longrightarrow> faithful P R' V"
  by (simp add: faithful_def fits_def no_errors_def synced_def view_def inside_def cong: option.case_cong)

text \<open>A block that is being loaded is not in a table.\<close>

lemma loading_faithful:
  assumes V: "faithful P R V" and i: "blocks_inv P R F" and b: "P b = None \<or> b \<in> F" and r: "0 < nLockCount r"
  shows "faithful (P(b \<mapsto> r)) R V"
proof -
  have "view (P(b \<mapsto> r)) R bi x y = view P R bi x y" if h: "inside R bi x y" for bi x y
  proof -
    obtain bd where bd: "bands R bi = Some bd" "0 \<le> x" "x < width bd" "0 \<le> y" "y < height bd"
      using h by (auto simp: inside_def)
    have "slot bd x y \<noteq> Some b"
    proof
      assume a: "slot bd x y = Some b"
      have "in_range bd x y" using bd in_range_inside [OF inv_band [OF i bd(1)]] slot_Some [OF a] by simp
      from inv_slot [OF i bd(1) this a] b show False by auto
    qed
    then show ?thesis using bd(1) by (auto simp: view_def split: option.splits)
  qed
  then show ?thesis using V r by (simp add: faithful_def synced_def)
qed

lemma unload_faithful:
  assumes V: "faithful P R V" and i: "blocks_inv P R F" and b: "b \<in> F"
  shows "faithful (P(b := None)) R V"
proof -
  have "view (P(b := None)) R bi x y = view P R bi x y" if h: "inside R bi x y" for bi x y
  proof -
    obtain bd where bd: "bands R bi = Some bd" "0 \<le> x" "x < width bd" "0 \<le> y" "y < height bd"
      using h by (auto simp: inside_def)
    have "slot bd x y \<noteq> Some b"
    proof
      assume a: "slot bd x y = Some b"
      have "in_range bd x y" using bd in_range_inside [OF inv_band [OF i bd(1)]] slot_Some [OF a] by simp
      from inv_slot [OF i bd(1) this a] b show False by auto
    qed
    then show ?thesis using bd(1) by (auto simp: view_def split: option.splits)
  qed
  then show ?thesis using V by (simp add: faithful_def synced_def)
qed

text \<open>A block is put into the table: users see its data at its position.\<close>

lemma place_faithful:
  assumes V: "faithful P R V" and i: "blocks_inv P R F" and b: "P b = Some r" "pData r = Some d" and bd: "bands R bi = Some bd"
    "papoBlocks bd \<noteq> None" "in_range bd x y" "slot bd x y = None" and pl: "placed bd x y b t"
    and bd': "bd' = bd \<or> bd' = bd\<lparr>nBlockReads := n\<rparr>"
  shows "faithful P (with_table R bi bd' t) (put V bi x y d)"
proof -
  let ?R = "with_table R bi bd' t"
  have ok: "band_ok bd" by (rule inv_band [OF i bd(1)])
  have s: "width (bd'\<lparr>papoBlocks := Some t\<rparr>) = width bd" "height (bd'\<lparr>papoBlocks := Some t\<rparr>) = height bd"
    "block_bytes (bd'\<lparr>papoBlocks := Some t\<rparr>) = block_bytes bd" "eFlushBlockErr (bd'\<lparr>papoBlocks := Some t\<rparr>) = eFlushBlockErr bd"
    using bd' by (auto simp: width_def height_def block_bytes_def)
  have "slot_fetch (bd'\<lparr>papoBlocks := Some t\<rparr>) = slot_fetch (bd\<lparr>papoBlocks := Some t\<rparr>)"
    by (rule slot_fetch_same) (use bd' in auto)
  then have sl: "slot (bd'\<lparr>papoBlocks := Some t\<rparr>) x' y' = (if x' = x \<and> y' = y then Some b else slot bd x' y')"
    if "in_range bd x' y'" for x' y'
    using pl that by (simp add: placed_def slot_def)
  have ins: "inside ?R = inside R" using bd(1) s by (auto simp: inside_def fun_eq_iff)
  have "view P ?R bi' x' y' = put V bi x y d bi' x' y'" if h: "inside R bi' x' y'" for bi' x' y'
  proof -
    have v: "view P R bi' x' y' = V bi' x' y'" using V h by (simp add: faithful_def)
    show ?thesis
    proof (cases "bi' = bi")
      case True
      then have r: "in_range bd x' y'" using h bd(1) in_range_inside [OF ok bd(2)] by (auto simp: inside_def)
      show ?thesis
      proof (cases "x' = x \<and> y' = y")
        case True
        then show ?thesis using sl [OF r] b \<open>bi' = bi\<close> by (simp add: view_def put_def)
      next
        case False
        then have "slot (bd'\<lparr>papoBlocks := Some t\<rparr>) x' y' = slot bd x' y'" unfolding sl [OF r] by (rule if_not_P)
        then show ?thesis using v False \<open>bi' = bi\<close> bd(1) by (auto simp: view_def put_def cong: option.case_cong)
      qed
    next
      case False
      then show ?thesis using v by (simp add: view_def put_def cong: option.case_cong)
    qed
  qed
  moreover have "fits ?R" "no_errors ?R" "synced P ?R" "good (device ?R)"
    using V bd(1) s by (auto simp: faithful_def fits_def no_errors_def synced_def)
  ultimately show ?thesis using ins by (simp add: faithful_def)
qed


lemma inv_flushed:
  assumes i: "blocks_inv P R F" and b: "P b = Some r" "b \<notin> F" and f: "flushed e w R r err R'"
  shows "blocks_inv (P(b := None)) R' F"
proof -
  obtain bd t where bd: "bands R (poBand r) = Some bd" "slot_store bd (nXOff r) (nYOff r) None = Some (bd\<lparr>papoBlocks := Some t\<rparr>)"
    and R': "R' = R\<lparr>bands := (bands R)(poBand r \<mapsto> bd\<lparr>papoBlocks := Some t\<rparr>),
         nCacheUsed := nCacheUsed R - freed r, device := snd (written e bd r w (device R))\<rparr>"
    using f unfolding flushed_def by blast
  show ?thesis unfolding R' by (rule inv_remove [OF i b bd])
qed

lemma evictions_inv: "evictions e L P R L' P' R' \<Longrightarrow> blocks_inv P R F \<Longrightarrow> blocks_inv P' R' F"
proof (induction arbitrary: F rule: evictions.induct)
  case (evict P L b r R err R1 F1 L' P' R')
  have u: "unlocked P b" using find_rev [OF evict.hyps(1)] by simp
  have bF: "b \<notin> F" by (rule unlocked_not_loading [OF evict.prems evict.hyps(2) u])
  have "blocks_inv (P(b := None)) R1 F" by (rule inv_flushed [OF evict.prems evict.hyps(2) bF evict.hyps(3)])
  then show ?case by (intro evict.IH inv_record_error [OF _ flushed_band [OF evict.hyps(3)]])
qed

text \<open>The outcome of \<open>GetLockedBlockRef\<close>: the block has the data that users saw, unless it is only initialised.\<close>

definition locked_at :: "(nat \<Rightarrow> raster_block option) \<Rightarrow> nat \<Rightarrow> nat \<Rightarrow> int \<Rightarrow> int \<Rightarrow> byte list \<Rightarrow> bool" where
  "locked_at P b bi x y d \<longleftrightarrow> (\<exists>r. P b = Some r \<and> poBand r = bi \<and> nXOff r = x \<and> nYOff r = y \<and> pData r = Some d \<and> 0 < nLockCount r)"

lemma make_room_faithful:
  assumes m: "make_room e bi x y bd L P R1 b d Lv Pv Rv" and i: "blocks_inv P R1 {}"
    and bd: "bands R1 bi = Some bd" "papoBlocks bd \<noteq> None" "in_range bd x y" "slot bd x y = None" and V: "faithful P R1 V"
  shows "faithful Pv Rv V" and "blocks_inv Pv Rv {b}" and "Pv b = Some (loading bd bi x y 2 (Some d))"
    and "int (length d) = block_bytes bd"
    and "\<exists>bdv. bands Rv bi = Some bdv \<and> shrunk bd bdv \<and> papoBlocks bdv \<noteq> None \<and> in_range bdv x y \<and> slot bdv x y = None"
proof -
  let ?R2 = "snd (GDALGetCacheMax64 e (R1\<lparr>newBlock := newBlock R1 + 1\<rparr>))"
  let ?R3 = "?R2\<lparr>nCacheUsed := nCacheUsed ?R2 + block_bytes bd\<rparr>" let ?P = "P(b \<mapsto> loading bd bi x y 2 (Some d))"
  have b: "b = newBlock R1" and d: "VSIMalloc e (block_bytes bd) = Some d" and ev: "evictions e L ?P ?R3 Lv Pv Rv"
    using m unfolding make_room_def Let_def by blast+
  show len: "int (length d) = block_bytes bd" by (rule allocates [OF d])
  have i1: "blocks_inv (P(b \<mapsto> loading bd bi x y 1 None)) (R1\<lparr>newBlock := newBlock R1 + 1\<rparr>) {b}"
    unfolding b by (rule inv_alloc [OF i bd(1-3)]) simp
  then have "blocks_inv (P(b \<mapsto> loading bd bi x y 1 None)) ?R2 {b}" by (rule inv_rest) (simp_all add: GDALGetCacheMax64_rest)
  from inv_internalize [OF this, of b bd bi x y 1 d 2] have i3: "blocks_inv ?P ?R3 {b}"
    using bd(1) len by (simp add: GDALGetCacheMax64_rest)
  have new: "P b = None" using inv_new [OF i] by (simp add: b)
  have "faithful ?P R1 V" by (rule loading_faithful [OF V i]) (simp_all add: new)
  then have V3: "faithful ?P ?R3 V" by (rule faithful_rest) (simp_all add: GDALGetCacheMax64_rest)
  show "faithful Pv Rv V" by (rule evictions_faithful [OF ev i3 V3])
  obtain X where X: "Pv = ?P |` (- X)" "\<forall>c \<in> X. unlocked ?P c \<and> c \<in> set L"
    using evictions_keep [OF ev i3] by blast
  then show "Pv b = Some (loading bd bi x y 2 (Some d))" by (auto simp: unlocked_def)
  show "blocks_inv Pv Rv {b}" by (rule evictions_inv [OF ev i3])
  show "\<exists>bdv. bands Rv bi = Some bdv \<and> shrunk bd bdv \<and> papoBlocks bdv \<noteq> None \<and> in_range bdv x y \<and> slot bdv x y = None"
    by (rule make_room_band [OF m i bd len])
qed

lemma load_faithful:
  assumes V: "faithful Pv Rv V" and i: "blocks_inv Pv Rv {b}" and b: "Pv b = Some (loading bd bi x y 2 (Some d0))"
    and bdv: "bands Rv bi = Some bdv" "papoBlocks bdv \<noteq> None" "in_range bdv x y" "slot bdv x y = None" "placed bdv x y b t"
    and d: "length d = length d0" and bd': "bd' = bdv \<or> bd' = bdv\<lparr>nBlockReads := n\<rparr>"
  shows "faithful (Pv(b \<mapsto> loading bd bi x y 1 (Some d))) (with_table Rv bi bd' t) (put V bi x y d)"
    and "locked_at (Pv(b \<mapsto> loading bd bi x y 1 (Some d))) b bi x y d"
proof -
  let ?P = "Pv(b \<mapsto> loading bd bi x y 1 (Some d))"
  have V1: "faithful ?P Rv V" by (rule loading_faithful [OF V i]) simp_all
  have i1: "blocks_inv ?P Rv {b}" by (rule inv_change [OF i b]) (simp_all add: same_place_def bytes_def d)
  show "faithful ?P (with_table Rv bi bd' t) (put V bi x y d)"
    by (rule place_faithful [OF V1 i1 _ _ bdv bd', of "loading bd bi x y 1 (Some d)"]) simp_all
  show "locked_at ?P b bi x y d" by (simp add: locked_at_def)
qed

text \<open>The data of a block that is not in the table, as the driver reads it.\<close>

lemma read_content:
  assumes V: "faithful P R V" and i: "blocks_inv P R F" and bd: "bands R bi = Some bd" "papoBlocks bd \<noteq> None" "in_range bd x y" "slot bd x y = None"
    and d: "int (length d) = block_bytes bd"
  shows "IReadBlock e (device R) bi x y d = (CE_None, V bi x y, device R)" and "inside R bi x y"
proof -
  have r: "0 \<le> x" "x < width bd" "0 \<le> y" "y < height bd"
    using bd(3) in_range_inside [OF inv_band [OF i bd(1)] bd(2)] by auto
  show ins: "inside R bi x y" using r bd(1) by (auto simp: inside_def)
  have "good (device R)" "dims (device R) bi = Some (width bd, height bd, block_bytes bd)"
    using V bd(1) by (auto simp: faithful_def fits_def)
  from reads [OF this r d] have "IReadBlock e (device R) bi x y d = (CE_None, content (device R) bi x y, device R)" .
  moreover have "view P R bi x y = V bi x y" using V ins by (simp add: faithful_def)
  then have "V bi x y = content (device R) bi x y" using bd(1,4) by (simp add: view_def)
  ultimately show "IReadBlock e (device R) bi x y d = (CE_None, V bi x y, device R)" by simp
qed

text \<open>A block that is served is found or loaded.\<close>

lemma get_none:
  assumes g: "get_result e bi x y just L P R res L' P' R'" and n: "res = None" and i: "blocks_inv P R {}" and V: "faithful P R V"
  shows "\<not> served e R bi x y"
proof -
  have init: "bands R bi = Some bd0 \<Longrightarrow> roomy e bd0 \<Longrightarrow> inside R bi x y \<Longrightarrow>
      papoBlocks bd \<noteq> None \<and> in_range bd x y \<and> block_bytes bd = block_bytes bd0" if t: "table_init e R bi bd R1" for bd R1 bd0
  proof -
    assume r: "bands R bi = Some bd0" "roomy e bd0" and ins: "inside R bi x y"
    have t': "papoBlocks bd = None \<longrightarrow> \<not> roomy e bd0" "table_only bd0 bd" using t r(1) unfolding table_init_def by auto
    have b1: "bands R1 bi = Some bd" by (rule table_init_band [OF t])
    have "inside R1 bi x y" using ins inside_init [OF t] by simp
    then have "in_range bd x y" using t' r(2) b1 in_range_inside [OF inv_band [OF inv_init [OF i t] b1]] by (auto simp: inside_def)
    then show ?thesis using t' r(2) by (auto simp: table_only_def block_bytes_def)
  qed
  show ?thesis using g
  proof cases
    case (no_block bd)
    show ?thesis
    proof
      assume "served e R bi x y"
      then obtain bd0 where "inside R bi x y" "bands R bi = Some bd0" "roomy e bd0" by (auto simp: served_def)
      then show False using init [of bd R' bd0] no_block by simp
    qed
  next
    case (no_memory bd R1)
    show ?thesis
    proof
      assume "served e R bi x y"
      then obtain bd0 where "inside R bi x y" "bands R bi = Some bd0" "roomy e bd0" "VSIMalloc e (block_bytes bd0) \<noteq> None"
        by (auto simp: served_def)
      then show False using init [of bd R1 bd0] no_memory by simp
    qed
  next
    case (no_grid bd R1 b d Pv Rv)
    then show ?thesis by (auto simp: served_def roomy_def)
  next
    case (read_failed bd R1 b d Pv Rv bdv t err d' dev err')
    note t = \<open>table_init e R bi bd R1\<close> and mr = \<open>make_room e bi x y bd L P R1 b d L' Pv Rv\<close>
    have i1: "blocks_inv P R1 {}" by (rule inv_init [OF i t])
    have b1: "bands R1 bi = Some bd" by (rule table_init_band [OF t])
    have V1: "faithful P R1 V" by (rule table_init_faithful [OF i t V])
    note m = make_room_faithful [OF mr i1 b1 \<open>papoBlocks bd \<noteq> None\<close> \<open>in_range bd x y\<close> \<open>slot bd x y = None\<close> V1]
    have bdv: "papoBlocks bdv \<noteq> None" "in_range bdv x y" "slot bdv x y = None" "shrunk bd bdv" using m(5) \<open>bands Rv bi = Some bdv\<close> by auto
    have "int (length d) = block_bytes bdv" using m(4) shrunk_dims(5) [OF bdv(4)] by simp
    from read_content(1) [OF m(1,2) \<open>bands Rv bi = Some bdv\<close> bdv(1-3) this] read_failed show ?thesis by simp
  qed (use n in simp_all)
qed

lemma get_faithful:
  assumes g: "get_result e bi x y just L P R res L' P' R'" and i: "blocks_inv P R {}" and V: "faithful P R V"
  shows "case res of None \<Rightarrow> faithful P' R' V
    | Some b \<Rightarrow> \<exists>d. locked_at P' b bi x y d \<and> (just \<or> d = V bi x y) \<and> inside R bi x y \<and> faithful P' R' (put V bi x y d)"
  using g
proof (induct rule: get_result.induct)
  case (no_block bd R1)
  then show ?case using table_init_faithful [OF i _ V] by simp
next
  case (hit bd R1 b r)
  have i1: "blocks_inv P R1 {}" by (rule inv_init [OF i hit(1)])
  have V1: "faithful P R1 V" by (rule table_init_faithful [OF i hit(1) V])
  have b1: "bands R1 bi = Some bd" by (rule table_init_band [OF hit(1)])
  have r: "poBand r = bi" "nXOff r = x" "nYOff r = y" using inv_slot [OF i1 b1 hit(3,4)] hit(5) by auto
  obtain d where d: "pData r = Some d" and l: "0 \<le> nLockCount r" using inv_block [OF i1 hit(5)] by (auto simp: block_ok_def)
  have ins: "inside R1 bi x y" using hit(2,3) b1 in_range_inside [OF inv_band [OF i1 b1]] by (auto simp: inside_def)
  have "view P R1 bi x y = d" using b1 hit(4,5) d by (simp add: view_def)
  then have "V bi x y = d" using V1 ins by (simp add: faithful_def)
  moreover have "inside R bi x y" using ins inside_init [OF hit(1)] by simp
  moreover have "put V bi x y (V bi x y) = V" by (auto simp: put_def fun_eq_iff)
  moreover have "faithful (P(b \<mapsto> r\<lparr>nLockCount := nLockCount r + 1\<rparr>)) R1 V"
    by (rule lock_faithful [OF V1 hit(5)]) (use l in \<open>simp_all add: same_place_def\<close>)
  moreover have "locked_at (P(b \<mapsto> r\<lparr>nLockCount := nLockCount r + 1\<rparr>)) b bi x y d" using r d l by (simp add: locked_at_def)
  ultimately show ?case unfolding option.case by metis
next
  case (no_memory bd R1)
  have "faithful P R1 V" by (rule table_init_faithful [OF i no_memory(1) V])
  then show ?case by (auto intro: faithful_rest simp: GDALGetCacheMax64_rest)
next
  case (no_grid bd R1 b d Lv Pv Rv)
  have i1: "blocks_inv P R1 {}" by (rule inv_init [OF i no_grid(1)])
  note m = make_room_faithful [OF no_grid(5) i1 table_init_band [OF no_grid(1)] no_grid(2-4) table_init_faithful [OF i no_grid(1) V]]
  have "faithful (Pv(b := None)) Rv V" by (rule unload_faithful [OF m(1,2)]) simp
  then show ?case by (auto intro: faithful_rest)
next
  case (fresh bd R1 b d Lv Pv Rv bdv t)
  have i1: "blocks_inv P R1 {}" by (rule inv_init [OF i fresh(1)])
  have b1: "bands R1 bi = Some bd" by (rule table_init_band [OF fresh(1)])
  note m = make_room_faithful [OF fresh(5) i1 b1 fresh(2-4) table_init_faithful [OF i fresh(1) V]]
  have bdv: "papoBlocks bdv \<noteq> None" "in_range bdv x y" "slot bdv x y = None" using m(5) fresh(6) by auto
  have "inside R1 bi x y" using fresh(2,3) b1 in_range_inside [OF inv_band [OF i1 b1]] by (auto simp: inside_def)
  then have ins: "inside R bi x y" using inside_init [OF fresh(1)] by simp
  note l = load_faithful [OF m(1-3) fresh(6) bdv fresh(7) refl, of bdv 0]
  show ?case unfolding option.case using ins fresh(8) l by blast
next
  case (loaded bd R1 b d Lv Pv Rv bdv t d' dev)
  have i1: "blocks_inv P R1 {}" by (rule inv_init [OF i loaded(1)])
  have b1: "bands R1 bi = Some bd" by (rule table_init_band [OF loaded(1)])
  note m = make_room_faithful [OF loaded(5) i1 b1 loaded(2-4) table_init_faithful [OF i loaded(1) V]]
  have bdv: "papoBlocks bdv \<noteq> None" "in_range bdv x y" "slot bdv x y = None" "shrunk bd bdv" using m(5) loaded(6) by auto
  have "inside R1 bi x y" using loaded(2,3) b1 in_range_inside [OF inv_band [OF i1 b1]] by (auto simp: inside_def)
  then have ins: "inside R bi x y" using inside_init [OF loaded(1)] by simp
  have "int (length d) = block_bytes bdv" using m(4) shrunk_dims(5) [OF bdv(4)] by simp
  from read_content(1) [OF m(1,2) loaded(6) bdv(1-3) this] have d': "d' = V bi x y" "dev = device Rv" using loaded(9) by simp_all
  have "length d' = length d" using same_length [of "device Rv" bi x y d] loaded(9) by simp
  note l = load_faithful [OF m(1-3) loaded(6) bdv(1-3) loaded(7) this, of "bdv\<lparr>nBlockReads := nBlockReads bdv + 1\<rparr>" "nBlockReads bdv + 1"]
  have "faithful (Pv(b \<mapsto> loading bd bi x y 1 (Some d'))) ((with_table Rv bi (bdv\<lparr>nBlockReads := nBlockReads bdv + 1\<rparr>) t)\<lparr>device := dev\<rparr>) (put V bi x y d')"
    by (rule faithful_rest [OF l(1)]) (simp_all add: d')
  then show ?case unfolding option.case using l(2) d'(1) ins by blast
next
  case (read_failed bd R1 b d Lv Pv Rv bdv t err d' dev err' R')
  have i1: "blocks_inv P R1 {}" by (rule inv_init [OF i read_failed(1)])
  have b1: "bands R1 bi = Some bd" by (rule table_init_band [OF read_failed(1)])
  note m = make_room_faithful [OF read_failed(5) i1 b1 read_failed(2-4) table_init_faithful [OF i read_failed(1) V]]
  have bdv: "papoBlocks bdv \<noteq> None" "in_range bdv x y" "slot bdv x y = None" "shrunk bd bdv" using m(5) read_failed(6) by auto
  have "int (length d) = block_bytes bdv" using m(4) shrunk_dims(5) [OF bdv(4)] by simp
  from read_content(1) [OF m(1,2) read_failed(6) bdv(1-3) this] show ?case using read_failed(9,10) by simp
qed

subsection \<open>Users that hold no lock\<close>

lemma make_room_quiet:
  assumes m: "make_room e bi x y bd L P R1 b d Lv Pv Rv" and i: "blocks_inv P R1 {}"
    and bd: "bands R1 bi = Some bd" "papoBlocks bd \<noteq> None" "in_range bd x y" and q: "quiet P"
  shows "quiet (Pv(b := None))"
proof -
  let ?R2 = "snd (GDALGetCacheMax64 e (R1\<lparr>newBlock := newBlock R1 + 1\<rparr>))"
  let ?R3 = "?R2\<lparr>nCacheUsed := nCacheUsed ?R2 + block_bytes bd\<rparr>" let ?P = "P(b \<mapsto> loading bd bi x y 2 (Some d))"
  have b: "b = newBlock R1" and d: "VSIMalloc e (block_bytes bd) = Some d" and ev: "evictions e L ?P ?R3 Lv Pv Rv"
    using m unfolding make_room_def Let_def by blast+
  have "blocks_inv (P(b \<mapsto> loading bd bi x y 1 None)) (R1\<lparr>newBlock := newBlock R1 + 1\<rparr>) {b}"
    unfolding b by (rule inv_alloc [OF i bd]) simp
  then have "blocks_inv (P(b \<mapsto> loading bd bi x y 1 None)) ?R2 {b}" by (rule inv_rest) (simp_all add: GDALGetCacheMax64_rest)
  from inv_internalize [OF this, of b bd bi x y 1 d 2] have i3: "blocks_inv ?P ?R3 {b}"
    using bd(1) allocates [OF d] by (simp add: GDALGetCacheMax64_rest)
  obtain X where X: "Pv = ?P |` (- X)" using evictions_keep [OF ev i3] by blast
  then show ?thesis using q by (auto simp: quiet_def restrict_map_def split: if_splits)
qed

lemma get_quiet:
  assumes g: "get_result e bi x y just L P R res L' P' R'" and i: "blocks_inv P R {}" and V: "faithful P R V" and q: "quiet P"
  shows "case res of None \<Rightarrow> quiet P'
    | Some b \<Rightarrow> \<exists>r. P' b = Some r \<and> nLockCount r = 1 \<and> quiet (P'(b := None))
        \<and> (just \<or> bDirty r \<or> pData r = Some (content (device R') bi x y))"
  using g
proof (induct rule: get_result.induct)
  case (no_block bd R1)
  then show ?case using q by simp
next
  case (hit bd R1 b r)
  have i1: "blocks_inv P R1 {}" by (rule inv_init [OF i hit(1)])
  have V1: "faithful P R1 V" by (rule table_init_faithful [OF i hit(1) V])
  have r: "poBand r = bi" "nXOff r = x" "nYOff r = y" using inv_slot [OF i1 table_init_band [OF hit(1)] hit(3,4)] hit(5) by auto
  have l: "nLockCount r = 0" using q hit(5) by (simp add: quiet_def)
  have "synced P R1" using V1 by (simp add: faithful_def)
  then have "nLockCount r \<le> 0 \<longrightarrow> \<not> bDirty r \<longrightarrow> pData r = Some (content (device R1) (poBand r) (nXOff r) (nYOff r))"
    using hit(5) unfolding synced_def by blast
  then have "\<not> bDirty r \<longrightarrow> pData r = Some (content (device R1) bi x y)" using l r by simp
  then have "bDirty r \<or> pData r = Some (content (device R1) bi x y)" by blast
  then show ?case using l q by (auto simp: quiet_def)
next
  case (no_memory bd R1)
  then show ?case using q by simp
next
  case (no_grid bd R1 b d Lv Pv Rv)
  then show ?case using make_room_quiet [OF no_grid(5) inv_init [OF i no_grid(1)] table_init_band [OF no_grid(1)] no_grid(2,3) q]
    by simp
next
  case (fresh bd R1 b d Lv Pv Rv bdv t)
  have "quiet (Pv(b := None))"
    by (rule make_room_quiet [OF fresh(5) inv_init [OF i fresh(1)] table_init_band [OF fresh(1)] fresh(2,3) q])
  then show ?case using fresh(8) by simp
next
  case (loaded bd R1 b d Lv Pv Rv bdv t d' dev)
  have i1: "blocks_inv P R1 {}" by (rule inv_init [OF i loaded(1)])
  have b1: "bands R1 bi = Some bd" by (rule table_init_band [OF loaded(1)])
  have qv: "quiet (Pv(b := None))" by (rule make_room_quiet [OF loaded(5) i1 b1 loaded(2,3) q])
  note m = make_room_faithful [OF loaded(5) i1 b1 loaded(2-4) table_init_faithful [OF i loaded(1) V]]
  have bdv: "papoBlocks bdv \<noteq> None" "in_range bdv x y" "slot bdv x y = None" "shrunk bd bdv" using m(5) loaded(6) by auto
  have len: "int (length d) = block_bytes bdv" using m(4) shrunk_dims(5) [OF bdv(4)] by simp
  note rc = read_content [OF m(1,2) loaded(6) bdv(1-3) len]
  have d': "d' = V bi x y" "dev = device Rv" using rc(1) loaded(9) by simp_all
  have "view Pv Rv bi x y = V bi x y" using m(1) rc(2) by (simp add: faithful_def)
  then have "d' = content dev bi x y" using loaded(6) bdv(3) d' by (simp add: view_def)
  then show ?case using qv by simp
next
  case (read_failed bd R1 b d Lv Pv Rv bdv t err d' dev err' R')
  then show ?case using make_room_quiet [OF read_failed(5) inv_init [OF i read_failed(1)] table_init_band [OF read_failed(1)] read_failed(2,3) q]
    by simp
qed

lemma unlock_faithful:
  assumes V: "faithful P R V" and b: "P b = Some r" "same_place r r'" "pData r' = pData r" "bDirty r' = bDirty r"
    and s: "bDirty r \<or> pData r = Some (content (device R) (poBand r) (nXOff r) (nYOff r))"
  shows "faithful (P(b \<mapsto> r')) R V"
  using assms by (auto simp: faithful_def view_change synced_def same_place_def)

text \<open>Overwriting a block changes what users see at its position.\<close>

lemma overwrite_faithful:
  assumes V: "faithful P R V" and i: "blocks_inv P R {}" and b: "P b = Some r" "same_place r r'" "pData r' = Some d" "bDirty r'"
    and pos: "poBand r = bi" "nXOff r = x" "nYOff r = y"
  shows "faithful (P(b \<mapsto> r')) R (put V bi x y d)"
proof -
  obtain bd where bd: "bands R bi = Some bd" "slot bd x y = Some b" using block_placed [OF i b(1)] pos by auto
  have "view (P(b \<mapsto> r')) R bi' x' y' = put V bi x y d bi' x' y'" if h: "inside R bi' x' y'" for bi' x' y'
  proof -
    have v: "view P R bi' x' y' = V bi' x' y'" using V h by (simp add: faithful_def)
    obtain bd' where bd': "bands R bi' = Some bd'" "0 \<le> x'" "x' < width bd'" "0 \<le> y'" "y' < height bd'"
      using h by (auto simp: inside_def)
    show ?thesis
    proof (cases "slot bd' x' y' = Some b")
      case True
      have "in_range bd' x' y'" using bd' in_range_inside [OF inv_band [OF i bd'(1)]] slot_Some [OF True] by simp
      from inv_slot [OF i bd'(1) this True] b(1) pos have "bi' = bi \<and> x' = x \<and> y' = y" by auto
      then show ?thesis using bd'(1) True b(3) by (simp add: view_def put_def)
    next
      case False
      then have "\<not> (bi' = bi \<and> x' = x \<and> y' = y)" using bd bd'(1) by auto
      then show ?thesis using v False bd'(1) by (auto simp: view_def put_def split: option.splits)
    qed
  qed
  then show ?thesis using V b(4) by (simp add: faithful_def synced_def)
qed

lemma flushes_faithful:
  "flushes e bi g L P R g' L' P' R' \<Longrightarrow> blocks_inv P R {} \<Longrightarrow> faithful P R V \<Longrightarrow> quiet P \<Longrightarrow> g = CE_None
    \<Longrightarrow> g' = CE_None \<and> faithful P' R' V \<and> quiet P'"
proof (induction rule: flushes.induct)
  case (flush P b r g R err R1 L g' L' P' R')
  have "nLockCount r \<le> 0" using flush.prems(3) flush.hyps(1) by (simp add: quiet_def)
  from flushed_faithful [OF flush.prems(1) flush.hyps(1) _ this flush.hyps(3) _ flush.prems(2)] flush.prems(4)
  have n: "err = CE_None" "faithful (P(b := None)) R1 V" by simp_all
  have "quiet (P(b := None))" using flush.prems(3) by (simp add: quiet_def)
  from flush.IH [OF flush.hyps(4) n(2) this] show ?case using n(1) flush.prems(4) by (simp add: worse_def)
next
  case (regrid R bd t P g L g' L' P' R')
  let ?R = "with_table R bi bd t" let ?bd = "bd\<lparr>papoBlocks := Some t\<rparr>"
  have s: "width ?bd = width bd" "height ?bd = height bd" "block_bytes ?bd = block_bytes bd"
    by (simp_all add: width_def height_def block_bytes_def)
  have ins: "inside ?R = inside R"
    by (rule inside_geom_eq, rule geom_upd [OF regrid.hyps(1), of _ ?bd]) (simp_all add: shape_def)
  have "view P ?R bi' x y = V bi' x y" if h: "inside R bi' x y" for bi' x y
  proof (cases "bi' = bi")
    case True
    then have "in_range bd x y" using h regrid.hyps(1,3) in_range_inside [OF inv_band [OF regrid.prems(1) regrid.hyps(1)]]
      by (auto simp: inside_def)
    then have "slot ?bd x y = slot bd x y" using regrid.hyps(2) by blast
    then have "view P ?R bi' x y = view P R bi' x y" using True regrid.hyps(1) by (simp add: view_def cong: option.case_cong)
    then show ?thesis using regrid.prems(2) h by (simp add: faithful_def)
  next
    case False
    then have "view P ?R bi' x y = view P R bi' x y" by (simp add: view_def cong: option.case_cong)
    then show ?thesis using regrid.prems(2) h by (simp add: faithful_def)
  qed
  moreover have "fits ?R" "no_errors ?R" "synced P ?R" "good (device ?R)"
    using regrid.prems(2) regrid.hyps(1) s by (auto simp: faithful_def fits_def no_errors_def synced_def)
  ultimately have "faithful P ?R V" using ins by (simp add: faithful_def)
  then show ?case using regrid.IH [OF regrid.hyps(4)] regrid.prems(3,4) by blast
qed simp

text \<open>The state between two calls of users.\<close>

definition seen :: "'d gdal \<Rightarrow> (nat \<Rightarrow> int \<Rightarrow> int \<Rightarrow> byte list) \<Rightarrow> bool" where
  "seen s V \<longleftrightarrow> (\<exists>L P R. cache s L P R {} \<and> quiet P \<and> faithful P R V)"

lemma cache_geom: "cache s L P R F \<Longrightarrow> geom s = geom R"
  by (rule geom_bands) (rule cache_bands)

text \<open>A block is locked; unlocking it is the last step of the users.\<close>

lemma unlock_seen:
  assumes c: "cache s L P R {}" and b: "P b = Some r" "nLockCount r = 1" and q: "quiet (P(b := None))" and V: "faithful P R V"
    and d: "bDirty r \<or> pData r = Some (content (device R) (poBand r) (nXOff r) (nYOff r))"
  shows "\<exists>s'. DropLock b s = Some s' \<and> seen s' V \<and> geom s' = geom s"
proof -
  let ?r = "r\<lparr>nLockCount := 0\<rparr>"
  have lru: "lru s L P R" and i: "blocks_inv P R {}" and dom: "dom P = set L" using c by (auto simp: cache_def)
  have "nLockCount r - 1 = 0" using b(2) by simp
  then obtain s' where s': "DropLock b s = Some s'" "lru s' L (P(b \<mapsto> ?r)) R" using DropLock_lru [OF lru b(1)] by auto
  have "blocks_inv (P(b \<mapsto> ?r)) R {}" by (rule inv_change [OF i b(1)]) (simp_all add: same_place_def bytes_def)
  moreover have "dom (P(b \<mapsto> ?r)) = set L" using dom b(1) by auto
  ultimately have c': "cache s' L (P(b \<mapsto> ?r)) R {}" using s'(2) by (simp add: cache_def)
  have "nLockCount r' = 0" if "(P(b \<mapsto> ?r)) c = Some r'" for c r'
  proof (cases "c = b")
    case False
    then have "(P(b := None)) c = Some r'" using that by simp
    then show ?thesis using q unfolding quiet_def by blast
  qed (use that in auto)
  then have "quiet (P(b \<mapsto> ?r))" by (simp add: quiet_def)
  moreover have "faithful (P(b \<mapsto> ?r)) R V" by (rule unlock_faithful [OF V b(1)]) (use d in \<open>simp_all add: same_place_def\<close>)
  ultimately show ?thesis using s'(1) c' cache_geom [OF c] cache_geom [OF c'] unfolding seen_def by metis
qed

lemma cache_inside: "cache s L P R F \<Longrightarrow> inside s = inside R"
  by (rule inside_geom_eq) (simp add: cache_geom)

text \<open>Getting a block, for users that hold no lock: then this block is the only one that is locked.\<close>

definition held :: "'d gdal \<Rightarrow> (nat \<Rightarrow> int \<Rightarrow> int \<Rightarrow> byte list) \<Rightarrow> nat \<Rightarrow> int \<Rightarrow> int \<Rightarrow> bool \<Rightarrow> nat \<Rightarrow> bool" where
  "held s V bi x y just b \<longleftrightarrow> (\<exists>L P R r d. cache s L P R {} \<and> P b = Some r \<and> nLockCount r = 1 \<and> quiet (P(b := None))
     \<and> poBand r = bi \<and> nXOff r = x \<and> nYOff r = y \<and> pData r = Some d
     \<and> (just \<or> d = V bi x y \<and> (bDirty r \<or> d = content (device R) bi x y)) \<and> faithful P R (put V bi x y d))"

lemma get_seen:
  assumes s: "seen s V" and bi: "bands s bi \<noteq> None"
  shows "\<exists>s' res. GetLockedBlockRef e bi x y just s = Some (res, s') \<and> geom s' = geom s
    \<and> (case res of None \<Rightarrow> seen s' V \<and> \<not> served e s bi x y | Some b \<Rightarrow> inside s bi x y \<and> held s' V bi x y just b)"
proof -
  obtain L P R where c: "cache s L P R {}" and q: "quiet P" and V: "faithful P R V" using s unfolding seen_def by blast
  have i: "blocks_inv P R {}" using c by (simp add: cache_def)
  have "bands R bi \<noteq> None" using bi cache_bands [OF c] by simp
  from GetLockedBlockRef_cache [OF c this driver_ok] obtain s' res L' P' R' where
    g: "GetLockedBlockRef e bi x y just s = Some (res, s')" "cache s' L' P' R' {}" "get_result e bi x y just L P R res L' P' R'"
    by blast
  note f = get_faithful [OF g(3) i V] and gq = get_quiet [OF g(3) i V q]
  have gm: "geom s' = geom s" using geom_get [OF g(3) i driver_ok] cache_geom [OF c] cache_geom [OF g(2)] by simp
  show ?thesis
  proof (cases res)
    case None
    then have "seen s' V" using f gq g(2) unfolding seen_def by auto
    moreover have "\<not> served e s bi x y"
      using get_none [OF g(3) None i V] served_geom [OF cache_geom [OF c], of e] by simp
    ultimately show ?thesis using g(1) gm None by simp
  next
    case (Some b)
    obtain d where d: "locked_at P' b bi x y d" "just \<or> d = V bi x y" "inside R bi x y" "faithful P' R' (put V bi x y d)"
      using f Some by auto
    obtain r where r: "P' b = Some r" "poBand r = bi" "nXOff r = x" "nYOff r = y" "pData r = Some d"
      using d(1) by (auto simp: locked_at_def)
    have rq: "nLockCount r = 1" "quiet (P'(b := None))" "just \<or> bDirty r \<or> d = content (device R') bi x y"
      using gq Some r(1,5) by auto
    have "just \<or> d = V bi x y \<and> (bDirty r \<or> d = content (device R') bi x y)" using d(2) rq(3) by blast
    then have "held s' V bi x y just b" unfolding held_def using g(2) r rq(1,2) d(4) by blast
    moreover have "inside s bi x y" using d(3) cache_inside [OF c] by simp
    ultimately show ?thesis using g(1) gm Some by simp
  qed
qed

text \<open>Reading a block gives the data that users see.\<close>

lemma read_block_seen:
  assumes s: "seen s V" and bi: "bands s bi \<noteq> None"
  shows "\<exists>r s'. read_block e bi x y s = Some (r, s') \<and> seen s' V \<and> geom s' = geom s
    \<and> (r = Some (V bi x y) \<or> r = None \<and> \<not> served e s bi x y)"
proof -
  obtain s1 res where g: "GetLockedBlockRef e bi x y False s = Some (res, s1)" "geom s1 = geom s"
    and c: "case res of None \<Rightarrow> seen s1 V \<and> \<not> served e s bi x y
       | Some b \<Rightarrow> inside s bi x y \<and> held s1 V bi x y False b"
    using get_seen [OF s bi, of x y False] by blast
  show ?thesis
  proof (cases res)
    case None
    then show ?thesis using g c by (simp add: read_block_def)
  next
    case (Some b)
    then obtain L P R r where r: "cache s1 L P R {}" "P b = Some r" "nLockCount r = 1" "quiet (P(b := None))"
      "poBand r = bi" "nXOff r = x" "nYOff r = y" "pData r = Some (V bi x y)"
      "bDirty r \<or> V bi x y = content (device R) bi x y" "faithful P R (put V bi x y (V bi x y))" using c unfolding held_def by auto
    have "put V bi x y (V bi x y) = V" by (auto simp: put_def fun_eq_iff)
    then obtain s' where s': "DropLock b s1 = Some s'" "seen s' V" "geom s' = geom s1"
      using unlock_seen [OF r(1-4), of V] r(5-10) by auto
    have "lru s1 L P R" using r(1) by (simp add: cache_def)
    from lru_block [OF this r(2)] obtain q where q: "blocks s1 b = Some q" "payload q = r" by blast
    then have "pData q = Some (V bi x y)" using r(8) by auto
    then show ?thesis using g s' q(1) Some by (simp add: read_block_def)
  qed
qed

text \<open>Overwriting a block changes what users see there, and nothing else.\<close>

lemma write_block_seen:
  assumes s: "seen s V" and bd: "bands s bi = Some bd" and d: "int (length d) = block_bytes bd"
  shows "\<exists>ok s'. write_block e bi x y d s = Some (ok, s') \<and> seen s' (if ok then put V bi x y d else V) \<and> geom s' = geom s
    \<and> (ok \<or> \<not> served e s bi x y)"
proof -
  have bi: "bands s bi \<noteq> None" using bd by simp
  obtain s1 res where g: "GetLockedBlockRef e bi x y True s = Some (res, s1)" "geom s1 = geom s"
    and c: "case res of None \<Rightarrow> seen s1 V \<and> \<not> served e s bi x y
       | Some b \<Rightarrow> inside s bi x y \<and> held s1 V bi x y True b"
    using get_seen [OF s bi, of x y True] by blast
  show ?thesis
  proof (cases res)
    case None
    then have "write_block e bi x y d s = Some (False, s1)" using g by (simp add: write_block_def)
    then show ?thesis using g(2) c None by auto
  next
    case (Some b)
    then obtain L P R r d0 where r: "cache s1 L P R {}" "P b = Some r" "nLockCount r = 1" "quiet (P(b := None))"
      "poBand r = bi" "nXOff r = x" "nYOff r = y" "pData r = Some d0" "faithful P R (put V bi x y d0)" using c unfolding held_def by auto
    have lru: "lru s1 L P R" and i: "blocks_inv P R {}" using r(1) by (auto simp: cache_def)
    obtain bd1 where bd1: "bands s1 bi = Some bd1" "shape bd1 = shape bd" using geom_band [OF g(2) bd] by blast
    have "int (length d0) = block_bytes bd1" using inv_block [OF i r(2)] r(5,8) bd1(1) cache_bands [OF r(1)] by (auto simp: block_ok_def)
    then have len: "length d = length d0" using d shape_eq [OF bd1(2)] by simp
    let ?r = "r\<lparr>pData := Some d\<rparr>" let ?r2 = "r\<lparr>pData := Some d, bDirty := True\<rparr>"
    obtain s2 where s2: "upd_block b (pData_update (\<lambda>_. Some d)) s1 = Some s2" "lru s2 L (P(b \<mapsto> ?r)) R"
      using poke_lru [OF lru r(2)] by blast
    obtain s3 where s3: "MarkDirty b s2 = Some s3" "lru s3 L (P(b \<mapsto> ?r2)) R"
      using MarkDirty_lru [OF s2(2), of b ?r] by auto
    have c3: "cache s3 L (P(b \<mapsto> ?r2)) R {}"
      by (rule change_well [OF r(1,2) s3(2)]) (use r(3,8) len in \<open>simp_all add: same_place_def bytes_def\<close>)
    have "faithful (P(b \<mapsto> ?r2)) R (put (put V bi x y d0) bi x y d)"
      by (rule overwrite_faithful [OF r(9) i r(2) _ _ _ r(5-7)]) (simp_all add: same_place_def)
    moreover have "put (put V bi x y d0) bi x y d = put V bi x y d" by (auto simp: put_def fun_eq_iff)
    ultimately have V3: "faithful (P(b \<mapsto> ?r2)) R (put V bi x y d)" by simp
    have "quiet ((P(b \<mapsto> ?r2))(b := None))" using r(4) by simp
    then obtain s' where "DropLock b s3 = Some s'" "seen s' (put V bi x y d)" "geom s' = geom s3"
      using unlock_seen [OF c3 _ _ _ V3, of b ?r2] r(3) by auto
    moreover from this have "write_block e bi x y d s = Some (True, s')"
      using g(1) s2(1) s3(1) Some by (simp add: write_block_def overwrite_def)
    ultimately show ?thesis using g(2) cache_geom [OF c3] cache_geom [OF r(1)] by auto
  qed
qed

lemma quiet_quiet_band: "quiet P \<Longrightarrow> blocks_inv P R F \<Longrightarrow> quiet_band bi P"
  using inv_block [of P R F] by (fastforce simp: quiet_def quiet_band_def block_ok_def split: if_splits)

text \<open>After \<open>FlushCache\<close> the device has the data that users see.\<close>

lemma flush_seen:
  assumes s: "seen s V" and bi: "bands s bi \<noteq> None"
  shows "\<exists>s'. FlushCache e bi s = Some (CE_None, s') \<and> seen s' V \<and> geom s' = geom s
    \<and> (\<forall>x y. inside s bi x y \<longrightarrow> content (device s') bi x y = V bi x y)"
proof -
  obtain L P R where c: "cache s L P R {}" and q: "quiet P" and V: "faithful P R V" using s unfolding seen_def by blast
  have i: "blocks_inv P R {}" using c by (simp add: cache_def)
  obtain bd where bd: "bands R bi = Some bd" using bi cache_bands [OF c] by auto
  have ok: "eFlushBlockErr bd = CE_None" using V bd by (simp add: faithful_def no_errors_def)
  then have clear: "clear_error bi bd R = R" by (simp add: clear_error_def)
  obtain s' g' L' P' R' where f: "FlushCache e bi s = Some (g', s')" "cache s' L' P' R' {}"
    "flushes e bi CE_None L P R g' L' P' R'" "\<forall>b r. P' b = Some r \<longrightarrow> poBand r \<noteq> bi"
    using FlushCache_cache [OF c bd quiet_quiet_band [OF q i], of e] ok clear by auto
  have n: "g' = CE_None" "faithful P' R' V" "quiet P'" using flushes_faithful [OF f(3) i V q] by simp_all
  have gm: "geom s' = geom s" using geom_flushes [OF f(3)] cache_geom [OF c] cache_geom [OF f(2)] by simp
  have "content (device s') bi x y = V bi x y" if ins: "inside s bi x y" for x y
  proof -
    have ins': "inside R' bi x y" using ins inside_geom_eq [OF gm] cache_inside [OF f(2)] by simp
    then obtain bd' where bd': "bands R' bi = Some bd'" "0 \<le> x" "x < width bd'" "0 \<le> y" "y < height bd'" by (auto simp: inside_def)
    have i': "blocks_inv P' R' {}" using f(2) by (simp add: cache_def)
    have "slot bd' x y = None"
    proof (rule ccontr)
      assume "slot bd' x y \<noteq> None"
      then obtain b where b: "slot bd' x y = Some b" by auto
      have "in_range bd' x y" using bd' in_range_inside [OF inv_band [OF i' bd'(1)]] slot_Some [OF b] by simp
      from inv_slot [OF i' bd'(1) this b] f(4) show False by blast
    qed
    then have "view P' R' bi x y = content (device R') bi x y" using bd'(1) by (simp add: view_def)
    then have "V bi x y = content (device R') bi x y" using n(2) ins' by (simp add: faithful_def)
    moreover have "device s' = device R'" using f(2) lru_rest by (auto simp: cache_def)
    ultimately show ?thesis by simp
  qed
  then show ?thesis using f(1,2) n gm unfolding seen_def by blast
qed

lemma evictions_seen:
  assumes c: "cache s' L' P' R' {}" and ev: "evictions e L P R L' P' R'" and i: "blocks_inv P R {}" and V: "faithful P R V" and q: "quiet P"
  shows "seen s' V \<and> geom s' = geom R"
proof -
  obtain X where "P' = P |` (- X)" "all_shrunk R R'" using evictions_keep [OF ev i] by blast
  then have "quiet P'" "geom R' = geom R" using q geom_all_shrunk by (auto simp: quiet_def restrict_map_def split: if_splits)
  then show ?thesis using c evictions_faithful [OF ev i V] cache_geom [OF c] unfolding seen_def by auto
qed

lemma limit_seen:
  assumes s: "seen s V"
  shows "\<exists>s'. GDALSetCacheMax64 e n s = Some s' \<and> seen s' V \<and> geom s' = geom s"
proof -
  obtain L P R where c: "cache s L P R {}" and q: "quiet P" and V: "faithful P R V" using s unfolding seen_def by blast
  let ?R = "R\<lparr>bCacheMaxInitialized := True, nCacheMax := n\<rparr>"
  obtain s' L' P' R' where l: "GDALSetCacheMax64 e n s = Some s'" "cache s' L' P' R' {}" "evictions e L P ?R L' P' R'"
    using GDALSetCacheMax64_cache [OF c] by blast
  have "blocks_inv P ?R {}" using c inv_rest [of P R "{}" ?R] by (simp add: cache_def)
  moreover have "faithful P ?R V" by (rule faithful_rest [OF V]) simp_all
  ultimately have "seen s' V \<and> geom s' = geom ?R" using evictions_seen [OF l(2,3)] q by blast
  moreover have "geom ?R = geom s" using cache_geom [OF c] geom_bands [of ?R R] by simp
  ultimately show ?thesis using l(1) by auto
qed

lemma evict_seen:
  assumes s: "seen s V"
  shows "\<exists>r s'. FlushCacheBlock e s = Some (r, s') \<and> seen s' V \<and> geom s' = geom s"
proof -
  obtain L P R where c: "cache s L P R {}" and q: "quiet P" and V: "faithful P R V" using s unfolding seen_def by blast
  have i: "blocks_inv P R {}" and lru: "lru s L P R" using c by (auto simp: cache_def)
  show ?thesis
  proof (cases "List.find (unlocked P) (rev L)")
    case None
    then show ?thesis using FlushCacheBlock_none [OF c None, of e] s by auto
  next
    case (Some b)
    then have "b \<in> set L" using find_rev by fastforce
    then obtain r where r: "P b = Some r" using lru_dom [OF lru] by auto
    obtain s' R' err where f: "FlushCacheBlock e s = Some (True, s')" "flushed e True R r err R'"
      "cache s' (removeAll b L) (P(b := None)) (record_error (poBand r) err R') {}"
      using FlushCacheBlock_some [OF c Some r, of e] by blast
    have i': "blocks_inv (P(b := None)) (record_error (poBand r) err R') {}" using f(3) by (simp add: cache_def)
    have "evictions e L P R (removeAll b L) (P(b := None)) (record_error (poBand r) err R')"
      by (rule evictions.evict [OF Some r f(2) i' evictions.stop])
    from evictions_seen [OF f(3) this i V q] f(1) cache_geom [OF c] show ?thesis by auto
  qed
qed

text \<open>One access behaves as the store without a cache.\<close>

lemma access_seen:
  assumes s: "seen s V" and ok: "access_ok s a"
  shows "\<exists>r s' V'. access_step e a s = Some (r, s') \<and> seen s' V' \<and> geom s' = geom s
    \<and> (\<forall>as rs. answers (served e s) (a # as) (r # rs) V = answers (served e s) as rs V')"
proof (cases a)
  case (Read bi x y)
  then have "bands s bi \<noteq> None" using ok by simp
  from read_block_seen [OF s this, of x y] show ?thesis using Read by fastforce
next
  case (Overwrite bi x y d)
  then obtain bd where "bands s bi = Some bd" "int (length d) = block_bytes bd" using ok by auto
  from write_block_seen [OF s this, of x y] show ?thesis using Overwrite by fastforce
next
  case (FlushAll bi)
  then have "bands s bi \<noteq> None" using ok by simp
  from flush_seen [OF s this] show ?thesis using FlushAll by fastforce
next
  case (SetMax n)
  from limit_seen [OF s, of n] show ?thesis using SetMax by fastforce
next
  case EvictOne
  from evict_seen [OF s] show ?thesis using EvictOne by fastforce
qed

lemma access_ok_geom:
  assumes g: "geom s' = geom s" and ok: "access_ok s a"
  shows "access_ok s' a"
proof -
  have b: "bands s' bi \<noteq> None" if "bands s bi \<noteq> None" for bi using geom_band [OF g] that by fastforce
  show ?thesis
  proof (cases a)
    case (Overwrite bi x y d)
    then obtain bd where bd: "bands s bi = Some bd" "int (length d) = block_bytes bd" using ok by auto
    then obtain bd' where "bands s' bi = Some bd'" "shape bd' = shape bd" using geom_band [OF g] by blast
    then show ?thesis using Overwrite bd shape_eq [of bd' bd] by simp
  qed (use ok b in simp_all)
qed

lemma accesses_seen:
  "seen s V \<Longrightarrow> \<forall>a \<in> set as. access_ok s a \<Longrightarrow>
    \<exists>rs s' V'. accesses e as s = Some (rs, s') \<and> answers (served e s) as rs V = Some V' \<and> seen s' V' \<and> geom s' = geom s"
proof (induction as arbitrary: s V)
  case (Cons a as)
  obtain r s1 V1 where a: "access_step e a s = Some (r, s1)" "seen s1 V1" "geom s1 = geom s"
    "\<forall>as rs. answers (served e s) (a # as) (r # rs) V = answers (served e s) as rs V1"
    using access_seen [OF Cons.prems(1), of a] Cons.prems(2) by auto
  have "\<forall>a \<in> set as. access_ok s1 a" using Cons.prems(2) access_ok_geom [OF a(3)] by auto
  from Cons.IH [OF a(2) this] obtain rs s' V' where "accesses e as s1 = Some (rs, s')" "answers (served e s) as rs V1 = Some V'" "seen s' V'" "geom s' = geom s1"
    unfolding served_geom [OF a(3)] by blast
  then show ?case using a by auto
qed auto

text \<open>An empty cache shows the device.\<close>

lemma initial_seen:
  assumes "initial s" "good (device s)" "fits s" "no_errors s"
  shows "seen s (content (device s))"
proof -
  obtain L P R where c: "cache s L P R {}" using initial_well [OF assms(1)] unfolding well_def by blast
  have P: "P = Map.empty" using well_blocks [OF c] assms(1) by (auto simp: initial_def fun_eq_iff)
  have R: "bands R = bands s" "device R = device s" using cache_bands [OF c] c lru_rest(6) [of s L P R] by (simp_all add: cache_def)
  have "slot bd x y = None" if "bands s bi = Some bd" for bi bd x y
    using assms(1) that by (intro slot_no_table) (simp add: initial_def)
  then have "view P R bi x y = content (device s) bi x y" if "inside R bi x y" for bi x y
    using that R by (auto simp: view_def inside_def)
  then have "faithful P R (content (device s))"
    using assms(2-4) R P by (simp add: faithful_def fits_def no_errors_def synced_def)
  moreover have "quiet P" using P by (simp add: quiet_def)
  ultimately show ?thesis using c unfolding seen_def by blast
qed

end

end
