(* ===== verification/Mem_Dataset.thy ===== *)
theory Mem_Dataset
  imports Gdal_Block_Cache
begin

text \<open>
  The bands of the in-memory driver (\<^verbatim>\<open>frmts/mem/memdataset.cpp\<close>): a block is one line of pixels, which are
  \<open>nPixelOffset\<close> bytes apart; lines are \<open>nLineOffset\<close> bytes apart. Every band has its own memory. The value \<open>None\<close>
  is a failed assertion or an access outside the memory of the band or the block.
\<close>

section \<open>Bands\<close>

record mem_band =
  mem_width :: int
  mem_height :: int
  mem_type :: GDALDataType
  nPixelOffset :: int
  nLineOffset :: int
  pabyData :: "byte list"

text \<open>The constructor for the raster size of the dataset: offsets of 0 stand for packed lines.\<close>

definition MEMRasterBand :: "int \<Rightarrow> int \<Rightarrow> byte list \<Rightarrow> GDALDataType \<Rightarrow> int \<Rightarrow> int \<Rightarrow> mem_band" where
  "MEMRasterBand w h pabyDataIn eTypeIn nPixelOffsetIn nLineOffsetIn =
     (let nPixelOffsetIn = (if nPixelOffsetIn = 0 then GDALGetDataTypeSize eTypeIn sdiv 8 else nPixelOffsetIn);
          nLineOffsetIn = (if nLineOffsetIn = 0 then int32 (nPixelOffsetIn * w) else nLineOffsetIn)
      in \<lparr>mem_width = w, mem_height = h, mem_type = eTypeIn, nPixelOffset = nPixelOffsetIn, nLineOffset = nLineOffsetIn,
          pabyData = pabyDataIn\<rparr>)"

text \<open>\<^verbatim>\<open>memcpy\<close> of \<open>n\<close> bytes between positions of two arrays.\<close>

definition copy_bytes :: "byte list \<Rightarrow> int \<Rightarrow> byte list \<Rightarrow> int \<Rightarrow> int \<Rightarrow> byte list option" where
  "copy_bytes dst i src j n =
     (if 0 \<le> n \<and> 0 \<le> i \<and> i + n \<le> int (length dst) \<and> 0 \<le> j \<and> j + n \<le> int (length src)
      then Some (take (nat i) dst @ take (nat n) (drop (nat j) src) @ drop (nat (i + n)) dst) else None)"

fun read_pixels :: "mem_band \<Rightarrow> int \<Rightarrow> int \<Rightarrow> int list \<Rightarrow> byte list \<Rightarrow> byte list option" where
  "read_pixels m nWordSize cur [] pImage = Some pImage"
| "read_pixels m nWordSize cur (iPixel # ps) pImage = do {
     pImage \<leftarrow> copy_bytes pImage (int32 (iPixel * nWordSize)) (pabyData m) (cur + int32 (iPixel * nPixelOffset m)) nWordSize;
     read_pixels m nWordSize cur ps pImage
   }"

definition MEM_IReadBlock :: "mem_band \<Rightarrow> int \<Rightarrow> int \<Rightarrow> byte list \<Rightarrow> byte list option" where
  "MEM_IReadBlock m nBlockXOff nBlockYOff pImage =
     (let nWordSize = GDALGetDataTypeSize (mem_type m) sdiv 8
      in if nBlockXOff \<noteq> 0 then None
         else if nPixelOffset m = nWordSize
         then copy_bytes pImage 0 (pabyData m) (nLineOffset m * nBlockYOff) (int32 (nPixelOffset m * mem_width m))
         else read_pixels m nWordSize (nLineOffset m * nBlockYOff) [0..mem_width m - 1] pImage)"

fun write_pixels :: "mem_band \<Rightarrow> int \<Rightarrow> int \<Rightarrow> int list \<Rightarrow> byte list \<Rightarrow> byte list \<Rightarrow> byte list option" where
  "write_pixels m nWordSize cur [] pImage d = Some d"
| "write_pixels m nWordSize cur (iPixel # ps) pImage d = do {
     d \<leftarrow> copy_bytes d (cur + int32 (iPixel * nPixelOffset m)) pImage (int32 (iPixel * nWordSize)) nWordSize;
     write_pixels m nWordSize cur ps pImage d
   }"

definition MEM_IWriteBlock :: "mem_band \<Rightarrow> int \<Rightarrow> int \<Rightarrow> byte list \<Rightarrow> mem_band option" where
  "MEM_IWriteBlock m nBlockXOff nBlockYOff pImage =
     (let nWordSize = GDALGetDataTypeSize (mem_type m) sdiv 8
      in if nBlockXOff \<noteq> 0 then None
         else map_option (\<lambda>d. m\<lparr>pabyData := d\<rparr>)
           (if nPixelOffset m = nWordSize
            then copy_bytes (pabyData m) (nLineOffset m * nBlockYOff) pImage 0 (int32 (nPixelOffset m * mem_width m))
            else write_pixels m nWordSize (nLineOffset m * nBlockYOff) [0..mem_width m - 1] pImage (pabyData m)))"

section \<open>Memory of a band\<close>

text \<open>Pixels and lines do not overlap, the last line ends inside the memory, and sizes fit \<^verbatim>\<open>int\<close>.\<close>

definition word_size :: "mem_band \<Rightarrow> int" where
  "word_size m = GDALGetDataTypeSize (mem_type m) sdiv 8"

definition mem_ok :: "mem_band \<Rightarrow> bool" where
  "mem_ok m \<longleftrightarrow> mem_type m \<noteq> GDT_Unknown \<and> 0 < mem_width m \<and> 0 < mem_height m \<and> word_size m \<le> nPixelOffset m
    \<and> nPixelOffset m * mem_width m < 2 ^ 31 \<and> nPixelOffset m * mem_width m \<le> nLineOffset m
    \<and> nLineOffset m * mem_height m \<le> int (length (pabyData m))"

lemma word_size_pos: "mem_type m \<noteq> GDT_Unknown \<Longrightarrow> 0 < word_size m"
  by (cases "mem_type m") (simp_all add: word_size_def signed_divide_int_def)

text \<open>The position of a byte of a line.\<close>

definition byte_at :: "mem_band \<Rightarrow> int \<Rightarrow> nat \<Rightarrow> nat" where
  "byte_at m y k = nat (nLineOffset m * y + int k div word_size m * nPixelOffset m + int k mod word_size m)"

definition line :: "mem_band \<Rightarrow> int \<Rightarrow> byte list" where
  "line m y = map (\<lambda>k. pabyData m ! byte_at m y k) [0..<nat (mem_width m * word_size m)]"

lemma length_copy_bytes: "copy_bytes dst i src j n = Some d \<Longrightarrow> length d = length dst"
  by (auto simp: copy_bytes_def split: if_splits)

lemma nth_copy_bytes:
  assumes "copy_bytes dst i src j n = Some d" "k < length dst"
  shows "d ! k = (if i \<le> int k \<and> int k < i + n then src ! nat (j + (int k - i)) else dst ! k)"
proof -
  have b: "0 \<le> n" "0 \<le> i" "i + n \<le> int (length dst)" "0 \<le> j" "j + n \<le> int (length src)"
    and d: "d = take (nat i) dst @ take (nat n) (drop (nat j) src) @ drop (nat (i + n)) dst"
    using assms(1) by (auto simp: copy_bytes_def split: if_splits)
  have l: "length (take (nat i) dst) = nat i" "length (take (nat n) (drop (nat j) src)) = nat n" using b by auto
  consider (before) "int k < i" | (inside) "i \<le> int k" "int k < i + n" | (after) "i + n \<le> int k" by linarith
  then show ?thesis
  proof cases
    case before
    then show ?thesis using l b unfolding d by (simp add: nth_append)
  next
    case inside
    then have "k - nat i < nat n" "\<not> k < nat i" using b by auto
    moreover from this(1) have "nat j + (k - nat i) < length src" using b by linarith
    moreover have "nat j + (k - nat i) = nat (j + (int k - i))" using b inside by auto
    moreover have "drop (nat j) src ! (k - nat i) = src ! (nat j + (k - nat i))" using b by (intro nth_drop) auto
    ultimately show ?thesis using l inside unfolding d by (simp only: nth_append nth_take) simp
  next
    case after
    then have k: "\<not> k < nat i" "\<not> k - nat i < nat n" using b by auto
    have "nat (i + n) + (k - nat i - nat n) = k" using after b by auto
    moreover have "nat (i + n) \<le> length dst" using b by auto
    ultimately show ?thesis using l k after b assms(2) unfolding d by (simp add: nth_append)
  qed
qed

lemma copy_bytes_some:
  "0 \<le> n \<Longrightarrow> 0 \<le> i \<Longrightarrow> i + n \<le> int (length dst) \<Longrightarrow> 0 \<le> j \<Longrightarrow> j + n \<le> int (length src) \<Longrightarrow> \<exists>d. copy_bytes dst i src j n = Some d"
  by (simp add: copy_bytes_def)

text \<open>Where the byte \<open>r\<close> of the pixel \<open>i\<close> is.\<close>

lemma pixel_bounds:
  assumes m: "mem_ok m" and y: "0 \<le> y" "y < mem_height m" and i: "0 \<le> i" "i < mem_width m"
  shows "0 \<le> i * word_size m" "i * word_size m + word_size m \<le> mem_width m * word_size m" "0 \<le> nLineOffset m * y + i * nPixelOffset m"
    "nLineOffset m * y + i * nPixelOffset m + word_size m \<le> int (length (pabyData m))"
    "0 \<le> i * nPixelOffset m" "i * nPixelOffset m + word_size m \<le> nLineOffset m" "i * nPixelOffset m < 2 ^ 31" "i * word_size m < 2 ^ 31"
proof -
  let ?ws = "word_size m" let ?po = "nPixelOffset m" let ?lo = "nLineOffset m"
  have ws: "0 < ?ws" "?ws \<le> ?po" "?po * mem_width m < 2 ^ 31" "?po * mem_width m \<le> ?lo" "?lo * mem_height m \<le> int (length (pabyData m))"
    using m word_size_pos by (auto simp: mem_ok_def)
  show a: "0 \<le> i * ?ws" "0 \<le> i * ?po" using i ws by auto
  have "(i + 1) * ?ws \<le> mem_width m * ?ws" using i ws by (intro mult_right_mono) auto
  then show "i * ?ws + ?ws \<le> mem_width m * ?ws" by (simp add: distrib_right)
  have "(i + 1) * ?po \<le> mem_width m * ?po" using i ws by (intro mult_right_mono) auto
  then have b: "i * ?po + ?po \<le> ?po * mem_width m" by (simp add: algebra_simps)
  then show c: "i * ?po + ?ws \<le> ?lo" using ws by linarith
  show d: "i * ?po < 2 ^ 31" using b ws by linarith
  have "i * ?ws \<le> i * ?po" using ws i by (intro mult_left_mono) auto
  then show "i * ?ws < 2 ^ 31" using d by linarith
  have "0 \<le> ?lo" using c ws a by linarith
  then have "0 \<le> ?lo * y" "?lo * (y + 1) \<le> ?lo * mem_height m" using y by (auto intro: mult_left_mono)
  then show "0 \<le> ?lo * y + i * ?po" "?lo * y + i * ?po + ?ws \<le> int (length (pabyData m))"
    using a c ws by (auto simp: distrib_left)
qed

lemma zdiv_lessI:
  assumes "0 < (b :: int)" "a < c * b"
  shows "a div b < c"
proof (rule ccontr)
  assume "\<not> a div b < c"
  then have "c * b \<le> a div b * b" using assms(1) by (intro mult_right_mono) auto
  moreover have "a div b * b \<le> a" using div_mult_mod_eq [of a b] pos_mod_sign [OF assms(1), of a] by linarith
  ultimately show False using assms(2) by linarith
qed

lemma byte_index:
  assumes m: "mem_ok m" and y: "0 \<le> y" "y < mem_height m" and k: "int k < mem_width m * word_size m"
  shows "int (byte_at m y k) = nLineOffset m * y + int k div word_size m * nPixelOffset m + int k mod word_size m"
    and "byte_at m y k < length (pabyData m)"
    and "0 \<le> int k div word_size m" "int k div word_size m < mem_width m"
    and "int (byte_at m y k) div nLineOffset m = y"
    and "int (byte_at m y k) mod nLineOffset m = int k div word_size m * nPixelOffset m + int k mod word_size m"
proof -
  have ws: "0 < word_size m" using m word_size_pos by (auto simp: mem_ok_def)
  show i: "0 \<le> int k div word_size m" "int k div word_size m < mem_width m"
    using ws k by (simp_all add: pos_imp_zdiv_nonneg_iff zdiv_lessI)
  note b = pixel_bounds [OF m y i]
  have r: "0 \<le> int k mod word_size m" "int k mod word_size m < word_size m" using ws by auto
  show p: "int (byte_at m y k) = nLineOffset m * y + int k div word_size m * nPixelOffset m + int k mod word_size m"
    using b(3) r by (simp add: byte_at_def)
  show "byte_at m y k < length (pabyData m)" using p b(4) r by linarith
  let ?o = "int k div word_size m * nPixelOffset m + int k mod word_size m"
  have o: "0 \<le> ?o" "?o < nLineOffset m" using b(5,6) r by linarith+
  have e: "int (byte_at m y k) = ?o + nLineOffset m * y" using p by simp
  show "int (byte_at m y k) div nLineOffset m = y" using o unfolding e by simp
  show "int (byte_at m y k) mod nLineOffset m = ?o" using o unfolding e by simp
qed

lemma byte_inj:
  assumes m: "mem_ok m" and y: "0 \<le> y" "y < mem_height m" and k: "int k < mem_width m * word_size m" "int l < mem_width m * word_size m"
    and e: "byte_at m y k = byte_at m y l"
  shows "k = l"
proof -
  let ?ws = "word_size m"
  have ws: "0 < ?ws" "?ws \<le> nPixelOffset m" using m word_size_pos by (auto simp: mem_ok_def)
  have o: "int k div ?ws * nPixelOffset m + int k mod ?ws = int l div ?ws * nPixelOffset m + int l mod ?ws"
    using byte_index(6) [OF m y k(1)] byte_index(6) [OF m y k(2)] e by simp
  have r: "0 \<le> int j mod ?ws \<and> int j mod ?ws < nPixelOffset m" for j
  proof -
    have "int j mod ?ws < ?ws" "0 \<le> int j mod ?ws" using ws(1) by simp_all
    then show ?thesis using ws(2) by linarith
  qed
  have q: "(int j div ?ws * nPixelOffset m + int j mod ?ws) div nPixelOffset m = int j div ?ws"
    "(int j div ?ws * nPixelOffset m + int j mod ?ws) mod nPixelOffset m = int j mod ?ws" for j
    using r [of j] by simp_all
  have "int k div ?ws = int l div ?ws" using q(1) [of k] q(1) [of l] o by simp
  moreover have "int k mod ?ws = int l mod ?ws" using q(2) [of k] q(2) [of l] o by simp
  ultimately have "int k = int l" by (metis div_mult_mod_eq)
  then show ?thesis by simp
qed

section \<open>The loops over the pixels\<close>

lemma read_pixels_append:
  "read_pixels m ws cur (ps @ qs) d = Option.bind (read_pixels m ws cur ps d) (read_pixels m ws cur qs)"
  by (induction ps arbitrary: d) (auto split: Option.bind_split)

lemma write_pixels_append:
  "write_pixels m ws cur (ps @ qs) img d = Option.bind (write_pixels m ws cur ps img d) (write_pixels m ws cur qs img)"
  by (induction ps arbitrary: d) (auto split: Option.bind_split)

lemma upto_Suc: "[0..int (Suc n) - 1] = [0..int n - 1] @ [int n]"
  using upto_rec2 [of 0 "int n"] by simp

text \<open>The pixel of a byte of a block.\<close>

lemma pixel_of:
  assumes "0 < (ws :: int)" "n * ws \<le> int k" "int k < n * ws + ws"
  shows "int k div ws = n" "int k mod ws = int k - n * ws"
proof -
  have k: "int k = (int k - n * ws) + n * ws" by simp
  show "int k div ws = n" using assms by (subst k) (simp only: div_mult_self1 div_pos_pos_trivial)
  then show "int k mod ws = int k - n * ws" by (metis minus_div_mult_eq_mod)
qed

lemma read_pixels_line:
  assumes m: "mem_ok m" and y: "0 \<le> y" "y < mem_height m" and len: "int (length img) = mem_width m * word_size m"
  shows "int n \<le> mem_width m \<Longrightarrow> \<exists>d. read_pixels m (word_size m) (nLineOffset m * y) [0..int n - 1] img = Some d
    \<and> length d = length img \<and> (\<forall>k < length img. d ! k = (if int k < int n * word_size m then pabyData m ! byte_at m y k else img ! k))"
proof (induction n)
  case (Suc n)
  let ?ws = "word_size m" let ?cur = "nLineOffset m * y"
  have ws: "0 < ?ws" using m word_size_pos by (auto simp: mem_ok_def)
  obtain d where d: "read_pixels m ?ws ?cur [0..int n - 1] img = Some d" "length d = length img"
    "\<forall>k < length img. d ! k = (if int k < int n * ?ws then pabyData m ! byte_at m y k else img ! k)"
    using Suc by auto
  have n: "0 \<le> int n" "int n < mem_width m" using Suc.prems by auto
  note b = pixel_bounds [OF m y n]
  have i32: "int32 (int n * ?ws) = int n * ?ws" "int32 (int n * nPixelOffset m) = int n * nPixelOffset m"
    using b by (simp_all add: int32_id)
  obtain d' where d': "copy_bytes d (int n * ?ws) (pabyData m) (?cur + int n * nPixelOffset m) ?ws = Some d'"
    using copy_bytes_some [of ?ws "int n * ?ws" d "?cur + int n * nPixelOffset m" "pabyData m"] ws b d(2) len by auto
  have "d' ! k = (if int k < int (Suc n) * ?ws then pabyData m ! byte_at m y k else img ! k)" if k: "k < length img" for k
  proof -
    have c: "d' ! k = (if int n * ?ws \<le> int k \<and> int k < int n * ?ws + ?ws
        then pabyData m ! nat (?cur + int n * nPixelOffset m + (int k - int n * ?ws)) else d ! k)"
      using nth_copy_bytes [OF d', of k] k d(2) by simp
    have s: "int (Suc n) * ?ws = int n * ?ws + ?ws" by (simp add: distrib_right)
    show ?thesis
    proof (cases "int n * ?ws \<le> int k \<and> int k < int n * ?ws + ?ws")
      case True
      then have "byte_at m y k = nat (?cur + int n * nPixelOffset m + (int k - int n * ?ws))"
        using pixel_of [OF ws, of "int n" k] by (simp add: byte_at_def)
      then show ?thesis using c True s by simp
    next
      case False
      then show ?thesis using c d(3) k s ws by auto
    qed
  qed
  moreover have "length d' = length img" using length_copy_bytes [OF d'] d(2) by simp
  moreover have "read_pixels m ?ws ?cur [0..int (Suc n) - 1] img = Some d'"
    using d(1) d' i32 unfolding upto_Suc read_pixels_append by simp
  ultimately show ?case by blast
qed simp

lemma write_pixels_line:
  assumes m: "mem_ok m" and y: "0 \<le> y" "y < mem_height m" and len: "int (length img) = mem_width m * word_size m"
  shows "int n \<le> mem_width m \<Longrightarrow> \<exists>d. write_pixels m (word_size m) (nLineOffset m * y) [0..int n - 1] img (pabyData m) = Some d
    \<and> length d = length (pabyData m) \<and> (\<forall>k. int k < int n * word_size m \<longrightarrow> d ! byte_at m y k = img ! k)
    \<and> (\<forall>p < length d. (\<forall>k. int k < int n * word_size m \<longrightarrow> p \<noteq> byte_at m y k) \<longrightarrow> d ! p = pabyData m ! p)"
proof (induction n)
  case (Suc n)
  let ?ws = "word_size m" let ?cur = "nLineOffset m * y"
  have ws: "0 < ?ws" using m word_size_pos by (auto simp: mem_ok_def)
  obtain d where d: "write_pixels m ?ws ?cur [0..int n - 1] img (pabyData m) = Some d" "length d = length (pabyData m)"
    "\<And>k. int k < int n * ?ws \<Longrightarrow> d ! byte_at m y k = img ! k"
    "\<And>p. p < length d \<Longrightarrow> \<forall>k. int k < int n * ?ws \<longrightarrow> p \<noteq> byte_at m y k \<Longrightarrow> d ! p = pabyData m ! p"
    using Suc by auto
  have n: "0 \<le> int n" "int n < mem_width m" using Suc.prems by auto
  note b = pixel_bounds [OF m y n]
  have i32: "int32 (int n * ?ws) = int n * ?ws" "int32 (int n * nPixelOffset m) = int n * nPixelOffset m"
    using b by (simp_all add: int32_id)
  have s: "int (Suc n) * ?ws = int n * ?ws + ?ws" by (simp add: distrib_right)
  obtain d' where d': "copy_bytes d (?cur + int n * nPixelOffset m) img (int n * ?ws) ?ws = Some d'"
    using copy_bytes_some [of ?ws "?cur + int n * nPixelOffset m" d "int n * ?ws" img] ws b d(2) len by auto
  note nth = nth_copy_bytes [OF d']
  have l: "length d' = length (pabyData m)" using length_copy_bytes [OF d'] d(2) by simp
  have in_block: "int k < mem_width m * ?ws" if "int k < int (Suc n) * ?ws" for k using that s b(2) by linarith
  have at: "int (byte_at m y k) = ?cur + int n * nPixelOffset m + (int k - int n * ?ws)" if "int n * ?ws \<le> int k" "int k < int n * ?ws + ?ws" for k
    using pixel_of [OF ws that] byte_index(1) [OF m y in_block, of k] that s by simp
  have "d' ! byte_at m y k = img ! k" if k: "int k < int (Suc n) * ?ws" for k
  proof -
    note bi = byte_index [OF m y in_block [OF k]]
    show ?thesis
    proof (cases "int n * ?ws \<le> int k")
      case True
      then show ?thesis using nth [of "byte_at m y k"] bi(2) d(2) at [of k] k s by simp
    next
      case False
      have "\<not> (?cur + int n * nPixelOffset m \<le> int (byte_at m y k) \<and> int (byte_at m y k) < ?cur + int n * nPixelOffset m + ?ws)"
      proof
        assume a: "?cur + int n * nPixelOffset m \<le> int (byte_at m y k) \<and> int (byte_at m y k) < ?cur + int n * nPixelOffset m + ?ws"
        define l where "l = nat (int (byte_at m y k) - ?cur - int n * nPixelOffset m + int n * ?ws)"
        have l: "int l = int (byte_at m y k) - ?cur - int n * nPixelOffset m + int n * ?ws" using a ws by (simp add: l_def)
        then have "int n * ?ws \<le> int l" "int l < int n * ?ws + ?ws" using a by auto
        moreover from at [OF this] l have "byte_at m y l = byte_at m y k" by simp
        ultimately show False using byte_inj [OF m y in_block in_block, of l k] k s False by simp
      qed
      then show ?thesis using nth [of "byte_at m y k"] bi(2) d(2,3) False by auto
    qed
  qed
  moreover have "d' ! p = pabyData m ! p" if p: "p < length d'" "\<forall>k. int k < int (Suc n) * ?ws \<longrightarrow> p \<noteq> byte_at m y k" for p
  proof -
    have "\<not> (?cur + int n * nPixelOffset m \<le> int p \<and> int p < ?cur + int n * nPixelOffset m + ?ws)"
    proof
      assume a: "?cur + int n * nPixelOffset m \<le> int p \<and> int p < ?cur + int n * nPixelOffset m + ?ws"
      define l where "l = nat (int p - ?cur - int n * nPixelOffset m + int n * ?ws)"
      have l: "int l = int p - ?cur - int n * nPixelOffset m + int n * ?ws" using a ws by (simp add: l_def)
      then have "int n * ?ws \<le> int l" "int l < int n * ?ws + ?ws" using a by auto
      moreover from at [OF this] l have "byte_at m y l = p" by simp
      ultimately show False using p(2) s by auto
    qed
    then have "d' ! p = d ! p" using nth [of p] p(1) l d(2) by auto
    moreover have "\<forall>k. int k < int n * ?ws \<longrightarrow> p \<noteq> byte_at m y k" using p(2) s ws by auto
    ultimately show ?thesis using d(4) [of p] p(1) l d(2) by simp
  qed
  moreover have "write_pixels m ?ws ?cur [0..int (Suc n) - 1] img (pabyData m) = Some d'"
    using d(1) d' i32 unfolding upto_Suc write_pixels_append by simp
  ultimately show ?case using l by blast
qed simp

section \<open>Reading and writing a line\<close>

lemma length_line: "length (line m y) = nat (mem_width m * word_size m)"
  by (simp add: line_def)

lemma packed_byte:
  assumes "mem_ok m" "nPixelOffset m = word_size m"
  shows "byte_at m y k = nat (nLineOffset m * y + int k)"
  unfolding byte_at_def assms(2) by (simp add: add.assoc)

lemma packed_bounds:
  assumes m: "mem_ok m" and y: "0 \<le> y" "y < mem_height m" and p: "nPixelOffset m = word_size m"
  shows "0 \<le> mem_width m * word_size m" "int32 (nPixelOffset m * mem_width m) = mem_width m * word_size m"
    "0 \<le> nLineOffset m * y" "nLineOffset m * y + mem_width m * word_size m \<le> int (length (pabyData m))"
proof -
  have w: "0 < mem_width m" "0 < word_size m" "mem_width m * word_size m < 2 ^ 31" using m word_size_pos p by (auto simp: mem_ok_def mult.commute)
  then show z: "0 \<le> mem_width m * word_size m" by simp
  have "int32 (mem_width m * word_size m) = mem_width m * word_size m" by (rule int32_id) (use z w(3) in linarith)+
  then show "int32 (nPixelOffset m * mem_width m) = mem_width m * word_size m" using p by (simp add: mult.commute)
  note b = pixel_bounds [OF m y, of 0] pixel_bounds [OF m y, of "mem_width m - 1"]
  show "0 \<le> nLineOffset m * y" using b(3) w by simp
  have "nLineOffset m * y + (mem_width m - 1) * nPixelOffset m + word_size m \<le> int (length (pabyData m))" using b(12) w by simp
  then show "nLineOffset m * y + mem_width m * word_size m \<le> int (length (pabyData m))" using p by (simp add: algebra_simps)
qed

lemma MEM_read:
  assumes m: "mem_ok m" and y: "0 \<le> y" "y < mem_height m" and len: "int (length img) = mem_width m * word_size m"
  shows "MEM_IReadBlock m 0 y img = Some (line m y)"
proof -
  have "\<exists>d. MEM_IReadBlock m 0 y img = Some d \<and> length d = length img \<and> (\<forall>k < length img. d ! k = pabyData m ! byte_at m y k)"
  proof (cases "nPixelOffset m = word_size m")
    case True
    note b = packed_bounds [OF m y True]
    obtain d where d: "copy_bytes img 0 (pabyData m) (nLineOffset m * y) (mem_width m * word_size m) = Some d"
      using copy_bytes_some [of "mem_width m * word_size m" 0 img "nLineOffset m * y" "pabyData m"] b len by auto
    have "MEM_IReadBlock m 0 y img = Some d" using True d b(2) by (simp add: MEM_IReadBlock_def word_size_def)
    moreover have "d ! k = pabyData m ! byte_at m y k" if "k < length img" for k
      using nth_copy_bytes [OF d that] that len by (simp add: packed_byte [OF m True])
    ultimately show ?thesis using length_copy_bytes [OF d] by blast
  next
    case False
    have w: "int (nat (mem_width m)) = mem_width m" using m by (simp add: mem_ok_def)
    then show ?thesis using read_pixels_line [OF m y len, of "nat (mem_width m)"] False len
      by (auto simp: MEM_IReadBlock_def word_size_def [symmetric])
  qed
  then obtain d where d: "MEM_IReadBlock m 0 y img = Some d" "length d = length img" "\<forall>k < length img. d ! k = pabyData m ! byte_at m y k"
    by blast
  have "d = line m y" using d(2,3) len by (intro nth_equalityI) (auto simp: line_def)
  then show ?thesis using d(1) by simp
qed

lemma MEM_write:
  assumes m: "mem_ok m" and y: "0 \<le> y" "y < mem_height m" and len: "int (length img) = mem_width m * word_size m"
  shows "\<exists>d. MEM_IWriteBlock m 0 y img = Some (m\<lparr>pabyData := d\<rparr>) \<and> length d = length (pabyData m)
    \<and> (\<forall>k < length img. d ! byte_at m y k = img ! k)
    \<and> (\<forall>p < length d. (\<forall>k < length img. p \<noteq> byte_at m y k) \<longrightarrow> d ! p = pabyData m ! p)"
proof (cases "nPixelOffset m = word_size m")
  case True
  note b = packed_bounds [OF m y True]
  obtain d where d: "copy_bytes (pabyData m) (nLineOffset m * y) img 0 (mem_width m * word_size m) = Some d"
    using copy_bytes_some [of "mem_width m * word_size m" "nLineOffset m * y" "pabyData m" 0 img] b len by auto
  have l: "length d = length (pabyData m)" by (rule length_copy_bytes [OF d])
  note at = packed_byte [OF m True]
  have "MEM_IWriteBlock m 0 y img = Some (m\<lparr>pabyData := d\<rparr>)" using True d b(2) by (simp add: MEM_IWriteBlock_def word_size_def)
  moreover have "d ! byte_at m y k = img ! k" if k: "k < length img" for k
    using nth_copy_bytes [OF d, of "byte_at m y k"] byte_index(2) [OF m y, of k] b(3) k len by (simp add: at)
  moreover have "d ! p = pabyData m ! p" if p: "p < length d" "\<forall>k < length img. p \<noteq> byte_at m y k" for p
  proof -
    have "\<not> (nLineOffset m * y \<le> int p \<and> int p < nLineOffset m * y + mem_width m * word_size m)"
    proof
      assume a: "nLineOffset m * y \<le> int p \<and> int p < nLineOffset m * y + mem_width m * word_size m"
      then have "nat (int p - nLineOffset m * y) < length img" using len by linarith
      moreover have "p = byte_at m y (nat (int p - nLineOffset m * y))" using a by (simp add: at)
      ultimately show False using p(2) by blast
    qed
    then show ?thesis using nth_copy_bytes [OF d, of p] p(1) l by auto
  qed
  ultimately show ?thesis using l by blast
next
  case False
  have w: "int (nat (mem_width m)) = mem_width m" using m by (simp add: mem_ok_def)
  have k: "k < length img \<longleftrightarrow> int k < mem_width m * word_size m" for k using len by linarith
  show ?thesis using write_pixels_line [OF m y len, of "nat (mem_width m)"] False w unfolding k
    by (auto simp: MEM_IWriteBlock_def word_size_def [symmetric])
qed

text \<open>A write gives the line the new bytes and changes no other line.\<close>

lemma MEM_write_line:
  assumes m: "mem_ok m" and y: "0 \<le> y" "y < mem_height m" and len: "int (length img) = mem_width m * word_size m"
  shows "\<exists>m'. MEM_IWriteBlock m 0 y img = Some m' \<and> mem_ok m' \<and> mem_width m' = mem_width m \<and> mem_height m' = mem_height m
    \<and> mem_type m' = mem_type m \<and> line m' y = img
    \<and> (\<forall>z. 0 \<le> z \<longrightarrow> z < mem_height m \<longrightarrow> z \<noteq> y \<longrightarrow> line m' z = line m z)"
proof -
  obtain d where d: "MEM_IWriteBlock m 0 y img = Some (m\<lparr>pabyData := d\<rparr>)" "length d = length (pabyData m)"
    "\<forall>k < length img. d ! byte_at m y k = img ! k"
    "\<forall>p < length d. (\<forall>k < length img. p \<noteq> byte_at m y k) \<longrightarrow> d ! p = pabyData m ! p"
    using MEM_write [OF assms] by blast
  let ?m = "m\<lparr>pabyData := d\<rparr>"
  have ws: "word_size ?m = word_size m" by (simp add: word_size_def)
  have at: "byte_at ?m = byte_at m" by (simp add: byte_at_def fun_eq_iff ws)
  have "mem_ok ?m" using m d(2) by (simp add: mem_ok_def ws)
  moreover have "line ?m y = img" using d(3) len by (intro nth_equalityI) (auto simp: line_def at ws)
  moreover have "line ?m z = line m z" if z: "0 \<le> z" "z < mem_height m" "z \<noteq> y" for z
  proof (rule nth_equalityI)
    fix k
    assume "k < length (line ?m z)"
    then have k: "int k < mem_width m * word_size m" by (simp add: length_line ws)
    have "byte_at m z k \<noteq> byte_at m y l" if "l < length img" for l
      using byte_index(5) [OF m z(1,2) k] byte_index(5) [OF m y, of l] that len z(3) by auto
    then have "d ! byte_at m z k = pabyData m ! byte_at m z k" using d(2,4) byte_index(2) [OF m z(1,2) k] by simp
    moreover have "k < nat (mem_width m * word_size m)" using k by linarith
    ultimately show "line ?m z ! k = line m z ! k" by (simp add: line_def at ws)
  qed (simp add: length_line ws)
  ultimately show ?thesis using d(1) by (intro exI [of _ ?m]) simp
qed

section \<open>The driver\<close>

text \<open>
  The bands of a dataset are numbered; an access that the code must not make (\<open>None\<close> above, or a band that does not
  exist) is an error of the driver.
\<close>

definition mem_driver :: "int option \<Rightarrow> (int \<Rightarrow> byte list option) \<Rightarrow> (int \<Rightarrow> bool) \<Rightarrow> (nat \<Rightarrow> mem_band option) driver" where
  "mem_driver cachemax malloc calloc =
     \<lparr>GDAL_CACHEMAX = cachemax, VSIMalloc = malloc, VSICalloc = calloc,
      IReadBlock = (\<lambda>dev bi x y d. case Option.bind (dev bi) (\<lambda>m. MEM_IReadBlock m x y d) of
          None \<Rightarrow> (CE_Fatal, d, dev) | Some d' \<Rightarrow> (CE_None, d', dev)),
      IWriteBlock = (\<lambda>dev bi x y d. case Option.bind (dev bi) (\<lambda>m. MEM_IWriteBlock m x y d) of
          None \<Rightarrow> (CE_Fatal, dev) | Some m \<Rightarrow> (CE_None, dev(bi \<mapsto> m)))\<rparr>"

lemma length_read_pixels: "read_pixels m ws cur ps img = Some d \<Longrightarrow> length d = length img"
  by (induction ps arbitrary: img) (auto split: Option.bind_splits dest: length_copy_bytes)

lemma length_MEM_read: "MEM_IReadBlock m x y img = Some d \<Longrightarrow> length d = length img"
  by (auto simp: MEM_IReadBlock_def Let_def split: if_splits dest: length_copy_bytes length_read_pixels)

text \<open>The fields of the raster band that the constructor sets, and the state before the cache is used.\<close>

definition MEM_raster_band :: "GDALAccess \<Rightarrow> mem_band \<Rightarrow> raster_band" where
  "MEM_raster_band acc m = \<lparr>eFlushBlockErr = CE_None, nRasterXSize = mem_width m, nRasterYSize = mem_height m,
     eDataType = mem_type m, eAccess = acc, nBlockXSize = mem_width m, nBlockYSize = 1, nBlocksPerRow = 0,
     nBlocksPerColumn = 0, bSubBlockingActive = False, nSubBlocksPerRow = 0, nSubBlocksPerColumn = 0,
     papoBlocks = None, nBlockReads = 0\<rparr>"

definition mem_open :: "GDALAccess \<Rightarrow> (nat \<Rightarrow> mem_band option) \<Rightarrow> (nat \<Rightarrow> mem_band option) gdal" where
  "mem_open acc dev = \<lparr>bCacheMaxInitialized = False, nCacheMax = 40 * 1024 * 1024, nCacheUsed = 0, poOldest = None,
     poNewest = None, blocks = Map.empty, newBlock = 0, bands = (\<lambda>bi. map_option (MEM_raster_band acc) (dev bi)), device = dev\<rparr>"

text \<open>
  An allocator: it has memory for some sizes (\<open>avail\<close>), with any bytes in it (\<open>junk\<close>).
\<close>

definition allocator :: "(int \<Rightarrow> bool) \<Rightarrow> (int \<Rightarrow> nat \<Rightarrow> byte) \<Rightarrow> int \<Rightarrow> byte list option" where
  "allocator avail junk n = (if 0 \<le> n \<and> avail n then Some (map (junk n) [0..<nat n]) else None)"

lemma allocator_length: "allocator avail junk n = Some d \<Longrightarrow> int (length d) = n"
  by (auto simp: allocator_def split: if_splits)

section \<open>Properties\<close>

text \<open>C13: reading back a line. In a band whose lines and pixels do not overlap, \<open>MEM_IReadBlock\<close> reads what
\<open>MEM_IWriteBlock\<close> wrote in the same line, also when pixels are further apart than their size, every other line
reads as before, and no access is outside the memory.\<close>
theorem mem_line_roundtrip:
  assumes "mem_ok m" "0 \<le> y" "y < mem_height m" "int (length img) = mem_width m * word_size m"
    and "0 \<le> z" "z < mem_height m" "int (length buf) = mem_width m * word_size m"
  shows "\<exists>m'. MEM_IWriteBlock m 0 y img = Some m' \<and> mem_ok m'
    \<and> MEM_IReadBlock m' 0 z buf = (if z = y then Some img else MEM_IReadBlock m 0 z buf)
    \<and> MEM_IReadBlock m 0 z buf \<noteq> None"
proof -
  obtain m' where m': "MEM_IWriteBlock m 0 y img = Some m'" "mem_ok m'" "mem_width m' = mem_width m" "mem_height m' = mem_height m"
    "mem_type m' = mem_type m" "line m' y = img" "\<forall>z. 0 \<le> z \<longrightarrow> z < mem_height m \<longrightarrow> z \<noteq> y \<longrightarrow> line m' z = line m z"
    using MEM_write_line [OF assms(1-4)] by blast
  have "MEM_IReadBlock m 0 z buf = Some (line m z)" by (rule MEM_read [OF assms(1,5-7)])
  moreover have "MEM_IReadBlock m' 0 z buf = Some (line m' z)"
    by (rule MEM_read [OF m'(2) assms(5)]) (use assms(6,7) m' in \<open>simp_all add: word_size_def\<close>)
  ultimately show ?thesis using m' assms(5,6) by auto
qed

text \<open>Two pixels of 16 bits in lines of 12 bytes, 4 bytes apart.\<close>

theorem mem_line_roundtrip_witness:
  "\<exists>m'. MEM_IWriteBlock (MEMRasterBand 2 3 (replicate 36 0) GDT_UInt16 4 12) 0 1 [1, 2, 3, 4] = Some m' \<and> mem_ok m'
    \<and> MEM_IReadBlock m' 0 1 [0, 0, 0, 0] = Some [1, 2, 3, 4]"
proof -
  let ?m = "MEMRasterBand 2 3 (replicate 36 0) GDT_UInt16 4 12"
  have "mem_ok ?m" "mem_height ?m = 3" "mem_width ?m * word_size ?m = 4"
    by (simp_all add: mem_ok_def MEMRasterBand_def word_size_def signed_divide_int_def)
  then show ?thesis using mem_line_roundtrip [of ?m 1 "[1, 2, 3, 4]" 1 "[0, 0, 0, 0]"] by auto
qed

end
