(* ===== verification/Gdal_Mem_Cache.thy ===== *)
theory Gdal_Mem_Cache
  imports Gdal_Block_Device Mem_Dataset
begin

text \<open>
  The block cache over the bands of the in-memory driver: the driver keeps the contract \<open>block_device\<close>, so users of
  the cache see a plain store of lines.
\<close>

section \<open>The in-memory driver as a device\<close>

definition mem_good :: "(nat \<Rightarrow> mem_band option) \<Rightarrow> bool" where
  "mem_good dev \<longleftrightarrow> (\<forall>bi m. dev bi = Some m \<longrightarrow> mem_ok m)"

definition mem_dims :: "(nat \<Rightarrow> mem_band option) \<Rightarrow> nat \<Rightarrow> (int \<times> int \<times> int) option" where
  "mem_dims dev bi = map_option (\<lambda>m. (1, mem_height m, mem_width m * word_size m)) (dev bi)"

definition mem_content :: "(nat \<Rightarrow> mem_band option) \<Rightarrow> nat \<Rightarrow> int \<Rightarrow> int \<Rightarrow> byte list" where
  "mem_content dev bi x y = (case dev bi of None \<Rightarrow> [] | Some m \<Rightarrow> line m y)"

lemma mem_reads:
  assumes "mem_good dev" "mem_dims dev bi = Some (w, h, n)" "0 \<le> x" "x < w" "0 \<le> y" "y < h" "int (length d) = n"
  shows "IReadBlock (mem_driver cm malloc calloc) dev bi x y d = (CE_None, mem_content dev bi x y, dev)"
proof -
  obtain m where m: "dev bi = Some m" "w = 1" "h = mem_height m" "n = mem_width m * word_size m"
    using assms(2) by (auto simp: mem_dims_def)
  have "mem_ok m" using assms(1) m(1) by (simp add: mem_good_def)
  then have "MEM_IReadBlock m 0 y d = Some (line m y)" by (rule MEM_read) (use assms m in simp_all)
  moreover have "x = 0" using assms(3,4) m(2) by simp
  ultimately show ?thesis using m(1) by (simp add: mem_driver_def mem_content_def)
qed

lemma mem_writes:
  assumes "mem_good dev" "mem_dims dev bi = Some (w, h, n)" "0 \<le> x" "x < w" "0 \<le> y" "y < h" "int (length d) = n"
  shows "\<exists>dev'. IWriteBlock (mem_driver cm malloc calloc) dev bi x y d = (CE_None, dev') \<and> mem_good dev'
    \<and> mem_dims dev' = mem_dims dev \<and> mem_content dev' bi x y = d
    \<and> (\<forall>bi' w' h' n' x' y'. mem_dims dev bi' = Some (w', h', n') \<longrightarrow> 0 \<le> x' \<longrightarrow> x' < w' \<longrightarrow> 0 \<le> y' \<longrightarrow> y' < h'
        \<longrightarrow> \<not> (bi' = bi \<and> x' = x \<and> y' = y) \<longrightarrow> mem_content dev' bi' x' y' = mem_content dev bi' x' y')"
proof -
  obtain m where m: "dev bi = Some m" "w = 1" "h = mem_height m" "n = mem_width m * word_size m"
    using assms(2) by (auto simp: mem_dims_def)
  have ok: "mem_ok m" using assms(1) m(1) by (simp add: mem_good_def)
  have x: "x = 0" using assms(3,4) m(2) by simp
  obtain m' where m': "MEM_IWriteBlock m 0 y d = Some m'" "mem_ok m'" "mem_width m' = mem_width m" "mem_height m' = mem_height m"
    "mem_type m' = mem_type m" "line m' y = d" "\<forall>z. 0 \<le> z \<longrightarrow> z < mem_height m \<longrightarrow> z \<noteq> y \<longrightarrow> line m' z = line m z"
    using MEM_write_line [OF ok assms(5)] assms(6,7) m by auto
  let ?dev = "dev(bi \<mapsto> m')"
  have "IWriteBlock (mem_driver cm malloc calloc) dev bi x y d = (CE_None, ?dev)" using m(1) m'(1) x by (simp add: mem_driver_def)
  moreover have "mem_good ?dev" using assms(1) m'(2) by (simp add: mem_good_def)
  moreover have "mem_dims ?dev = mem_dims dev" using m(1) m'(3-5) by (auto simp: mem_dims_def fun_eq_iff word_size_def)
  moreover have "mem_content ?dev bi x y = d" using m'(6) by (simp add: mem_content_def)
  moreover have "mem_content ?dev bi' x' y' = mem_content dev bi' x' y'"
    if h: "mem_dims dev bi' = Some (w', h', n')" "0 \<le> x'" "x' < w'" "0 \<le> y'" "y' < h'" "\<not> (bi' = bi \<and> x' = x \<and> y' = y)"
    for bi' w' h' n' x' y'
  proof (cases "bi' = bi")
    case True
    then have "w' = 1" "h' = mem_height m" using h(1) m(1) by (simp_all add: mem_dims_def)
    then have "y' \<noteq> y" "y' < mem_height m" using h x True by auto
    then show ?thesis using m(1) m'(7) h(4) True by (simp add: mem_content_def)
  qed (simp add: mem_content_def)
  ultimately show ?thesis by blast
qed

interpretation mem: block_device "mem_driver cm (allocator avail junk) calloc" mem_good mem_dims mem_content
  for cm avail junk calloc
proof
  fix m d
  assume "VSIMalloc (mem_driver cm (allocator avail junk) calloc) m = Some d"
  then show "int (length d) = m" using allocator_length by (simp add: mem_driver_def)
next
  fix dev bi x y and d :: "byte list"
  show "length (fst (snd (IReadBlock (mem_driver cm (allocator avail junk) calloc) dev bi x y d))) = length d"
    using length_MEM_read by (auto simp: mem_driver_def split: option.splits Option.bind_splits)
qed (erule (6) mem_reads mem_writes)+

text \<open>The bands of a dataset whose lines have less than \<open>2\<^sup>28\<close> bytes.\<close>

definition mem_dataset :: "(nat \<Rightarrow> mem_band option) \<Rightarrow> bool" where
  "mem_dataset dev \<longleftrightarrow> (\<forall>bi m. dev bi = Some m \<longrightarrow> mem_ok m \<and> mem_width m * word_size m < 2 ^ 28 - 1)"

lemma mem_open_initial:
  assumes "mem_dataset dev"
  shows "initial (mem_open acc dev)" "mem_good dev"
    "mem.fits (mem_open acc dev)" "mem.no_errors (mem_open acc dev)"
proof -
  have m: "mem_ok m" "mem_width m * word_size m < 2 ^ 28 - 1" if "dev bi = Some m" for bi m
    using assms that by (auto simp: mem_dataset_def)
  show "mem_good dev" using m by (simp add: mem_good_def)
  have "band_ok (MEM_raster_band acc m)" if "dev bi = Some m" for bi m
  proof -
    have "mem_width m * GDALGetDataTypeSize (mem_type m) = 8 * (mem_width m * word_size m)"
      using type_size(1) [of "mem_type m"] by (simp add: word_size_def)
    then show ?thesis using m [OF that] by (auto simp: band_ok_def MEM_raster_band_def mem_ok_def table_ok_def)
  qed
  then show "initial (mem_open acc dev)" by (auto simp: initial_def mem_open_def MEM_raster_band_def)
  have "width (MEM_raster_band acc m) = 1" "height (MEM_raster_band acc m) = mem_height m"
    "block_bytes (MEM_raster_band acc m) = mem_width m * word_size m" if "dev bi = Some m" for bi m
    using m [OF that] by (simp_all add: width_def height_def block_bytes_def MEM_raster_band_def DIV_ROUND_UP_def word_size_def
      mem_ok_def signed_divide_int_def signed_modulo_int_def)
  then show "mem.fits (mem_open acc dev)" by (auto simp: mem.fits_def mem_open_def mem_dims_def)
  show "mem.no_errors (mem_open acc dev)" by (auto simp: mem.no_errors_def mem_open_def MEM_raster_band_def)
qed

section \<open>Properties\<close>

text \<open>C1: the block cache is transparent. On a dataset in memory, any sequence of reads, overwrites, flushes, limits and
evictions returns and answers as a plain store of blocks: a read gives the data last written (it fails only for blocks
outside the band, of huge bands, or without memory), and flushing a band afterwards leaves exactly the data of the store
on the device.\<close>
theorem mem_cache_transparent:
  assumes "mem_dataset dev" "\<forall>a \<in> set as. access_ok (mem_open acc dev) a"
  shows "\<exists>rs s V. accesses (mem_driver cm (allocator avail junk) calloc) as (mem_open acc dev) = Some (rs, s)
    \<and> answers (served (mem_driver cm (allocator avail junk) calloc) (mem_open acc dev)) as rs (mem_content dev) = Some V
    \<and> (\<forall>bi m. dev bi = Some m \<longrightarrow> (\<exists>s'. FlushCache (mem_driver cm (allocator avail junk) calloc) bi s = Some (CE_None, s')
        \<and> (\<forall>y. 0 \<le> y \<longrightarrow> y < mem_height m \<longrightarrow> mem_content (device s') bi 0 y = V bi 0 y)))"
proof -
  let ?e = "mem_driver cm (allocator avail junk) calloc" let ?s = "mem_open acc dev"
  have dev: "device ?s = dev" by (simp add: mem_open_def)
  have "mem.seen ?s (mem_content dev)" using mem.initial_seen [of ?s] mem_open_initial [OF assms(1)] dev by simp
  from mem.accesses_seen [OF this assms(2), of cm avail junk calloc] obtain rs s V where
    r: "accesses ?e as ?s = Some (rs, s)" "answers (served ?e ?s) as rs (mem_content dev) = Some V" "mem.seen s V" "geom s = geom ?s"
    by blast
  have "\<exists>s'. FlushCache ?e bi s = Some (CE_None, s') \<and> (\<forall>y. 0 \<le> y \<longrightarrow> y < mem_height m \<longrightarrow> mem_content (device s') bi 0 y = V bi 0 y)"
    if m: "dev bi = Some m" for bi m
  proof -
    have b: "bands ?s bi = Some (MEM_raster_band acc m)" using m by (simp add: mem_open_def)
    then have "bands s bi \<noteq> None" using geom_band [OF r(4) b] by auto
    from mem.flush_seen [OF r(3) this, of cm avail junk calloc] obtain s' where
      s': "FlushCache ?e bi s = Some (CE_None, s')" "\<forall>x y. inside s bi x y \<longrightarrow> mem_content (device s') bi x y = V bi x y" by blast
    have "mem_ok m" using assms(1) m by (simp add: mem_dataset_def)
    then have "inside ?s bi 0 y" if "0 \<le> y" "y < mem_height m" for y
      using that b by (simp add: inside_def width_def height_def MEM_raster_band_def DIV_ROUND_UP_def mem_ok_def
        signed_divide_int_def signed_modulo_int_def)
    then show ?thesis using s' inside_geom_eq [OF r(4)] by auto
  qed
  then show ?thesis using r(1,2) by blast
qed

definition small_dataset :: "nat \<Rightarrow> mem_band option" where
  "small_dataset = [0 \<mapsto> MEMRasterBand 2 3 (replicate 36 0) GDT_UInt16 4 12]"

text \<open>A line is overwritten, evicted because nothing may be cached, and read back.\<close>

theorem mem_cache_transparent_witness:
  "\<exists>rs s V. accesses (mem_driver None (allocator (\<lambda>_. True) (\<lambda>_ _. 7)) (\<lambda>_. True))
      [SetMax 0, Overwrite 0 0 1 [1, 2, 3, 4], Read 0 0 2, Read 0 0 1] (mem_open GA_Update small_dataset) = Some (rs, s)
    \<and> answers (served (mem_driver None (allocator (\<lambda>_. True) (\<lambda>_ _. 7)) (\<lambda>_. True)) (mem_open GA_Update small_dataset))
        [SetMax 0, Overwrite 0 0 1 [1, 2, 3, 4], Read 0 0 2, Read 0 0 1] rs (mem_content small_dataset) = Some V"
proof -
  have "mem_dataset small_dataset"
    by (auto simp: mem_dataset_def small_dataset_def mem_ok_def MEMRasterBand_def word_size_def signed_divide_int_def)
  moreover have "\<forall>a \<in> set [SetMax 0, Overwrite 0 0 1 [1, 2, 3, 4], Read 0 0 2, Read 0 0 1]. access_ok (mem_open GA_Update small_dataset) a"
    by (simp add: mem_open_def small_dataset_def MEM_raster_band_def MEMRasterBand_def block_bytes_def signed_divide_int_def)
  ultimately show ?thesis
    using mem_cache_transparent [of small_dataset "[SetMax 0, Overwrite 0 0 1 [1, 2, 3, 4], Read 0 0 2, Read 0 0 1]" GA_Update
      None "\<lambda>_. True" "\<lambda>_ _. 7" "\<lambda>_. True"] by blast
qed

end
