(* ===== verification/Gdal_Block_Props.thy ===== *)
theory Gdal_Block_Props
  imports Gdal_Mem_Cache
begin

text \<open>
  The properties of the block cache for its clients: safety, the limit on memory, the order of evictions and what
  happens to write errors. Witnesses are runs on a dataset in memory.
\<close>

section \<open>The list of blocks in the order of their use\<close>

fun follow :: "(nat \<Rightarrow> raster_block option) \<Rightarrow> nat \<Rightarrow> nat option \<Rightarrow> nat list" where
  "follow h 0 p = []"
| "follow h (Suc n) None = []"
| "follow h (Suc n) (Some b) = b # (case h b of None \<Rightarrow> [] | Some r \<Rightarrow> follow h n (poNext r))"

text \<open>The blocks from the newest to the oldest; blocks are numbered from 0.\<close>

definition recency :: "'d gdal \<Rightarrow> nat list" where
  "recency s = follow (blocks s) (newBlock s) (poNewest s)"

lemma follow_dll: "dll h p L None \<Longrightarrow> length L \<le> n \<Longrightarrow> follow h n (first_of L None) = L"
proof (induction L arbitrary: p n)
  case Nil
  then show ?case by (cases n) simp_all
next
  case (Cons b L)
  then show ?case by (cases n) auto
qed

lemma recency_cache:
  assumes "cache s L P R F"
  shows "recency s = L"
proof -
  have lru: "lru s L P R" and i: "blocks_inv P R F" using assms by (auto simp: cache_def)
  have "set L \<subseteq> {..<newBlock s}"
  proof
    fix b
    assume "b \<in> set L"
    then have "P b \<noteq> None" using lru_dom [OF lru] by auto
    then show "b \<in> {..<newBlock s}" using inv_new [OF i, of b] lru_rest(4) [OF lru] by (auto simp: not_le [symmetric])
  qed
  then have "card (set L) \<le> newBlock s" using card_mono [of "{..<newBlock s}" "set L"] by simp
  then have "length L \<le> newBlock s" using distinct_card [OF lru_distinct [OF lru]] by simp
  moreover have "dll (blocks s) None L None" "poNewest s = first_of L None" using lru by (auto simp: lru_def lru_ok_def)
  ultimately show ?thesis by (simp add: recency_def follow_dll)
qed

lemma bytes_payload: "cache s L P R F \<Longrightarrow> bytes (P b) = bytes (blocks s b)"
  using well_blocks [of s L P R F b] by (cases "blocks s b") (simp_all add: bytes_def)

lemma dom_cache: "cache s L P R F \<Longrightarrow> dom P = dom (blocks s)"
  using well_blocks [of s L P R F] by (auto simp: dom_def)

lemma unlocked_cache: "cache s L P R F \<Longrightarrow> b \<in> dom P \<Longrightarrow> unlocked P b \<longleftrightarrow> nLockCount (the (blocks s b)) \<le> 0"
  using well_blocks [of s L P R F b] by (cases "blocks s b") (auto simp: unlocked_def)

lemma all_locked:
  assumes "cache s L P R {}" "\<forall>b \<in> set L. \<not> unlocked P b"
  shows "\<forall>b r. blocks s b = Some r \<longrightarrow> nLockCount r > 0"
proof (intro allI impI)
  fix b r
  assume r: "blocks s b = Some r"
  then have "b \<in> set L" "b \<in> dom P" using dom_cache [OF assms(1)] assms(1) by (auto simp: cache_def)
  then show "nLockCount r > 0" using assms(2) unlocked_cache [OF assms(1), of b] r by auto
qed

section \<open>Properties\<close>

text \<open>C2: safety of the block cache. In every state that clients can reach from an empty cache over bands whose blocks have
less than \<open>2\<^sup>3\<^sup>1\<close> bits, every allowed operation (blocks are unlocked only by those who hold them, and a band is flushed only when
none of its blocks is locked) returns without an access to a freed block or outside a table and without deleting a locked
block, the assertions of \<open>Verify\<close> hold, and \<open>nCacheUsed\<close> is the number of bytes of the blocks that are allocated.\<close>
theorem block_cache_safe:
  assumes "driver_ok e" "reachable e s"
  shows "(\<forall>op. op_ok s op \<longrightarrow> exec e op s \<noteq> None) \<and> Verify s = Some True
    \<and> finite (dom (blocks s)) \<and> nCacheUsed s = (\<Sum>b \<in> dom (blocks s). bytes (blocks s b))"
proof -
  have w: "well s" by (rule reachable_well [OF assms(2,1)])
  then obtain L P R where c: "cache s L P R {}" unfolding well_def by blast
  have lru: "lru s L P R" and i: "blocks_inv P R {}" using c by (auto simp: cache_def)
  have "Verify s = Some True" using lru by (intro Verify_lru [of s L]) (simp add: lru_def)
  moreover have "nCacheUsed s = (\<Sum>b \<in> dom (blocks s). bytes (blocks s b))"
    using inv_used [OF i] lru_rest(1) [OF lru] dom_cache [OF c] bytes_payload [OF c] by simp
  moreover have "finite (dom (blocks s))" using inv_finite [OF i] dom_cache [OF c] by simp
  moreover have "exec e op s \<noteq> None" if "op_ok s op" for op using exec_well [OF assms(1) w that] by auto
  ultimately show ?thesis by blast
qed

text \<open>The witnesses: nothing, or a block that is locked, is in the cache.\<close>

abbreviation small_driver :: "(nat \<Rightarrow> mem_band option) driver" where
  "small_driver \<equiv> mem_driver None (allocator (\<lambda>_. True) (\<lambda>_ _. 7)) (\<lambda>_. True)"

lemma small_dataset_ok: "mem_dataset small_dataset"
  by (auto simp: mem_dataset_def small_dataset_def mem_ok_def MEMRasterBand_def word_size_def signed_divide_int_def)

declare flush_loop.simps [code] oldest_unlocked.simps [code] verify_loop.simps [code]

lemma small_reachable: "reachable small_driver (mem_open GA_Update small_dataset)" "driver_ok small_driver"
  by (rule reachable.start, rule mem_open_initial [OF small_dataset_ok]) (rule mem.driver_ok)

text \<open>C3: the limit of the cache. \<open>GDALSetCacheMax64\<close> returns, and then the blocks take at most the given number of
bytes, or only blocks that clients have locked are left.\<close>
theorem set_cache_max_evicts:
  assumes "driver_ok e" "reachable e s"
  shows "\<exists>s'. GDALSetCacheMax64 e n s = Some s' \<and> nCacheMax s' = n
    \<and> (nCacheUsed s' \<le> n \<or> (\<forall>b r. blocks s' b = Some r \<longrightarrow> nLockCount r > 0))"
proof -
  obtain L P R where c: "cache s L P R {}" using reachable_well [OF assms(2,1)] unfolding well_def by blast
  let ?R = "R\<lparr>bCacheMaxInitialized := True, nCacheMax := n\<rparr>"
  obtain s' L' P' R' where l: "GDALSetCacheMax64 e n s = Some s'" "cache s' L' P' R' {}" "evictions e L P ?R L' P' R'"
    "nCacheUsed R' \<le> n \<or> (\<forall>b \<in> set L'. \<not> unlocked P' b)"
    using GDALSetCacheMax64_cache [OF c] by blast
  have i: "blocks_inv P ?R {}" using c inv_rest [of P R "{}" ?R] by (simp add: cache_def)
  have "nCacheMax s' = n" using evictions_keep [OF l(3) i] l(2) lru_rest(2) [of s' L' P' R'] by (simp add: cache_def)
  moreover have "nCacheUsed s' \<le> n \<or> (\<forall>b r. blocks s' b = Some r \<longrightarrow> nLockCount r > 0)"
    using l(4) all_locked [OF l(2)] lru_rest(1) [of s' L' P' R'] l(2) by (auto simp: cache_def)
  ultimately show ?thesis using l(1) by blast
qed

theorem set_cache_max_evicts_witness:
  "\<exists>s'. GDALSetCacheMax64 small_driver 0 (mem_open GA_Update small_dataset) = Some s' \<and> nCacheMax s' = 0"
  using set_cache_max_evicts [OF small_reachable(2,1), of 0] by blast

text \<open>C4: the limit while loading. When \<open>GetLockedBlockRef\<close> has loaded a block that was not in the cache, the blocks
take at most \<open>nCacheMax\<close> bytes, or only locked blocks are left.\<close>
theorem load_within_limit:
  assumes "driver_ok e" "reachable e s" "bands s bi \<noteq> None"
    and "GetLockedBlockRef e bi x y just s = Some (Some b, s')" "blocks s b = None"
  shows "nCacheUsed s' \<le> nCacheMax s' \<or> (\<forall>c r. blocks s' c = Some r \<longrightarrow> nLockCount r > 0)"
proof -
  obtain L P R where c: "cache s L P R {}" using reachable_well [OF assms(2,1)] unfolding well_def by blast
  have "bands R bi \<noteq> None" using assms(3) cache_bands [OF c] by simp
  from GetLockedBlockRef_cache [OF c this assms(1), of x y just] assms(4) obtain L' P' R' where
    g: "cache s' L' P' R' {}" "get_result e bi x y just L P R (Some b) L' P' R'" by auto
  have new: "P b = None" using well_blocks [OF c, of b] assms(5) by simp
  have "nCacheUsed R' \<le> nCacheMax R' \<or> (\<forall>c \<in> set L'. \<not> unlocked P' c)"
    using g(2)
  proof (rule get_result_SomeE)
    fix bd R1 r
    assume "P b = Some r"
    then show ?thesis using new by simp
  qed (auto simp: make_room_def Let_def unlocked_def)
  then show ?thesis using all_locked [OF g(1)] lru_rest(1,2) [of s' L' P' R'] g(1) by (auto simp: cache_def)
qed

text \<open>Nothing may be cached: loading the second line evicts the first one.\<close>

theorem load_within_limit_witness:
  "\<exists>s s'. run small_driver [Limit 4, Get 0 0 1 False, Unlock 0] (mem_open GA_Update small_dataset) = Some s
    \<and> GetLockedBlockRef small_driver 0 0 2 False s = Some (Some 1, s') \<and> nCacheUsed s' = 4
    \<and> (nCacheUsed s' \<le> nCacheMax s' \<or> (\<forall>c r. blocks s' c = Some r \<longrightarrow> nLockCount r > 0))"
proof -
  let ?x = "Option.bind (run small_driver [Limit 4, Get 0 0 1 False, Unlock 0] (mem_open GA_Update small_dataset))
    (\<lambda>s. map_option (\<lambda>(p, s'). (bands s 0 \<noteq> None, p, blocks s 1 = None, nCacheUsed s')) (GetLockedBlockRef small_driver 0 0 2 False s))"
  have "?x = Some (True, Some 1, True, 4)" by code_simp
  then obtain s s' where s: "run small_driver [Limit 4, Get 0 0 1 False, Unlock 0] (mem_open GA_Update small_dataset) = Some s"
    "GetLockedBlockRef small_driver 0 0 2 False s = Some (Some 1, s')" "nCacheUsed s' = 4" "bands s 0 \<noteq> None" "blocks s 1 = None"
    by (auto split: Option.bind_splits)
  have "reachable small_driver s" by (rule run_reachable [OF s(1) small_reachable(1)])
  from load_within_limit [OF small_reachable(2) this s(4,2,5)] s show ?thesis by blast
qed

theorem block_cache_safe_witness:
  "\<exists>s. run small_driver [Get 0 0 1 False, Dirty 0, Unlock 0, Get 0 0 2 False, Poke 1 [1, 2, 3, 4], Unlock 1, Get 0 0 1 False, Unlock 0] (mem_open GA_Update small_dataset) = Some s
    \<and> Verify s = Some True \<and> exec small_driver (Flush 0) s \<noteq> None"
proof -
  have "map_option (\<lambda>s. op_ok s (Flush 0)) (run small_driver [Get 0 0 1 False, Dirty 0, Unlock 0, Get 0 0 2 False, Poke 1 [1, 2, 3, 4], Unlock 1, Get 0 0 1 False, Unlock 0]
      (mem_open GA_Update small_dataset)) = Some True" by code_simp
  then obtain s where s: "run small_driver [Get 0 0 1 False, Dirty 0, Unlock 0, Get 0 0 2 False, Poke 1 [1, 2, 3, 4], Unlock 1, Get 0 0 1 False, Unlock 0]
      (mem_open GA_Update small_dataset) = Some s" "op_ok s (Flush 0)" by auto
  have "reachable small_driver s" by (rule run_reachable [OF s(1) small_reachable(1)])
  from block_cache_safe [OF small_reachable(2) this] s show ?thesis by blast
qed

section \<open>The order of evictions\<close>

lemma find_unlocked:
  assumes c: "cache s L P R {}"
  shows "List.find (unlocked P) (rev L) = List.find (\<lambda>b. nLockCount (the (blocks s b)) \<le> 0) (rev L)"
proof (rule find_cong [OF refl])
  fix b
  assume "b \<in> set (rev L)"
  then have "b \<in> dom P" using c by (auto simp: cache_def)
  then show "unlocked P b \<longleftrightarrow> nLockCount (the (blocks s b)) \<le> 0" by (rule unlocked_cache [OF c])
qed

text \<open>C5: least recently used first. \<open>FlushCacheBlock\<close> removes the block that was used longest ago among the blocks
that are not locked, and nothing else; getting a block that is in the cache makes it the newest one and keeps the order of the
others.\<close>
theorem evicts_least_recently_used:
  assumes "driver_ok e" "reachable e s"
  shows "(\<exists>r s'. FlushCacheBlock e s = Some (r, s')
      \<and> (case List.find (\<lambda>b. nLockCount (the (blocks s b)) \<le> 0) (rev (recency s)) of
           None \<Rightarrow> \<not> r \<and> s' = s
         | Some b \<Rightarrow> r \<and> recency s' = removeAll b (recency s) \<and> dom (blocks s') = dom (blocks s) - {b}))
    \<and> (bands s bi \<noteq> None \<longrightarrow> GetLockedBlockRef e bi x y just s = Some (Some b, s') \<longrightarrow> blocks s b \<noteq> None \<longrightarrow>
        recency s' = b # removeAll b (recency s))"
proof
  obtain L P R where c: "cache s L P R {}" using reachable_well [OF assms(2,1)] unfolding well_def by blast
  note L = recency_cache [OF c] and f = find_unlocked [OF c]
  show "\<exists>r s'. FlushCacheBlock e s = Some (r, s')
      \<and> (case List.find (\<lambda>b. nLockCount (the (blocks s b)) \<le> 0) (rev (recency s)) of
           None \<Rightarrow> \<not> r \<and> s' = s
         | Some b \<Rightarrow> r \<and> recency s' = removeAll b (recency s) \<and> dom (blocks s') = dom (blocks s) - {b})"
  proof (cases "List.find (unlocked P) (rev L)")
    case None
    then show ?thesis using FlushCacheBlock_none [OF c None, of e] f L by (intro exI [of _ False]) simp
  next
    case (Some b)
    then have "b \<in> set L" using find_rev by fastforce
    then obtain r where r: "P b = Some r" using c by (auto simp: cache_def)
    obtain s' R' where s': "FlushCacheBlock e s = Some (True, s')" "cache s' (removeAll b L) (P(b := None)) R' {}"
      using FlushCacheBlock_some [OF c Some r, of e] by blast
    have "dom (blocks s') = dom (blocks s) - {b}" using dom_cache [OF c] dom_cache [OF s'(2)] by auto
    moreover have "List.find (\<lambda>b. nLockCount (the (blocks s b)) \<le> 0) (rev (recency s)) = Some b" using Some f L by simp
    ultimately show ?thesis using s'(1) recency_cache [OF s'(2)] L by auto
  qed
  show "bands s bi \<noteq> None \<longrightarrow> GetLockedBlockRef e bi x y just s = Some (Some b, s') \<longrightarrow> blocks s b \<noteq> None \<longrightarrow>
        recency s' = b # removeAll b (recency s)"
  proof (intro impI)
    assume a: "bands s bi \<noteq> None" "GetLockedBlockRef e bi x y just s = Some (Some b, s')" "blocks s b \<noteq> None"
    have "bands R bi \<noteq> None" using a(1) cache_bands [OF c] by simp
    from GetLockedBlockRef_cache [OF c this assms(1), of x y just] a(2) obtain L' P' R' where
      g: "cache s' L' P' R' {}" "get_result e bi x y just L P R (Some b) L' P' R'" by auto
    have i: "blocks_inv P R {}" using c by (simp add: cache_def)
    have b: "P b \<noteq> None" using well_blocks [OF c, of b] a(3) by simp
    have "newBlock R1 = newBlock R" if "table_init e R bi bd R1" for bd R1 using that by (auto simp: table_init_def)
    then have new: "\<not> make_room e bi x y bd L P R1 b d Lv Pv Rv" if "table_init e R bi bd R1" for bd R1 d Lv Pv Rv
      using that b inv_new [OF i, of b] by (auto simp: make_room_def)
    have "L' = b # removeAll b L" using g(2) by (rule get_result_SomeE) (use new in blast)+
    then show "recency s' = b # removeAll b (recency s)" using recency_cache [OF g(1)] L by simp
  qed
qed

text \<open>Line 1 is locked and line 0 was used after line 2: line 2 is evicted.\<close>

theorem evicts_least_recently_used_witness:
  "\<exists>s r s'. run small_driver [Get 0 0 0 False, Get 0 0 1 False, Get 0 0 2 False, Get 0 0 0 False, Unlock 0, Unlock 0, Unlock 2]
      (mem_open GA_Update small_dataset) = Some s
    \<and> FlushCacheBlock small_driver s = Some (r, s') \<and> r \<and> recency s' = [0, 1]"
proof -
  have "map_option (\<lambda>s. (recency s, List.find (\<lambda>b. nLockCount (the (blocks s b)) \<le> 0) (rev (recency s))))
      (run small_driver [Get 0 0 0 False, Get 0 0 1 False, Get 0 0 2 False, Get 0 0 0 False, Unlock 0, Unlock 0, Unlock 2]
        (mem_open GA_Update small_dataset)) = Some ([0, 2, 1], Some 2)" by code_simp
  then obtain s where s: "run small_driver [Get 0 0 0 False, Get 0 0 1 False, Get 0 0 2 False, Get 0 0 0 False, Unlock 0, Unlock 0, Unlock 2]
        (mem_open GA_Update small_dataset) = Some s" "recency s = [0, 2, 1]"
      "List.find (\<lambda>b. nLockCount (the (blocks s b)) \<le> 0) (rev (recency s)) = Some 2" by auto
  have "reachable small_driver s" by (rule run_reachable [OF s(1) small_reachable(1)])
  from evicts_least_recently_used [OF small_reachable(2) this, THEN conjunct1] s(2,3)
  have "\<exists>r s'. FlushCacheBlock small_driver s = Some (r, s') \<and> r \<and> recency s' = [0, 1]" by auto
  then show ?thesis using s(1) by blast
qed

section \<open>Write errors\<close>

lemma flushes_after_error:
  "flushes e bi g L P R g' L' P' R' \<Longrightarrow> g \<noteq> CE_None \<Longrightarrow> g' = g \<and> device R' = device R
    \<and> map_option eFlushBlockErr (bands R' bi) = map_option eFlushBlockErr (bands R bi)"
proof (induction rule: flushes.induct)
  case (flush P b r g R err R1 L g' L' P' R')
  obtain bd t where bd: "bands R (poBand r) = Some bd" and err: "err = fst (written e bd r (g = CE_None) (device R))"
    and R1: "R1 = R\<lparr>bands := (bands R)(poBand r \<mapsto> bd\<lparr>papoBlocks := Some t\<rparr>),
         nCacheUsed := nCacheUsed R - freed r, device := snd (written e bd r (g = CE_None) (device R))\<rparr>"
    using flush.hyps(3) unfolding flushed_def by blast
  have "written e bd r (g = CE_None) (device R) = (CE_None, device R)" using flush.prems by (simp add: written_def)
  then have "err = CE_None" "device R1 = device R" "map_option eFlushBlockErr (bands R1 bi) = map_option eFlushBlockErr (bands R bi)"
    using err bd flush.hyps(2) by (simp_all add: R1)
  then show ?case using flush.IH flush.prems by (simp add: worse_def)
qed simp_all

text \<open>C6: write errors of evictions. When the driver fails to write back the dirty block that \<open>FlushCacheBlock\<close> evicts, the
error is kept in the band of the block, the data of the block are lost, and the next \<open>FlushCache\<close> of this band (which
clients may call when no block of the band is locked) returns the error, writes nothing to the driver, throws away all blocks
of the band and forgets the error.\<close>
theorem eviction_error_reported:
  assumes "driver_ok e" "reachable e s"
    and "List.find (\<lambda>b. nLockCount (the (blocks s b)) \<le> 0) (rev (recency s)) = Some b" "blocks s b = Some r" "bDirty r"
    and "bands s (poBand r) = Some bd" "eFlushBlockErr bd = CE_None"
    and "IWriteBlock e (device s) (poBand r) (nXOff r) (nYOff r) (the (pData r)) = (err, dev)" "err \<noteq> CE_None"
  shows "\<exists>s1. FlushCacheBlock e s = Some (True, s1) \<and> map_option eFlushBlockErr (bands s1 (poBand r)) = Some err
    \<and> device s1 = dev \<and> blocks s1 b = None
    \<and> (op_ok s1 (Flush (poBand r)) \<longrightarrow> (\<exists>s'. FlushCache e (poBand r) s1 = Some (err, s') \<and> device s' = dev
        \<and> (\<forall>c q. blocks s' c = Some q \<longrightarrow> poBand q \<noteq> poBand r) \<and> map_option eFlushBlockErr (bands s' (poBand r)) = Some CE_None))"
proof -
  let ?bi = "poBand r"
  obtain L P R where c: "cache s L P R {}" using reachable_well [OF assms(2,1)] unfolding well_def by blast
  have f: "List.find (unlocked P) (rev L) = Some b" using assms(3) find_unlocked [OF c] recency_cache [OF c] by simp
  define q where "q = payload r"
  have q: "P b = Some q" "poBand q = ?bi" "nXOff q = nXOff r" "nYOff q = nYOff r" "pData q = pData r" "bDirty q"
    using well_blocks [OF c, of b] assms(4,5) by (simp_all add: q_def)
  have bd: "bands R ?bi = Some bd" "device R = device s" using assms(6) cache_bands [OF c] c lru_rest(6) [of s L P R]
    by (simp_all add: cache_def)
  obtain s1 R1 err1 where s1: "FlushCacheBlock e s = Some (True, s1)" "flushed e True R q err1 R1"
    "cache s1 (removeAll b L) (P(b := None)) (record_error ?bi err1 R1) {}"
    using FlushCacheBlock_some [OF c f q(1), of e] q(2) by auto
  obtain t where t: "err1 = fst (written e bd q True (device R))" "R1 = R\<lparr>bands := (bands R)(?bi \<mapsto> bd\<lparr>papoBlocks := Some t\<rparr>),
         nCacheUsed := nCacheUsed R - freed q, device := snd (written e bd q True (device R))\<rparr>"
    using s1(2) bd(1) q(2) unfolding flushed_def by auto
  have "written e bd q True (device R) = (err, dev)" using assms(7,8) q bd(2) by (simp add: written_def)
  then have e1: "err1 = err" and d1: "device R1 = dev" using t by simp_all
  let ?R = "record_error ?bi err R1" let ?bd = "bd\<lparr>papoBlocks := Some t, eFlushBlockErr := err\<rparr>"
  have b2: "bands ?R ?bi = Some ?bd" "device ?R = dev" using t(2) assms(9) d1 by (simp_all add: record_error_def)
  have c2: "cache s1 (removeAll b L) (P(b := None)) ?R {}" using s1(3) e1 by simp
  have s1b: "bands s1 ?bi = Some ?bd" "device s1 = dev" "blocks s1 b = None"
    using cache_bands [OF c2] b2 c2 lru_rest(6) [of s1 "removeAll b L" "P(b := None)" ?R] well_blocks [OF c2, of b]
    by (simp_all add: cache_def)
  have flush: "\<exists>s'. FlushCache e ?bi s1 = Some (err, s') \<and> device s' = dev \<and> (\<forall>c q. blocks s' c = Some q \<longrightarrow> poBand q \<noteq> ?bi)
    \<and> map_option eFlushBlockErr (bands s' ?bi) = Some CE_None" if ok: "op_ok s1 (Flush ?bi)"
  proof -
  have quiet: "quiet_band ?bi (P(b := None))" using ok band_unlocked_cache(1) [OF c2] by simp
  obtain s' g' L' P' R' where s': "FlushCache e ?bi s1 = Some (g', s')" "cache s' L' P' R' {}"
    "flushes e ?bi err (removeAll b L) (P(b := None)) (clear_error ?bi ?bd ?R) g' L' P' R'" "\<forall>c q. P' c = Some q \<longrightarrow> poBand q \<noteq> ?bi"
    using FlushCache_cache [OF c2 b2(1) quiet, of e] by auto
  have e: "g' = err" "device R' = dev" "map_option eFlushBlockErr (bands R' ?bi) = Some CE_None"
    using flushes_after_error [OF s'(3) assms(9)] b2 assms(9) by (simp_all add: clear_error_def)
  have "bands s' = bands R'" "device s' = device R'"
    using cache_bands [OF s'(2)] s'(2) lru_rest(6) [of s' L' P' R'] by (simp_all add: cache_def)
  moreover have "poBand p \<noteq> ?bi" if "blocks s' c = Some p" for c p
    using s'(4) well_blocks [OF s'(2), of c] that by fastforce
  ultimately show ?thesis using s'(1) e by auto
  qed
  have "map_option eFlushBlockErr (bands s1 ?bi) = Some err" using s1b(1) by simp
  then show ?thesis using s1(1) s1b(2,3) flush by blast
qed

definition broken_driver :: "(nat \<Rightarrow> mem_band option) driver" where
  "broken_driver = small_driver\<lparr>IWriteBlock := (\<lambda>dev bi x y d. (CE_Failure, dev))\<rparr>"

theorem eviction_error_reported_witness:
  "\<exists>s s1 s'. run broken_driver [Get 0 0 1 False, Poke 0 [1, 2, 3, 4], Dirty 0, Unlock 0] (mem_open GA_Update small_dataset) = Some s
    \<and> FlushCacheBlock broken_driver s = Some (True, s1) \<and> FlushCache broken_driver 0 s1 = Some (CE_Failure, s')"
proof -
  let ?ops = "[Get 0 0 1 False, Poke 0 [1, 2, 3, 4], Dirty 0, Unlock 0]"
  have "map_option (\<lambda>s. (List.find (\<lambda>b. nLockCount (the (blocks s b)) \<le> 0) (rev (recency s)),
      map_option (\<lambda>r. (bDirty r, poBand r)) (blocks s 0), map_option eFlushBlockErr (bands s 0)))
      (run broken_driver ?ops (mem_open GA_Update small_dataset)) = Some (Some 0, Some (True, 0), Some CE_None)" by code_simp
  moreover have "map_option (\<lambda>(x, s1). op_ok s1 (Flush 0)) (Option.bind (run broken_driver ?ops (mem_open GA_Update small_dataset))
      (FlushCacheBlock broken_driver)) = Some True" by code_simp
  ultimately obtain s r bd where s: "run broken_driver ?ops (mem_open GA_Update small_dataset) = Some s"
    "List.find (\<lambda>b. nLockCount (the (blocks s b)) \<le> 0) (rev (recency s)) = Some 0" "blocks s 0 = Some r" "bDirty r" "poBand r = 0"
    "bands s 0 = Some bd" "eFlushBlockErr bd = CE_None"
    "map_option (\<lambda>(x, s1). op_ok s1 (Flush 0)) (FlushCacheBlock broken_driver s) = Some True"
    by (auto simp del: run.simps op_ok.simps)
  have ok: "driver_ok broken_driver" using small_reachable(2) by (simp add: driver_ok_def broken_driver_def)
  have "reachable broken_driver (mem_open GA_Update small_dataset)"
    by (rule reachable.start, rule mem_open_initial [OF small_dataset_ok])
  then have "reachable broken_driver s" by (rule run_reachable [OF s(1)])
  from eviction_error_reported [OF ok this s(2-4), of bd CE_Failure "device s"] s show ?thesis
    by (auto simp: broken_driver_def simp del: run.simps op_ok.simps)
qed

section \<open>Large blocks\<close>

text \<open>C7: memory accounting of large blocks. The destructor computes the size of a block in bits in an \<^verbatim>\<open>int\<close>: deleting an
unlocked block of \<open>n\<close> bytes, where \<open>2\<^sup>2\<^sup>8 \<le> n\<close> and \<open>n < 2\<^sup>2\<^sup>9\<close>, does not take \<open>n\<close> off \<open>nCacheUsed\<close> but adds
\<open>2\<^sup>2\<^sup>9 - 1 - n\<close> to it.\<close>
theorem delete_large_block_grows_cache:
  assumes "blocks s b = Some r" "pData r \<noteq> None" "poNext r = None" "poPrevious r = None" "poOldest s \<noteq> Some b" "poNewest s \<noteq> Some b"
    and "nLockCount r = 0"
    and "nXSize r * nYSize r * GDALGetDataTypeSize (eType r) = 8 * n" "2 ^ 28 \<le> n" "n < 2 ^ 29"
  shows "\<exists>s'. delete_block b s = Some s' \<and> blocks s' b = None \<and> nCacheUsed s' = nCacheUsed s + (2 ^ 29 - 1 - n)"
proof -
  have "int32 (8 * n + 7) = 8 * n + 7 - 2 ^ 32" by (rule int32_wrap) (use assms(9,10) in simp_all)
  moreover have "(8 * n + 7 - 2 ^ 32) sdiv 8 = - (2 ^ 29 - 1 - n)"
  proof -
    have "\<bar>8 * n + 7 - 2 ^ 32\<bar> div 8 = (2 ^ 32 - (8 * n + 7)) div 8" using assms(10) by simp
    also have "2 ^ 32 - (8 * n + 7) = 1 + (2 ^ 29 - 1 - n) * 8" by simp
    also have "(1 + (2 ^ 29 - 1 - n) * 8) div 8 = 2 ^ 29 - 1 - n" by (subst div_mult_self1) simp_all
    finally show ?thesis using assms(10) by (simp add: signed_divide_int_def sgn_if)
  qed
  ultimately have f: "int32 (nXSize r * nYSize r * GDALGetDataTypeSize (eType r) + 7) sdiv 8 = - (2 ^ 29 - 1 - n)"
    by (simp only: assms(8))
  have d: "Detach b s = Some (s\<lparr>blocks := (blocks s)(b \<mapsto> r\<lparr>poPrevious := None, poNext := None\<rparr>)\<rparr>)"
    using assms(1,3-6) by (simp add: Detach_def upd_block_def)
  then show ?thesis using assms(2,7) f by (simp add: delete_block_def)
qed

text \<open>A block of 16384 by 16384 bytes.\<close>

theorem delete_large_block_grows_cache_witness:
  "\<exists>s'. delete_block 0 ((mem_open GA_Update Map.empty)\<lparr>blocks := [0 \<mapsto> \<lparr>eType = GDT_Byte, bDirty = False, nLockCount = 0, nXOff = 0,
      nYOff = 0, nXSize = 16384, nYSize = 16384, pData = Some (replicate (2 ^ 28) 0), poBand = 0, poNext = None, poPrevious = None\<rparr>],
      nCacheUsed := 2 ^ 28\<rparr>) = Some s' \<and> nCacheUsed s' = 2 ^ 29 - 1"
proof -
  define r where "r = \<lparr>eType = GDT_Byte, bDirty = False, nLockCount = 0, nXOff = 0,
      nYOff = 0, nXSize = 16384, nYSize = 16384, pData = Some (replicate (2 ^ 28) (0 :: byte)), poBand = 0, poNext = None, poPrevious = None\<rparr>"
  define s where "s = (mem_open GA_Update Map.empty)\<lparr>blocks := [0 \<mapsto> r], nCacheUsed := 2 ^ 28\<rparr>"
  have "blocks s 0 = Some r" "pData r \<noteq> None" "poNext r = None" "poPrevious r = None" "poOldest s \<noteq> Some 0" "poNewest s \<noteq> Some 0"
    "nLockCount r = 0" "nXSize r * nYSize r * GDALGetDataTypeSize (eType r) = 8 * 2 ^ 28" "(2 :: int) ^ 28 \<le> 2 ^ 28" "(2 :: int) ^ 28 < 2 ^ 29"
    by (simp_all add: s_def r_def mem_open_def)
  from delete_large_block_grows_cache [OF this] have "\<exists>s'. delete_block 0 s = Some s' \<and> nCacheUsed s' = 2 ^ 29 - 1"
    by (auto simp: s_def)
  then show ?thesis unfolding s_def r_def .
qed

end
