(* ===== verification/Spec2Isabelle.thy ===== *)
theory Spec2Isabelle
  imports Cpl_Time Cpl_List Cpl_Hash_Set Cpl_Base64 Cpl_Escape Cpl_String_List Cpl_Path Cpl_Quad_Tree Cpl_Vsi_Mem_Props Cpl_Vsil_Cache_Props Gdal_Sieve_Props Gdal_Block_Props
begin

text \<open>
  The repository runs satellite image processing on top of a bundled copy of GDAL 1.10.1
  (\<^verbatim>\<open>src/worker/ufcg-default/gdal-1.10.1\<close>), which is its C++ code; the rest are shell, Python and R scripts and a Java
  program. This library models the parts of GDAL that the others are built on: the containers, strings, times, paths and files in memory of
  the portability library (\<^verbatim>\<open>port/cpl_*\<close>), the raster block cache of the core (\<^verbatim>\<open>gcore/gdalrasterblock.cpp\<close>,
  \<^verbatim>\<open>gcore/gdalrasterband.cpp\<close>) and the driver for datasets in memory (\<^verbatim>\<open>frmts/mem\<close>).

  Conventions. A definition has the name of the function that it models; loops are separate recursive functions.
  Integers are \<open>int\<close>, with \<open>int32\<close> and \<open>int64\<close> where the code can leave the range of its type; bytes are \<open>8 word\<close>. A
  pointer is a number and a heap a map; reading a freed cell, an access outside an array and a loop that does not end have
  the value \<open>None\<close>, so that the statement \<open>f x = Some y\<close> says that \<open>f\<close> returns and stays within its memory.
  Error codes are values of the code's own types. What the code takes from outside (allocation, the file system, the
  methods of a driver) is a parameter.

  Theories, from the bottom up:

  \<^item> \<open>Cpl_Prelude\<close>: machine integers, characters, C strings and arrays, and their lemmas.
  \<^item> \<open>Cpl_Time\<close> (\<^verbatim>\<open>port/cpl_time.cpp\<close>): seconds since 1970 and calendar dates.
  \<^item> \<open>Cpl_List\<close> (\<^verbatim>\<open>port/cpl_list.cpp\<close>): the singly linked list in a heap of nodes, refined to lists.
  \<^item> \<open>Cpl_Hash_Set\<close> (\<^verbatim>\<open>port/cpl_hash_set.cpp\<close>): the hash set with its buckets, growing and shrinking; it is
    refined to the list of its elements.
  \<^item> \<open>Cpl_Base64\<close> (\<^verbatim>\<open>port/cpl_base64.cpp\<close>): the encoder, and the decoder that works in its input buffer.
  \<^item> \<open>Csl_Strings\<close>, \<open>Cpl_Escape\<close> (\<^verbatim>\<open>port/cpl_string.cpp\<close>): string lists, \<^verbatim>\<open>NAME=VALUE\<close> entries, the tokenizer with its
    growing buffer; escaping, hexadecimal, value types and bounded copies.
  \<^item> \<open>Cpl_String_List\<close> (\<^verbatim>\<open>port/cplstringlist.cpp\<close>): the class that owns an array of strings; a heap of arrays with
    their sizes. Operations are refined to the functions on lists of \<open>Csl_Strings\<close>.
  \<^item> \<open>Cpl_Path\<close> (\<^verbatim>\<open>port/cpl_path.cpp\<close>): file names, in the ring of ten static result buffers.
  \<^item> \<open>Cpl_Quad_Tree\<close> (\<^verbatim>\<open>port/cpl_quad_tree.cpp\<close>): the quad tree over bounding boxes, with both ways of splitting nodes. The
    arithmetic of doubles is a parameter. A search finds the right features after any sequence of insertions; insertion by
    capacity may recurse without end, so it is a \<open>partial_function\<close> with a condition under which it returns.
  \<^item> \<open>Cpl_Vsi_Mem\<close> (\<^verbatim>\<open>port/cpl_vsi_mem.cpp\<close>): files in memory; the state \<open>mem_fs\<close> has the file list, the files, the
    buffers and the open handles, and \<open>vsi_reachable\<close> the states of clients that respect \<open>vsi_allowed\<close>. \<open>Cpl_Vsi_Mem_Inv\<close>
    has the invariant (reference counts, well-formed buffers) and the operations on handles, \<open>Cpl_Vsi_Mem_Refs\<close> those on the
    file list, \<open>Cpl_Vsi_Mem_Props\<close> the properties, among them what goes wrong outside of \<open>vsi_allowed\<close>.
  \<^item> \<open>Cpl_Vsil_Cache\<close> (\<^verbatim>\<open>port/cpl_vsil_cache.cpp\<close>): the caching file handle, chunks of a base file in a vector and a list in
    the order of dropping. The base handle is a record of operations with the contract \<open>stable_base\<close> (a locale), under which
    \<open>Cpl_Vsil_Cache_Inv\<close> has the invariant and loading and \<open>Cpl_Vsil_Cache_Read\<close> reading; \<open>Cpl_Vsil_Cache_Props\<close>
    interprets it on the read-only handles of files in memory.
  \<^item> \<open>Gdal_Polygon_Enum\<close> (\<^verbatim>\<open>alg/gdalrasterpolygonenumerator.cpp\<close>): the numbering of the connected regions of a raster, a
    forest of numbers that is merged line by line; the result is compared with connectedness as a relation on pixels.
  \<^item> \<open>Gdal_Sieve_Filter\<close> (\<^verbatim>\<open>alg/gdalsievefilter.cpp\<close>): the filter that merges small regions, three passes over the polygon
    enumerator, and its specification by regions and their sizes; \<open>Gdal_Sieve_Passes\<close> has the lemmas on the passes,
    \<open>Gdal_Sieve_Props\<close> the correctness theorem. Reading and writing lines and the progress report are parameters.
  \<^item> \<open>Gdal_Block_Lru\<close>, \<open>Gdal_Block_Cache\<close>: the state of the block cache (\<open>gdal\<close>: the global variables, the heap of
    blocks, the bands, and the state of the driver) and all its operations: the doubly linked list of blocks, the tables of
    blocks of a band with and without sub-blocking, loading, locking, writing back, evicting, limits.
    \<open>Gdal_Block_Table\<close> has the laws of the tables, \<open>Gdal_Block_Inv\<close> the invariant (\<open>cache s L P R F\<close>: the
    state \<open>s\<close> represents the list \<open>L\<close> of blocks, newest first, the blocks \<open>P\<close> and the variables \<open>R\<close>, while the
    blocks in \<open>F\<close> are being loaded) and evictions, \<open>Gdal_Block_Load\<close> the outcomes of \<open>GetLockedBlockRef\<close>, and
    \<open>Gdal_Block_Flush\<close> those of \<open>FlushCache\<close>, both as inductive relations; \<open>Gdal_Block_Shape\<close> shows that the
    dimensions of bands stay, \<open>Gdal_Block_Client\<close> has the states that clients reach, and
    \<open>Gdal_Block_Device\<close> the contract of a driver (the locale \<open>block_device\<close>) with what users of the cache see under it.
  \<^item> \<open>Mem_Dataset\<close> (\<^verbatim>\<open>frmts/mem/memdataset.cpp\<close>): the bands of a dataset in memory; \<open>Gdal_Mem_Cache\<close> interprets
    \<open>block_device\<close> on it, and \<open>Gdal_Block_Props\<close> has the properties of the cache for its clients.

  Interfaces between components are locales, each interpreted on the model of the component that provides it.

  Bounds. The invariant of the block cache needs blocks of less than \<open>2\<^sup>31\<close> bits, because the destructor computes sizes in
  bits in an \<^verbatim>\<open>int\<close>; \<open>delete_large_block_grows_cache\<close> shows what happens beyond. Clients of the cache flush a band only
  when none of its blocks is locked, as the assertion of the destructor demands. Strings that are tokenized or escaped are
  shorter than the limits from which the \<^verbatim>\<open>int\<close> sizes of the buffers overflow (\<open>2\<^sup>3\<^sup>0 - 8\<close> characters of a token, 357913941
  characters to escape; \<open>escape_size_overflows\<close> shows what happens beyond). Times are limited to \<open>2\<^sup>55\<close> seconds.
  Positions in a cached file stay below \<open>2\<^sup>6\<^sup>2\<close>, and its requests within the longest vector. Lengths and offsets of files
  in memory stay below \<open>2\<^sup>63\<close>; \<open>vsimem_length_wraps\<close> shows what happens near \<open>2\<^sup>64\<close>.
  Rasters of at most \<open>2\<^sup>28 - 10\<close> pixels do not overflow the arrays of the polygon enumerator.
  Fuel is used only where a list in a heap is read back (\<open>recency\<close>: the number of blocks ever allocated is enough).

  Not modelled: locks and threads (the cache is modelled for one thread), messages, formatting by \<^verbatim>\<open>printf\<close>, files on disk and
  the network. The other drivers, \<^verbatim>\<open>ogr\<close>, \<^verbatim>\<open>alg\<close>, \<^verbatim>\<open>apps\<close>, the generated \<^verbatim>\<open>swig\<close> wrappers and bundled libraries below \<^verbatim>\<open>frmts\<close>
  are outside; the manifest lists them with reasons.
\<close>

end
